(* ===== verification/Prelude.thy ===== *)
theory Prelude
  imports Main "HOL-Library.Word" "HOL-Library.Multiset"
begin

text \<open>
  The vocabulary shared by every component theory.

  It names the machine types of \<^verbatim>\<open>include/qwenvl_paged/Block.h\<close> (all unsigned, so
  \<open>+\<close>, \<open>-\<close> and \<open>*\<close> wrap exactly as in C++), the collections of simplification rules
  the component proofs use, and the generic facts on words, lists, multisets and finite maps
  that more than one component needs.

  Container sizes are natural numbers: a \<^verbatim>\<open>std::vector\<close> never holds \<open>2 ^ 64\<close> elements,
  so \<^verbatim>\<open>size()\<close> is \<open>length\<close>; where the code narrows a size with
  \<^verbatim>\<open>static_cast<std::uint32_t>\<close> the model writes \<open>of_nat\<close> into \<open>32 word\<close>.
\<close>

section \<open>Machine types\<close>

type_synonym u8 = "8 word"
type_synonym u32 = "32 word"
type_synonym u64 = "64 word"

type_synonym RequestId = u64
type_synonym SequenceId = u64
type_synonym TokenPosition = u32
type_synonym LogicalBlockIndex = u32
type_synonym PhysicalBlockId = u32
type_synonym SwapSlotId = u64

abbreviation u32_of_size :: "nat \<Rightarrow> u32" where
  "u32_of_size n \<equiv> of_nat n"

section \<open>Definitions shared by the components\<close>

text \<open>The sum of a weight over the entries of a finite map, used to state what a whole
  \<^verbatim>\<open>std::unordered_map\<close> of sequences or prefixes refers to.\<close>

definition map_total :: "('v \<Rightarrow> 'b::comm_monoid_add) \<Rightarrow> ('k \<rightharpoonup> 'v) \<Rightarrow> 'b" where
  "map_total f m = (\<Sum>k\<in>dom m. f (the (m k)))"

text \<open>Overwriting a segment of a byte sequence: what \<^verbatim>\<open>std::memcpy\<close> does to its target.\<close>

definition overwrite :: "nat \<Rightarrow> 'a list \<Rightarrow> 'a list \<Rightarrow> 'a list" where
  "overwrite off bs xs = take off xs @ bs @ drop (off + length bs) xs"

definition segment :: "nat \<Rightarrow> nat \<Rightarrow> 'a list \<Rightarrow> 'a list" where
  "segment off n xs = take n (drop off xs)"

named_theorems queue_ok_defs \<open>what a request satisfies in each queue of the scheduler\<close>
named_theorems demo_defs \<open>the concrete states the witnesses run on\<close>

section \<open>Words\<close>

lemma unat_of_nat_small:
  "n < 2 ^ LENGTH('a) \<Longrightarrow> unat (of_nat n :: 'a::len word) = n"
  by (simp add: unat_of_nat)

lemma unat_of_nat_u32 [simp]: "n < 4294967296 \<Longrightarrow> unat (of_nat n :: u32) = n"
  by (rule unat_of_nat_small) simp

lemma unat_of_nat_u64 [simp]: "n < 18446744073709551616 \<Longrightarrow> unat (of_nat n :: u64) = n"
  by (rule unat_of_nat_small) simp

lemma unat_u32_lt [simp]: "unat (x :: u32) < 4294967296"
  using unsigned_less [of x, where ?'a = nat] by simp

lemma unat_u64_lt [simp]: "unat (x :: u64) < 18446744073709551616"
  using unsigned_less [of x, where ?'a = nat] by simp

lemma unat_step_u64:
  assumes "(a::u64) < b"
  shows "unat b - unat (a + 1) < unat b - unat a"
proof -
  have lt: "unat a < unat b" using assms by (simp add: word_less_nat_alt)
  then have "unat a + 1 < 18446744073709551616" using unat_u64_lt [of b] by linarith
  then show ?thesis using lt by (simp add: unat_word_ariths)
qed

declare ucast_id [simp]

lemma of_nat_u32_eq_iff:
  "a < 4294967296 \<Longrightarrow> b < 4294967296 \<Longrightarrow> (of_nat a :: u32) = of_nat b \<longleftrightarrow> a = b"
  by (metis unat_of_nat_u32)

lemma unat_eq_of_nat_u32: "unat (x :: u32) = n \<Longrightarrow> x = of_nat n"
  by auto

lemma unat_inc:
  fixes x :: "'a::len word"
  assumes "unat x + 1 < 2 ^ LENGTH('a)"
  shows "unat (x + 1) = unat x + 1"
  using assms by (simp add: unat_word_ariths)

lemma unat_inc_u32: "unat (x :: u32) + 1 < 4294967296 \<Longrightarrow> unat (x + 1) = unat x + 1"
  using unat_inc [of x] by simp

lemma unat_dec: "x \<noteq> (0 :: 'a::len word) \<Longrightarrow> unat (x - 1) = unat x - 1"
  by (metis unat_1 unat_gt_0 unat_sub word_le_nat_alt Suc_leI One_nat_def)

lemma unat_eq_0_iff_word [simp]: "unat (x :: 'a::len word) = 0 \<longleftrightarrow> x = 0"
  by (rule unat_0_iff)

section \<open>Slices of byte sequences\<close>

lemma length_overwrite [simp]:
  "off + length bs \<le> length xs \<Longrightarrow> length (overwrite off bs xs) = length xs"
  by (simp add: overwrite_def)

lemma length_segment [simp]: "off + n \<le> length xs \<Longrightarrow> length (segment off n xs) = n"
  by (simp add: segment_def)

lemma segment_overwrite_same:
  "off + length bs \<le> length xs \<Longrightarrow> segment off (length bs) (overwrite off bs xs) = bs"
  by (simp add: segment_def overwrite_def)

lemma segment_overwrite_before:
  "o' + n \<le> off \<Longrightarrow> off + length bs \<le> length xs \<Longrightarrow>
   segment o' n (overwrite off bs xs) = segment o' n xs"
  by (simp add: segment_def overwrite_def take_drop min_absorb1)

lemma segment_overwrite_after:
  assumes "off + length bs \<le> o'" and "off + length bs \<le> length xs"
  shows "segment o' n (overwrite off bs xs) = segment o' n xs"
proof -
  have "drop o' (overwrite off bs xs) = drop (o' - off - length bs) (drop (off + length bs) xs)"
    using assms by (simp add: overwrite_def)
  then show ?thesis using assms by (simp add: segment_def)
qed

lemma segment_overwrite_disjoint:
  "o' + n \<le> off \<or> off + length bs \<le> o' \<Longrightarrow> off + length bs \<le> length xs \<Longrightarrow>
   segment o' n (overwrite off bs xs) = segment o' n xs"
  using segment_overwrite_before segment_overwrite_after by blast

text \<open>Two frames of the same stride never overlap.\<close>

lemma frames_disjoint: "i \<noteq> j \<Longrightarrow> i * s + s \<le> j * s \<or> j * s + s \<le> (i::nat) * s"
proof -
  assume "i \<noteq> j"
  then have "Suc i \<le> j \<or> Suc j \<le> i" by arith
  then have "Suc i * s \<le> j * s \<or> Suc j * s \<le> i * s"
    using mult_le_mono1 by blast
  then show ?thesis by (simp add: add.commute)
qed

lemma frame_fits: "i < n \<Longrightarrow> i * s + s \<le> (n::nat) * s"
  by (metis Suc_leI add.commute mult_Suc mult_le_mono1)

section \<open>Totals over finite maps\<close>

lemma map_total_empty [simp]: "map_total f Map.empty = 0"
  by (simp add: map_total_def)

lemma map_total_upd:
  assumes "finite (dom m)"
  shows "map_total f (m(k \<mapsto> v)) = f v + map_total f (m(k := None))"
proof -
  have "(\<Sum>x\<in>dom m - {k}. f (the ((m(k \<mapsto> v)) x))) = (\<Sum>x\<in>dom m - {k}. f (the ((m(k := None)) x)))"
    by (rule sum.cong) auto
  then show ?thesis
    using assms by (simp add: map_total_def sum.insert_remove)
qed

lemma map_total_remove:
  assumes "finite (dom m)" and "m k = Some v"
  shows "map_total f m = f v + map_total f (m(k := None))"
  using map_total_upd [OF assms(1), of f k v] assms(2) by (simp add: map_upd_triv)

lemma map_total_insert:
  "finite (dom m) \<Longrightarrow> m k = None \<Longrightarrow> map_total f (m(k \<mapsto> v)) = f v + map_total f m"
  by (simp add: map_total_upd fun_upd_idem)

lemma map_total_mset_mem:
  assumes "finite (dom m)" and "m k = Some v"
  shows "(f v :: 'a multiset) \<subseteq># map_total f m"
  by (simp add: map_total_remove [OF assms])

lemma in_map_total_iff:
  fixes f :: "'v \<Rightarrow> 'a multiset"
  assumes "finite (dom m)"
  shows "x \<in># map_total f m \<longleftrightarrow> (\<exists>k v. m k = Some v \<and> x \<in># f v)"
proof -
  have "x \<in># map_total f m \<longleftrightarrow> (\<exists>k\<in>dom m. x \<in># f (the (m k)))"
    using assms by (simp add: map_total_def set_mset_sum)
  also have "\<dots> \<longleftrightarrow> (\<exists>k v. m k = Some v \<and> x \<in># f v)"
  proof
    assume "\<exists>k\<in>dom m. x \<in># f (the (m k))"
    then show "\<exists>k v. m k = Some v \<and> x \<in># f v" by (metis domD option.sel)
  next
    assume "\<exists>k v. m k = Some v \<and> x \<in># f v"
    then obtain k v where "m k = Some v" and "x \<in># f v" by blast
    then have "k \<in> dom m" and "x \<in># f (the (m k))" by auto
    then show "\<exists>k\<in>dom m. x \<in># f (the (m k))" by blast
  qed
  finally show ?thesis .
qed

section \<open>References taken afresh\<close>

text \<open>\<open>no_dup\<close>: no item twice. \<open>fresh_refs\<close>: going from one multiset to the other, an item that was
  there is not taken again and a new one is taken once.\<close>

definition no_dup :: "'a multiset \<Rightarrow> bool" where
  "no_dup M \<longleftrightarrow> (\<forall>x. count M x \<le> 1)"

definition fresh_refs :: "'a multiset \<Rightarrow> 'a multiset \<Rightarrow> bool" where
  "fresh_refs A B \<longleftrightarrow> (\<forall>x. count B x \<le> max 1 (count A x))"

lemma fresh_refs_refl [simp]: "fresh_refs A A"
  by (simp add: fresh_refs_def)

lemma fresh_refs_trans: "fresh_refs A B \<Longrightarrow> fresh_refs B C \<Longrightarrow> fresh_refs A C"
  by (fastforce simp: fresh_refs_def le_max_iff_disj intro: order_trans)

lemma fresh_refs_subset: "B \<subseteq># A \<Longrightarrow> fresh_refs A B"
  by (auto simp: fresh_refs_def subseteq_mset_def le_max_iff_disj)

lemma fresh_refs_add: "x \<notin># A \<Longrightarrow> fresh_refs A (add_mset x A)"
  by (simp add: fresh_refs_def not_in_iff le_max_iff_disj)

lemma fresh_refs_replace: "x \<notin># add_mset y A \<Longrightarrow> fresh_refs (add_mset y A) (add_mset x A)"
  by (auto simp: fresh_refs_def not_in_iff le_max_iff_disj split: if_splits)

text \<open>Whoever else holds references, a part that had no duplicates has none afterwards.\<close>

lemma fresh_refs_part:
  assumes "fresh_refs (R + A) (R + B)" and "no_dup A"
  shows "no_dup B"
proof -
  have "count B x \<le> 1" for x
    using assms [unfolded fresh_refs_def no_dup_def, THEN spec, of x] by (simp add: le_max_iff_disj) arith
  then show ?thesis by (simp add: no_dup_def)
qed

lemma no_dup_empty [simp]: "no_dup {#}"
  by (simp add: no_dup_def)

lemma no_dup_count: "no_dup M \<longleftrightarrow> (\<forall>x. count M x = (if x \<in># M then 1 else 0))"
proof -
  have "count M x \<le> 1 \<longleftrightarrow> count M x = (if x \<in># M then 1 else 0)" for x
  proof (cases "x \<in># M")
    case True
    then have "1 \<le> count M x" by (simp only: Suc_le_eq One_nat_def count_greater_zero_iff)
    then have "count M x \<le> 1 \<longleftrightarrow> count M x = 1" by linarith
    then show ?thesis using True by simp
  qed (simp add: not_in_iff)
  then show ?thesis unfolding no_dup_def by simp
qed

lemma no_dup_mset [simp]: "no_dup (mset xs) \<longleftrightarrow> distinct xs"
  by (simp add: distinct_count_atmost_1 no_dup_count)

lemma no_dup_add: "no_dup A \<Longrightarrow> no_dup B \<Longrightarrow> set_mset A \<inter> set_mset B = {} \<Longrightarrow> no_dup (A + B)"
proof -
  assume a: "no_dup A" "no_dup B" "set_mset A \<inter> set_mset B = {}"
  have "count A x + count B x \<le> 1" for x
  proof (cases "x \<in># A")
    case True
    then have "x \<notin># B" using a(3) by blast
    then show ?thesis using a(1) by (simp add: no_dup_def not_in_iff)
  next
    case False
    then show ?thesis using a(2) by (simp add: no_dup_def not_in_iff)
  qed
  then show ?thesis by (simp add: no_dup_def)
qed

lemma no_dup_size: "no_dup M \<Longrightarrow> size M = card (set_mset M)"
proof -
  assume "no_dup M"
  then have "M = mset_set (set_mset M)"
    by (intro multiset_eqI) (simp add: no_dup_count count_mset_set')
  then show ?thesis by (metis size_mset_set)
qed

end
