(* ===== verification/Block.thy ===== *)
theory Block
  imports Prelude
begin

text \<open>
  The data of \<^verbatim>\<open>include/qwenvl_paged/Block.h\<close> and \<^verbatim>\<open>src/Block.cpp\<close>: cache kinds, block
  states, the shape of a physical block, the logical page descriptor and the frame descriptor.

  Pointers into the pool are byte offsets from the base of the single slab (\<open>None\<close> is
  \<^verbatim>\<open>nullptr\<close>), which is how \<^verbatim>\<open>MemoryAllocator::bind_frames\<close> forms them.
\<close>

section \<open>Definitions\<close>

definition kDefaultBlockAlignmentBytes :: u64 where
  "kDefaultBlockAlignmentBytes = 256"

datatype CacheKind = TextKV | VisionKV | RopeState | Auxiliary

datatype BlockState = Free | Active | Shared | Swapped

record BlockShape =
  tokens_per_block :: u32
  num_layers :: u32
  num_kv_heads :: u32
  head_dim :: u32
  bytes_per_element :: u32
  layers_per_frame :: u32

text \<open>\<^verbatim>\<open>BlockShape{}\<close>: every member has the default initialiser \<^verbatim>\<open>{0}\<close>.\<close>

definition default_BlockShape :: BlockShape where
  "default_BlockShape =
     \<lparr>tokens_per_block = 0, num_layers = 0, num_kv_heads = 0, head_dim = 0,
      bytes_per_element = 0, layers_per_frame = 0\<rparr>"

definition frame_layers :: "BlockShape \<Rightarrow> u32" where
  "frame_layers s = (if layers_per_frame s = 0 then num_layers s else layers_per_frame s)"

definition per_layer_frames :: "BlockShape \<Rightarrow> bool" where
  "per_layer_frames s \<longleftrightarrow> frame_layers s = 1 \<and> num_layers s > 1"

text \<open>The product is a \<^verbatim>\<open>std::size_t\<close> from the first factor on, so it wraps at 64 bits.\<close>

definition byte_size :: "BlockShape \<Rightarrow> u64" where
  "byte_size s =
     ucast (tokens_per_block s) * ucast (frame_layers s) * ucast (num_kv_heads s)
       * ucast (head_dim s) * ucast (bytes_per_element s) * 2"

record HostMemoryOptions =
  alignment_bytes :: u64
  prefer_pinned_memory :: bool

record LogicalBlock =
  lb_sequence_id :: SequenceId
  lb_index :: LogicalBlockIndex
  lb_cache_kind :: CacheKind
  lb_start_token :: TokenPosition
  lb_token_count :: u32

definition lb_empty :: "LogicalBlock \<Rightarrow> bool" where
  "lb_empty b \<longleftrightarrow> lb_token_count b = 0"

record PhysicalBlock =
  pb_id :: PhysicalBlockId
  pb_shape :: BlockShape
  pb_storage :: "u64 option"
  pb_size_bytes :: u64

section \<open>Facts\<close>

lemma byte_size_unat:
  assumes "unat (tokens_per_block s) * unat (frame_layers s) * unat (num_kv_heads s)
             * unat (head_dim s) * unat (bytes_per_element s) * 2 < 18446744073709551616"
  shows "unat (byte_size s) =
    unat (tokens_per_block s) * unat (frame_layers s) * unat (num_kv_heads s)
      * unat (head_dim s) * unat (bytes_per_element s) * 2"
proof -
  have "byte_size s = of_nat (unat (tokens_per_block s) * unat (frame_layers s)
      * unat (num_kv_heads s) * unat (head_dim s) * unat (bytes_per_element s) * 2)"
    by (simp add: byte_size_def)
  then show ?thesis using assms unat_of_nat_u64 by metis
qed

lemma per_layer_frames_num_layers: "per_layer_frames s \<Longrightarrow> 1 < unat (num_layers s)"
  by (simp add: per_layer_frames_def word_less_nat_alt)

end
