(* ===== verification/BlockTable.thy ===== *)
theory BlockTable
  imports Block
begin

text \<open>
  The per-sequence page table of \<^verbatim>\<open>include/qwenvl_paged/BlockTable.h\<close> and
  \<^verbatim>\<open>src/BlockTable.cpp\<close>: a vector of entries kept in logical-block order, searched with
  \<^verbatim>\<open>std::lower_bound\<close>.

  \<^verbatim>\<open>std::lower_bound\<close> is modelled by its definition in the language standard: the furthermost
  position such that every entry before it compares less. A pointer to an entry is its
  position in the vector. The locale \<open>page_table\<close> states what the cache manager relies on,
  as laws over the finite map a table represents, and the vector implementation is shown to
  satisfy it as long as the entries stay sorted, which every operation preserves.
\<close>

section \<open>Definitions\<close>

record BlockTableEntry =
  logical :: LogicalBlock
  physical_id :: PhysicalBlockId
  writable :: bool
  swap_slot :: "SwapSlotId option"

record BlockTable =
  bt_sequence_id :: SequenceId
  bt_cache_kind :: CacheKind
  entries :: "BlockTableEntry list"

abbreviation entry_index :: "BlockTableEntry \<Rightarrow> LogicalBlockIndex" where
  "entry_index e \<equiv> lb_index (logical e)"

definition BlockTable_new :: "SequenceId \<Rightarrow> CacheKind \<Rightarrow> BlockTable" where
  "BlockTable_new sid kind = \<lparr>bt_sequence_id = sid, bt_cache_kind = kind, entries = []\<rparr>"

definition lower_bound_index :: "BlockTableEntry list \<Rightarrow> LogicalBlockIndex \<Rightarrow> nat" where
  "lower_bound_index es idx = length (takeWhile (\<lambda>e. entry_index e < idx) es)"

definition bt_size :: "BlockTable \<Rightarrow> nat" where
  "bt_size t = length (entries t)"

definition bt_empty :: "BlockTable \<Rightarrow> bool" where
  "bt_empty t \<longleftrightarrow> entries t = []"

definition bt_map :: "BlockTable \<Rightarrow> LogicalBlock \<Rightarrow> PhysicalBlockId \<Rightarrow> bool \<Rightarrow> BlockTable" where
  "bt_map t l pid w =
     (let es = entries t; i = lower_bound_index es (lb_index l) in
      if i < length es \<and> entry_index (es ! i) = lb_index l
      then t\<lparr>entries := es[i := (es ! i)\<lparr>logical := l, physical_id := pid, writable := w,
                                        swap_slot := None\<rparr>]\<rparr>
      else
        let entry = \<lparr>logical = l, physical_id = pid, writable = w, swap_slot = None\<rparr>
        in t\<lparr>entries := take i es @ entry # drop i es\<rparr>)"

definition bt_unmap :: "BlockTable \<Rightarrow> LogicalBlockIndex \<Rightarrow> PhysicalBlockId option \<times> BlockTable" where
  "bt_unmap t idx =
     (let es = entries t; i = lower_bound_index es idx in
      if i = length es \<or> entry_index (es ! i) \<noteq> idx then (None, t)
      else (Some (physical_id (es ! i)), t\<lparr>entries := take i es @ drop (Suc i) es\<rparr>))"

definition bt_lookup :: "BlockTable \<Rightarrow> LogicalBlockIndex \<Rightarrow> PhysicalBlockId option" where
  "bt_lookup t idx =
     (let es = entries t; i = lower_bound_index es idx in
      if i = length es \<or> entry_index (es ! i) \<noteq> idx then None
      else if swap_slot (es ! i) \<noteq> None then None
      else Some (physical_id (es ! i)))"

definition bt_entry :: "BlockTable \<Rightarrow> LogicalBlockIndex \<Rightarrow> BlockTableEntry option" where
  "bt_entry t idx =
     (let es = entries t; i = lower_bound_index es idx in
      if i = length es \<or> entry_index (es ! i) \<noteq> idx then None else Some (es ! i))"

definition mutable_entry :: "BlockTable \<Rightarrow> LogicalBlockIndex \<Rightarrow> nat option" where
  "mutable_entry t idx =
     (let es = entries t; i = lower_bound_index es idx in
      if i = length es \<or> entry_index (es ! i) \<noteq> idx then None else Some i)"

text \<open>Writing through the pointer \<^verbatim>\<open>mutable_entry\<close> returned.\<close>

definition bt_update_at :: "BlockTable \<Rightarrow> nat \<Rightarrow> (BlockTableEntry \<Rightarrow> BlockTableEntry) \<Rightarrow> BlockTable" where
  "bt_update_at t i f = t\<lparr>entries := (entries t)[i := f (entries t ! i)]\<rparr>"

definition set_writable :: "BlockTable \<Rightarrow> LogicalBlockIndex \<Rightarrow> bool \<Rightarrow> BlockTable" where
  "set_writable t idx w =
     (case mutable_entry t idx of
        None \<Rightarrow> t
      | Some i \<Rightarrow> bt_update_at t i (\<lambda>e. e\<lparr>writable := w\<rparr>))"

definition fork_entry :: "SequenceId \<Rightarrow> BlockTableEntry \<Rightarrow> BlockTableEntry" where
  "fork_entry child e =
     e\<lparr>writable := False, logical := (logical e)\<lparr>lb_sequence_id := child\<rparr>\<rparr>"

definition bt_fork :: "BlockTable \<Rightarrow> SequenceId \<Rightarrow> BlockTable" where
  "bt_fork t child =
     t\<lparr>bt_sequence_id := child, entries := map (fork_entry child) (entries t)\<rparr>"

text \<open>The order the vector is kept in, and the finite map it represents.\<close>

definition bt_sorted :: "BlockTable \<Rightarrow> bool" where
  "bt_sorted t \<longleftrightarrow> sorted_wrt (<) (map entry_index (entries t))"

definition bt_abs :: "BlockTable \<Rightarrow> LogicalBlockIndex \<rightharpoonup> BlockTableEntry" where
  "bt_abs t = map_of (map (\<lambda>e. (entry_index e, e)) (entries t))"

text \<open>A table filled by the cache manager has the entries \<open>0, 1, 2, \<dots>\<close> with no gap.\<close>

definition bt_contiguous :: "BlockTable \<Rightarrow> bool" where
  "bt_contiguous t \<longleftrightarrow>
     length (entries t) < 4294967296
     \<and> map entry_index (entries t) = map of_nat [0..<length (entries t)]"

section \<open>What a page table promises its clients\<close>

locale page_table =
  fixes map_entry :: "'t \<Rightarrow> LogicalBlock \<Rightarrow> PhysicalBlockId \<Rightarrow> bool \<Rightarrow> 't"
    and unmap :: "'t \<Rightarrow> LogicalBlockIndex \<Rightarrow> PhysicalBlockId option \<times> 't"
    and lookup :: "'t \<Rightarrow> LogicalBlockIndex \<Rightarrow> PhysicalBlockId option"
    and entry :: "'t \<Rightarrow> LogicalBlockIndex \<Rightarrow> BlockTableEntry option"
    and fork :: "'t \<Rightarrow> SequenceId \<Rightarrow> 't"
    and invar :: "'t \<Rightarrow> bool"
    and abs :: "'t \<Rightarrow> LogicalBlockIndex \<rightharpoonup> BlockTableEntry"
  assumes entry_abs: "invar t \<Longrightarrow> entry t i = abs t i"
    and lookup_abs: "invar t \<Longrightarrow> lookup t i =
          (case abs t i of None \<Rightarrow> None
           | Some e \<Rightarrow> if swap_slot e \<noteq> None then None else Some (physical_id e))"
    and map_abs: "invar t \<Longrightarrow> abs (map_entry t l p w) =
          (abs t)(lb_index l \<mapsto> \<lparr>logical = l, physical_id = p, writable = w, swap_slot = None\<rparr>)"
    and map_invar: "invar t \<Longrightarrow> invar (map_entry t l p w)"
    and unmap_result: "invar t \<Longrightarrow> fst (unmap t i) = map_option physical_id (abs t i)"
    and unmap_abs: "invar t \<Longrightarrow> abs (snd (unmap t i)) = (abs t)(i := None)"
    and unmap_invar: "invar t \<Longrightarrow> invar (snd (unmap t i))"
    and fork_abs: "invar t \<Longrightarrow> abs (fork t c) i = map_option (fork_entry c) (abs t i)"
    and fork_invar: "invar t \<Longrightarrow> invar (fork t c)"
begin

lemma lookup_after_map:
  "invar t \<Longrightarrow> lookup (map_entry t l p w) i = (if i = lb_index l then Some p else lookup t i)"
  by (simp add: lookup_abs map_abs map_invar)

lemma lookup_after_unmap:
  "invar t \<Longrightarrow> lookup (snd (unmap t i)) j = (if j = i then None else lookup t j)"
  by (simp add: lookup_abs unmap_abs unmap_invar)

lemma unmap_after_map:
  "invar t \<Longrightarrow> fst (unmap (map_entry t l p w) (lb_index l)) = Some p"
  by (simp add: unmap_result map_abs map_invar)

lemma lookup_fork: "invar t \<Longrightarrow> lookup (fork t c) i = lookup t i"
  by (simp add: lookup_abs fork_abs fork_invar fork_entry_def split: option.splits)

lemma fork_read_only:
  "invar t \<Longrightarrow> entry (fork t c) i = Some e \<Longrightarrow> \<not> writable e \<and> lb_sequence_id (logical e) = c"
  by (auto simp: entry_abs fork_abs fork_invar fork_entry_def)

end

section \<open>Searching a sorted vector\<close>

abbreviation index_pairs :: "BlockTableEntry list \<Rightarrow> (LogicalBlockIndex \<times> BlockTableEntry) list" where
  "index_pairs es \<equiv> map (\<lambda>e. (entry_index e, e)) es"

lemma lower_bound_le [simp]: "lower_bound_index es idx \<le> length es"
  by (simp add: lower_bound_index_def length_takeWhile_le)

lemma lower_bound_split:
  assumes "sorted_wrt (<) (map entry_index es)"
  shows "\<forall>e\<in>set (take (lower_bound_index es idx) es). entry_index e < idx"
    and "\<forall>e\<in>set (drop (lower_bound_index es idx) es). idx \<le> entry_index e"
proof -
  let ?P = "\<lambda>e. entry_index e < idx"
  have "take (lower_bound_index es idx) es = takeWhile ?P es"
    unfolding lower_bound_index_def by (rule takeWhile_eq_take [symmetric])
  then show "\<forall>e\<in>set (take (lower_bound_index es idx) es). entry_index e < idx"
    by (auto dest: set_takeWhileD)
  have "drop (lower_bound_index es idx) es = dropWhile ?P es"
    unfolding lower_bound_index_def by (rule dropWhile_eq_drop [symmetric])
  moreover have "\<forall>e\<in>set (dropWhile ?P es). idx \<le> entry_index e"
    using assms by (induction es) (auto simp: not_less)
  ultimately show "\<forall>e\<in>set (drop (lower_bound_index es idx) es). idx \<le> entry_index e"
    by simp
qed

lemma map_of_index_pairs_None:
  "map_of (index_pairs es) idx = None \<longleftrightarrow> (\<forall>e\<in>set es. entry_index e \<noteq> idx)"
  by (auto simp: map_of_eq_None_iff image_iff)

lemma map_of_index_pairs_hit:
  "sorted_wrt (<) (map entry_index es) \<Longrightarrow> i < length es \<Longrightarrow>
   map_of (index_pairs es) (entry_index (es ! i)) = Some (es ! i)"
proof -
  assume sorted: "sorted_wrt (<) (map entry_index es)" and i: "i < length es"
  have "distinct (map fst (index_pairs es))"
    using sorted by (simp add: comp_def strict_sorted_iff)
  moreover have "(entry_index (es ! i), es ! i) \<in> set (index_pairs es)"
    using i by auto
  ultimately show ?thesis by (rule map_of_is_SomeI)
qed

text \<open>The search finds the entry with the wanted index exactly when the table has one.\<close>

lemma lower_bound_hit_iff:
  assumes "sorted_wrt (<) (map entry_index es)"
  shows "lower_bound_index es idx < length es \<and> entry_index (es ! lower_bound_index es idx) = idx
    \<longleftrightarrow> map_of (index_pairs es) idx \<noteq> None"
    (is "?hit \<longleftrightarrow> ?some")
proof
  assume ?hit
  then show ?some using map_of_index_pairs_hit [OF assms] by force
next
  let ?i = "lower_bound_index es idx"
  assume ?some
  then obtain e where e: "e \<in> set es" "entry_index e = idx"
    by (auto simp: map_of_index_pairs_None)
  then have "e \<notin> set (take ?i es)"
    using lower_bound_split(1) [OF assms, of idx] by force
  with e have drop: "e \<in> set (drop ?i es)"
    by (metis UnE append_take_drop_id set_append)
  then have lt: "?i < length es" by (metis drop_all empty_iff leI list.set(1))
  have split: "drop ?i es = es ! ?i # drop (Suc ?i) es" using lt by (simp add: Cons_nth_drop_Suc)
  have "entry_index (es ! ?i) = idx"
  proof (rule ccontr)
    assume ne: "entry_index (es ! ?i) \<noteq> idx"
    have "idx \<le> entry_index (es ! ?i)"
      using lower_bound_split(2) [OF assms, of idx] split by simp
    with ne have gt: "idx < entry_index (es ! ?i)" by simp
    from ne e(2) drop split have "e \<in> set (drop (Suc ?i) es)" by auto
    moreover have "sorted_wrt (<) (map entry_index (drop ?i es))"
      using sorted_wrt_drop [OF assms, of ?i] by (simp add: drop_map)
    ultimately have "entry_index (es ! ?i) < entry_index e" unfolding split by auto
    with gt e(2) show False by simp
  qed
  with lt show ?hit by simp
qed

lemma bt_search:
  assumes "bt_sorted t"
  shows "bt_entry t idx = bt_abs t idx"
    and "mutable_entry t idx = None \<longleftrightarrow> bt_abs t idx = None"
    and "mutable_entry t idx = Some i \<Longrightarrow>
           i < length (entries t) \<and> bt_abs t idx = Some (entries t ! i) \<and> entry_index (entries t ! i) = idx"
    and "bt_lookup t idx = (case bt_abs t idx of None \<Rightarrow> None
           | Some e \<Rightarrow> if swap_slot e \<noteq> None then None else Some (physical_id e))"
proof -
  let ?es = "entries t" and ?i = "lower_bound_index (entries t) idx"
  have sorted: "sorted_wrt (<) (map entry_index ?es)" using assms by (simp add: bt_sorted_def)
  have miss: "?i = length ?es \<or> entry_index (?es ! ?i) \<noteq> idx \<longleftrightarrow> bt_abs t idx = None"
    using lower_bound_hit_iff [OF sorted, of idx] lower_bound_le [of ?es idx]
    unfolding bt_abs_def less_le by blast
  have hit: "bt_abs t idx = Some (?es ! ?i)" if "\<not> (?i = length ?es \<or> entry_index (?es ! ?i) \<noteq> idx)"
    using that map_of_index_pairs_hit [OF sorted, of ?i] lower_bound_le [of ?es idx]
    unfolding bt_abs_def by auto
  show "bt_entry t idx = bt_abs t idx"
    using miss hit by (auto simp: bt_entry_def Let_def)
  show "mutable_entry t idx = None \<longleftrightarrow> bt_abs t idx = None"
    using miss by (simp add: mutable_entry_def Let_def)
  show "i < length ?es \<and> bt_abs t idx = Some (?es ! i) \<and> entry_index (?es ! i) = idx"
    if "mutable_entry t idx = Some i"
    using that hit lower_bound_le [of ?es idx]
    by (auto simp: mutable_entry_def Let_def order.order_iff_strict split: if_splits)
  show "bt_lookup t idx = (case bt_abs t idx of None \<Rightarrow> None
      | Some e \<Rightarrow> if swap_slot e \<noteq> None then None else Some (physical_id e))"
    using miss hit by (auto simp: bt_lookup_def Let_def split: option.splits)
qed

section \<open>Each operation on the represented map\<close>

lemma map_of_insert_middle:
  "k \<notin> fst ` set xs \<Longrightarrow> map_of (xs @ (k, v) # ys) = (map_of (xs @ ys))(k \<mapsto> v)"
  by (induction xs) (auto simp: fun_eq_iff)

lemma map_of_index_pairs_update:
  "distinct (map entry_index es) \<Longrightarrow> i < length es \<Longrightarrow> entry_index new = entry_index (es ! i) \<Longrightarrow>
   map_of (index_pairs (es[i := new])) = (map_of (index_pairs es))(entry_index new \<mapsto> new)"
proof (induction es arbitrary: i)
  case Nil
  then show ?case by simp
next
  case (Cons e es)
  show ?case
  proof (cases i)
    case 0
    with Cons.prems show ?thesis by (auto simp: fun_eq_iff)
  next
    case (Suc j)
    with Cons.prems have "entry_index e \<noteq> entry_index new" by auto
    with Suc Cons show ?thesis by (auto simp: fun_eq_iff)
  qed
qed

lemma map_of_index_pairs_delete:
  "distinct (map entry_index es) \<Longrightarrow> i < length es \<Longrightarrow>
   map_of (index_pairs (take i es @ drop (Suc i) es))
     = (map_of (index_pairs es))(entry_index (es ! i) := None)"
proof (induction es arbitrary: i)
  case Nil
  then show ?case by simp
next
  case (Cons e es)
  show ?case
  proof (cases i)
    case 0
    have "map_of (index_pairs es) (entry_index e) = None"
      using Cons.prems by (auto simp: map_of_index_pairs_None image_iff)
    with 0 show ?thesis by (auto simp: fun_eq_iff)
  next
    case (Suc j)
    with Cons.prems have "entry_index e \<noteq> entry_index (es ! j)" by auto
    with Suc Cons show ?thesis by (auto simp: fun_eq_iff)
  qed
qed

lemma bt_sorted_distinct: "bt_sorted t \<Longrightarrow> distinct (map entry_index (entries t))"
  by (simp add: bt_sorted_def strict_sorted_iff)

lemma bt_update_at_abs:
  assumes "bt_sorted t" and "i < length (entries t)"
    and "entry_index (f (entries t ! i)) = entry_index (entries t ! i)"
  shows "bt_sorted (bt_update_at t i f)"
    and "bt_abs (bt_update_at t i f) = (bt_abs t)(entry_index (entries t ! i) \<mapsto> f (entries t ! i))"
proof -
  have "map entry_index ((entries t)[i := f (entries t ! i)]) = map entry_index (entries t)"
    using assms(2,3) by (simp add: map_update list_update_same_conv)
  then show "bt_sorted (bt_update_at t i f)"
    using assms(1) by (simp add: bt_sorted_def bt_update_at_def)
  show "bt_abs (bt_update_at t i f) = (bt_abs t)(entry_index (entries t ! i) \<mapsto> f (entries t ! i))"
    using map_of_index_pairs_update [OF bt_sorted_distinct [OF assms(1)] assms(2,3)]
    by (simp add: bt_abs_def bt_update_at_def assms(3))
qed

lemma bt_map_cases:
  assumes "bt_sorted t"
  shows "bt_map t l p w =
    (case mutable_entry t (lb_index l) of
       Some i \<Rightarrow> bt_update_at t i (\<lambda>_. \<lparr>logical = l, physical_id = p, writable = w, swap_slot = None\<rparr>)
     | None \<Rightarrow> t\<lparr>entries := take (lower_bound_index (entries t) (lb_index l)) (entries t)
         @ \<lparr>logical = l, physical_id = p, writable = w, swap_slot = None\<rparr>
         # drop (lower_bound_index (entries t) (lb_index l)) (entries t)\<rparr>)"
proof -
  have rebuild: "e\<lparr>logical := l, physical_id := p, writable := w, swap_slot := None\<rparr>
      = \<lparr>logical = l, physical_id = p, writable = w, swap_slot = None\<rparr>" for e :: BlockTableEntry
    by (cases e) simp
  show ?thesis
    using lower_bound_le [of "entries t" "lb_index l"]
    by (auto simp: bt_map_def mutable_entry_def bt_update_at_def Let_def less_le rebuild)
qed

lemma bt_insert_sorted:
  assumes sorted: "bt_sorted t" and new: "\<forall>e\<in>set (entries t). entry_index e \<noteq> entry_index x"
  defines "i \<equiv> lower_bound_index (entries t) (entry_index x)"
  shows "bt_sorted (t\<lparr>entries := take i (entries t) @ x # drop i (entries t)\<rparr>)"
    and "bt_abs (t\<lparr>entries := take i (entries t) @ x # drop i (entries t)\<rparr>)
           = (bt_abs t)(entry_index x \<mapsto> x)"
proof -
  have "sorted_wrt (<) (map entry_index (take i (entries t) @ drop i (entries t)))"
    using sorted by (simp add: bt_sorted_def)
  then have es: "sorted_wrt (<) (map entry_index (take i (entries t)))"
    "sorted_wrt (<) (map entry_index (drop i (entries t)))"
    unfolding map_append sorted_wrt_append by blast+
  have lo: "\<forall>e\<in>set (take i (entries t)). entry_index e < entry_index x"
    and ge: "\<forall>e\<in>set (drop i (entries t)). entry_index x \<le> entry_index e"
    using lower_bound_split [of "entries t" "entry_index x"] sorted
    unfolding i_def bt_sorted_def by blast+
  have hi: "\<forall>e\<in>set (drop i (entries t)). entry_index x < entry_index e"
    using ge new in_set_dropD order.not_eq_order_implies_strict by metis
  show "bt_sorted (t\<lparr>entries := take i (entries t) @ x # drop i (entries t)\<rparr>)"
    using es lo hi by (fastforce simp: bt_sorted_def sorted_wrt_append)
  have "entry_index x \<notin> fst ` set (index_pairs (take i (entries t)))"
    using lo by auto
  then have "map_of (index_pairs (take i (entries t)) @ (entry_index x, x) # index_pairs (drop i (entries t)))
      = (map_of (index_pairs (take i (entries t)) @ index_pairs (drop i (entries t))))(entry_index x \<mapsto> x)"
    by (rule map_of_insert_middle)
  moreover have "index_pairs (take i (entries t)) @ index_pairs (drop i (entries t)) = index_pairs (entries t)"
    by (simp flip: map_append)
  ultimately show "bt_abs (t\<lparr>entries := take i (entries t) @ x # drop i (entries t)\<rparr>)
      = (bt_abs t)(entry_index x \<mapsto> x)"
    unfolding bt_abs_def by (simp del: map_of_append)
qed

lemma bt_map_abs:
  assumes "bt_sorted t"
  shows "bt_sorted (bt_map t l p w)"
    and "bt_abs (bt_map t l p w) =
      (bt_abs t)(lb_index l \<mapsto> \<lparr>logical = l, physical_id = p, writable = w, swap_slot = None\<rparr>)"
proof -
  let ?x = "\<lparr>logical = l, physical_id = p, writable = w, swap_slot = None\<rparr>"
  have "bt_sorted (bt_map t l p w) \<and> bt_abs (bt_map t l p w) = (bt_abs t)(lb_index l \<mapsto> ?x)"
  proof (cases "mutable_entry t (lb_index l)")
    case None
    then have "\<forall>e\<in>set (entries t). entry_index e \<noteq> entry_index ?x"
      using bt_search(2) [OF assms] by (simp add: bt_abs_def map_of_index_pairs_None)
    from bt_insert_sorted [OF assms this] None show ?thesis
      by (simp add: bt_map_cases [OF assms])
  next
    case (Some i)
    with bt_search(3) [OF assms] have "i < length (entries t)"
      "entry_index (entries t ! i) = lb_index l" by blast+
    with bt_update_at_abs [OF assms, of i "\<lambda>_. ?x"] Some show ?thesis
      by (simp add: bt_map_cases [OF assms])
  qed
  then show "bt_sorted (bt_map t l p w)"
    and "bt_abs (bt_map t l p w) = (bt_abs t)(lb_index l \<mapsto> ?x)" by blast+
qed

lemma bt_unmap_cases:
  assumes "bt_sorted t"
  shows "bt_unmap t idx =
    (case mutable_entry t idx of
       None \<Rightarrow> (None, t)
     | Some i \<Rightarrow> (Some (physical_id (entries t ! i)),
                 t\<lparr>entries := take i (entries t) @ drop (Suc i) (entries t)\<rparr>))"
  by (auto simp: bt_unmap_def mutable_entry_def Let_def)

lemma bt_unmap_abs:
  assumes "bt_sorted t"
  shows "fst (bt_unmap t idx) = map_option physical_id (bt_abs t idx)"
    and "bt_abs (snd (bt_unmap t idx)) = (bt_abs t)(idx := None)"
    and "bt_sorted (snd (bt_unmap t idx))"
proof -
  have "fst (bt_unmap t idx) = map_option physical_id (bt_abs t idx)
    \<and> bt_abs (snd (bt_unmap t idx)) = (bt_abs t)(idx := None) \<and> bt_sorted (snd (bt_unmap t idx))"
  proof (cases "mutable_entry t idx")
    case None
    then show ?thesis
      using bt_search(2) [OF assms, of idx] assms
      by (simp add: bt_unmap_cases [OF assms] fun_upd_idem)
  next
    case (Some i)
    note i = bt_search(3) [OF assms Some]
    have "sorted_wrt (<) (map entry_index (take i (entries t) @ entries t ! i # drop (Suc i) (entries t)))"
      using assms i by (simp add: bt_sorted_def flip: id_take_nth_drop)
    then have "bt_sorted (t\<lparr>entries := take i (entries t) @ drop (Suc i) (entries t)\<rparr>)"
      by (simp add: bt_sorted_def sorted_wrt_append)
    with Some i map_of_index_pairs_delete [OF bt_sorted_distinct [OF assms], of i] show ?thesis
      by (simp add: bt_unmap_cases [OF assms] bt_abs_def)
  qed
  then show "fst (bt_unmap t idx) = map_option physical_id (bt_abs t idx)"
    and "bt_abs (snd (bt_unmap t idx)) = (bt_abs t)(idx := None)"
    and "bt_sorted (snd (bt_unmap t idx))" by blast+
qed

lemma fork_entry_simps [simp]:
  "entry_index (fork_entry c e) = entry_index e"
  "physical_id (fork_entry c e) = physical_id e"
  "swap_slot (fork_entry c e) = swap_slot e"
  "lb_token_count (logical (fork_entry c e)) = lb_token_count (logical e)"
  "lb_sequence_id (logical (fork_entry c e)) = c"
  "\<not> writable (fork_entry c e)"
  by (simp_all add: fork_entry_def)

lemma bt_fork_abs:
  "bt_sorted (bt_fork t c) \<longleftrightarrow> bt_sorted t"
  "bt_abs (bt_fork t c) i = map_option (fork_entry c) (bt_abs t i)"
proof -
  show "bt_sorted (bt_fork t c) \<longleftrightarrow> bt_sorted t"
    by (simp add: bt_sorted_def bt_fork_def comp_def)
  have "map_of (index_pairs (map (fork_entry c) es)) i = map_option (fork_entry c) (map_of (index_pairs es) i)"
    for es by (induction es) auto
  then show "bt_abs (bt_fork t c) i = map_option (fork_entry c) (bt_abs t i)"
    by (simp add: bt_abs_def bt_fork_def)
qed

interpretation bt: page_table bt_map bt_unmap bt_lookup bt_entry bt_fork bt_sorted bt_abs
  by unfold_locales
    (simp_all add: bt_search bt_map_abs bt_unmap_abs bt_fork_abs)

section \<open>Tables without gaps\<close>

lemma bt_contiguous_new [simp]: "bt_contiguous (BlockTable_new s k)"
  by (simp add: bt_contiguous_def BlockTable_new_def)

lemma bt_contiguous_index:
  "bt_contiguous t \<Longrightarrow> i < length (entries t) \<Longrightarrow> entry_index (entries t ! i) = of_nat i"
  by (metis (no_types, lifting) add.left_neutral bt_contiguous_def length_map length_upt diff_zero
      nth_map nth_upt)

lemma bt_contiguous_sorted: "bt_contiguous t \<Longrightarrow> bt_sorted t"
  by (auto simp: bt_contiguous_def bt_sorted_def sorted_wrt_iff_nth_less word_less_nat_alt)

lemma bt_contiguous_abs:
  assumes "bt_contiguous t"
  shows "bt_abs t idx = (if unat idx < length (entries t) then Some (entries t ! unat idx) else None)"
proof (cases "unat idx < length (entries t)")
  case True
  then have "entry_index (entries t ! unat idx) = idx"
    using bt_contiguous_index [OF assms] by simp
  then show ?thesis
    using True map_of_index_pairs_hit [of "entries t" "unat idx"] bt_contiguous_sorted [OF assms]
    by (simp add: bt_abs_def bt_sorted_def)
next
  case False
  have "entry_index e \<noteq> idx" if "e \<in> set (entries t)" for e
  proof -
    from that obtain i where "i < length (entries t)" "e = entries t ! i"
      by (auto simp: in_set_conv_nth)
    moreover have "length (entries t) < 4294967296" using assms by (simp add: bt_contiguous_def)
    ultimately show ?thesis using False bt_contiguous_index [OF assms, of i] by auto
  qed
  then have "bt_abs t idx = None" by (simp add: bt_abs_def map_of_index_pairs_None)
  with False show ?thesis by simp
qed

lemma bt_contiguous_mutable_entry:
  assumes "bt_contiguous t"
  shows "mutable_entry t idx = (if unat idx < length (entries t) then Some (unat idx) else None)"
proof (cases "mutable_entry t idx")
  case None
  then show ?thesis
    using bt_search(2) [OF bt_contiguous_sorted [OF assms]] bt_contiguous_abs [OF assms, of idx]
    by (auto split: if_splits)
next
  case (Some i)
  have "i < length (entries t)" and "of_nat i = idx"
    using bt_search(3) [OF bt_contiguous_sorted [OF assms] Some] bt_contiguous_index [OF assms]
    by auto
  moreover have "length (entries t) < 4294967296" using assms by (simp add: bt_contiguous_def)
  ultimately have "unat idx = i" by auto
  with Some \<open>i < length (entries t)\<close> show ?thesis by simp
qed

text \<open>Mapping the block just past the end appends one entry.\<close>

lemma bt_map_append:
  assumes "bt_contiguous t" and "length (entries t) + 1 < 4294967296"
    and "lb_index l = of_nat (length (entries t))"
  shows "bt_map t l p w = t\<lparr>entries := entries t
      @ [\<lparr>logical = l, physical_id = p, writable = w, swap_slot = None\<rparr>]\<rparr>"
    and "bt_contiguous (bt_map t l p w)"
proof -
  have none: "mutable_entry t (lb_index l) = None"
    using assms by (simp add: bt_contiguous_mutable_entry)
  have "takeWhile (\<lambda>e. entry_index e < lb_index l) (entries t) = entries t"
    using assms by (auto simp: takeWhile_eq_all_conv in_set_conv_nth bt_contiguous_index
        word_less_nat_alt)
  then have "lower_bound_index (entries t) (lb_index l) = length (entries t)"
    unfolding lower_bound_index_def by (rule arg_cong)
  then show eq: "bt_map t l p w = t\<lparr>entries := entries t
      @ [\<lparr>logical = l, physical_id = p, writable = w, swap_slot = None\<rparr>]\<rparr>"
    using none by (simp add: bt_map_cases bt_contiguous_sorted [OF assms(1)])
  show "bt_contiguous (bt_map t l p w)"
    using assms by (simp add: eq bt_contiguous_def)
qed

lemma bt_update_at_contiguous:
  assumes "bt_contiguous t" and "entry_index (f (entries t ! i)) = entry_index (entries t ! i)"
  shows "bt_contiguous (bt_update_at t i f)"
proof (cases "i < length (entries t)")
  case True
  then have "map entry_index ((entries t)[i := f (entries t ! i)]) = map entry_index (entries t)"
    using assms(2) by (simp add: map_update list_update_same_conv)
  then show ?thesis using assms(1) by (simp add: bt_contiguous_def bt_update_at_def)
next
  case False
  then show ?thesis using assms(1) by (simp add: bt_update_at_def bt_contiguous_def list_update_beyond)
qed

lemma bt_fork_contiguous [simp]: "bt_contiguous (bt_fork t c) \<longleftrightarrow> bt_contiguous t"
  by (simp add: bt_contiguous_def bt_fork_def comp_def)

end
