(* ===== verification/CacheLayout.thy ===== *)
theory CacheLayout
  imports Block
begin

text \<open>
  Element addressing inside one block: \<^verbatim>\<open>include/qwenvl_paged/CacheLayout.h\<close> and
  \<^verbatim>\<open>src/CacheLayout.cpp\<close>. Strides and offsets are \<^verbatim>\<open>std::size_t\<close> and wrap at 64 bits; the
  bounds lemmas therefore ask that the element count of the shape fits in 64 bits
  (\<open>layout_fits\<close>), which every shape whose block can be allocated satisfies.
\<close>

section \<open>Definitions\<close>

datatype KVStream = Key | Value

definition kKVStreamCount :: u32 where
  "kKVStreamCount = 2"

record KVBlockLayout =
  kvl_shape :: BlockShape

definition head_stride :: "KVBlockLayout \<Rightarrow> u64" where
  "head_stride l = ucast (head_dim (kvl_shape l))"

definition token_stride :: "KVBlockLayout \<Rightarrow> u64" where
  "token_stride l = ucast (num_kv_heads (kvl_shape l)) * head_stride l"

definition stream_stride :: "KVBlockLayout \<Rightarrow> u64" where
  "stream_stride l = ucast (tokens_per_block (kvl_shape l)) * token_stride l"

definition layer_stride :: "KVBlockLayout \<Rightarrow> u64" where
  "layer_stride l = ucast kKVStreamCount * stream_stride l"

definition element_count :: "KVBlockLayout \<Rightarrow> u64" where
  "element_count l = ucast (frame_layers (kvl_shape l)) * layer_stride l"

definition element_offset ::
    "KVBlockLayout \<Rightarrow> u32 \<Rightarrow> KVStream \<Rightarrow> u32 \<Rightarrow> u32 \<Rightarrow> u64 option" where
  "element_offset l layer stream token_in_block kv_head =
     (let stored_layers = frame_layers (kvl_shape l) in
      if layer \<ge> stored_layers \<or> token_in_block \<ge> tokens_per_block (kvl_shape l)
           \<or> kv_head \<ge> num_kv_heads (kvl_shape l)
      then None
      else
        let stream_index = (if stream = Key then 0 else 1 :: u64)
        in Some (ucast layer * layer_stride l + stream_index * stream_stride l
                 + ucast token_in_block * token_stride l + ucast kv_head * head_stride l))"

text \<open>The element count as a natural number, and that it does not wrap.\<close>

definition layout_elements :: "KVBlockLayout \<Rightarrow> nat" where
  "layout_elements l =
     unat (frame_layers (kvl_shape l)) * (2 * (unat (tokens_per_block (kvl_shape l))
       * (unat (num_kv_heads (kvl_shape l)) * unat (head_dim (kvl_shape l)))))"

definition layout_fits :: "KVBlockLayout \<Rightarrow> bool" where
  "layout_fits l \<longleftrightarrow> layout_elements l < 18446744073709551616"

text \<open>The row number of a (layer, stream, token, head) vector, counting whole vectors.\<close>

definition vector_row :: "KVBlockLayout \<Rightarrow> u32 \<Rightarrow> KVStream \<Rightarrow> u32 \<Rightarrow> u32 \<Rightarrow> nat" where
  "vector_row l layer stream t h =
     ((unat layer * 2 + (if stream = Key then 0 else 1)) * unat (tokens_per_block (kvl_shape l))
        + unat t) * unat (num_kv_heads (kvl_shape l)) + unat h"

section \<open>Mixed-radix arithmetic\<close>

lemma radix_step: "a < A \<Longrightarrow> b < B \<Longrightarrow> a * B + b < A * (B::nat)"
  by (metis Suc_leI add.commute add_less_cancel_right less_le_trans mult.commute mult_Suc_right
      mult_le_mono2)

lemma radix_inj: "b < B \<Longrightarrow> b' < B \<Longrightarrow> a * B + b = a' * B + b' \<longleftrightarrow> a = a' \<and> b = (b'::nat)"
  by (metis add.commute div_mult_self3 div_less less_nat_zero_code mod_less mod_mult_self3
      add_cancel_right_right)

section \<open>Offsets as row numbers\<close>

lemma stride_eqs:
  "head_stride l = of_nat (unat (head_dim (kvl_shape l)))"
  "token_stride l = of_nat (unat (num_kv_heads (kvl_shape l)) * unat (head_dim (kvl_shape l)))"
  "stream_stride l = of_nat (unat (tokens_per_block (kvl_shape l))
     * (unat (num_kv_heads (kvl_shape l)) * unat (head_dim (kvl_shape l))))"
  "layer_stride l = of_nat (2 * (unat (tokens_per_block (kvl_shape l))
     * (unat (num_kv_heads (kvl_shape l)) * unat (head_dim (kvl_shape l)))))"
  by (simp_all add: head_stride_def token_stride_def stream_stride_def layer_stride_def
      kKVStreamCount_def)

lemma element_count_eq: "element_count l = of_nat (layout_elements l)"
  by (simp add: element_count_def layout_elements_def stride_eqs)

lemma unat_element_count: "layout_fits l \<Longrightarrow> unat (element_count l) = layout_elements l"
  by (simp add: element_count_eq layout_fits_def)

lemma vector_row_lt:
  assumes "layer < frame_layers (kvl_shape l)" and "t < tokens_per_block (kvl_shape l)"
    and "h < num_kv_heads (kvl_shape l)"
  shows "vector_row l layer s t h
    < unat (frame_layers (kvl_shape l)) * 2 * unat (tokens_per_block (kvl_shape l))
      * unat (num_kv_heads (kvl_shape l))"
  unfolding vector_row_def
  by (rule radix_step [OF radix_step [OF radix_step]])
    (use assms in \<open>simp_all add: word_less_nat_alt\<close>)

lemma element_offset_row:
  assumes "layout_fits l" and "element_offset l layer s t h = Some off"
  shows "unat off = vector_row l layer s t h * unat (head_dim (kvl_shape l))"
    and "vector_row l layer s t h * unat (head_dim (kvl_shape l)) + unat (head_dim (kvl_shape l))
           \<le> layout_elements l"
proof -
  let ?d = "unat (head_dim (kvl_shape l))" and ?r = "vector_row l layer s t h"
  have in_range: "layer < frame_layers (kvl_shape l)" "t < tokens_per_block (kvl_shape l)"
      "h < num_kv_heads (kvl_shape l)"
    using assms(2) by (simp_all add: element_offset_def Let_def split: if_splits)
  have "Suc ?r * ?d \<le> unat (frame_layers (kvl_shape l)) * 2 * unat (tokens_per_block (kvl_shape l))
      * unat (num_kv_heads (kvl_shape l)) * ?d"
    using vector_row_lt [OF in_range, of s] by (intro mult_le_mono1) simp
  then show fits: "?r * ?d + ?d \<le> layout_elements l"
    by (simp add: layout_elements_def algebra_simps)
  have "off = of_nat (?r * ?d)"
    using assms(2) in_range
    by (auto simp: element_offset_def Let_def stride_eqs vector_row_def
        algebra_simps split: if_splits)
  moreover have "?r * ?d < 18446744073709551616"
    using fits assms(1) unfolding layout_fits_def by linarith
  ultimately show "unat off = ?r * ?d" using unat_of_nat_u64 by metis
qed

lemma vector_row_inj:
  assumes "t < tokens_per_block (kvl_shape l)" and "h < num_kv_heads (kvl_shape l)"
    and "t' < tokens_per_block (kvl_shape l)" and "h' < num_kv_heads (kvl_shape l)"
    and "vector_row l layer s t h = vector_row l layer' s' t' h'"
  shows "layer = layer' \<and> s = s' \<and> t = t' \<and> h = h'"
proof -
  let ?k = "\<lambda>s. if s = Key then 0 else 1 :: nat"
  have "(unat layer * 2 + ?k s) * unat (tokens_per_block (kvl_shape l)) + unat t
      = (unat layer' * 2 + ?k s') * unat (tokens_per_block (kvl_shape l)) + unat t'"
    and h: "unat h = unat h'"
    using assms radix_inj unfolding vector_row_def word_less_nat_alt by metis+
  then have "unat layer * 2 + ?k s = unat layer' * 2 + ?k s'" and t: "unat t = unat t'"
    using assms(1,3) radix_inj unfolding word_less_nat_alt by metis+
  then have "unat layer = unat layer'" and "?k s = ?k s'"
    by (auto split: if_splits) presburger+
  then show ?thesis using h t
    by (cases s; cases s') (auto simp: word_unat_eq_iff)
qed

lemma element_offset_disjoint:
  assumes fits: "layout_fits l" and "element_offset l layer s t h = Some off"
    and "element_offset l layer' s' t' h' = Some off'" and "(layer, s, t, h) \<noteq> (layer', s', t', h')"
  shows "unat off + unat (head_dim (kvl_shape l)) \<le> unat off' \<or> unat off' + unat (head_dim (kvl_shape l)) \<le> unat off"
proof -
  have "t < tokens_per_block (kvl_shape l)" "h < num_kv_heads (kvl_shape l)"
    "t' < tokens_per_block (kvl_shape l)" "h' < num_kv_heads (kvl_shape l)"
    using assms(2,3) by (simp_all add: element_offset_def Let_def split: if_splits)
  then have "vector_row l layer s t h \<noteq> vector_row l layer' s' t' h'" using vector_row_inj assms(4) by blast
  then show ?thesis
    using frames_disjoint element_offset_row(1) [OF fits assms(2)] element_offset_row(1) [OF fits assms(3)] by simp
qed

end
