(* ===== verification/SwapBackend.thy ===== *)
theory SwapBackend
  imports Block
begin

text \<open>
  The swap space of \<^verbatim>\<open>include/qwenvl_paged/SwapBackend.h\<close> and \<^verbatim>\<open>src/SwapBackend.cpp\<close>.

  The abstract class \<^verbatim>\<open>SwapBackend\<close> is the locale \<open>swap_store\<close>: its operations, the map from
  slots to bytes they promise to maintain, and the facts every client may use. The host
  implementation \<^verbatim>\<open>HostSwapBackend\<close> is a record whose \<^verbatim>\<open>slots_\<close> is an association list with
  distinct keys (its order is never observed), and it is shown to implement the interface.

  A frame is passed as its bytes: \<open>store\<close> receives the bytes at \<^verbatim>\<open>block.data()\<close>, \<open>load\<close>
  receives the current bytes of the target frame and returns the new ones (\<open>None\<close> for a
  \<^verbatim>\<open>false\<close> result, which leaves the frame untouched).
\<close>

section \<open>Definitions\<close>

record HostSwapBackend =
  max_slots :: u64
  next_slot :: SwapSlotId
  slots :: "(SwapSlotId \<times> u8 list) list"

definition HostSwapBackend_new :: "u64 \<Rightarrow> HostSwapBackend" where
  "HostSwapBackend_new n = \<lparr>max_slots = n, next_slot = 1, slots = []\<rparr>"

text \<open>\<^verbatim>\<open>unordered_map::emplace\<close> leaves an existing key alone.\<close>

definition slots_emplace ::
    "SwapSlotId \<Rightarrow> u8 list \<Rightarrow> (SwapSlotId \<times> u8 list) list \<Rightarrow> (SwapSlotId \<times> u8 list) list" where
  "slots_emplace k v al = (if map_of al k = None then (k, v) # al else al)"

definition hsb_store :: "HostSwapBackend \<Rightarrow> u8 list \<Rightarrow> SwapSlotId option \<times> HostSwapBackend" where
  "hsb_store b bytes =
     (if length (slots b) \<ge> unat (max_slots b) then (None, b)
      else
        let slot = next_slot b
        in (Some slot,
            b\<lparr>next_slot := next_slot b + 1, slots := slots_emplace slot bytes (slots b)\<rparr>))"

definition hsb_load :: "HostSwapBackend \<Rightarrow> SwapSlotId \<Rightarrow> u8 list \<Rightarrow> u8 list option" where
  "hsb_load b slot block =
     (case map_of (slots b) slot of
        None \<Rightarrow> None
      | Some bytes \<Rightarrow>
          if length block < length bytes then None
          else Some (bytes @ drop (length bytes) block))"

definition hsb_discard :: "HostSwapBackend \<Rightarrow> SwapSlotId \<Rightarrow> HostSwapBackend" where
  "hsb_discard b slot = b\<lparr>slots := filter (\<lambda>kv. fst kv \<noteq> slot) (slots b)\<rparr>"

definition resident_slots :: "HostSwapBackend \<Rightarrow> nat" where
  "resident_slots b = length (slots b)"

definition capacity_slots :: "HostSwapBackend \<Rightarrow> u64" where
  "capacity_slots b = max_slots b"

text \<open>What the backend keeps true: one entry per key, every handed-out slot below the next
  one, and never more slots than its capacity.\<close>

definition hsb_invar :: "HostSwapBackend \<Rightarrow> bool" where
  "hsb_invar b \<longleftrightarrow>
     distinct (map fst (slots b)) \<and> list_all (\<lambda>kv. fst kv < next_slot b) (slots b)
     \<and> length (slots b) \<le> unat (max_slots b)"

text \<open>Slot numbers are 64-bit and never reused; a store keeps the invariant as long as the
  counter has not reached its last value.\<close>

definition hsb_fresh :: "HostSwapBackend \<Rightarrow> bool" where
  "hsb_fresh b \<longleftrightarrow> unat (next_slot b) + 1 < 18446744073709551616"

definition hsb_contents :: "HostSwapBackend \<Rightarrow> SwapSlotId \<rightharpoonup> u8 list" where
  "hsb_contents b = map_of (slots b)"

section \<open>The interface every swap backend offers\<close>

locale swap_store =
  fixes store :: "'b \<Rightarrow> u8 list \<Rightarrow> SwapSlotId option \<times> 'b"
    and load :: "'b \<Rightarrow> SwapSlotId \<Rightarrow> u8 list \<Rightarrow> u8 list option"
    and discard :: "'b \<Rightarrow> SwapSlotId \<Rightarrow> 'b"
    and resident :: "'b \<Rightarrow> nat"
    and contents :: "'b \<Rightarrow> SwapSlotId \<rightharpoonup> u8 list"
    and invar :: "'b \<Rightarrow> bool"
    and fresh :: "'b \<Rightarrow> bool"
  assumes store_full: "store b bs = (None, b') \<Longrightarrow> b' = b"
    and store_new: "invar b \<Longrightarrow> store b bs = (Some k, b') \<Longrightarrow> contents b k = None"
    and store_contents:
      "invar b \<Longrightarrow> store b bs = (Some k, b') \<Longrightarrow> contents b' = (contents b)(k \<mapsto> bs)"
    and store_invar: "invar b \<Longrightarrow> fresh b \<Longrightarrow> store b bs = (Some k, b') \<Longrightarrow> invar b'"
    and load_spec:
      "load b k cur = (case contents b k of None \<Rightarrow> None
         | Some bs \<Rightarrow> if length cur < length bs then None else Some (bs @ drop (length bs) cur))"
    and discard_contents: "contents (discard b k) = (contents b)(k := None)"
    and discard_invar: "invar b \<Longrightarrow> invar (discard b k)"
    and resident_spec: "invar b \<Longrightarrow> resident b = card (dom (contents b))"
    and finite_contents: "finite (dom (contents b))"
begin

text \<open>What was stored comes back, byte for byte, into any frame of the same size.\<close>

lemma load_after_store:
  "invar b \<Longrightarrow> store b bs = (Some k, b') \<Longrightarrow> length cur = length bs \<Longrightarrow> load b' k cur = Some bs"
  by (simp add: load_spec store_contents)

lemma store_keeps_others:
  "invar b \<Longrightarrow> store b bs = (Some k, b') \<Longrightarrow> contents b j \<noteq> None \<Longrightarrow>
   contents b' j = contents b j"
  using store_new [of b bs k b'] store_contents [of b bs k b'] by (cases "j = k") auto

lemma resident_store:
  "invar b \<Longrightarrow> fresh b \<Longrightarrow> store b bs = (Some k, b') \<Longrightarrow> resident b' = Suc (resident b)"
  using store_new [of b bs k b'] store_contents [of b bs k b'] store_invar [of b bs k b']
  by (simp add: resident_spec finite_contents card_insert_if domIff)

lemma resident_discard:
  "invar b \<Longrightarrow> contents b k \<noteq> None \<Longrightarrow> Suc (resident (discard b k)) = resident b"
  using card_Suc_Diff1 [OF finite_contents, of k b]
  by (simp add: resident_spec discard_invar discard_contents domIff)

lemma discard_unknown: "contents b k = None \<Longrightarrow> contents (discard b k) = contents b"
  by (simp add: discard_contents fun_upd_idem)

lemma load_after_discard: "load (discard b k) k cur = None"
  by (simp add: load_spec discard_contents)

end

section \<open>The host backend implements it\<close>

lemma dom_map_of_filter:
  "map_of (filter (\<lambda>kv. fst kv \<noteq> k) al) = (map_of al)(k := None)"
  by (induction al) (auto simp: fun_eq_iff)

lemma next_slot_new: "hsb_invar b \<Longrightarrow> map_of (slots b) (next_slot b) = None"
  by (auto simp: hsb_invar_def map_of_eq_None_iff list_all_iff)

lemma hsb_invar_new: "hsb_invar (HostSwapBackend_new n)"
  by (simp add: hsb_invar_def HostSwapBackend_new_def)

lemma hsb_store_eq:
  "hsb_invar b \<Longrightarrow> hsb_store b bs =
     (if length (slots b) \<ge> unat (max_slots b) then (None, b)
      else (Some (next_slot b),
            b\<lparr>next_slot := next_slot b + 1, slots := (next_slot b, bs) # slots b\<rparr>))"
  by (simp add: hsb_store_def slots_emplace_def next_slot_new Let_def)

lemma hsb_store_invar:
  assumes "hsb_invar b" and "hsb_fresh b"
  shows "hsb_invar (snd (hsb_store b bs))"
proof -
  have up: "next_slot b < next_slot b + 1"
    using assms(2) unat_inc [of "next_slot b"]
    by (simp add: hsb_fresh_def word_less_nat_alt)
  then have "list_all (\<lambda>kv. fst kv < next_slot b + 1) (slots b)"
    using assms(1) unfolding hsb_invar_def list_all_iff by (meson less_trans)
  then show ?thesis
    using assms(1) up next_slot_new [OF assms(1)]
    by (auto simp: hsb_store_eq hsb_invar_def map_of_eq_None_iff)
qed

lemma hsb_discard_invar: "hsb_invar b \<Longrightarrow> hsb_invar (hsb_discard b k)"
proof -
  assume inv: "hsb_invar b"
  have "distinct (map fst (filter (\<lambda>kv. fst kv \<noteq> k) (slots b)))"
    using inv unfolding hsb_invar_def by (metis distinct_map_filter)
  moreover have "length (filter (\<lambda>kv. fst kv \<noteq> k) (slots b)) \<le> unat (max_slots b)"
    using inv length_filter_le le_trans unfolding hsb_invar_def by blast
  ultimately show ?thesis
    using inv by (simp add: hsb_invar_def hsb_discard_def list_all_iff)
qed

lemma hsb_resident: "hsb_invar b \<Longrightarrow> resident_slots b = card (dom (hsb_contents b))"
  by (simp add: hsb_invar_def resident_slots_def hsb_contents_def dom_map_of_conv_image_fst
      card_image distinct_map distinct_card)

interpretation hsb: swap_store hsb_store hsb_load hsb_discard resident_slots hsb_contents
  hsb_invar hsb_fresh
proof (unfold_locales, goal_cases)
  case (1 b bs b')
  then show ?case by (simp add: hsb_store_def Let_def split: if_splits)
next
  case (2 b bs k b')
  then show ?case
    using next_slot_new by (auto simp: hsb_store_def Let_def hsb_contents_def split: if_splits)
next
  case (3 b bs k b')
  then show ?case
    by (auto simp: hsb_store_eq hsb_contents_def split: if_splits)
next
  case (4 b bs k b')
  then show ?case using hsb_store_invar [of b bs] by simp
next
  case (5 b k cur)
  show ?case by (simp add: hsb_load_def hsb_contents_def)
next
  case (6 b k)
  show ?case by (simp add: hsb_discard_def hsb_contents_def dom_map_of_filter)
next
  case (7 b k)
  then show ?case by (rule hsb_discard_invar)
next
  case (8 b)
  then show ?case by (rule hsb_resident)
next
  case (9 b)
  show ?case by (simp add: hsb_contents_def finite_dom_map_of)
qed

end
