(* ===== verification/MemoryAllocator.thy ===== *)
theory MemoryAllocator
  imports SwapBackend
begin

text \<open>
  The physical block pool of \<^verbatim>\<open>include/qwenvl_paged/MemoryAllocator.h\<close> and
  \<^verbatim>\<open>src/MemoryAllocator.cpp\<close>.

  The slab is a list of bytes (\<open>pool\<close>); frame \<open>i\<close> is the segment of \<open>block_stride_bytes\<close>
  bytes at offset \<open>i * block_stride_bytes\<close>. What \<^verbatim>\<open>std::aligned_alloc\<close> returns (or the
  adopted slab) is an argument of the constructors, \<open>None\<close> for a null pointer. Reading or
  writing through a null or out-of-range pointer is undefined in C++; the model records it in
  the ghost field \<open>faulted\<close>, and the invariant includes that it never happens.

  The copy hook and the eviction selector are callbacks supplied by the caller: the hook is a
  function on the slab bytes, the selector a function of the allocator it may read (without the
  selector itself, hence the two records). The swap backend pointer is a \<open>HostSwapBackend\<close>, the
  one implementation of \<^verbatim>\<open>SwapBackend\<close> in the library, or \<open>None\<close> for \<^verbatim>\<open>nullptr\<close>.

  The locale \<open>frame_pool\<close> is what the cache manager relies on: the allocator as a multiset of
  outstanding references. The invariant \<open>alloc_inv\<close> ties free list, reference counts, block
  states and slab together, and every operation is shown to keep it and to act on the multiset
  as the interface says.
\<close>

section \<open>Definitions\<close>

record AllocatorConfig =
  block_shape :: BlockShape
  memory_options :: HostMemoryOptions
  max_blocks :: u32

record AllocatorStats =
  total_blocks :: u32
  free_blocks :: u32
  active_blocks :: u32
  shared_blocks :: u32
  swapped_blocks :: u32
  bytes_reserved :: u64

record PhysicalBlockInfo =
  pbi_id :: PhysicalBlockId
  pbi_state :: BlockState
  ref_count :: u32
  generation :: u64

definition round_up :: "u64 \<Rightarrow> u64 \<Rightarrow> u64" where
  "round_up value alignment =
     (if alignment = 0 then value else ((value + alignment - 1) div alignment) * alignment)"

definition effective_alignment :: "AllocatorConfig \<Rightarrow> u64" where
  "effective_alignment cfg =
     (if alignment_bytes (memory_options cfg) = 0 then kDefaultBlockAlignmentBytes
      else alignment_bytes (memory_options cfg))"

definition block_stride_for :: "AllocatorConfig \<Rightarrow> u64" where
  "block_stride_for cfg =
     (let alignment = effective_alignment cfg;
          stride = round_up (byte_size (block_shape cfg)) alignment
      in if stride = 0 then alignment else stride)"

definition pool_bytes_for :: "AllocatorConfig \<Rightarrow> u64" where
  "pool_bytes_for cfg = block_stride_for cfg * ucast (max_blocks cfg)"

type_synonym BlockCopyHook = "PhysicalBlockId \<Rightarrow> PhysicalBlockId \<Rightarrow> u8 list \<Rightarrow> u8 list"

record MemoryAllocatorCore =
  config :: AllocatorConfig
  block_stride_bytes :: u64
  pool_bytes :: u64
  owned_pool :: bool
  pool_base :: "u64 option"
  pool :: "u8 list"
  faulted :: bool
  blocks :: "PhysicalBlock list"
  infos :: "PhysicalBlockInfo list"
  free_list :: "PhysicalBlockId list"
  al_swap_backend :: "HostSwapBackend option"
  copy_hook :: "BlockCopyHook option"

type_synonym EvictionCandidateSelector = "MemoryAllocatorCore \<Rightarrow> PhysicalBlockId option"

record MemoryAllocator = MemoryAllocatorCore +
  eviction_selector :: "EvictionCandidateSelector option"

subsection \<open>Construction\<close>

definition bind_frame :: "AllocatorConfig \<Rightarrow> u64 \<Rightarrow> u64 option \<Rightarrow> nat \<Rightarrow> PhysicalBlock" where
  "bind_frame cfg stride base i =
     (let pid = (of_nat i :: PhysicalBlockId) in
      \<lparr>pb_id = pid, pb_shape = block_shape cfg,
       pb_storage = (case base of None \<Rightarrow> None | Some b \<Rightarrow> Some (b + ucast pid * stride)),
       pb_size_bytes = stride\<rparr>)"

definition free_info :: "nat \<Rightarrow> PhysicalBlockInfo" where
  "free_info i = \<lparr>pbi_id = of_nat i, pbi_state = Free, ref_count = 0, generation = 0\<rparr>"

definition bind_frames :: "MemoryAllocator \<Rightarrow> u64 option \<Rightarrow> MemoryAllocator" where
  "bind_frames al base =
     (let ids = [0..<unat (max_blocks (config al))] in
      al\<lparr>pool_base := base,
         blocks := blocks al @ map (bind_frame (config al) (block_stride_bytes al) base) ids,
         infos := infos al @ map free_info ids,
         free_list := free_list al @ map of_nat ids\<rparr>)"

definition unbound_allocator :: "AllocatorConfig \<Rightarrow> MemoryAllocator" where
  "unbound_allocator cfg =
     \<lparr>config = cfg, block_stride_bytes = block_stride_for cfg,
      pool_bytes = block_stride_for cfg * ucast (max_blocks cfg),
      owned_pool = False, pool_base = None, pool = [], faulted = False,
      blocks = [], infos = [], free_list = [],
      al_swap_backend = None, copy_hook = None, eviction_selector = None\<rparr>"

text \<open>The argument is what \<^verbatim>\<open>std::aligned_alloc\<close> returned: the fresh slab, or \<open>None\<close>.\<close>

definition MemoryAllocator_new :: "AllocatorConfig \<Rightarrow> u8 list option \<Rightarrow> MemoryAllocator" where
  "MemoryAllocator_new cfg slab =
     (let al = unbound_allocator cfg in
      case (if pool_bytes al > 0 then slab else None) of
        None \<Rightarrow> bind_frames al None
      | Some bytes \<Rightarrow> bind_frames (al\<lparr>owned_pool := True, pool := bytes\<rparr>) (Some 0))"

definition MemoryAllocator_adopt :: "AllocatorConfig \<Rightarrow> u8 list option \<Rightarrow> MemoryAllocator" where
  "MemoryAllocator_adopt cfg adopted =
     (case adopted of
        None \<Rightarrow> bind_frames (unbound_allocator cfg) None
      | Some bytes \<Rightarrow> bind_frames ((unbound_allocator cfg)\<lparr>pool := bytes\<rparr>) (Some 0))"

subsection \<open>Bytes of a frame\<close>

definition frame_bytes :: "MemoryAllocator \<Rightarrow> PhysicalBlock \<Rightarrow> nat \<Rightarrow> u8 list option" where
  "frame_bytes al b n =
     (case pb_storage b of
        None \<Rightarrow> None
      | Some off \<Rightarrow>
          if unat off + n \<le> length (pool al) then Some (segment (unat off) n (pool al)) else None)"

definition write_frame :: "MemoryAllocator \<Rightarrow> PhysicalBlock \<Rightarrow> u8 list \<Rightarrow> MemoryAllocator" where
  "write_frame al b bs =
     (case pb_storage b of
        None \<Rightarrow> al\<lparr>faulted := True\<rparr>
      | Some off \<Rightarrow>
          if unat off + length bs \<le> length (pool al)
          then al\<lparr>pool := overwrite (unat off) bs (pool al)\<rparr>
          else al\<lparr>faulted := True\<rparr>)"

definition al_block :: "MemoryAllocator \<Rightarrow> PhysicalBlockId \<Rightarrow> PhysicalBlock option" where
  "al_block al pid = (if unat pid \<ge> length (blocks al) then None else Some (blocks al ! unat pid))"

definition al_info :: "MemoryAllocator \<Rightarrow> PhysicalBlockId \<Rightarrow> PhysicalBlockInfo option" where
  "al_info al pid = (if unat pid \<ge> length (infos al) then None else Some (infos al ! unat pid))"

subsection \<open>Allocation and reference counting\<close>

definition update_info ::
    "MemoryAllocator \<Rightarrow> PhysicalBlockId \<Rightarrow> (PhysicalBlockInfo \<Rightarrow> PhysicalBlockInfo) \<Rightarrow> MemoryAllocator" where
  "update_info al pid f = al\<lparr>infos := (infos al)[unat pid := f (infos al ! unat pid)]\<rparr>"

definition allocate :: "MemoryAllocator \<Rightarrow> PhysicalBlockId option \<times> MemoryAllocator" where
  "allocate al =
     (if free_list al = [] then (None, al)
      else
        let pid = last (free_list al);
            al = al\<lparr>free_list := butlast (free_list al)\<rparr>
        in (Some pid, update_info al pid (\<lambda>i. i\<lparr>pbi_state := Active, ref_count := 1\<rparr>)))"

definition release :: "MemoryAllocator \<Rightarrow> PhysicalBlockId \<Rightarrow> MemoryAllocator" where
  "release al pid =
     (if unat pid \<ge> length (infos al) then al
      else if ref_count (infos al ! unat pid) = 0 then al
      else
        let al = update_info al pid (\<lambda>i. i\<lparr>ref_count := ref_count i - 1\<rparr>);
            rc = ref_count (infos al ! unat pid)
        in if rc = 0 then
             (update_info al pid (\<lambda>i. i\<lparr>pbi_state := Free, generation := generation i + 1\<rparr>))
               \<lparr>free_list := free_list al @ [pid]\<rparr>
           else if rc = 1 then update_info al pid (\<lambda>i. i\<lparr>pbi_state := Active\<rparr>)
           else al)"

definition retain :: "MemoryAllocator \<Rightarrow> PhysicalBlockId \<Rightarrow> MemoryAllocator" where
  "retain al pid =
     (if unat pid \<ge> length (infos al) then al
      else if ref_count (infos al ! unat pid) = 0 then al
      else update_info al pid (\<lambda>i. i\<lparr>ref_count := ref_count i + 1, pbi_state := Shared\<rparr>))"

subsection \<open>Copying\<close>

definition set_copy_hook :: "MemoryAllocator \<Rightarrow> BlockCopyHook option \<Rightarrow> MemoryAllocator" where
  "set_copy_hook al hook = al\<lparr>copy_hook := hook\<rparr>"

definition copy_block :: "MemoryAllocator \<Rightarrow> PhysicalBlockId \<Rightarrow> PhysicalBlockId \<Rightarrow> MemoryAllocator" where
  "copy_block al source destination =
     (case copy_hook al of
        Some hook \<Rightarrow> al\<lparr>pool := hook source destination (pool al)\<rparr>
      | None \<Rightarrow>
          (case (al_block al source, al_block al destination) of
             (Some src, Some dst) \<Rightarrow>
               (let bytes = (if pb_size_bytes src < pb_size_bytes dst
                             then pb_size_bytes src else pb_size_bytes dst)
                in case frame_bytes al src (unat bytes) of
                     None \<Rightarrow> al\<lparr>faulted := True\<rparr>
                   | Some bs \<Rightarrow> write_frame al dst bs)
           | _ \<Rightarrow> al))"

subsection \<open>Swapping\<close>

definition set_swap_backend :: "MemoryAllocator \<Rightarrow> HostSwapBackend option \<Rightarrow> MemoryAllocator" where
  "set_swap_backend al backend = al\<lparr>al_swap_backend := backend\<rparr>"

definition swap_out :: "MemoryAllocator \<Rightarrow> PhysicalBlockId \<Rightarrow> SwapSlotId option \<times> MemoryAllocator" where
  "swap_out al pid =
     (case al_swap_backend al of
        None \<Rightarrow> (None, al)
      | Some sb \<Rightarrow>
          if unat pid \<ge> length (infos al) then (None, al)
          else if ref_count (infos al ! unat pid) \<noteq> 1 then (None, al)
          else case al_block al pid of
            None \<Rightarrow> (None, al)
          | Some frame \<Rightarrow>
              (case frame_bytes al frame (unat (pb_size_bytes frame)) of
                 None \<Rightarrow> (None, al\<lparr>faulted := True\<rparr>)
               | Some bytes \<Rightarrow>
                   (case hsb_store sb bytes of
                      (None, sb') \<Rightarrow> (None, al\<lparr>al_swap_backend := Some sb'\<rparr>)
                    | (Some slot, sb') \<Rightarrow>
                        (Some slot,
                         (update_info al pid (\<lambda>i. i\<lparr>ref_count := 0, pbi_state := Free,
                                                   generation := generation i + 1\<rparr>))
                           \<lparr>al_swap_backend := Some sb', free_list := free_list al @ [pid]\<rparr>))))"

definition swap_in :: "MemoryAllocator \<Rightarrow> SwapSlotId \<Rightarrow> PhysicalBlockId option \<times> MemoryAllocator" where
  "swap_in al slot =
     (case al_swap_backend al of
        None \<Rightarrow> (None, al)
      | Some sb \<Rightarrow>
          (case allocate al of
             (None, al') \<Rightarrow> (None, al')
           | (Some pid, al') \<Rightarrow>
               (case al_block al' pid of
                  None \<Rightarrow> (None, release al' pid)
                | Some frame \<Rightarrow>
                    (case frame_bytes al' frame (unat (pb_size_bytes frame)) of
                       None \<Rightarrow> (None, (release al' pid)\<lparr>faulted := True\<rparr>)
                     | Some cur \<Rightarrow>
                         (case hsb_load sb slot cur of
                            None \<Rightarrow> (None, release al' pid)
                          | Some bytes \<Rightarrow>
                              (Some pid, (write_frame al' frame bytes)
                                 \<lparr>al_swap_backend := Some (hsb_discard sb slot)\<rparr>))))))"

definition discard_swapped :: "MemoryAllocator \<Rightarrow> SwapSlotId \<Rightarrow> MemoryAllocator" where
  "discard_swapped al slot =
     (case al_swap_backend al of
        None \<Rightarrow> al
      | Some sb \<Rightarrow> al\<lparr>al_swap_backend := Some (hsb_discard sb slot)\<rparr>)"

subsection \<open>Policy hook, statistics and accessors\<close>

definition set_eviction_selector ::
    "MemoryAllocator \<Rightarrow> EvictionCandidateSelector option \<Rightarrow> MemoryAllocator" where
  "set_eviction_selector al sel = al\<lparr>eviction_selector := sel\<rparr>"

definition select_eviction_candidate :: "MemoryAllocator \<Rightarrow> PhysicalBlockId option" where
  "select_eviction_candidate al =
     (case eviction_selector al of
        None \<Rightarrow> None
      | Some sel \<Rightarrow> sel (MemoryAllocatorCore.truncate al))"

definition count_state :: "MemoryAllocator \<Rightarrow> BlockState \<Rightarrow> u32" where
  "count_state al st = of_nat (length (filter (\<lambda>i. pbi_state i = st) (infos al)))"

definition stats :: "MemoryAllocator \<Rightarrow> AllocatorStats" where
  "stats al =
     \<lparr>total_blocks = of_nat (length (infos al)),
      free_blocks = count_state al Free,
      active_blocks = count_state al Active,
      shared_blocks = count_state al Shared,
      swapped_blocks = (case al_swap_backend al of
                          None \<Rightarrow> 0 | Some sb \<Rightarrow> of_nat (resident_slots sb)),
      bytes_reserved = pool_bytes al\<rparr>"

definition can_allocate :: "MemoryAllocator \<Rightarrow> u32 \<Rightarrow> bool" where
  "can_allocate al block_count \<longleftrightarrow> length (free_list al) \<ge> unat block_count"

definition al_alignment_bytes :: "MemoryAllocator \<Rightarrow> u64" where
  "al_alignment_bytes al = alignment_bytes (memory_options (config al))"

definition pinned_memory_requested :: "MemoryAllocator \<Rightarrow> bool" where
  "pinned_memory_requested al = prefer_pinned_memory (memory_options (config al))"

definition owns_pool :: "MemoryAllocator \<Rightarrow> bool" where
  "owns_pool al \<longleftrightarrow> owned_pool al"

subsection \<open>Invariant and abstraction\<close>

text \<open>The reference count of a block, as a number (zero for an id outside the pool).\<close>

definition ref_of :: "MemoryAllocator \<Rightarrow> PhysicalBlockId \<Rightarrow> nat" where
  "ref_of al pid = (if unat pid < length (infos al) then unat (ref_count (infos al ! unat pid)) else 0)"

text \<open>The allocator as its clients see it: a multiset of outstanding references.\<close>

definition alloc_refs :: "MemoryAllocator \<Rightarrow> PhysicalBlockId multiset" where
  "alloc_refs al =
     (\<Sum>i<length (infos al). replicate_mset (unat (ref_count (infos al ! i))) (of_nat i))"

definition state_for :: "u32 \<Rightarrow> BlockState" where
  "state_for rc = (if rc = 0 then Free else if rc = 1 then Active else Shared)"

definition ids_inv :: "MemoryAllocator \<Rightarrow> bool" where
  "ids_inv al \<longleftrightarrow>
     length (infos al) = unat (max_blocks (config al))
     \<and> (\<forall>i<length (infos al). pbi_id (infos al ! i) = of_nat i
            \<and> pbi_state (infos al ! i) = state_for (ref_count (infos al ! i)))
     \<and> distinct (free_list al)
     \<and> set (free_list al) = {pid. unat pid < length (infos al) \<and> ref_of al pid = 0}"

text \<open>The bytes of frame \<open>pid\<close>.\<close>

definition frame_at :: "u64 \<Rightarrow> u8 list \<Rightarrow> PhysicalBlockId \<Rightarrow> u8 list" where
  "frame_at stride bytes pid = segment (unat pid * unat stride) (unat stride) bytes"

definition frame_of :: "MemoryAllocator \<Rightarrow> PhysicalBlockId \<Rightarrow> u8 list" where
  "frame_of al pid = frame_at (block_stride_bytes al) (pool al) pid"

text \<open>What the allocator's documentation asks of a copy hook: it moves the bytes of one frame
  of the pool to another and touches nothing else.\<close>

definition copy_hook_ok :: "BlockCopyHook \<Rightarrow> u64 \<Rightarrow> nat \<Rightarrow> bool" where
  "copy_hook_ok hook stride n \<longleftrightarrow>
     (\<forall>src dst bytes. unat src < n \<longrightarrow> unat dst < n \<longrightarrow> length bytes = n * unat stride \<longrightarrow>
        length (hook src dst bytes) = length bytes
        \<and> (\<forall>pid. unat pid < n \<longrightarrow> frame_at stride (hook src dst bytes) pid
             = frame_at stride bytes (if pid = dst then src else pid)))"

definition memory_inv :: "MemoryAllocator \<Rightarrow> bool" where
  "memory_inv al \<longleftrightarrow>
     (let n = unat (max_blocks (config al)); stride = unat (block_stride_bytes al) in
      blocks al = map (bind_frame (config al) (block_stride_bytes al) (Some 0)) [0..<n]
      \<and> length (pool al) = n * stride \<and> n * stride < 18446744073709551616
      \<and> \<not> faulted al
      \<and> (\<forall>hook. copy_hook al = Some hook \<longrightarrow> copy_hook_ok hook (block_stride_bytes al) n)
      \<and> (\<forall>sb. al_swap_backend al = Some sb \<longrightarrow>
           hsb_invar sb \<and> (\<forall>slot bs. hsb_contents sb slot = Some bs \<longrightarrow> length bs = stride)))"

definition alloc_inv :: "MemoryAllocator \<Rightarrow> bool" where
  "alloc_inv al \<longleftrightarrow> ids_inv al \<and> memory_inv al"

definition capacity :: "MemoryAllocator \<Rightarrow> nat" where
  "capacity al = length (infos al)"

text \<open>The swapped-out blocks, and that \<open>n\<close> more can be numbered before the 64-bit slot counter
  runs out.\<close>

definition swapped :: "MemoryAllocator \<Rightarrow> SwapSlotId \<rightharpoonup> u8 list" where
  "swapped al = (case al_swap_backend al of None \<Rightarrow> Map.empty | Some sb \<Rightarrow> hsb_contents sb)"

definition swap_room :: "MemoryAllocator \<Rightarrow> nat \<Rightarrow> bool" where
  "swap_room al n \<longleftrightarrow>
     (\<forall>sb. al_swap_backend al = Some sb \<longrightarrow> unat (next_slot sb) + n < 18446744073709551616)"

section \<open>What the pool promises the cache manager\<close>

text \<open>The pool as a multiset of outstanding references, together with the bytes of each frame
  and the number of frames nobody refers to.\<close>

locale frame_pool =
  fixes alloc :: "'a \<Rightarrow> PhysicalBlockId option \<times> 'a"
    and ret :: "'a \<Rightarrow> PhysicalBlockId \<Rightarrow> 'a"
    and rel :: "'a \<Rightarrow> PhysicalBlockId \<Rightarrow> 'a"
    and refs :: "'a \<Rightarrow> PhysicalBlockId multiset"
    and frame :: "'a \<Rightarrow> PhysicalBlockId \<Rightarrow> u8 list"
    and free :: "'a \<Rightarrow> nat"
    and size :: "'a \<Rightarrow> nat"
    and invar :: "'a \<Rightarrow> bool"
  assumes alloc_None: "invar a \<Longrightarrow> alloc a = (None, a') \<Longrightarrow> a' = a \<and> free a = 0"
    and alloc_Some: "invar a \<Longrightarrow> alloc a = (Some p, a') \<Longrightarrow>
          invar a' \<and> p \<notin># refs a \<and> refs a' = add_mset p (refs a) \<and> frame a' = frame a
          \<and> size a' = size a"
    and retain_ok: "invar a \<Longrightarrow> p \<in># refs a \<Longrightarrow> count (refs a) p + 1 < 4294967296 \<Longrightarrow>
          invar (ret a p) \<and> refs (ret a p) = add_mset p (refs a) \<and> frame (ret a p) = frame a
          \<and> size (ret a p) = size a"
    and release_ok: "invar a \<Longrightarrow>
          invar (rel a p) \<and> refs (rel a p) = refs a - {#p#} \<and> frame (rel a p) = frame a
          \<and> size (rel a p) = size a"
    and free_ok: "invar a \<Longrightarrow> free a + card (set_mset (refs a)) = size a"
begin

lemma alloc_succeeds: "invar a \<Longrightarrow> 0 < free a \<Longrightarrow> \<exists>p a'. alloc a = (Some p, a')"
  using alloc_None by (cases "alloc a"; cases "fst (alloc a)") fastforce+

lemma free_alloc:
  assumes "invar a" and "alloc a = (Some p, a')"
  shows "free a' = free a - 1" and "0 < free a"
proof -
  note step = alloc_Some [OF assms]
  have "card (set_mset (refs a')) = Suc (card (set_mset (refs a)))"
    using step by simp
  then show "free a' = free a - 1" and "0 < free a"
    using free_ok [OF assms(1)] free_ok [of a'] step by auto
qed

lemma release_all:
  "invar a \<Longrightarrow> invar (foldl rel a ps) \<and> refs (foldl rel a ps) = refs a - mset ps
     \<and> frame (foldl rel a ps) = frame a \<and> size (foldl rel a ps) = size a"
  by (induction ps arbitrary: a) (auto simp: release_ok)

lemma retain_all:
  "invar a \<Longrightarrow> set ps \<subseteq> set_mset (refs a) \<Longrightarrow>
   (\<And>p. count (refs a) p + count (mset ps) p < 4294967296) \<Longrightarrow>
   invar (foldl ret a ps) \<and> refs (foldl ret a ps) = refs a + mset ps
     \<and> frame (foldl ret a ps) = frame a \<and> size (foldl ret a ps) = size a"
proof (induction ps arbitrary: a)
  case Nil
  then show ?case by simp
next
  case (Cons p ps)
  have "count (refs a) p + 1 < 4294967296"
    using Cons.prems(3) [of p] by simp
  then have step: "invar (ret a p)" "refs (ret a p) = add_mset p (refs a)"
      "frame (ret a p) = frame a" "size (ret a p) = size a"
    using retain_ok [of a p] Cons.prems by auto
  have "count (refs (ret a p)) q + count (mset ps) q < 4294967296" for q
    using Cons.prems(3) [of q] by (simp add: step split: if_splits)
  with Cons.IH [of "ret a p"] Cons.prems(2) show ?case
    by (auto simp: step)
qed

end

section \<open>Reference counts\<close>

lemma update_info_simps [simp]:
  "config (update_info al p f) = config al"
  "block_stride_bytes (update_info al p f) = block_stride_bytes al"
  "pool_bytes (update_info al p f) = pool_bytes al"
  "pool (update_info al p f) = pool al"
  "faulted (update_info al p f) = faulted al"
  "blocks (update_info al p f) = blocks al"
  "free_list (update_info al p f) = free_list al"
  "al_swap_backend (update_info al p f) = al_swap_backend al"
  "copy_hook (update_info al p f) = copy_hook al"
  "length (infos (update_info al p f)) = length (infos al)"
  by (simp_all add: update_info_def)

lemma ref_of_update_info:
  assumes "unat p < length (infos al)"
  shows "ref_of (update_info al p f) q =
    (if q = p then unat (ref_count (f (infos al ! unat p))) else ref_of al q)"
  using assms by (auto simp: ref_of_def update_info_def nth_list_update word_unat_eq_iff)

lemma ref_of_cong: "infos al = infos al' \<Longrightarrow> ref_of al = ref_of al'"
  by (simp add: ref_of_def fun_eq_iff)

lemma ref_of_other_fields [simp]:
  "ref_of (al\<lparr>free_list := fl\<rparr>) = ref_of al"
  "ref_of (al\<lparr>pool := bs\<rparr>) = ref_of al"
  "ref_of (al\<lparr>al_swap_backend := sb\<rparr>) = ref_of al"
  by (rule ref_of_cong; simp)+

lemma count_alloc_refs:
  assumes "length (infos al) \<le> 4294967296"
  shows "count (alloc_refs al) p = ref_of al p"
proof -
  let ?n = "length (infos al)" and ?rc = "\<lambda>i. unat (ref_count (infos al ! i))"
  have "count (alloc_refs al) p = (\<Sum>i<?n. if p = of_nat i then ?rc i else 0)"
    by (simp add: alloc_refs_def count_sum)
  also have "\<dots> = (\<Sum>i<?n. if i = unat p then ?rc i else 0)"
    using assms by (intro sum.cong) (auto simp: order.strict_trans2)
  also have "\<dots> = ref_of al p" by (simp add: ref_of_def)
  finally show ?thesis .
qed

lemma ids_inv_length: "ids_inv al \<Longrightarrow> length (infos al) < 4294967296"
  by (simp add: ids_inv_def)

lemma ids_inv_count: "ids_inv al \<Longrightarrow> count (alloc_refs al) p = ref_of al p"
  using ids_inv_length count_alloc_refs by (simp add: less_imp_le)

lemma ids_inv_mem: "ids_inv al \<Longrightarrow> p \<in># alloc_refs al \<longleftrightarrow> 0 < ref_of al p"
  by (simp add: ids_inv_count flip: count_greater_zero_iff)

lemma ref_of_pos_valid: "0 < ref_of al p \<Longrightarrow> unat p < length (infos al)"
  by (simp add: ref_of_def split: if_splits)

text \<open>The part of the invariant about ids survives an update of one block's metadata and the
  free list when they change together.\<close>

lemma ids_inv_update:
  assumes "ids_inv al" and p: "unat p < length (infos al)"
    and id: "pbi_id (f (infos al ! unat p)) = pbi_id (infos al ! unat p)"
    and st: "pbi_state (f (infos al ! unat p)) = state_for (ref_count (f (infos al ! unat p)))"
    and fl: "distinct fl"
      "set fl = (if ref_count (f (infos al ! unat p)) = 0
                 then insert p (set (free_list al)) else set (free_list al) - {p})"
  shows "ids_inv ((update_info al p f)\<lparr>free_list := fl\<rparr>)"
proof -
  let ?al = "(update_info al p f)\<lparr>free_list := fl\<rparr>"
  have infos: "infos ?al = (infos al)[unat p := f (infos al ! unat p)]"
    by (simp add: update_info_def)
  have "set fl = {q. unat q < length (infos ?al) \<and> ref_of ?al q = 0}"
    using assms(1) p fl(2) ref_of_update_info [OF p, of f] by (auto simp: ids_inv_def)
  moreover have "\<forall>i<length (infos ?al). pbi_id (infos ?al ! i) = of_nat i
      \<and> pbi_state (infos ?al ! i) = state_for (ref_count (infos ?al ! i))"
    unfolding infos using assms(1) p id st by (auto simp: ids_inv_def nth_list_update)
  ultimately show ?thesis
    using assms(1) fl(1) by (simp add: ids_inv_def)
qed

section \<open>Allocate, retain and release on the multiset of references\<close>

lemma allocate_Some:
  assumes "ids_inv al" and "allocate al = (Some p, al')"
  shows "al' = (update_info al p (\<lambda>i. i\<lparr>pbi_state := Active, ref_count := 1\<rparr>))
               \<lparr>free_list := butlast (free_list al)\<rparr>"
    and "unat p < length (infos al)" and "ref_of al p = 0"
    and "free_list al = butlast (free_list al) @ [p]" and "ids_inv al'"
    and "alloc_refs al' = add_mset p (alloc_refs al)"
proof -
  have ne: "free_list al \<noteq> []" and p: "p = last (free_list al)"
    using assms(2) by (auto simp: allocate_def Let_def split: if_splits)
  show al': "al' = (update_info al p (\<lambda>i. i\<lparr>pbi_state := Active, ref_count := 1\<rparr>))
      \<lparr>free_list := butlast (free_list al)\<rparr>"
    using assms(2) ne by (auto simp: allocate_def update_info_def Let_def)
  show fl: "free_list al = butlast (free_list al) @ [p]" using ne p by simp
  have "p \<in> set (free_list al)" using ne p by simp
  then show valid: "unat p < length (infos al)" and zero: "ref_of al p = 0"
    using assms(1) by (auto simp: ids_inv_def)
  have "distinct (butlast (free_list al) @ [p])" using assms(1) fl by (simp add: ids_inv_def)
  moreover have "set (free_list al) = set (butlast (free_list al) @ [p])" using fl by simp
  ultimately show inv: "ids_inv al'"
    unfolding al' using assms(1) valid
    by (intro ids_inv_update) (auto simp: ids_inv_def state_for_def)
  have "ref_of al' = ref_of (update_info al p (\<lambda>i. i\<lparr>pbi_state := Active, ref_count := 1\<rparr>))"
    unfolding al' by simp
  then show "alloc_refs al' = add_mset p (alloc_refs al)"
    using zero by (auto intro!: multiset_eqI
        simp: ids_inv_count [OF inv] ids_inv_count [OF assms(1)] ref_of_update_info [OF valid])
qed

lemma allocate_None: "allocate al = (None, al') \<Longrightarrow> al' = al \<and> free_list al = []"
  by (auto simp: allocate_def Let_def split: if_splits)

lemma release_refs:
  assumes "ids_inv al"
  shows "ids_inv (release al p)" and "alloc_refs (release al p) = alloc_refs al - {#p#}"
proof -
  have "ids_inv (release al p) \<and> ref_of (release al p) = (ref_of al)(p := ref_of al p - 1)"
  proof (cases "0 < ref_of al p")
    case False
    then have "release al p = al" by (auto simp: release_def ref_of_def)
    with False assms show ?thesis by (simp add: fun_upd_idem)
  next
    case True
    then have valid: "unat p < length (infos al)" by (rule ref_of_pos_valid)
    let ?i = "infos al ! unat p"
    have pos: "ref_count ?i \<noteq> 0" using True valid by (auto simp: ref_of_def)
    have dec: "unat (ref_count ?i - 1) = ref_of al p - 1"
      using pos valid by (simp add: unat_dec ref_of_def)
    define f where "f = (\<lambda>i :: PhysicalBlockInfo. let rc = ref_count i - 1 in
      i\<lparr>ref_count := rc, pbi_state := (if rc = 0 then Free else if rc = 1 then Active else pbi_state i),
        generation := (if rc = 0 then generation i + 1 else generation i)\<rparr>)"
    define fl where "fl = (if ref_count ?i - 1 = 0 then free_list al @ [p] else free_list al)"
    have rel: "release al p = (update_info al p f)\<lparr>free_list := fl\<rparr>"
      using valid pos by (auto simp: release_def update_info_def f_def fl_def Let_def)
    have rc: "ref_count (f ?i) = ref_count ?i - 1" by (simp add: f_def Let_def)
    have notfree: "p \<notin> set (free_list al)" using assms True by (simp add: ids_inv_def)
    have "pbi_state (f ?i) = state_for (ref_count (f ?i))"
      using assms valid pos by (auto simp: f_def Let_def ids_inv_def state_for_def)
    then have "ids_inv (release al p)"
      unfolding rel using assms valid notfree
      by (intro ids_inv_update) (auto simp: f_def fl_def Let_def ids_inv_def)
    moreover have "ref_of (release al p) = (ref_of al)(p := ref_of al p - 1)"
      unfolding rel using dec by (auto simp: fun_eq_iff ref_of_update_info [OF valid] rc)
    ultimately show ?thesis by blast
  qed
  then show inv: "ids_inv (release al p)"
    and "alloc_refs (release al p) = alloc_refs al - {#p#}"
    by (auto intro!: multiset_eqI simp: ids_inv_count assms)
qed

lemma retain_refs:
  assumes "ids_inv al" and "0 < ref_of al p" and "ref_of al p + 1 < 4294967296"
  shows "ids_inv (retain al p)" and "alloc_refs (retain al p) = add_mset p (alloc_refs al)"
proof -
  let ?f = "\<lambda>i :: PhysicalBlockInfo. i\<lparr>ref_count := ref_count i + 1, pbi_state := Shared\<rparr>"
  have valid: "unat p < length (infos al)" using assms(2) by (rule ref_of_pos_valid)
  have inc: "unat (ref_count (infos al ! unat p) + 1) = ref_of al p + 1"
    using assms(3) valid unat_inc_u32 by (simp add: ref_of_def)
  have ne: "ref_count (infos al ! unat p) + 1 \<noteq> 0" using inc unat_0 by fastforce
  have pos: "ref_count (infos al ! unat p) \<noteq> 0" using assms(2) valid by (auto simp: ref_of_def)
  have ret: "retain al p = (update_info al p ?f)\<lparr>free_list := free_list al\<rparr>"
    using valid pos by (simp add: retain_def update_info_def)
  show inv: "ids_inv (retain al p)"
    unfolding ret using assms(1,2) valid ne pos
    by (intro ids_inv_update) (auto simp: ids_inv_def state_for_def)
  have "ref_of (retain al p) = (ref_of al)(p := ref_of al p + 1)"
    unfolding ret using inc by (auto simp: fun_eq_iff ref_of_update_info [OF valid, of ?f])
  then show "alloc_refs (retain al p) = add_mset p (alloc_refs al)"
    by (auto intro!: multiset_eqI simp: ids_inv_count [OF inv] ids_inv_count [OF assms(1)])
qed

lemma free_plus_used:
  assumes "ids_inv al"
  shows "length (free_list al) + card (set_mset (alloc_refs al)) = length (infos al)"
proof -
  let ?n = "length (infos al)" and ?all = "{q :: u32. unat q < length (infos al)}"
  have "?all = of_nat ` {..<?n}"
  proof (intro equalityI subsetI)
    fix q :: u32 assume "q \<in> ?all"
    then show "q \<in> of_nat ` {..<?n}" by (intro image_eqI [where x = "unat q"]) simp_all
  qed (use ids_inv_length [OF assms] in auto)
  moreover have "inj_on (of_nat :: nat \<Rightarrow> u32) {..<?n}"
    using ids_inv_length [OF assms] by (auto simp: inj_on_def of_nat_u32_eq_iff)
  ultimately have all: "card ?all = ?n" "finite ?all" by (simp_all add: card_image)
  have split: "?all = set (free_list al) \<union> set_mset (alloc_refs al)"
    "set (free_list al) \<inter> set_mset (alloc_refs al) = {}"
    using assms ids_inv_mem [OF assms] ref_of_pos_valid [of al] by (auto simp: ids_inv_def)
  then have "card ?all = card (set (free_list al)) + card (set_mset (alloc_refs al))"
    by (simp add: card_Un_disjoint)
  moreover have "card (set (free_list al)) = length (free_list al)"
    using assms distinct_card unfolding ids_inv_def by blast
  ultimately show ?thesis using all by simp
qed

section \<open>Frames and their bytes\<close>

lemma memory_inv_cong:
  assumes "memory_inv al" and "config al' = config al"
    and "block_stride_bytes al' = block_stride_bytes al" and "pool al' = pool al"
    and "faulted al' = faulted al" and "blocks al' = blocks al" and "copy_hook al' = copy_hook al"
    and "al_swap_backend al' = al_swap_backend al"
  shows "memory_inv al'"
  using assms by (simp add: memory_inv_def)

lemma alloc_inv_valid: "alloc_inv al \<Longrightarrow> length (infos al) = unat (max_blocks (config al))"
  by (simp add: alloc_inv_def ids_inv_def)

lemma memory_block:
  assumes "memory_inv al" and "unat p < unat (max_blocks (config al))"
  obtains b off where "al_block al p = Some b" and "pb_storage b = Some off"
    and "unat off = unat p * unat (block_stride_bytes al)"
    and "pb_size_bytes b = block_stride_bytes al" and "pb_shape b = block_shape (config al)"
    and "unat off + unat (block_stride_bytes al) \<le> length (pool al)"
proof -
  let ?s = "block_stride_bytes al" and ?n = "unat (max_blocks (config al))"
  let ?b = "bind_frame (config al) ?s (Some 0) (unat p)"
  have len: "length (pool al) = ?n * unat ?s" "?n * unat ?s < 18446744073709551616"
    and bs: "blocks al = map (bind_frame (config al) ?s (Some 0)) [0..<?n]"
    using assms(1) by (simp_all add: memory_inv_def Let_def)
  have b: "al_block al p = Some ?b" using assms(2) bs by (simp add: al_block_def)
  have fits: "unat p * unat ?s + unat ?s \<le> length (pool al)"
    using frame_fits [OF assms(2)] len(1) by simp
  moreover have off: "unat ((ucast p :: u64) * ?s) = unat p * unat ?s"
  proof -
    have "(ucast p :: u64) * ?s = of_nat (unat p * unat ?s)" by simp
    moreover have "unat p * unat ?s < 18446744073709551616" using fits len by linarith
    ultimately show ?thesis using unat_of_nat_u64 by metis
  qed
  ultimately show ?thesis
    using that [OF b, of "ucast p * ?s"] by (simp add: bind_frame_def Let_def)
qed

lemma frame_at_overwrite:
  assumes "length bs = unat s" and "unat p * unat s + unat s \<le> length xs"
  shows "frame_at s (overwrite (unat p * unat s) bs xs) q = (if q = p then bs else frame_at s xs q)"
proof (cases "q = p")
  case True
  then show ?thesis using assms segment_overwrite_same [of "unat p * unat s" bs xs]
    by (simp add: frame_at_def)
next
  case False
  then have "unat q \<noteq> unat p" by (simp add: word_unat_eq_iff)
  then show ?thesis
    using False assms frames_disjoint [of "unat q" "unat p" "unat s"]
    by (simp add: frame_at_def segment_overwrite_disjoint)
qed

lemma frame_bytes_full:
  assumes "memory_inv al" and "unat p < unat (max_blocks (config al))"
  obtains b where "al_block al p = Some b" and "pb_size_bytes b = block_stride_bytes al"
    and "frame_bytes al b (unat (block_stride_bytes al)) = Some (frame_of al p)"
    and "length (frame_of al p) = unat (block_stride_bytes al)"
    and "\<And>bs. length bs = unat (block_stride_bytes al) \<Longrightarrow>
           write_frame al b bs
             = al\<lparr>pool := overwrite (unat p * unat (block_stride_bytes al)) bs (pool al)\<rparr>"
proof -
  obtain b off where b: "al_block al p = Some b" "pb_storage b = Some off"
    "unat off = unat p * unat (block_stride_bytes al)" "pb_size_bytes b = block_stride_bytes al"
    "unat off + unat (block_stride_bytes al) \<le> length (pool al)"
    using memory_block [OF assms] by metis
  then show ?thesis
    using that [of b] by (auto simp: frame_bytes_def write_frame_def frame_of_def frame_at_def)
qed

text \<open>Overwriting one whole frame changes that frame only and keeps the memory invariant.\<close>

lemma write_pool_frame:
  assumes "memory_inv al" and "unat p < unat (max_blocks (config al))"
    and "length bs = unat (block_stride_bytes al)"
  defines "al' \<equiv> al\<lparr>pool := overwrite (unat p * unat (block_stride_bytes al)) bs (pool al)\<rparr>"
  shows "memory_inv al'" and "frame_of al' q = (if q = p then bs else frame_of al q)"
proof -
  have fits: "unat p * unat (block_stride_bytes al) + unat (block_stride_bytes al) \<le> length (pool al)"
    using assms(1) frame_fits [OF assms(2)] by (simp add: memory_inv_def Let_def)
  then have "length (pool al') = length (pool al)" using assms(3) by (simp add: al'_def)
  then show "memory_inv al'" using assms(1) by (simp add: memory_inv_def al'_def Let_def)
  show "frame_of al' q = (if q = p then bs else frame_of al q)"
    using frame_at_overwrite [OF assms(3) fits, of q] by (simp add: frame_of_def al'_def)
qed

text \<open>Copy-on-write's copy: the destination frame gets the source's bytes, nothing else moves,
  with the default copy or with any hook that keeps its documented promise.\<close>

lemma copy_block_frames:
  assumes "memory_inv al" and "unat s < unat (max_blocks (config al))"
    and "unat d < unat (max_blocks (config al))"
  shows "memory_inv (copy_block al s d)" and "infos (copy_block al s d) = infos al"
    and "free_list (copy_block al s d) = free_list al" and "config (copy_block al s d) = config al"
    and "al_swap_backend (copy_block al s d) = al_swap_backend al"
    and "block_stride_bytes (copy_block al s d) = block_stride_bytes al"
    and "unat q < unat (max_blocks (config al)) \<Longrightarrow>
           frame_of (copy_block al s d) q = frame_of al (if q = d then s else q)"
proof -
  let ?r = "copy_block al s d" and ?n = "unat (max_blocks (config al))"
  have "memory_inv ?r \<and> infos ?r = infos al \<and> free_list ?r = free_list al \<and> config ?r = config al
    \<and> al_swap_backend ?r = al_swap_backend al \<and> block_stride_bytes ?r = block_stride_bytes al
    \<and> (\<forall>q. unat q < ?n \<longrightarrow> frame_of ?r q = frame_of al (if q = d then s else q))"
  proof (cases "copy_hook al")
    case None
    obtain bs where src: "al_block al s = Some bs" "pb_size_bytes bs = block_stride_bytes al"
      "frame_bytes al bs (unat (block_stride_bytes al)) = Some (frame_of al s)"
      "length (frame_of al s) = unat (block_stride_bytes al)"
      using frame_bytes_full [OF assms(1,2)] by metis
    obtain bd where dst: "al_block al d = Some bd" "pb_size_bytes bd = block_stride_bytes al"
      "write_frame al bd (frame_of al s)
        = al\<lparr>pool := overwrite (unat d * unat (block_stride_bytes al)) (frame_of al s) (pool al)\<rparr>"
      using frame_bytes_full [OF assms(1,3)] src(4) by metis
    have "?r = al\<lparr>pool := overwrite (unat d * unat (block_stride_bytes al)) (frame_of al s) (pool al)\<rparr>"
      using None src dst by (simp add: copy_block_def)
    then show ?thesis
      using write_pool_frame [OF assms(1,3) src(4)] by simp
  next
    case (Some hook)
    then have ok: "copy_hook_ok hook (block_stride_bytes al) ?n"
      and len: "length (pool al) = ?n * unat (block_stride_bytes al)"
      using assms(1) by (simp_all add: memory_inv_def Let_def)
    have "length (hook s d (pool al)) = length (pool al)
      \<and> (\<forall>q. unat q < ?n \<longrightarrow> frame_at (block_stride_bytes al) (hook s d (pool al)) q
           = frame_at (block_stride_bytes al) (pool al) (if q = d then s else q))"
      using ok assms(2,3) len unfolding copy_hook_ok_def by blast
    with Some assms(1) show ?thesis
      by (simp add: copy_block_def memory_inv_def Let_def frame_of_def)
  qed
  then show "memory_inv ?r" and "infos ?r = infos al" and "free_list ?r = free_list al"
    and "config ?r = config al" and "al_swap_backend ?r = al_swap_backend al"
    and "block_stride_bytes ?r = block_stride_bytes al"
    and "unat q < ?n \<Longrightarrow> frame_of ?r q = frame_of al (if q = d then s else q)" by auto
qed

section \<open>The allocator implements the pool interface\<close>

lemma release_fields [simp]:
  "config (release al p) = config al" "block_stride_bytes (release al p) = block_stride_bytes al"
  "pool (release al p) = pool al" "faulted (release al p) = faulted al"
  "blocks (release al p) = blocks al" "copy_hook (release al p) = copy_hook al"
  "al_swap_backend (release al p) = al_swap_backend al"
  "length (infos (release al p)) = length (infos al)" "pool_bytes (release al p) = pool_bytes al"
  by (simp_all add: release_def Let_def)

lemma retain_fields [simp]:
  "config (retain al p) = config al" "block_stride_bytes (retain al p) = block_stride_bytes al"
  "pool (retain al p) = pool al" "faulted (retain al p) = faulted al"
  "blocks (retain al p) = blocks al" "copy_hook (retain al p) = copy_hook al"
  "al_swap_backend (retain al p) = al_swap_backend al"
  "length (infos (retain al p)) = length (infos al)" "pool_bytes (retain al p) = pool_bytes al"
  by (simp_all add: retain_def)

lemma allocate_fields:
  assumes "allocate al = (r, al')"
  shows "config al' = config al" "block_stride_bytes al' = block_stride_bytes al"
    "pool al' = pool al" "faulted al' = faulted al" "blocks al' = blocks al"
    "copy_hook al' = copy_hook al" "al_swap_backend al' = al_swap_backend al"
    "length (infos al') = length (infos al)" "pool_bytes al' = pool_bytes al"
  using assms by (auto simp: allocate_def Let_def split: if_splits)

lemma frame_of_cong:
  "block_stride_bytes al' = block_stride_bytes al \<Longrightarrow> pool al' = pool al \<Longrightarrow> frame_of al' = frame_of al"
  by (simp add: frame_of_def fun_eq_iff)

lemma release_inv: "alloc_inv al \<Longrightarrow> alloc_inv (release al p)"
  using release_refs [of al p] memory_inv_cong [of al "release al p"] by (simp add: alloc_inv_def)

lemma retain_inv:
  "alloc_inv al \<Longrightarrow> 0 < ref_of al p \<Longrightarrow> ref_of al p + 1 < 4294967296 \<Longrightarrow> alloc_inv (retain al p)"
  using retain_refs [of al p] memory_inv_cong [of al "retain al p"] by (simp add: alloc_inv_def)

lemma allocate_inv: "alloc_inv al \<Longrightarrow> allocate al = (Some p, al') \<Longrightarrow> alloc_inv al'"
  using allocate_Some(5) [of al p al'] memory_inv_cong [of al al'] allocate_fields [of al "Some p" al']
  by (simp add: alloc_inv_def)

interpretation pool: frame_pool allocate retain release alloc_refs frame_of
  "\<lambda>al. length (free_list al)" capacity alloc_inv
proof (unfold_locales, goal_cases)
  case (1 a a')
  then show ?case using allocate_None by simp
next
  case (2 a p a')
  then have ids: "ids_inv a" by (simp add: alloc_inv_def)
  show ?case
    using allocate_Some [OF ids 2(2)] allocate_fields [OF 2(2)] allocate_inv [OF 2]
      ids_inv_mem [OF ids, of p] frame_of_cong [of a' a]
    by (simp add: capacity_def)
next
  case (3 a p)
  then have ids: "ids_inv a" by (simp add: alloc_inv_def)
  have "0 < ref_of a p" "ref_of a p + 1 < 4294967296"
    using 3 ids_inv_mem [OF ids] ids_inv_count [OF ids] by simp_all
  then show ?case
    using 3 retain_refs [OF ids] retain_inv frame_of_cong [of "retain a p" a]
    by (simp add: capacity_def)
next
  case (4 a p)
  then have ids: "ids_inv a" by (simp add: alloc_inv_def)
  show ?case
    using release_refs [OF ids] release_inv [OF 4] frame_of_cong [of "release a p" a]
    by (simp add: capacity_def)
next
  case (5 a)
  then show ?case by (simp add: free_plus_used capacity_def alloc_inv_def)
qed

section \<open>Construction\<close>

lemma bind_frames_inv:
  assumes "length bytes = unat (block_stride_for cfg) * unat (max_blocks cfg)"
    and "unat (block_stride_for cfg) * unat (max_blocks cfg) < 18446744073709551616"
  shows "alloc_inv (bind_frames ((unbound_allocator cfg)\<lparr>owned_pool := own, pool := bytes\<rparr>) (Some 0))"
proof -
  let ?al = "bind_frames ((unbound_allocator cfg)\<lparr>owned_pool := own, pool := bytes\<rparr>) (Some 0)"
  let ?n = "unat (max_blocks cfg)"
  have infos: "infos ?al = map free_info [0..<?n]"
    by (simp add: bind_frames_def unbound_allocator_def Let_def)
  have fl: "free_list ?al = map of_nat [0..<?n]"
    by (simp add: bind_frames_def unbound_allocator_def Let_def)
  have cfg: "config ?al = cfg" by (simp add: bind_frames_def unbound_allocator_def Let_def)
  have "distinct (free_list ?al)"
    unfolding fl by (auto simp: distinct_map inj_on_def of_nat_u32_eq_iff less_trans [OF _ unat_u32_lt])
  moreover have "set (free_list ?al) = {p. unat p < ?n}"
  proof (intro equalityI subsetI)
    fix p :: u32
    assume "p \<in> {p. unat p < ?n}"
    then show "p \<in> set (free_list ?al)"
      unfolding fl by (simp, intro image_eqI [where x = "unat p"]) simp_all
  qed (auto simp: fl less_trans [OF _ unat_u32_lt])
  moreover have "ref_of ?al p = 0" for p by (simp add: ref_of_def infos free_info_def)
  ultimately have "ids_inv ?al"
    by (simp add: ids_inv_def infos cfg free_info_def state_for_def)
  moreover have "memory_inv ?al"
    using assms by (simp add: memory_inv_def bind_frames_def unbound_allocator_def Let_def mult.commute)
  ultimately show ?thesis by (simp add: alloc_inv_def)
qed

lemma MemoryAllocator_new_inv:
  assumes "length bytes = unat (block_stride_for cfg) * unat (max_blocks cfg)"
    and "unat (block_stride_for cfg) * unat (max_blocks cfg) < 18446744073709551616"
    and "bytes \<noteq> []"
  shows "alloc_inv (MemoryAllocator_new cfg (Some bytes))"
    and "alloc_refs (MemoryAllocator_new cfg (Some bytes)) = {#}"
proof -
  have "pool_bytes (unbound_allocator cfg) = of_nat (unat (block_stride_for cfg) * unat (max_blocks cfg))"
    by (simp add: unbound_allocator_def)
  then have "unat (pool_bytes (unbound_allocator cfg)) = length bytes"
    using assms(1,2) unat_of_nat_u64 by metis
  then have "0 < pool_bytes (unbound_allocator cfg)"
    using assms(3) by (simp add: word_less_nat_alt)
  then have new: "MemoryAllocator_new cfg (Some bytes)
      = bind_frames ((unbound_allocator cfg)\<lparr>owned_pool := True, pool := bytes\<rparr>) (Some 0)"
    by (simp add: MemoryAllocator_new_def Let_def)
  then show inv: "alloc_inv (MemoryAllocator_new cfg (Some bytes))"
    using bind_frames_inv [OF assms(1,2)] by simp
  have "ref_of (MemoryAllocator_new cfg (Some bytes)) p = 0" for p
    by (simp add: new ref_of_def bind_frames_def unbound_allocator_def free_info_def Let_def)
  then show "alloc_refs (MemoryAllocator_new cfg (Some bytes)) = {#}"
    using inv by (auto intro!: multiset_eqI simp: alloc_inv_def ids_inv_count)
qed

section \<open>Swapping\<close>

lemma swapped_simps [simp]:
  "swapped (al\<lparr>al_swap_backend := Some sb\<rparr>) = hsb_contents sb"
  "swapped (release al p) = swapped al" "swapped (retain al p) = swapped al"
  by (simp_all add: swapped_def)

lemma swapped_cong: "al_swap_backend al' = al_swap_backend al \<Longrightarrow> swapped al' = swapped al"
  by (simp add: swapped_def)

lemma swapped_length:
  "alloc_inv al \<Longrightarrow> swapped al slot = Some bs \<Longrightarrow> length bs = unat (block_stride_bytes al)"
  by (auto simp: swapped_def alloc_inv_def memory_inv_def Let_def split: option.splits)

lemma set_backend_inv:
  assumes "alloc_inv al" and "hsb_invar sb"
    and "\<And>slot bs. hsb_contents sb slot = Some bs \<Longrightarrow> length bs = unat (block_stride_bytes al)"
  shows "alloc_inv (al\<lparr>al_swap_backend := Some sb\<rparr>)"
  using assms by (simp add: alloc_inv_def memory_inv_def ids_inv_def Let_def)

text \<open>\<^verbatim>\<open>swap_out\<close> either changes nothing or moves a block that had exactly one reference into the
  backend and frees its frame.\<close>

lemma swap_out_None:
  assumes "alloc_inv al" and "swap_out al p = (None, al')"
  shows "al' = al"
proof -
  have mem: "memory_inv al" using assms(1) by (simp add: alloc_inv_def)
  have same: "al\<lparr>al_swap_backend := Some sb\<rparr> = al" if "al_swap_backend al = Some sb" for sb
    using that by (cases al) simp
  show ?thesis
  proof (cases "unat p < unat (max_blocks (config al))")
    case False
    then show ?thesis
      using assms by (auto simp: swap_out_def alloc_inv_valid split: option.splits)
  next
    case True
    obtain b where "al_block al p = Some b" "pb_size_bytes b = block_stride_bytes al"
      "frame_bytes al b (unat (block_stride_bytes al)) = Some (frame_of al p)"
      using frame_bytes_full [OF mem True] by metis
    then show ?thesis
      using assms(2) by (auto simp: swap_out_def same hsb.store_full
          split: option.splits if_splits prod.splits dest: hsb.store_full)
  qed
qed

lemma swap_out_Some:
  assumes inv: "alloc_inv al" and out: "swap_out al p = (Some slot, al')" and room: "swap_room al 1"
  shows "ref_of al p = 1" and "swapped al slot = None"
    and "swapped al' = (swapped al)(slot \<mapsto> frame_of al p)"
    and "alloc_refs al' = alloc_refs al - {#p#}" and "frame_of al' = frame_of al"
    and "alloc_inv al'" and "config al' = config al"
    and "swap_room al (Suc n) \<Longrightarrow> swap_room al' n" and "capacity al' = capacity al"
proof -
  have mem: "memory_inv al" and ids: "ids_inv al" using inv by (simp_all add: alloc_inv_def)
  obtain sb where sb: "al_swap_backend al = Some sb" and valid: "unat p < length (infos al)"
    and rc: "ref_count (infos al ! unat p) = 1"
    using out by (auto simp: swap_out_def split: option.splits if_splits)
  have lt: "unat p < unat (max_blocks (config al))" using valid alloc_inv_valid [OF inv] by simp
  obtain b where b: "al_block al p = Some b" "pb_size_bytes b = block_stride_bytes al"
    "frame_bytes al b (unat (block_stride_bytes al)) = Some (frame_of al p)"
    "length (frame_of al p) = unat (block_stride_bytes al)"
    using frame_bytes_full [OF mem lt] by metis
  let ?f = "\<lambda>i :: PhysicalBlockInfo.
    i\<lparr>ref_count := 0, pbi_state := Free, generation := generation i + 1\<rparr>"
  obtain sb' where store: "hsb_store sb (frame_of al p) = (Some slot, sb')"
    and al': "al' = ((update_info al p ?f)\<lparr>free_list := free_list al @ [p]\<rparr>)\<lparr>al_swap_backend := Some sb'\<rparr>"
    using out sb valid rc b
    by (auto simp: swap_out_def update_info_def split: option.splits prod.splits)
  have sbi: "hsb_invar sb" using mem sb by (simp add: memory_inv_def Let_def)
  have fresh: "hsb_fresh sb" using room sb by (simp add: swap_room_def hsb_fresh_def)
  show one: "ref_of al p = 1" using valid rc by (simp add: ref_of_def)
  show "swapped al slot = None" using hsb.store_new [OF sbi store] sb by (simp add: swapped_def)
  have cont: "hsb_contents sb' = (hsb_contents sb)(slot \<mapsto> frame_of al p)"
    using hsb.store_contents [OF sbi store] .
  then show "swapped al' = (swapped al)(slot \<mapsto> frame_of al p)"
    using sb al' by (simp add: swapped_def)
  have "ids_inv ((update_info al p ?f)\<lparr>free_list := free_list al @ [p]\<rparr>)"
    using ids valid one by (intro ids_inv_update) (auto simp: ids_inv_def state_for_def)
  moreover have "memory_inv ((update_info al p ?f)\<lparr>free_list := free_list al @ [p]\<rparr>)"
    using memory_inv_cong [OF mem] by simp
  ultimately have inv0: "alloc_inv ((update_info al p ?f)\<lparr>free_list := free_list al @ [p]\<rparr>)"
    by (simp add: alloc_inv_def)
  have "length bs = unat (block_stride_bytes al)" if "hsb_contents sb' k = Some bs" for k bs
    using that cont b(4) mem sb by (auto simp: memory_inv_def Let_def split: if_splits)
  then show inv': "alloc_inv al'"
    unfolding al' using inv0 hsb.store_invar [OF sbi fresh store]
    by (intro set_backend_inv) auto
  have "ref_of al' = (ref_of al)(p := 0)"
    unfolding al' by (auto simp: fun_eq_iff ref_of_update_info [OF valid])
  then show "alloc_refs al' = alloc_refs al - {#p#}"
    using one inv' by (auto intro!: multiset_eqI simp: alloc_inv_def ids_inv_count ids)
  show "frame_of al' = frame_of al" unfolding al' by (rule frame_of_cong) simp_all
  show "config al' = config al" and "capacity al' = capacity al"
    unfolding al' by (simp_all add: capacity_def)
  have "next_slot sb' = next_slot sb + 1"
    using store by (auto simp: hsb_store_def Let_def split: if_splits)
  then show "swap_room al' n" if "swap_room al (Suc n)"
    using that sb al' unat_inc [of "next_slot sb"] by (simp add: swap_room_def)
qed

text \<open>\<^verbatim>\<open>swap_in\<close> succeeds whenever the slot is known and a frame is free, and then the new frame
  holds exactly the bytes that were swapped out.\<close>

lemma swap_in_Some:
  assumes inv: "alloc_inv al" and slot: "swapped al slot = Some bs" and free: "free_list al \<noteq> []"
  obtains p al' where "swap_in al slot = (Some p, al')" and "alloc_inv al'" and "p \<notin># alloc_refs al"
    and "alloc_refs al' = add_mset p (alloc_refs al)" and "frame_of al' = (frame_of al)(p := bs)"
    and "swapped al' = (swapped al)(slot := None)" and "config al' = config al"
    and "length (free_list al') = length (free_list al) - 1" and "capacity al' = capacity al"
    and "\<And>n. swap_room al n \<Longrightarrow> swap_room al' n"
proof -
  obtain p al1 where alloc: "allocate al = (Some p, al1)"
    using pool.alloc_succeeds [OF inv] free by auto
  note f1 = allocate_fields [OF alloc]
  note step = pool.alloc_Some [OF inv alloc]
  have ids: "ids_inv al" using inv by (simp add: alloc_inv_def)
  have lt: "unat p < unat (max_blocks (config al1))"
    using allocate_Some(2) [OF ids alloc] alloc_inv_valid [OF inv] f1 by simp
  have mem: "memory_inv al1" using step by (simp add: alloc_inv_def)
  obtain sb where sb: "al_swap_backend al = Some sb" and bs: "hsb_contents sb slot = Some bs"
    using slot by (auto simp: swapped_def split: option.splits)
  have len: "length bs = unat (block_stride_bytes al1)" using swapped_length [OF inv slot] f1 by simp
  obtain b where b: "al_block al1 p = Some b" "pb_size_bytes b = block_stride_bytes al1"
    "frame_bytes al1 b (unat (block_stride_bytes al1)) = Some (frame_of al1 p)"
    "length (frame_of al1 p) = unat (block_stride_bytes al1)"
    "write_frame al1 b bs = al1\<lparr>pool := overwrite (unat p * unat (block_stride_bytes al1)) bs (pool al1)\<rparr>"
    using frame_bytes_full [OF mem lt] len by metis
  let ?al2 = "al1\<lparr>pool := overwrite (unat p * unat (block_stride_bytes al1)) bs (pool al1)\<rparr>"
  let ?al3 = "?al2\<lparr>al_swap_backend := Some (hsb_discard sb slot)\<rparr>"
  have load: "hsb_load sb slot (frame_of al1 p) = Some bs"
    using bs b(4) len by (simp add: hsb.load_spec)
  have res: "swap_in al slot = (Some p, ?al3)"
    using sb alloc b load by (simp add: swap_in_def)
  have sbi: "hsb_invar sb" "\<And>k c. hsb_contents sb k = Some c \<Longrightarrow> length c = unat (block_stride_bytes al1)"
    using mem sb f1 by (auto simp: memory_inv_def Let_def)
  have "alloc_inv ?al2"
    using write_pool_frame(1) [OF mem lt len] step by (simp add: alloc_inv_def ids_inv_def)
  then have inv3: "alloc_inv ?al3"
    by (rule set_backend_inv) (auto simp: hsb_discard_invar sbi hsb.discard_contents split: if_splits)
  have "frame_of ?al3 = frame_of ?al2" by (rule frame_of_cong) simp_all
  then have frames: "frame_of ?al3 = (frame_of al)(p := bs)"
    using write_pool_frame(2) [OF mem lt len] step by (auto simp: fun_eq_iff)
  have "ref_of ?al3 = ref_of al1" by (rule ref_of_cong) simp
  then have refs: "alloc_refs ?al3 = add_mset p (alloc_refs al)"
    using step inv3 by (metis (no_types, lifting) alloc_inv_def ids_inv_count multiset_eqI)
  have "length (free_list ?al3) = length (free_list al) - 1"
    using pool.free_alloc(1) [OF inv alloc] by simp
  moreover have "swap_room al n \<Longrightarrow> swap_room ?al3 n" for n
    using sb by (simp add: swap_room_def hsb_discard_def)
  moreover have "swapped ?al3 = (swapped al)(slot := None)"
    using sb by (simp add: swapped_def hsb.discard_contents)
  ultimately show ?thesis
    using that [OF res inv3 _ refs frames] step f1 by (simp add: capacity_def)
qed

text \<open>A swap-in that fails leaves references, bytes and the slot alone.\<close>

lemma swap_in_unknown:
  assumes inv: "alloc_inv al" and "swapped al slot = None \<or> free_list al = []"
    and "swap_in al slot = (r, al')"
  shows "r = None" and "alloc_inv al'" and "alloc_refs al' = alloc_refs al"
    and "frame_of al' = frame_of al" and "swapped al' = swapped al"
proof -
  have "r = None \<and> (al' = al \<or> (\<exists>p al1. allocate al = (Some p, al1) \<and> al' = release al1 p))"
  proof (cases "allocate al")
    case (Pair q al1)
    show ?thesis
    proof (cases q)
      case None
      then show ?thesis
        using Pair assms(3) allocate_None [of al al1] by (auto simp: swap_in_def split: option.splits)
    next
      case (Some p)
      then have alloc: "allocate al = (Some p, al1)" using Pair by simp
      have none: "swapped al slot = None"
        using assms(2) alloc by (auto simp: allocate_def)
      have ids: "ids_inv al" using inv by (simp add: alloc_inv_def)
      have "unat p < unat (max_blocks (config al1))" "memory_inv al1"
        using allocate_Some(2) [OF ids alloc] alloc_inv_valid [OF inv] allocate_fields [OF alloc]
          pool.alloc_Some [OF inv alloc] by (simp_all add: alloc_inv_def)
      then obtain b where "al_block al1 p = Some b" "pb_size_bytes b = block_stride_bytes al1"
        "frame_bytes al1 b (unat (block_stride_bytes al1)) = Some (frame_of al1 p)"
        using frame_bytes_full by metis
      then show ?thesis
        using assms(3) alloc none
        by (auto simp: swap_in_def swapped_def hsb.load_spec split: option.splits)
    qed
  qed
  moreover have "alloc_inv (release al1 p) \<and> alloc_refs (release al1 p) = alloc_refs al
      \<and> frame_of (release al1 p) = frame_of al \<and> swapped (release al1 p) = swapped al"
    if "allocate al = (Some p, al1)" for p al1
    using pool.alloc_Some [OF inv that] pool.release_ok [of al1 p] allocate_fields(7) [OF that]
    by (auto simp: swapped_def)
  ultimately show "r = None" and "alloc_inv al'" and "alloc_refs al' = alloc_refs al"
    and "frame_of al' = frame_of al" and "swapped al' = swapped al"
    using inv by auto
qed

lemma hsb_discard_next: "next_slot (hsb_discard sb slot) = next_slot sb"
  by (simp add: hsb_discard_def)

lemma discard_swapped_ok:
  assumes "alloc_inv al"
  shows "alloc_inv (discard_swapped al slot)"
    and "alloc_refs (discard_swapped al slot) = alloc_refs al"
    and "frame_of (discard_swapped al slot) = frame_of al"
    and "swapped (discard_swapped al slot) = (swapped al)(slot := None)"
    and "config (discard_swapped al slot) = config al"
    and "capacity (discard_swapped al slot) = capacity al"
    and "swap_room al n \<Longrightarrow> swap_room (discard_swapped al slot) n"
proof -
  show "alloc_inv (discard_swapped al slot)"
  proof (cases "al_swap_backend al")
    case None
    then show ?thesis using assms by (simp add: discard_swapped_def)
  next
    case (Some sb)
    then have sbi: "hsb_invar sb"
      "\<And>k c. hsb_contents sb k = Some c \<Longrightarrow> length c = unat (block_stride_bytes al)"
      using assms by (auto simp: alloc_inv_def memory_inv_def Let_def)
    show ?thesis
      using Some assms sbi
      by (auto simp: discard_swapped_def hsb_discard_invar hsb.discard_contents
          intro!: set_backend_inv split: if_splits)
  qed
qed (auto simp: discard_swapped_def swapped_def alloc_refs_def frame_of_def capacity_def swap_room_def
    hsb.discard_contents fun_eq_iff hsb_discard_next split: option.splits)

section \<open>Statistics\<close>

lemma stats_total: "alloc_inv al \<Longrightarrow> unat (total_blocks (stats al)) = capacity al"
  using ids_inv_length [of al] by (simp add: stats_def capacity_def alloc_inv_def)

lemma count_state_card:
  assumes "ids_inv al"
  shows "unat (count_state al st) = card {i. i < length (infos al) \<and> state_for (ref_count (infos al ! i)) = st}"
proof -
  have "length (filter (\<lambda>i. pbi_state i = st) (infos al)) < 4294967296"
    using ids_inv_length [OF assms] length_filter_le le_less_trans by blast
  then have "unat (count_state al st) = card {i. i < length (infos al) \<and> pbi_state (infos al ! i) = st}"
    by (simp add: count_state_def length_filter_conv_card)
  also have "\<dots> = card {i. i < length (infos al) \<and> state_for (ref_count (infos al ! i)) = st}"
    using assms by (intro arg_cong [where f = card]) (auto simp: ids_inv_def)
  finally show ?thesis .
qed

lemma stats_free:
  assumes "alloc_inv al"
  shows "unat (free_blocks (stats al)) = length (free_list al)"
proof -
  have ids: "ids_inv al" using assms by (simp add: alloc_inv_def)
  let ?F = "{i. i < length (infos al) \<and> state_for (ref_count (infos al ! i)) = Free}"
  have fl: "set (free_list al) = {p. unat p < length (infos al) \<and> ref_of al p = 0}"
    using ids by (simp add: ids_inv_def)
  have B: "of_nat ` ?F \<subseteq> set (free_list al)"
  proof
    fix p :: u32
    assume "p \<in> of_nat ` ?F"
    then obtain i where i: "i < length (infos al)" "state_for (ref_count (infos al ! i)) = Free"
      "p = of_nat i" by blast
    moreover from this have "unat p = i" using ids_inv_length [OF ids] by simp
    ultimately show "p \<in> set (free_list al)"
      unfolding fl by (simp add: ref_of_def state_for_def split: if_splits)
  qed
  have A: "unat ` set (free_list al) \<subseteq> ?F"
    using fl by (auto simp: ref_of_def state_for_def)
  have C: "\<forall>p\<in>set (free_list al). of_nat (unat p) = p" by simp
  have D: "\<forall>i\<in>?F. unat (of_nat i :: u32) = i"
    using ids_inv_length [OF ids] by simp
  have "bij_betw unat (set (free_list al)) ?F"
    using C D A B by (rule bij_betw_byWitness)
  then have "card ?F = card (set (free_list al))" using bij_betw_same_card by fastforce
  also have "\<dots> = length (free_list al)"
    using ids distinct_card unfolding ids_inv_def by blast
  finally show ?thesis using count_state_card [OF ids] by (simp add: stats_def)
qed

lemma stats_partition:
  assumes "alloc_inv al"
  shows "unat (free_blocks (stats al)) + unat (active_blocks (stats al)) + unat (shared_blocks (stats al))
    = unat (total_blocks (stats al))"
proof -
  have ids: "ids_inv al" using assms by (simp add: alloc_inv_def)
  let ?S = "\<lambda>st. {i. i < length (infos al) \<and> state_for (ref_count (infos al ! i)) = st}"
  have "{..<length (infos al)} = ?S Free \<union> (?S Active \<union> ?S Shared)"
    by (auto simp: state_for_def)
  then have "length (infos al) = card (?S Free \<union> (?S Active \<union> ?S Shared))" by (metis card_lessThan)
  also have "\<dots> = card (?S Free) + card (?S Active \<union> ?S Shared)"
    by (rule card_Un_disjoint) auto
  also have "card (?S Active \<union> ?S Shared) = card (?S Active) + card (?S Shared)"
    by (rule card_Un_disjoint) auto
  finally show ?thesis
    using count_state_card [OF ids] stats_total [OF assms] by (simp add: stats_def capacity_def)
qed

section \<open>Frame geometry\<close>

lemma round_up_spec:
  assumes "unat value + unat alignment \<le> 18446744073709551616" and "alignment \<noteq> 0"
  shows "unat (round_up value alignment) = (unat value + unat alignment - 1) div unat alignment * unat alignment"
    and "unat alignment dvd unat (round_up value alignment)"
    and "unat value \<le> unat (round_up value alignment)"
proof -
  let ?v = "unat value" and ?a = "unat alignment"
  have pos: "0 < ?a" using assms(2) by (simp add: unat_gt_0)
  have "value + alignment - 1 = of_nat (?v + ?a - 1)" using pos by (simp add: of_nat_diff)
  moreover have lt: "?v + ?a - 1 < 18446744073709551616" using assms(1) pos by simp
  ultimately have "unat (value + alignment - 1) = ?v + ?a - 1" by simp
  then have q: "unat ((value + alignment - 1) div alignment) = (?v + ?a - 1) div ?a"
    by (simp add: unat_div)
  have le: "(?v + ?a - 1) div ?a * ?a \<le> ?v + ?a - 1" by (simp add: div_times_less_eq_dividend)
  have "(value + alignment - 1) div alignment = of_nat ((?v + ?a - 1) div ?a)"
    unfolding q [symmetric] by simp
  moreover have "alignment = of_nat ?a" by simp
  ultimately have "round_up value alignment = of_nat ((?v + ?a - 1) div ?a * ?a)"
    using assms(2) unfolding round_up_def of_nat_mult by presburger
  moreover have "(?v + ?a - 1) div ?a * ?a < 18446744073709551616" using le lt by (rule le_less_trans)
  ultimately show eq: "unat (round_up value alignment) = (?v + ?a - 1) div ?a * ?a"
    by (simp only: unat_of_nat_u64)
  then show "?a dvd unat (round_up value alignment)" by simp
  have "(?v + ?a - 1) div ?a * ?a + (?v + ?a - 1) mod ?a = ?v + ?a - 1" by (rule div_mult_mod_eq)
  moreover have "(?v + ?a - 1) mod ?a < ?a" using pos by simp
  ultimately show "?v \<le> unat (round_up value alignment)" unfolding eq by linarith
qed

lemma effective_alignment_pos: "effective_alignment cfg \<noteq> 0"
  by (simp add: effective_alignment_def kDefaultBlockAlignmentBytes_def)

lemma block_stride_spec:
  assumes "unat (byte_size (block_shape cfg)) + unat (effective_alignment cfg) \<le> 18446744073709551616"
  shows "unat (effective_alignment cfg) dvd unat (block_stride_for cfg)"
    and "unat (byte_size (block_shape cfg)) \<le> unat (block_stride_for cfg)"
    and "0 < unat (block_stride_for cfg)"
proof -
  note r = round_up_spec [OF assms effective_alignment_pos]
  show "unat (effective_alignment cfg) dvd unat (block_stride_for cfg)"
    using r(2) by (simp add: block_stride_for_def Let_def)
  show "unat (byte_size (block_shape cfg)) \<le> unat (block_stride_for cfg)"
    using r(3) by (auto simp: block_stride_for_def Let_def)
  show "0 < unat (block_stride_for cfg)"
    using effective_alignment_pos [of cfg] by (auto simp: block_stride_for_def Let_def unat_gt_0)
qed

end
