(* ===== verification/KVCacheManager.thy ===== *)
theory KVCacheManager
  imports BlockTable CacheLayout MemoryAllocator
begin

text \<open>
  The sequence cache manager of \<^verbatim>\<open>include/qwenvl_paged/KVCacheManager.h\<close> and
  \<^verbatim>\<open>src/KVCacheManager.cpp\<close>: definitions only; the invariant and the theorems are in the
  theories that import this one.

  The manager owns its maps and points to an allocator; since every mutation of that allocator
  in this system goes through the manager (or through the scheduler, which shares the same
  pointer), the model keeps the allocator inside the manager's record. The three
  \<^verbatim>\<open>std::unordered_map\<close>s are HOL maps: the code never iterates over them. A method that
  mutates the manager returns the new manager next to its result.
\<close>

unbundle bit_operations_syntax

section \<open>Data\<close>

record MultimodalSpan =
  mm_start_token :: TokenPosition
  mm_token_count :: u32
  mm_feature_index :: u32

datatype PositionEncodingKind = Text1D | Image2D | Video3D

record Position3D =
  temporal :: int
  height :: int
  width :: int

record PositionalEncodingSpan =
  pe_start_token :: TokenPosition
  pe_token_count :: u32
  pe_kind :: PositionEncodingKind
  pe_origin :: Position3D
  pe_stride :: Position3D

type_synonym PositionalEncodingMetadata = "PositionalEncodingSpan list"

record SequenceMetadata =
  sm_sequence_id :: SequenceId
  sm_request_id :: RequestId
  sm_multimodal_spans :: "MultimodalSpan list"
  sm_positional_encoding :: PositionalEncodingMetadata

record SequenceState =
  metadata :: SequenceMetadata
  tables :: "BlockTable list"
  prefix_key :: string
  prefix_hash :: u64

record PrefixRecord =
  content_hash :: u64
  pr_token_count :: u32
  users :: u32
  physical_ids :: "PhysicalBlockId list"

record KVCacheManager =
  allocator :: MemoryAllocator
  sequences :: "SequenceId \<rightharpoonup> SequenceState"
  sequences_by_request :: "RequestId \<rightharpoonup> SequenceId list"
  prefix_index :: "string \<rightharpoonup> PrefixRecord list"

definition KVCacheManager_new :: "MemoryAllocator \<Rightarrow> KVCacheManager" where
  "KVCacheManager_new al =
     \<lparr>allocator = al, sequences = Map.empty, sequences_by_request = Map.empty,
      prefix_index = Map.empty\<rparr>"

section \<open>Helpers\<close>

definition pool_shape :: "KVCacheManager \<Rightarrow> BlockShape" where
  "pool_shape kv = (case al_block (allocator kv) 0 of None \<Rightarrow> default_BlockShape | Some b \<Rightarrow> pb_shape b)"

definition table_count :: "KVCacheManager \<Rightarrow> u32" where
  "table_count kv = (let shape = pool_shape kv in if per_layer_frames shape then num_layers shape else 1)"

definition index_sequence :: "KVCacheManager \<Rightarrow> RequestId \<Rightarrow> SequenceId \<Rightarrow> KVCacheManager" where
  "index_sequence kv rid sid =
     kv\<lparr>sequences_by_request := (sequences_by_request kv)
          (rid \<mapsto> (case sequences_by_request kv rid of None \<Rightarrow> [] | Some ids \<Rightarrow> ids) @ [sid])\<rparr>"

definition unindex_sequence :: "KVCacheManager \<Rightarrow> RequestId \<Rightarrow> SequenceId \<Rightarrow> KVCacheManager" where
  "unindex_sequence kv rid sid =
     (case sequences_by_request kv rid of
        None \<Rightarrow> kv
      | Some ids \<Rightarrow>
          (let ids' = filter (\<lambda>x. x \<noteq> sid) ids in
           kv\<lparr>sequences_by_request := (sequences_by_request kv)
                (rid := (if ids' = [] then None else Some ids'))\<rparr>))"

definition kv_tokens_per_block :: "KVCacheManager \<Rightarrow> u32" where
  "kv_tokens_per_block kv =
     (case al_block (allocator kv) 0 of None \<Rightarrow> 0 | Some b \<Rightarrow> tokens_per_block (pb_shape b))"

text \<open>FNV-1a over the resident blocks of a table. \<open>None\<close> stands for reading a frame that has no
  storage, which the callers report as a fault.\<close>

definition fnv_basis :: u64 where "fnv_basis = 14695981039346656037"
definition fnv_prime :: u64 where "fnv_prime = 1099511628211"

definition fnv_mix :: "u64 \<Rightarrow> u64 \<Rightarrow> u64" where
  "fnv_mix h x = (h XOR x) * fnv_prime"

fun hash_entries :: "MemoryAllocator \<Rightarrow> BlockTableEntry list \<Rightarrow> u64 \<Rightarrow> u64 option" where
  "hash_entries al [] h = Some h"
| "hash_entries al (e # es) h =
     (if swap_slot e \<noteq> None then hash_entries al es h
      else case al_block al (physical_id e) of
        None \<Rightarrow> hash_entries al es h
      | Some b \<Rightarrow>
          (case frame_bytes al b (unat (pb_size_bytes b)) of
             None \<Rightarrow> None
           | Some bytes \<Rightarrow> hash_entries al es (foldl (\<lambda>h x. fnv_mix h (ucast x)) h bytes)))"

definition content_hash_of_table :: "MemoryAllocator \<Rightarrow> BlockTable \<Rightarrow> u64 option" where
  "content_hash_of_table al t = hash_entries al (entries t) fnv_basis"

fun hash_tables :: "MemoryAllocator \<Rightarrow> BlockTable list \<Rightarrow> u64 \<Rightarrow> u64 option" where
  "hash_tables al [] h = Some h"
| "hash_tables al (t # ts) h =
     (case content_hash_of_table al t of
        None \<Rightarrow> None
      | Some table_hash \<Rightarrow> hash_tables al ts (fnv_mix h table_hash))"

definition content_hash_of :: "MemoryAllocator \<Rightarrow> BlockTable list \<Rightarrow> u64 option" where
  "content_hash_of al ts = hash_tables al ts fnv_basis"

text \<open>\<^verbatim>\<open>std::find_if\<close> over the records of one key: the position of the first hash match.\<close>

fun find_record :: "u64 \<Rightarrow> PrefixRecord list \<Rightarrow> nat option" where
  "find_record h [] = None"
| "find_record h (r # rs) =
     (if content_hash r = h then Some 0 else map_option Suc (find_record h rs))"

text \<open>Forgets that a sequence uses a prefix; the last user unpins the frames.\<close>

definition drop_prefix_user :: "KVCacheManager \<Rightarrow> SequenceState \<Rightarrow> KVCacheManager \<times> SequenceState" where
  "drop_prefix_user kv st =
     (if prefix_key st = [] then (kv, st)
      else
        let key = prefix_key st; hash = prefix_hash st;
            st = st\<lparr>prefix_key := [], prefix_hash := 0\<rparr>
        in case prefix_index kv key of
             None \<Rightarrow> (kv, st)
           | Some recs \<Rightarrow>
               (case find_record hash recs of
                  None \<Rightarrow> (kv, st)
                | Some i \<Rightarrow>
                    (let rec = recs ! i;
                         rec = (if users rec > 0 then rec\<lparr>users := users rec - 1\<rparr> else rec)
                     in if users rec > 0
                        then (kv\<lparr>prefix_index := (prefix_index kv)(key \<mapsto> recs[i := rec])\<rparr>, st)
                        else
                          let recs' = take i recs @ drop (Suc i) recs
                          in (kv\<lparr>allocator := foldl release (allocator kv) (physical_ids rec),
                                 prefix_index := (prefix_index kv)
                                   (key := (if recs' = [] then None else Some recs'))\<rparr>, st))))"

section \<open>Creating and forking\<close>

definition create_sequence :: "KVCacheManager \<Rightarrow> SequenceMetadata \<Rightarrow> bool \<times> KVCacheManager" where
  "create_sequence kv meta =
     (let sid = sm_sequence_id meta in
      if sequences kv sid \<noteq> None then (False, kv)
      else
        let st = \<lparr>metadata = meta,
                  tables = replicate (unat (table_count kv)) (BlockTable_new sid TextKV),
                  prefix_key = [], prefix_hash = 0\<rparr>;
            kv = kv\<lparr>sequences := (sequences kv)(sid \<mapsto> st)\<rparr>
        in (True, index_sequence kv (sm_request_id meta) sid))"

fun fork_tables :: "MemoryAllocator \<Rightarrow> SequenceId \<Rightarrow> BlockTable list \<Rightarrow> MemoryAllocator \<times> BlockTable list" where
  "fork_tables al child [] = (al, [])"
| "fork_tables al child (t # ts) =
     (let forked = bt_fork t child;
          al = foldl retain al (map physical_id (entries forked));
          (al, rest) = fork_tables al child ts
      in (al, forked # rest))"

definition has_swapped :: "BlockTable \<Rightarrow> bool" where
  "has_swapped t \<longleftrightarrow> list_ex (\<lambda>e. swap_slot e \<noteq> None) (entries t)"

definition fork_sequence ::
    "KVCacheManager \<Rightarrow> SequenceId \<Rightarrow> SequenceMetadata \<Rightarrow> bool \<times> KVCacheManager" where
  "fork_sequence kv parent_id child_meta =
     (case sequences kv parent_id of
        None \<Rightarrow> (False, kv)
      | Some parent \<Rightarrow>
          (let child_id = sm_sequence_id child_meta in
           if sequences kv child_id \<noteq> None then (False, kv)
           else if list_ex has_swapped (tables parent) then (False, kv)
           else
             let (al, ts) = fork_tables (allocator kv) child_id (tables parent);
                 child = \<lparr>metadata = child_meta, tables = ts, prefix_key = [], prefix_hash = 0\<rparr>;
                 kv = kv\<lparr>allocator := al, sequences := (sequences kv)(child_id \<mapsto> child)\<rparr>
             in (True, index_sequence kv (sm_request_id child_meta) child_id)))"

section \<open>Reserving and writing\<close>

definition block_descriptor :: "SequenceId \<Rightarrow> CacheKind \<Rightarrow> u32 \<Rightarrow> LogicalBlockIndex \<Rightarrow> LogicalBlock" where
  "block_descriptor sid kind tpb index =
     \<lparr>lb_sequence_id = sid, lb_index = index, lb_cache_kind = kind,
      lb_start_token = index * tpb, lb_token_count = tpb\<rparr>"

text \<open>The inner loop of \<^verbatim>\<open>reserve_tokens\<close>: one frame per offset, stopping at the first failed
  allocation.\<close>

fun reserve_blocks ::
    "SequenceId \<Rightarrow> u32 \<Rightarrow> LogicalBlockIndex \<Rightarrow> nat list \<Rightarrow> MemoryAllocator \<Rightarrow> BlockTable
       \<Rightarrow> bool \<times> MemoryAllocator \<times> BlockTable" where
  "reserve_blocks sid tpb base [] al t = (True, al, t)"
| "reserve_blocks sid tpb base (offset # offsets) al t =
     (case allocate al of
        (None, al) \<Rightarrow> (False, al, t)
      | (Some physical, al) \<Rightarrow>
          (let index = base + of_nat offset;
               logical = block_descriptor sid (bt_cache_kind t) tpb index
           in reserve_blocks sid tpb base offsets al (bt_map t logical physical True)))"

fun reserve_tables ::
    "SequenceId \<Rightarrow> u32 \<Rightarrow> u32 \<Rightarrow> MemoryAllocator \<Rightarrow> BlockTable list
       \<Rightarrow> bool \<times> MemoryAllocator \<times> BlockTable list" where
  "reserve_tables sid tpb blocks_needed al [] = (True, al, [])"
| "reserve_tables sid tpb blocks_needed al (t # ts) =
     (let base_index = u32_of_size (bt_size t) in
      case reserve_blocks sid tpb base_index [0..<unat blocks_needed] al t of
        (False, al, t) \<Rightarrow> (False, al, t # ts)
      | (True, al, t) \<Rightarrow>
          (let (ok, al, ts) = reserve_tables sid tpb blocks_needed al ts in (ok, al, t # ts)))"

definition reserve_tokens :: "KVCacheManager \<Rightarrow> SequenceId \<Rightarrow> u32 \<Rightarrow> bool \<times> KVCacheManager" where
  "reserve_tokens kv sid token_count =
     (case sequences kv sid of
        None \<Rightarrow> (False, kv)
      | Some st \<Rightarrow>
          (let tpb = kv_tokens_per_block kv in
           if tpb = 0 then (False, kv)
           else
             let blocks_needed = (token_count + tpb - 1) div tpb;
                 frames_needed = blocks_needed * u32_of_size (length (tables st))
             in if \<not> can_allocate (allocator kv) frames_needed then (False, kv)
                else
                  let (ok, al, ts) = reserve_tables sid tpb blocks_needed (allocator kv) (tables st)
                  in (ok, kv\<lparr>allocator := al, sequences := (sequences kv)(sid \<mapsto> st\<lparr>tables := ts\<rparr>)\<rparr>)))"

definition ensure_token_writable ::
    "KVCacheManager \<Rightarrow> SequenceId \<Rightarrow> TokenPosition \<Rightarrow> CacheKind \<Rightarrow> u32
       \<Rightarrow> PhysicalBlockId option \<times> KVCacheManager" where
  "ensure_token_writable kv sid token_position cache_kind layer =
     (case sequences kv sid of
        None \<Rightarrow> (None, kv)
      | Some st \<Rightarrow>
          if tables st = [] then (None, kv)
          else if unat layer \<ge> length (tables st) then (None, kv)
          else
            let t = tables st ! unat layer;
                put = (\<lambda>al t'. kv\<lparr>allocator := al,
                          sequences := (sequences kv)
                            (sid \<mapsto> st\<lparr>tables := (tables st)[unat layer := t']\<rparr>)\<rparr>)
            in if bt_empty t then (None, kv)
               else
                 let tpb = lb_token_count (logical (hd (entries t))) in
                 if tpb = 0 then (None, kv)
                 else case mutable_entry t (token_position div tpb) of
                   None \<Rightarrow> (None, kv)
                 | Some i \<Rightarrow>
                     (let e = entries t ! i in
                      if swap_slot e \<noteq> None then (None, kv)
                      else case al_info (allocator kv) (physical_id e) of
                        None \<Rightarrow> (None, kv)
                      | Some info \<Rightarrow>
                          if ref_count info \<le> 1
                          then (Some (physical_id e),
                                put (allocator kv) (bt_update_at t i (\<lambda>e. e\<lparr>writable := True\<rparr>)))
                          else case allocate (allocator kv) of
                            (None, al) \<Rightarrow> (None, kv\<lparr>allocator := al\<rparr>)
                          | (Some copy, al) \<Rightarrow>
                              (let al = copy_block al (physical_id e) copy;
                                   al = release al (physical_id e)
                               in (Some copy,
                                   put al (bt_update_at t i
                                     (\<lambda>e. e\<lparr>physical_id := copy, writable := True\<rparr>))))))"

section \<open>Swapping\<close>

definition resident_indices :: "BlockTable \<Rightarrow> LogicalBlockIndex list" where
  "resident_indices t = map entry_index (filter (\<lambda>e. swap_slot e = None) (entries t))"

fun swap_out_indices ::
    "LogicalBlockIndex list \<Rightarrow> MemoryAllocator \<Rightarrow> BlockTable \<Rightarrow> u32
       \<Rightarrow> MemoryAllocator \<times> BlockTable \<times> u32" where
  "swap_out_indices [] al t n = (al, t, n)"
| "swap_out_indices (index # rest) al t n =
     (case mutable_entry t index of
        None \<Rightarrow> swap_out_indices rest al t n
      | Some i \<Rightarrow>
          (case swap_out al (physical_id (entries t ! i)) of
             (None, al) \<Rightarrow> swap_out_indices rest al t n
           | (Some slot, al) \<Rightarrow>
               swap_out_indices rest al (bt_update_at t i (\<lambda>e. e\<lparr>swap_slot := Some slot\<rparr>)) (n + 1)))"

fun swap_out_tables ::
    "MemoryAllocator \<Rightarrow> BlockTable list \<Rightarrow> u32 \<Rightarrow> MemoryAllocator \<times> BlockTable list \<times> u32" where
  "swap_out_tables al [] n = (al, [], n)"
| "swap_out_tables al (t # ts) n =
     (let (al, t, n) = swap_out_indices (resident_indices t) al t n;
          (al, ts, n) = swap_out_tables al ts n
      in (al, t # ts, n))"

definition swap_out_sequence :: "KVCacheManager \<Rightarrow> SequenceId \<Rightarrow> u32 \<times> KVCacheManager" where
  "swap_out_sequence kv sid =
     (case sequences kv sid of
        None \<Rightarrow> (0, kv)
      | Some st \<Rightarrow>
          (let (al, ts, n) = swap_out_tables (allocator kv) (tables st) 0
           in (n, kv\<lparr>allocator := al, sequences := (sequences kv)(sid \<mapsto> st\<lparr>tables := ts\<rparr>)\<rparr>)))"

definition swapped_count :: "BlockTable list \<Rightarrow> u32" where
  "swapped_count ts =
     of_nat (length (filter (\<lambda>e. swap_slot e \<noteq> None) (concat (map entries ts))))"

text \<open>The restoring loop of \<^verbatim>\<open>swap_in_sequence\<close> over the positions of one table.\<close>

fun swap_in_entries ::
    "nat list \<Rightarrow> MemoryAllocator \<Rightarrow> BlockTable \<Rightarrow> bool \<times> MemoryAllocator \<times> BlockTable" where
  "swap_in_entries [] al t = (True, al, t)"
| "swap_in_entries (k # ks) al t =
     (if swap_slot (entries t ! k) = None then swap_in_entries ks al t
      else case mutable_entry t (entry_index (entries t ! k)) of
        None \<Rightarrow> (False, al, t)
      | Some i \<Rightarrow>
          (case swap_in al (the (swap_slot (entries t ! i))) of
             (None, al) \<Rightarrow> (False, al, t)
           | (Some restored, al) \<Rightarrow>
               swap_in_entries ks al
                 (bt_update_at t i (\<lambda>e. e\<lparr>physical_id := restored, swap_slot := None\<rparr>))))"

fun swap_in_tables ::
    "MemoryAllocator \<Rightarrow> BlockTable list \<Rightarrow> bool \<times> MemoryAllocator \<times> BlockTable list" where
  "swap_in_tables al [] = (True, al, [])"
| "swap_in_tables al (t # ts) =
     (case swap_in_entries [0..<length (entries t)] al t of
        (False, al, t) \<Rightarrow> (False, al, t # ts)
      | (True, al, t) \<Rightarrow> (let (ok, al, ts) = swap_in_tables al ts in (ok, al, t # ts)))"

definition swap_in_sequence :: "KVCacheManager \<Rightarrow> SequenceId \<Rightarrow> bool \<times> KVCacheManager" where
  "swap_in_sequence kv sid =
     (case sequences kv sid of
        None \<Rightarrow> (False, kv)
      | Some st \<Rightarrow>
          (let needed = swapped_count (tables st) in
           if needed = 0 then (True, kv)
           else if \<not> can_allocate (allocator kv) needed then (False, kv)
           else
             let (ok, al, ts) = swap_in_tables (allocator kv) (tables st)
             in (ok, kv\<lparr>allocator := al, sequences := (sequences kv)(sid \<mapsto> st\<lparr>tables := ts\<rparr>)\<rparr>)))"

section \<open>Releasing\<close>

definition release_entry :: "MemoryAllocator \<Rightarrow> BlockTableEntry \<Rightarrow> MemoryAllocator" where
  "release_entry al e =
     (case swap_slot e of
        Some slot \<Rightarrow> discard_swapped al slot
      | None \<Rightarrow> release al (physical_id e))"

definition release_sequence :: "KVCacheManager \<Rightarrow> SequenceId \<Rightarrow> KVCacheManager" where
  "release_sequence kv sid =
     (case sequences kv sid of
        None \<Rightarrow> kv
      | Some st \<Rightarrow>
          (let (kv, st) = drop_prefix_user kv st;
               kv = kv\<lparr>sequences := (sequences kv)(sid \<mapsto> st)\<rparr>;
               kv = kv\<lparr>allocator := foldl release_entry (allocator kv) (concat (map entries (tables st)))\<rparr>;
               kv = unindex_sequence kv (sm_request_id (metadata st)) sid
           in kv\<lparr>sequences := (sequences kv)(sid := None)\<rparr>))"

section \<open>Whole requests\<close>

definition sequences_for :: "KVCacheManager \<Rightarrow> RequestId \<Rightarrow> SequenceId list" where
  "sequences_for kv rid = (case sequences_by_request kv rid of None \<Rightarrow> [] | Some ids \<Rightarrow> ids)"

fun swap_out_sequences :: "SequenceId list \<Rightarrow> KVCacheManager \<Rightarrow> u32 \<Rightarrow> u32 \<times> KVCacheManager" where
  "swap_out_sequences [] kv n = (n, kv)"
| "swap_out_sequences (sid # sids) kv n =
     (let (k, kv) = swap_out_sequence kv sid in swap_out_sequences sids kv (n + k))"

definition swap_out_request :: "KVCacheManager \<Rightarrow> RequestId \<Rightarrow> u32 \<times> KVCacheManager" where
  "swap_out_request kv rid = swap_out_sequences (sequences_for kv rid) kv 0"

fun swap_in_sequences :: "SequenceId list \<Rightarrow> KVCacheManager \<Rightarrow> bool \<times> KVCacheManager" where
  "swap_in_sequences [] kv = (True, kv)"
| "swap_in_sequences (sid # sids) kv =
     (case swap_in_sequence kv sid of
        (False, kv) \<Rightarrow> (False, kv)
      | (True, kv) \<Rightarrow> swap_in_sequences sids kv)"

definition swapped_needed :: "KVCacheManager \<Rightarrow> SequenceId list \<Rightarrow> u32" where
  "swapped_needed kv sids =
     sum_list (map (\<lambda>sid. case sequences kv sid of None \<Rightarrow> 0 | Some st \<Rightarrow> swapped_count (tables st)) sids)"

definition swap_in_request :: "KVCacheManager \<Rightarrow> RequestId \<Rightarrow> bool \<times> KVCacheManager" where
  "swap_in_request kv rid =
     (let sids = sequences_for kv rid; needed = swapped_needed kv sids in
      if needed > 0 \<and> \<not> can_allocate (allocator kv) needed then (False, kv)
      else swap_in_sequences sids kv)"

definition release_request :: "KVCacheManager \<Rightarrow> RequestId \<Rightarrow> KVCacheManager" where
  "release_request kv rid = foldl release_sequence kv (sequences_for kv rid)"

section \<open>Prefix sharing\<close>

definition prefix_token_count :: "KVCacheManager \<Rightarrow> string \<Rightarrow> u32" where
  "prefix_token_count kv key =
     (if key = [] then 0
      else case prefix_index kv key of
        None \<Rightarrow> 0
      | Some recs \<Rightarrow> if length recs \<noteq> 1 then 0 else pr_token_count (hd recs))"

text \<open>\<^verbatim>\<open>text_table()\<close> is \<^verbatim>\<open>tables.front()\<close>; every sequence has at least one table.\<close>

definition text_table :: "SequenceState \<Rightarrow> BlockTable" where
  "text_table st = hd (tables st)"

definition publish_prefix :: "KVCacheManager \<Rightarrow> SequenceId \<Rightarrow> string \<Rightarrow> bool \<times> KVCacheManager" where
  "publish_prefix kv sid key =
     (if key = [] then (False, kv)
      else case sequences kv sid of
        None \<Rightarrow> (False, kv)
      | Some st \<Rightarrow>
          if bt_empty (text_table st) then (False, kv)
          else if prefix_key st = key then (True, kv)
          else
            let tpb = kv_tokens_per_block kv in
            if tpb = 0 then (False, kv)
            else case content_hash_of (allocator kv) (tables st) of
              None \<Rightarrow> (False, kv\<lparr>allocator := (allocator kv)\<lparr>faulted := True\<rparr>\<rparr>)
            | Some hash \<Rightarrow>
                if list_ex has_swapped (tables st) then (False, kv)
                else
                  let es = concat (map entries (tables st));
                      rec = \<lparr>content_hash = hash,
                             pr_token_count = u32_of_size (bt_size (text_table st)) * tpb,
                             users = 1, physical_ids = map physical_id es\<rparr>;
                      recs = (case prefix_index kv key of None \<Rightarrow> [] | Some recs \<Rightarrow> recs)
                  in case find_record hash recs of
                       Some i \<Rightarrow>
                         (True, kv\<lparr>prefix_index := (prefix_index kv)
                              (key \<mapsto> recs[i := (recs ! i)\<lparr>users := users (recs ! i) + 1\<rparr>]),
                            sequences := (sequences kv)
                              (sid \<mapsto> st\<lparr>prefix_key := key,
                                        prefix_hash := content_hash (recs ! i)\<rparr>)\<rparr>)
                     | None \<Rightarrow>
                         (True, kv\<lparr>allocator := foldl retain (allocator kv) (physical_ids rec),
                            prefix_index := (prefix_index kv)(key \<mapsto> recs @ [rec]),
                            sequences := (sequences kv)
                              (sid \<mapsto> st\<lparr>prefix_key := key, prefix_hash := content_hash rec\<rparr>)\<rparr>))"

fun attach_blocks ::
    "SequenceId \<Rightarrow> u32 \<Rightarrow> nat \<Rightarrow> PhysicalBlockId list \<Rightarrow> MemoryAllocator \<Rightarrow> BlockTable
       \<Rightarrow> MemoryAllocator \<times> BlockTable" where
  "attach_blocks sid tpb i [] al t = (al, t)"
| "attach_blocks sid tpb i (p # ps) al t =
     attach_blocks sid tpb (Suc i) ps (retain al p)
       (bt_map t (block_descriptor sid (bt_cache_kind t) tpb (of_nat i)) p False)"

fun attach_tables ::
    "SequenceId \<Rightarrow> u32 \<Rightarrow> nat \<Rightarrow> PhysicalBlockId list \<Rightarrow> MemoryAllocator \<Rightarrow> BlockTable list
       \<Rightarrow> MemoryAllocator \<times> BlockTable list" where
  "attach_tables sid tpb n ps al [] = (al, [])"
| "attach_tables sid tpb n ps al (t # ts) =
     (let (al, t) = attach_blocks sid tpb 0 (take n ps) al t;
          (al, ts) = attach_tables sid tpb n (drop n ps) al ts
      in (al, t # ts))"

definition attach_prefix :: "KVCacheManager \<Rightarrow> SequenceId \<Rightarrow> string \<Rightarrow> u32 \<times> KVCacheManager" where
  "attach_prefix kv sid key =
     (if key = [] then (0, kv)
      else case sequences kv sid of
        None \<Rightarrow> (0, kv)
      | Some st \<Rightarrow>
          if \<not> bt_empty (text_table st) then (0, kv)
          else case prefix_index kv key of
            None \<Rightarrow> (0, kv)
          | Some recs \<Rightarrow>
              if length recs \<noteq> 1 then (0, kv)
              else
                let rec = hd recs; tpb = kv_tokens_per_block kv; n_tables = length (tables st)
                in if tpb = 0 \<or> physical_ids rec = [] \<or> n_tables = 0 then (0, kv)
                   else if length (physical_ids rec) mod n_tables \<noteq> 0 then (0, kv)
                   else
                     let ids_per_table = length (physical_ids rec) div n_tables;
                         (al, ts) = attach_tables sid tpb ids_per_table (physical_ids rec)
                                      (allocator kv) (tables st)
                     in (pr_token_count rec,
                         kv\<lparr>allocator := al,
                            prefix_index := (prefix_index kv)(key \<mapsto> [rec\<lparr>users := users rec + 1\<rparr>]),
                            sequences := (sequences kv)
                              (sid \<mapsto> st\<lparr>tables := ts, prefix_key := key,
                                        prefix_hash := content_hash rec\<rparr>)\<rparr>))"

definition kv_contains :: "KVCacheManager \<Rightarrow> SequenceId \<Rightarrow> bool" where
  "kv_contains kv sid \<longleftrightarrow> sequences kv sid \<noteq> None"

end
