(* ===== verification/Ownership.thy ===== *)
theory Ownership
  imports MemoryAllocator
begin

text \<open>
  Ownership of frames and swap slots. A client of the allocator owns a multiset of frame
  references and a multiset of swap slots; each allocator operation moves items between the
  two or creates and destroys them, and leaves the bytes of everything else in place. These
  rules are the interface through which the cache-manager proofs see the allocator: an
  operation is verified on the items it touches, with the rest (\<open>R\<close>, \<open>S\<close>) arbitrary.
\<close>

section \<open>Definitions\<close>

definition slots_of :: "MemoryAllocator \<Rightarrow> SwapSlotId multiset" where
  "slots_of al = mset_set (dom (swapped al))"

text \<open>The allocator is well formed and its outstanding references and slots are exactly these.\<close>

definition owns :: "MemoryAllocator \<Rightarrow> PhysicalBlockId multiset \<Rightarrow> SwapSlotId multiset \<Rightarrow> bool" where
  "owns al F L \<longleftrightarrow> alloc_inv al \<and> alloc_refs al = F \<and> slots_of al = L"

text \<open>A step from \<open>al\<close> to \<open>al'\<close> that leaves the bytes of the given frames and slots alone.\<close>

definition keeps ::
    "PhysicalBlockId multiset \<Rightarrow> SwapSlotId multiset \<Rightarrow> MemoryAllocator \<Rightarrow> MemoryAllocator \<Rightarrow> bool" where
  "keeps R S al al' \<longleftrightarrow>
     config al' = config al \<and> capacity al' = capacity al
     \<and> (\<forall>p. p \<in># R \<longrightarrow> frame_of al' p = frame_of al p)
     \<and> (\<forall>s. s \<in># S \<longrightarrow> swapped al' s = swapped al s)"

section \<open>Composing steps\<close>

lemma keeps_refl [simp]: "keeps R S al al"
  by (simp add: keeps_def)

lemma keeps_trans: "keeps R S al al' \<Longrightarrow> keeps R S al' al'' \<Longrightarrow> keeps R S al al''"
  by (simp add: keeps_def)

lemma keeps_mono: "keeps R S al al' \<Longrightarrow> R' \<subseteq># R \<Longrightarrow> S' \<subseteq># S \<Longrightarrow> keeps R' S' al al'"
  by (auto simp: keeps_def dest: mset_subset_eqD)

lemma finite_swapped [simp]: "finite (dom (swapped al))"
  by (simp add: swapped_def hsb.finite_contents split: option.splits)

lemma in_slots_of [simp]: "s \<in># slots_of al \<longleftrightarrow> swapped al s \<noteq> None"
  by (auto simp: slots_of_def domIff)

lemma owns_inv: "owns al F L \<Longrightarrow> alloc_inv al"
  by (simp add: owns_def)

lemma owns_free: "owns al F L \<Longrightarrow> length (free_list al) + card (set_mset F) = capacity al"
  using pool.free_ok [of al] by (simp add: owns_def)

lemma owns_valid: "owns al F L \<Longrightarrow> p \<in># F \<Longrightarrow> unat p < capacity al"
  using ids_inv_mem [of al p] ref_of_pos_valid [of al p]
  by (auto simp: owns_def alloc_inv_def capacity_def)

lemma owns_ref_of: "owns al F L \<Longrightarrow> ref_of al p = count F p"
  using ids_inv_count [of al p] by (auto simp: owns_def alloc_inv_def)

lemma slots_unique: "owns al F (add_mset s L) \<Longrightarrow> s \<notin># L"
proof -
  assume "owns al F (add_mset s L)"
  then have eq: "mset_set (dom (swapped al)) = add_mset s L" by (simp add: owns_def slots_of_def)
  then have "count (mset_set (dom (swapped al))) s = Suc (count L s)" by simp
  moreover have "count (mset_set (dom (swapped al))) s \<le> 1" by (simp add: count_mset_set')
  ultimately show "s \<notin># L" by (simp add: not_in_iff)
qed

section \<open>The operations\<close>

lemma owns_allocate:
  assumes "owns al F L" and "allocate al = (Some p, al')"
  shows "owns al' (add_mset p F) L" and "keeps F L al al'" and "p \<notin># F"
    and "length (free_list al') = length (free_list al) - 1" and "frame_of al' = frame_of al"
    and "unat p < capacity al" and "swap_room al n \<Longrightarrow> swap_room al' n"
proof -
  have inv: "alloc_inv al" using assms(1) by (rule owns_inv)
  note step = pool.alloc_Some [OF inv assms(2)] and f = allocate_fields [OF assms(2)]
  have sw: "swapped al' = swapped al" using f by (intro swapped_cong) simp
  show "owns al' (add_mset p F) L" using assms(1) step sw by (simp add: owns_def slots_of_def)
  then show "unat p < capacity al" using step owns_valid by fastforce
  show "keeps F L al al'" using step sw f by (simp add: keeps_def)
  show "p \<notin># F" using assms(1) step by (simp add: owns_def)
  show "length (free_list al') = length (free_list al) - 1"
    using pool.free_alloc(1) [OF inv assms(2)] .
  show "frame_of al' = frame_of al" using step by simp
  show "swap_room al' n" if "swap_room al n" using that f by (simp add: swap_room_def)
qed

lemma owns_allocate_succeeds:
  "owns al F L \<Longrightarrow> 0 < length (free_list al) \<Longrightarrow> \<exists>p al'. allocate al = (Some p, al')"
  using pool.alloc_succeeds owns_inv by blast

lemma owns_release:
  assumes "owns al (add_mset p F) L"
  shows "owns (release al p) F L" and "keeps F L al (release al p)"
    and "frame_of (release al p) = frame_of al" and "swap_room al n \<Longrightarrow> swap_room (release al p) n"
  using pool.release_ok [of al p] assms
  by (simp_all add: owns_def keeps_def slots_of_def swap_room_def)

lemma owns_release_all:
  assumes "owns al (mset ps + F) L"
  shows "owns (foldl release al ps) F L" and "keeps F L al (foldl release al ps)"
    and "swap_room al n \<Longrightarrow> swap_room (foldl release al ps) n"
  using assms
proof (induction ps arbitrary: al)
  case Nil
  {
    case 1
    then show ?case by simp
  next
    case 2
    then show ?case by simp
  next
    case 3
    then show ?case by simp
  }
next
  case (Cons p ps)
  {
    case 1
    then show ?case using Cons.IH(1) owns_release(1) [of al p "mset ps + F" L] by simp
  next
    case 2
    then have own: "owns al (add_mset p (mset ps + F)) L" by simp
    have "keeps F L al (release al p)"
      using owns_release(2) [OF own] by (rule keeps_mono) simp_all
    then show ?case using Cons.IH(2) owns_release(1) [OF own] keeps_trans by simp
  next
    case 3
    then show ?case using Cons.IH(3) owns_release(1,4) [of al p "mset ps + F" L] by simp
  }
qed

lemma owns_retain_all:
  assumes "owns al F L" and "set ps \<subseteq> set_mset F"
    and "\<And>p. count F p + count (mset ps) p < 4294967296"
  shows "owns (foldl retain al ps) (F + mset ps) L" and "keeps F L al (foldl retain al ps)"
    and "frame_of (foldl retain al ps) = frame_of al"
    and "swapped (foldl retain al ps) = swapped al"
    and "swap_room (foldl retain al ps) n = swap_room al n"
proof -
  note all = pool.retain_all [of al ps]
  have backend: "al_swap_backend (foldl retain al ps) = al_swap_backend al"
    "config (foldl retain al ps) = config al"
    by (induction ps arbitrary: al) simp_all
  then show sw: "swapped (foldl retain al ps) = swapped al" by (intro swapped_cong)
  show "owns (foldl retain al ps) (F + mset ps) L" "frame_of (foldl retain al ps) = frame_of al"
    and "keeps F L al (foldl retain al ps)"
    using all assms sw backend by (auto simp: owns_def slots_of_def keeps_def)
  show "swap_room (foldl retain al ps) n = swap_room al n"
    using backend by (simp add: swap_room_def)
qed

lemma owns_swap_out:
  assumes own: "owns al (add_mset p F) L" and out: "swap_out al p = (Some slot, al')"
    and room: "swap_room al (Suc n)"
  shows "owns al' F (add_mset slot L)" and "keeps F L al al'"
    and "swapped al' slot = Some (frame_of al p)" and "swap_room al' n"
proof -
  have room1: "swap_room al 1" using room by (auto simp: swap_room_def)
  note step = swap_out_Some [OF owns_inv [OF own] out room1]
  have "dom (swapped al') = insert slot (dom (swapped al))" using step(3) by simp
  then show "owns al' F (add_mset slot L)"
    using own step by (simp add: owns_def slots_of_def domIff)
  show "keeps F L al al'"
    using step own by (auto simp: keeps_def owns_def)
  show "swapped al' slot = Some (frame_of al p)" using step by simp
  show "swap_room al' n" using step(8) room by blast
qed

lemma owns_swap_out_refused:
  "owns al F L \<Longrightarrow> swap_out al p = (None, al') \<Longrightarrow> al' = al"
  using swap_out_None owns_inv by blast

lemma owns_swap_in:
  assumes own: "owns al F (add_mset slot L)" and free: "0 < length (free_list al)"
  obtains p al' where "swap_in al slot = (Some p, al')" and "owns al' (add_mset p F) L"
    and "keeps F L al al'" and "Some (frame_of al' p) = swapped al slot"
    and "length (free_list al') = length (free_list al) - 1"
    and "\<And>n. swap_room al n \<Longrightarrow> swap_room al' n" and "p \<notin># F"
proof -
  have "slot \<in># slots_of al" using own by (simp add: owns_def)
  then obtain bs where bs: "swapped al slot = Some bs" by auto
  obtain p al' where step: "swap_in al slot = (Some p, al')" "alloc_inv al'" "p \<notin># alloc_refs al"
    "alloc_refs al' = add_mset p (alloc_refs al)" "frame_of al' = (frame_of al)(p := bs)"
    "swapped al' = (swapped al)(slot := None)" "config al' = config al"
    "length (free_list al') = length (free_list al) - 1" "capacity al' = capacity al"
    "\<And>n. swap_room al n \<Longrightarrow> swap_room al' n"
    using swap_in_Some [OF owns_inv [OF own] bs] free by auto
  have "mset_set (dom (swapped al) - {slot}) = slots_of al - {#slot#}"
    using bs by (simp add: slots_of_def mset_set_Diff domIff)
  then have "owns al' (add_mset p F) L"
    using own step by (simp add: owns_def slots_of_def)
  moreover have "keeps F L al al'"
    using step own slots_unique [OF own] by (auto simp: keeps_def owns_def)
  moreover have "p \<notin># F" using step(3) own by (simp add: owns_def)
  ultimately show ?thesis using that step bs by simp
qed

lemma owns_discard:
  assumes "owns al F (add_mset slot L)"
  shows "owns (discard_swapped al slot) F L" and "keeps F L al (discard_swapped al slot)"
    and "swap_room al n \<Longrightarrow> swap_room (discard_swapped al slot) n"
proof -
  have "slot \<in># slots_of al" using assms by (simp add: owns_def)
  then have "mset_set (dom (swapped al) - {slot}) = slots_of al - {#slot#}"
    by (simp add: slots_of_def mset_set_Diff domIff)
  then show "owns (discard_swapped al slot) F L"
    using assms discard_swapped_ok [where al = al and slot = slot] by (simp add: owns_def slots_of_def)
  show "keeps F L al (discard_swapped al slot)"
    using discard_swapped_ok [where al = al and slot = slot] slots_unique [OF assms] owns_inv [OF assms]
    by (auto simp: keeps_def)
  show "swap_room (discard_swapped al slot) n" if "swap_room al n"
    using discard_swapped_ok(7) [OF owns_inv [OF assms] that] .
qed

text \<open>Copying into a frame that only its new owner refers to.\<close>

lemma owns_copy:
  assumes own: "owns al (add_mset d F) L" and s: "s \<in># F" and d: "d \<notin># F"
  shows "owns (copy_block al s d) (add_mset d F) L" and "keeps F L al (copy_block al s d)"
    and "frame_of (copy_block al s d) d = frame_of al s"
    and "swap_room al n \<Longrightarrow> swap_room (copy_block al s d) n"
proof -
  have inv: "alloc_inv al" using own by (rule owns_inv)
  have cap: "capacity al = unat (max_blocks (config al))"
    using alloc_inv_valid [OF inv] by (simp add: capacity_def)
  have mem: "memory_inv al" and ids: "ids_inv al" using inv by (simp_all add: alloc_inv_def)
  have lt: "unat s < unat (max_blocks (config al))" "unat d < unat (max_blocks (config al))"
    using owns_valid [OF own] s cap by auto
  note c = copy_block_frames [OF mem lt]
  have refs: "alloc_refs (copy_block al s d) = alloc_refs al"
    using c(2) by (simp add: alloc_refs_def)
  have "ids_inv (copy_block al s d)"
    using ids c ref_of_cong [OF c(2)] by (simp add: ids_inv_def)
  moreover have sw: "swapped (copy_block al s d) = swapped al" using c(5) by (intro swapped_cong)
  ultimately show "owns (copy_block al s d) (add_mset d F) L"
    using own c refs by (simp add: owns_def alloc_inv_def slots_of_def)
  have "frame_of (copy_block al s d) p = frame_of al p" if "p \<in># F" for p
    using c(7) [of p] owns_valid [OF own, of p] that d cap by auto
  then show "keeps F L al (copy_block al s d)"
    using c sw by (simp add: keeps_def capacity_def)
  show "frame_of (copy_block al s d) d = frame_of al s" using c(7) [of d] lt by simp
  show "swap_room (copy_block al s d) n" if "swap_room al n"
    using that c(5) by (simp add: swap_room_def)
qed

end
