(* ===== verification/CacheTables.thy ===== *)
theory CacheTables
  imports KVCacheManager Ownership
begin

text \<open>
  What the tables of one sequence own and show. \<open>tables_refs\<close> and \<open>tables_slots\<close> are the frame
  references and swap slots the entries hold; \<open>tables_view\<close> is the content of every logical
  block, wherever it lives. The loops of \<^verbatim>\<open>KVCacheManager.cpp\<close> over tables and entries
  (swapping, reserving, releasing, forking, attaching) are verified here against these, for an
  arbitrary rest of the pool.
\<close>

section \<open>Definitions\<close>

definition entry_refs :: "BlockTableEntry \<Rightarrow> PhysicalBlockId multiset" where
  "entry_refs e = (if swap_slot e = None then {#physical_id e#} else {#})"

definition entry_slots :: "BlockTableEntry \<Rightarrow> SwapSlotId multiset" where
  "entry_slots e = (case swap_slot e of None \<Rightarrow> {#} | Some s \<Rightarrow> {#s#})"

definition table_refs :: "BlockTable \<Rightarrow> PhysicalBlockId multiset" where
  "table_refs t = sum_list (map entry_refs (entries t))"

definition table_slots :: "BlockTable \<Rightarrow> SwapSlotId multiset" where
  "table_slots t = sum_list (map entry_slots (entries t))"

definition tables_refs :: "BlockTable list \<Rightarrow> PhysicalBlockId multiset" where
  "tables_refs ts = sum_list (map table_refs ts)"

definition tables_slots :: "BlockTable list \<Rightarrow> SwapSlotId multiset" where
  "tables_slots ts = sum_list (map table_slots ts)"

text \<open>The bytes of a logical block, resident or swapped out.\<close>

definition entry_content :: "MemoryAllocator \<Rightarrow> BlockTableEntry \<Rightarrow> u8 list option" where
  "entry_content al e =
     (case swap_slot e of None \<Rightarrow> Some (frame_of al (physical_id e)) | Some s \<Rightarrow> swapped al s)"

definition table_view :: "MemoryAllocator \<Rightarrow> BlockTable \<Rightarrow> u8 list option list" where
  "table_view al t = map (entry_content al) (entries t)"

definition tables_view :: "MemoryAllocator \<Rightarrow> BlockTable list \<Rightarrow> u8 list option list list" where
  "tables_view al ts = map (table_view al) ts"

definition table_descr :: "BlockTable \<Rightarrow> LogicalBlock list" where
  "table_descr t = map logical (entries t)"

text \<open>The tables the manager builds: no gaps, every block full width.\<close>

definition table_ok :: "u32 \<Rightarrow> BlockTable \<Rightarrow> bool" where
  "table_ok tpb t \<longleftrightarrow> bt_contiguous t \<and> list_all (\<lambda>e. lb_token_count (logical e) = tpb) (entries t)"

text \<open>A step that moves blocks of one table (or one sequence) between frames and swap slots
  without changing what any logical block contains. Frames it takes were free before.\<close>

definition table_step ::
    "PhysicalBlockId multiset \<Rightarrow> SwapSlotId multiset \<Rightarrow> MemoryAllocator \<Rightarrow> BlockTable
       \<Rightarrow> MemoryAllocator \<Rightarrow> BlockTable \<Rightarrow> bool" where
  "table_step R S al t al' t' \<longleftrightarrow>
     owns al' (R + table_refs t') (S + table_slots t') \<and> keeps R S al al'
     \<and> table_view al' t' = table_view al t \<and> table_descr t' = table_descr t
     \<and> fresh_refs (R + table_refs t) (R + table_refs t')"

definition tables_step ::
    "PhysicalBlockId multiset \<Rightarrow> SwapSlotId multiset \<Rightarrow> MemoryAllocator \<Rightarrow> BlockTable list
       \<Rightarrow> MemoryAllocator \<Rightarrow> BlockTable list \<Rightarrow> bool" where
  "tables_step R S al ts al' ts' \<longleftrightarrow>
     owns al' (R + tables_refs ts') (S + tables_slots ts') \<and> keeps R S al al'
     \<and> tables_view al' ts' = tables_view al ts \<and> map table_descr ts' = map table_descr ts
     \<and> fresh_refs (R + tables_refs ts) (R + tables_refs ts')"

section \<open>Sums over lists\<close>

lemma sum_list_split_at:
  fixes f :: "'a \<Rightarrow> 'b multiset"
  assumes "i < length xs"
  shows "sum_list (map f xs) = sum_list (map f (take i xs @ drop (Suc i) xs)) + f (xs ! i)"
proof -
  have "sum_list (map f xs) = sum_list (map f (take i xs @ xs ! i # drop (Suc i) xs))"
    using id_take_nth_drop [OF assms] by simp
  then show ?thesis by (simp add: ac_simps)
qed

lemma sum_list_update_at:
  fixes f :: "'a \<Rightarrow> 'b multiset"
  assumes "i < length xs"
  shows "sum_list (map f (xs[i := y])) = sum_list (map f (take i xs @ drop (Suc i) xs)) + f y"
  using assms by (simp add: upd_conv_take_nth_drop ac_simps)

lemma member_sum_list_mset: "x \<in> set xs \<Longrightarrow> (f x :: 'b multiset) \<subseteq># sum_list (map f xs)"
  by (induction xs) (auto intro: subset_mset.order_trans mset_subset_eq_add_right)

lemma other_position:
  "j < length xs \<Longrightarrow> j \<noteq> i \<Longrightarrow> xs ! j \<in> set (take i xs @ drop (Suc i) xs)"
proof (cases "j < i")
  case True
  assume "j < length xs" "j \<noteq> i"
  with True have "take i xs ! j \<in> set (take i xs)" by (intro nth_mem) simp
  then show ?thesis using True by simp
next
  case False
  assume "j < length xs" "j \<noteq> i"
  then have "drop (Suc i) xs ! (j - Suc i) \<in> set (drop (Suc i) xs)"
    using False by (intro nth_mem) simp
  then show ?thesis using False \<open>j \<noteq> i\<close> \<open>j < length xs\<close> by simp
qed

section \<open>What unchanged bytes mean for entries and tables\<close>

lemma keeps_entry:
  assumes "keeps R S al al'" and "entry_refs e \<subseteq># R" and "entry_slots e \<subseteq># S"
  shows "entry_content al' e = entry_content al e"
  using assms
  by (cases "swap_slot e") (auto simp: keeps_def entry_content_def entry_refs_def entry_slots_def)

lemma keeps_table:
  assumes "keeps R S al al'" and "table_refs t \<subseteq># R" and "table_slots t \<subseteq># S"
  shows "table_view al' t = table_view al t"
  unfolding table_view_def
proof (rule map_cong [OF refl])
  fix e assume e: "e \<in> set (entries t)"
  have "entry_refs e \<subseteq># R" "entry_slots e \<subseteq># S"
    using member_sum_list_mset [OF e, of entry_refs] member_sum_list_mset [OF e, of entry_slots]
      assms(2,3) unfolding table_refs_def table_slots_def
    by (blast intro: subset_mset.order_trans)+
  then show "entry_content al' e = entry_content al e" by (rule keeps_entry [OF assms(1)])
qed

lemma keeps_tables:
  assumes "keeps R S al al'" and "tables_refs ts \<subseteq># R" and "tables_slots ts \<subseteq># S"
  shows "tables_view al' ts = tables_view al ts"
  unfolding tables_view_def
proof (rule map_cong [OF refl])
  fix t assume t: "t \<in> set ts"
  have "table_refs t \<subseteq># R" "table_slots t \<subseteq># S"
    using member_sum_list_mset [OF t, of table_refs] member_sum_list_mset [OF t, of table_slots]
      assms(2,3) unfolding tables_refs_def tables_slots_def
    by (blast intro: subset_mset.order_trans)+
  then show "table_view al' t = table_view al t" by (rule keeps_table [OF assms(1)])
qed

lemma tables_Cons [simp]:
  "tables_refs [] = {#}" "tables_refs (t # ts) = table_refs t + tables_refs ts"
  "tables_slots [] = {#}" "tables_slots (t # ts) = table_slots t + tables_slots ts"
  "tables_view al [] = []" "tables_view al (t # ts) = table_view al t # tables_view al ts"
  by (simp_all add: tables_refs_def tables_slots_def tables_view_def)

lemma table_ok_descr: "table_descr t' = table_descr t \<Longrightarrow> table_ok tpb t' = table_ok tpb t"
proof -
  assume eq: "table_descr t' = table_descr t"
  have idx: "map entry_index (entries u) = map lb_index (table_descr u)" for u
    by (simp add: table_descr_def)
  have cnt: "list_all (\<lambda>e. lb_token_count (logical e) = tpb) (entries u)
      = list_all (\<lambda>l. lb_token_count l = tpb) (table_descr u)" for u
    by (simp add: table_descr_def list.pred_map comp_def)
  have len: "length (entries u) = length (table_descr u)" for u by (simp add: table_descr_def)
  show ?thesis unfolding table_ok_def bt_contiguous_def by (simp only: idx cnt len eq)
qed

section \<open>Composing steps\<close>

lemma table_step_refl: "owns al (R + table_refs t) (S + table_slots t) \<Longrightarrow> table_step R S al t al t"
  by (simp add: table_step_def)

lemma table_step_trans:
  "table_step R S al t al' t' \<Longrightarrow> table_step R S al' t' al'' t'' \<Longrightarrow> table_step R S al t al'' t''"
  by (auto simp: table_step_def intro: keeps_trans fresh_refs_trans)

lemma tables_step_Cons:
  assumes one: "table_step (R + tables_refs ts) (S + tables_slots ts) al t al1 t'"
    and rest: "tables_step (R + table_refs t') (S + table_slots t') al1 ts al' ts'"
  shows "tables_step R S al (t # ts) al' (t' # ts')"
proof -
  have k1: "keeps (R + tables_refs ts) (S + tables_slots ts) al al1"
    and k2: "keeps (R + table_refs t') (S + table_slots t') al1 al'"
    using assms by (simp_all add: table_step_def tables_step_def)
  have "keeps R S al al'"
    using keeps_trans [OF keeps_mono [OF k1] keeps_mono [OF k2]] by simp
  moreover have "tables_view al1 ts = tables_view al ts" using k1 by (rule keeps_tables) simp_all
  moreover have "table_view al' t' = table_view al1 t'" using k2 by (rule keeps_table) simp_all
  moreover have "fresh_refs (R + tables_refs (t # ts)) (R + tables_refs (t' # ts'))"
    using assms fresh_refs_trans by (fastforce simp: table_step_def tables_step_def ac_simps)
  ultimately show ?thesis
    using assms by (simp add: table_step_def tables_step_def ac_simps)
qed

text \<open>Changing one entry: the rest of the table goes into the frame.\<close>

lemma table_step_at:
  fixes f :: "BlockTableEntry \<Rightarrow> BlockTableEntry"
  assumes i: "i < length (entries t)"
    and step: "\<And>T U. table_refs t = T + entry_refs (entries t ! i) \<Longrightarrow>
        table_slots t = U + entry_slots (entries t ! i) \<Longrightarrow>
        owns al' (R + T + entry_refs (f (entries t ! i))) (S + U + entry_slots (f (entries t ! i)))
        \<and> keeps (R + T) (S + U) al al'
        \<and> fresh_refs (R + T + entry_refs (entries t ! i)) (R + T + entry_refs (f (entries t ! i)))"
    and content: "entry_content al' (f (entries t ! i)) = entry_content al (entries t ! i)"
    and descr: "logical (f (entries t ! i)) = logical (entries t ! i)"
  shows "table_step R S al t al' (bt_update_at t i f)"
proof -
  let ?e = "entries t ! i" and ?es = "entries t" and ?t = "bt_update_at t i f"
  let ?T = "sum_list (map entry_refs (take i ?es @ drop (Suc i) ?es))"
  let ?U = "sum_list (map entry_slots (take i ?es @ drop (Suc i) ?es))"
  have refs: "table_refs t = ?T + entry_refs ?e" "table_refs ?t = ?T + entry_refs (f ?e)"
    and slots: "table_slots t = ?U + entry_slots ?e" "table_slots ?t = ?U + entry_slots (f ?e)"
    using i by (simp_all add: table_refs_def table_slots_def bt_update_at_def
        sum_list_split_at [OF i] sum_list_update_at [OF i])
  have own: "owns al' (R + ?T + entry_refs (f ?e)) (S + ?U + entry_slots (f ?e))"
    and keep: "keeps (R + ?T) (S + ?U) al al'"
    and fresh: "fresh_refs (R + ?T + entry_refs ?e) (R + ?T + entry_refs (f ?e))"
    using step [OF refs(1) slots(1)] by blast+
  have "entry_content al' (?es[i := f ?e] ! j) = entry_content al (?es ! j)" if "j < length ?es" for j
  proof (cases "j = i")
    case True
    then show ?thesis using i content by simp
  next
    case False
    have "entry_refs (?es ! j) \<subseteq># R + ?T" "entry_slots (?es ! j) \<subseteq># S + ?U"
      using member_sum_list_mset [OF other_position [OF that False]]
      by (auto intro: subset_mset.order_trans [OF _ mset_subset_eq_add_right])
    then show ?thesis using False keeps_entry [OF keep] by simp
  qed
  then have "table_view al' ?t = table_view al t"
    by (auto simp: table_view_def bt_update_at_def intro: nth_equalityI)
  moreover have "table_descr ?t = table_descr t"
    using descr i by (simp add: table_descr_def bt_update_at_def map_update list_update_same_conv)
  moreover have "keeps R S al al'" using keep by (rule keeps_mono) simp_all
  ultimately show ?thesis using own fresh refs slots by (simp add: table_step_def ac_simps)
qed

end
