(* ===== verification/CacheLoops.thy ===== *)
theory CacheLoops
  imports CacheTables
begin

text \<open>
  The loops of \<^verbatim>\<open>KVCacheManager.cpp\<close> over the entries and tables of one sequence, verified
  against the ownership rules: swapping out and in, reserving, releasing, forking and attaching
  a prefix. Each loop is verified for an arbitrary rest of the pool (\<open>R\<close>, \<open>S\<close>), which it
  leaves untouched.
\<close>

lemma entry_resident: "swap_slot e = None \<Longrightarrow> entry_refs e = {#physical_id e#}"
    "swap_slot e = None \<Longrightarrow> entry_slots e = {#}"
  and entry_swapped: "swap_slot e = Some s \<Longrightarrow> entry_refs e = {#}"
    "swap_slot e = Some s \<Longrightarrow> entry_slots e = {#s#}"
  by (simp_all add: entry_refs_def entry_slots_def)

section \<open>Swapping out\<close>

lemma table_slots_update_at:
  assumes "i < length (entries t)"
  shows "\<exists>U. table_slots t = U + entry_slots (entries t ! i)
           \<and> table_slots (bt_update_at t i f) = U + entry_slots (f (entries t ! i))"
  using sum_list_split_at [OF assms, of entry_slots] sum_list_update_at [OF assms, of entry_slots]
  by (auto simp: table_slots_def bt_update_at_def)

lemma swap_out_step:
  assumes own: "owns al (R + table_refs t) (S + table_slots t)" and i: "i < length (entries t)"
    and res: "swap_slot (entries t ! i) = None"
    and out: "swap_out al (physical_id (entries t ! i)) = (Some slot, al')"
    and room: "swap_room al (Suc n)"
  defines "t' \<equiv> bt_update_at t i (\<lambda>e. e\<lparr>swap_slot := Some slot\<rparr>)"
  shows "table_step R S al t al' t'" and "swap_room al' n"
    and "size (table_slots t') = Suc (size (table_slots t))"
proof -
  let ?e = "entries t ! i"
  have *: "owns al' (R + T) (add_mset slot (S + U)) \<and> keeps (R + T) (S + U) al al'
      \<and> swapped al' slot = Some (frame_of al (physical_id ?e)) \<and> swap_room al' n"
    if "table_refs t = T + entry_refs ?e" "table_slots t = U + entry_slots ?e" for T U
  proof -
    have "owns al (add_mset (physical_id ?e) (R + T)) (S + U)"
      using own that res by (simp add: entry_refs_def entry_slots_def)
    from owns_swap_out [OF this out room] show ?thesis by simp
  qed
  note first = * [OF sum_list_split_at [OF i, of entry_refs, folded table_refs_def]
      sum_list_split_at [OF i, of entry_slots, folded table_slots_def]]
  show "table_step R S al t al' t'"
    unfolding t'_def using i
  proof (rule table_step_at)
    show "entry_content al' (?e\<lparr>swap_slot := Some slot\<rparr>) = entry_content al ?e"
      using first res by (simp add: entry_content_def)
    fix T U
    assume "table_refs t = T + entry_refs ?e" "table_slots t = U + entry_slots ?e"
    from * [OF this]
    show "owns al' (R + T + entry_refs (?e\<lparr>swap_slot := Some slot\<rparr>))
        (S + U + entry_slots (?e\<lparr>swap_slot := Some slot\<rparr>)) \<and> keeps (R + T) (S + U) al al'
        \<and> fresh_refs (R + T + entry_refs ?e) (R + T + entry_refs (?e\<lparr>swap_slot := Some slot\<rparr>))"
      by (simp add: entry_refs_def entry_slots_def fresh_refs_subset)
  qed simp
  show "swap_room al' n" using first by blast
  show "size (table_slots t') = Suc (size (table_slots t))"
    using table_slots_update_at [OF i, of "\<lambda>e. e\<lparr>swap_slot := Some slot\<rparr>"] res
    unfolding t'_def by (auto simp: entry_slots_def)
qed

lemma swap_out_indices_step:
  assumes "owns al (R + table_refs t) (S + table_slots t)" and "bt_contiguous t"
    and "distinct idxs"
    and "\<forall>idx\<in>set idxs. unat idx < length (entries t) \<and> swap_slot (entries t ! unat idx) = None"
    and "swap_room al (length idxs + n)" and "swap_out_indices idxs al t c = (al', t', c')"
  shows "table_step R S al t al' t' \<and> swap_room al' n
    \<and> (\<exists>k. c' = c + of_nat k \<and> size (table_slots t') = size (table_slots t) + k)"
  using assms
proof (induction idxs arbitrary: al t c)
  case Nil
  then show ?case by (auto simp: table_step_refl intro: exI [of _ 0])
next
  case (Cons idx rest)
  let ?i = "unat idx"
  have i: "?i < length (entries t)" "swap_slot (entries t ! ?i) = None" using Cons.prems(4) by auto
  have find: "mutable_entry t idx = Some ?i"
    using bt_contiguous_mutable_entry [OF Cons.prems(2)] i by simp
  have room: "swap_room al (Suc (length rest + n))" using Cons.prems(5) by simp
  then have room': "swap_room al (length rest + n)" by (auto simp: swap_room_def)
  obtain r al1 where out: "swap_out al (physical_id (entries t ! ?i)) = (r, al1)" by fastforce
  show ?case
  proof (cases r)
    case None
    then have "al1 = al" using owns_swap_out_refused Cons.prems(1) out by blast
    then show ?thesis
      using Cons.IH Cons.prems find out None room' by simp
  next
    case (Some slot)
    let ?t = "bt_update_at t ?i (\<lambda>e. e\<lparr>swap_slot := Some slot\<rparr>)"
    note step = swap_out_step [OF Cons.prems(1) i out [unfolded Some] room]
    have rest: "\<forall>j\<in>set rest. unat j < length (entries ?t) \<and> swap_slot (entries ?t ! unat j) = None"
    proof
      fix j assume j: "j \<in> set rest"
      then have "unat j \<noteq> ?i" using Cons.prems(3) by (auto dest: word_unat_eq_iff [THEN iffD2])
      then show "unat j < length (entries ?t) \<and> swap_slot (entries ?t ! unat j) = None"
        using j Cons.prems(4) by (simp add: bt_update_at_def)
    qed
    have own: "owns al1 (R + table_refs ?t) (S + table_slots ?t)"
      using step(1) by (simp add: table_step_def)
    have cont: "bt_contiguous ?t" using Cons.prems(2) by (rule bt_update_at_contiguous) simp
    have run: "swap_out_indices rest al1 ?t (c + 1) = (al', t', c')"
      using Cons.prems(6) find out Some by simp
    obtain k where "table_step R S al1 ?t al' t' \<and> swap_room al' n"
      "c' = c + 1 + of_nat k" "size (table_slots t') = size (table_slots ?t) + k"
      using Cons.IH [OF own cont _ rest step(2) run] Cons.prems(3) by auto
    then show ?thesis
      using table_step_trans [OF step(1)] step(3) by (auto intro!: exI [of _ "Suc k"])
  qed
qed

lemma resident_indices_ok:
  assumes "bt_contiguous t"
  shows "distinct (resident_indices t)" and "length (resident_indices t) \<le> length (entries t)"
    and "\<forall>idx\<in>set (resident_indices t).
           unat idx < length (entries t) \<and> swap_slot (entries t ! unat idx) = None"
proof -
  show "distinct (resident_indices t)"
    unfolding resident_indices_def
    using bt_sorted_distinct [OF bt_contiguous_sorted [OF assms]] by (rule distinct_map_filter)
  show "length (resident_indices t) \<le> length (entries t)" by (simp add: resident_indices_def)
  have len: "length (entries t) < 4294967296" using assms by (simp add: bt_contiguous_def)
  show "\<forall>idx\<in>set (resident_indices t).
      unat idx < length (entries t) \<and> swap_slot (entries t ! unat idx) = None"
  proof
    fix idx assume "idx \<in> set (resident_indices t)"
    then obtain i where "i < length (entries t)" "swap_slot (entries t ! i) = None"
      "idx = entry_index (entries t ! i)"
      by (auto simp: resident_indices_def in_set_conv_nth)
    moreover from this have "unat idx = i" using bt_contiguous_index [OF assms, of i] len by simp
    ultimately show "unat idx < length (entries t) \<and> swap_slot (entries t ! unat idx) = None" by simp
  qed
qed

lemma swap_room_mono: "swap_room al m \<Longrightarrow> n \<le> m \<Longrightarrow> swap_room al n"
  by (auto simp: swap_room_def)

text \<open>How many blocks a sequence's tables have.\<close>

definition tables_blocks :: "BlockTable list \<Rightarrow> nat" where
  "tables_blocks ts = sum_list (map (\<lambda>t. length (entries t)) ts)"

lemma tables_blocks_simps [simp]:
  "tables_blocks [] = 0" "tables_blocks (t # ts) = length (entries t) + tables_blocks ts"
  by (simp_all add: tables_blocks_def)

lemma tables_step_descr: "tables_step R S al ts al' ts' \<Longrightarrow> map table_descr ts' = map table_descr ts"
  by (simp add: tables_step_def)

lemma swap_out_tables_step:
  assumes "owns al (R + tables_refs ts) (S + tables_slots ts)" and "list_all bt_contiguous ts"
    and "swap_room al (tables_blocks ts + n)" and "swap_out_tables al ts c = (al', ts', c')"
  shows "tables_step R S al ts al' ts' \<and> swap_room al' n
    \<and> (\<exists>k. c' = c + of_nat k \<and> size (tables_slots ts') = size (tables_slots ts) + k)"
  using assms
proof (induction ts arbitrary: al c R S ts')
  case Nil
  then show ?case by (auto simp: tables_step_def intro: exI [of _ 0])
next
  case (Cons t ts)
  obtain al1 t1 c1 where one: "swap_out_indices (resident_indices t) al t c = (al1, t1, c1)"
    by (cases "swap_out_indices (resident_indices t) al t c") auto
  obtain ts1 where rest: "swap_out_tables al1 ts c1 = (al', ts1, c')" and ts': "ts' = t1 # ts1"
    using Cons.prems(4) one by (auto split: prod.splits)
  have cont: "bt_contiguous t" "list_all bt_contiguous ts" using Cons.prems(2) by simp_all
  note res = resident_indices_ok [OF cont(1)]
  have "swap_room al (length (resident_indices t) + (tables_blocks ts + n))"
    using Cons.prems(3) res(2) by (auto intro: swap_room_mono)
  moreover have own: "owns al ((R + tables_refs ts) + table_refs t) ((S + tables_slots ts) + table_slots t)"
    using Cons.prems(1) by (simp add: ac_simps)
  ultimately obtain k where one': "table_step (R + tables_refs ts) (S + tables_slots ts) al t al1 t1"
    "swap_room al1 (tables_blocks ts + n)" "c1 = c + of_nat k"
    "size (table_slots t1) = size (table_slots t) + k"
    using swap_out_indices_step [OF own cont(1) res(1,3) _ one] by blast
  have "owns al1 ((R + table_refs t1) + tables_refs ts) ((S + table_slots t1) + tables_slots ts)"
    using one'(1) by (simp add: table_step_def ac_simps)
  from Cons.IH [OF this cont(2) one'(2) rest] obtain k' where
    "tables_step (R + table_refs t1) (S + table_slots t1) al1 ts al' ts1" "swap_room al' n"
    "c' = c1 + of_nat k'" "size (tables_slots ts1) = size (tables_slots ts) + k'" by blast
  then show ?case
    using tables_step_Cons [OF one'(1)] one' ts' by (auto intro!: exI [of _ "k + k'"])
qed

section \<open>Swapping in\<close>

lemma swap_in_no_frame:
  "owns al F (add_mset slot L) \<Longrightarrow> free_list al = [] \<Longrightarrow> swap_in al slot = (None, al)"
  by (auto simp: swap_in_def allocate_def split: option.splits)

lemma swap_in_step:
  assumes own: "owns al (R + table_refs t) (S + table_slots t)" and i: "i < length (entries t)"
    and slot: "swap_slot (entries t ! i) = Some slot" and free: "0 < length (free_list al)"
  obtains p al' where "swap_in al slot = (Some p, al')"
    and "table_step R S al t al' (bt_update_at t i (\<lambda>e. e\<lparr>physical_id := p, swap_slot := None\<rparr>))"
    and "Suc (length (free_list al')) = length (free_list al)"
    and "size (table_slots t)
      = Suc (size (table_slots (bt_update_at t i (\<lambda>e. e\<lparr>physical_id := p, swap_slot := None\<rparr>))))"
    and "\<And>n. swap_room al n \<Longrightarrow> swap_room al' n"
proof -
  let ?e = "entries t ! i"
  let ?T = "sum_list (map entry_refs (take i (entries t) @ drop (Suc i) (entries t)))"
  let ?U = "sum_list (map entry_slots (take i (entries t) @ drop (Suc i) (entries t)))"
  note split = sum_list_split_at [OF i, of entry_refs, folded table_refs_def]
    sum_list_split_at [OF i, of entry_slots, folded table_slots_def]
  have "owns al (R + ?T) (add_mset slot (S + ?U))"
    using own split slot by (simp add: entry_refs_def entry_slots_def)
  from owns_swap_in [OF this free] obtain p al' where
    ok: "swap_in al slot = (Some p, al')" "owns al' (add_mset p (R + ?T)) (S + ?U)"
      "keeps (R + ?T) (S + ?U) al al'" "Some (frame_of al' p) = swapped al slot"
      "length (free_list al') = length (free_list al) - 1"
      "\<And>n. swap_room al n \<Longrightarrow> swap_room al' n" "p \<notin># R + ?T" by metis
  let ?f = "\<lambda>e. e\<lparr>physical_id := p, swap_slot := None\<rparr> :: BlockTableEntry"
  have "table_step R S al t al' (bt_update_at t i ?f)"
    using i
  proof (rule table_step_at)
    show "entry_content al' (?f ?e) = entry_content al ?e"
      using ok(4) slot by (simp add: entry_content_def)
    fix T U assume "table_refs t = T + entry_refs ?e" "table_slots t = U + entry_slots ?e"
    then have "T = ?T" "U = ?U" using split by simp_all
    then show "owns al' (R + T + entry_refs (?f ?e)) (S + U + entry_slots (?f ?e))
        \<and> keeps (R + T) (S + U) al al' \<and> fresh_refs (R + T + entry_refs ?e) (R + T + entry_refs (?f ?e))"
      using ok(2,3) fresh_refs_add [OF ok(7)] slot by (simp add: entry_refs_def entry_slots_def)
  qed simp
  moreover have "size (table_slots t) = Suc (size (table_slots (bt_update_at t i ?f)))"
    using table_slots_update_at [OF i, of ?f] slot by (auto simp: entry_slots_def)
  ultimately show ?thesis using that [OF ok(1)] ok(5,6) free by simp
qed

lemma swap_in_entries_step:
  assumes "owns al (R + table_refs t) (S + table_slots t)" and "bt_contiguous t"
    and "\<forall>k\<in>set ks. k < length (entries t)" and "swap_in_entries ks al t = (ok, al', t')"
  shows "table_step R S al t al' t'"
    and "length (free_list al') + size (table_slots t) = length (free_list al) + size (table_slots t')"
    and "size (table_slots t) \<le> length (free_list al) \<Longrightarrow> ok"
    and "ok \<Longrightarrow> k < length (entries t) \<Longrightarrow> k \<in> set ks \<or> swap_slot (entries t ! k) = None \<Longrightarrow>
           swap_slot (entries t' ! k) = None"
    and "swap_room al n \<Longrightarrow> swap_room al' n"
proof -
  have "table_step R S al t al' t'
    \<and> length (free_list al') + size (table_slots t) = length (free_list al) + size (table_slots t')
    \<and> (size (table_slots t) \<le> length (free_list al) \<longrightarrow> ok)
    \<and> (ok \<longrightarrow> (\<forall>k<length (entries t). k \<in> set ks \<or> swap_slot (entries t ! k) = None \<longrightarrow>
           swap_slot (entries t' ! k) = None))
    \<and> (swap_room al n \<longrightarrow> swap_room al' n)"
    using assms
  proof (induction ks arbitrary: al t)
    case Nil
    then show ?case by (simp add: table_step_refl)
  next
    case (Cons k ks)
    have k: "k < length (entries t)" using Cons.prems(3) by simp
    show ?case
    proof (cases "swap_slot (entries t ! k)")
      case None
      then show ?thesis using Cons.IH [OF Cons.prems(1,2)] Cons.prems by auto
    next
      case (Some slot)
      have "length (entries t) < 4294967296" using Cons.prems(2) by (simp add: bt_contiguous_def)
      then have find: "mutable_entry t (entry_index (entries t ! k)) = Some k"
        using k bt_contiguous_mutable_entry [OF Cons.prems(2)]
        by (simp add: bt_contiguous_index [OF Cons.prems(2)])
      obtain U where U: "table_slots t = add_mset slot U"
        using sum_list_split_at [OF k, of entry_slots] Some
        by (simp add: table_slots_def entry_slots_def)
      show ?thesis
      proof (cases "free_list al = []")
        case True
        then have "swap_in al slot = (None, al)"
          using swap_in_no_frame Cons.prems(1) U by fastforce
        then show ?thesis
          using Cons.prems(1,4) Some find U True by (auto simp: table_step_refl)
      next
        case False
        then have free: "0 < length (free_list al)" by simp
        obtain p al1 where step: "swap_in al slot = (Some p, al1)"
          "table_step R S al t al1 (bt_update_at t k (\<lambda>e. e\<lparr>physical_id := p, swap_slot := None\<rparr>))"
          "Suc (length (free_list al1)) = length (free_list al)"
          "size (table_slots t)
             = Suc (size (table_slots (bt_update_at t k (\<lambda>e. e\<lparr>physical_id := p, swap_slot := None\<rparr>))))"
          "\<And>n. swap_room al n \<Longrightarrow> swap_room al1 n"
          using swap_in_step [OF Cons.prems(1) k Some free] by metis
        let ?t = "bt_update_at t k (\<lambda>e. e\<lparr>physical_id := p, swap_slot := None\<rparr>)"
        have own: "owns al1 (R + table_refs ?t) (S + table_slots ?t)"
          using step(2) by (simp add: table_step_def)
        have cont: "bt_contiguous ?t" using Cons.prems(2) by (rule bt_update_at_contiguous) simp
        have len: "length (entries ?t) = length (entries t)" by (simp add: bt_update_at_def)
        have run: "swap_in_entries ks al1 ?t = (ok, al', t')"
          using Cons.prems(4) Some find step(1) by simp
        have res: "swap_slot (entries ?t ! j) = None"
          if "j = k \<or> swap_slot (entries t ! j) = None" for j
          using that k by (cases "j = k") (auto simp: bt_update_at_def)
        show ?thesis
          using Cons.IH [OF own cont _ run] Cons.prems(3) step(3,4,5) len res
            table_step_trans [OF step(2)] by auto
      qed
    qed
  qed
  then show "table_step R S al t al' t'"
    and "length (free_list al') + size (table_slots t) = length (free_list al) + size (table_slots t')"
    and "size (table_slots t) \<le> length (free_list al) \<Longrightarrow> ok"
    and "ok \<Longrightarrow> k < length (entries t) \<Longrightarrow> k \<in> set ks \<or> swap_slot (entries t ! k) = None \<Longrightarrow>
           swap_slot (entries t' ! k) = None"
    and "swap_room al n \<Longrightarrow> swap_room al' n"
    by blast+
qed

lemma size_entry_slots: "size (entry_slots e) = (if swap_slot e = None then 0 else 1)"
  by (auto simp: entry_slots_def split: option.splits)

lemma size_table_slots:
  "size (table_slots t) = length (filter (\<lambda>e. swap_slot e \<noteq> None) (entries t))"
proof -
  have "size (sum_list (map entry_slots es)) = length (filter (\<lambda>e. swap_slot e \<noteq> None) es)" for es
    by (induction es) (auto simp: size_entry_slots)
  then show ?thesis by (simp add: table_slots_def)
qed

lemma size_tables_slots:
  "size (tables_slots ts) = length (filter (\<lambda>e. swap_slot e \<noteq> None) (concat (map entries ts)))"
  by (induction ts) (auto simp: size_table_slots)

lemma table_slots_empty_iff:
  "table_slots t = {#} \<longleftrightarrow> list_all (\<lambda>e. swap_slot e = None) (entries t)"
  using size_table_slots [of t] by (auto simp: filter_empty_conv list_all_iff)

lemma size_tables_slots_le: "size (tables_slots ts) \<le> tables_blocks ts"
  by (induction ts) (auto simp: size_table_slots intro!: add_mono)

lemma swapped_count_eq: "swapped_count ts = of_nat (size (tables_slots ts))"
  by (simp add: swapped_count_def size_tables_slots)

lemma table_descr_len: "table_descr t' = table_descr t \<Longrightarrow> length (entries t') = length (entries t)"
  unfolding table_descr_def by (metis length_map)

lemma swap_in_table_step:
  assumes "owns al (R + table_refs t) (S + table_slots t)" and "bt_contiguous t"
    and "swap_in_entries [0..<length (entries t)] al t = (ok, al', t')"
  shows "table_step R S al t al' t'"
    and "length (free_list al') + size (table_slots t) = length (free_list al) + size (table_slots t')"
    and "size (table_slots t) \<le> length (free_list al) \<Longrightarrow> ok"
    and "ok \<Longrightarrow> table_slots t' = {#}" and "swap_room al n \<Longrightarrow> swap_room al' n"
proof -
  have range: "\<forall>k\<in>set [0..<length (entries t)]. k < length (entries t)" by simp
  note step = swap_in_entries_step [OF assms(1,2) range assms(3)]
  show "table_step R S al t al' t'"
    and "length (free_list al') + size (table_slots t) = length (free_list al) + size (table_slots t')"
    and "size (table_slots t) \<le> length (free_list al) \<Longrightarrow> ok"
    and "swap_room al n \<Longrightarrow> swap_room al' n"
    using step(1,2,3,5) by blast+
  show "table_slots t' = {#}" if ok
    using step(4) [OF that] table_descr_len [of t' t] step(1)
    by (auto simp: table_slots_empty_iff list_all_length table_step_def)
qed

lemma swap_in_tables_step:
  assumes "owns al (R + tables_refs ts) (S + tables_slots ts)" and "list_all bt_contiguous ts"
    and "swap_in_tables al ts = (ok, al', ts')"
  shows "tables_step R S al ts al' ts'"
    and "length (free_list al') + size (tables_slots ts) = length (free_list al) + size (tables_slots ts')"
    and "size (tables_slots ts) \<le> length (free_list al) \<Longrightarrow> ok"
    and "ok \<Longrightarrow> tables_slots ts' = {#}" and "swap_room al n \<Longrightarrow> swap_room al' n"
proof -
  have "tables_step R S al ts al' ts'
    \<and> length (free_list al') + size (tables_slots ts) = length (free_list al) + size (tables_slots ts')
    \<and> (size (tables_slots ts) \<le> length (free_list al) \<longrightarrow> ok)
    \<and> (ok \<longrightarrow> tables_slots ts' = {#}) \<and> (swap_room al n \<longrightarrow> swap_room al' n)"
    using assms
  proof (induction ts arbitrary: al R S ts')
    case Nil
    then show ?case by (simp add: tables_step_def)
  next
    case (Cons t ts)
    obtain ok1 al1 t1 where one: "swap_in_entries [0..<length (entries t)] al t = (ok1, al1, t1)"
      by (metis prod_cases3)
    have cont: "bt_contiguous t" "list_all bt_contiguous ts" using Cons.prems(2) by simp_all
    have own: "owns al ((R + tables_refs ts) + table_refs t) ((S + tables_slots ts) + table_slots t)"
      using Cons.prems(1) by (simp add: ac_simps)
    note step = swap_in_table_step [OF own cont(1) one]
    have own1: "owns al1 ((R + table_refs t1) + tables_refs ts) ((S + table_slots t1) + tables_slots ts)"
      using step(1) by (simp add: table_step_def ac_simps)
    show ?case
    proof (cases ok1)
      case False
      then have eq: "ok = False" "al' = al1" "ts' = t1 # ts" using Cons.prems(3) one by auto
      have "tables_step (R + table_refs t1) (S + table_slots t1) al1 ts al1 ts"
        using own1 by (simp add: tables_step_def)
      from tables_step_Cons [OF step(1) this] show ?thesis
        using False eq step(2,3,5) by auto
    next
      case True
      obtain ts1 where rest: "swap_in_tables al1 ts = (ok, al', ts1)" and ts': "ts' = t1 # ts1"
        using Cons.prems(3) one True by (auto split: prod.splits)
      note IH = Cons.IH [OF own1 cont(2) rest]
      have "tables_step R S al (t # ts) al' ts'"
        using tables_step_Cons [OF step(1)] IH ts' by blast
      moreover have "length (free_list al1) + size (table_slots t) = length (free_list al)"
        using step(2) step(4) [OF True] by simp
      ultimately show ?thesis using IH step(4) [OF True] step(5) ts' by auto
    qed
  qed
  then show "tables_step R S al ts al' ts'"
    and "length (free_list al') + size (tables_slots ts) = length (free_list al) + size (tables_slots ts')"
    and "size (tables_slots ts) \<le> length (free_list al) \<Longrightarrow> ok"
    and "ok \<Longrightarrow> tables_slots ts' = {#}" and "swap_room al n \<Longrightarrow> swap_room al' n"
    by blast+
qed

section \<open>Appending blocks\<close>

text \<open>The entries a reservation (\<open>w = True\<close>) or a prefix attachment (\<open>w = False\<close>) appends for
  the given frames, starting at block \<open>i\<close>.\<close>

fun new_entries ::
    "SequenceId \<Rightarrow> CacheKind \<Rightarrow> u32 \<Rightarrow> bool \<Rightarrow> nat \<Rightarrow> PhysicalBlockId list \<Rightarrow> BlockTableEntry list" where
  "new_entries sid kind tpb w i [] = []"
| "new_entries sid kind tpb w i (p # ps) =
     \<lparr>logical = block_descriptor sid kind tpb (of_nat i), physical_id = p, writable = w, swap_slot = None\<rparr>
     # new_entries sid kind tpb w (Suc i) ps"

definition append_blocks ::
    "SequenceId \<Rightarrow> u32 \<Rightarrow> bool \<Rightarrow> PhysicalBlockId list \<Rightarrow> BlockTable \<Rightarrow> BlockTable" where
  "append_blocks sid tpb w ps t =
     t\<lparr>entries := entries t @ new_entries sid (bt_cache_kind t) tpb w (length (entries t)) ps\<rparr>"

lemma new_entries_length [simp]: "length (new_entries sid kind tpb w i ps) = length ps"
  by (induction ps arbitrary: i) simp_all

lemma new_entries_refs: "sum_list (map entry_refs (new_entries sid kind tpb w i ps)) = mset ps"
  by (induction ps arbitrary: i) (simp_all add: entry_refs_def)

lemma new_entries_slots: "sum_list (map entry_slots (new_entries sid kind tpb w i ps)) = {#}"
  by (induction ps arbitrary: i) (simp_all add: entry_slots_def)

lemma new_entries_content:
  "map (entry_content al) (new_entries sid kind tpb w i ps) = map (Some \<circ> frame_of al) ps"
  by (induction ps arbitrary: i) (simp_all add: entry_content_def)

lemma new_entries_index:
  "map entry_index (new_entries sid kind tpb w i ps) = map of_nat [i..<i + length ps]"
  by (induction ps arbitrary: i) (simp_all add: block_descriptor_def upt_conv_Cons del: upt_Suc)

lemma new_entries_tokens:
  "list_all (\<lambda>e. lb_token_count (logical e) = tpb) (new_entries sid kind tpb w i ps)"
  by (induction ps arbitrary: i) (simp_all add: block_descriptor_def)

lemma append_blocks_simps [simp]:
  "append_blocks sid tpb w [] t = t"
  "table_refs (append_blocks sid tpb w ps t) = table_refs t + mset ps"
  "table_slots (append_blocks sid tpb w ps t) = table_slots t"
  "table_view al (append_blocks sid tpb w ps t) = table_view al t @ map (Some \<circ> frame_of al) ps"
  "length (entries (append_blocks sid tpb w ps t)) = length (entries t) + length ps"
  "bt_cache_kind (append_blocks sid tpb w ps t) = bt_cache_kind t"
  "bt_sequence_id (append_blocks sid tpb w ps t) = bt_sequence_id t"
  by (simp_all add: append_blocks_def table_refs_def table_slots_def table_view_def new_entries_refs
      new_entries_slots new_entries_content del: map_map)

lemma append_blocks_ok:
  assumes "table_ok tpb t" and "length (entries t) + length ps < 4294967296"
  shows "table_ok tpb (append_blocks sid tpb w ps t)"
proof -
  have split: "[0..<length (entries t) + length ps]
      = [0..<length (entries t)] @ [length (entries t)..<length (entries t) + length ps]"
    using upt_add_eq_append [of 0 "length (entries t)"] by simp
  have "map entry_index (entries (append_blocks sid tpb w ps t))
      = map of_nat [0..<length (entries t)] @ map of_nat [length (entries t)..<length (entries t) + length ps]"
    using assms(1) by (simp add: append_blocks_def new_entries_index table_ok_def bt_contiguous_def)
  then have "bt_contiguous (append_blocks sid tpb w ps t)"
    using assms(2) unfolding bt_contiguous_def append_blocks_simps split map_append by simp
  then show ?thesis
    using assms(1) by (simp add: table_ok_def append_blocks_def new_entries_tokens)
qed

lemma append_blocks_Cons:
  assumes "bt_contiguous t" and "length (entries t) + 1 < 4294967296"
  shows "append_blocks sid tpb w ps (bt_map t (block_descriptor sid (bt_cache_kind t) tpb
      (of_nat (length (entries t)))) p w) = append_blocks sid tpb w (p # ps) t"
    and "bt_contiguous (bt_map t (block_descriptor sid (bt_cache_kind t) tpb
      (of_nat (length (entries t)))) p w)"
  using bt_map_append [OF assms, of "block_descriptor sid (bt_cache_kind t) tpb (of_nat (length (entries t)))"]
  by (simp_all add: block_descriptor_def append_blocks_def)

section \<open>Reserving\<close>

text \<open>Frames \<open>ps\<close> were taken from the pool: they are distinct, nobody referred to them before, and
  nothing else changed.\<close>

definition took ::
    "PhysicalBlockId multiset \<Rightarrow> SwapSlotId multiset \<Rightarrow> MemoryAllocator \<Rightarrow> PhysicalBlockId list
       \<Rightarrow> MemoryAllocator \<Rightarrow> bool" where
  "took F L al ps al' \<longleftrightarrow>
     owns al' (F + mset ps) L \<and> keeps F L al al' \<and> distinct ps \<and> set ps \<inter> set_mset F = {}
     \<and> length (free_list al') + length ps = length (free_list al)
     \<and> (\<forall>n. swap_room al n \<longrightarrow> swap_room al' n)"

lemma took_Nil [simp]: "took F L al [] al' \<Longrightarrow> owns al' F L"
  and took_refl: "owns al F L \<Longrightarrow> took F L al [] al"
  by (simp_all add: took_def)

lemma took_one:
  assumes "owns al F L" and "allocate al = (Some p, al')"
  shows "took F L al [p] al'"
  using owns_allocate [OF assms] pool.free_alloc(2) [OF owns_inv [OF assms(1)] assms(2)]
  by (simp add: took_def)

lemma took_trans:
  assumes "took F L al ps al1" and "took (F + mset ps) L al1 qs al'"
  shows "took F L al (ps @ qs) al'"
proof -
  have "keeps F L al1 al'" using assms(2) keeps_mono unfolding took_def by fastforce
  then show ?thesis
    using assms keeps_trans unfolding took_def by (auto simp: ac_simps)
qed

lemma reserve_blocks_step:
  assumes "owns al F L" and "bt_contiguous t" and "length (entries t) = b + k"
    and "b + (k + d) < 4294967296"
    and "reserve_blocks sid tpb (of_nat b) [k..<k + d] al t = (ok, al', t')"
  shows "\<exists>ps. t' = append_blocks sid tpb True ps t \<and> took F L al ps al' \<and> length ps \<le> d
    \<and> (ok \<longrightarrow> length ps = d) \<and> (d \<le> length (free_list al) \<longrightarrow> ok)"
  using assms
proof (induction d arbitrary: k al t F)
  case 0
  then show ?case by (auto intro!: exI [of _ "[]"] took_refl)
next
  case (Suc d)
  have offs: "[k..<k + Suc d] = k # [Suc k..<Suc k + d]" by (simp add: upt_conv_Cons del: upt_Suc)
  have idx: "of_nat b + of_nat k = (of_nat (length (entries t)) :: u32)" using Suc.prems(3) by simp
  obtain r al1 where alloc: "allocate al = (r, al1)" by fastforce
  show ?case
  proof (cases r)
    case None
    then have "al1 = al" "free_list al = []" using alloc allocate_None by blast+
    then show ?thesis
      using Suc.prems(1,5) alloc None unfolding offs by (auto intro!: exI [of _ "[]"] took_refl)
  next
    case (Some p)
    let ?t = "bt_map t (block_descriptor sid (bt_cache_kind t) tpb (of_nat (length (entries t)))) p True"
    have len: "length (entries t) + 1 < 4294967296" using Suc.prems(3,4) by simp
    note app = append_blocks_Cons [OF Suc.prems(2) len, where sid = sid and tpb = tpb and w = True and p = p]
    have one: "took F L al [p] al1" using took_one Suc.prems(1) alloc Some by blast
    then have own: "owns al1 (F + mset [p]) L" by (simp add: took_def)
    have lt: "length (entries ?t) = b + Suc k"
      using app(1) [where ps = "[]"] Suc.prems(3) by simp
    have run: "reserve_blocks sid tpb (of_nat b) [Suc k..<Suc k + d] al1 ?t = (ok, al', t')"
      using Suc.prems(5) alloc Some idx unfolding offs by (simp add: Let_def)
    obtain ps where ps: "t' = append_blocks sid tpb True ps ?t" "took (F + mset [p]) L al1 ps al'"
      "length ps \<le> d" "ok \<longrightarrow> length ps = d" "d \<le> length (free_list al1) \<longrightarrow> ok"
      using Suc.IH [OF own app(2) lt _ run] Suc.prems(4) by auto
    have "length (free_list al) = Suc (length (free_list al1))" using one by (simp add: took_def)
    then show ?thesis
      using took_trans [OF one ps(2)] ps app(1) by (intro exI [of _ "p # ps"]) auto
  qed
qed

lemma reserve_tables_step:
  assumes "owns al F L" and "list_all bt_contiguous ts"
    and "list_all (\<lambda>t. length (entries t) + unat m < 4294967296) ts"
    and "reserve_tables sid tpb m al ts = (ok, al', ts')"
  shows "\<exists>pss. length pss = length ts \<and> ts' = map2 (append_blocks sid tpb True) pss ts
    \<and> took F L al (concat pss) al' \<and> list_all (\<lambda>ps. length ps \<le> unat m) pss
    \<and> (ok \<longrightarrow> list_all (\<lambda>ps. length ps = unat m) pss)
    \<and> (unat m * length ts \<le> length (free_list al) \<longrightarrow> ok)"
  using assms
proof (induction ts arbitrary: al F ts')
  case Nil
  then show ?case by (auto intro: took_refl)
next
  case (Cons t ts)
  obtain ok1 al1 t1 where
    one: "reserve_blocks sid tpb (of_nat (bt_size t)) [0..<unat m] al t = (ok1, al1, t1)"
    by (metis prod_cases3)
  obtain ps where ps: "t1 = append_blocks sid tpb True ps t" "took F L al ps al1"
    "length ps \<le> unat m" "ok1 \<longrightarrow> length ps = unat m" "unat m \<le> length (free_list al) \<longrightarrow> ok1"
    using reserve_blocks_step [OF Cons.prems(1), of t "bt_size t" 0 "unat m" sid tpb ok1 al1 t1] one
      Cons.prems(2,3) by (auto simp: bt_size_def)
  have free: "length (free_list al1) + length ps = length (free_list al)"
    and own: "owns al1 (F + mset ps) L" using ps(2) by (simp_all add: took_def)
  show ?case
  proof (cases ok1)
    case False
    have "map2 (append_blocks sid tpb True) (replicate (length ts) []) ts = ts" by (induction ts) auto
    then show ?thesis
      using False Cons.prems(4) one ps
      by (intro exI [of _ "ps # replicate (length ts) []"]) (auto simp: list_all_iff)
  next
    case True
    obtain ts1 where rest: "reserve_tables sid tpb m al1 ts = (ok, al', ts1)" and ts': "ts' = t1 # ts1"
      using Cons.prems(4) one True by (auto simp: Let_def split: prod.splits)
    obtain pss where pss: "length pss = length ts" "ts1 = map2 (append_blocks sid tpb True) pss ts"
      "took (F + mset ps) L al1 (concat pss) al'" "list_all (\<lambda>ps. length ps \<le> unat m) pss"
      "ok \<longrightarrow> list_all (\<lambda>ps. length ps = unat m) pss"
      "unat m * length ts \<le> length (free_list al1) \<longrightarrow> ok"
      using Cons.IH [OF own _ _ rest] Cons.prems(2,3) by auto
    then show ?thesis
      using ps True ts' free took_trans [OF ps(2) pss(3)] by (intro exI [of _ "ps # pss"]) auto
  qed
qed

section \<open>Releasing\<close>

lemma entries_tables:
  "tables_refs ts = sum_list (map entry_refs (concat (map entries ts)))"
  "tables_slots ts = sum_list (map entry_slots (concat (map entries ts)))"
  by (induction ts) (simp_all add: table_refs_def table_slots_def)

lemma release_entries_step:
  assumes "owns al (R + sum_list (map entry_refs es)) (S + sum_list (map entry_slots es))"
  shows "owns (foldl release_entry al es) R S" and "keeps R S al (foldl release_entry al es)"
    and "swap_room al n \<Longrightarrow> swap_room (foldl release_entry al es) n"
proof -
  have "owns (foldl release_entry al es) R S \<and> keeps R S al (foldl release_entry al es)
    \<and> (swap_room al n \<longrightarrow> swap_room (foldl release_entry al es) n)"
    using assms
  proof (induction es arbitrary: al)
    case Nil
    then show ?case by simp
  next
    case (Cons e es)
    let ?R = "R + sum_list (map entry_refs es)" and ?S = "S + sum_list (map entry_slots es)"
    have step: "owns (release_entry al e) ?R ?S \<and> keeps ?R ?S al (release_entry al e)
        \<and> (swap_room al n \<longrightarrow> swap_room (release_entry al e) n)"
    proof (cases "swap_slot e")
      case None
      then have "owns al (add_mset (physical_id e) ?R) ?S"
        using Cons.prems by (simp add: entry_resident)
      from owns_release [OF this] show ?thesis using None by (simp add: release_entry_def)
    next
      case (Some slot)
      then have "owns al ?R (add_mset slot ?S)"
        using Cons.prems by (simp add: entry_swapped)
      from owns_discard [OF this] show ?thesis using Some by (simp add: release_entry_def)
    qed
    have "keeps R S al (release_entry al e)" using step keeps_mono by fastforce
    then show ?case using Cons.IH [of "release_entry al e"] step keeps_trans by auto
  qed
  then show "owns (foldl release_entry al es) R S" and "keeps R S al (foldl release_entry al es)"
    and "swap_room al n \<Longrightarrow> swap_room (foldl release_entry al es) n" by blast+
qed

lemma release_tables_step:
  assumes "owns al (R + tables_refs ts) (S + tables_slots ts)"
  shows "owns (foldl release_entry al (concat (map entries ts))) R S"
    and "keeps R S al (foldl release_entry al (concat (map entries ts)))"
    and "swap_room al n \<Longrightarrow> swap_room (foldl release_entry al (concat (map entries ts))) n"
  using release_entries_step [OF assms [unfolded entries_tables]] by blast+

section \<open>Forking\<close>

lemma fork_tables_eq:
  "fork_tables al child ts =
     (foldl retain al (map physical_id (concat (map entries ts))), map (\<lambda>t. bt_fork t child) ts)"
  by (induction ts arbitrary: al) (auto simp: bt_fork_def comp_def Let_def)

lemma fork_entry_ownership [simp]:
  "entry_refs (fork_entry c e) = entry_refs e" "entry_slots (fork_entry c e) = entry_slots e"
  "entry_content al (fork_entry c e) = entry_content al e"
  by (simp_all add: entry_refs_def entry_slots_def entry_content_def split: option.split)

lemma bt_fork_table [simp]:
  "table_refs (bt_fork t c) = table_refs t" "table_slots (bt_fork t c) = table_slots t"
  "table_view al (bt_fork t c) = table_view al t"
  by (simp_all add: table_refs_def table_slots_def table_view_def bt_fork_def comp_def)

lemma bt_fork_tables [simp]:
  "tables_refs (map (\<lambda>t. bt_fork t c) ts) = tables_refs ts"
  "tables_slots (map (\<lambda>t. bt_fork t c) ts) = tables_slots ts"
  "tables_view al (map (\<lambda>t. bt_fork t c) ts) = tables_view al ts"
  "table_ok tpb (bt_fork t c) = table_ok tpb t"
proof -
  show "tables_refs (map (\<lambda>t. bt_fork t c) ts) = tables_refs ts"
    "tables_slots (map (\<lambda>t. bt_fork t c) ts) = tables_slots ts"
    "tables_view al (map (\<lambda>t. bt_fork t c) ts) = tables_view al ts"
    by (induction ts) simp_all
  show "table_ok tpb (bt_fork t c) = table_ok tpb t"
    by (simp add: bt_fork_def comp_def table_ok_def bt_contiguous_def list.pred_map)
qed

lemma has_swapped_iff: "has_swapped t \<longleftrightarrow> table_slots t \<noteq> {#}"
  by (auto simp: has_swapped_def table_slots_empty_iff list_ex_iff list_all_iff)

lemma none_swapped: "\<not> list_ex has_swapped ts \<Longrightarrow> tables_slots ts = {#}"
  by (induction ts) (simp_all add: has_swapped_iff)

lemma resident_refs:
  assumes "tables_slots ts = {#}"
  shows "mset (map physical_id (concat (map entries ts))) = tables_refs ts"
proof -
  have "sum_list (map entry_slots es) = {#} \<Longrightarrow> mset (map physical_id es) = sum_list (map entry_refs es)"
    for es
    by (induction es) (auto simp: entry_refs_def entry_slots_def split: option.splits)
  then show ?thesis using assms by (simp add: entries_tables)
qed

text \<open>Adding one reference to every block of a sequence that has none swapped out.\<close>

lemma retain_tables_step:
  assumes own: "owns al (R + tables_refs ts) L" and slots: "tables_slots ts = {#}"
    and few: "\<And>p. count (R + tables_refs ts) p + count (tables_refs ts) p < 4294967296"
  defines "al' \<equiv> foldl retain al (map physical_id (concat (map entries ts)))"
  shows "owns al' (R + tables_refs ts + tables_refs ts) L" and "keeps (R + tables_refs ts) L al al'"
    and "swap_room al' n = swap_room al n"
    and "frame_of al' = frame_of al" and "swapped al' = swapped al"
proof -
  note refs = resident_refs [OF slots]
  have sub: "set (map physical_id (concat (map entries ts))) \<subseteq> set_mset (R + tables_refs ts)"
    by (simp only: set_mset_mset [symmetric] refs) simp
  have bound: "count (R + tables_refs ts) p
      + count (mset (map physical_id (concat (map entries ts)))) p < 4294967296" for p
    unfolding refs by (rule few)
  note ret = owns_retain_all [OF own sub bound, folded al'_def, unfolded refs]
  show "owns al' (R + tables_refs ts + tables_refs ts) L" and "keeps (R + tables_refs ts) L al al'"
    and "swap_room al' n = swap_room al n"
    and "frame_of al' = frame_of al" and "swapped al' = swapped al"
    using ret by simp_all
qed

section \<open>Attaching a shared prefix\<close>

lemma attach_blocks_eq:
  assumes "bt_contiguous t" and "length (entries t) = i" and "i + length ps < 4294967296"
  shows "attach_blocks sid tpb i ps al t = (foldl retain al ps, append_blocks sid tpb False ps t)"
  using assms
proof (induction ps arbitrary: i al t)
  case Nil
  then show ?case by simp
next
  case (Cons p ps)
  let ?t = "bt_map t (block_descriptor sid (bt_cache_kind t) tpb (of_nat i)) p False"
  have len: "length (entries t) + 1 < 4294967296" using Cons.prems by simp
  note app = append_blocks_Cons [OF Cons.prems(1) len,
      where sid = sid and tpb = tpb and w = False and p = p, unfolded Cons.prems(2)]
  have "length (entries ?t) = Suc i" using app(1) [where ps = "[]"] Cons.prems(2) by simp
  then show ?case using Cons.IH [OF app(2)] app(1) Cons.prems(3) by simp
qed

fun chunks :: "nat \<Rightarrow> nat \<Rightarrow> 'a list \<Rightarrow> 'a list list" where
  "chunks 0 n xs = []"
| "chunks (Suc m) n xs = take n xs # chunks m n (drop n xs)"

lemma length_chunks [simp]: "length (chunks m n xs) = m"
  by (induction m arbitrary: xs) simp_all

lemma concat_chunks: "concat (chunks m n xs) = take (m * n) xs"
  by (induction m arbitrary: xs) (simp_all add: take_add)

lemma chunks_lengths: "length xs = m * n \<Longrightarrow> list_all (\<lambda>ps. length ps = n) (chunks m n xs)"
  by (induction m arbitrary: xs) simp_all

lemma attach_tables_eq:
  assumes "list_all (\<lambda>t. entries t = []) ts" and "n < 4294967296"
  shows "attach_tables sid tpb n ps al ts =
    (foldl retain al (take (length ts * n) ps),
     map2 (append_blocks sid tpb False) (chunks (length ts) n ps) ts)"
  using assms(1)
proof (induction ts arbitrary: ps al)
  case Nil
  then show ?case by simp
next
  case (Cons t ts)
  have empty: "bt_contiguous t" "length (entries t) = 0"
    using Cons.prems by (simp_all add: bt_contiguous_def)
  have "attach_blocks sid tpb 0 (take n ps) al t
      = (foldl retain al (take n ps), append_blocks sid tpb False (take n ps) t)"
    using assms(2) by (intro attach_blocks_eq [OF empty]) simp
  then show ?case
    using Cons by (simp add: take_add)
qed

lemma append_tables_simps:
  assumes "length pss = length ts"
  shows "tables_refs (map2 (append_blocks sid tpb w) pss ts) = tables_refs ts + mset (concat pss)"
    and "tables_slots (map2 (append_blocks sid tpb w) pss ts) = tables_slots ts"
    and "tables_view al (map2 (append_blocks sid tpb w) pss ts)
           = map2 (\<lambda>v ps. v @ map (Some \<circ> frame_of al) ps) (tables_view al ts) pss"
  using assms
  by (induction pss ts rule: list_induct2) (simp_all add: ac_simps)

end
