(* ===== verification/KVInvariant.thy ===== *)
theory KVInvariant
  imports CacheLoops
begin

text \<open>
  The invariant of the cache manager and the two lemmas every operation's proof goes through.

  \<open>kv_inv\<close> says that the allocator's outstanding references and swap slots are exactly those the
  sequences' tables and the published prefixes hold, that every sequence has one well-formed table
  per layer and no frame twice, that the request index lists exactly the live sequences, and that each published
  prefix counts its users. \<open>kv_view\<close> is what a sequence's cache contains, block by block,
  independently of where the blocks live.
\<close>

section \<open>Definitions\<close>

definition seq_refs :: "SequenceState \<Rightarrow> PhysicalBlockId multiset" where
  "seq_refs st = tables_refs (tables st)"

definition seq_slots :: "SequenceState \<Rightarrow> SwapSlotId multiset" where
  "seq_slots st = tables_slots (tables st)"

definition records_refs :: "PrefixRecord list \<Rightarrow> PhysicalBlockId multiset" where
  "records_refs recs = sum_list (map (\<lambda>r. mset (physical_ids r)) recs)"

definition kv_refs :: "KVCacheManager \<Rightarrow> PhysicalBlockId multiset" where
  "kv_refs kv = map_total seq_refs (sequences kv) + map_total records_refs (prefix_index kv)"

definition kv_slots :: "KVCacheManager \<Rightarrow> SwapSlotId multiset" where
  "kv_slots kv = map_total seq_slots (sequences kv)"

text \<open>Everything but one sequence.\<close>

definition rest_refs :: "KVCacheManager \<Rightarrow> SequenceId \<Rightarrow> PhysicalBlockId multiset" where
  "rest_refs kv sid =
     map_total seq_refs ((sequences kv)(sid := None)) + map_total records_refs (prefix_index kv)"

definition rest_slots :: "KVCacheManager \<Rightarrow> SequenceId \<Rightarrow> SwapSlotId multiset" where
  "rest_slots kv sid = map_total seq_slots ((sequences kv)(sid := None))"

text \<open>One table per layer (or one in all), each without gaps, all equally long.\<close>

definition tables_ok :: "KVCacheManager \<Rightarrow> BlockTable list \<Rightarrow> bool" where
  "tables_ok kv ts \<longleftrightarrow>
     length ts = unat (table_count kv) \<and> list_all (table_ok (kv_tokens_per_block kv)) ts
     \<and> list_all (\<lambda>t. length (entries t) = length (entries (hd ts))) ts"

definition request_of :: "(SequenceId \<rightharpoonup> SequenceState) \<Rightarrow> SequenceId \<rightharpoonup> RequestId" where
  "request_of m sid = map_option (\<lambda>st. sm_request_id (metadata st)) (m sid)"

definition index_ok :: "KVCacheManager \<Rightarrow> bool" where
  "index_ok kv \<longleftrightarrow>
     (\<forall>rid. distinct (sequences_for kv rid) \<and> sequences_by_request kv rid \<noteq> Some [])
     \<and> (\<forall>rid sid. sid \<in> set (sequences_for kv rid) \<longleftrightarrow> request_of (sequences kv) sid = Some rid)"

definition prefix_users :: "(SequenceId \<rightharpoonup> SequenceState) \<Rightarrow> string \<Rightarrow> u64 \<Rightarrow> SequenceId set" where
  "prefix_users m key h =
     {sid. \<exists>st. m sid = Some st \<and> prefix_key st = key \<and> prefix_hash st = h}"

definition record_ok :: "KVCacheManager \<Rightarrow> string \<Rightarrow> PrefixRecord \<Rightarrow> bool" where
  "record_ok kv key r \<longleftrightarrow>
     distinct (physical_ids r) \<and> users r \<noteq> 0 \<and> unat (users r) = card (prefix_users (sequences kv) key (content_hash r))
     \<and> (\<exists>b. 0 < b \<and> b < 4294967296 \<and> length (physical_ids r) = unat (table_count kv) * b
           \<and> pr_token_count r = of_nat b * kv_tokens_per_block kv)"

definition prefix_ok :: "KVCacheManager \<Rightarrow> bool" where
  "prefix_ok kv \<longleftrightarrow>
     (\<forall>key recs. prefix_index kv key = Some recs \<longrightarrow>
        key \<noteq> [] \<and> recs \<noteq> [] \<and> distinct (map content_hash recs) \<and> list_all (record_ok kv key) recs)
     \<and> (\<forall>sid st. sequences kv sid = Some st \<longrightarrow> prefix_key st \<noteq> [] \<longrightarrow>
          \<not> bt_empty (text_table st)
          \<and> (\<exists>recs. prefix_index kv (prefix_key st) = Some recs
             \<and> prefix_hash st \<in> content_hash ` set recs))"

definition kv_inv :: "KVCacheManager \<Rightarrow> bool" where
  "kv_inv kv \<longleftrightarrow>
     owns (allocator kv) (kv_refs kv) (kv_slots kv)
     \<and> finite (dom (sequences kv)) \<and> finite (dom (prefix_index kv))
     \<and> (\<forall>sid st. sequences kv sid = Some st \<longrightarrow>
          sm_sequence_id (metadata st) = sid \<and> tables_ok kv (tables st) \<and> no_dup (tables_refs (tables st)))
     \<and> index_ok kv \<and> prefix_ok kv"

text \<open>What the blocks of a sequence and of a published prefix contain.\<close>

definition kv_view :: "KVCacheManager \<Rightarrow> SequenceId \<Rightarrow> u8 list option list list option" where
  "kv_view kv sid = map_option (\<lambda>st. tables_view (allocator kv) (tables st)) (sequences kv sid)"

definition prefix_view :: "KVCacheManager \<Rightarrow> string \<Rightarrow> u8 list list list option" where
  "prefix_view kv key =
     map_option (map (\<lambda>r. map (frame_of (allocator kv)) (physical_ids r))) (prefix_index kv key)"

section \<open>Shape of the pool\<close>

lemma pool_shape_config:
  assumes "alloc_inv (allocator kv)"
  shows "pool_shape kv = (if max_blocks (config (allocator kv)) = 0 then default_BlockShape
           else block_shape (config (allocator kv)))"
    and "kv_tokens_per_block kv = (if max_blocks (config (allocator kv)) = 0 then 0
           else tokens_per_block (block_shape (config (allocator kv))))"
proof -
  let ?n = "unat (max_blocks (config (allocator kv)))"
  have "blocks (allocator kv) = map (bind_frame (config (allocator kv))
      (block_stride_bytes (allocator kv)) (Some 0)) [0..<?n]"
    using assms by (simp add: alloc_inv_def memory_inv_def Let_def)
  then have blk: "al_block (allocator kv) 0 = (if ?n = 0 then None
      else Some (bind_frame (config (allocator kv)) (block_stride_bytes (allocator kv)) (Some 0) 0))"
    by (cases "?n") (simp_all add: al_block_def upt_conv_Cons del: upt_Suc)
  then show "pool_shape kv = (if max_blocks (config (allocator kv)) = 0 then default_BlockShape
      else block_shape (config (allocator kv)))"
    and "kv_tokens_per_block kv = (if max_blocks (config (allocator kv)) = 0 then 0
      else tokens_per_block (block_shape (config (allocator kv))))"
    by (simp_all add: pool_shape_def kv_tokens_per_block_def bind_frame_def)
qed

lemma shape_cong:
  assumes "alloc_inv (allocator kv)" and "alloc_inv (allocator kv')"
    and "config (allocator kv') = config (allocator kv)"
  shows "table_count kv' = table_count kv" and "kv_tokens_per_block kv' = kv_tokens_per_block kv"
  using assms by (simp_all add: table_count_def pool_shape_config)

lemma table_count_pos: "0 < unat (table_count kv)"
  using per_layer_frames_num_layers [of "pool_shape kv"] by (auto simp: table_count_def Let_def)

lemma tables_ok_cong:
  "table_count kv' = table_count kv \<Longrightarrow> kv_tokens_per_block kv' = kv_tokens_per_block kv \<Longrightarrow>
   tables_ok kv' ts = tables_ok kv ts"
  by (simp add: tables_ok_def)

lemma tables_ok_contiguous: "tables_ok kv ts \<Longrightarrow> list_all bt_contiguous ts"
  by (auto simp: tables_ok_def table_ok_def list_all_iff)

lemma tables_ok_nonempty: "tables_ok kv ts \<Longrightarrow> ts \<noteq> []"
  using table_count_pos [of kv] by (auto simp: tables_ok_def)

lemma tables_ok_descr:
  assumes "map table_descr ts' = map table_descr ts"
  shows "tables_ok kv ts' = tables_ok kv ts"
proof -
  have len: "length ts' = length ts" using assms by (metis length_map)
  have each: "table_descr (ts' ! i) = table_descr (ts ! i)" if "i < length ts" for i
    using assms that len by (metis nth_map)
  have sizes: "length (entries (ts' ! i)) = length (entries (ts ! i))" if "i < length ts" for i
    using each [OF that] by (rule table_descr_len)
  have oks: "table_ok tpb (ts' ! i) = table_ok tpb (ts ! i)" if "i < length ts" for i tpb
    using each [OF that] by (rule table_ok_descr)
  show ?thesis
  proof (cases "ts = []")
    case True
    then show ?thesis using len by (simp add: tables_ok_def)
  next
    case False
    then have "hd ts = ts ! 0" "hd ts' = ts' ! 0" "0 < length ts"
      using len by (metis hd_conv_nth length_0_conv, metis hd_conv_nth length_0_conv, simp)
    then show ?thesis
      using sizes oks len by (simp add: tables_ok_def list_all_length)
  qed
qed

section \<open>Focusing on one sequence\<close>

lemma kv_inv_owns: "kv_inv kv \<Longrightarrow> owns (allocator kv) (kv_refs kv) (kv_slots kv)"
  by (simp add: kv_inv_def)

lemma kv_invI:
  assumes "owns (allocator kv) (kv_refs kv) (kv_slots kv)" and "finite (dom (sequences kv))"
    and "finite (dom (prefix_index kv))" and "index_ok kv" and "prefix_ok kv"
    and "\<And>sid st. sequences kv sid = Some st \<Longrightarrow>
      sm_sequence_id (metadata st) = sid \<and> tables_ok kv (tables st) \<and> no_dup (tables_refs (tables st))"
  shows "kv_inv kv"
  using assms unfolding kv_inv_def by blast

lemma kv_inv_parts:
  assumes "kv_inv kv"
  shows "finite (dom (sequences kv))" and "finite (dom (prefix_index kv))"
    and "index_ok kv" and "prefix_ok kv" and "alloc_inv (allocator kv)"
    and "sequences kv sid = Some st \<Longrightarrow> sm_sequence_id (metadata st) = sid"
  using assms by (auto simp: kv_inv_def owns_def)

lemma kv_inv_tables: "kv_inv kv \<Longrightarrow> sequences kv sid = Some st \<Longrightarrow> tables_ok kv (tables st)"
  by (auto simp: kv_inv_def)

text \<open>A sequence never uses a frame for two of its blocks.\<close>

lemma kv_inv_no_dup: "kv_inv kv \<Longrightarrow> sequences kv sid = Some st \<Longrightarrow> no_dup (tables_refs (tables st))"
  by (auto simp: kv_inv_def)

lemma kv_split:
  assumes "finite (dom (sequences kv))" and "sequences kv sid = Some st"
  shows "kv_refs kv = rest_refs kv sid + tables_refs (tables st)"
    and "kv_slots kv = rest_slots kv sid + tables_slots (tables st)"
  using map_total_remove [OF assms, of seq_refs] map_total_remove [OF assms, of seq_slots]
  by (simp_all add: kv_refs_def kv_slots_def rest_refs_def rest_slots_def seq_refs_def seq_slots_def)

lemma kv_owns_split:
  assumes "kv_inv kv" and "sequences kv sid = Some st"
  shows "owns (allocator kv) (rest_refs kv sid + tables_refs (tables st))
           (rest_slots kv sid + tables_slots (tables st))"
  using kv_inv_owns [OF assms(1)] kv_split [OF _ assms(2)] assms(1) by (simp add: kv_inv_def)

lemma kv_refs_upd:
  assumes "finite (dom (sequences kv))" and "sequences kv' = (sequences kv)(sid \<mapsto> st')"
    and "prefix_index kv' = prefix_index kv"
  shows "kv_refs kv' = rest_refs kv sid + tables_refs (tables st')"
    and "kv_slots kv' = rest_slots kv sid + tables_slots (tables st')"
  using assms
  by (simp_all add: kv_refs_def kv_slots_def rest_refs_def rest_slots_def seq_refs_def seq_slots_def
      map_total_upd ac_simps)

text \<open>An operation that replaces the tables of one sequence and otherwise only moves blocks
  of that sequence keeps the invariant and every other sequence's content.\<close>

definition with_tables ::
    "KVCacheManager \<Rightarrow> SequenceId \<Rightarrow> SequenceState \<Rightarrow> MemoryAllocator \<Rightarrow> BlockTable list \<Rightarrow> KVCacheManager" where
  "with_tables kv sid st al ts =
     kv\<lparr>allocator := al, sequences := (sequences kv)(sid \<mapsto> st\<lparr>tables := ts\<rparr>)\<rparr>"

lemma with_tables_simps [simp]:
  "allocator (with_tables kv sid st al ts) = al"
  "sequences (with_tables kv sid st al ts) = (sequences kv)(sid \<mapsto> st\<lparr>tables := ts\<rparr>)"
  "sequences_by_request (with_tables kv sid st al ts) = sequences_by_request kv"
  "prefix_index (with_tables kv sid st al ts) = prefix_index kv"
  by (simp_all add: with_tables_def)

lemma prefix_users_cong:
  assumes "\<And>sid. map_option (\<lambda>st. (prefix_key st, prefix_hash st)) (m' sid)
    = map_option (\<lambda>st. (prefix_key st, prefix_hash st)) (m sid)"
  shows "prefix_users m' key h = prefix_users m key h"
proof -
  have "(\<exists>st. m' sid = Some st \<and> prefix_key st = key \<and> prefix_hash st = h)
      = (\<exists>st. m sid = Some st \<and> prefix_key st = key \<and> prefix_hash st = h)" for sid
    using assms [of sid] by (cases "m' sid"; cases "m sid") auto
  then show ?thesis by (simp add: prefix_users_def)
qed

lemma with_tables_inv:
  assumes inv: "kv_inv kv" and st: "sequences kv sid = Some st"
    and own: "owns al (rest_refs kv sid + tables_refs ts) (rest_slots kv sid + tables_slots ts)"
    and cfg: "config al = config (allocator kv)" and ts: "tables_ok kv ts"
    and filled: "\<not> bt_empty (hd (tables st)) \<Longrightarrow> \<not> bt_empty (hd ts)" and dup: "no_dup (tables_refs ts)"
  shows "kv_inv (with_tables kv sid st al ts)"
proof -
  let ?kv = "with_tables kv sid st al ts"
  have fin: "finite (dom (sequences kv))" using inv by (simp add: kv_inv_def)
  have "alloc_inv (allocator kv)" "alloc_inv al"
    using kv_inv_owns [OF inv] own by (simp_all add: owns_def)
  then have shape: "table_count ?kv = table_count kv" "kv_tokens_per_block ?kv = kv_tokens_per_block kv"
    using shape_cong [of kv ?kv] cfg by simp_all
  have users: "prefix_users (sequences ?kv) key h = prefix_users (sequences kv) key h" for key h
    by (rule prefix_users_cong) (simp add: st)
  then have rec: "record_ok ?kv = record_ok kv" by (simp add: record_ok_def fun_eq_iff shape)
  have "request_of (sequences ?kv) = request_of (sequences kv)"
    using st by (simp add: request_of_def fun_eq_iff)
  then have idx: "index_ok ?kv = index_ok kv" by (simp add: index_ok_def sequences_for_def)
  have pre: "prefix_ok ?kv" if "prefix_ok kv"
    using that st filled unfolding prefix_ok_def rec text_table_def by (simp add: all_conj_distrib)
  have refs: "kv_refs ?kv = rest_refs kv sid + tables_refs ts"
    "kv_slots ?kv = rest_slots kv sid + tables_slots ts"
    using kv_refs_upd [OF fin, of ?kv sid "st\<lparr>tables := ts\<rparr>"] by simp_all
  show ?thesis
    using inv own ts st dup unfolding kv_inv_def refs tables_ok_cong [OF shape] idx
    by (auto simp: pre)
qed

lemma rest_mem:
  assumes "finite (dom (sequences kv))" and "sequences kv other = Some st" and "other \<noteq> sid"
  shows "tables_refs (tables st) \<subseteq># rest_refs kv sid"
    and "tables_slots (tables st) \<subseteq># rest_slots kv sid"
proof -
  have "((sequences kv)(sid := None)) other = Some st" using assms by simp
  moreover have "finite (dom ((sequences kv)(sid := None)))" using assms(1) by simp
  ultimately have "seq_refs st \<subseteq># map_total seq_refs ((sequences kv)(sid := None))"
    "seq_slots st \<subseteq># map_total seq_slots ((sequences kv)(sid := None))"
    using map_total_mset_mem by metis+
  then show "tables_refs (tables st) \<subseteq># rest_refs kv sid"
    and "tables_slots (tables st) \<subseteq># rest_slots kv sid"
    unfolding rest_refs_def rest_slots_def
    using subset_mset.order_trans [OF _ mset_subset_eq_add_left]
    by (simp_all add: seq_refs_def seq_slots_def)
qed

lemma rest_record_mem:
  assumes "finite (dom (prefix_index kv))" and "prefix_index kv key = Some recs"
    and "r \<in> set recs" and "p \<in> set (physical_ids r)"
  shows "p \<in># map_total records_refs (prefix_index kv)"
proof -
  have "mset (physical_ids r) \<subseteq># records_refs recs"
    using member_sum_list_mset [OF assms(3), of "\<lambda>r. mset (physical_ids r)"]
    by (simp add: records_refs_def)
  then have "p \<in># records_refs recs" using assms(4) by (simp add: mset_subset_eqD)
  then show ?thesis
    using assms(2) unfolding in_map_total_iff [OF assms(1)] by (intro exI conjI)
qed

text \<open>Content of everything a step keeps.\<close>

lemma keeps_view:
  assumes "finite (dom (sequences kv))" and "keeps (rest_refs kv sid) (rest_slots kv sid) (allocator kv) al"
    and "other \<noteq> sid" and "sequences kv' other = sequences kv other" and "allocator kv' = al"
  shows "kv_view kv' other = kv_view kv other"
proof (cases "sequences kv other")
  case None
  then show ?thesis using assms by (simp add: kv_view_def)
next
  case (Some st)
  have "tables_view al (tables st) = tables_view (allocator kv) (tables st)"
    using assms(2) rest_mem [OF assms(1) Some assms(3)] by (rule keeps_tables)
  then show ?thesis using Some assms by (simp add: kv_view_def)
qed

lemma keeps_prefix_view:
  assumes "finite (dom (prefix_index kv))"
    and "keeps R S (allocator kv) al" and "map_total records_refs (prefix_index kv) \<subseteq># R"
    and "prefix_index kv' key = prefix_index kv key" and "allocator kv' = al"
  shows "prefix_view kv' key = prefix_view kv key"
proof (cases "prefix_index kv key")
  case None
  then show ?thesis using assms by (simp add: prefix_view_def)
next
  case (Some recs)
  have "frame_of al p = frame_of (allocator kv) p"
    if "r \<in> set recs" "p \<in> set (physical_ids r)" for r p
  proof -
    have "p \<in># R"
      using rest_record_mem [OF assms(1) Some that] assms(3) by (rule mset_subset_eqD [rotated])
    then show ?thesis using assms(2) by (simp add: keeps_def)
  qed
  then show ?thesis using Some assms by (simp add: prefix_view_def)
qed

end
