(* ===== verification/KVTransparency.thy ===== *)
theory KVTransparency
  imports KVInvariant
begin

text \<open>
  The operations that move blocks without changing any sequence's content: swapping sequences and
  whole requests out and in, and the copy-on-write step. Each keeps the invariant and leaves
  every sequence's view and every published prefix as it was.
\<close>

section \<open>Definitions\<close>

definition seq_blocks :: "KVCacheManager \<Rightarrow> SequenceId \<Rightarrow> nat" where
  "seq_blocks kv sid = (case sequences kv sid of None \<Rightarrow> 0 | Some st \<Rightarrow> tables_blocks (tables st))"

definition kv_swapped :: "KVCacheManager \<Rightarrow> SequenceId \<Rightarrow> nat" where
  "kv_swapped kv sid = (case sequences kv sid of None \<Rightarrow> 0 | Some st \<Rightarrow> size (tables_slots (tables st)))"

text \<open>Nothing observable changed: contents, published prefixes, sequence and request tables.\<close>

definition kv_same :: "KVCacheManager \<Rightarrow> KVCacheManager \<Rightarrow> bool" where
  "kv_same kv kv' \<longleftrightarrow>
     kv_view kv' = kv_view kv \<and> prefix_view kv' = prefix_view kv
     \<and> prefix_index kv' = prefix_index kv \<and> sequences_by_request kv' = sequences_by_request kv
     \<and> dom (sequences kv') = dom (sequences kv) \<and> seq_blocks kv' = seq_blocks kv
     \<and> config (allocator kv') = config (allocator kv)
     \<and> capacity (allocator kv') = capacity (allocator kv)"

lemma kv_same_refl [simp]: "kv_same kv kv"
  by (simp add: kv_same_def)

lemma kv_same_trans: "kv_same kv kv' \<Longrightarrow> kv_same kv' kv'' \<Longrightarrow> kv_same kv kv''"
  by (simp add: kv_same_def)

section \<open>From steps on tables to steps of the manager\<close>

lemma tables_blocks_descr:
  assumes "map table_descr ts' = map table_descr ts"
  shows "tables_blocks ts' = tables_blocks ts"
proof -
  have "tables_blocks us = sum_list (map length (map table_descr us))" for us
    by (induction us) (simp_all add: table_descr_def)
  then show ?thesis using assms by metis
qed

lemma tables_step_kv:
  assumes inv: "kv_inv kv" and st: "sequences kv sid = Some st"
    and step: "tables_step (rest_refs kv sid) (rest_slots kv sid) (allocator kv) (tables st) al ts"
  shows "kv_inv (with_tables kv sid st al ts)" and "kv_same kv (with_tables kv sid st al ts)"
proof -
  let ?kv = "with_tables kv sid st al ts"
  have fin: "finite (dom (sequences kv))" "finite (dom (prefix_index kv))"
    using inv by (simp_all add: kv_inv_def)
  have own: "owns al (rest_refs kv sid + tables_refs ts) (rest_slots kv sid + tables_slots ts)"
    and keep: "keeps (rest_refs kv sid) (rest_slots kv sid) (allocator kv) al"
    and view: "tables_view al ts = tables_view (allocator kv) (tables st)"
    and descr: "map table_descr ts = map table_descr (tables st)"
    and fresh: "fresh_refs (rest_refs kv sid + tables_refs (tables st)) (rest_refs kv sid + tables_refs ts)"
    using step by (simp_all add: tables_step_def)
  have dup: "no_dup (tables_refs ts)" using fresh kv_inv_no_dup [OF inv st] by (rule fresh_refs_part)
  have cfg: "config al = config (allocator kv)" "capacity al = capacity (allocator kv)"
    using keep by (simp_all add: keeps_def)
  have "tables_ok kv ts" using tables_ok_descr [OF descr] kv_inv_tables [OF inv st] by simp
  moreover have "bt_empty (hd ts) = bt_empty (hd (tables st))"
  proof -
    have "tables st \<noteq> []" using kv_inv_tables [OF inv st] by (rule tables_ok_nonempty)
    moreover from this have "ts \<noteq> []" using descr by auto
    ultimately have "table_descr (hd ts) = table_descr (hd (tables st))"
      using descr by (metis list.map_sel(1))
    then show ?thesis using table_descr_len by (fastforce simp: bt_empty_def)
  qed
  ultimately show "kv_inv ?kv" using with_tables_inv [OF inv st own cfg(1)] dup by simp
  have "kv_view ?kv other = kv_view kv other" for other
  proof (cases "other = sid")
    case True
    then show ?thesis using st view by (simp add: kv_view_def)
  next
    case False
    then show ?thesis using keeps_view [OF fin(1) keep False, of ?kv] by simp
  qed
  moreover have "prefix_view ?kv key = prefix_view kv key" for key
    using keeps_prefix_view [OF fin(2) keep, of ?kv key] by (simp add: rest_refs_def)
  moreover have "seq_blocks ?kv other = seq_blocks kv other" for other
    using tables_blocks_descr [OF descr] st by (simp add: seq_blocks_def)
  ultimately show "kv_same kv ?kv" using st cfg by (auto simp: kv_same_def fun_eq_iff)
qed

section \<open>Swapping one sequence\<close>

lemma swap_out_sequence_step:
  assumes inv: "kv_inv kv" and room: "swap_room (allocator kv) (seq_blocks kv sid + n)"
    and run: "swap_out_sequence kv sid = (c, kv')"
  shows "kv_inv kv'" and "kv_same kv kv'" and "swap_room (allocator kv') n"
    and "c = of_nat (kv_swapped kv' sid - kv_swapped kv sid)"
    and "kv_swapped kv sid \<le> kv_swapped kv' sid"
    and "other \<noteq> sid \<Longrightarrow> kv_swapped kv' other = kv_swapped kv other"
proof -
  have "kv_inv kv' \<and> kv_same kv kv' \<and> swap_room (allocator kv') n
    \<and> c = of_nat (kv_swapped kv' sid - kv_swapped kv sid) \<and> kv_swapped kv sid \<le> kv_swapped kv' sid
    \<and> (other \<noteq> sid \<longrightarrow> kv_swapped kv' other = kv_swapped kv other)"
  proof (cases "sequences kv sid")
    case None
    then show ?thesis
      using inv room run by (auto simp: swap_out_sequence_def seq_blocks_def)
  next
    case (Some st)
    obtain al ts c' where out: "swap_out_tables (allocator kv) (tables st) 0 = (al, ts, c')"
      by (metis prod_cases3)
    have kv': "kv' = with_tables kv sid st al ts" and c: "c = c'"
      using run Some out by (simp_all add: swap_out_sequence_def with_tables_def)
    have "swap_room (allocator kv) (tables_blocks (tables st) + n)"
      using room Some by (simp add: seq_blocks_def)
    from swap_out_tables_step [OF kv_owns_split [OF inv Some]
        tables_ok_contiguous [OF kv_inv_tables [OF inv Some]] this out]
    obtain k where
      step: "tables_step (rest_refs kv sid) (rest_slots kv sid) (allocator kv) (tables st) al ts"
        "swap_room al n" "c' = of_nat k" "size (tables_slots ts) = size (tables_slots (tables st)) + k"
      by auto
    show ?thesis
      using tables_step_kv [OF inv Some step(1)] step Some unfolding kv' c
      by (simp add: kv_swapped_def)
  qed
  then show "kv_inv kv'" and "kv_same kv kv'" and "swap_room (allocator kv') n"
    and "c = of_nat (kv_swapped kv' sid - kv_swapped kv sid)"
    and "kv_swapped kv sid \<le> kv_swapped kv' sid"
    and "other \<noteq> sid \<Longrightarrow> kv_swapped kv' other = kv_swapped kv other"
    by blast+
qed

text \<open>Swapping in succeeds exactly when the pool has the frames, and then nothing of the sequence
  is left in the backend.\<close>

lemma swap_in_sequence_step:
  assumes inv: "kv_inv kv" and few: "kv_swapped kv sid < 4294967296"
    and run: "swap_in_sequence kv sid = (ok, kv')"
  shows "kv_inv kv'" and "kv_same kv kv'"
    and "ok \<longleftrightarrow> sequences kv sid \<noteq> None \<and> kv_swapped kv sid \<le> length (free_list (allocator kv))"
    and "ok \<Longrightarrow> kv_swapped kv' sid = 0" and "\<not> ok \<Longrightarrow> kv' = kv"
    and "ok \<Longrightarrow> length (free_list (allocator kv')) + kv_swapped kv sid = length (free_list (allocator kv))"
    and "other \<noteq> sid \<Longrightarrow> kv_swapped kv' other = kv_swapped kv other"
    and "swap_room (allocator kv) n \<Longrightarrow> swap_room (allocator kv') n"
proof -
  have "kv_inv kv' \<and> kv_same kv kv'
    \<and> (ok \<longleftrightarrow> sequences kv sid \<noteq> None \<and> kv_swapped kv sid \<le> length (free_list (allocator kv)))
    \<and> (ok \<longrightarrow> kv_swapped kv' sid = 0) \<and> (\<not> ok \<longrightarrow> kv' = kv)
    \<and> (ok \<longrightarrow> length (free_list (allocator kv')) + kv_swapped kv sid = length (free_list (allocator kv)))
    \<and> (other \<noteq> sid \<longrightarrow> kv_swapped kv' other = kv_swapped kv other)
    \<and> (swap_room (allocator kv) n \<longrightarrow> swap_room (allocator kv') n)"
  proof (cases "sequences kv sid")
    case None
    then show ?thesis using inv run by (auto simp: swap_in_sequence_def)
  next
    case (Some st)
    have size: "kv_swapped kv sid = size (tables_slots (tables st))"
      using Some by (simp add: kv_swapped_def)
    have needed: "unat (swapped_count (tables st)) = size (tables_slots (tables st))"
      using few size by (simp add: swapped_count_eq)
    then have zero: "swapped_count (tables st) = 0 \<longleftrightarrow> size (tables_slots (tables st)) = 0"
      by (metis unat_eq_0_iff_word)
    consider (nothing) "size (tables_slots (tables st)) = 0"
      | (short) "length (free_list (allocator kv)) < size (tables_slots (tables st))"
      | (room) "0 < size (tables_slots (tables st))"
          "size (tables_slots (tables st)) \<le> length (free_list (allocator kv))"
      by linarith
    then show ?thesis
    proof cases
      case nothing
      then show ?thesis
        using inv run Some zero size by (auto simp: swap_in_sequence_def)
    next
      case short
      then have "swap_in_sequence kv sid = (False, kv)"
        using Some zero needed by (auto simp: swap_in_sequence_def can_allocate_def)
      then show ?thesis using inv run size short by auto
    next
      case room
      obtain ok' al ts where in': "swap_in_tables (allocator kv) (tables st) = (ok', al, ts)"
        by (metis prod_cases3)
      have kv': "kv' = with_tables kv sid st al ts" and ok: "ok = ok'"
        using run Some in' zero needed room
        by (auto simp: swap_in_sequence_def with_tables_def can_allocate_def)
      note step = swap_in_tables_step [OF kv_owns_split [OF inv Some]
          tables_ok_contiguous [OF kv_inv_tables [OF inv Some]] in']
      have ok': ok' using step(3) room(2) .
      show ?thesis
        using tables_step_kv [OF inv Some step(1)] step(2,5) step(4) [OF ok'] ok' room Some size
        unfolding kv' ok by (auto simp: kv_swapped_def)
    qed
  qed
  then show "kv_inv kv'" and "kv_same kv kv'"
    and "ok \<longleftrightarrow> sequences kv sid \<noteq> None \<and> kv_swapped kv sid \<le> length (free_list (allocator kv))"
    and "ok \<Longrightarrow> kv_swapped kv' sid = 0" and "\<not> ok \<Longrightarrow> kv' = kv"
    and "ok \<Longrightarrow> length (free_list (allocator kv')) + kv_swapped kv sid = length (free_list (allocator kv))"
    and "other \<noteq> sid \<Longrightarrow> kv_swapped kv' other = kv_swapped kv other"
    and "swap_room (allocator kv) n \<Longrightarrow> swap_room (allocator kv') n"
    by blast+
qed

section \<open>Copy on write\<close>

lemma tables_step_at:
  assumes j: "j < length ts"
    and step: "\<And>R' S'. tables_refs ts = R' + table_refs (ts ! j) \<Longrightarrow>
      tables_slots ts = S' + table_slots (ts ! j) \<Longrightarrow> table_step (R + R') (S + S') al (ts ! j) al' t'"
  shows "tables_step R S al ts al' (ts[j := t'])"
proof -
  let ?R = "sum_list (map table_refs (take j ts @ drop (Suc j) ts))"
  let ?S = "sum_list (map table_slots (take j ts @ drop (Suc j) ts))"
  have refs: "tables_refs ts = ?R + table_refs (ts ! j)" "tables_refs (ts[j := t']) = ?R + table_refs t'"
    and slots: "tables_slots ts = ?S + table_slots (ts ! j)"
      "tables_slots (ts[j := t']) = ?S + table_slots t'"
    using j by (simp_all add: tables_refs_def tables_slots_def sum_list_split_at [OF j]
        sum_list_update_at [OF j])
  have one: "table_step (R + ?R) (S + ?S) al (ts ! j) al' t'" using refs(1) slots(1) by (rule step)
  then have keep: "keeps (R + ?R) (S + ?S) al al'" by (simp add: table_step_def)
  have "table_view al' (ts[j := t'] ! i) = table_view al (ts ! i)" if "i < length ts" for i
  proof (cases "i = j")
    case True
    then show ?thesis using one j by (simp add: table_step_def)
  next
    case False
    have "table_refs (ts ! i) \<subseteq># R + ?R" "table_slots (ts ! i) \<subseteq># S + ?S"
      using member_sum_list_mset [OF other_position [OF that False]]
      by (auto intro: subset_mset.order_trans [OF _ mset_subset_eq_add_right])
    then show ?thesis using False keeps_table [OF keep] by simp
  qed
  then have "tables_view al' (ts[j := t']) = tables_view al ts"
    by (auto simp: tables_view_def intro: nth_equalityI)
  moreover have "map table_descr (ts[j := t']) = map table_descr ts"
    using one j by (simp add: table_step_def map_update list_update_same_conv)
  moreover have "keeps R S al al'" using keep by (rule keeps_mono) simp_all
  ultimately show ?thesis
    using one refs slots by (simp add: table_step_def tables_step_def ac_simps)
qed

lemma entry_mark [simp]:
  "entry_refs (e\<lparr>writable := w\<rparr>) = entry_refs e" "entry_slots (e\<lparr>writable := w\<rparr>) = entry_slots e"
  by (simp_all add: entry_refs_def entry_slots_def)

lemma mark_writable_step:
  assumes "owns al (R + table_refs t) (S + table_slots t)" and i: "i < length (entries t)"
  shows "table_step R S al t al (bt_update_at t i (\<lambda>e. e\<lparr>writable := True\<rparr>))"
  using i
proof (rule table_step_at)
  fix T U
  assume "table_refs t = T + entry_refs (entries t ! i)" "table_slots t = U + entry_slots (entries t ! i)"
  then show "owns al (R + T + entry_refs ((entries t ! i)\<lparr>writable := True\<rparr>))
      (S + U + entry_slots ((entries t ! i)\<lparr>writable := True\<rparr>)) \<and> keeps (R + T) (S + U) al al
      \<and> fresh_refs (R + T + entry_refs (entries t ! i)) (R + T + entry_refs ((entries t ! i)\<lparr>writable := True\<rparr>))"
    using assms(1) by (simp add: ac_simps)
qed (simp_all add: entry_content_def split: option.split)

lemma copy_on_write_step:
  assumes own: "owns al (R + table_refs t) (S + table_slots t)" and i: "i < length (entries t)"
    and res: "swap_slot (entries t ! i) = None" and alloc: "allocate al = (Some c, al1)"
  defines "p \<equiv> physical_id (entries t ! i)"
  defines "al' \<equiv> release (copy_block al1 p c) p"
  defines "t' \<equiv> bt_update_at t i (\<lambda>e. e\<lparr>physical_id := c, writable := True\<rparr>)"
  shows "table_step R S al t al' t'" and "ref_of al' c = 1"
    and "swap_room al n \<Longrightarrow> swap_room al' n"
proof -
  let ?e = "entries t ! i"
  let ?T = "sum_list (map entry_refs (take i (entries t) @ drop (Suc i) (entries t)))"
  let ?U = "sum_list (map entry_slots (take i (entries t) @ drop (Suc i) (entries t)))"
  let ?F = "add_mset p (R + ?T)"
  note split = sum_list_split_at [OF i, of entry_refs, folded table_refs_def]
    sum_list_split_at [OF i, of entry_slots, folded table_slots_def]
  have own0: "owns al ?F (S + ?U)" using own split res by (simp add: entry_resident p_def)
  note a = owns_allocate [OF own0 alloc]
  have own1: "owns al1 (add_mset c ?F) (S + ?U)" using a(1) .
  note cp = owns_copy [OF own1 _ a(3), of p]
  have own2: "owns (copy_block al1 p c) (add_mset p (add_mset c (R + ?T))) (S + ?U)"
    using cp(1) by (simp add: add_mset_commute)
  note rel = owns_release [OF own2, folded al'_def]
  have keep: "keeps (R + ?T) (S + ?U) al al'"
    using keeps_trans [OF keeps_mono [OF a(2)] keeps_trans [OF keeps_mono [OF cp(2)] keeps_mono [OF rel(2)]]]
    by simp
  have content: "frame_of al' c = frame_of al p" using rel(3) cp(3) a(5) by simp
  show "table_step R S al t al' t'"
    unfolding t'_def using i
  proof (rule table_step_at)
    show "entry_content al' (?e\<lparr>physical_id := c, writable := True\<rparr>) = entry_content al ?e"
      using content res by (simp add: entry_content_def p_def)
    fix T U assume "table_refs t = T + entry_refs ?e" "table_slots t = U + entry_slots ?e"
    then have "T = ?T" "U = ?U" using split by simp_all
    then show "owns al' (R + T + entry_refs (?e\<lparr>physical_id := c, writable := True\<rparr>))
        (S + U + entry_slots (?e\<lparr>physical_id := c, writable := True\<rparr>)) \<and> keeps (R + T) (S + U) al al'
        \<and> fresh_refs (R + T + entry_refs ?e) (R + T + entry_refs (?e\<lparr>physical_id := c, writable := True\<rparr>))"
      using rel(1) keep res fresh_refs_replace [OF a(3)] by (simp add: entry_refs_def entry_slots_def p_def)
  qed simp
  have "c \<notin># R + ?T" using a(3) unfolding set_mset_add_mset_insert by blast
  then have "count (R + ?T) c = 0" unfolding not_in_iff .
  then show "ref_of al' c = 1" using owns_ref_of [OF rel(1), of c] by simp
  show "swap_room al' n" if "swap_room al n" using that a(7) cp(4) rel(4) by simp
qed

text \<open>Which block a write goes to, and when it can be prepared.\<close>

definition write_target :: "KVCacheManager \<Rightarrow> SequenceId \<Rightarrow> TokenPosition \<Rightarrow> u32 \<Rightarrow> BlockTableEntry option" where
  "write_target kv sid pos layer =
     (case sequences kv sid of
        None \<Rightarrow> None
      | Some st \<Rightarrow>
          if unat layer < length (tables st) \<and> kv_tokens_per_block kv \<noteq> 0
             \<and> unat (pos div kv_tokens_per_block kv) < length (entries (tables st ! unat layer))
          then Some (entries (tables st ! unat layer) ! unat (pos div kv_tokens_per_block kv))
          else None)"

definition can_write :: "KVCacheManager \<Rightarrow> SequenceId \<Rightarrow> TokenPosition \<Rightarrow> u32 \<Rightarrow> bool" where
  "can_write kv sid pos layer =
     (case write_target kv sid pos layer of
        None \<Rightarrow> False
      | Some e \<Rightarrow> swap_slot e = None
          \<and> (ref_of (allocator kv) (physical_id e) \<le> 1 \<or> free_list (allocator kv) \<noteq> []))"

lemma al_info_ref:
  "unat p < capacity al \<Longrightarrow> al_info al p = Some (infos al ! unat p)
     \<and> (ref_count (infos al ! unat p) \<le> 1 \<longleftrightarrow> ref_of al p \<le> 1)"
  by (auto simp: al_info_def capacity_def ref_of_def word_le_nat_alt)

lemma block_ref_mem:
  assumes "j < length ts" and "i < length (entries (ts ! j))"
    and "swap_slot (entries (ts ! j) ! i) = None"
  shows "physical_id (entries (ts ! j) ! i) \<in># tables_refs ts"
proof -
  have "entry_refs (entries (ts ! j) ! i) \<subseteq># table_refs (ts ! j)"
    using member_sum_list_mset [OF nth_mem [OF assms(2)], of entry_refs] by (simp add: table_refs_def)
  moreover have "table_refs (ts ! j) \<subseteq># tables_refs ts"
    using member_sum_list_mset [OF nth_mem [OF assms(1)], of table_refs] by (simp add: tables_refs_def)
  ultimately show ?thesis using assms(3) by (auto simp: entry_resident dest: mset_subset_eqD)
qed

lemma ensure_unfold:
  fixes pos :: TokenPosition and layer :: u32
  assumes inv: "kv_inv kv" and st: "sequences kv sid = Some st"
  defines "t \<equiv> tables st ! unat layer" and "i \<equiv> unat (pos div kv_tokens_per_block kv)"
  defines "put \<equiv> \<lambda>al t'. with_tables kv sid st al ((tables st)[unat layer := t'])"
  shows "ensure_token_writable kv sid pos kind layer =
    (case write_target kv sid pos layer of
       None \<Rightarrow> (None, kv)
     | Some e \<Rightarrow>
         if swap_slot e \<noteq> None then (None, kv)
         else if ref_of (allocator kv) (physical_id e) \<le> 1
         then (Some (physical_id e), put (allocator kv) (bt_update_at t i (\<lambda>e. e\<lparr>writable := True\<rparr>)))
         else case allocate (allocator kv) of
           (None, al) \<Rightarrow> (None, kv\<lparr>allocator := al\<rparr>)
         | (Some c, al) \<Rightarrow>
             (Some c, put (release (copy_block al (physical_id e) c) (physical_id e))
                (bt_update_at t i (\<lambda>e. e\<lparr>physical_id := c, writable := True\<rparr>))))"
proof (cases "unat layer < length (tables st) \<and> entries t \<noteq> []")
  case False
  then show ?thesis
    using st by (auto simp: ensure_token_writable_def write_target_def t_def bt_empty_def)
next
  case True
  have ok: "table_ok (kv_tokens_per_block kv) t"
    using kv_inv_tables [OF inv st] True by (simp add: tables_ok_def list_all_length t_def)
  then have cont: "bt_contiguous t" and tpb: "lb_token_count (logical (hd (entries t))) = kv_tokens_per_block kv"
    using True by (auto simp: table_ok_def list_all_iff)
  show ?thesis
  proof (cases "kv_tokens_per_block kv \<noteq> 0 \<and> i < length (entries t) \<and> swap_slot (entries t ! i) = None")
    case False
    then show ?thesis
      using st True tpb bt_contiguous_mutable_entry [OF cont]
      by (auto simp: ensure_token_writable_def write_target_def t_def i_def bt_empty_def Let_def)
  next
    case inner: True
    let ?e = "entries t ! i"
    have target: "write_target kv sid pos layer = Some ?e"
      using st True inner by (simp add: write_target_def t_def i_def)
    have "physical_id ?e \<in># tables_refs (tables st)"
      using block_ref_mem True inner unfolding t_def by blast
    then have "unat (physical_id ?e) < capacity (allocator kv)"
      using owns_valid [OF kv_owns_split [OF inv st]] by simp
    note info = al_info_ref [OF this]
    have find: "mutable_entry t (pos div kv_tokens_per_block kv) = Some i"
      using inner bt_contiguous_mutable_entry [OF cont] by (simp add: i_def)
    show ?thesis
      using st True inner tpb find info
      by (auto simp: ensure_token_writable_def target t_def [symmetric] bt_empty_def Let_def
          put_def with_tables_def split: option.splits prod.splits)
  qed
qed

text \<open>Replacing one table of one sequence.\<close>

lemma with_table_at:
  assumes inv: "kv_inv kv" and st: "sequences kv sid = Some st" and j: "j < length (tables st)"
    and step: "\<And>R S. owns (allocator kv) (R + table_refs (tables st ! j)) (S + table_slots (tables st ! j)) \<Longrightarrow>
      table_step R S (allocator kv) (tables st ! j) al t'"
  shows "kv_inv (with_tables kv sid st al ((tables st)[j := t']))"
    and "kv_same kv (with_tables kv sid st al ((tables st)[j := t']))"
proof -
  have "tables_step (rest_refs kv sid) (rest_slots kv sid) (allocator kv) (tables st) al ((tables st)[j := t'])"
    using j
  proof (rule tables_step_at)
    fix R' S'
    assume "tables_refs (tables st) = R' + table_refs (tables st ! j)"
      "tables_slots (tables st) = S' + table_slots (tables st ! j)"
    then show "table_step (rest_refs kv sid + R') (rest_slots kv sid + S') (allocator kv)
        (tables st ! j) al t'"
      using kv_owns_split [OF inv st] by (intro step) (simp add: ac_simps)
  qed
  from tables_step_kv [OF inv st this]
  show "kv_inv (with_tables kv sid st al ((tables st)[j := t']))"
    and "kv_same kv (with_tables kv sid st al ((tables st)[j := t']))" by simp_all
qed

lemma kv_same_tpb:
  assumes "kv_inv kv" and "kv_inv kv'" and "kv_same kv kv'"
  shows "kv_tokens_per_block kv' = kv_tokens_per_block kv" and "table_count kv' = table_count kv"
  using shape_cong [of kv kv'] assms kv_inv_owns owns_inv by (auto simp: kv_same_def)

text \<open>What a successful preparation for writing leaves behind.\<close>

definition write_ready :: "KVCacheManager \<Rightarrow> SequenceId \<Rightarrow> TokenPosition \<Rightarrow> u32 \<Rightarrow> PhysicalBlockId \<Rightarrow> bool" where
  "write_ready kv sid pos layer p \<longleftrightarrow>
     (\<exists>e. write_target kv sid pos layer = Some e \<and> physical_id e = p \<and> writable e
        \<and> swap_slot e = None) \<and> ref_of (allocator kv) p = 1"

lemma write_target_update:
  assumes "write_target kv sid pos layer = Some e" and st: "sequences kv sid = Some st"
    and tpb: "kv_tokens_per_block (with_tables kv sid st al ((tables st)[unat layer := bt_update_at
          (tables st ! unat layer) (unat (pos div kv_tokens_per_block kv)) f])) = kv_tokens_per_block kv"
  shows "write_target (with_tables kv sid st al ((tables st)[unat layer := bt_update_at
          (tables st ! unat layer) (unat (pos div kv_tokens_per_block kv)) f])) sid pos layer = Some (f e)"
  using assms by (auto simp: write_target_def tpb bt_update_at_def split: if_splits)

lemma ensure_token_writable_step:
  assumes inv: "kv_inv kv" and run: "ensure_token_writable kv sid pos kind layer = (r, kv')"
  shows "kv_inv kv' \<and> kv_same kv kv' \<and> (r \<noteq> None \<longleftrightarrow> can_write kv sid pos layer)
    \<and> (r = None \<longrightarrow> kv' = kv) \<and> (\<forall>p. r = Some p \<longrightarrow> write_ready kv' sid pos layer p)"
proof (cases "sequences kv sid")
  case None
  then show ?thesis
    using inv run by (auto simp: ensure_token_writable_def can_write_def write_target_def)
next
  case (Some st)
  let ?al = "allocator kv" and ?j = "unat layer" and ?i = "unat (pos div kv_tokens_per_block kv)"
  let ?t = "tables st ! ?j"
  note eq = ensure_unfold [OF inv Some, of pos kind layer, unfolded run]
  show ?thesis
  proof (cases "write_target kv sid pos layer")
    case None
    then show ?thesis using eq inv by (simp add: can_write_def)
  next
    case target: (Some e)
    have j: "?j < length (tables st)" and i: "?i < length (entries ?t)" and e: "e = entries ?t ! ?i"
      using target Some by (auto simp: write_target_def split: if_splits)
    consider (out) "swap_slot e \<noteq> None"
      | (own) "swap_slot e = None" "ref_of ?al (physical_id e) \<le> 1"
      | (full) "swap_slot e = None" "\<not> ref_of ?al (physical_id e) \<le> 1" "free_list ?al = []"
      | (copy) c al1 where "swap_slot e = None" "\<not> ref_of ?al (physical_id e) \<le> 1"
          "allocate ?al = (Some c, al1)" "free_list ?al \<noteq> []"
      using owns_allocate_succeeds [OF kv_inv_owns [OF inv]] by auto
    then show ?thesis
    proof cases
      case out
      then show ?thesis using eq inv target by (simp add: can_write_def)
    next
      case own
      let ?t' = "bt_update_at ?t ?i (\<lambda>e. e\<lparr>writable := True\<rparr>)"
      let ?kv = "with_tables kv sid st ?al ((tables st)[?j := ?t'])"
      have kv': "kv' = ?kv" and r: "r = Some (physical_id e)" using eq target own by simp_all
      have res: "kv_inv ?kv" "kv_same kv ?kv"
        using with_table_at [OF inv Some j] mark_writable_step [OF _ i] by blast+
      have ref: "ref_of ?al (physical_id e) = 1"
      proof -
        have "owns ?al (rest_refs kv sid + tables_refs (tables st)) (rest_slots kv sid + tables_slots (tables st))"
          by (rule kv_owns_split [OF inv Some])
        moreover have "physical_id e \<in># tables_refs (tables st)"
          using block_ref_mem [OF j i] own(1) e by simp
        ultimately have "0 < ref_of ?al (physical_id e)" by (simp add: owns_ref_of)
        then show ?thesis using own(2) by simp
      qed
      have "write_target ?kv sid pos layer = Some (e\<lparr>writable := True\<rparr>)"
        using write_target_update [OF target Some] kv_same_tpb(1) [OF inv res] by simp
      then show ?thesis
        using res kv' r own target ref by (simp add: can_write_def write_ready_def)
    next
      case full
      then have "r = None" "kv' = kv" using eq target by (simp_all add: allocate_def)
      then show ?thesis using inv target full by (simp add: can_write_def)
    next
      case copy
      let ?al' = "release (copy_block al1 (physical_id e) c) (physical_id e)"
      let ?t' = "bt_update_at ?t ?i (\<lambda>e. e\<lparr>physical_id := c, writable := True\<rparr>)"
      let ?kv = "with_tables kv sid st ?al' ((tables st)[?j := ?t'])"
      have kv': "kv' = ?kv" and r: "r = Some c" using eq target copy by simp_all
      have slot: "swap_slot (entries ?t ! ?i) = None" using copy(1) e by simp
      note step = copy_on_write_step [OF _ i slot copy(3), folded e]
      have res: "kv_inv ?kv" "kv_same kv ?kv"
        using with_table_at [OF inv Some j] step(1) by blast+
      have ref: "ref_of ?al' c = 1"
        using kv_owns_split [OF inv Some, unfolded add.assoc [symmetric]
            sum_list_split_at [OF j, of table_refs, folded tables_refs_def]
            sum_list_split_at [OF j, of table_slots, folded tables_slots_def]] by (rule step(2))
      have "write_target ?kv sid pos layer = Some (e\<lparr>physical_id := c, writable := True\<rparr>)"
        using write_target_update [OF target Some] kv_same_tpb(1) [OF inv res] by simp
      then show ?thesis
        using res kv' r copy target ref by (simp add: can_write_def write_ready_def)
    qed
  qed
qed

section \<open>Whole requests\<close>

lemma swap_out_sequences_step:
  assumes "kv_inv kv" and "swap_room (allocator kv) (sum_list (map (seq_blocks kv) sids) + n)"
    and "swap_out_sequences sids kv c = (c', kv')"
  shows "kv_inv kv' \<and> kv_same kv kv' \<and> swap_room (allocator kv') n
    \<and> (\<forall>other. other \<notin> set sids \<longrightarrow> kv_swapped kv' other = kv_swapped kv other)"
  using assms
proof (induction sids arbitrary: kv c)
  case Nil
  then show ?case by simp
next
  case (Cons sid sids)
  obtain k kv1 where one: "swap_out_sequence kv sid = (k, kv1)" by fastforce
  have room: "swap_room (allocator kv) (seq_blocks kv sid + (sum_list (map (seq_blocks kv) sids) + n))"
    using Cons.prems(2) by (simp add: ac_simps)
  note step = swap_out_sequence_step [OF Cons.prems(1) room one]
  have "seq_blocks kv1 = seq_blocks kv" using step(2) by (simp add: kv_same_def)
  then have "kv_inv kv' \<and> kv_same kv1 kv' \<and> swap_room (allocator kv') n
      \<and> (\<forall>other. other \<notin> set sids \<longrightarrow> kv_swapped kv' other = kv_swapped kv1 other)"
    using Cons.IH [of kv1 "c + k"] step(1,3) Cons.prems(3) one by simp
  then show ?case using step(2,6) kv_same_trans by auto
qed

lemma swapped_needed_eq: "swapped_needed kv sids = of_nat (sum_list (map (kv_swapped kv) sids))"
  by (induction sids)
    (simp_all add: swapped_needed_def kv_swapped_def swapped_count_eq split: option.split)

lemma swap_in_sequences_step:
  assumes "kv_inv kv" and "distinct sids" and "set sids \<subseteq> dom (sequences kv)"
    and "sum_list (map (kv_swapped kv) sids) \<le> length (free_list (allocator kv))"
    and "sum_list (map (kv_swapped kv) sids) < 4294967296"
    and "swap_in_sequences sids kv = (ok, kv')"
  shows "ok \<and> kv_inv kv' \<and> kv_same kv kv' \<and> (\<forall>sid\<in>set sids. kv_swapped kv' sid = 0)
    \<and> (\<forall>other. other \<notin> set sids \<longrightarrow> kv_swapped kv' other = kv_swapped kv other)
    \<and> (\<forall>n. swap_room (allocator kv) n \<longrightarrow> swap_room (allocator kv') n)"
  using assms
proof (induction sids arbitrary: kv)
  case Nil
  then show ?case by simp
next
  case (Cons sid sids)
  obtain ok1 kv1 where one: "swap_in_sequence kv sid = (ok1, kv1)" by fastforce
  have few: "kv_swapped kv sid < 4294967296" using Cons.prems(5) by simp
  note step = swap_in_sequence_step [OF Cons.prems(1) few one]
  have ok1: ok1 using step(3) Cons.prems(3,4) by auto
  have others: "map (kv_swapped kv1) sids = map (kv_swapped kv) sids"
    using step(7) Cons.prems(2) by (intro map_cong) (auto, metis)
  have free: "length (free_list (allocator kv1)) + kv_swapped kv sid = length (free_list (allocator kv))"
    using step(6) [OF ok1] .
  have sub: "set sids \<subseteq> dom (sequences kv1)" using step(2) Cons.prems(3) by (auto simp: kv_same_def)
  have run: "swap_in_sequences sids kv1 = (ok, kv')" using Cons.prems(6) one ok1 by simp
  have rest: "ok \<and> kv_inv kv' \<and> kv_same kv1 kv' \<and> (\<forall>sid\<in>set sids. kv_swapped kv' sid = 0)
    \<and> (\<forall>other. other \<notin> set sids \<longrightarrow> kv_swapped kv' other = kv_swapped kv1 other)
    \<and> (\<forall>n. swap_room (allocator kv1) n \<longrightarrow> swap_room (allocator kv') n)"
    using Cons.IH [OF step(1) _ sub _ _ run] Cons.prems(2,4,5) free others by simp
  have zero: "kv_swapped kv' sid = 0" using rest step(4) [OF ok1] Cons.prems(2) by simp
  have "kv_same kv kv'" using kv_same_trans [OF step(2)] rest by blast
  then show ?case using rest zero step(7,8) by simp
qed

lemma sequences_for_dom:
  "kv_inv kv \<Longrightarrow> distinct (sequences_for kv rid) \<and> set (sequences_for kv rid) \<subseteq> dom (sequences kv)"
  by (auto simp: kv_inv_def index_ok_def request_of_def domIff)

text \<open>Resuming a request is all or nothing.\<close>

lemma swap_in_request_step:
  assumes inv: "kv_inv kv"
    and few: "sum_list (map (kv_swapped kv) (sequences_for kv rid)) < 4294967296"
    and run: "swap_in_request kv rid = (ok, kv')"
  shows "kv_inv kv'" and "kv_same kv kv'"
    and "ok \<longleftrightarrow> sum_list (map (kv_swapped kv) (sequences_for kv rid)) \<le> length (free_list (allocator kv))"
    and "\<not> ok \<Longrightarrow> kv' = kv"
    and "ok \<Longrightarrow> sid \<in> set (sequences_for kv rid) \<Longrightarrow> kv_swapped kv' sid = 0"
    and "sid \<notin> set (sequences_for kv rid) \<Longrightarrow> kv_swapped kv' sid = kv_swapped kv sid"
    and "swap_room (allocator kv) n \<Longrightarrow> swap_room (allocator kv') n"
proof -
  let ?sids = "sequences_for kv rid" and ?need = "sum_list (map (kv_swapped kv) (sequences_for kv rid))"
  have needed: "unat (swapped_needed kv ?sids) = ?need" using few by (simp add: swapped_needed_eq)
  have "kv_inv kv' \<and> kv_same kv kv' \<and> (ok \<longleftrightarrow> ?need \<le> length (free_list (allocator kv)))
    \<and> (\<not> ok \<longrightarrow> kv' = kv) \<and> (ok \<longrightarrow> (\<forall>sid\<in>set ?sids. kv_swapped kv' sid = 0))
    \<and> (\<forall>sid. sid \<notin> set ?sids \<longrightarrow> kv_swapped kv' sid = kv_swapped kv sid)
    \<and> (\<forall>n. swap_room (allocator kv) n \<longrightarrow> swap_room (allocator kv') n)"
  proof (cases "?need \<le> length (free_list (allocator kv))")
    case True
    then have "swap_in_sequences ?sids kv = (ok, kv')"
      using run needed by (auto simp: swap_in_request_def can_allocate_def Let_def)
    from swap_in_sequences_step [OF inv _ _ True few this] sequences_for_dom [OF inv]
    show ?thesis using True by blast
  next
    case False
    then have "0 < unat (swapped_needed kv ?sids)" using needed by simp
    then have "swapped_needed kv ?sids > 0" using word_less_nat_alt by fastforce
    then have "(ok, kv') = (False, kv)"
      using run needed False by (auto simp: swap_in_request_def can_allocate_def Let_def)
    then show ?thesis using False inv by simp
  qed
  then show "kv_inv kv'" and "kv_same kv kv'"
    and "ok \<longleftrightarrow> ?need \<le> length (free_list (allocator kv))" and "\<not> ok \<Longrightarrow> kv' = kv"
    and "ok \<Longrightarrow> sid \<in> set ?sids \<Longrightarrow> kv_swapped kv' sid = 0"
    and "sid \<notin> set ?sids \<Longrightarrow> kv_swapped kv' sid = kv_swapped kv sid"
    and "swap_room (allocator kv) n \<Longrightarrow> swap_room (allocator kv') n" by simp_all
qed

end
