(* ===== verification/KVLifecycle.thy ===== *)
theory KVLifecycle
  imports KVTransparency
begin

text \<open>
  The operations that create, extend and destroy sequences: \<^verbatim>\<open>create_sequence\<close>,
  \<^verbatim>\<open>fork_sequence\<close>, \<^verbatim>\<open>reserve_tokens\<close>, \<^verbatim>\<open>release_sequence\<close> and \<^verbatim>\<open>release_request\<close>.
\<close>

lemma tables_view_cong:
  assumes "frame_of al' = frame_of al" and "swapped al' = swapped al"
  shows "tables_view al' = tables_view al"
proof -
  have "entry_content al' = entry_content al"
    using assms by (simp add: entry_content_def fun_eq_iff split: option.split)
  then show ?thesis by (simp add: tables_view_def table_view_def fun_eq_iff)
qed

section \<open>The empty manager\<close>

lemma KVCacheManager_new_inv:
  assumes "alloc_inv al" and "alloc_refs al = {#}" and "slots_of al = {#}"
  shows "kv_inv (KVCacheManager_new al)"
  using assms
  by (simp add: kv_inv_def KVCacheManager_new_def owns_def kv_refs_def kv_slots_def index_ok_def
      prefix_ok_def sequences_for_def request_of_def)

section \<open>Adding a sequence\<close>

definition add_sequence ::
    "KVCacheManager \<Rightarrow> MemoryAllocator \<Rightarrow> SequenceId \<Rightarrow> SequenceState \<Rightarrow> KVCacheManager" where
  "add_sequence kv al sid st =
     index_sequence (kv\<lparr>allocator := al, sequences := (sequences kv)(sid \<mapsto> st)\<rparr>)
       (sm_request_id (metadata st)) sid"

lemma add_sequence_simps [simp]:
  "allocator (add_sequence kv al sid st) = al"
  "sequences (add_sequence kv al sid st) = (sequences kv)(sid \<mapsto> st)"
  "prefix_index (add_sequence kv al sid st) = prefix_index kv"
  "sequences_for (add_sequence kv al sid st) rid =
     (if rid = sm_request_id (metadata st) then sequences_for kv rid @ [sid] else sequences_for kv rid)"
  "sequences_by_request (add_sequence kv al sid st) rid \<noteq> Some [] \<longleftrightarrow>
     rid = sm_request_id (metadata st) \<or> sequences_by_request kv rid \<noteq> Some []"
  by (simp_all add: add_sequence_def index_sequence_def sequences_for_def)

lemma index_add:
  assumes "index_ok kv" and "sequences kv sid = None"
  shows "index_ok (add_sequence kv al sid st)"
proof -
  have fresh: "sid \<notin> set (sequences_for kv rid)" for rid
    using assms by (simp add: index_ok_def request_of_def)
  have "request_of (sequences (add_sequence kv al sid st)) other =
      (if other = sid then Some (sm_request_id (metadata st)) else request_of (sequences kv) other)"
    for other by (simp add: request_of_def)
  then show ?thesis using assms(1) fresh by (auto simp: index_ok_def)
qed

lemma prefix_users_plain:
  assumes "map_option prefix_key (m sid) \<in> {None, Some []}"
    and "map_option prefix_key v \<in> {None, Some []}" and "key \<noteq> []"
  shows "prefix_users (m(sid := v)) key h = prefix_users m key h"
proof -
  have "(\<exists>st. (m(sid := v)) other = Some st \<and> prefix_key st = key \<and> prefix_hash st = h)
      = (\<exists>st. m other = Some st \<and> prefix_key st = key \<and> prefix_hash st = h)" for other
    using assms by (cases "other = sid") auto
  then show ?thesis by (simp add: prefix_users_def)
qed

lemma prefix_ok_plain:
  assumes ok: "prefix_ok kv" and old: "map_option prefix_key (sequences kv sid) \<in> {None, Some []}"
    and new: "map_option prefix_key v \<in> {None, Some []}"
    and kv': "sequences kv' = (sequences kv)(sid := v)" "prefix_index kv' = prefix_index kv"
    and shape: "table_count kv' = table_count kv" "kv_tokens_per_block kv' = kv_tokens_per_block kv"
  shows "prefix_ok kv'"
proof -
  have "record_ok kv' key r = record_ok kv key r" if "key \<noteq> []" for key r
    using prefix_users_plain [of "sequences kv" sid v key, OF old new that] by (simp add: record_ok_def kv' shape)
  then have "list_all (record_ok kv' key) recs = list_all (record_ok kv key) recs" if "key \<noteq> []"
    for key recs using that by (simp add: list_all_iff)
  moreover have "\<not> bt_empty (text_table st)
      \<and> (\<exists>recs. prefix_index kv (prefix_key st) = Some recs \<and> prefix_hash st \<in> content_hash ` set recs)"
    if "sequences kv' other = Some st" "prefix_key st \<noteq> []" for other st
    using that ok new unfolding prefix_ok_def kv' by (cases "other = sid") (auto simp: fun_upd_def)
  ultimately show ?thesis using ok unfolding prefix_ok_def kv' by simp
qed

lemma kv_refs_insert:
  assumes "finite (dom (sequences kv))" and "sequences kv sid = None"
  shows "kv_refs (add_sequence kv al sid st) = kv_refs kv + tables_refs (tables st)"
    and "kv_slots (add_sequence kv al sid st) = kv_slots kv + tables_slots (tables st)"
  using map_total_insert [OF assms, of seq_refs st] map_total_insert [OF assms, of seq_slots st]
  by (simp_all add: kv_refs_def kv_slots_def seq_refs_def seq_slots_def)

lemma add_sequence_inv:
  assumes inv: "kv_inv kv" and new: "sequences kv sid = None"
    and own: "owns al (kv_refs kv + tables_refs (tables st)) (kv_slots kv + tables_slots (tables st))"
    and cfg: "config al = config (allocator kv)" and st: "sm_sequence_id (metadata st) = sid"
      "prefix_key st = []" "tables_ok kv (tables st)" "no_dup (tables_refs (tables st))"
  shows "kv_inv (add_sequence kv al sid st)"
proof -
  let ?kv = "add_sequence kv al sid st"
  have "alloc_inv (allocator kv)" "alloc_inv al"
    using kv_inv_owns [OF inv] own by (simp_all add: owns_def)
  then have shape: "table_count ?kv = table_count kv" "kv_tokens_per_block ?kv = kv_tokens_per_block kv"
    using shape_cong [of kv ?kv] cfg by simp_all
  note parts = kv_inv_parts [OF inv]
  show ?thesis
  proof (rule kv_invI)
    show "owns (allocator ?kv) (kv_refs ?kv) (kv_slots ?kv)"
      using own by (simp add: kv_refs_insert [OF parts(1) new])
    show "index_ok ?kv" using parts(3) new by (rule index_add)
    show "prefix_ok ?kv"
      by (rule prefix_ok_plain [of kv sid "Some st"]) (use parts(4) new st(2) shape in simp_all)
    fix other u assume "sequences ?kv other = Some u"
    then show "sm_sequence_id (metadata u) = other \<and> tables_ok ?kv (tables u) \<and> no_dup (tables_refs (tables u))"
      using parts(6) [of other u] st kv_inv_tables [OF inv, of other u] kv_inv_no_dup [OF inv, of other u]
      unfolding tables_ok_cong [OF shape] by (cases "other = sid") auto
  qed (use parts in simp_all)
qed

text \<open>Content of the old sequences when something is added.\<close>

lemma kv_keeps_view:
  assumes inv: "kv_inv kv" and keep: "keeps (kv_refs kv) (kv_slots kv) (allocator kv) (allocator kv')"
    and "sequences kv' other = sequences kv other"
  shows "kv_view kv' other = kv_view kv other"
proof (cases "sequences kv other")
  case None
  then show ?thesis using assms(3) by (simp add: kv_view_def)
next
  case (Some st)
  have fin: "finite (dom (sequences kv))" using inv by (simp add: kv_inv_def)
  have "tables_view (allocator kv') (tables st) = tables_view (allocator kv) (tables st)"
    using keep by (rule keeps_tables) (simp_all add: kv_split [OF fin Some])
  then show ?thesis using Some assms(3) by (simp add: kv_view_def)
qed

lemma kv_keeps_prefix_view:
  assumes inv: "kv_inv kv" and keep: "keeps (kv_refs kv) (kv_slots kv) (allocator kv) (allocator kv')"
    and "prefix_index kv' key = prefix_index kv key"
  shows "prefix_view kv' key = prefix_view kv key"
  using keeps_prefix_view [OF _ keep _ assms(3) refl] inv by (simp add: kv_inv_def kv_refs_def)

lemma tables_ok_new: "tables_ok kv (replicate (unat (table_count kv)) (BlockTable_new sid kind))"
  using table_count_pos [of kv]
  by (simp add: tables_ok_def list_all_iff table_ok_def BlockTable_new_def bt_contiguous_def)

lemma tables_new [simp]:
  "tables_refs (replicate n (BlockTable_new sid kind)) = {#}"
  "tables_slots (replicate n (BlockTable_new sid kind)) = {#}"
  "tables_view al (replicate n (BlockTable_new sid kind)) = replicate n []"
  by (induction n) (simp_all add: table_refs_def table_slots_def table_view_def BlockTable_new_def)

lemma create_sequence_step:
  assumes inv: "kv_inv kv" and run: "create_sequence kv meta = (ok, kv')"
  shows "kv_inv kv'" and "ok \<longleftrightarrow> sequences kv (sm_sequence_id meta) = None" and "\<not> ok \<Longrightarrow> kv' = kv"
    and "ok \<Longrightarrow> kv_view kv' = (kv_view kv)(sm_sequence_id meta \<mapsto> replicate (unat (table_count kv)) [])"
    and "prefix_view kv' = prefix_view kv" and "allocator kv' = allocator kv"
    and "ok \<Longrightarrow> sequences_for kv' (sm_request_id meta) = sequences_for kv (sm_request_id meta) @ [sm_sequence_id meta]"
proof -
  let ?sid = "sm_sequence_id meta"
  let ?st = "\<lparr>metadata = meta, tables = replicate (unat (table_count kv)) (BlockTable_new ?sid TextKV),
    prefix_key = [], prefix_hash = 0\<rparr>"
  let ?kv = "add_sequence kv (allocator kv) ?sid ?st"
  have eq: "create_sequence kv meta = (if sequences kv ?sid \<noteq> None then (False, kv) else (True, ?kv))"
    by (simp add: create_sequence_def add_sequence_def Let_def)
  show ok: "ok \<longleftrightarrow> sequences kv ?sid = None" and "\<not> ok \<Longrightarrow> kv' = kv" and al: "allocator kv' = allocator kv"
    using eq run by (auto split: if_splits)
  show "kv_inv kv'"
    using eq run inv add_sequence_inv [OF inv, of ?sid "allocator kv" ?st] kv_inv_owns [OF inv]
    by (auto simp: tables_ok_new split: if_splits)
  show "prefix_view kv' = prefix_view kv"
    using eq run by (auto simp: prefix_view_def fun_eq_iff split: if_splits)
  show "kv_view kv' = (kv_view kv)(?sid \<mapsto> replicate (unat (table_count kv)) [])" if ok
    using eq run ok that by (auto simp: kv_view_def fun_eq_iff)
  show "sequences_for kv' (sm_request_id meta) = sequences_for kv (sm_request_id meta) @ [?sid]" if ok
    using eq run ok that by auto
qed

section \<open>Forking\<close>

lemma any_swapped: "list_ex has_swapped ts \<Longrightarrow> tables_slots ts \<noteq> {#}"
  by (induction ts) (auto simp: has_swapped_iff)

lemma tables_ok_fork: "tables_ok kv ts \<Longrightarrow> tables_ok kv (map (\<lambda>t. bt_fork t c) ts)"
proof -
  have "length (entries (bt_fork t c)) = length (entries t)" for t by (simp add: bt_fork_def)
  then show "tables_ok kv ts \<Longrightarrow> ?thesis"
    by (cases ts) (auto simp: tables_ok_def list.pred_map comp_def)
qed

lemma fork_sequence_step:
  assumes inv: "kv_inv kv" and run: "fork_sequence kv parent_id meta = (ok, kv')"
    and few: "\<And>parent p. sequences kv parent_id = Some parent \<Longrightarrow>
      count (kv_refs kv) p + count (tables_refs (tables parent)) p < 4294967296"
  shows "kv_inv kv'"
    and "ok \<longleftrightarrow> sequences kv parent_id \<noteq> None \<and> sequences kv (sm_sequence_id meta) = None
           \<and> kv_swapped kv parent_id = 0"
    and "\<not> ok \<Longrightarrow> kv' = kv"
    and "ok \<Longrightarrow> kv_view kv' = (kv_view kv)(sm_sequence_id meta := kv_view kv parent_id)"
    and "prefix_view kv' = prefix_view kv"
    and "ok \<Longrightarrow> free_list (allocator kv') = free_list (allocator kv)"
proof -
  let ?c = "sm_sequence_id meta"
  have "kv_inv kv' \<and> (ok \<longleftrightarrow> sequences kv parent_id \<noteq> None \<and> sequences kv ?c = None
           \<and> kv_swapped kv parent_id = 0) \<and> (\<not> ok \<longrightarrow> kv' = kv)
    \<and> (ok \<longrightarrow> kv_view kv' = (kv_view kv)(?c := kv_view kv parent_id))
    \<and> prefix_view kv' = prefix_view kv
    \<and> (ok \<longrightarrow> free_list (allocator kv') = free_list (allocator kv))"
  proof (cases "sequences kv parent_id")
    case None
    then show ?thesis using inv run by (auto simp: fork_sequence_def)
  next
    case (Some parent)
    show ?thesis
    proof (cases "sequences kv ?c \<noteq> None \<or> list_ex has_swapped (tables parent)")
      case True
      have "kv_swapped kv parent_id \<noteq> 0" if "list_ex has_swapped (tables parent)"
        using that Some any_swapped by (auto simp: kv_swapped_def)
      then show ?thesis
        using True Some inv run by (auto simp: fork_sequence_def Let_def split: if_splits)
    next
      case False
      then have new: "sequences kv ?c = None" and slots: "tables_slots (tables parent) = {#}"
        by (simp_all add: none_swapped)
      let ?al = "foldl retain (allocator kv) (map physical_id (concat (map entries (tables parent))))"
      let ?ts = "map (\<lambda>t. bt_fork t ?c) (tables parent)"
      let ?st = "\<lparr>metadata = meta, tables = ?ts, prefix_key = [], prefix_hash = 0\<rparr>"
      have res: "ok" "kv' = add_sequence kv ?al ?c ?st"
        using run Some False by (auto simp: fork_sequence_def fork_tables_eq add_sequence_def Let_def)
      have fin: "finite (dom (sequences kv))" using inv by (simp add: kv_inv_def)
      note split = kv_split [OF fin Some]
      have "owns (allocator kv) (rest_refs kv parent_id + tables_refs (tables parent)) (kv_slots kv)"
        using kv_owns_split [OF inv Some] split by simp
      note ret = retain_tables_step [OF this slots few [OF Some, unfolded split]]
      have inv': "kv_inv kv'"
        unfolding res using ret(1,2) slots split kv_inv_tables [OF inv Some]
        by (intro add_sequence_inv [OF inv new]) (simp_all add: tables_ok_fork keeps_def kv_inv_no_dup [OF inv Some])
      have "kv_view kv' other = ((kv_view kv)(?c := kv_view kv parent_id)) other" for other
        using Some tables_view_cong [OF ret(4,5)] unfolding res by (simp add: kv_view_def)
      moreover have "prefix_view kv' key = prefix_view kv key" for key
        using ret(4) unfolding res by (simp add: prefix_view_def)
      moreover have "free_list (foldl retain al ps) = free_list al" for al ps
        by (induction ps arbitrary: al) (simp_all add: retain_def)
      ultimately show ?thesis
        using res(1) inv' new Some slots unfolding res(2) by (auto simp: fun_eq_iff kv_swapped_def)
    qed
  qed
  then show "kv_inv kv'"
    and "ok \<longleftrightarrow> sequences kv parent_id \<noteq> None \<and> sequences kv ?c = None \<and> kv_swapped kv parent_id = 0"
    and "\<not> ok \<Longrightarrow> kv' = kv" and "ok \<Longrightarrow> kv_view kv' = (kv_view kv)(?c := kv_view kv parent_id)"
    and "prefix_view kv' = prefix_view kv"
    and "ok \<Longrightarrow> free_list (allocator kv') = free_list (allocator kv)" by blast+
qed

section \<open>Reserving tokens\<close>

text \<open>How many blocks hold the given number of tokens.\<close>

definition blocks_for :: "u32 \<Rightarrow> u32 \<Rightarrow> nat" where
  "blocks_for tpb n = (unat n + unat tpb - 1) div unat tpb"

lemma blocks_for_word:
  assumes "tpb \<noteq> 0" and "unat n + unat tpb \<le> 4294967296"
  shows "unat ((n + tpb - 1) div tpb) = blocks_for tpb n"
proof -
  have pos: "0 < unat tpb" using assms(1) by (simp add: unat_gt_0)
  have "n + tpb - 1 = of_nat (unat n + unat tpb - 1)"
    using pos by (simp add: of_nat_diff)
  moreover have "unat n + unat tpb - 1 < 4294967296" using assms(2) pos by simp
  ultimately have "unat (n + tpb - 1) = unat n + unat tpb - 1" by simp
  then show ?thesis by (simp add: unat_div blocks_for_def)
qed

lemma append_tables_ok:
  assumes ok: "tables_ok kv ts" and len: "length pss = length ts"
    and b: "list_all (\<lambda>ps. length ps = b) pss" and fits: "length (entries (hd ts)) + b < 4294967296"
  shows "tables_ok kv (map2 (append_blocks sid (kv_tokens_per_block kv) w) pss ts)"
proof -
  let ?ts = "map2 (append_blocks sid (kv_tokens_per_block kv) w) pss ts"
  have nth: "?ts ! i = append_blocks sid (kv_tokens_per_block kv) w (pss ! i) (ts ! i)"
    "length (pss ! i) = b" "length (entries (ts ! i)) = length (entries (hd ts))"
    "table_ok (kv_tokens_per_block kv) (ts ! i)" if "i < length ts" for i
    using that len b ok by (simp_all add: tables_ok_def list_all_length)
  have "ts \<noteq> []" using ok by (rule tables_ok_nonempty)
  moreover from this have "?ts \<noteq> []" using len by auto
  ultimately have "0 < length ts" "hd ?ts = ?ts ! 0" by (simp, intro hd_conv_nth)
  then have hd: "length (entries (hd ?ts)) = length (entries (hd ts)) + b" using nth by simp
  show ?thesis
    unfolding tables_ok_def list_all_length hd
    using ok len nth fits by (simp add: append_blocks_ok tables_ok_def)
qed

lemma took_exclusive:
  assumes "took F L al ps al'" and "p \<in> set ps"
  shows "ref_of al' p = 1"
proof -
  have "owns al' (F + mset ps) L" "distinct ps" "p \<notin># F" using assms by (auto simp: took_def)
  then show ?thesis
    using owns_ref_of [of al' "F + mset ps" L p] assms(2)
    by (simp add: not_in_iff distinct_count_atmost_1)
qed

text \<open>Appending blocks to every table of one sequence.\<close>

lemma append_kv:
  fixes w :: bool
  assumes inv: "kv_inv kv" and st: "sequences kv sid = Some st"
    and own: "owns al (kv_refs kv + mset (concat pss)) (kv_slots kv)"
    and keep: "keeps (kv_refs kv) (kv_slots kv) (allocator kv) al"
    and len: "length pss = length (tables st)" and b: "list_all (\<lambda>ps. length ps = b) pss"
    and fits: "length (entries (hd (tables st))) + b < 4294967296"
    and dup: "no_dup (tables_refs (tables st) + mset (concat pss))"
  defines "kv' \<equiv> with_tables kv sid st al
      (map2 (append_blocks sid (kv_tokens_per_block kv) w) pss (tables st))"
  shows "kv_inv kv'" and "other \<noteq> sid \<Longrightarrow> kv_view kv' other = kv_view kv other"
    and "prefix_view kv' = prefix_view kv"
    and "kv_view kv' sid = Some (map2 (\<lambda>v ps. v @ map (Some \<circ> frame_of al) ps)
           (tables_view (allocator kv) (tables st)) pss)"
proof -
  note parts = kv_inv_parts [OF inv] and split = kv_split [OF kv_inv_parts(1) [OF inv] st]
  note app = append_tables_simps [OF len, where w = w and sid = sid and tpb = "kv_tokens_per_block kv"]
  show "kv_inv kv'"
    unfolding kv'_def
  proof (rule with_tables_inv [OF inv st])
    show "config al = config (allocator kv)" using keep by (simp add: keeps_def)
    show "tables_ok kv (map2 (append_blocks sid (kv_tokens_per_block kv) w) pss (tables st))"
      using kv_inv_tables [OF inv st] len b fits by (rule append_tables_ok)
    show "\<not> bt_empty (hd (map2 (append_blocks sid (kv_tokens_per_block kv) w) pss (tables st)))"
      if "\<not> bt_empty (hd (tables st))"
      using that len tables_ok_nonempty [OF kv_inv_tables [OF inv st]]
      by (cases "tables st"; cases pss) (auto simp: bt_empty_def append_blocks_def)
  qed (use own split app dup in \<open>simp_all add: ac_simps\<close>)
  show "kv_view kv' other = kv_view kv other" if "other \<noteq> sid"
    using that keep by (intro kv_keeps_view [OF inv]) (simp_all add: kv'_def)
  show "prefix_view kv' = prefix_view kv"
    using keep by (intro ext kv_keeps_prefix_view [OF inv]) (simp_all add: kv'_def)
  have "tables_view al (tables st) = tables_view (allocator kv) (tables st)"
    using keep by (rule keeps_tables) (simp_all add: split)
  then show "kv_view kv' sid = Some (map2 (\<lambda>v ps. v @ map (Some \<circ> frame_of al) ps)
      (tables_view (allocator kv) (tables st)) pss)"
    using app(3) by (simp add: kv'_def kv_view_def)
qed

lemma reserve_tokens_step:
  assumes inv: "kv_inv kv" and st: "sequences kv sid = Some st"
    and tpb: "kv_tokens_per_block kv \<noteq> 0"
    and nowrap: "unat n + unat (kv_tokens_per_block kv) \<le> 4294967296"
    and frames: "blocks_for (kv_tokens_per_block kv) n * length (tables st) < 4294967296"
    and fits: "length (entries (hd (tables st))) + blocks_for (kv_tokens_per_block kv) n < 4294967296"
    and run: "reserve_tokens kv sid n = (ok, kv')"
  shows "kv_inv kv' \<and> (\<not> ok \<longrightarrow> kv' = kv)
    \<and> (ok \<longleftrightarrow> blocks_for (kv_tokens_per_block kv) n * length (tables st) \<le> length (free_list (allocator kv)))
    \<and> (\<forall>other. other \<noteq> sid \<longrightarrow> kv_view kv' other = kv_view kv other)
    \<and> prefix_view kv' = prefix_view kv
    \<and> (ok \<longrightarrow> (\<exists>pss. length pss = length (tables st)
         \<and> list_all (\<lambda>ps. length ps = blocks_for (kv_tokens_per_block kv) n) pss
         \<and> distinct (concat pss) \<and> set (concat pss) \<inter> set_mset (kv_refs kv) = {}
         \<and> list_all (\<lambda>p. ref_of (allocator kv') p = 1) (concat pss)
         \<and> kv_view kv' sid = Some (map2 (\<lambda>v ps. v @ map (Some \<circ> frame_of (allocator kv')) ps)
             (tables_view (allocator kv) (tables st)) pss)))
    \<and> (ok \<longrightarrow> length (free_list (allocator kv')) + blocks_for (kv_tokens_per_block kv) n * length (tables st)
         = length (free_list (allocator kv)))"
proof -
  let ?tpb = "kv_tokens_per_block kv" and ?al = "allocator kv"
  let ?m = "(n + ?tpb - 1) div ?tpb" and ?b = "blocks_for (kv_tokens_per_block kv) n"
  have m: "unat ?m = ?b" using tpb nowrap by (rule blocks_for_word)
  have "?m * of_nat (length (tables st)) = of_nat (?b * length (tables st))"
    by (simp add: m [symmetric])
  then have need: "unat (?m * of_nat (length (tables st))) = ?b * length (tables st)"
    using frames unat_of_nat_u32 by metis
  show ?thesis
  proof (cases "?b * length (tables st) \<le> length (free_list ?al)")
    case False
    then have "(ok, kv') = (False, kv)"
      using run st tpb need by (simp add: reserve_tokens_def can_allocate_def Let_def)
    then show ?thesis using False inv by simp
  next
    case True
    obtain ok1 al ts where res: "reserve_tables sid ?tpb ?m ?al (tables st) = (ok1, al, ts)"
      by (metis prod_cases3)
    have kv': "kv' = with_tables kv sid st al ts" "ok = ok1"
      using run st tpb need True res
      by (simp_all add: reserve_tokens_def can_allocate_def Let_def with_tables_def)
    have uniform: "list_all (\<lambda>t. length (entries t) + unat ?m < 4294967296) (tables st)"
      using kv_inv_tables [OF inv st] fits unfolding m by (simp add: tables_ok_def list_all_iff)
    obtain pss where pss: "length pss = length (tables st)"
      "ts = map2 (append_blocks sid ?tpb True) pss (tables st)"
      "took (kv_refs kv) (kv_slots kv) ?al (concat pss) al"
      "ok1 \<longrightarrow> list_all (\<lambda>ps. length ps = ?b) pss" "?b * length (tables st) \<le> length (free_list ?al) \<longrightarrow> ok1"
      using reserve_tables_step [OF kv_inv_owns [OF inv]
          tables_ok_contiguous [OF kv_inv_tables [OF inv st]] uniform res] unfolding m by blast
    have ok1: ok1 using pss(5) True by blast
    have all: "list_all (\<lambda>ps. length ps = ?b) pss" using pss(4) ok1 by blast
    have own: "owns al (kv_refs kv + mset (concat pss)) (kv_slots kv)"
      and keep: "keeps (kv_refs kv) (kv_slots kv) ?al al" using pss(3) by (simp_all add: took_def)
    have dup: "no_dup (tables_refs (tables st) + mset (concat pss))"
      using pss(3) kv_inv_no_dup [OF inv st] kv_split(1) [OF kv_inv_parts(1) [OF inv] st]
      by (intro no_dup_add) (auto simp: took_def)
    note app = append_kv [OF inv st own keep pss(1) all fits dup, where w = True, folded pss(2), folded kv'(1)]
    have "length (concat pss) = ?b * length pss"
      using all by (induction pss) auto
    then show ?thesis
      using app True kv' ok1 pss(1,3) all took_exclusive [OF pss(3)]
      by (auto simp: took_def list_all_iff intro!: exI [of _ pss])
  qed
qed

section \<open>Dropping a prefix user\<close>

lemma find_record_Some:
  "find_record h recs = Some i \<Longrightarrow> i < length recs \<and> content_hash (recs ! i) = h"
  by (induction recs arbitrary: i) (auto split: if_splits)

lemma find_record_None: "find_record h recs = None \<longleftrightarrow> h \<notin> content_hash ` set recs"
  by (induction recs) auto

lemma prefix_users_drop:
  assumes "map_option prefix_key v \<in> {None, Some []}" and "key \<noteq> []"
  shows "prefix_users (m(sid := v)) key h = prefix_users m key h - {sid}"
  using assms by (auto simp: prefix_users_def split: if_splits)

lemma prefix_users_finite: "finite (dom m) \<Longrightarrow> finite (prefix_users m key h)"
  by (rule finite_subset [of _ "dom m"]) (auto simp: prefix_users_def)

lemma prefix_user_mem: "m sid = Some st \<Longrightarrow> sid \<in> prefix_users m key h \<longleftrightarrow> prefix_key st = key \<and> prefix_hash st = h"
  by (simp add: prefix_users_def)

lemma records_refs_at:
  assumes "i < length recs"
  shows "records_refs recs = records_refs (take i recs @ drop (Suc i) recs) + mset (physical_ids (recs ! i))"
    and "records_refs (recs[i := r])
       = records_refs (take i recs @ drop (Suc i) recs) + mset (physical_ids r)"
  using sum_list_split_at [OF assms, of "\<lambda>r. mset (physical_ids r)"]
    sum_list_update_at [OF assms, of "\<lambda>r. mset (physical_ids r)"]
  by (simp_all add: records_refs_def)

lemma other_record:
  assumes "r \<in> set recs" and "i < length recs" and "content_hash r \<noteq> content_hash (recs ! i)"
  shows "r \<in> set (take i recs @ drop (Suc i) recs)"
proof -
  obtain j where "j < length recs" "r = recs ! j" using assms(1) by (metis in_set_conv_nth)
  then show ?thesis using other_position [of j recs i] assms(3) by auto
qed

text \<open>The record a sequence uses.\<close>

lemma used_record:
  assumes ok: "prefix_ok kv" and st: "sequences kv sid = Some st" and key: "prefix_key st \<noteq> []"
  obtains recs i where "prefix_index kv (prefix_key st) = Some recs"
    and "find_record (prefix_hash st) recs = Some i" and "i < length recs"
    and "content_hash (recs ! i) = prefix_hash st" and "record_ok kv (prefix_key st) (recs ! i)"
    and "distinct (map content_hash recs)"
proof -
  obtain recs where recs: "prefix_index kv (prefix_key st) = Some recs"
    "prefix_hash st \<in> content_hash ` set recs"
    using ok st key unfolding prefix_ok_def by blast
  then obtain i where i: "find_record (prefix_hash st) recs = Some i"
    using find_record_None by (cases "find_record (prefix_hash st) recs") blast+
  then have "i < length recs" "content_hash (recs ! i) = prefix_hash st"
    using find_record_Some by blast+
  moreover from this have "record_ok kv (prefix_key st) (recs ! i)" "distinct (map content_hash recs)"
    using ok recs(1) unfolding prefix_ok_def by (auto simp: list_all_length)
  ultimately show ?thesis using that recs(1) i by blast
qed

text \<open>After a user is gone the remaining records still count their users.\<close>

lemma record_ok_other:
  assumes st: "sequences kv sid = Some st" and v: "map_option prefix_key v \<in> {None, Some []}"
    and kv': "sequences kv' = (sequences kv)(sid := v)"
    and shape: "table_count kv' = table_count kv" "kv_tokens_per_block kv' = kv_tokens_per_block kv"
    and "key \<noteq> []" and "key \<noteq> prefix_key st \<or> content_hash r \<noteq> prefix_hash st"
  shows "record_ok kv' key r = record_ok kv key r"
proof -
  have "sid \<notin> prefix_users (sequences kv) key (content_hash r)"
    using assms(7) prefix_user_mem [of "sequences kv" sid st, OF st] by auto
  then show ?thesis
    using prefix_users_drop [OF v assms(6), of "sequences kv" sid] by (simp add: record_ok_def kv' shape)
qed

lemma prefix_ok_dec:
  assumes ok: "prefix_ok kv" and st: "sequences kv sid = Some st" and key: "prefix_key st \<noteq> []"
    and fin: "finite (dom (sequences kv))"
    and recs: "prefix_index kv (prefix_key st) = Some recs" and i: "i < length recs"
      "content_hash (recs ! i) = prefix_hash st" and more: "1 < unat (users (recs ! i))"
    and v: "map_option prefix_key v \<in> {None, Some []}"
    and kv': "sequences kv' = (sequences kv)(sid := v)" "prefix_index kv' = (prefix_index kv)
      (prefix_key st \<mapsto> recs[i := (recs ! i)\<lparr>users := users (recs ! i) - 1\<rparr>])"
    and shape: "table_count kv' = table_count kv" "kv_tokens_per_block kv' = kv_tokens_per_block kv"
  shows "prefix_ok kv'"
proof -
  let ?r = "(recs ! i)\<lparr>users := users (recs ! i) - 1\<rparr>" and ?recs = "recs[i := (recs ! i)\<lparr>users := users (recs ! i) - 1\<rparr>]"
  note other = record_ok_other [OF st v kv'(1) shape]
  have old: "key' \<noteq> [] \<and> rs \<noteq> [] \<and> distinct (map content_hash rs) \<and> list_all (record_ok kv key') rs"
    if "prefix_index kv key' = Some rs" for key' rs
    using ok that unfolding prefix_ok_def by blast
  have hashes: "map content_hash ?recs = map content_hash recs"
    using i by (simp add: map_update list_update_same_conv)
  have user: "unat (users (recs ! i)) = card (prefix_users (sequences kv) (prefix_key st) (prefix_hash st))"
    and dist: "distinct (physical_ids (recs ! i))" and rest: "\<exists>b. 0 < b \<and> b < 4294967296 \<and> length (physical_ids (recs ! i)) = unat (table_count kv) * b
           \<and> pr_token_count (recs ! i) = of_nat b * kv_tokens_per_block kv"
    using old [OF recs] i by (simp_all add: list_all_length record_ok_def)
  have "sid \<in> prefix_users (sequences kv) (prefix_key st) (prefix_hash st)"
    using prefix_user_mem [of "sequences kv" sid st, OF st] by simp
  then have "card (prefix_users (sequences kv') (prefix_key st) (prefix_hash st)) = unat (users (recs ! i)) - 1"
    using prefix_users_drop [OF v key] prefix_users_finite [OF fin] user by (simp add: kv'(1))
  moreover have nz: "unat (users (recs ! i) - 1) = unat (users (recs ! i)) - 1"
    using more by (intro unat_dec) auto
  moreover from nz more have "users (recs ! i) - 1 \<noteq> 0" by (metis unat_0 zero_less_diff less_numeral_extra(3))
  ultimately have new: "record_ok kv' (prefix_key st) ?r" using i rest dist by (simp add: record_ok_def shape)
  have "record_ok kv' (prefix_key st) (?recs ! j)" if "j < length recs" for j
  proof (cases "j = i")
    case True
    then show ?thesis using new i by simp
  next
    case False
    then have "content_hash (recs ! j) \<noteq> prefix_hash st"
      using old [OF recs] i that nth_eq_iff_index_eq [of "map content_hash recs" j i] by auto
    then show ?thesis using other [OF key] False old [OF recs] that by (simp add: list_all_length)
  qed
  then have all: "list_all (record_ok kv' (prefix_key st)) ?recs" by (simp add: list_all_length)
  have A: "key' \<noteq> [] \<and> rs \<noteq> [] \<and> distinct (map content_hash rs) \<and> list_all (record_ok kv' key') rs"
    if "prefix_index kv' key' = Some rs" for key' rs
  proof (cases "key' = prefix_key st")
    case True
    then have "rs = ?recs" using that kv'(2) by simp
    then show ?thesis using True key all hashes old [OF recs] by simp
  next
    case False
    then have "prefix_index kv key' = Some rs" using that kv'(2) by simp
    then show ?thesis using old other False by (simp add: list_all_iff)
  qed
  have B: "\<not> bt_empty (text_table u)
      \<and> (\<exists>rs. prefix_index kv' (prefix_key u) = Some rs \<and> prefix_hash u \<in> content_hash ` set rs)"
    if u: "sequences kv' s = Some u" "prefix_key u \<noteq> []" for s u
  proof -
    have "sequences kv s = Some u" using u v unfolding kv' by (cases "s = sid") auto
    then obtain rs where rs: "prefix_index kv (prefix_key u) = Some rs"
      "prefix_hash u \<in> content_hash ` set rs" and ne: "\<not> bt_empty (text_table u)"
      using ok u(2) unfolding prefix_ok_def by blast
    show ?thesis
    proof (cases "prefix_key u = prefix_key st")
      case True
      then have "content_hash ` set rs = content_hash ` set ?recs"
        using hashes rs(1) recs by (metis option.inject set_map)
      then show ?thesis using True rs(2) ne kv'(2) by simp
    next
      case False
      then show ?thesis using rs ne kv'(2) by simp
    qed
  qed
  show ?thesis unfolding prefix_ok_def using A B by blast
qed

lemma prefix_ok_last:
  assumes ok: "prefix_ok kv" and st: "sequences kv sid = Some st" and key: "prefix_key st \<noteq> []"
    and fin: "finite (dom (sequences kv))"
    and recs: "prefix_index kv (prefix_key st) = Some recs" and i: "i < length recs"
      "content_hash (recs ! i) = prefix_hash st" and last: "unat (users (recs ! i)) = 1"
    and v: "map_option prefix_key v \<in> {None, Some []}"
    and kv': "sequences kv' = (sequences kv)(sid := v)" "prefix_index kv' = (prefix_index kv)
      (prefix_key st := (if take i recs @ drop (Suc i) recs = [] then None
                         else Some (take i recs @ drop (Suc i) recs)))"
    and shape: "table_count kv' = table_count kv" "kv_tokens_per_block kv' = kv_tokens_per_block kv"
  shows "prefix_ok kv'"
proof -
  let ?recs = "take i recs @ drop (Suc i) recs"
  note other = record_ok_other [OF st v kv'(1) shape]
  have old: "key' \<noteq> [] \<and> rs \<noteq> [] \<and> distinct (map content_hash rs) \<and> list_all (record_ok kv key') rs"
    if "prefix_index kv key' = Some rs" for key' rs
    using ok that unfolding prefix_ok_def by blast
  have split: "recs = take i recs @ recs ! i # drop (Suc i) recs" using i(1) by (rule id_take_nth_drop)
  then have "distinct (map content_hash (take i recs @ recs ! i # drop (Suc i) recs))"
    using old [OF recs] by metis
  then have dist: "distinct (map content_hash ?recs)" "prefix_hash st \<notin> content_hash ` set ?recs"
    using i(2) by auto
  have "set ?recs \<subseteq> set recs" using set_take_subset set_drop_subset by fastforce
  then have "record_ok kv' (prefix_key st) r" if r: "r \<in> set ?recs" for r
  proof -
    have "content_hash r \<noteq> prefix_hash st" using dist(2) r by (metis image_eqI)
    moreover have "record_ok kv (prefix_key st) r"
      using old [OF recs] r \<open>set ?recs \<subseteq> set recs\<close> unfolding list_all_iff by blast
    ultimately show ?thesis using other [OF key] by simp
  qed
  then have all: "list_all (record_ok kv' (prefix_key st)) ?recs" unfolding list_all_iff by blast
  have "card (prefix_users (sequences kv) (prefix_key st) (prefix_hash st)) = 1"
    using old [OF recs] i last by (simp add: list_all_length record_ok_def)
  then have only: "prefix_users (sequences kv) (prefix_key st) (prefix_hash st) = {sid}"
    using prefix_user_mem [of "sequences kv" sid st, OF st] by (metis card_1_singletonE singletonD)
  have A: "key' \<noteq> [] \<and> rs \<noteq> [] \<and> distinct (map content_hash rs) \<and> list_all (record_ok kv' key') rs"
    if "prefix_index kv' key' = Some rs" for key' rs
  proof (cases "key' = prefix_key st")
    case True
    then have "rs = ?recs" "rs \<noteq> []" using that kv'(2) by (auto split: if_splits)
    then show ?thesis using True key all dist(1) by simp
  next
    case False
    then have "prefix_index kv key' = Some rs" using that kv'(2) by simp
    then show ?thesis using old other False by (simp add: list_all_iff)
  qed
  have B: "\<not> bt_empty (text_table u)
      \<and> (\<exists>rs. prefix_index kv' (prefix_key u) = Some rs \<and> prefix_hash u \<in> content_hash ` set rs)"
    if u: "sequences kv' s = Some u" "prefix_key u \<noteq> []" for s u
  proof -
    have s: "sequences kv s = Some u" "s \<noteq> sid" using u v unfolding kv' by (cases "s = sid"; auto)+
    then obtain rs where rs: "prefix_index kv (prefix_key u) = Some rs"
      "prefix_hash u \<in> content_hash ` set rs" and ne: "\<not> bt_empty (text_table u)"
      using ok u(2) unfolding prefix_ok_def by blast
    show ?thesis
    proof (cases "prefix_key u = prefix_key st")
      case True
      then have "prefix_hash u \<noteq> prefix_hash st"
        using only s prefix_user_mem [of "sequences kv" s u, OF s(1)] by auto
      moreover obtain r where r: "r \<in> set recs" "content_hash r = prefix_hash u"
        using rs True recs by auto
      ultimately have "r \<in> set ?recs" using other_record [OF r(1) i(1)] i(2) by simp
      then have "prefix_hash u \<in> content_hash ` set ?recs" "?recs \<noteq> []" using r(2) by force+
      then show ?thesis using True ne kv'(2) by simp
    next
      case False
      then show ?thesis using rs ne kv'(2) by simp
    qed
  qed
  show ?thesis unfolding prefix_ok_def using A B by blast
qed

end
