(* ===== verification/KVPrefix.thy ===== *)
theory KVPrefix
  imports KVLifecycle
begin

text \<open>
  Releasing sequences and requests, and sharing prefixes: \<^verbatim>\<open>drop_prefix_user\<close>,
  \<^verbatim>\<open>release_sequence\<close>, \<^verbatim>\<open>release_request\<close>, \<^verbatim>\<open>publish_prefix\<close> and \<^verbatim>\<open>attach_prefix\<close>.
\<close>

section \<open>Dropping a user\<close>

lemma drop_prefix_user_step:
  assumes inv: "kv_inv kv" and st: "sequences kv sid = Some st"
    and drop: "drop_prefix_user kv st = (kv1, st1)"
  defines "F1 \<equiv> map_total seq_refs (sequences kv) + map_total records_refs (prefix_index kv1)"
  shows "tables st1 = tables st \<and> metadata st1 = metadata st
    \<and> sequences kv1 = sequences kv \<and> sequences_by_request kv1 = sequences_by_request kv
    \<and> owns (allocator kv1) F1 (kv_slots kv) \<and> keeps F1 (kv_slots kv) (allocator kv) (allocator kv1)
    \<and> finite (dom (prefix_index kv1))
    \<and> (\<forall>n. swap_room (allocator kv) n \<longrightarrow> swap_room (allocator kv1) n)
    \<and> (\<forall>kv' v. map_option prefix_key v \<in> {None, Some []} \<longrightarrow>
         sequences kv' = (sequences kv)(sid := v) \<longrightarrow> prefix_index kv' = prefix_index kv1 \<longrightarrow>
         table_count kv' = table_count kv \<longrightarrow> kv_tokens_per_block kv' = kv_tokens_per_block kv \<longrightarrow>
         prefix_ok kv')
    \<and> (\<forall>key. key \<noteq> prefix_key st \<longrightarrow> prefix_index kv1 key = prefix_index kv key)"
proof (cases "prefix_key st = []")
  case True
  then have "kv1 = kv" "st1 = st" using drop by (simp_all add: drop_prefix_user_def)
  then show ?thesis
    using kv_inv_parts [OF inv] kv_inv_owns [OF inv] True st
    by (auto simp: F1_def kv_refs_def intro: prefix_ok_plain [of kv sid])
next
  case False
  note parts = kv_inv_parts [OF inv]
  obtain recs i where rec: "prefix_index kv (prefix_key st) = Some recs"
    "find_record (prefix_hash st) recs = Some i" "i < length recs"
    "content_hash (recs ! i) = prefix_hash st" "record_ok kv (prefix_key st) (recs ! i)"
    using used_record [OF parts(4) st False] by metis
  let ?r = "recs ! i" and ?key = "prefix_key st"
  have pos: "users ?r > 0" using rec(5) by (simp add: record_ok_def word_neq_0_conv)
  have dec: "unat (users ?r - 1) = unat (users ?r) - 1" using pos by (intro unat_dec) auto
  let ?R = "map_total records_refs ((prefix_index kv)(?key := None))"
  have total: "map_total records_refs (prefix_index kv) = records_refs recs + ?R"
    using map_total_remove [OF parts(2) rec(1)] .
  have st1: "st1 = st\<lparr>prefix_key := [], prefix_hash := 0\<rparr>"
    using drop False rec pos by (auto simp: drop_prefix_user_def Let_def split: if_splits)
  show ?thesis
  proof (cases "users ?r - 1 > 0")
    case True
    let ?recs = "recs[i := ?r\<lparr>users := users ?r - 1\<rparr>]"
    have kv1: "kv1 = kv\<lparr>prefix_index := (prefix_index kv)(?key \<mapsto> ?recs)\<rparr>"
      using drop False rec pos True by (simp add: drop_prefix_user_def Let_def)
    have "records_refs ?recs = records_refs recs" using records_refs_at [OF rec(3)] by simp
    then have "F1 = kv_refs kv"
      using parts(2) by (simp add: F1_def kv1 kv_refs_def map_total_upd total)
    moreover have "1 < unat (users ?r)"
      using True dec by (metis less_one not_less_iff_gr_or_eq unat_gt_0 word_neq_0_conv zero_less_diff)
    ultimately show ?thesis
      using kv_inv_owns [OF inv] parts st1 prefix_ok_dec [OF parts(4) st False parts(1) rec(1,3,4)]
      by (simp add: kv1)
  next
    case last: False
    let ?recs = "take i recs @ drop (Suc i) recs"
    let ?al = "foldl release (allocator kv) (physical_ids ?r)"
    have kv1: "kv1 = kv\<lparr>allocator := ?al, prefix_index := (prefix_index kv)
        (?key := (if ?recs = [] then None else Some ?recs))\<rparr>"
      using drop False rec pos last by (simp add: drop_prefix_user_def Let_def)
    have "map_total records_refs (prefix_index kv1) = records_refs ?recs + ?R"
      using parts(2) by (auto simp: kv1 map_total_upd records_refs_def)
    then have "kv_refs kv = mset (physical_ids ?r) + F1"
      using records_refs_at(1) [OF rec(3)] by (simp add: kv_refs_def F1_def total ac_simps)
    then have "owns (allocator kv) (mset (physical_ids ?r) + F1) (kv_slots kv)"
      using kv_inv_owns [OF inv] by simp
    note rel = owns_release_all [OF this]
    have "unat (users ?r) = 1"
      using last dec pos by (metis add_diff_cancel_left' le_add_diff_inverse less_one
          not_less_iff_gr_or_eq unat_gt_0 word_neq_0_conv One_nat_def Suc_leI diff_is_0_eq' unat_0 word_gt_0)
    then show ?thesis
      using rel parts st1 prefix_ok_last [OF parts(4) st False parts(1) rec(1,3,4)]
      by (simp add: kv1)
  qed
qed

section \<open>Releasing\<close>

lemma unindex_sequence_simps [simp]:
  "allocator (unindex_sequence kv rid sid) = allocator kv"
  "sequences (unindex_sequence kv rid sid) = sequences kv"
  "prefix_index (unindex_sequence kv rid sid) = prefix_index kv"
  "sequences_for (unindex_sequence kv rid sid) r =
     (if r = rid then filter (\<lambda>x. x \<noteq> sid) (sequences_for kv r) else sequences_for kv r)"
  by (auto simp: unindex_sequence_def sequences_for_def Let_def split: option.split)

lemma unindex_no_empty:
  "(\<forall>r. sequences_by_request kv r \<noteq> Some []) \<Longrightarrow> sequences_by_request (unindex_sequence kv rid sid) r \<noteq> Some []"
  by (auto simp: unindex_sequence_def Let_def split: option.split)

text \<open>The state after a release, with the intermediate steps of the code folded together.\<close>

lemma release_sequence_eq:
  assumes "sequences kv sid = Some st" and "drop_prefix_user kv st = (kv1, st1)"
    and "tables st1 = tables st" and "metadata st1 = metadata st" and "sequences kv1 = sequences kv"
  defines "al \<equiv> foldl release_entry (allocator kv1) (concat (map entries (tables st)))"
  shows "allocator (release_sequence kv sid) = al"
    and "sequences (release_sequence kv sid) = (sequences kv)(sid := None)"
    and "prefix_index (release_sequence kv sid) = prefix_index kv1"
    and "sequences_by_request (release_sequence kv sid)
       = sequences_by_request (unindex_sequence kv1 (sm_request_id (metadata st)) sid)"
  using assms
  by (simp_all add: release_sequence_def al_def Let_def unindex_sequence_def split: option.split)

lemma index_remove:
  assumes ok: "index_ok kv" and st: "sequences kv sid = Some st"
    and seqs: "sequences kv' = (sequences kv)(sid := None)"
    and idx: "\<And>rid. sequences_for kv' rid = filter (\<lambda>x. x \<noteq> sid) (sequences_for kv rid)"
    and ne: "\<And>rid. sequences_by_request kv' rid \<noteq> Some []"
  shows "index_ok kv'"
proof -
  have "request_of (sequences kv') other = (if other = sid then None else request_of (sequences kv) other)"
    for other by (simp add: request_of_def seqs)
  then show ?thesis using ok ne unfolding index_ok_def idx by auto
qed

lemma release_sequence_step:
  assumes inv: "kv_inv kv"
  shows "kv_inv (release_sequence kv sid)"
    and "kv_view (release_sequence kv sid) = (kv_view kv)(sid := None)"
    and "sequences (release_sequence kv sid) = (sequences kv)(sid := None)"
    and "sequences_for (release_sequence kv sid) rid = filter (\<lambda>x. x \<noteq> sid) (sequences_for kv rid)"
    and "swap_room (allocator kv) n \<Longrightarrow> swap_room (allocator (release_sequence kv sid)) n"
    and "config (allocator (release_sequence kv sid)) = config (allocator kv)"
proof -
  note parts = kv_inv_parts [OF inv]
  let ?kv = "release_sequence kv sid"
  have "kv_inv ?kv \<and> kv_view ?kv = (kv_view kv)(sid := None) \<and> sequences ?kv = (sequences kv)(sid := None)
    \<and> (\<forall>rid. sequences_for ?kv rid = filter (\<lambda>x. x \<noteq> sid) (sequences_for kv rid))
    \<and> (swap_room (allocator kv) n \<longrightarrow> swap_room (allocator ?kv) n)
    \<and> config (allocator ?kv) = config (allocator kv)"
  proof (cases "sequences kv sid")
    case None
    then have "?kv = kv" "kv_view kv sid = None" by (simp_all add: release_sequence_def kv_view_def)
    moreover have "sid \<notin> set (sequences_for kv rid)" for rid
      using parts(3) None by (simp add: index_ok_def request_of_def)
    then have "filter (\<lambda>x. x \<noteq> sid) (sequences_for kv rid) = sequences_for kv rid" for rid
      by (metis (mono_tags, lifting) filter_True)
    ultimately show ?thesis using inv None by (simp add: fun_upd_idem)
  next
    case (Some st)
    obtain kv1 st1 where drop: "drop_prefix_user kv st = (kv1, st1)" by fastforce
    let ?rec = "map_total records_refs (prefix_index kv1)"
    let ?F = "map_total seq_refs ((sequences kv)(sid := None)) + ?rec"
    note d = drop_prefix_user_step [OF inv Some drop]
    have same: "tables st1 = tables st" "metadata st1 = metadata st" "sequences kv1 = sequences kv"
      "sequences_by_request kv1 = sequences_by_request kv"
      by (insert d, elim conjE, assumption)+
    have own1: "owns (allocator kv1) (map_total seq_refs (sequences kv) + ?rec) (kv_slots kv)"
      and keep1: "keeps (map_total seq_refs (sequences kv) + ?rec) (kv_slots kv) (allocator kv) (allocator kv1)"
      and fin1: "finite (dom (prefix_index kv1))"
      and room1: "\<forall>n. swap_room (allocator kv) n \<longrightarrow> swap_room (allocator kv1) n"
      and pre1: "\<forall>kv' v. map_option prefix_key v \<in> {None, Some []} \<longrightarrow>
         sequences kv' = (sequences kv)(sid := v) \<longrightarrow> prefix_index kv' = prefix_index kv1 \<longrightarrow>
         table_count kv' = table_count kv \<longrightarrow> kv_tokens_per_block kv' = kv_tokens_per_block kv \<longrightarrow>
         prefix_ok kv'"
      by (insert d, elim conjE, assumption)+
    note eq = release_sequence_eq [OF Some drop same(1,2,3)]
    have "owns (allocator kv1) (?F + tables_refs (tables st)) (rest_slots kv sid + tables_slots (tables st))"
      using own1 unfolding map_total_remove [OF parts(1) Some, of seq_refs] kv_split(2) [OF parts(1) Some]
      by (simp add: seq_refs_def ac_simps)
    note rel = release_tables_step [OF this, folded eq(1)]
    have refs: "kv_refs ?kv = ?F" "kv_slots ?kv = rest_slots kv sid"
      by (simp_all add: kv_refs_def kv_slots_def rest_slots_def eq(2,3))
    have k1: "keeps ?F (rest_slots kv sid) (allocator kv) (allocator kv1)"
      using keep1 unfolding map_total_remove [OF parts(1) Some, of seq_refs] kv_split(2) [OF parts(1) Some]
      by (rule keeps_mono) simp_all
    then have keep: "keeps ?F (rest_slots kv sid) (allocator kv) (allocator ?kv)"
      using rel(2) by (rule keeps_trans)
    then have cfg: "config (allocator ?kv) = config (allocator kv)" by (simp add: keeps_def)
    have shape: "table_count ?kv = table_count kv" "kv_tokens_per_block ?kv = kv_tokens_per_block kv"
      using shape_cong [OF parts(5) owns_inv [OF rel(1)] cfg] by simp_all
    have idx: "sequences_for ?kv rid = filter (\<lambda>x. x \<noteq> sid) (sequences_for kv rid)" for rid
    proof (cases "rid = sm_request_id (metadata st)")
      case True
      then show ?thesis using eq(4) same(4) by (simp add: sequences_for_def unindex_sequence_def Let_def split: option.split)
    next
      case False
      then have "sid \<notin> set (sequences_for kv rid)"
        using parts(3) Some by (simp add: index_ok_def request_of_def)
      then have "filter (\<lambda>x. x \<noteq> sid) (sequences_for kv rid) = sequences_for kv rid"
        by (metis (mono_tags) filter_True)
      moreover have "sequences_for ?kv rid = sequences_for kv rid"
        using False eq(4) same(4) by (simp add: sequences_for_def unindex_sequence_def Let_def split: option.split)
      ultimately show ?thesis by simp
    qed
    have ne: "sequences_by_request ?kv rid \<noteq> Some []" for rid
      using unindex_no_empty [of kv1] parts(3) same(4) unfolding eq(4) index_ok_def by metis
    have "kv_inv ?kv"
    proof (rule kv_invI)
      show "owns (allocator ?kv) (kv_refs ?kv) (kv_slots ?kv)" using rel(1) unfolding refs .
      show "index_ok ?kv" using parts(3) Some eq(2) idx ne by (rule index_remove)
      have "map_option prefix_key (None :: SequenceState option) \<in> {None, Some []}" by simp
      then show "prefix_ok ?kv" using pre1 eq(2,3) shape by blast
      show "finite (dom (prefix_index ?kv))" using fin1 eq(3) by simp
      fix other u assume "sequences ?kv other = Some u"
      then have "sequences kv other = Some u" using eq(2) by (auto split: if_splits)
      then show "sm_sequence_id (metadata u) = other \<and> tables_ok ?kv (tables u) \<and> no_dup (tables_refs (tables u))"
        using parts(6) kv_inv_tables [OF inv] kv_inv_no_dup [OF inv] tables_ok_cong [OF shape] by blast
    qed (simp add: eq(2) parts(1))
    moreover have "kv_view ?kv other = ((kv_view kv)(sid := None)) other" for other
    proof (cases "other = sid \<or> sequences kv other = None")
      case True
      then show ?thesis by (auto simp: kv_view_def eq(2))
    next
      case False
      then obtain u where u: "((sequences kv)(sid := None)) other = Some u" "other \<noteq> sid" by auto
      have "seq_refs u \<subseteq># map_total seq_refs ((sequences kv)(sid := None))"
        "seq_slots u \<subseteq># map_total seq_slots ((sequences kv)(sid := None))"
        using map_total_mset_mem [of "(sequences kv)(sid := None)" other u] u(1) parts(1) by simp_all
      then have "tables_view (allocator ?kv) (tables u) = tables_view (allocator kv) (tables u)"
        by (intro keeps_tables [OF keep])
          (auto simp: seq_refs_def seq_slots_def rest_slots_def intro: subset_mset.order_trans [OF _ mset_subset_eq_add_left])
      then show ?thesis using u eq(2) by (auto simp: kv_view_def)
    qed
    moreover have "swap_room (allocator kv) n \<longrightarrow> swap_room (allocator ?kv) n"
      using room1 rel(3) by blast
    ultimately show ?thesis using idx eq(2) cfg by (simp add: fun_eq_iff)
  qed
  then show "kv_inv ?kv" and "kv_view ?kv = (kv_view kv)(sid := None)"
    and "sequences ?kv = (sequences kv)(sid := None)"
    and "sequences_for ?kv rid = filter (\<lambda>x. x \<noteq> sid) (sequences_for kv rid)"
    and "swap_room (allocator kv) n \<Longrightarrow> swap_room (allocator ?kv) n"
    and "config (allocator ?kv) = config (allocator kv)" by blast+
qed

lemma release_sequences_step:
  assumes "kv_inv kv"
  shows "kv_inv (foldl release_sequence kv sids)
    \<and> kv_view (foldl release_sequence kv sids) = (\<lambda>sid. if sid \<in> set sids then None else kv_view kv sid)
    \<and> (\<forall>rid. sequences_for (foldl release_sequence kv sids) rid
        = filter (\<lambda>x. x \<notin> set sids) (sequences_for kv rid))
    \<and> sequences (foldl release_sequence kv sids) = (\<lambda>sid. if sid \<in> set sids then None else sequences kv sid)
    \<and> (\<forall>n. swap_room (allocator kv) n \<longrightarrow> swap_room (allocator (foldl release_sequence kv sids)) n)
    \<and> config (allocator (foldl release_sequence kv sids)) = config (allocator kv)"
  using assms
proof (induction sids arbitrary: kv)
  case Nil
  then show ?case by simp
next
  case (Cons sid sids)
  note step = release_sequence_step [OF Cons.prems]
  note IH = Cons.IH [OF step(1)]
  show ?case
    using IH step by (auto simp: fun_eq_iff conj_commute intro: filter_cong)
qed

section \<open>No leaks\<close>

lemma map_total_empty_dom: "dom m = {} \<Longrightarrow> map_total f m = 0"
  by (simp add: map_total_def)

lemma no_sequences_no_prefixes:
  assumes "kv_inv kv" and "sequences kv = Map.empty"
  shows "prefix_index kv = Map.empty"
proof (rule ext, rule ccontr)
  fix key assume "prefix_index kv key \<noteq> None"
  then obtain recs where recs: "prefix_index kv key = Some recs" by blast
  then have "recs \<noteq> []" "list_all (record_ok kv key) recs"
    using kv_inv_parts(4) [OF assms(1)] unfolding prefix_ok_def by blast+
  then obtain r where "record_ok kv key r" by (cases recs) auto
  then show False using assms(2) by (auto simp: record_ok_def prefix_users_def)
qed

lemma no_sequences_all_free:
  assumes inv: "kv_inv kv" and none: "sequences kv = Map.empty"
  shows "length (free_list (allocator kv)) = capacity (allocator kv)"
    and "swapped (allocator kv) = Map.empty"
proof -
  have "owns (allocator kv) {#} {#}"
    using kv_inv_owns [OF inv] none no_sequences_no_prefixes [OF assms]
    by (simp add: kv_refs_def kv_slots_def)
  then have own: "owns (allocator kv) {#} {#}" and "slots_of (allocator kv) = {#}"
    by (simp_all add: owns_def)
  then show "length (free_list (allocator kv)) = capacity (allocator kv)"
    using owns_free [OF own] by simp
  show "swapped (allocator kv) = Map.empty"
    using in_slots_of [of _ "allocator kv"] \<open>slots_of (allocator kv) = {#}\<close> by (metis empty_iff set_mset_empty)
qed

section \<open>Adding a prefix user\<close>

lemma prefix_users_add:
  assumes "map_option prefix_key (m sid) \<in> {None, Some []}" and "key \<noteq> []"
  shows "prefix_users (m(sid \<mapsto> st)) key h =
    (if prefix_key st = key \<and> prefix_hash st = h then insert sid (prefix_users m key h)
     else prefix_users m key h)"
    and "sid \<notin> prefix_users m key h"
  using assms by (auto simp: prefix_users_def split: if_splits)

lemma record_ok_add:
  assumes old: "map_option prefix_key (sequences kv sid) \<in> {None, Some []}"
    and kv': "sequences kv' = (sequences kv)(sid \<mapsto> st)"
    and shape: "table_count kv' = table_count kv" "kv_tokens_per_block kv' = kv_tokens_per_block kv"
    and "key \<noteq> []" and "key \<noteq> prefix_key st \<or> content_hash r \<noteq> prefix_hash st"
  shows "record_ok kv' key r = record_ok kv key r"
  using prefix_users_add(1) [of "sequences kv" sid key st "content_hash r", OF old assms(5)] assms(6)
  by (auto simp: record_ok_def kv' shape)

lemma prefix_ok_add:
  assumes ok: "prefix_ok kv" and old: "map_option prefix_key (sequences kv sid) \<in> {None, Some []}"
    and key: "prefix_key st \<noteq> []" and ne: "\<not> bt_empty (text_table st)"
    and kv': "sequences kv' = (sequences kv)(sid \<mapsto> st)"
      "prefix_index kv' = (prefix_index kv)(prefix_key st \<mapsto> recs)"
    and shape: "table_count kv' = table_count kv" "kv_tokens_per_block kv' = kv_tokens_per_block kv"
    and recs: "distinct (map content_hash recs)" "list_all (record_ok kv' (prefix_key st)) recs"
      "prefix_hash st \<in> content_hash ` set recs"
    and keep: "\<And>rs. prefix_index kv (prefix_key st) = Some rs \<Longrightarrow>
      content_hash ` set rs \<subseteq> content_hash ` set recs"
  shows "prefix_ok kv'"
proof -
  have A: "key' \<noteq> [] \<and> rs \<noteq> [] \<and> distinct (map content_hash rs) \<and> list_all (record_ok kv' key') rs"
    if rs: "prefix_index kv' key' = Some rs" for key' rs
  proof (cases "key' = prefix_key st")
    case True
    then show ?thesis using rs kv'(2) key recs by auto
  next
    case False
    then have "prefix_index kv key' = Some rs" using rs kv'(2) by simp
    then have "key' \<noteq> []" "rs \<noteq> []" "distinct (map content_hash rs)" "list_all (record_ok kv key') rs"
      using ok unfolding prefix_ok_def by blast+
    then show ?thesis using record_ok_add [OF old kv'(1) shape, of key'] False by (simp add: list_all_iff)
  qed
  have B: "\<not> bt_empty (text_table u)
      \<and> (\<exists>rs. prefix_index kv' (prefix_key u) = Some rs \<and> prefix_hash u \<in> content_hash ` set rs)"
    if u: "sequences kv' s = Some u" "prefix_key u \<noteq> []" for s u
  proof (cases "s = sid")
    case True
    then have "u = st" using u kv'(1) by simp
    then show ?thesis using ne recs(3) kv'(2) by simp
  next
    case False
    then have "sequences kv s = Some u" using u kv'(1) by simp
    then obtain rs where rs: "prefix_index kv (prefix_key u) = Some rs"
      "prefix_hash u \<in> content_hash ` set rs" "\<not> bt_empty (text_table u)"
      using ok u(2) unfolding prefix_ok_def by blast
    then show ?thesis
      using keep kv'(2) by (cases "prefix_key u = prefix_key st") auto
  qed
  show ?thesis unfolding prefix_ok_def using A B by blast
qed

text \<open>Counting one more user of an existing record.\<close>

lemma prefix_ok_join:
  assumes ok: "prefix_ok kv" and fin: "finite (dom (sequences kv))"
    and few: "card (dom (sequences kv)) < 4294967295"
    and old: "map_option prefix_key (sequences kv sid) \<in> {None, Some []}"
    and recs: "prefix_index kv (prefix_key st) = Some recs" and i: "i < length recs"
      "content_hash (recs ! i) = prefix_hash st"
    and key: "prefix_key st \<noteq> []" and ne: "\<not> bt_empty (text_table st)"
    and kv': "sequences kv' = (sequences kv)(sid \<mapsto> st)" "prefix_index kv' = (prefix_index kv)
      (prefix_key st \<mapsto> recs[i := (recs ! i)\<lparr>users := users (recs ! i) + 1\<rparr>])"
    and shape: "table_count kv' = table_count kv" "kv_tokens_per_block kv' = kv_tokens_per_block kv"
  shows "prefix_ok kv'"
proof -
  let ?r = "(recs ! i)\<lparr>users := users (recs ! i) + 1\<rparr>" and ?U = "prefix_users (sequences kv) (prefix_key st) (prefix_hash st)"
  have had: "distinct (map content_hash recs)" "list_all (record_ok kv (prefix_key st)) recs"
    using ok recs unfolding prefix_ok_def by blast+
  have hashes: "map content_hash (recs[i := ?r]) = map content_hash recs"
    using i by (simp add: map_update list_update_same_conv)
  then have set: "content_hash ` set (recs[i := ?r]) = content_hash ` set recs" by (metis set_map)
  have r: "record_ok kv (prefix_key st) (recs ! i)" using had(2) i by (simp add: list_all_length)
  then have users: "unat (users (recs ! i)) = card ?U" by (simp add: record_ok_def i)
  have "card ?U \<le> card (dom (sequences kv))" by (intro card_mono fin) (auto simp: prefix_users_def)
  then have inc: "unat (users (recs ! i) + 1) = unat (users (recs ! i)) + 1"
    using few users by (intro unat_inc_u32) simp
  then have nz: "users (recs ! i) + 1 \<noteq> 0" by (metis add_is_0 one_neq_zero unat_0)
  have "card (prefix_users (sequences kv') (prefix_key st) (prefix_hash st)) = Suc (card ?U)"
    using prefix_users_add(1) [of "sequences kv" sid "prefix_key st" st "prefix_hash st", OF old key]
      prefix_users_add(2) [of "sequences kv" sid "prefix_key st" "prefix_hash st", OF old key]
      prefix_users_finite [OF fin] by (simp add: kv'(1))
  then have new: "record_ok kv' (prefix_key st) ?r"
    using r inc nz users i by (simp add: record_ok_def shape)
  have "record_ok kv' (prefix_key st) (recs[i := ?r] ! j)" if j: "j < length recs" for j
  proof (cases "j = i")
    case True
    then show ?thesis using new i by simp
  next
    case False
    then have "content_hash (recs ! j) \<noteq> prefix_hash st"
      using had(1) i j nth_eq_iff_index_eq [of "map content_hash recs" j i] by auto
    then show ?thesis
      using record_ok_add [OF old kv'(1) shape key] False had(2) j by (simp add: list_all_length)
  qed
  then have all: "list_all (record_ok kv' (prefix_key st)) (recs[i := ?r])" by (simp add: list_all_length)
  show ?thesis
  proof (rule prefix_ok_add [OF ok old key ne kv' shape])
    show "distinct (map content_hash (recs[i := ?r]))" using hashes had(1) by simp
    show "prefix_hash st \<in> content_hash ` set (recs[i := ?r])"
      unfolding set using nth_mem [OF i(1)] i(2) by (metis image_eqI)
    show "content_hash ` set rs \<subseteq> content_hash ` set (recs[i := ?r])"
      if "prefix_index kv (prefix_key st) = Some rs" for rs using that recs set by simp
  qed (rule all)
qed

text \<open>Marking a sequence as a user of a prefix.\<close>

definition mark_user ::
    "KVCacheManager \<Rightarrow> MemoryAllocator \<Rightarrow> SequenceId \<Rightarrow> SequenceState \<Rightarrow> string \<Rightarrow> u64
       \<Rightarrow> PrefixRecord list \<Rightarrow> KVCacheManager" where
  "mark_user kv al sid st key h recs =
     kv\<lparr>allocator := al, prefix_index := (prefix_index kv)(key \<mapsto> recs),
        sequences := (sequences kv)(sid \<mapsto> st\<lparr>prefix_key := key, prefix_hash := h\<rparr>)\<rparr>"

lemma mark_user_simps [simp]:
  "allocator (mark_user kv al sid st key h recs) = al"
  "prefix_index (mark_user kv al sid st key h recs) = (prefix_index kv)(key \<mapsto> recs)"
  "sequences (mark_user kv al sid st key h recs)
     = (sequences kv)(sid \<mapsto> st\<lparr>prefix_key := key, prefix_hash := h\<rparr>)"
  "sequences_by_request (mark_user kv al sid st key h recs) = sequences_by_request kv"
  by (simp_all add: mark_user_def)

lemma mark_user_inv:
  assumes inv: "kv_inv kv" and st: "sequences kv sid = Some st"
    and own: "owns al (map_total seq_refs (sequences kv) + records_refs recs
        + map_total records_refs ((prefix_index kv)(key := None))) (kv_slots kv)"
    and cfg: "config al = config (allocator kv)"
    and pre: "\<And>kv'. kv' = mark_user kv al sid st key h recs \<Longrightarrow> table_count kv' = table_count kv \<Longrightarrow>
      kv_tokens_per_block kv' = kv_tokens_per_block kv \<Longrightarrow> prefix_ok kv'"
  shows "kv_inv (mark_user kv al sid st key h recs)"
proof -
  let ?kv = "mark_user kv al sid st key h recs"
  note parts = kv_inv_parts [OF inv]
  have shape: "table_count ?kv = table_count kv" "kv_tokens_per_block ?kv = kv_tokens_per_block kv"
    using shape_cong [OF parts(5), of ?kv] owns_inv [OF own] cfg by simp_all
  have refs: "map_total seq_refs (sequences ?kv) = map_total seq_refs (sequences kv)"
    "map_total seq_slots (sequences ?kv) = map_total seq_slots (sequences kv)"
    using map_total_remove [OF parts(1) st, of seq_refs] map_total_remove [OF parts(1) st, of seq_slots]
    by (simp_all add: map_total_upd [OF parts(1)] seq_refs_def seq_slots_def)
  show ?thesis
  proof (rule kv_invI)
    have "kv_refs ?kv = map_total seq_refs (sequences kv) + records_refs recs
        + map_total records_refs ((prefix_index kv)(key := None))"
      using refs(1) parts(2) by (simp add: kv_refs_def map_total_upd ac_simps)
    moreover have "kv_slots ?kv = kv_slots kv" using refs(2) by (simp add: kv_slots_def)
    ultimately show "owns (allocator ?kv) (kv_refs ?kv) (kv_slots ?kv)" using own by simp
    have "request_of (sequences ?kv) = request_of (sequences kv)"
      using st by (simp add: request_of_def fun_eq_iff)
    then show "index_ok ?kv" using parts(3) by (simp add: index_ok_def sequences_for_def)
    show "prefix_ok ?kv" using pre [OF refl shape] .
    fix other u assume "sequences ?kv other = Some u"
    then show "sm_sequence_id (metadata u) = other \<and> tables_ok ?kv (tables u) \<and> no_dup (tables_refs (tables u))"
      using parts(6) [of other] kv_inv_tables [OF inv, of other] kv_inv_no_dup [OF inv, of other] st
      unfolding tables_ok_cong [OF shape] by (cases "other = sid") auto
  qed (use parts in simp_all)
qed

lemma mark_user_view:
  assumes "sequences kv sid = Some st" and "frame_of al = frame_of (allocator kv)"
    and "swapped al = swapped (allocator kv)"
  shows "kv_view (mark_user kv al sid st key h recs) = kv_view kv"
  using assms tables_view_cong [OF assms(2,3)] by (simp add: kv_view_def fun_eq_iff)

lemma join_prefix_inv:
  assumes inv: "kv_inv kv" and st: "sequences kv sid = Some st" and plain: "prefix_key st = []"
    and few: "card (dom (sequences kv)) < 4294967295"
    and recs: "prefix_index kv key = Some recs" and i: "i < length recs"
    and ne: "\<not> bt_empty (text_table st)"
  shows "kv_inv (mark_user kv (allocator kv) sid st key (content_hash (recs ! i))
    (recs[i := (recs ! i)\<lparr>users := users (recs ! i) + 1\<rparr>]))"
proof (rule mark_user_inv [OF inv st])
  note parts = kv_inv_parts [OF inv]
  have key: "key \<noteq> []" using parts(4) recs unfolding prefix_ok_def by blast
  have "records_refs (recs[i := (recs ! i)\<lparr>users := users (recs ! i) + 1\<rparr>]) = records_refs recs"
    using records_refs_at [OF i] by simp
  then show "owns (allocator kv) (map_total seq_refs (sequences kv)
      + records_refs (recs[i := (recs ! i)\<lparr>users := users (recs ! i) + 1\<rparr>])
      + map_total records_refs ((prefix_index kv)(key := None))) (kv_slots kv)"
    using kv_inv_owns [OF inv] map_total_remove [OF parts(2) recs, of records_refs]
    by (simp add: kv_refs_def ac_simps)
  fix kv'
  assume kv': "kv' = mark_user kv (allocator kv) sid st key (content_hash (recs ! i))
      (recs[i := (recs ! i)\<lparr>users := users (recs ! i) + 1\<rparr>])"
    and shape: "table_count kv' = table_count kv" "kv_tokens_per_block kv' = kv_tokens_per_block kv"
  show "prefix_ok kv'"
    by (rule prefix_ok_join [OF parts(4) parts(1) few, where sid = sid and i = i
          and st = "st\<lparr>prefix_key := key, prefix_hash := content_hash (recs ! i)\<rparr>" and recs = recs])
      (use st plain recs i key ne shape in \<open>simp_all add: kv' text_table_def\<close>)
qed simp

section \<open>Publishing\<close>

lemma hash_entries_total:
  assumes "alloc_inv al"
  shows "hash_entries al es h \<noteq> None"
proof (induction es arbitrary: h)
  case Nil
  then show ?case by simp
next
  case (Cons e es)
  have mem: "memory_inv al" using assms by (simp add: alloc_inv_def)
  show ?case
  proof (cases "al_block al (physical_id e)")
    case None
    then show ?thesis using Cons by simp
  next
    case (Some b)
    have "length (blocks al) = unat (max_blocks (config al))"
      using mem by (simp add: memory_inv_def Let_def)
    then have "unat (physical_id e) < unat (max_blocks (config al))"
      using Some by (simp add: al_block_def split: if_splits)
    then obtain b' where "al_block al (physical_id e) = Some b'" "pb_size_bytes b' = block_stride_bytes al"
      "frame_bytes al b' (unat (block_stride_bytes al)) = Some (frame_of al (physical_id e))"
      using frame_bytes_full [OF mem] by metis
    then show ?thesis using Cons Some by simp
  qed
qed

lemma content_hash_total: "alloc_inv al \<Longrightarrow> \<exists>h. content_hash_of al ts = Some h"
proof -
  assume inv: "alloc_inv al"
  have "hash_tables al ts h \<noteq> None" for h
    using hash_entries_total [OF inv]
    by (induction ts arbitrary: h) (auto simp: content_hash_of_table_def split: option.split)
  then show ?thesis by (auto simp: content_hash_of_def)
qed

lemma tables_ok_blocks:
  assumes "tables_ok kv ts"
  shows "length (concat (map entries ts)) = unat (table_count kv) * length (entries (hd ts))"
proof -
  have "list_all (\<lambda>t. length (entries t) = n) us \<Longrightarrow> length (concat (map entries us)) = length us * n"
    for us :: "BlockTable list" and n by (induction us) simp_all
  from this [of "length (entries (hd ts))" ts] show ?thesis using assms by (simp add: tables_ok_def)
qed

text \<open>The branch that publishes new content: the blocks get one more reference each.\<close>

lemma new_record_inv:
  assumes inv: "kv_inv kv" and st: "sequences kv sid = Some st" and plain: "prefix_key st = []"
    and key: "key \<noteq> []" and ne: "\<not> bt_empty (text_table st)"
    and slots: "tables_slots (tables st) = {#}"
    and few: "\<And>p. count (kv_refs kv) p + count (tables_refs (tables st)) p < 4294967296"
  defines "recs \<equiv> (case prefix_index kv key of None \<Rightarrow> [] | Some rs \<Rightarrow> rs)"
    and "ids \<equiv> map physical_id (concat (map entries (tables st)))"
  assumes new: "find_record h recs = None"
    and rec: "content_hash rec = h" "physical_ids rec = ids" "users rec = 1"
      "pr_token_count rec = of_nat (bt_size (text_table st)) * kv_tokens_per_block kv"
  shows "kv_inv (mark_user kv (foldl retain (allocator kv) ids) sid st key h (recs @ [rec]))"
    and "kv_view (mark_user kv (foldl retain (allocator kv) ids) sid st key h (recs @ [rec])) = kv_view kv"
proof -
  note parts = kv_inv_parts [OF inv]
  let ?al = "foldl retain (allocator kv) ids"
  note split = kv_split [OF parts(1) st]
  have own0: "owns (allocator kv) (rest_refs kv sid + tables_refs (tables st)) (kv_slots kv)"
    using kv_owns_split [OF inv st] split by simp
  note ret = retain_tables_step [OF own0 slots few [unfolded split], folded ids_def]
  have mset: "mset ids = tables_refs (tables st)" using resident_refs [OF slots] by (simp add: ids_def)
  show "kv_view (mark_user kv ?al sid st key h (recs @ [rec])) = kv_view kv"
    using st ret(4,5) by (rule mark_user_view)
  show "kv_inv (mark_user kv ?al sid st key h (recs @ [rec]))"
  proof (rule mark_user_inv [OF inv st])
    have "map_total records_refs (prefix_index kv)
        = records_refs recs + map_total records_refs ((prefix_index kv)(key := None))"
      using map_total_remove [OF parts(2), of key _ records_refs] unfolding recs_def
      by (cases "prefix_index kv key") (simp_all add: records_refs_def fun_upd_idem)
    then show "owns ?al (map_total seq_refs (sequences kv) + records_refs (recs @ [rec])
        + map_total records_refs ((prefix_index kv)(key := None))) (kv_slots kv)"
      using ret(1) split mset rec(2) by (simp add: kv_refs_def records_refs_def ac_simps)
    show "config ?al = config (allocator kv)" using ret(2) by (simp add: keeps_def)
    fix kv'
    assume kv': "kv' = mark_user kv ?al sid st key h (recs @ [rec])"
      and shape: "table_count kv' = table_count kv" "kv_tokens_per_block kv' = kv_tokens_per_block kv"
    let ?st = "st\<lparr>prefix_key := key, prefix_hash := h\<rparr>"
    have old: "map_option prefix_key (sequences kv sid) \<in> {None, Some []}" using st plain by simp
    have had: "distinct (map content_hash recs)" "list_all (record_ok kv key) recs"
      using parts(4) unfolding prefix_ok_def recs_def by (cases "prefix_index kv key"; simp)+
    have fresh: "h \<notin> content_hash ` set recs" using new by (simp add: find_record_None)
    have "prefix_users (sequences kv) key h = {}"
      using parts(4) key fresh unfolding prefix_ok_def recs_def
      by (fastforce simp: prefix_users_def split: option.splits)
    then have "prefix_users (sequences kv') key h = {sid}"
      using prefix_users_add(1) [of "sequences kv" sid key ?st h, OF old key] by (simp add: kv')
    moreover have "length ids = unat (table_count kv) * bt_size (text_table st)"
      using tables_ok_blocks [OF kv_inv_tables [OF inv st]] by (simp add: ids_def bt_size_def text_table_def)
    moreover have "0 < bt_size (text_table st)" "bt_size (text_table st) < 4294967296"
      using ne tables_ok_contiguous [OF kv_inv_tables [OF inv st]] tables_ok_nonempty [OF kv_inv_tables [OF inv st]]
      by (cases "tables st"; simp add: bt_size_def bt_empty_def text_table_def bt_contiguous_def)+
    moreover have "distinct ids" using kv_inv_no_dup [OF inv st] by (simp add: mset [symmetric])
    ultimately have r: "record_ok kv' key rec"
      using rec by (auto simp: record_ok_def shape)
    have "record_ok kv' key x = record_ok kv key x" if "x \<in> set recs" for x
      using record_ok_add [OF old _ shape key, of ?st x] that fresh by (auto simp: kv')
    then have others: "list_all (record_ok kv' key) recs" using had(2) by (simp add: list_all_iff)
    show "prefix_ok kv'"
      by (rule prefix_ok_add [OF parts(4) old, of ?st _ "recs @ [rec]"])
        (use key ne shape had(1) fresh rec(1) r others in \<open>auto simp: kv' text_table_def recs_def\<close>)
  qed
qed

definition can_publish :: "KVCacheManager \<Rightarrow> SequenceId \<Rightarrow> string \<Rightarrow> bool" where
  "can_publish kv sid key =
     (case sequences kv sid of
        None \<Rightarrow> False
      | Some st \<Rightarrow> key \<noteq> [] \<and> \<not> bt_empty (text_table st)
          \<and> (prefix_key st = key \<or> kv_tokens_per_block kv \<noteq> 0 \<and> kv_swapped kv sid = 0))"

lemma publish_prefix_step:
  assumes inv: "kv_inv kv" and run: "publish_prefix kv sid key = (ok, kv')"
    and first: "\<And>st. sequences kv sid = Some st \<Longrightarrow> prefix_key st = [] \<or> prefix_key st = key"
    and few: "card (dom (sequences kv)) < 4294967295"
    and refs: "\<And>st p. sequences kv sid = Some st \<Longrightarrow>
      count (kv_refs kv) p + count (tables_refs (tables st)) p < 4294967296"
  shows "kv_inv kv' \<and> kv_view kv' = kv_view kv \<and> (ok \<longleftrightarrow> can_publish kv sid key)
    \<and> (\<not> ok \<longrightarrow> kv' = kv) \<and> dom (sequences kv') = dom (sequences kv)
    \<and> (ok \<longrightarrow> map_option prefix_key (sequences kv' sid) = Some key)"
proof (cases "sequences kv sid")
  case None
  then show ?thesis
    using inv run by (auto simp: publish_prefix_def can_publish_def split: if_splits)
next
  case (Some st)
  note parts = kv_inv_parts [OF inv]
  obtain h where h: "content_hash_of (allocator kv) (tables st) = Some h"
    using content_hash_total [OF parts(5)] by blast
  have swapped_iff: "list_ex has_swapped (tables st) \<longleftrightarrow> kv_swapped kv sid \<noteq> 0"
    using any_swapped none_swapped Some by (auto simp: kv_swapped_def)
  show ?thesis
  proof (cases "key \<noteq> [] \<and> \<not> bt_empty (text_table st) \<and> prefix_key st \<noteq> key
      \<and> kv_tokens_per_block kv \<noteq> 0 \<and> \<not> list_ex has_swapped (tables st)")
    case False
    then show ?thesis
      using inv run Some h swapped_iff
      by (auto simp: publish_prefix_def can_publish_def Let_def split: if_splits)
  next
    case True
    then have plain: "prefix_key st = []" using first [OF Some] by blast
    let ?recs = "case prefix_index kv key of None \<Rightarrow> [] | Some recs \<Rightarrow> recs"
    let ?ids = "map physical_id (concat (map entries (tables st)))"
    let ?rec = "\<lparr>content_hash = h, pr_token_count = u32_of_size (bt_size (text_table st)) * kv_tokens_per_block kv,
      users = 1, physical_ids = ?ids\<rparr>"
    have pub: "can_publish kv sid key" using True Some swapped_iff by (simp add: can_publish_def)
    have "ok \<and> kv_inv kv' \<and> kv_view kv' = kv_view kv \<and> dom (sequences kv') = dom (sequences kv)
        \<and> map_option prefix_key (sequences kv' sid) = Some key"
    proof (cases "find_record h ?recs")
      case None
      have eq: "ok" "kv' = mark_user kv (foldl retain (allocator kv) ?ids) sid st key h (?recs @ [?rec])"
        using run True Some h None by (auto simp: publish_prefix_def Let_def mark_user_def)
      have slots: "tables_slots (tables st) = {#}" using True none_swapped by blast
      have "kv_inv kv'" "kv_view kv' = kv_view kv"
        unfolding eq(2)
        using new_record_inv [OF inv Some plain _ _ slots refs [OF Some] None, of ?rec] True by simp_all
      then show ?thesis using eq(1) Some unfolding eq(2) by auto
    next
      case (Some i)
      have i: "i < length ?recs" "content_hash (?recs ! i) = h" using find_record_Some [OF Some] by blast+
      then obtain recs where recs: "prefix_index kv key = Some recs" by (cases "prefix_index kv key") auto
      have eq: "ok" "kv' = mark_user kv (allocator kv) sid st key (content_hash (recs ! i))
          (recs[i := (recs ! i)\<lparr>users := users (recs ! i) + 1\<rparr>])"
        using run True \<open>sequences kv sid = Some st\<close> h Some recs
        by (auto simp: publish_prefix_def Let_def mark_user_def)
      have "kv_inv kv'"
        unfolding eq(2) using i recs True
        by (intro join_prefix_inv [OF inv \<open>sequences kv sid = Some st\<close> plain few recs]) simp_all
      moreover have "kv_view kv' = kv_view kv"
        unfolding eq(2) by (rule mark_user_view [OF \<open>sequences kv sid = Some st\<close>]) simp_all
      ultimately show ?thesis using eq(1) \<open>sequences kv sid = Some st\<close> unfolding eq(2) by auto
    qed
    then show ?thesis using pub by simp
  qed
qed

section \<open>Attaching\<close>

text \<open>The record an attachment would use.\<close>

definition attachable :: "KVCacheManager \<Rightarrow> SequenceId \<Rightarrow> string \<Rightarrow> PrefixRecord option" where
  "attachable kv sid key =
     (case (sequences kv sid, prefix_index kv key) of
        (Some st, Some [rec]) \<Rightarrow> if bt_empty (text_table st) \<and> kv_tokens_per_block kv \<noteq> 0 then Some rec else None
      | _ \<Rightarrow> None)"

lemma tables_empty:
  "tables_ok kv ts \<Longrightarrow> bt_empty (hd ts) \<Longrightarrow> list_all (\<lambda>t. entries t = []) ts"
  by (auto simp: tables_ok_def bt_empty_def list_all_iff)

lemma tables_refs_empty: "list_all (\<lambda>t. entries t = []) ts \<Longrightarrow> tables_refs ts = {#}"
  by (induction ts) (simp_all add: table_refs_def)

lemma append_blocks_empty [simp]: "bt_empty (append_blocks sid tpb w ps t) \<longleftrightarrow> bt_empty t \<and> ps = []"
  by (cases ps) (auto simp: bt_empty_def append_blocks_def)

lemma attach_prefix_step:
  assumes inv: "kv_inv kv" and run: "attach_prefix kv sid key = (n, kv')"
    and few: "card (dom (sequences kv)) < 4294967295"
    and refs: "\<And>rec p. attachable kv sid key = Some rec \<Longrightarrow>
      count (kv_refs kv) p + count (mset (physical_ids rec)) p < 4294967296"
  shows "kv_inv kv'" and "attachable kv sid key = None \<Longrightarrow> n = 0 \<and> kv' = kv"
    and "other \<noteq> sid \<Longrightarrow> kv_view kv' other = kv_view kv other"
    and "attachable kv sid key = Some rec \<Longrightarrow> n = pr_token_count rec
      \<and> (\<exists>b. length (physical_ids rec) = unat (table_count kv) * b \<and> 0 < b
          \<and> n = of_nat b * kv_tokens_per_block kv
          \<and> kv_view kv' sid = Some (map (map (Some \<circ> frame_of (allocator kv)))
               (chunks (unat (table_count kv)) b (physical_ids rec))))
      \<and> free_list (allocator kv') = free_list (allocator kv)"
proof -
  note parts = kv_inv_parts [OF inv]
  have main: "kv_inv kv' \<and> (attachable kv sid key = None \<longrightarrow> n = 0 \<and> kv' = kv)
    \<and> (other \<noteq> sid \<longrightarrow> kv_view kv' other = kv_view kv other)
    \<and> (\<forall>rec. attachable kv sid key = Some rec \<longrightarrow> n = pr_token_count rec
      \<and> (\<exists>b. length (physical_ids rec) = unat (table_count kv) * b \<and> 0 < b
          \<and> n = of_nat b * kv_tokens_per_block kv
          \<and> kv_view kv' sid = Some (map (map (Some \<circ> frame_of (allocator kv)))
               (chunks (unat (table_count kv)) b (physical_ids rec))))
      \<and> free_list (allocator kv') = free_list (allocator kv))"
  proof (cases "attachable kv sid key")
    case None
    have "(n, kv') = (0, kv)"
      using run None by (auto simp: attach_prefix_def attachable_def Let_def length_Suc_conv
          split: option.splits list.splits if_splits)
    then show ?thesis using inv None by simp
  next
    case (Some rec)
    obtain st where st: "sequences kv sid = Some st" and recs: "prefix_index kv key = Some [rec]"
      and empty: "bt_empty (text_table st)" and tpb: "kv_tokens_per_block kv \<noteq> 0"
      using Some by (auto simp: attachable_def split: option.splits list.splits if_splits)
    have key: "key \<noteq> []" and rok: "record_ok kv key rec"
      using parts(4) recs unfolding prefix_ok_def by (blast, fastforce)
    have plain: "prefix_key st = []" using parts(4) st empty unfolding prefix_ok_def by blast
    note tok = kv_inv_tables [OF inv st]
    have tc: "length (tables st) = unat (table_count kv)" using tok by (simp add: tables_ok_def)
    obtain b where b: "0 < b" "b < 4294967296" "length (physical_ids rec) = unat (table_count kv) * b"
      "pr_token_count rec = of_nat b * kv_tokens_per_block kv"
      using rok by (auto simp: record_ok_def)
    let ?n = "unat (table_count kv)"
    have all_empty: "list_all (\<lambda>t. entries t = []) (tables st)"
      using tables_empty [OF tok] empty by (simp add: text_table_def)
    let ?ps = "physical_ids rec" and ?al = "foldl retain (allocator kv) (physical_ids rec)"
    let ?pss = "chunks ?n b (physical_ids rec)"
    let ?ts = "map2 (append_blocks sid (kv_tokens_per_block kv) False) ?pss (tables st)"
    have att: "attach_tables sid (kv_tokens_per_block kv) b ?ps (allocator kv) (tables st) = (?al, ?ts)"
      using attach_tables_eq [OF all_empty b(2)] tc b(3) by simp
    have conc: "concat ?pss = ?ps" using b(3) by (simp add: concat_chunks)
    have pos: "0 < ?n" by (rule table_count_pos)
    have nonzero: "?ps \<noteq> []" "?n \<noteq> 0" "length ?ps mod ?n = 0" "length ?ps div ?n = b"
      using b pos by auto
    have res: "n = pr_token_count rec"
      "kv' = mark_user (with_tables kv sid st ?al ?ts) ?al sid (st\<lparr>tables := ?ts\<rparr>) key (content_hash rec)
         [rec\<lparr>users := users rec + 1\<rparr>]"
      using run st recs empty tpb key att tc nonzero
      by (simp_all add: attach_prefix_def mark_user_def with_tables_def)
    have sub: "set ?ps \<subseteq> set_mset (kv_refs kv)"
      using rest_record_mem [OF parts(2) recs, of rec] by (auto simp: kv_refs_def)
    note ret = owns_retain_all [OF kv_inv_owns [OF inv] sub refs [OF Some]]
    have fits: "length (entries (hd (tables st))) + b < 4294967296"
      using empty b(2) by (simp add: bt_empty_def text_table_def)
    have own: "owns ?al (kv_refs kv + mset (concat ?pss)) (kv_slots kv)" using ret(1) conc by simp
    have lens: "list_all (\<lambda>ps. length ps = b) ?pss" using chunks_lengths [OF b(3)] .
    have "distinct ?ps" using rok by (simp add: record_ok_def)
    moreover have "tables_refs (tables st) = {#}" using all_empty by (rule tables_refs_empty)
    ultimately have dup: "no_dup (tables_refs (tables st) + mset (concat ?pss))" using conc by simp
    note app = append_kv [OF inv st own ret(2) _ lens fits dup, where w = False]
    let ?kv1 = "with_tables kv sid st ?al ?ts"
    have inv1: "kv_inv ?kv1" using app(1) tc by simp
    have st1: "sequences ?kv1 sid = Some (st\<lparr>tables := ?ts\<rparr>)" by simp
    have "tables st \<noteq> []" using tok by (rule tables_ok_nonempty)
    then obtain t ts where ts: "tables st = t # ts" by (cases "tables st") auto
    then obtain k where k: "?n = Suc k" using tc by (metis length_Cons)
    have "hd ?pss \<noteq> []" using k b(1,3) by (auto simp: take_eq_Nil)
    then have "\<not> bt_empty (text_table (st\<lparr>tables := ?ts\<rparr>))"
      using ts k by (simp add: text_table_def)
    then have "kv_inv kv'"
      using join_prefix_inv [OF inv1 st1, of key "[rec]" 0] plain recs few st res(2)
      by (simp add: insert_absorb domIff)
    moreover have view1: "kv_view kv' = kv_view ?kv1"
      unfolding res(2) by (rule mark_user_view [OF st1]) simp_all
    moreover have "tables_view al us = replicate (length us) []" if "list_all (\<lambda>t. entries t = []) us"
      for al us using that by (induction us) (simp_all add: table_view_def)
    then have "kv_view ?kv1 sid = Some (map (map (Some \<circ> frame_of (allocator kv))) ?pss)"
      using app(4) tc all_empty ret(3) by (simp add: zip_replicate1 comp_def case_prod_beta)
    moreover have "kv_view ?kv1 other = kv_view kv other" if "other \<noteq> sid"
      using app(2) [OF _ that] tc by simp
    moreover have "free_list (foldl retain al ps) = free_list al" for al ps
      by (induction ps arbitrary: al) (simp_all add: retain_def)
    ultimately show ?thesis using res b Some by (auto simp: res(2))
  qed
  then show "kv_inv kv'" and "attachable kv sid key = None \<Longrightarrow> n = 0 \<and> kv' = kv"
    and "other \<noteq> sid \<Longrightarrow> kv_view kv' other = kv_view kv other" by blast+
  show "n = pr_token_count rec
      \<and> (\<exists>b. length (physical_ids rec) = unat (table_count kv) * b \<and> 0 < b
          \<and> n = of_nat b * kv_tokens_per_block kv
          \<and> kv_view kv' sid = Some (map (map (Some \<circ> frame_of (allocator kv)))
               (chunks (unat (table_count kv)) b (physical_ids rec))))
      \<and> free_list (allocator kv') = free_list (allocator kv)" if "attachable kv sid key = Some rec"
    using main that by blast
qed

end
