(* ===== verification/KVSystem.thy ===== *)
theory KVSystem
  imports KVPrefix
begin

text \<open>
  The cache manager as a state machine. A step is one call of a manager operation, or a client
  storing bytes through the frame that \<^verbatim>\<open>ensure_token_writable\<close> prepared. Every reachable
  state satisfies \<open>kv_inv\<close>, and the machine refines an abstract store in which each sequence owns
  a private array of blocks: no frames, no sharing, no swapping.
\<close>

section \<open>Definitions\<close>

text \<open>A client writes a whole block through the pointer of a frame.\<close>

definition client_write :: "KVCacheManager \<Rightarrow> PhysicalBlockId \<Rightarrow> u8 list \<Rightarrow> KVCacheManager" where
  "client_write kv p bs =
     (case al_block (allocator kv) p of
        None \<Rightarrow> kv
      | Some b \<Rightarrow> kv\<lparr>allocator := write_frame (allocator kv) b bs\<rparr>)"

datatype kv_op =
    CreateSequence SequenceMetadata
  | ForkSequence SequenceId SequenceMetadata
  | ReserveTokens SequenceId u32
  | EnsureWritable SequenceId TokenPosition CacheKind u32
  | ClientWrite SequenceId TokenPosition u32 PhysicalBlockId "u8 list"
  | SwapOutSequence SequenceId
  | SwapInSequence SequenceId
  | ReleaseSequence SequenceId
  | SwapOutRequest RequestId
  | SwapInRequest RequestId
  | ReleaseRequest RequestId
  | PublishPrefix SequenceId string
  | AttachPrefix SequenceId string

fun kv_apply :: "kv_op \<Rightarrow> KVCacheManager \<Rightarrow> KVCacheManager" where
  "kv_apply (CreateSequence meta) kv = snd (create_sequence kv meta)"
| "kv_apply (ForkSequence parent meta) kv = snd (fork_sequence kv parent meta)"
| "kv_apply (ReserveTokens sid n) kv = snd (reserve_tokens kv sid n)"
| "kv_apply (EnsureWritable sid pos kind layer) kv = snd (ensure_token_writable kv sid pos kind layer)"
| "kv_apply (ClientWrite sid pos layer p bs) kv = client_write kv p bs"
| "kv_apply (SwapOutSequence sid) kv = snd (swap_out_sequence kv sid)"
| "kv_apply (SwapInSequence sid) kv = snd (swap_in_sequence kv sid)"
| "kv_apply (ReleaseSequence sid) kv = release_sequence kv sid"
| "kv_apply (SwapOutRequest rid) kv = snd (swap_out_request kv rid)"
| "kv_apply (SwapInRequest rid) kv = snd (swap_in_request kv rid)"
| "kv_apply (ReleaseRequest rid) kv = release_request kv rid"
| "kv_apply (PublishPrefix sid key) kv = snd (publish_prefix kv sid key)"
| "kv_apply (AttachPrefix sid key) kv = snd (attach_prefix kv sid key)"

text \<open>The machine-integer limits a run must stay within: reference counts and user counts below
  \<open>2 ^ 32\<close>, block counts of one reservation or one resume below \<open>2 ^ 32\<close>, swap slots numbered
  below \<open>2 ^ 64\<close>. A sequence publishes under one key only, and clients write only where a write
  was prepared.\<close>

definition refs_room :: "KVCacheManager \<Rightarrow> bool" where
  "refs_room kv \<longleftrightarrow> (\<forall>p. 2 * count (kv_refs kv) p < 4294967296)"

definition users_room :: "KVCacheManager \<Rightarrow> bool" where
  "users_room kv \<longleftrightarrow> card (dom (sequences kv)) < 4294967295"

definition reserve_fits :: "KVCacheManager \<Rightarrow> SequenceId \<Rightarrow> u32 \<Rightarrow> bool" where
  "reserve_fits kv sid n =
     (case sequences kv sid of
        None \<Rightarrow> True
      | Some st \<Rightarrow>
          kv_tokens_per_block kv = 0
          \<or> (unat n + unat (kv_tokens_per_block kv) \<le> 4294967296
             \<and> blocks_for (kv_tokens_per_block kv) n * length (tables st) < 4294967296
             \<and> length (entries (hd (tables st))) + blocks_for (kv_tokens_per_block kv) n < 4294967296))"

definition write_length_ok :: "KVCacheManager \<Rightarrow> u8 list \<Rightarrow> bool" where
  "write_length_ok kv bs \<longleftrightarrow> length bs = unat (block_stride_bytes (allocator kv))"

fun kv_enabled :: "kv_op \<Rightarrow> KVCacheManager \<Rightarrow> bool" where
  "kv_enabled (ForkSequence parent meta) kv = refs_room kv"
| "kv_enabled (ReserveTokens sid n) kv = reserve_fits kv sid n"
| "kv_enabled (ClientWrite sid pos layer p bs) kv = (write_ready kv sid pos layer p \<and> write_length_ok kv bs)"
| "kv_enabled (SwapOutSequence sid) kv = swap_room (allocator kv) (seq_blocks kv sid)"
| "kv_enabled (SwapInSequence sid) kv = (kv_swapped kv sid < 4294967296)"
| "kv_enabled (SwapOutRequest rid) kv =
     swap_room (allocator kv) (sum_list (map (seq_blocks kv) (sequences_for kv rid)))"
| "kv_enabled (SwapInRequest rid) kv =
     (sum_list (map (kv_swapped kv) (sequences_for kv rid)) < 4294967296)"
| "kv_enabled (PublishPrefix sid key) kv =
     (refs_room kv \<and> users_room kv
      \<and> (case sequences kv sid of None \<Rightarrow> True | Some st \<Rightarrow> prefix_key st = [] \<or> prefix_key st = key))"
| "kv_enabled (AttachPrefix sid key) kv = (refs_room kv \<and> users_room kv)"
| "kv_enabled _ kv = True"

inductive kv_step :: "KVCacheManager \<Rightarrow> kv_op \<Rightarrow> KVCacheManager \<Rightarrow> bool" where
  step: "kv_enabled op kv \<Longrightarrow> kv_step kv op (kv_apply op kv)"

inductive kv_reachable :: "KVCacheManager \<Rightarrow> KVCacheManager \<Rightarrow> bool" for kv where
  start: "kv_reachable kv kv"
| next_step: "kv_reachable kv kv1 \<Longrightarrow> kv_step kv1 op kv2 \<Longrightarrow> kv_reachable kv kv2"

inductive_simps kv_step_simps: "kv_step kv op kv'"

text \<open>The abstract store: what each sequence contains, as a private array of blocks per table.\<close>

type_synonym cache_spec = "SequenceId \<Rightarrow> u8 list option list list option"

definition spec_extend :: "u8 list option list list option \<Rightarrow> u8 list option list list option \<Rightarrow> bool" where
  "spec_extend v v' \<longleftrightarrow>
     (\<exists>old new. v = Some old \<and> v' = Some (map2 (@) old new) \<and> length new = length old)"

fun spec_step :: "nat \<Rightarrow> u32 \<Rightarrow> kv_op \<Rightarrow> cache_spec \<Rightarrow> cache_spec \<Rightarrow> bool" where
  "spec_step tc tpb (CreateSequence meta) v v' \<longleftrightarrow>
     v' = (case v (sm_sequence_id meta) of None \<Rightarrow> v(sm_sequence_id meta \<mapsto> replicate tc []) | Some _ \<Rightarrow> v)"
| "spec_step tc tpb (ForkSequence parent meta) v v' \<longleftrightarrow>
     v' = v \<or> v (sm_sequence_id meta) = None \<and> v parent \<noteq> None \<and> v' = v(sm_sequence_id meta := v parent)"
| "spec_step tc tpb (ReserveTokens sid n) v v' \<longleftrightarrow>
     v' = v \<or> spec_extend (v sid) (v' sid) \<and> v' = v(sid := v' sid)"
| "spec_step tc tpb (ClientWrite sid pos layer p bs) v v' \<longleftrightarrow>
     (\<exists>old. v sid = Some old \<and> unat layer < length old
        \<and> unat (pos div tpb) < length (old ! unat layer)
        \<and> v' = v(sid \<mapsto> old[unat layer := (old ! unat layer)[unat (pos div tpb) := Some bs]]))"
| "spec_step tc tpb (ReleaseSequence sid) v v' \<longleftrightarrow> v' = v(sid := None)"
| "spec_step tc tpb (ReleaseRequest rid) v v' \<longleftrightarrow> (\<exists>S. v' = (\<lambda>sid. if sid \<in> S then None else v sid))"
| "spec_step tc tpb (AttachPrefix sid key) v v' \<longleftrightarrow>
     v' = v \<or> v sid = Some (replicate tc []) \<and> spec_extend (v sid) (v' sid) \<and> v' = v(sid := v' sid)"
| "spec_step tc tpb _ v v' \<longleftrightarrow> v' = v"

section \<open>Client writes\<close>

lemma owns_write:
  assumes own: "owns al F L" and one: "count F p = 1"
    and len: "length bs = unat (block_stride_bytes al)"
  obtains b where "al_block al p = Some b" and "owns (write_frame al b bs) F L"
    and "keeps (F - {#p#}) L al (write_frame al b bs)" and "frame_of (write_frame al b bs) p = bs"
proof -
  have inv: "alloc_inv al" using own by (rule owns_inv)
  have mem: "memory_inv al" and ids: "ids_inv al" using inv by (simp_all add: alloc_inv_def)
  have "p \<in># F" using one by (metis count_greater_zero_iff zero_less_one)
  then have lt: "unat p < unat (max_blocks (config al))"
    using owns_valid [OF own, of p] alloc_inv_valid [OF inv] by (simp add: capacity_def)
  let ?al = "al\<lparr>pool := overwrite (unat p * unat (block_stride_bytes al)) bs (pool al)\<rparr>"
  obtain b where b: "al_block al p = Some b" "write_frame al b bs = ?al"
    using frame_bytes_full [OF mem lt] len by metis
  note w = write_pool_frame [OF mem lt len]
  have "ids_inv ?al" using ids ref_of_cong [of ?al al] by (simp add: ids_inv_def)
  then have own': "owns ?al F L"
    using own w(1) by (simp add: owns_def alloc_inv_def alloc_refs_def slots_of_def swapped_def)
  have "p \<notin># F - {#p#}" using one by (simp add: not_in_iff)
  then have "frame_of ?al q = frame_of al q" if "q \<in># F - {#p#}" for q using w(2) [of q] that by auto
  then have "keeps (F - {#p#}) L al ?al" by (simp add: keeps_def capacity_def swapped_def)
  then show ?thesis using that b own' w(2) [of p] by simp
qed

lemma client_write_step:
  assumes inv: "kv_inv kv" and ready: "write_ready kv sid pos layer p" and len: "write_length_ok kv bs"
  shows "kv_inv (client_write kv p bs)" and "prefix_view (client_write kv p bs) = prefix_view kv"
    and "\<exists>old. kv_view kv sid = Some old \<and> unat layer < length old
      \<and> unat (pos div kv_tokens_per_block kv) < length (old ! unat layer)
      \<and> kv_view (client_write kv p bs) = (kv_view kv)(sid \<mapsto> old[unat layer :=
           (old ! unat layer)[unat (pos div kv_tokens_per_block kv) := Some bs]])"
proof -
  note parts = kv_inv_parts [OF inv]
  let ?j = "unat layer" and ?i = "unat (pos div kv_tokens_per_block kv)" and ?al = "allocator kv"
  obtain st where st: "sequences kv sid = Some st" and j: "?j < length (tables st)"
    and i: "?i < length (entries (tables st ! ?j))" and p: "physical_id (entries (tables st ! ?j) ! ?i) = p"
    and res: "swap_slot (entries (tables st ! ?j) ! ?i) = None" and ref: "ref_of ?al p = 1"
    using ready by (auto simp: write_ready_def write_target_def split: option.splits if_splits)
  let ?t = "tables st ! ?j" and ?e = "entries (tables st ! ?j) ! ?i"
  have one: "count (kv_refs kv) p = 1" using owns_ref_of [OF kv_inv_owns [OF inv]] ref by simp
  obtain b where b: "al_block ?al p = Some b" and own: "owns (write_frame ?al b bs) (kv_refs kv) (kv_slots kv)"
    and keep: "keeps (kv_refs kv - {#p#}) (kv_slots kv) ?al (write_frame ?al b bs)"
    and frame: "frame_of (write_frame ?al b bs) p = bs"
    using owns_write [OF kv_inv_owns [OF inv] one] len by (auto simp: write_length_ok_def)
  let ?al' = "write_frame ?al b bs" and ?kv = "client_write kv p bs"
  have kv': "?kv = kv\<lparr>allocator := ?al'\<rparr>" using b by (simp add: client_write_def)
  have cfg: "config ?al' = config ?al" using keep by (simp add: keeps_def)
  have shape: "table_count ?kv = table_count kv" "kv_tokens_per_block ?kv = kv_tokens_per_block kv"
    using shape_cong [OF parts(5), of ?kv] owns_inv [OF own] cfg by (simp_all add: kv')
  show "kv_inv ?kv"
  proof (rule kv_invI)
    show "owns (allocator ?kv) (kv_refs ?kv) (kv_slots ?kv)"
      using own by (simp add: kv' kv_refs_def kv_slots_def)
    show "index_ok ?kv" using parts(3) by (simp add: kv' index_ok_def sequences_for_def)
    show "prefix_ok ?kv"
      using parts(4) shape by (simp add: prefix_ok_def record_ok_def kv' list_all_iff)
    show "sm_sequence_id (metadata u) = other \<and> tables_ok ?kv (tables u) \<and> no_dup (tables_refs (tables u))"
      if "sequences ?kv other = Some u" for other u
      using that parts(6) kv_inv_tables [OF inv] kv_inv_no_dup [OF inv] tables_ok_cong [OF shape] by (simp add: kv')
  qed (use parts in \<open>simp_all add: kv'\<close>)
  let ?T = "sum_list (map entry_refs (take ?i (entries ?t) @ drop (Suc ?i) (entries ?t)))"
  let ?R = "tables_refs (take ?j (tables st) @ drop (Suc ?j) (tables st))"
  have split: "kv_refs kv = add_mset p (rest_refs kv sid + ?R + ?T)"
    using kv_split(1) [OF parts(1) st] sum_list_split_at [OF j, of table_refs, folded tables_refs_def]
      sum_list_split_at [OF i, of entry_refs, folded table_refs_def] res p
    by (simp add: entry_resident ac_simps)
  have keep': "keeps (rest_refs kv sid + ?R + ?T) (kv_slots kv) ?al ?al'"
    using keep unfolding split by simp
  have "keeps (rest_refs kv sid) (rest_slots kv sid) ?al ?al'"
    using keep' by (rule keeps_mono) (simp_all add: kv_split(2) [OF parts(1) st])
  note others = keeps_view [OF parts(1) this, of _ ?kv]
  have "map_total records_refs (prefix_index kv) \<subseteq># rest_refs kv sid + ?R + ?T"
    by (simp add: rest_refs_def ac_simps)
  then show "prefix_view ?kv = prefix_view kv"
    by (intro ext keeps_prefix_view [OF parts(2) keep']) (simp_all add: kv')
  have slots: "tables_slots (tables st) \<subseteq># kv_slots kv"
    by (simp add: kv_split(2) [OF parts(1) st])
  have table: "table_view ?al' (tables st ! k) = table_view ?al (tables st ! k)"
    if "k < length (tables st)" "k \<noteq> ?j" for k
  proof (rule keeps_table [OF keep'])
    show "table_refs (tables st ! k) \<subseteq># rest_refs kv sid + ?R + ?T"
      using member_sum_list_mset [OF other_position [OF that], of table_refs, folded tables_refs_def]
      by (rule subset_mset.order_trans) (simp add: ac_simps)
    show "table_slots (tables st ! k) \<subseteq># kv_slots kv"
      using member_sum_list_mset [OF nth_mem [OF that(1)], of table_slots, folded tables_slots_def] slots
      by (rule subset_mset.order_trans)
  qed
  have entry: "entry_content ?al' (entries ?t ! k) = entry_content ?al (entries ?t ! k)"
    if "k < length (entries ?t)" "k \<noteq> ?i" for k
  proof (rule keeps_entry [OF keep'])
    show "entry_refs (entries ?t ! k) \<subseteq># rest_refs kv sid + ?R + ?T"
      using member_sum_list_mset [OF other_position [OF that], of entry_refs]
      by (rule subset_mset.order_trans) simp
    have "entry_slots (entries ?t ! k) \<subseteq># table_slots ?t"
      using member_sum_list_mset [OF nth_mem [OF that(1)], of entry_slots] by (simp add: table_slots_def)
    moreover have "table_slots ?t \<subseteq># tables_slots (tables st)"
      using member_sum_list_mset [OF nth_mem [OF j], of table_slots] by (simp add: tables_slots_def)
    ultimately show "entry_slots (entries ?t ! k) \<subseteq># kv_slots kv"
      using slots by (blast intro: subset_mset.order_trans)
  qed
  have new: "entry_content ?al' ?e = Some bs" using res p frame by (simp add: entry_content_def)
  let ?old = "tables_view ?al (tables st)"
  have "table_view ?al' ?t = (table_view ?al ?t)[?i := Some bs]"
  proof (rule nth_equalityI)
    fix k assume "k < length (table_view ?al' ?t)"
    then have "k < length (entries ?t)" by (simp add: table_view_def)
    then show "table_view ?al' ?t ! k = (table_view ?al ?t)[?i := Some bs] ! k"
      using entry new by (cases "k = ?i") (simp_all add: table_view_def)
  qed (simp add: table_view_def)
  then have "tables_view ?al' (tables st) = ?old[?j := (?old ! ?j)[?i := Some bs]]"
    using table j by (intro nth_equalityI) (auto simp: tables_view_def nth_list_update)
  then have "kv_view ?kv = (kv_view kv)(sid \<mapsto> ?old[?j := (?old ! ?j)[?i := Some bs]])"
    using others st by (auto simp: fun_eq_iff kv' kv_view_def)
  moreover have "kv_view kv sid = Some ?old" using st by (simp add: kv_view_def)
  moreover have "?j < length ?old" "?i < length (?old ! ?j)"
    using j i by (simp_all add: tables_view_def table_view_def)
  ultimately show "\<exists>old. kv_view kv sid = Some old \<and> ?j < length old \<and> ?i < length (old ! ?j)
      \<and> kv_view ?kv = (kv_view kv)(sid \<mapsto> old[?j := (old ! ?j)[?i := Some bs]])" by blast
qed

section \<open>Every step keeps the invariant and follows the specification\<close>

lemma refs_room_tables:
  assumes "kv_inv kv" and "refs_room kv" and "sequences kv sid = Some st"
  shows "count (kv_refs kv) p + count (tables_refs (tables st)) p < 4294967296"
proof -
  have "count (tables_refs (tables st)) p \<le> count (kv_refs kv) p"
    using kv_split(1) [OF kv_inv_parts(1) [OF assms(1)] assms(3)] by simp
  moreover have "2 * count (kv_refs kv) p < 4294967296" using assms(2) by (simp add: refs_room_def)
  ultimately show ?thesis by linarith
qed

lemma refs_room_record:
  assumes "kv_inv kv" and "refs_room kv" and "attachable kv sid key = Some rec"
  shows "count (kv_refs kv) p + count (mset (physical_ids rec)) p < 4294967296"
proof -
  have recs: "prefix_index kv key = Some [rec]"
    using assms(3) by (auto simp: attachable_def split: option.splits list.splits if_splits)
  have "records_refs [rec] \<subseteq># map_total records_refs (prefix_index kv)"
    using map_total_mset_mem [of "prefix_index kv" key "[rec]" records_refs]
      kv_inv_parts(2) [OF assms(1)] recs by simp
  then have "count (mset (physical_ids rec)) p \<le> count (kv_refs kv) p"
    by (auto simp: records_refs_def kv_refs_def dest: mset_subset_eq_count intro: trans_le_add2)
  moreover have "2 * count (kv_refs kv) p < 4294967296" using assms(2) by (simp add: refs_room_def)
  ultimately show ?thesis by linarith
qed

lemma spec_extend_append:
  assumes "length pss = length old"
  shows "spec_extend (Some old) (Some (map2 (\<lambda>v ps. v @ map f ps) old pss))"
proof -
  have "map2 (\<lambda>v ps. v @ map f ps) old pss = map2 (@) old (map (map f) pss)"
    using assms by (induction pss old rule: list_induct2) simp_all
  then show ?thesis
    using assms unfolding spec_extend_def by (intro exI [of _ old] exI [of _ "map (map f) pss"]) simp
qed

lemma reserve_refines:
  assumes inv: "kv_inv kv" and fits: "reserve_fits kv sid n"
  shows "kv_inv (snd (reserve_tokens kv sid n))
    \<and> spec_step tc tpb (ReserveTokens sid n) (kv_view kv) (kv_view (snd (reserve_tokens kv sid n)))"
proof (cases "sequences kv sid = None \<or> kv_tokens_per_block kv = 0")
  case True
  then have "reserve_tokens kv sid n = (False, kv)"
    by (auto simp: reserve_tokens_def split: option.split)
  then show ?thesis using inv by simp
next
  case False
  then obtain st where st: "sequences kv sid = Some st" and tpb: "kv_tokens_per_block kv \<noteq> 0" by auto
  obtain ok kv' where run: "reserve_tokens kv sid n = (ok, kv')" by fastforce
  have lim: "unat n + unat (kv_tokens_per_block kv) \<le> 4294967296"
    "blocks_for (kv_tokens_per_block kv) n * length (tables st) < 4294967296"
    "length (entries (hd (tables st))) + blocks_for (kv_tokens_per_block kv) n < 4294967296"
    using fits st tpb by (simp_all add: reserve_fits_def)
  note step = reserve_tokens_step [OF inv st tpb lim run]
  have others: "kv_view kv' other = kv_view kv other" if "other \<noteq> sid" for other
    using step that by blast
  show ?thesis
  proof (cases ok)
    case False
    then have "kv' = kv" using step by blast
    then show ?thesis using run inv by simp
  next
    case True
    then obtain pss where len: "length pss = length (tables st)"
      and view: "kv_view kv' sid = Some (map2 (\<lambda>v ps. v @ map (Some \<circ> frame_of (allocator kv')) ps)
        (tables_view (allocator kv) (tables st)) pss)"
      using step by blast
    have "kv_view kv sid = Some (tables_view (allocator kv) (tables st))" using st by (simp add: kv_view_def)
    moreover have "length pss = length (tables_view (allocator kv) (tables st))"
      using len by (simp add: tables_view_def)
    ultimately have "spec_extend (kv_view kv sid) (kv_view kv' sid)"
      unfolding view using spec_extend_append by metis
    moreover have "kv_view kv' = (kv_view kv)(sid := kv_view kv' sid)"
      using others by (auto simp: fun_eq_iff)
    ultimately show ?thesis using step run by simp
  qed
qed

lemma fork_refines:
  assumes inv: "kv_inv kv" and room: "refs_room kv"
  shows "kv_inv (snd (fork_sequence kv parent meta))
    \<and> spec_step tc tpb (ForkSequence parent meta) (kv_view kv) (kv_view (snd (fork_sequence kv parent meta)))"
proof -
  obtain ok kv' where run: "fork_sequence kv parent meta = (ok, kv')" by fastforce
  note step = fork_sequence_step [OF inv run refs_room_tables [OF inv room]]
  have "kv_inv kv' \<and> spec_step tc tpb (ForkSequence parent meta) (kv_view kv) (kv_view kv')"
    using step(1,2,3,4) by (cases ok) (auto simp: kv_view_def)
  then show ?thesis using run by simp
qed

lemma attach_refines:
  assumes inv: "kv_inv kv" and room: "refs_room kv" "users_room kv"
  shows "kv_inv (snd (attach_prefix kv sid key))
    \<and> spec_step (unat (table_count kv)) tpb (AttachPrefix sid key) (kv_view kv)
        (kv_view (snd (attach_prefix kv sid key)))"
proof -
  obtain n kv' where run: "attach_prefix kv sid key = (n, kv')" by fastforce
  have few: "card (dom (sequences kv)) < 4294967295" using room(2) by (simp add: users_room_def)
  note step = attach_prefix_step [OF inv run few refs_room_record [OF inv room(1), of sid key], simplified]
  have inv': "kv_inv kv'" using step(1) .
  let ?n = "unat (table_count kv)"
  have "spec_step ?n tpb (AttachPrefix sid key) (kv_view kv) (kv_view kv')"
  proof (cases "attachable kv sid key")
    case None
    then show ?thesis using step(2) by simp
  next
    case (Some rec)
    then obtain st where st: "sequences kv sid = Some st" "bt_empty (text_table st)"
      by (auto simp: attachable_def split: option.splits list.splits if_splits)
    note tok = kv_inv_tables [OF inv st(1)]
    have "tables_view al us = replicate (length us) []" if "list_all (\<lambda>t. entries t = []) us" for al us
      using that by (induction us) (simp_all add: table_view_def)
    then have old: "kv_view kv sid = Some (replicate ?n [])"
      using tables_empty [OF tok] st tok by (simp add: kv_view_def text_table_def tables_ok_def)
    obtain b where new: "kv_view kv' sid = Some (map (map (Some \<circ> frame_of (allocator kv)))
        (chunks ?n b (physical_ids rec)))"
      using step(4) [OF Some] by blast
    have "map2 (\<lambda>v ps. v @ map f ps) (replicate (length pss) []) pss = map (map f) pss" for f pss
      by (induction pss) simp_all
    from this [of "Some \<circ> frame_of (allocator kv)" "chunks ?n b (physical_ids rec)"]
    have "spec_extend (kv_view kv sid) (kv_view kv' sid)"
      using spec_extend_append [of "chunks ?n b (physical_ids rec)" "replicate ?n []"
          "Some \<circ> frame_of (allocator kv)"] old new by simp
    moreover have "kv_view kv' = (kv_view kv)(sid := kv_view kv' sid)"
      using step(3) by (auto simp: fun_eq_iff)
    ultimately show ?thesis using old by simp
  qed
  then show ?thesis using inv' run by simp
qed

lemma swap_refines:
  assumes "kv_inv kv"
  shows "swap_room (allocator kv) (seq_blocks kv sid) \<Longrightarrow>
      kv_inv (snd (swap_out_sequence kv sid)) \<and> kv_view (snd (swap_out_sequence kv sid)) = kv_view kv"
    and "kv_swapped kv sid < 4294967296 \<Longrightarrow>
      kv_inv (snd (swap_in_sequence kv sid)) \<and> kv_view (snd (swap_in_sequence kv sid)) = kv_view kv"
    and "swap_room (allocator kv) (sum_list (map (seq_blocks kv) (sequences_for kv rid))) \<Longrightarrow>
      kv_inv (snd (swap_out_request kv rid)) \<and> kv_view (snd (swap_out_request kv rid)) = kv_view kv"
    and "sum_list (map (kv_swapped kv) (sequences_for kv rid)) < 4294967296 \<Longrightarrow>
      kv_inv (snd (swap_in_request kv rid)) \<and> kv_view (snd (swap_in_request kv rid)) = kv_view kv"
proof -
  show "kv_inv (snd (swap_out_sequence kv sid)) \<and> kv_view (snd (swap_out_sequence kv sid)) = kv_view kv"
    if "swap_room (allocator kv) (seq_blocks kv sid)"
    using swap_out_sequence_step(1,2) [OF assms, of sid 0] that
    by (cases "swap_out_sequence kv sid") (simp add: kv_same_def)
  show "kv_inv (snd (swap_in_sequence kv sid)) \<and> kv_view (snd (swap_in_sequence kv sid)) = kv_view kv"
    if "kv_swapped kv sid < 4294967296"
    using swap_in_sequence_step(1,2) [OF assms that]
    by (cases "swap_in_sequence kv sid") (simp add: kv_same_def)
  show "kv_inv (snd (swap_out_request kv rid)) \<and> kv_view (snd (swap_out_request kv rid)) = kv_view kv"
    if "swap_room (allocator kv) (sum_list (map (seq_blocks kv) (sequences_for kv rid)))"
    using swap_out_sequences_step [OF assms, of "sequences_for kv rid" 0 0] that
    by (cases "swap_out_request kv rid") (simp add: kv_same_def swap_out_request_def)
  show "kv_inv (snd (swap_in_request kv rid)) \<and> kv_view (snd (swap_in_request kv rid)) = kv_view kv"
    if "sum_list (map (kv_swapped kv) (sequences_for kv rid)) < 4294967296"
    using swap_in_request_step(1,2) [OF assms that]
    by (cases "swap_in_request kv rid") (simp add: kv_same_def)
qed

lemma publish_refines:
  assumes "kv_inv kv" and "kv_enabled (PublishPrefix sid key) kv"
  shows "kv_inv (snd (publish_prefix kv sid key)) \<and> kv_view (snd (publish_prefix kv sid key)) = kv_view kv"
proof -
  obtain ok kv' where run: "publish_prefix kv sid key = (ok, kv')" by fastforce
  have "refs_room kv" "card (dom (sequences kv)) < 4294967295"
    and first: "\<And>st. sequences kv sid = Some st \<Longrightarrow> prefix_key st = [] \<or> prefix_key st = key"
    using assms(2) by (auto simp: users_room_def)
  then show ?thesis
    using publish_prefix_step [OF assms(1) run first _ refs_room_tables [OF assms(1)]] run by simp
qed

lemma kv_apply_refines:
  assumes inv: "kv_inv kv" and en: "kv_enabled op kv"
  shows "kv_inv (kv_apply op kv)
    \<and> spec_step (unat (table_count kv)) (kv_tokens_per_block kv) op (kv_view kv) (kv_view (kv_apply op kv))"
proof (cases op)
  case (CreateSequence meta)
  obtain ok kv' where run: "create_sequence kv meta = (ok, kv')" by fastforce
  note step = create_sequence_step [OF inv run]
  show ?thesis
    using step(1,2,3,4) run CreateSequence by (cases ok) (auto simp: kv_view_def split: option.split)
next
  case (EnsureWritable sid pos kind layer)
  obtain r kv' where run: "ensure_token_writable kv sid pos kind layer = (r, kv')" by fastforce
  show ?thesis
    using ensure_token_writable_step [OF inv run] run EnsureWritable by (simp add: kv_same_def)
next
  case (ClientWrite sid pos layer p bs)
  then show ?thesis using client_write_step [OF inv, of sid pos layer p bs] en by simp
next
  case (ReleaseSequence sid)
  then show ?thesis using release_sequence_step [OF inv] by simp
next
  case (ReleaseRequest rid)
  then show ?thesis
    using release_sequences_step [OF inv, of "sequences_for kv rid"]
    by (auto simp: release_request_def)
qed (use inv en reserve_refines fork_refines attach_refines swap_refines publish_refines in
    \<open>auto simp del: spec_step.simps(2,3,7)\<close>)

lemma kv_reachable_inv: "kv_reachable kv kv' \<Longrightarrow> kv_inv kv \<Longrightarrow> kv_inv kv'"
  by (induction rule: kv_reachable.induct) (auto simp: kv_step_simps kv_apply_refines)

end
