(* ===== verification/Scheduler.thy ===== *)
theory Scheduler
  imports KVSystem
begin

text \<open>
  The continuous batcher of \<^verbatim>\<open>include/qwenvl_paged/Scheduler.h\<close> and \<^verbatim>\<open>src/Scheduler.cpp\<close>.

  The scheduler points to a cache manager and to the allocator below it; the model keeps the cache
  manager (which holds its allocator) inside the scheduler's record, so the pool the scheduler
  reads statistics from is the one its cache manager uses. The deques are lists, front first, and
  an iterator is a position. The two loops whose exit depends on the state, the admission loop and
  the reclaiming loop, are recursive functions with termination proofs: the first shortens the
  pending queue, the second the active queue.
\<close>

section \<open>Data\<close>

datatype RequestState = Pending | Prefill | Decode | Preempted | Finished | Cancelled

record SamplingConfig =
  num_parallel_samples :: u32
  max_decode_tokens :: u32

record Request =
  request_id :: RequestId
  root_sequence_id :: SequenceId
  prompt_tokens :: u32
  sampling :: SamplingConfig
  rq_multimodal_spans :: "MultimodalSpan list"
  rq_positional_encoding :: PositionalEncodingMetadata
  rq_prefix_key :: string
  rq_state :: RequestState
  remaining_prefill_tokens :: u32
  admission_skips :: u32
  lifetime_blocks :: u32

record SchedulerConfig =
  max_active_requests :: u32
  max_batch_tokens :: u32
  preemption_watermark_blocks :: u32
  size_aware_admission :: bool
  admission_skip_limit :: u32

record PreemptionInfo =
  reason :: string
  pi_swapped_blocks :: u32

record BatchPlan =
  prefill_requests :: "RequestId list"
  prefill_tokens :: "u32 list"
  decode_requests :: "RequestId list"
  scheduled_tokens :: u32

definition empty_plan :: BatchPlan where
  "empty_plan = \<lparr>prefill_requests = [], prefill_tokens = [], decode_requests = [], scheduled_tokens = 0\<rparr>"

record Scheduler =
  sched_config :: SchedulerConfig
  cache_manager :: KVCacheManager
  pending :: "Request list"
  active :: "Request list"
  preempted :: "Request list"
  preemption_infos :: "RequestId \<rightharpoonup> PreemptionInfo"
  lifetime_held :: u32

definition Scheduler_new :: "SchedulerConfig \<Rightarrow> KVCacheManager \<Rightarrow> Scheduler" where
  "Scheduler_new cfg kv =
     \<lparr>sched_config = cfg, cache_manager = kv, pending = [], active = [], preempted = [],
      preemption_infos = Map.empty, lifetime_held = 0\<rparr>"

section \<open>Helpers\<close>

fun find_request :: "Request list \<Rightarrow> RequestId \<Rightarrow> nat option" where
  "find_request [] rid = None"
| "find_request (r # rs) rid =
     (if request_id r = rid then Some 0 else map_option Suc (find_request rs rid))"

definition erase_at :: "nat \<Rightarrow> 'a list \<Rightarrow> 'a list" where
  "erase_at i xs = take i xs @ drop (Suc i) xs"

definition metadata_from :: "Request \<Rightarrow> SequenceMetadata" where
  "metadata_from r =
     \<lparr>sm_sequence_id = root_sequence_id r, sm_request_id = request_id r,
      sm_multimodal_spans = rq_multimodal_spans r, sm_positional_encoding = rq_positional_encoding r\<rparr>"

definition pool_stats :: "Scheduler \<Rightarrow> AllocatorStats" where
  "pool_stats s = stats (allocator (cache_manager s))"

definition blocks_for_tokens :: "Scheduler \<Rightarrow> u32 \<Rightarrow> u32" where
  "blocks_for_tokens s token_count =
     (case al_block (allocator (cache_manager s)) 0 of
        None \<Rightarrow> 0
      | Some b \<Rightarrow>
          (let shape = pb_shape b; tpb = tokens_per_block shape in
           if tpb = 0 then 0
           else
             let token_blocks = (token_count + tpb - 1) div tpb;
                 n_tables = (if per_layer_frames shape then num_layers shape else 1)
             in token_blocks * n_tables))"

definition cached_tokens :: "Scheduler \<Rightarrow> Request \<Rightarrow> u32" where
  "cached_tokens s r =
     (if rq_prefix_key r = [] then 0 else prefix_token_count (cache_manager s) (rq_prefix_key r))"

definition lifetime_blocks_for :: "Scheduler \<Rightarrow> Request \<Rightarrow> u32" where
  "lifetime_blocks_for s r =
     (let cached = cached_tokens s r;
          usable = (if cached \<le> prompt_tokens r then cached else 0);
          unique = (if prompt_tokens r > usable then prompt_tokens r - usable else 0)
      in blocks_for_tokens s (unique + max_decode_tokens (sampling r)))"

section \<open>Queueing\<close>

definition enqueue :: "Scheduler \<Rightarrow> Request \<Rightarrow> Scheduler" where
  "enqueue s r =
     s\<lparr>pending := pending s @ [r\<lparr>rq_state := Pending, remaining_prefill_tokens := prompt_tokens r,
                                admission_skips := 0, lifetime_blocks := 0\<rparr>]\<rparr>"

definition schedule_prefill_chunk :: "SchedulerConfig \<Rightarrow> Request \<Rightarrow> BatchPlan \<Rightarrow> BatchPlan" where
  "schedule_prefill_chunk cfg r plan =
     (if remaining_prefill_tokens r = 0 then plan
      else if scheduled_tokens plan \<ge> max_batch_tokens cfg then plan
      else
        let chunk = min (remaining_prefill_tokens r) (max_batch_tokens cfg - scheduled_tokens plan) in
        if chunk = 0 then plan
        else plan\<lparr>prefill_requests := prefill_requests plan @ [request_id r],
                  prefill_tokens := prefill_tokens plan @ [chunk],
                  scheduled_tokens := scheduled_tokens plan + chunk\<rparr>)"

fun schedule_decode_tokens :: "SchedulerConfig \<Rightarrow> Request list \<Rightarrow> BatchPlan \<Rightarrow> BatchPlan" where
  "schedule_decode_tokens cfg [] plan = plan"
| "schedule_decode_tokens cfg (r # rs) plan =
     (if rq_state r \<noteq> Decode then schedule_decode_tokens cfg rs plan
      else if scheduled_tokens plan \<ge> max_batch_tokens cfg then plan
      else schedule_decode_tokens cfg rs
             (plan\<lparr>decode_requests := decode_requests plan @ [request_id r],
                   scheduled_tokens := scheduled_tokens plan + 1\<rparr>))"

section \<open>Preempting and resuming\<close>

definition preempt :: "Scheduler \<Rightarrow> RequestId \<Rightarrow> string \<Rightarrow> bool \<times> Scheduler" where
  "preempt s rid why =
     (case find_request (active s) rid of
        None \<Rightarrow> (False, s)
      | Some i \<Rightarrow>
          (let r = (active s ! i)\<lparr>rq_state := Preempted\<rparr>;
               s = s\<lparr>active := erase_at i (active s)\<rparr>;
               s = (if lifetime_blocks r > 0 \<and> lifetime_held s \<ge> lifetime_blocks r
                    then s\<lparr>lifetime_held := lifetime_held s - lifetime_blocks r\<rparr> else s);
               (n, kv) = swap_out_request (cache_manager s) (request_id r)
           in (True, s\<lparr>cache_manager := kv,
                       preemption_infos := (preemption_infos s)
                         (request_id r \<mapsto> \<lparr>reason = why, pi_swapped_blocks = n\<rparr>),
                       preempted := preempted s @ [r]\<rparr>)))"

definition resume :: "Scheduler \<Rightarrow> RequestId \<Rightarrow> bool \<times> Scheduler" where
  "resume s rid =
     (case find_request (preempted s) rid of
        None \<Rightarrow> (False, s)
      | Some i \<Rightarrow>
          (case swap_in_request (cache_manager s) (request_id (preempted s ! i)) of
             (False, kv) \<Rightarrow> (False, s\<lparr>cache_manager := kv\<rparr>)
           | (True, kv) \<Rightarrow>
               (let r = preempted s ! i;
                    r = r\<lparr>rq_state := (if remaining_prefill_tokens r > 0 then Prefill else Decode)\<rparr>
                in (True, s\<lparr>cache_manager := kv, preempted := erase_at i (preempted s),
                            lifetime_held := lifetime_held s + lifetime_blocks r,
                            preemption_infos := (preemption_infos s)(rid := None),
                            active := active s @ [r]\<rparr>))))"

section \<open>Reclaiming before admission\<close>

lemma find_request_lt: "find_request rs rid = Some i \<Longrightarrow> i < length rs"
  by (induction rs arbitrary: i) (auto split: if_splits)

lemma preempt_shrinks: "preempt s rid why = (True, s') \<Longrightarrow> length (active s') < length (active s)"
  using find_request_lt [of "active s" rid]
  by (fastforce simp: preempt_def erase_at_def Let_def split: option.splits prod.splits)

text \<open>The \<^verbatim>\<open>while\<close> loop of \<^verbatim>\<open>reclaim_for_admission\<close>.\<close>

function reclaim_loop :: "nat \<Rightarrow> u32 \<Rightarrow> u32 \<Rightarrow> u32 \<Rightarrow> Scheduler \<Rightarrow> Scheduler" where
  "reclaim_loop admitted required needed pool_total s =
     (if length (active s) > admitted
         \<and> (free_blocks (pool_stats s) < required \<or> lifetime_held s + needed > pool_total)
      then
        (case preempt s (request_id (active s ! (length (active s) - admitted - 1)))
                ''cache pressure watermark'' of
           (False, s') \<Rightarrow> s'
         | (True, s') \<Rightarrow>
             if free_blocks (pool_stats s') \<le> free_blocks (pool_stats s) then s'
             else reclaim_loop admitted required needed pool_total s')
      else s)"
  by pat_completeness auto
termination
  by (relation "measure (\<lambda>(_, _, _, _, s). length (active s))") (auto dest: preempt_shrinks [OF sym])

declare reclaim_loop.simps [simp del]

definition reclaim_for_admission :: "Scheduler \<Rightarrow> u32 \<Rightarrow> u32 \<Rightarrow> nat \<Rightarrow> Scheduler" where
  "reclaim_for_admission s prompt decode admitted =
     (if preemption_watermark_blocks (sched_config s) = 0 then s
      else
        let pool_total = total_blocks (pool_stats s); needed = blocks_for_tokens s (prompt + decode) in
        if needed = 0 \<or> needed > pool_total then s
        else
          let required = min (needed + preemption_watermark_blocks (sched_config s)) pool_total
          in reclaim_loop admitted required needed pool_total s)"

section \<open>Admission\<close>

definition try_admit ::
    "Scheduler \<Rightarrow> Request \<Rightarrow> BatchPlan \<Rightarrow> nat \<Rightarrow> bool \<times> Scheduler \<times> Request \<times> BatchPlan" where
  "try_admit s r plan admitted =
     (if scheduled_tokens plan \<ge> max_batch_tokens (sched_config s) then (False, s, r, plan)
      else
        let needed = lifetime_blocks_for s r in
        if needed > total_blocks (pool_stats s) then (False, s, r, plan)
        else
          let s = reclaim_for_admission s (prompt_tokens r) (max_decode_tokens (sampling r)) admitted in
          if lifetime_held s + needed > total_blocks (pool_stats s) then (False, s, r, plan)
          else case create_sequence (cache_manager s) (metadata_from r) of
            (False, kv) \<Rightarrow> (False, s\<lparr>cache_manager := kv\<rparr>, r, plan)
          | (True, kv) \<Rightarrow>
              (let s = s\<lparr>cache_manager := kv\<rparr>;
                   cached = cached_tokens s r;
                   (attached, kv) =
                     (if cached > 0 \<and> cached \<le> prompt_tokens r
                      then attach_prefix kv (root_sequence_id r) (rq_prefix_key r) else (0, kv));
                   still_need = (if prompt_tokens r > attached then prompt_tokens r - attached else 0);
                   (reserved, kv) =
                     (if still_need > 0 then reserve_tokens kv (root_sequence_id r) still_need else (True, kv))
               in if \<not> reserved
                  then (False, s\<lparr>cache_manager := release_request kv (request_id r)\<rparr>, r, plan)
                  else if prompt_tokens r > 0 \<and> attached = 0 \<and> still_need = 0
                  then (False, s\<lparr>cache_manager := release_request kv (request_id r)\<rparr>, r, plan)
                  else
                    let r = r\<lparr>lifetime_blocks := needed, rq_state := Prefill,
                              remaining_prefill_tokens :=
                                (if remaining_prefill_tokens r = 0 then prompt_tokens r
                                 else remaining_prefill_tokens r)\<rparr>
                    in (True, s\<lparr>cache_manager := kv, lifetime_held := lifetime_held s + needed\<rparr>, r,
                        schedule_prefill_chunk (sched_config s) r plan)))"

text \<open>The size-aware scan: the first pending request that can be admitted, with its position.\<close>

fun scan_pending ::
    "nat \<Rightarrow> Request list \<Rightarrow> Scheduler \<Rightarrow> BatchPlan \<Rightarrow> (nat \<times> Request) option \<times> Scheduler \<times> BatchPlan" where
  "scan_pending i [] s plan = (None, s, plan)"
| "scan_pending i (r # rs) s plan =
     (case try_admit s r plan (length (prefill_requests plan)) of
        (False, s, _, plan) \<Rightarrow> scan_pending (Suc i) rs s plan
      | (True, s, r, plan) \<Rightarrow> (Some (i, r), s, plan))"

definition skip_request :: "Request \<Rightarrow> Request" where
  "skip_request r = r\<lparr>admission_skips := admission_skips r + 1\<rparr>"

text \<open>One iteration of the admission loop; the flag is false when the loop breaks.\<close>

definition admit_once :: "Scheduler \<Rightarrow> BatchPlan \<Rightarrow> bool \<times> Scheduler \<times> BatchPlan" where
  "admit_once s plan =
     (let must_take_head = (\<not> size_aware_admission (sched_config s)
            \<or> admission_skips (hd (pending s)) \<ge> admission_skip_limit (sched_config s))
      in if must_take_head
         then case try_admit s (hd (pending s)) plan (length (prefill_requests plan)) of
                (False, s, _, plan) \<Rightarrow> (False, s, plan)
              | (True, s, r, plan) \<Rightarrow>
                  (True, s\<lparr>active := active s @ [r], pending := tl (pending s)\<rparr>, plan)
         else case scan_pending 0 (pending s) s plan of
                (None, s, plan) \<Rightarrow> (False, s, plan)
              | (Some (i, r), s, plan) \<Rightarrow>
                  (True, s\<lparr>active := active s @ [r],
                           pending := map skip_request (take i (pending s)) @ drop (Suc i) (pending s)\<rparr>,
                   plan))"

lemma preempt_fields:
  assumes "preempt s rid why = (ok, s')"
  shows "pending s' = pending s" and "sched_config s' = sched_config s"
  using assms by (auto simp: preempt_def Let_def split: option.splits prod.splits if_splits)

lemma reclaim_loop_fields:
  "pending (reclaim_loop adm req need tot s) = pending s
   \<and> sched_config (reclaim_loop adm req need tot s) = sched_config s"
proof (induction adm req need tot s rule: reclaim_loop.induct)
  case (1 adm req need tot s)
  obtain ok s' where run: "preempt s (request_id (active s ! (length (active s) - adm - 1)))
      ''cache pressure watermark'' = (ok, s')" by fastforce
  note f = preempt_fields [OF run]
  show ?case
    using 1 [OF _ run [symmetric]] run f by (subst (1 2) reclaim_loop.simps) (auto split: bool.split)
qed

lemma reclaim_for_admission_fields [simp]:
  "pending (reclaim_for_admission s p d adm) = pending s"
  "sched_config (reclaim_for_admission s p d adm) = sched_config s"
  by (simp_all add: reclaim_for_admission_def reclaim_loop_fields Let_def)

lemma try_admit_fields:
  assumes "try_admit s r plan adm = (ok, s', r', plan')"
  shows "pending s' = pending s" and "sched_config s' = sched_config s"
    and "\<not> ok \<Longrightarrow> r' = r \<and> plan' = plan"
  using assms
  by (auto simp: try_admit_def Let_def split: if_splits prod.splits bool.splits)

lemma scan_pending_fields:
  assumes "scan_pending i rs s plan = (found, s', plan')"
  shows "pending s' = pending s \<and> sched_config s' = sched_config s
    \<and> (\<forall>j r. found = Some (j, r) \<longrightarrow> i \<le> j \<and> j < i + length rs)"
  using assms
proof (induction rs arbitrary: i s plan)
  case Nil
  then show ?case by simp
next
  case (Cons r rs)
  obtain ok s1 r1 plan1 where run: "try_admit s r plan (length (prefill_requests plan)) = (ok, s1, r1, plan1)"
    by (metis prod_cases4)
  note f = try_admit_fields [OF run]
  show ?case
  proof (cases ok)
    case True
    then show ?thesis using Cons.prems run f by auto
  next
    case False
    then have "scan_pending (Suc i) rs s1 plan1 = (found, s', plan')" using Cons.prems run by simp
    from Cons.IH [OF this] f show ?thesis by fastforce
  qed
qed

lemma admit_once_shrinks:
  assumes "admit_once s plan = (True, s', plan')" and "pending s \<noteq> []"
  shows "length (pending s') < length (pending s)"
proof -
  obtain ok s1 r1 plan1 where t: "try_admit s (hd (pending s)) plan (length (prefill_requests plan)) = (ok, s1, r1, plan1)"
    by (metis prod_cases4)
  obtain found s2 plan2 where sc: "scan_pending 0 (pending s) s plan = (found, s2, plan2)"
    by (metis prod_cases3)
  show ?thesis
    using assms try_admit_fields [OF t] scan_pending_fields [OF sc]
    by (auto simp: admit_once_def t sc Let_def split: if_splits bool.splits option.splits)
qed

text \<open>The \<^verbatim>\<open>admit_from_pending\<close> loop of \<^verbatim>\<open>schedule_next\<close>.\<close>

function admit_from_pending :: "Scheduler \<Rightarrow> BatchPlan \<Rightarrow> Scheduler \<times> BatchPlan" where
  "admit_from_pending s plan =
     (if pending s \<noteq> [] \<and> length (active s) < unat (max_active_requests (sched_config s))
      then
        (case admit_once s plan of
           (False, s', plan') \<Rightarrow> (s', plan')
         | (True, s', plan') \<Rightarrow> admit_from_pending s' plan')
      else (s, plan))"
  by pat_completeness auto
termination
  by (relation "measure (\<lambda>(s, _). length (pending s))") (auto dest: admit_once_shrinks [OF sym])

declare admit_from_pending.simps [simp del]

section \<open>The step and the remaining operations\<close>

definition continue_prefill :: "SchedulerConfig \<Rightarrow> BatchPlan \<Rightarrow> Request \<Rightarrow> BatchPlan" where
  "continue_prefill cfg plan r =
     (if rq_state r = Prefill \<and> request_id r \<notin> set (prefill_requests plan)
      then schedule_prefill_chunk cfg r plan else plan)"

definition schedule_next :: "Scheduler \<Rightarrow> BatchPlan \<times> Scheduler" where
  "schedule_next s =
     (let (s, plan) = admit_from_pending s empty_plan;
          plan = foldl (continue_prefill (sched_config s)) plan (active s);
          plan = schedule_decode_tokens (sched_config s) (active s) plan
      in (plan, s))"

definition complete_step :: "Scheduler \<Rightarrow> RequestId \<Rightarrow> u32 \<Rightarrow> Scheduler" where
  "complete_step s rid produced =
     (case find_request (active s) rid of
        None \<Rightarrow> s
      | Some i \<Rightarrow>
          (let r = active s ! i in
           if rq_state r = Prefill
           then
             if produced \<ge> remaining_prefill_tokens r
             then s\<lparr>active := (active s)[i := r\<lparr>remaining_prefill_tokens := 0, rq_state := Decode\<rparr>]\<rparr>
             else s\<lparr>active := (active s)[i := r\<lparr>remaining_prefill_tokens := remaining_prefill_tokens r - produced\<rparr>]\<rparr>
           else s))"

text \<open>What \<^verbatim>\<open>cancel\<close> does with the request it found.\<close>

definition drop_request :: "Scheduler \<Rightarrow> Request \<Rightarrow> RequestId \<Rightarrow> Scheduler" where
  "drop_request s r rid =
     (let s = (if lifetime_blocks r > 0 \<and> lifetime_held s \<ge> lifetime_blocks r
               then s\<lparr>lifetime_held := lifetime_held s - lifetime_blocks r\<rparr> else s)
      in s\<lparr>cache_manager := release_request (cache_manager s) (request_id r),
           preemption_infos := (preemption_infos s)(rid := None)\<rparr>)"

definition cancel :: "Scheduler \<Rightarrow> RequestId \<Rightarrow> Scheduler" where
  "cancel s rid =
     (case find_request (pending s) rid of
        Some i \<Rightarrow> (drop_request s (pending s ! i) rid)\<lparr>pending := erase_at i (pending s)\<rparr>
      | None \<Rightarrow>
        (case find_request (active s) rid of
           Some i \<Rightarrow> (drop_request s (active s ! i) rid)\<lparr>active := erase_at i (active s)\<rparr>
         | None \<Rightarrow>
           (case find_request (preempted s) rid of
              Some i \<Rightarrow> (drop_request s (preempted s ! i) rid)\<lparr>preempted := erase_at i (preempted s)\<rparr>
            | None \<Rightarrow> s)))"

definition preemption_info :: "Scheduler \<Rightarrow> RequestId \<Rightarrow> PreemptionInfo option" where
  "preemption_info s rid = preemption_infos s rid"

definition request_state :: "Scheduler \<Rightarrow> RequestId \<Rightarrow> RequestState option" where
  "request_state s rid =
     map_option rq_state (find (\<lambda>r. request_id r = rid) (pending s @ active s @ preempted s))"

definition active_size :: "Scheduler \<Rightarrow> nat" where
  "active_size s = length (active s)"

end
