(* ===== verification/PoolSize.thy ===== *)
theory PoolSize
  imports KVCacheManager
begin

text \<open>
  The frames never change after construction: no operation of the allocator or of the cache manager
  adds, removes or rebinds a block record, and the backend keeps its number of slots. This holds with no assumption on the state. It lets the
  scheduler compare reservations against one fixed pool size, and it fixes the number of tables of a
  sequence and of tokens in a block.
\<close>

section \<open>Definitions\<close>

definition pool_layout :: "MemoryAllocator \<Rightarrow> nat \<times> PhysicalBlock list \<times> u64 option" where
  "pool_layout al = (length (infos al), blocks al, map_option max_slots (al_swap_backend al))"

definition kv_layout :: "KVCacheManager \<Rightarrow> nat \<times> PhysicalBlock list \<times> u64 option" where
  "kv_layout kv = pool_layout (allocator kv)"

abbreviation kv_blocks :: "KVCacheManager \<Rightarrow> nat" where
  "kv_blocks kv \<equiv> fst (kv_layout kv)"

section \<open>The allocator\<close>

lemma max_slots_backend [simp]:
  "max_slots (snd (hsb_store b bs)) = max_slots b" "max_slots (hsb_discard b slot) = max_slots b"
  by (simp_all add: hsb_store_def hsb_discard_def Let_def)

lemma max_slots_store: "hsb_store b bs = (r, b') \<Longrightarrow> max_slots b' = max_slots b"
  by (metis max_slots_backend(1) snd_conv)

lemma pool_layout_fields [simp]:
  "pool_layout (update_info al p f) = pool_layout al" "pool_layout (al\<lparr>free_list := fl\<rparr>) = pool_layout al"
  "pool_layout (al\<lparr>pool := bs\<rparr>) = pool_layout al" "pool_layout (al\<lparr>faulted := b\<rparr>) = pool_layout al"
  "al_swap_backend al = Some sb \<Longrightarrow> max_slots sb' = max_slots sb \<Longrightarrow>
     pool_layout (al\<lparr>al_swap_backend := Some sb'\<rparr>) = pool_layout al"
  by (simp_all add: pool_layout_def update_info_def)

lemma pool_layout_release [simp]: "pool_layout (release al p) = pool_layout al"
  by (simp add: release_def Let_def)

lemma pool_layout_retain [simp]: "pool_layout (retain al p) = pool_layout al"
  by (simp add: retain_def)

lemma pool_layout_write_frame [simp]: "pool_layout (write_frame al b bs) = pool_layout al"
  by (simp add: write_frame_def split: option.split)

lemma pool_layout_copy_block [simp]: "pool_layout (copy_block al s d) = pool_layout al"
  by (simp add: copy_block_def Let_def split: option.split)

lemma pool_layout_discard [simp]: "pool_layout (discard_swapped al slot) = pool_layout al"
  by (simp add: discard_swapped_def split: option.split)

lemma pool_layout_release_entry [simp]: "pool_layout (release_entry al e) = pool_layout al"
  by (simp add: release_entry_def split: option.split)

lemma pool_layout_allocate: "allocate al = (r, al') \<Longrightarrow> pool_layout al' = pool_layout al"
  by (auto simp: allocate_def Let_def split: if_splits)

lemma pool_layout_swap_out: "swap_out al p = (r, al') \<Longrightarrow> pool_layout al' = pool_layout al"
  by (auto simp: swap_out_def dest!: max_slots_store split: option.splits if_splits prod.splits)

lemma pool_layout_set_backend:
  "pool_layout al' = pool_layout al \<Longrightarrow> al_swap_backend al = Some sb \<Longrightarrow> max_slots sb' = max_slots sb \<Longrightarrow>
   pool_layout (al'\<lparr>al_swap_backend := Some sb'\<rparr>) = pool_layout al"
  by (auto simp: pool_layout_def)

lemma pool_layout_swap_in: "swap_in al slot = (r, al') \<Longrightarrow> pool_layout al' = pool_layout al"
  by (auto simp: swap_in_def dest!: pool_layout_allocate intro!: pool_layout_set_backend
      split: option.splits prod.splits)

lemma pool_layout_folds [simp]:
  "pool_layout (foldl release al ps) = pool_layout al"
  "pool_layout (foldl retain al ps) = pool_layout al"
  "pool_layout (foldl release_entry al es) = pool_layout al"
proof -
  show "pool_layout (foldl release al ps) = pool_layout al"
    "pool_layout (foldl retain al ps) = pool_layout al"
    by (induction ps arbitrary: al) simp_all
  show "pool_layout (foldl release_entry al es) = pool_layout al"
    by (induction es arbitrary: al) simp_all
qed

section \<open>The loops of the cache manager\<close>

lemma pool_layout_reserve_blocks:
  "reserve_blocks sid tpb base offs al t = (ok, al', t') \<Longrightarrow> pool_layout al' = pool_layout al"
  by (induction offs arbitrary: al t)
    (auto dest!: pool_layout_allocate simp: Let_def split: prod.splits option.splits)

lemma pool_layout_reserve_tables:
  "reserve_tables sid tpb n al ts = (ok, al', ts') \<Longrightarrow> pool_layout al' = pool_layout al"
proof (induction ts arbitrary: al ok ts')
  case (Cons t ts)
  obtain ok1 al1 t1 where one: "reserve_blocks sid tpb (of_nat (bt_size t)) [0..<unat n] al t = (ok1, al1, t1)"
    by (metis prod_cases3)
  show ?case
    using Cons one pool_layout_reserve_blocks [OF one]
    by (cases ok1) (auto simp: Let_def split: prod.splits)
qed simp

lemma pool_layout_fork_tables:
  "fork_tables al child ts = (al', ts') \<Longrightarrow> pool_layout al' = pool_layout al"
  by (induction ts arbitrary: al ts') (fastforce simp: Let_def split: prod.splits)+

lemma pool_layout_swap_out_indices:
  "swap_out_indices idxs al t n = (al', t', n') \<Longrightarrow> pool_layout al' = pool_layout al"
  by (induction idxs arbitrary: al t n)
    (auto dest!: pool_layout_swap_out split: option.splits prod.splits)

lemma pool_layout_swap_out_tables:
  "swap_out_tables al ts n = (al', ts', n') \<Longrightarrow> pool_layout al' = pool_layout al"
proof (induction ts arbitrary: al n ts')
  case (Cons t ts)
  obtain al1 t1 n1 where one: "swap_out_indices (resident_indices t) al t n = (al1, t1, n1)"
    by (metis prod_cases3)
  show ?case
    using Cons one pool_layout_swap_out_indices [OF one] by (auto simp: Let_def split: prod.splits)
qed simp

lemma pool_layout_swap_in_entries:
  "swap_in_entries ks al t = (ok, al', t') \<Longrightarrow> pool_layout al' = pool_layout al"
  by (induction ks arbitrary: al t)
    (auto dest!: pool_layout_swap_in split: option.splits prod.splits if_splits)

lemma pool_layout_swap_in_tables:
  "swap_in_tables al ts = (ok, al', ts') \<Longrightarrow> pool_layout al' = pool_layout al"
proof (induction ts arbitrary: al ok ts')
  case (Cons t ts)
  obtain ok1 al1 t1 where one: "swap_in_entries [0..<length (entries t)] al t = (ok1, al1, t1)"
    by (metis prod_cases3)
  show ?case
    using Cons one pool_layout_swap_in_entries [OF one]
    by (cases ok1) (auto simp: Let_def split: prod.splits)
qed simp

lemma pool_layout_attach_blocks:
  "attach_blocks sid tpb i ps al t = (al', t') \<Longrightarrow> pool_layout al' = pool_layout al"
  by (induction ps arbitrary: i al t) auto

lemma pool_layout_attach_tables:
  "attach_tables sid tpb n ps al ts = (al', ts') \<Longrightarrow> pool_layout al' = pool_layout al"
proof (induction ts arbitrary: ps al ts')
  case (Cons t ts)
  obtain al1 t1 where one: "attach_blocks sid tpb 0 (take n ps) al t = (al1, t1)" by fastforce
  show ?case
    using Cons one pool_layout_attach_blocks [OF one] by (auto simp: Let_def split: prod.splits)
qed simp

section \<open>The cache manager\<close>

lemma kv_layout_fields [simp]:
  "kv_layout (kv\<lparr>sequences := m\<rparr>) = kv_layout kv" "kv_layout (kv\<lparr>prefix_index := m'\<rparr>) = kv_layout kv"
  "kv_layout (kv\<lparr>allocator := al\<rparr>) = pool_layout al"
  "kv_layout (index_sequence kv rid sid) = kv_layout kv"
  "kv_layout (unindex_sequence kv rid sid) = kv_layout kv"
  by (simp_all add: kv_layout_def index_sequence_def unindex_sequence_def Let_def split: option.split)

lemma kv_layout_create [simp]: "kv_layout (snd (create_sequence kv meta)) = kv_layout kv"
  by (simp add: create_sequence_def Let_def)

lemma kv_layout_attach [simp]: "kv_layout (snd (attach_prefix kv sid key)) = kv_layout kv"
  by (auto simp: attach_prefix_def Let_def kv_layout_def dest!: pool_layout_attach_tables
      split: option.split prod.split)

lemma kv_layout_reserve [simp]: "kv_layout (snd (reserve_tokens kv sid n)) = kv_layout kv"
  by (auto simp: reserve_tokens_def Let_def kv_layout_def dest!: pool_layout_reserve_tables
      split: option.split prod.split)

lemma kv_layout_drop:
  "drop_prefix_user kv st = (kv', st') \<Longrightarrow> kv_layout kv' = kv_layout kv"
  by (auto simp: drop_prefix_user_def Let_def kv_layout_def split: if_splits option.splits)

lemma kv_layout_release [simp]: "kv_layout (release_sequence kv sid) = kv_layout kv"
  by (auto simp: release_sequence_def Let_def kv_layout_def [symmetric] dest!: kv_layout_drop
      split: option.split prod.split)

lemma kv_layout_release_request [simp]: "kv_layout (release_request kv rid) = kv_layout kv"
proof -
  have "kv_layout (foldl release_sequence kv sids) = kv_layout kv" for sids
    by (induction sids arbitrary: kv) simp_all
  then show ?thesis by (simp add: release_request_def)
qed

lemma kv_layout_swap_out_sequence [simp]: "kv_layout (snd (swap_out_sequence kv sid)) = kv_layout kv"
  by (auto simp: swap_out_sequence_def Let_def kv_layout_def dest!: pool_layout_swap_out_tables
      split: option.split prod.split)

lemma kv_layout_swap_out_request [simp]: "kv_layout (snd (swap_out_request kv rid)) = kv_layout kv"
proof -
  have "kv_layout (snd (swap_out_sequences sids kv n)) = kv_layout kv" for sids n
  proof (induction sids arbitrary: kv n)
    case (Cons sid sids)
    obtain k kv1 where one: "swap_out_sequence kv sid = (k, kv1)" by fastforce
    have "kv_layout kv1 = kv_layout kv" using kv_layout_swap_out_sequence [of kv sid] one by simp
    then show ?case using Cons [of kv1 "n + k"] one by simp
  qed simp
  then show ?thesis by (simp add: swap_out_request_def)
qed

lemma kv_layout_swap_in_sequence [simp]: "kv_layout (snd (swap_in_sequence kv sid)) = kv_layout kv"
  by (auto simp: swap_in_sequence_def Let_def kv_layout_def dest!: pool_layout_swap_in_tables
      split: option.split prod.split)

lemma kv_layout_swap_in_request [simp]: "kv_layout (snd (swap_in_request kv rid)) = kv_layout kv"
proof -
  have "kv_layout (snd (swap_in_sequences sids kv)) = kv_layout kv" for sids
  proof (induction sids arbitrary: kv)
    case (Cons sid sids)
    obtain ok kv1 where one: "swap_in_sequence kv sid = (ok, kv1)" by fastforce
    have "kv_layout kv1 = kv_layout kv" using kv_layout_swap_in_sequence [of kv sid] one by simp
    then show ?case using Cons [of kv1] one by (cases ok) simp_all
  qed simp
  then show ?thesis by (simp add: swap_in_request_def Let_def)
qed

lemma kv_layout_fork [simp]: "kv_layout (snd (fork_sequence kv parent meta)) = kv_layout kv"
  by (auto simp: fork_sequence_def Let_def kv_layout_def index_sequence_def dest!: pool_layout_fork_tables
      split: option.split prod.split)

lemma kv_layout_ensure [simp]: "kv_layout (snd (ensure_token_writable kv sid pos kind layer)) = kv_layout kv"
  by (auto simp: ensure_token_writable_def Let_def kv_layout_def dest!: pool_layout_allocate
      split: option.split prod.split)

lemma kv_layout_publish [simp]: "kv_layout (snd (publish_prefix kv sid key)) = kv_layout kv"
  by (auto simp: publish_prefix_def Let_def kv_layout_def split: option.split)

text \<open>What depends on the layout only.\<close>

lemma kv_layout_shape:
  assumes "kv_layout kv' = kv_layout kv"
  shows "table_count kv' = table_count kv" and "kv_tokens_per_block kv' = kv_tokens_per_block kv"
    and "capacity (allocator kv') = capacity (allocator kv)"
    and "map_option max_slots (al_swap_backend (allocator kv')) = map_option max_slots (al_swap_backend (allocator kv))"
  using assms
  by (simp_all add: kv_layout_def pool_layout_def table_count_def kv_tokens_per_block_def pool_shape_def
      al_block_def capacity_def)

end
