(* ===== verification/SchedulerProps.thy ===== *)
theory SchedulerProps
  imports Scheduler PoolSize
begin

text \<open>
  Invariants of the scheduler: the token budget of a batch plan, the size of the active set, that
  no request is lost or duplicated, first-in-first-out admission, the bound on how often a waiting
  request is skipped, and the accounting of reserved lifetime blocks. Each is shown for one
  admission attempt, then for the reclaiming and admission loops by their induction rules, then
  for \<^verbatim>\<open>schedule_next\<close>.
\<close>

section \<open>Definitions\<close>

text \<open>A plan within its budget: the two prefill lists are parallel, every chunk is positive, and
  the token counter is the true number of scheduled tokens.\<close>

definition plan_ok :: "SchedulerConfig \<Rightarrow> BatchPlan \<Rightarrow> bool" where
  "plan_ok cfg plan \<longleftrightarrow>
     length (prefill_requests plan) = length (prefill_tokens plan)
     \<and> 0 \<notin> set (prefill_tokens plan)
     \<and> unat (scheduled_tokens plan)
         = sum_list (map unat (prefill_tokens plan)) + length (decode_requests plan)
     \<and> scheduled_tokens plan \<le> max_batch_tokens cfg"

text \<open>The ids of all requests the scheduler tracks, with multiplicity.\<close>

definition tracked :: "Scheduler \<Rightarrow> RequestId multiset" where
  "tracked s = mset (map request_id (pending s @ active s @ preempted s))"

text \<open>Waiting requests were skipped at most as often as those before them, and never more often
  than the limit.\<close>

definition skips_ok :: "Scheduler \<Rightarrow> bool" where
  "skips_ok s \<longleftrightarrow>
     sorted_wrt (\<lambda>a b. admission_skips b \<le> admission_skips a) (pending s)
     \<and> list_all (\<lambda>r. admission_skips r \<le> admission_skip_limit (sched_config s)) (pending s)"

text \<open>The reserved lifetime blocks are exactly those of the active requests, within the pool.\<close>

definition held_sum :: "Scheduler \<Rightarrow> nat" where
  "held_sum s = sum_list (map (\<lambda>r. unat (lifetime_blocks r)) (active s))"

definition held_ok :: "Scheduler \<Rightarrow> bool" where
  "held_ok s \<longleftrightarrow> unat (lifetime_held s) = held_sum s \<and> lifetime_held s \<le> total_blocks (pool_stats s)"

section \<open>The token budget\<close>

lemma plan_ok_empty: "plan_ok cfg empty_plan"
  by (simp add: plan_ok_def empty_plan_def)

lemma unat_plus_le: "(a::u32) \<le> m \<Longrightarrow> b \<le> m - a \<Longrightarrow> unat (a + b) = unat a + unat b \<and> a + b \<le> m"
proof -
  assume le: "a \<le> m" "b \<le> m - a"
  have "unat b \<le> unat m - unat a" using le by (metis unat_sub word_le_nat_alt)
  then have "unat a + unat b \<le> unat m" using le(1) by (simp add: word_le_nat_alt)
  moreover from this have "unat (a + b) = unat a + unat b"
    using le_less_trans [OF _ unat_u32_lt [of m]] by (simp add: unat_word_ariths)
  ultimately show ?thesis by (simp add: word_le_nat_alt)
qed

lemma schedule_prefill_chunk_ok:
  assumes "plan_ok cfg plan"
  shows "plan_ok cfg (schedule_prefill_chunk cfg r plan)"
proof (cases "remaining_prefill_tokens r = 0 \<or> scheduled_tokens plan \<ge> max_batch_tokens cfg")
  case True
  then show ?thesis using assms by (auto simp: schedule_prefill_chunk_def)
next
  case False
  let ?c = "min (remaining_prefill_tokens r) (max_batch_tokens cfg - scheduled_tokens plan)"
  have "unat (scheduled_tokens plan + ?c) = unat (scheduled_tokens plan) + unat ?c
      \<and> scheduled_tokens plan + ?c \<le> max_batch_tokens cfg"
    using False by (intro unat_plus_le) auto
  moreover have "?c \<noteq> 0" using False by (auto simp: min_def)
  ultimately show ?thesis
    using assms False by (simp add: plan_ok_def schedule_prefill_chunk_def Let_def)
qed

lemma schedule_decode_tokens_ok: "plan_ok cfg plan \<Longrightarrow> plan_ok cfg (schedule_decode_tokens cfg rs plan)"
proof (induction cfg rs plan rule: schedule_decode_tokens.induct)
  case (2 cfg r rs plan)
  have "plan_ok cfg (plan\<lparr>decode_requests := decode_requests plan @ [request_id r],
      scheduled_tokens := scheduled_tokens plan + 1\<rparr>)"
    if "\<not> max_batch_tokens cfg \<le> scheduled_tokens plan"
  proof -
    have "unat (scheduled_tokens plan + 1) = unat (scheduled_tokens plan) + unat (1::u32)
        \<and> scheduled_tokens plan + 1 \<le> max_batch_tokens cfg"
    proof (rule unat_plus_le)
      show "scheduled_tokens plan \<le> max_batch_tokens cfg" using that by simp
      show "1 \<le> max_batch_tokens cfg - scheduled_tokens plan"
        using that unat_sub [of "scheduled_tokens plan" "max_batch_tokens cfg"]
        by (simp add: word_le_nat_alt)
    qed
    then show ?thesis using 2 by (simp add: plan_ok_def)
  qed
  then show ?case using 2 by simp
qed simp

lemma continue_prefill_ok: "plan_ok cfg plan \<Longrightarrow> plan_ok cfg (foldl (continue_prefill cfg) plan rs)"
  by (induction rs arbitrary: plan) (simp_all add: continue_prefill_def schedule_prefill_chunk_ok)

lemma try_admit_plan:
  assumes "try_admit s r plan adm = (ok, s', r', plan')" and "plan_ok (sched_config s) plan"
  shows "plan_ok (sched_config s) plan'"
  using assms
  by (auto simp: try_admit_def Let_def schedule_prefill_chunk_ok
      split: if_splits prod.splits bool.splits)

lemma scan_pending_plan:
  "scan_pending i rs s plan = (found, s', plan') \<Longrightarrow> plan_ok (sched_config s) plan \<Longrightarrow>
   plan_ok (sched_config s) plan'"
proof (induction rs arbitrary: i s plan)
  case (Cons r rs)
  obtain ok s1 r1 plan1 where run: "try_admit s r plan (length (prefill_requests plan)) = (ok, s1, r1, plan1)"
    by (metis prod_cases4)
  have p1: "plan_ok (sched_config s) plan1" using try_admit_plan [OF run Cons.prems(2)] .
  have cfg: "sched_config s1 = sched_config s" using try_admit_fields(2) [OF run] .
  show ?case using Cons.prems(1) Cons.IH [of "Suc i" s1 plan1] run p1 cfg by (cases ok) auto
qed simp

lemma admit_once_plan:
  assumes "admit_once s plan = (ok, s', plan')" and "plan_ok (sched_config s) plan"
  shows "plan_ok (sched_config s) plan'" and "sched_config s' = sched_config s"
proof -
  obtain ok1 s1 r1 plan1 where t: "try_admit s (hd (pending s)) plan (length (prefill_requests plan)) = (ok1, s1, r1, plan1)"
    by (metis prod_cases4)
  obtain found s2 plan2 where sc: "scan_pending 0 (pending s) s plan = (found, s2, plan2)"
    by (metis prod_cases3)
  note a = try_admit_plan [OF t assms(2)] try_admit_fields(2) [OF t]
  note b = scan_pending_plan [OF sc assms(2)] scan_pending_fields [OF sc]
  show "plan_ok (sched_config s) plan'" and "sched_config s' = sched_config s"
    using assms(1) a b
    by (auto simp: admit_once_def t sc Let_def split: if_splits bool.splits option.splits)
qed

lemma admit_from_pending_plan:
  "admit_from_pending s plan = (s', plan') \<Longrightarrow> plan_ok (sched_config s) plan \<Longrightarrow>
   plan_ok (sched_config s) plan' \<and> sched_config s' = sched_config s"
proof (induction s plan rule: admit_from_pending.induct)
  case (1 s plan)
  obtain ok s1 plan1 where run: "admit_once s plan = (ok, s1, plan1)" by (metis prod_cases3)
  note step = admit_once_plan [OF run "1.prems"(2)]
  show ?case
  proof (cases "pending s \<noteq> [] \<and> length (active s) < unat (max_active_requests (sched_config s))")
    case False
    then show ?thesis using "1.prems" by (auto simp: admit_from_pending.simps [of s])
  next
    case go: True
    show ?thesis
    proof (cases ok)
      case True
      then have "admit_from_pending s1 plan1 = (s', plan')"
        using "1.prems"(1) go run by (auto simp: admit_from_pending.simps [of s])
      then show ?thesis
        using "1.IH" [OF go run [symmetric]] True step by simp
    next
      case False
      then show ?thesis using "1.prems"(1) go run step by (auto simp: admit_from_pending.simps [of s])
    qed
  qed
qed

section \<open>Invariants of the admission loop\<close>

text \<open>The request as it enters the active queue, and the state once it has.\<close>

definition granted :: "Request \<Rightarrow> u32 \<Rightarrow> Request" where
  "granted r needed =
     r\<lparr>lifetime_blocks := needed, rq_state := Prefill,
       remaining_prefill_tokens :=
         (if remaining_prefill_tokens r = 0 then prompt_tokens r else remaining_prefill_tokens r)\<rparr>"

definition admit_at :: "nat \<Rightarrow> u32 \<Rightarrow> Scheduler \<Rightarrow> Scheduler" where
  "admit_at i needed s =
     s\<lparr>lifetime_held := lifetime_held s + needed, active := active s @ [granted (pending s ! i) needed],
       pending := map skip_request (take i (pending s)) @ drop (Suc i) (pending s)\<rparr>"

text \<open>Which pending position may be admitted: the head, or a later one while the head has not been
  skipped too often.\<close>

definition may_admit :: "Scheduler \<Rightarrow> nat \<Rightarrow> bool" where
  "may_admit s i \<longleftrightarrow>
     i < length (pending s) \<and> length (active s) < unat (max_active_requests (sched_config s))
     \<and> (i = 0 \<or> size_aware_admission (sched_config s)
          \<and> admission_skips (hd (pending s)) < admission_skip_limit (sched_config s))"

definition fits_pool :: "Scheduler \<Rightarrow> u32 \<Rightarrow> bool" where
  "fits_pool s needed \<longleftrightarrow>
     needed \<le> total_blocks (pool_stats s) \<and> lifetime_held s + needed \<le> total_blocks (pool_stats s)"

lemma total_blocks_kv: "total_blocks (pool_stats s) = of_nat (kv_blocks (cache_manager s))"
  by (simp add: pool_stats_def stats_def kv_layout_def pool_layout_def)

lemma preempt_kv_layout:
  "preempt s rid why = (ok, s') \<Longrightarrow>
   kv_layout (cache_manager s') = kv_layout (cache_manager s) \<and> length (active s') \<le> length (active s)"
proof -
  assume run: "preempt s rid why = (ok, s')"
  have swapped: "kv_layout kv' = kv_layout kv" if "swap_out_request kv r = (n, kv')" for kv r n kv'
    using that by (metis kv_layout_swap_out_request snd_conv)
  have "kv_layout (cache_manager s') = kv_layout (cache_manager s)"
    using run by (auto simp: preempt_def Let_def dest!: swapped split: option.splits prod.splits if_splits)
  moreover have "length (active s') \<le> length (active s)"
    using run preempt_shrinks [of s rid why s'] by (cases ok) (auto simp: preempt_def Let_def split: option.splits prod.splits)
  ultimately show ?thesis ..
qed

lemma reclaim_loop_kv_layout:
  "kv_layout (cache_manager (reclaim_loop adm req need tot s)) = kv_layout (cache_manager s)
   \<and> length (active (reclaim_loop adm req need tot s)) \<le> length (active s)"
proof (induction adm req need tot s rule: reclaim_loop.induct)
  case (1 adm req need tot s)
  obtain ok s' where run: "preempt s (request_id (active s ! (length (active s) - adm - 1)))
      ''cache pressure watermark'' = (ok, s')" by fastforce
  note f = preempt_kv_layout [OF run]
  show ?case
    using 1 [OF _ run [symmetric]] run f by (subst (1 2) reclaim_loop.simps) (auto split: bool.split)
qed

lemma reclaim_kv_layout:
  "kv_layout (cache_manager (reclaim_for_admission s p d adm)) = kv_layout (cache_manager s)"
  "length (active (reclaim_for_admission s p d adm)) \<le> length (active s)"
  by (simp_all add: reclaim_for_admission_def reclaim_loop_kv_layout Let_def)

text \<open>What an attempt does with the cache manager once the request fits: the root sequence is created,
  a cached prefix attached and the rest of the prompt reserved, or everything is released again.\<close>

definition place_request :: "KVCacheManager \<Rightarrow> Request \<Rightarrow> bool \<times> KVCacheManager" where
  "place_request kv r =
     (case create_sequence kv (metadata_from r) of
        (False, kv) \<Rightarrow> (False, kv)
      | (True, kv) \<Rightarrow>
          (let cached = (if rq_prefix_key r = [] then 0 else prefix_token_count kv (rq_prefix_key r));
               (attached, kv) =
                 (if cached > 0 \<and> cached \<le> prompt_tokens r
                  then attach_prefix kv (root_sequence_id r) (rq_prefix_key r) else (0, kv));
               still_need = (if prompt_tokens r > attached then prompt_tokens r - attached else 0);
               (reserved, kv) =
                 (if still_need > 0 then reserve_tokens kv (root_sequence_id r) still_need else (True, kv))
           in if \<not> reserved \<or> prompt_tokens r > 0 \<and> attached = 0 \<and> still_need = 0
              then (False, release_request kv (request_id r)) else (True, kv)))"

lemma kv_layout_place_request: "kv_layout (snd (place_request kv r)) = kv_layout kv"
proof -
  obtain c kv1 where create: "create_sequence kv (metadata_from r) = (c, kv1)" by fastforce
  let ?c = "if rq_prefix_key r = [] then 0 else prefix_token_count kv1 (rq_prefix_key r)"
  obtain att kv2 where attach: "(if ?c > 0 \<and> ?c \<le> prompt_tokens r
      then attach_prefix kv1 (root_sequence_id r) (rq_prefix_key r) else (0, kv1)) = (att, kv2)" by fastforce
  let ?n = "if prompt_tokens r > att then prompt_tokens r - att else 0"
  obtain rsv kv3 where reserve:
    "(if ?n > 0 then reserve_tokens kv2 (root_sequence_id r) ?n else (True, kv2)) = (rsv, kv3)" by fastforce
  have "kv_layout kv1 = kv_layout kv" using create by (metis kv_layout_create snd_conv)
  moreover have "kv_layout kv2 = kv_layout kv1" using attach by (metis kv_layout_attach snd_conv)
  moreover have "kv_layout kv3 = kv_layout kv2" using reserve by (metis kv_layout_reserve snd_conv)
  ultimately show ?thesis
    unfolding place_request_def create prod.case Let_def attach reserve by (cases c) simp_all
qed

lemma place_request_layout: "place_request kv r = (ok, kv') \<Longrightarrow> kv_layout kv' = kv_layout kv"
  by (metis kv_layout_place_request snd_conv)

text \<open>An admission attempt reclaims, then either changes the cache manager only or grants the
  request.\<close>

lemma try_admit_place:
  fixes s r adm
  defines "s1 \<equiv> reclaim_for_admission s (prompt_tokens r) (max_decode_tokens (sampling r)) adm"
    and "needed \<equiv> lifetime_blocks_for s r"
  shows "try_admit s r plan adm =
    (if scheduled_tokens plan \<ge> max_batch_tokens (sched_config s) \<or> needed > total_blocks (pool_stats s)
     then (False, s, r, plan)
     else if lifetime_held s1 + needed > total_blocks (pool_stats s1) then (False, s1, r, plan)
     else case place_request (cache_manager s1) r of
       (False, kv) \<Rightarrow> (False, s1\<lparr>cache_manager := kv\<rparr>, r, plan)
     | (True, kv) \<Rightarrow> (True, s1\<lparr>cache_manager := kv, lifetime_held := lifetime_held s1 + needed\<rparr>, granted r needed,
          schedule_prefill_chunk (sched_config s) (granted r needed) plan))"
proof -
  obtain c kv1 where create: "create_sequence (cache_manager s1) (metadata_from r) = (c, kv1)" by fastforce
  let ?c = "if rq_prefix_key r = [] then 0 else prefix_token_count kv1 (rq_prefix_key r)"
  obtain att kv2 where attach: "(if ?c > 0 \<and> ?c \<le> prompt_tokens r
      then attach_prefix kv1 (root_sequence_id r) (rq_prefix_key r) else (0, kv1)) = (att, kv2)" by fastforce
  let ?n = "if prompt_tokens r > att then prompt_tokens r - att else 0"
  obtain rsv kv3 where reserve:
    "(if ?n > 0 then reserve_tokens kv2 (root_sequence_id r) ?n else (True, kv2)) = (rsv, kv3)" by fastforce
  have cached: "cached_tokens (s1\<lparr>cache_manager := kv1\<rparr>) r = ?c" by (simp add: cached_tokens_def)
  have place: "place_request (cache_manager s1) r =
      (if c then if \<not> rsv \<or> prompt_tokens r > 0 \<and> att = 0 \<and> ?n = 0 then (False, release_request kv3 (request_id r))
                 else (True, kv3)
       else (False, kv1))"
    unfolding place_request_def create prod.case Let_def attach reserve by (cases c) simp_all
  show ?thesis
    unfolding try_admit_def Let_def s1_def [symmetric] needed_def [symmetric] create prod.case cached attach reserve place
    by (cases c) (auto simp: granted_def s1_def)
qed

lemma try_admit_cases:
  assumes "try_admit s r plan adm = (ok, s', r', plan')"
  obtains (early) "\<not> ok" and "s' \<in> {s, reclaim_for_admission s (prompt_tokens r) (max_decode_tokens (sampling r)) adm}"
  | (refused) s1 kv where "\<not> ok" and "s1 = reclaim_for_admission s (prompt_tokens r) (max_decode_tokens (sampling r)) adm"
      and "place_request (cache_manager s1) r = (False, kv)" and "s' = s1\<lparr>cache_manager := kv\<rparr>"
  | (taken) s1 kv needed where "ok" and "s1 = reclaim_for_admission s (prompt_tokens r) (max_decode_tokens (sampling r)) adm"
      and "place_request (cache_manager s1) r = (True, kv)"
      and "s' = s1\<lparr>cache_manager := kv, lifetime_held := lifetime_held s1 + needed\<rparr>"
      and "r' = granted r needed" and "fits_pool s1 needed"
proof -
  let ?s1 = "reclaim_for_admission s (prompt_tokens r) (max_decode_tokens (sampling r)) adm"
  let ?need = "lifetime_blocks_for s r"
  obtain c kv where place: "place_request (cache_manager ?s1) r = (c, kv)" by fastforce
  have tot: "total_blocks (pool_stats ?s1) = total_blocks (pool_stats s)"
    by (simp add: total_blocks_kv reclaim_kv_layout)
  note eq = try_admit_place [of s r plan adm, unfolded assms place prod.case]
  show thesis
  proof (cases "scheduled_tokens plan \<ge> max_batch_tokens (sched_config s) \<or> ?need > total_blocks (pool_stats s)
      \<or> lifetime_held ?s1 + ?need > total_blocks (pool_stats ?s1)")
    case True
    then show thesis using early eq by (auto split: if_splits)
  next
    case False
    have fits: "fits_pool ?s1 ?need" using False tot by (auto simp: fits_pool_def not_less)
    show thesis
    proof (cases c)
      case True
      then show thesis using taken [OF _ refl, of kv ?need] False eq place fits by auto
    next
      case no: False
      then show thesis using refused [OF _ refl, of kv] False eq place by auto
    qed
  qed
qed

text \<open>A property that survives preemption, a placement that fails, and granting a request that was
  placed survives the whole admission loop.\<close>

locale placement_invariant =
  fixes P :: "Scheduler \<Rightarrow> bool"
  assumes preempt_P: "P s \<Longrightarrow> preempt s rid why = (ok, s') \<Longrightarrow> P s'"
    and refuse_P: "P s \<Longrightarrow> r \<in> set (pending s) \<Longrightarrow> place_request (cache_manager s) r = (False, kv) \<Longrightarrow>
      P (s\<lparr>cache_manager := kv\<rparr>)"
    and place_P: "P s \<Longrightarrow> may_admit s i \<Longrightarrow> fits_pool s needed \<Longrightarrow>
      place_request (cache_manager s) (pending s ! i) = (True, kv) \<Longrightarrow>
      P (admit_at i needed (s\<lparr>cache_manager := kv\<rparr>))"
begin

lemma reclaim_loop_P: "P s \<Longrightarrow> P (reclaim_loop adm req need tot s)"
proof (induction adm req need tot s rule: reclaim_loop.induct)
  case (1 adm req need tot s)
  obtain ok s' where run: "preempt s (request_id (active s ! (length (active s) - adm - 1)))
      ''cache pressure watermark'' = (ok, s')" by fastforce
  have "P s'" using preempt_P [OF "1.prems" run] .
  then show ?case
    using "1.IH" [OF _ run [symmetric]] "1.prems" run
    by (subst reclaim_loop.simps) (auto split: bool.split)
qed

lemma reclaim_P: "P s \<Longrightarrow> P (reclaim_for_admission s p d adm)"
  by (simp add: reclaim_for_admission_def reclaim_loop_P Let_def)

text \<open>What an attempt hands back: a state with the property, or one in which the request was placed.\<close>

lemma try_admit_P:
  assumes "P s" and "try_admit s r plan adm = (ok, s', r', plan')" and "r \<in> set (pending s)"
  shows "\<not> ok \<Longrightarrow> P s' \<and> pending s' = pending s \<and> sched_config s' = sched_config s
      \<and> length (active s') \<le> length (active s)"
    and "ok \<Longrightarrow> \<exists>s1 kv needed. P s1 \<and> s' = s1\<lparr>cache_manager := kv, lifetime_held := lifetime_held s1 + needed\<rparr>
      \<and> r' = granted r needed \<and> place_request (cache_manager s1) r = (True, kv)
      \<and> fits_pool s1 needed \<and> pending s1 = pending s \<and> sched_config s1 = sched_config s
      \<and> length (active s1) \<le> length (active s)"
proof -
  let ?s1 = "reclaim_for_admission s (prompt_tokens r) (max_decode_tokens (sampling r)) adm"
  have s1: "P ?s1" "length (active ?s1) \<le> length (active s)" using assms(1) by (simp_all add: reclaim_P reclaim_kv_layout)
  show "P s' \<and> pending s' = pending s \<and> sched_config s' = sched_config s \<and> length (active s') \<le> length (active s)"
    if "\<not> ok"
    using assms(2)
  proof (cases rule: try_admit_cases)
    case early
    then show ?thesis using s1 assms(1) by auto
  next
    case (refused s1 kv)
    then show ?thesis using refuse_P [OF s1(1), of r kv] assms(3) s1(2) by simp
  qed (use that in simp)
  show "\<exists>s1 kv needed. P s1 \<and> s' = s1\<lparr>cache_manager := kv, lifetime_held := lifetime_held s1 + needed\<rparr>
      \<and> r' = granted r needed \<and> place_request (cache_manager s1) r = (True, kv)
      \<and> fits_pool s1 needed \<and> pending s1 = pending s \<and> sched_config s1 = sched_config s
      \<and> length (active s1) \<le> length (active s)" if ok
    using assms(2)
  proof (cases rule: try_admit_cases)
    case (taken s1 kv needed)
    then show ?thesis using s1 by (intro exI [of _ s1] exI [of _ kv] exI [of _ needed]) simp
  qed (use that in simp_all)
qed

lemma scan_pending_P:
  assumes "P s" and "scan_pending i rs s plan = (found, s', plan')" and "set rs \<subseteq> set (pending s)"
  shows "(found = None \<longrightarrow> P s')
    \<and> (\<forall>j r'. found = Some (j, r') \<longrightarrow>
         (\<exists>s1 kv needed. P s1 \<and> s' = s1\<lparr>cache_manager := kv, lifetime_held := lifetime_held s1 + needed\<rparr>
            \<and> i \<le> j \<and> j < i + length rs \<and> r' = granted (rs ! (j - i)) needed
            \<and> place_request (cache_manager s1) (rs ! (j - i)) = (True, kv)
            \<and> fits_pool s1 needed \<and> pending s1 = pending s \<and> sched_config s1 = sched_config s
            \<and> length (active s1) \<le> length (active s)))"
  using assms
proof (induction rs arbitrary: i s plan)
  case Nil
  then show ?case by simp
next
  case (Cons r rs)
  obtain ok s1 r1 plan1 where run: "try_admit s r plan (length (prefill_requests plan)) = (ok, s1, r1, plan1)"
    by (metis prod_cases4)
  have "r \<in> set (pending s)" using Cons.prems(3) by simp
  note t = try_admit_P [OF Cons.prems(1) run this]
  show ?case
  proof (cases ok)
    case True
    then have "found = Some (i, r1)" "s' = s1" using Cons.prems(2) run by simp_all
    then show ?thesis using t(2) [OF True] by simp
  next
    case False
    then have rest: "scan_pending (Suc i) rs s1 plan1 = (found, s', plan')" using Cons.prems(2) run by simp
    have P1: "P s1" "set rs \<subseteq> set (pending s1)" using t(1) [OF False] Cons.prems(3) by simp_all
    show ?thesis
      using Cons.IH [OF P1(1) rest P1(2)] t(1) [OF False] by (fastforce simp: nth_Cons' Suc_le_eq)
  qed
qed

lemma admit_once_P:
  assumes "P s" and "admit_once s plan = (ok, s', plan')" and "pending s \<noteq> []"
    and "length (active s) < unat (max_active_requests (sched_config s))"
  shows "P s'"
proof -
  let ?head = "\<not> size_aware_admission (sched_config s)
    \<or> admission_skips (hd (pending s)) \<ge> admission_skip_limit (sched_config s)"
  show ?thesis
  proof (cases ?head)
    case True
    obtain ok1 s1 r1 plan1 where t: "try_admit s (hd (pending s)) plan (length (prefill_requests plan)) = (ok1, s1, r1, plan1)"
      by (metis prod_cases4)
    note p = try_admit_P [OF assms(1) t hd_in_set [OF assms(3)]]
    show ?thesis
    proof (cases ok1)
      case False
      then have "s' = s1" using assms(2) True t by (auto simp: admit_once_def Let_def)
      then show ?thesis using p(1) [OF False] by simp
    next
      case ok: True
      obtain s2 kv needed where s2: "P s2" "s1 = s2\<lparr>cache_manager := kv, lifetime_held := lifetime_held s2 + needed\<rparr>"
        "r1 = granted (hd (pending s)) needed" "place_request (cache_manager s2) (hd (pending s)) = (True, kv)"
        "fits_pool s2 needed" "pending s2 = pending s"
        "sched_config s2 = sched_config s" "length (active s2) \<le> length (active s)"
        using p(2) [OF ok] by blast
      have "s' = admit_at 0 needed (s2\<lparr>cache_manager := kv\<rparr>)"
        using assms(2,3) True t ok s2
        by (auto simp: admit_once_def admit_at_def Let_def hd_conv_nth drop_Suc)
      moreover have "may_admit s2 0" using assms(3,4) s2 by (simp add: may_admit_def)
      ultimately show ?thesis
        using place_P [OF s2(1) _ s2(5), of 0 kv] s2(4,6) assms(3) by (simp add: hd_conv_nth)
    qed
  next
    case False
    obtain found s1 plan1 where sc: "scan_pending 0 (pending s) s plan = (found, s1, plan1)"
      by (metis prod_cases3)
    note p = scan_pending_P [OF assms(1) sc order_refl]
    show ?thesis
    proof (cases found)
      case None
      then have "s' = s1" using assms(2) False sc by (auto simp: admit_once_def Let_def)
      then show ?thesis using p None by simp
    next
      case (Some jr)
      obtain j r where jr: "jr = (j, r)" by fastforce
      obtain s2 kv needed where s2: "P s2" "s1 = s2\<lparr>cache_manager := kv, lifetime_held := lifetime_held s2 + needed\<rparr>"
        "j < length (pending s)" "r = granted (pending s ! j) needed"
        "place_request (cache_manager s2) (pending s ! j) = (True, kv)" "fits_pool s2 needed"
        "pending s2 = pending s" "sched_config s2 = sched_config s" "length (active s2) \<le> length (active s)"
        using p Some jr by auto
      have "s' = admit_at j needed (s2\<lparr>cache_manager := kv\<rparr>)"
        using assms(2) False sc Some jr s2 by (auto simp: admit_once_def admit_at_def Let_def)
      moreover have "may_admit s2 j"
        using assms(3,4) s2 False by (auto simp: may_admit_def)
      ultimately show ?thesis using place_P [OF s2(1) _ s2(6), of j kv] s2(5,7) by simp
    qed
  qed
qed

lemma admit_from_pending_P: "P s \<Longrightarrow> P (fst (admit_from_pending s plan))"
proof (induction s plan rule: admit_from_pending.induct)
  case (1 s plan)
  obtain ok s1 plan1 where run: "admit_once s plan = (ok, s1, plan1)" by (metis prod_cases3)
  show ?case
  proof (cases "pending s \<noteq> [] \<and> length (active s) < unat (max_active_requests (sched_config s))")
    case False
    then show ?thesis using "1.prems" by (auto simp: admit_from_pending.simps [of s])
  next
    case go: True
    have "P s1" using admit_once_P [OF "1.prems" run] go by blast
    then show ?thesis
      using "1.IH" [OF go run [symmetric]] go run by (cases ok) (auto simp: admit_from_pending.simps [of s])
  qed
qed

lemma schedule_next_P: "P s \<Longrightarrow> P (snd (schedule_next s))"
  using admit_from_pending_P [of s empty_plan]
  by (cases "admit_from_pending s empty_plan") (simp add: schedule_next_def Let_def)

end

text \<open>The special case of a property that does not look into the cache manager, except for the layout
  of its pool.\<close>

locale admission_invariant =
  fixes P :: "Scheduler \<Rightarrow> bool"
  assumes preempt_P: "P s \<Longrightarrow> preempt s rid why = (ok, s') \<Longrightarrow> P s'"
    and cache_P: "P s \<Longrightarrow> kv_layout kv = kv_layout (cache_manager s) \<Longrightarrow> P (s\<lparr>cache_manager := kv\<rparr>)"
    and admit_P: "P s \<Longrightarrow> may_admit s i \<Longrightarrow> fits_pool s needed \<Longrightarrow> P (admit_at i needed s)"

sublocale admission_invariant \<subseteq> loop: placement_invariant P
proof (unfold_locales, goal_cases)
  case (1 s rid why ok s')
  then show ?case by (rule preempt_P)
next
  case (2 s r kv)
  then show ?case using cache_P place_request_layout by blast
next
  case (3 s i needed kv)
  have "P (s\<lparr>cache_manager := kv\<rparr>)" using 3(1) place_request_layout [OF 3(4)] by (rule cache_P)
  then show ?case
    using 3(2,3) place_request_layout [OF 3(4)]
    by (intro admit_P) (simp_all add: may_admit_def fits_pool_def total_blocks_kv)
qed

section \<open>The invariants\<close>

lemma find_request_Some:
  "find_request rs rid = Some i \<Longrightarrow> i < length rs \<and> request_id (rs ! i) = rid"
  by (induction rs arbitrary: i) (auto split: if_splits)

lemma find_request_None: "find_request rs rid = None \<longleftrightarrow> rid \<notin> request_id ` set rs"
  by (induction rs) auto

lemma mset_erase_at: "i < length xs \<Longrightarrow> mset xs = add_mset (xs ! i) (mset (erase_at i xs))"
  using id_take_nth_drop [of i xs] unfolding erase_at_def
  by (metis mset_append mset.simps(2) union_mset_add_mset_right)

lemma mset_map_erase_at:
  "i < length xs \<Longrightarrow> mset (map f xs) = add_mset (f (xs ! i)) (mset (map f (erase_at i xs)))"
  using mset_erase_at [of i xs] by (metis image_mset_add_mset mset_map)

lemma sum_erase_at:
  "i < length xs \<Longrightarrow> sum_list (map f xs) = f (xs ! i) + sum_list (map (f :: _ \<Rightarrow> nat) (erase_at i xs))"
  using mset_map_erase_at [of i xs f] by (metis sum_mset.add_mset sum_mset_sum_list)

text \<open>How preemption changes the queues.\<close>

lemma preempt_eq:
  assumes "preempt s rid why = (ok, s')"
  shows "(\<not> ok \<and> s' = s \<and> find_request (active s) rid = None)
    \<or> (ok \<and> (\<exists>i. find_request (active s) rid = Some i \<and> i < length (active s)
        \<and> active s' = erase_at i (active s)
        \<and> preempted s' = preempted s @ [(active s ! i)\<lparr>rq_state := Preempted\<rparr>]
        \<and> pending s' = pending s \<and> sched_config s' = sched_config s
        \<and> lifetime_held s' = (if lifetime_blocks (active s ! i) > 0 \<and> lifetime_held s \<ge> lifetime_blocks (active s ! i)
             then lifetime_held s - lifetime_blocks (active s ! i) else lifetime_held s)
        \<and> cache_manager s' = snd (swap_out_request (cache_manager s) rid)))"
proof (cases "find_request (active s) rid")
  case None
  then show ?thesis using assms by (auto simp: preempt_def)
next
  case (Some i)
  note at = find_request_Some [OF Some]
  show ?thesis
    using assms Some at by (auto simp: preempt_def Let_def split: prod.splits if_splits)
qed

interpretation track: admission_invariant "\<lambda>s. tracked s = X" for X
proof (unfold_locales, goal_cases)
  case (1 s rid why ok s')
  from preempt_eq [OF 1(2)] show ?case
  proof (elim disjE conjE exE)
    fix i
    assume "i < length (active s)" "active s' = erase_at i (active s)" "pending s' = pending s"
      "preempted s' = preempted s @ [(active s ! i)\<lparr>rq_state := Preempted\<rparr>]"
    then show ?thesis
      using 1(1) mset_map_erase_at [of i "active s" request_id] by (simp add: tracked_def)
  qed (use 1 in simp)
next
  case (2 s kv)
  then show ?case by (simp add: tracked_def)
next
  case (3 s i needed)
  have "map request_id (pending (admit_at i needed s)) = map request_id (erase_at i (pending s))"
    by (simp add: erase_at_def skip_request_def admit_at_def)
  moreover have "map request_id (active (admit_at i needed s)) = map request_id (active s) @ [request_id (pending s ! i)]"
    "preempted (admit_at i needed s) = preempted s" by (simp_all add: admit_at_def granted_def)
  ultimately have "tracked (admit_at i needed s) = tracked s"
    using 3(2) mset_map_erase_at [of i "pending s" request_id]
    unfolding tracked_def map_append mset_append may_admit_def by simp
  then show ?case using 3(1) by simp
qed

interpretation bounded: admission_invariant
  "\<lambda>s. length (active s) \<le> max n (unat (max_active_requests (sched_config s)))" for n
proof (unfold_locales, goal_cases)
  case (1 s rid why ok s')
  then show ?case using preempt_kv_layout [OF 1(2)] preempt_fields [OF 1(2)] by simp
next
  case (2 s kv)
  then show ?case by simp
next
  case (3 s i needed)
  then show ?case by (auto simp: admit_at_def may_admit_def le_max_iff_disj)
qed

interpretation fifo: admission_invariant
  "\<lambda>s. \<not> size_aware_admission (sched_config s) \<and> (\<exists>n. pending s = drop n queue)" for queue
proof (unfold_locales, goal_cases)
  case (1 s rid why ok s')
  then show ?case using preempt_fields [OF 1(2)] by simp
next
  case (2 s kv)
  then show ?case by simp
next
  case (3 s i needed)
  then obtain n where "pending s = drop n queue" "i = 0" by (auto simp: may_admit_def)
  then show ?case using 3 by (auto simp: admit_at_def)
qed

lemma skip_bound: "(a::u32) < b \<Longrightarrow> a + 1 \<le> b \<and> (\<forall>c. c \<le> a \<longrightarrow> c \<le> a + 1 \<and> c + 1 \<le> a + 1)"
proof -
  assume "a < b"
  then have "unat a + 1 \<le> unat b" by (simp add: word_less_nat_alt)
  also have "unat b < 4294967296" by simp
  finally have "unat a + 1 < 4294967296" .
  then have inc: "unat (c + 1) = unat c + 1" if "c \<le> a" for c
    using that by (intro unat_inc_u32) (simp add: word_le_nat_alt)
  show ?thesis
    using \<open>a < b\<close> inc [OF order_refl] inc by (auto simp: word_le_nat_alt word_less_nat_alt)
qed

interpretation skips: admission_invariant skips_ok
proof (unfold_locales, goal_cases)
  case (1 s rid why ok s')
  then show ?case using preempt_fields [OF 1(2)] by (simp add: skips_ok_def)
next
  case (2 s kv)
  then show ?case by (simp add: skips_ok_def)
next
  case (3 s i needed)
  let ?lim = "admission_skip_limit (sched_config s)" and ?q = "pending s"
  have i: "i < length ?q" using 3(2) by (simp add: may_admit_def)
  have sorted: "sorted_wrt (\<lambda>a b. admission_skips b \<le> admission_skips a) ?q"
    and lim: "list_all (\<lambda>r. admission_skips r \<le> ?lim) ?q" using 3(1) by (simp_all add: skips_ok_def)
  show ?case
  proof (cases "i = 0")
    case True
    then show ?thesis
      using sorted lim by (cases ?q) (auto simp: skips_ok_def admit_at_def)
  next
    case False
    have head: "admission_skips (hd ?q) < ?lim" using 3(2) False by (auto simp: may_admit_def)
    have below: "admission_skips (?q ! j) < ?lim" if "j < length ?q" for j
    proof -
      have "admission_skips (?q ! j) \<le> admission_skips (?q ! 0)"
        using sorted that by (cases "j = 0") (auto simp: sorted_wrt_iff_nth_less)
      then show ?thesis using head that by (cases ?q) auto
    qed
    have inc: "admission_skips (skip_request (?q ! j)) = admission_skips (?q ! j) + 1" for j
      by (simp add: skip_request_def)
    let ?p = "map skip_request (take i ?q) @ drop (Suc i) ?q"
    have val: "admission_skips (?p ! j) = (if j < i then admission_skips (?q ! j) + 1 else admission_skips (?q ! Suc j))"
      if "j < length ?p" for j
      using that i inc by (auto simp: nth_append min_def)
    have len: "length ?p = length ?q - 1" using i by simp
    have "admission_skips (?p ! k) \<le> admission_skips (?p ! j)" if jk: "j < k" "k < length ?p" for j k
    proof -
      have ord: "admission_skips (?q ! b) \<le> admission_skips (?q ! a)" if "a < b" "b < length ?q" for a b
        using sorted that by (auto simp: sorted_wrt_iff_nth_less)
      show ?thesis
        using jk len val [of j] val [of k] ord [of j k] ord [of j "Suc k"] ord [of "Suc j" "Suc k"]
          skip_bound [OF below [of j]] by (auto split: if_splits)
    qed
    moreover have "admission_skips (?p ! j) \<le> ?lim" if "j < length ?p" for j
    proof (cases "j < i")
      case True
      then show ?thesis using val [OF that] skip_bound [OF below [of j]] i by simp
    next
      case False
      have "Suc j < length ?q" using that len by simp
      from below [OF this] show ?thesis using False val [OF that] by simp
    qed
    ultimately show ?thesis
      by (simp add: skips_ok_def admit_at_def sorted_wrt_iff_nth_less list_all_length)
  qed
qed

interpretation held: admission_invariant "\<lambda>s. held_ok s \<and> kv_blocks (cache_manager s) < 2147483648"
proof (unfold_locales, goal_cases)
  case (1 s rid why ok s')
  have blocks: "kv_layout (cache_manager s') = kv_layout (cache_manager s)" using preempt_kv_layout [OF 1(2)] ..
  from preempt_eq [OF 1(2)] show ?case
  proof (elim disjE conjE exE)
    fix i
    let ?lb = "lifetime_blocks (active s ! i)"
    assume i: "i < length (active s)" and act: "active s' = erase_at i (active s)"
      and held: "lifetime_held s' = (if ?lb > 0 \<and> lifetime_held s \<ge> ?lb then lifetime_held s - ?lb else lifetime_held s)"
    have sum: "held_sum s = unat ?lb + held_sum s'" using sum_erase_at [OF i] act by (simp add: held_sum_def)
    have old: "unat (lifetime_held s) = held_sum s" "lifetime_held s \<le> total_blocks (pool_stats s)"
      using 1(1) by (simp_all add: held_ok_def)
    have ge: "?lb \<le> lifetime_held s" using sum old(1) by (simp add: word_le_nat_alt)
    then have "lifetime_held s' = lifetime_held s - ?lb"
      using held by (cases "?lb = 0") (auto simp: word_neq_0_conv)
    then have "unat (lifetime_held s') = held_sum s'" "lifetime_held s' \<le> lifetime_held s"
      using unat_sub [OF ge] sum old(1) by (simp_all add: word_le_nat_alt)
    then show ?thesis using old(2) blocks 1(1) by (auto simp: held_ok_def total_blocks_kv)
  qed (use 1 in simp)
next
  case (2 s kv)
  then show ?case by (simp add: held_ok_def held_sum_def total_blocks_kv)
next
  case (3 s i needed)
  have tot: "unat (total_blocks (pool_stats s)) = kv_blocks (cache_manager s)"
    using 3(1) by (simp add: total_blocks_kv)
  have "unat needed \<le> kv_blocks (cache_manager s)" "unat (lifetime_held s) \<le> kv_blocks (cache_manager s)"
    using 3(1,3) tot by (simp_all add: fits_pool_def held_ok_def word_le_nat_alt)
  then have "unat (lifetime_held s) + unat needed < 4294967296" using 3(1) by linarith
  then have "unat (lifetime_held s + needed) = unat (lifetime_held s) + unat needed"
    by (simp add: unat_word_ariths)
  then show ?case
    using 3 by (simp add: held_ok_def admit_at_def fits_pool_def pool_stats_def held_sum_def granted_def)
qed

end
