(* ===== verification/SchedulerPlan.thy ===== *)
theory SchedulerPlan
  imports SchedulerProps
begin

text \<open>
  A batch plan names running requests only. The requests admitted by the current call are the last
  ones of the active queue, as many as the plan has prefill entries, and the reclaiming loop takes
  its victims before them. This needs prompts that are not empty, since an empty prompt is admitted
  without a prefill entry, and distinct request ids, since \<^verbatim>\<open>preempt\<close> looks its victim up by id.
\<close>

definition request_ids :: "Request list \<Rightarrow> RequestId list" where
  "request_ids = map request_id"

definition prompts_ok :: "Scheduler \<Rightarrow> bool" where
  "prompts_ok s \<longleftrightarrow>
     distinct (request_ids (pending s @ active s)) \<and> list_all (\<lambda>r. prompt_tokens r > 0) (pending s)"

text \<open>During admission: the last active requests are the ones the plan prefills, in the same order,
  and nothing is decoded yet.\<close>

definition admitted_tail :: "Scheduler \<Rightarrow> BatchPlan \<Rightarrow> bool" where
  "admitted_tail s plan \<longleftrightarrow> decode_requests plan = [] \<and> (\<exists>old. request_ids (active s) = old @ prefill_requests plan)"

lemma request_ids_simps [simp]:
  "request_ids [] = []" "request_ids (r # rs) = request_id r # request_ids rs"
  "request_ids (rs @ qs) = request_ids rs @ request_ids qs" "length (request_ids rs) = length rs"
  "request_ids (map skip_request rs) = request_ids rs" "set (request_ids rs) = request_id ` set rs"
  "request_ids (take n rs) = take n (request_ids rs)" "request_ids (drop n rs) = drop n (request_ids rs)"
  "i < length rs \<Longrightarrow> request_ids rs ! i = request_id (rs ! i)"
  by (simp_all add: request_ids_def skip_request_def take_map drop_map)

lemma request_ids_erase_at [simp]: "request_ids (erase_at i rs) = erase_at i (request_ids rs)"
  by (simp add: erase_at_def)

lemma find_request_distinct:
  "distinct (request_ids rs) \<Longrightarrow> i < length rs \<Longrightarrow> find_request rs (request_id (rs ! i)) = Some i"
proof (induction rs arbitrary: i)
  case (Cons r rs)
  then show ?case by (cases i) auto
qed simp

lemma set_erase_at: "set (erase_at i xs) \<subseteq> set xs"
  unfolding erase_at_def set_append using set_take_subset set_drop_subset by fast

lemma distinct_erase_at: "distinct (xs @ ys) \<Longrightarrow> distinct (xs @ erase_at i ys)"
proof -
  assume d: "distinct (xs @ ys)"
  then have "distinct (take i ys @ drop i ys)" by simp
  moreover have "set (drop (Suc i) ys) \<subseteq> set (drop i ys)" by (simp add: set_drop_subset_set_drop)
  moreover have "distinct (drop (Suc i) ys)" using d by simp
  ultimately have "distinct (erase_at i ys)" unfolding erase_at_def distinct_append by blast
  then show ?thesis using d set_erase_at [of i ys] by auto
qed

lemma preempt_prompts_ok:
  assumes "prompts_ok s" and "preempt s rid why = (ok, s')"
  shows "prompts_ok s'"
proof -
  have pend: "pending s' = pending s" using preempt_fields [OF assms(2)] by simp
  from preempt_eq [OF assms(2)] show ?thesis
  proof (elim disjE conjE exE)
    fix i assume "active s' = erase_at i (active s)"
    then show ?thesis
      using assms(1) pend distinct_erase_at [of "request_ids (pending s)" "request_ids (active s)" i]
      by (simp add: prompts_ok_def)
  qed (use assms in simp)
qed

text \<open>A victim before the tail leaves the tail as it is.\<close>

lemma preempt_tail:
  assumes ok: "prompts_ok s" and tail: "admitted_tail s plan"
    and len: "length (prefill_requests plan) < length (active s)"
    and run: "preempt s (request_id (active s ! (length (active s) - length (prefill_requests plan) - 1))) why = (ok', s')"
  shows "admitted_tail s' plan"
proof -
  obtain old where old: "request_ids (active s) = old @ prefill_requests plan"
    using tail by (auto simp: admitted_tail_def)
  have lold: "length (active s) = length old + length (prefill_requests plan)"
    using arg_cong [OF old, of length] by simp
  let ?k = "length (active s) - length (prefill_requests plan) - 1"
  have k: "?k < length (active s)" "?k < length old" using len lold by linarith+
  have "find_request (active s) (request_id (active s ! ?k)) = Some ?k"
    using find_request_distinct [OF _ k(1)] ok by (simp add: prompts_ok_def)
  then have "active s' = erase_at ?k (active s)"
    using run by (auto simp: preempt_def Let_def split: prod.splits if_splits)
  then have "request_ids (active s') = erase_at ?k old @ prefill_requests plan"
    using old k(2) by (simp add: erase_at_def)
  then show ?thesis using tail by (auto simp: admitted_tail_def)
qed

lemma reclaim_loop_tail:
  "prompts_ok s \<Longrightarrow> admitted_tail s plan \<Longrightarrow> adm = length (prefill_requests plan) \<Longrightarrow>
   prompts_ok (reclaim_loop adm req need tot s) \<and> admitted_tail (reclaim_loop adm req need tot s) plan"
proof (induction adm req need tot s rule: reclaim_loop.induct)
  case (1 adm req need tot s)
  obtain ok s' where run: "preempt s (request_id (active s ! (length (active s) - adm - 1)))
      ''cache pressure watermark'' = (ok, s')" by fastforce
  show ?case
  proof (cases "adm < length (active s)")
    case True
    have "prompts_ok s'" "admitted_tail s' plan"
      using preempt_prompts_ok [OF "1.prems"(1) run] preempt_tail [OF "1.prems"(1,2), of _ ok s'] run True "1.prems"(3)
      by simp_all
    then show ?thesis
      using "1.IH" [OF _ run [symmetric]] "1.prems" run
      by (subst (1 2) reclaim_loop.simps) (auto split: bool.split)
  next
    case False
    then show ?thesis using "1.prems" by (subst (1 2) reclaim_loop.simps) simp
  qed
qed

lemma reclaim_tail:
  assumes "prompts_ok s" and "admitted_tail s plan"
  shows "prompts_ok (reclaim_for_admission s p d (length (prefill_requests plan)))
    \<and> admitted_tail (reclaim_for_admission s p d (length (prefill_requests plan))) plan"
  using assms reclaim_loop_tail [OF assms refl] by (simp add: reclaim_for_admission_def Let_def)

lemma schedule_prefill_chunk_set:
  "set (prefill_requests (schedule_prefill_chunk cfg r plan)) \<subseteq> insert (request_id r) (set (prefill_requests plan))"
  "decode_requests (schedule_prefill_chunk cfg r plan) = decode_requests plan"
  by (auto simp: schedule_prefill_chunk_def Let_def)

text \<open>A granted request with a prompt always gets a prefill entry, because an attempt is only made
  while the budget is not spent.\<close>

lemma granted_chunk:
  assumes "prompt_tokens r > 0" and "scheduled_tokens plan < max_batch_tokens cfg"
  shows "prefill_requests (schedule_prefill_chunk cfg (granted r n) plan) = prefill_requests plan @ [request_id r]"
proof -
  let ?rem = "remaining_prefill_tokens (granted r n)" and ?gap = "max_batch_tokens cfg - scheduled_tokens plan"
  have "?rem \<noteq> 0" using assms(1) by (auto simp: granted_def)
  moreover have "?gap \<noteq> 0" using assms(2) by auto
  ultimately have "min ?rem ?gap \<noteq> 0" by (simp add: min_def)
  then show ?thesis
    using assms(2) \<open>?rem \<noteq> 0\<close> by (simp add: schedule_prefill_chunk_def Let_def granted_def not_le)
qed

lemma try_admit_plan_cases:
  assumes "try_admit s r plan adm = (ok, s', r', plan')"
  shows "active s' = active s \<and> pending s' = pending s
    \<or> active s' = active (reclaim_for_admission s (prompt_tokens r) (max_decode_tokens (sampling r)) adm) \<and> pending s' = pending s"
    and "ok \<Longrightarrow> scheduled_tokens plan < max_batch_tokens (sched_config s)
      \<and> (\<exists>n. r' = granted r n \<and> plan' = schedule_prefill_chunk (sched_config s) (granted r n) plan)"
  using assms
  by (auto simp: try_admit_def Let_def granted_def not_le split: if_splits prod.splits bool.splits)

lemma try_admit_tail:
  assumes run: "try_admit s r plan (length (prefill_requests plan)) = (ok, s', r', plan')"
    and "prompts_ok s" and "admitted_tail s plan" and "prompt_tokens r > 0"
  shows "prompts_ok s'" and "admitted_tail s' plan"
    and "ok \<Longrightarrow> request_id r' = request_id r \<and> prefill_requests plan' = prefill_requests plan @ [request_id r]
      \<and> decode_requests plan' = decode_requests plan"
proof -
  note rec = reclaim_tail [OF assms(2,3), of "prompt_tokens r" "max_decode_tokens (sampling r)"]
  have "prompts_ok s' \<and> admitted_tail s' plan"
    using try_admit_plan_cases(1) [OF run] assms(2,3) rec
    by (elim disjE) (simp_all add: prompts_ok_def admitted_tail_def)
  then show "prompts_ok s'" and "admitted_tail s' plan" by simp_all
  show "request_id r' = request_id r \<and> prefill_requests plan' = prefill_requests plan @ [request_id r]
      \<and> decode_requests plan' = decode_requests plan" if ok
    using try_admit_plan_cases(2) [OF run that] granted_chunk [OF assms(4)] schedule_prefill_chunk_set(2) by (auto simp: granted_def)
qed

lemma scan_pending_tail:
  "scan_pending i rs s plan = (found, s', plan') \<Longrightarrow> prompts_ok s \<Longrightarrow> admitted_tail s plan \<Longrightarrow>
   list_all (\<lambda>r. prompt_tokens r > 0) rs \<Longrightarrow>
   prompts_ok s' \<and> admitted_tail s' plan
   \<and> (case found of None \<Rightarrow> plan' = plan
      | Some (j, r') \<Rightarrow> request_id r' = request_id (rs ! (j - i))
          \<and> prefill_requests plan' = prefill_requests plan @ [request_id r']
          \<and> decode_requests plan' = decode_requests plan)"
proof (induction rs arbitrary: i s)
  case (Cons r rs)
  obtain ok s1 r1 plan1 where t: "try_admit s r plan (length (prefill_requests plan)) = (ok, s1, r1, plan1)"
    by (metis prod_cases4)
  note tl = try_admit_tail [OF t Cons.prems(2,3)]
  show ?case
  proof (cases ok)
    case True
    then show ?thesis using Cons.prems t tl by auto
  next
    case False
    then have "plan1 = plan" using try_admit_fields(3) [OF t] by simp
    then have rest: "scan_pending (Suc i) rs s1 plan = (found, s', plan')" using Cons.prems(1) t False by simp
    have idx: "j - i = Suc (j - Suc i)" if "found = Some (j, r')" for j r'
      using scan_pending_fields [OF rest] that by auto
    show ?thesis
      using Cons.IH [OF rest] Cons.prems(4) tl idx by (auto split: option.splits)
  qed
qed simp

text \<open>Moving the granted request from the pending to the active queue.\<close>

lemma move_prompts_ok:
  assumes ok: "prompts_ok s" and i: "i < length (pending s)" and r: "request_id r = request_id (pending s ! i)"
    and tail: "admitted_tail s plan" and plan': "prefill_requests plan' = prefill_requests plan @ [request_id r]"
      "decode_requests plan' = decode_requests plan"
  defines "s' \<equiv> s\<lparr>active := active s @ [r], pending := map skip_request (take i (pending s)) @ drop (Suc i) (pending s)\<rparr>"
  shows "prompts_ok s'" and "admitted_tail s' plan'"
proof -
  let ?ids = "request_ids (pending s)" and ?act = "request_ids (active s)"
  have "mset (erase_at i ?ids @ ?act @ [request_id r]) = mset (?ids @ ?act)"
    using mset_erase_at [of i ?ids] i r by simp
  then have "distinct (erase_at i ?ids @ ?act @ [request_id r])"
    using ok unfolding prompts_ok_def by (metis mset_eq_imp_distinct_iff request_ids_simps(3))
  then have "distinct (request_ids (pending s' @ active s'))" by (simp add: s'_def erase_at_def)
  moreover have "list_all (\<lambda>r. prompt_tokens r > 0) (pending s')"
    using ok by (auto simp: s'_def prompts_ok_def list_all_iff skip_request_def dest: in_set_takeD in_set_dropD)
  ultimately show "prompts_ok s'" by (simp add: prompts_ok_def)
  show "admitted_tail s' plan'" using tail plan' by (auto simp: admitted_tail_def s'_def)
qed

lemma admit_once_tail:
  assumes run: "admit_once s plan = (ok, s', plan')" and ok: "prompts_ok s" and tail: "admitted_tail s plan"
    and ne: "pending s \<noteq> []"
  shows "prompts_ok s' \<and> admitted_tail s' plan'"
proof -
  have pos: "list_all (\<lambda>r. prompt_tokens r > 0) (pending s)" using ok by (simp add: prompts_ok_def)
  then have hd_pos: "prompt_tokens (hd (pending s)) > 0" using ne by (cases "pending s") simp_all
  obtain ok1 s1 r1 plan1 where t: "try_admit s (hd (pending s)) plan (length (prefill_requests plan)) = (ok1, s1, r1, plan1)"
    by (metis prod_cases4)
  obtain found s2 plan2 where sc: "scan_pending 0 (pending s) s plan = (found, s2, plan2)"
    by (metis prod_cases3)
  note a = try_admit_tail [OF t ok tail hd_pos] try_admit_fields [OF t]
  note b = scan_pending_tail [OF sc ok tail pos] scan_pending_fields [OF sc]
  show ?thesis
  proof (cases "\<not> size_aware_admission (sched_config s) \<or> admission_skips (hd (pending s)) \<ge> admission_skip_limit (sched_config s)")
    case True
    show ?thesis
    proof (cases ok1)
      case False
      then show ?thesis using run True t a by (simp add: admit_once_def)
    next
      case ok1: True
      then have "s' = s1\<lparr>active := active s1 @ [r1], pending := map skip_request (take 0 (pending s1)) @ drop (Suc 0) (pending s1)\<rparr>"
        "plan' = plan1" using run True t a by (simp_all add: admit_once_def drop_Suc)
      then show ?thesis
        using move_prompts_ok [OF a(1) _ _ a(2), of 0 r1 plan1] a ok1 ne by (simp add: hd_conv_nth)
    qed
  next
    case False
    show ?thesis
    proof (cases found)
      case None
      then show ?thesis using run False sc b by (simp add: admit_once_def)
    next
      case (Some jr)
      then obtain j r where jr: "found = Some (j, r)" by (cases jr) simp
      then have "s' = s2\<lparr>active := active s2 @ [r], pending := map skip_request (take j (pending s2)) @ drop (Suc j) (pending s2)\<rparr>"
        "plan' = plan2" using run False sc b by (simp_all add: admit_once_def)
      then show ?thesis using move_prompts_ok [of s2 j r plan plan2] b jr by simp
    qed
  qed
qed

lemma admit_from_pending_tail:
  "admit_from_pending s plan = (s', plan') \<Longrightarrow> prompts_ok s \<Longrightarrow> admitted_tail s plan \<Longrightarrow> admitted_tail s' plan'"
proof (induction s plan rule: admit_from_pending.induct)
  case (1 s plan)
  obtain ok s1 plan1 where run: "admit_once s plan = (ok, s1, plan1)" by (metis prod_cases3)
  show ?case
  proof (cases "pending s \<noteq> [] \<and> length (active s) < unat (max_active_requests (sched_config s))")
    case False
    then show ?thesis using "1.prems" by (auto simp: admit_from_pending.simps [of s])
  next
    case go: True
    note step = admit_once_tail [OF run "1.prems"(2,3)]
    show ?thesis
      using "1.IH" [OF go run [symmetric]] "1.prems"(1) go run step
      by (cases ok) (simp_all add: admit_from_pending.simps [of s])
  qed
qed

text \<open>What the later passes add to the plan comes from the active queue.\<close>

lemma continue_prefill_set:
  "set (prefill_requests (foldl (continue_prefill cfg) plan rs)) \<subseteq> set (prefill_requests plan) \<union> set (request_ids rs)
   \<and> decode_requests (foldl (continue_prefill cfg) plan rs) = decode_requests plan"
proof (induction rs arbitrary: plan)
  case (Cons r rs)
  have "set (prefill_requests (continue_prefill cfg plan r)) \<subseteq> insert (request_id r) (set (prefill_requests plan))"
    "decode_requests (continue_prefill cfg plan r) = decode_requests plan"
    using schedule_prefill_chunk_set [of cfg r plan] by (auto simp: continue_prefill_def)
  then show ?case using Cons [of "continue_prefill cfg plan r"] by auto
qed simp

lemma schedule_decode_tokens_set:
  "set (decode_requests (schedule_decode_tokens cfg rs plan)) \<subseteq> set (decode_requests plan) \<union> set (request_ids rs)
   \<and> prefill_requests (schedule_decode_tokens cfg rs plan) = prefill_requests plan"
  by (induction cfg rs plan rule: schedule_decode_tokens.induct) auto

lemma schedule_next_active:
  assumes "prompts_ok s" and "schedule_next s = (plan, s')"
  shows "set (prefill_requests plan) \<union> set (decode_requests plan) \<subseteq> set (request_ids (active s'))"
proof -
  obtain s1 plan1 where adm: "admit_from_pending s empty_plan = (s1, plan1)" by fastforce
  let ?plan2 = "foldl (continue_prefill (sched_config s1)) plan1 (active s1)"
  have "admitted_tail s1 plan1"
    using admit_from_pending_tail [OF adm assms(1)] by (simp add: admitted_tail_def empty_plan_def)
  then have "set (prefill_requests plan1) \<subseteq> set (request_ids (active s1))" "decode_requests plan1 = []"
    by (auto simp: admitted_tail_def simp del: request_ids_simps(6))
  moreover have "plan = schedule_decode_tokens (sched_config s1) (active s1) ?plan2" "s' = s1"
    using assms(2) adm by (auto simp: schedule_next_def)
  ultimately show ?thesis
    using continue_prefill_set [of "sched_config s1" plan1 "active s1"]
      schedule_decode_tokens_set [of "sched_config s1" "active s1" ?plan2] by auto
qed

end
