(* ===== verification/SchedulerSystem.thy ===== *)
theory SchedulerSystem
  imports SchedulerPlan
begin

text \<open>
  The scheduler as a state machine: its six public operations as steps, and the invariant of its
  queues that every reachable state has. A client enqueues a request under an id the scheduler does
  not track yet; nothing else is asked of it.
\<close>

section \<open>The invariant\<close>

definition pending_ok :: "Request \<Rightarrow> bool" where
  "pending_ok r \<longleftrightarrow>
     rq_state r = Pending \<and> remaining_prefill_tokens r = prompt_tokens r \<and> lifetime_blocks r = 0"

definition active_ok :: "Request \<Rightarrow> bool" where
  "active_ok r \<longleftrightarrow>
     remaining_prefill_tokens r \<le> prompt_tokens r
     \<and> (rq_state r = Prefill \<or> rq_state r = Decode \<and> remaining_prefill_tokens r = 0)"

definition preempted_ok :: "Request \<Rightarrow> bool" where
  "preempted_ok r \<longleftrightarrow> rq_state r = Preempted \<and> remaining_prefill_tokens r \<le> prompt_tokens r"

declare pending_ok_def [queue_ok_defs] active_ok_def [queue_ok_defs] preempted_ok_def [queue_ok_defs]

definition sched_inv :: "Scheduler \<Rightarrow> bool" where
  "sched_inv s \<longleftrightarrow>
     list_all pending_ok (pending s) \<and> list_all active_ok (active s) \<and> list_all preempted_ok (preempted s)
     \<and> distinct (request_ids (pending s @ active s @ preempted s))
     \<and> dom (preemption_infos s) = set (request_ids (preempted s))
     \<and> skips_ok s"

section \<open>The steps\<close>

datatype sched_op = Enqueue Request | ScheduleNext | CompleteStep RequestId u32 | Cancel RequestId
  | Preempt RequestId string | Resume RequestId

fun sched_apply :: "sched_op \<Rightarrow> Scheduler \<Rightarrow> Scheduler" where
  "sched_apply (Enqueue r) s = enqueue s r"
| "sched_apply ScheduleNext s = snd (schedule_next s)"
| "sched_apply (CompleteStep rid n) s = complete_step s rid n"
| "sched_apply (Cancel rid) s = cancel s rid"
| "sched_apply (Preempt rid why) s = snd (preempt s rid why)"
| "sched_apply (Resume rid) s = snd (resume s rid)"

fun sched_enabled :: "sched_op \<Rightarrow> Scheduler \<Rightarrow> bool" where
  "sched_enabled (Enqueue r) s = (request_id r \<notin># tracked s)"
| "sched_enabled op s = True"

inductive sched_step :: "Scheduler \<Rightarrow> sched_op \<Rightarrow> Scheduler \<Rightarrow> bool" where
  "sched_enabled op s \<Longrightarrow> sched_step s op (sched_apply op s)"

inductive sched_reachable :: "Scheduler \<Rightarrow> Scheduler \<Rightarrow> bool" for s0 where
  sched_start: "sched_reachable s0 s0"
| sched_next: "sched_reachable s0 s \<Longrightarrow> sched_step s op s' \<Longrightarrow> sched_reachable s0 s'"

inductive_simps sched_step_simps: "sched_step s op s'"

section \<open>Every step keeps the invariant\<close>

lemma tracked_ids: "tracked s = mset (request_ids (pending s @ active s @ preempted s))"
  by (simp add: tracked_def request_ids_def)

lemma sched_inv_parts:
  assumes "sched_inv s"
  shows "list_all pending_ok (pending s)" "list_all active_ok (active s)" "list_all preempted_ok (preempted s)"
    "distinct (request_ids (pending s @ active s @ preempted s))"
    "dom (preemption_infos s) = set (request_ids (preempted s))" "skips_ok s"
  using assms by (auto simp: sched_inv_def)

lemma list_all_erase_at: "list_all P xs \<Longrightarrow> list_all P (erase_at i xs)"
  using set_erase_at [of i xs] by (auto simp: list_all_iff)

lemma list_all_nth: "list_all P xs \<Longrightarrow> i < length xs \<Longrightarrow> P (xs ! i)"
  by (simp add: list_all_length)

lemma preempt_infos:
  "preempt s rid why = (ok, s') \<Longrightarrow>
   dom (preemption_infos s') = (if ok then insert rid (dom (preemption_infos s)) else dom (preemption_infos s))"
  using find_request_Some [of "active s" rid]
  by (auto simp: preempt_def Let_def split: option.splits prod.splits if_splits)

lemma preempt_sched_inv:
  assumes inv: "sched_inv s" and run: "preempt s rid why = (ok, s')"
  shows "sched_inv s'"
proof -
  note old = sched_inv_parts [OF inv]
  have track: "tracked s' = tracked s" using track.preempt_P [OF refl run] by simp
  have skips: "skips_ok s'" using skips.preempt_P [OF old(6) run] .
  from preempt_eq [OF run] show ?thesis
  proof (elim disjE conjE exE)
    fix i
    assume "ok" and at: "find_request (active s) rid = Some i" and act: "active s' = erase_at i (active s)"
      and pre: "preempted s' = preempted s @ [(active s ! i)\<lparr>rq_state := Preempted\<rparr>]"
      and pend: "pending s' = pending s"
    note i = find_request_Some [OF at]
    have "active_ok (active s ! i)" using old(2) i by (simp add: list_all_nth)
    then have "list_all preempted_ok (preempted s')" using old(3) pre by (simp add: queue_ok_defs)
    moreover have "distinct (request_ids (pending s' @ active s' @ preempted s'))"
      using track old(4) mset_eq_imp_distinct_iff unfolding tracked_ids by metis
    moreover have "dom (preemption_infos s') = set (request_ids (preempted s'))"
      using preempt_infos [OF run] \<open>ok\<close> old(5) pre i by simp
    ultimately show ?thesis
      using old(1,2) pend act skips by (simp add: sched_inv_def list_all_erase_at)
  qed (use inv in simp)
qed

interpretation queues: admission_invariant sched_inv
proof (unfold_locales, goal_cases)
  case (1 s rid why ok s')
  then show ?case by (rule preempt_sched_inv)
next
  case (2 s kv)
  then show ?case by (simp add: sched_inv_def skips_ok_def)
next
  case (3 s i needed)
  note old = sched_inv_parts [OF 3(1)]
  let ?s = "admit_at i needed s"
  have i: "i < length (pending s)" using 3(2) by (simp add: may_admit_def)
  have "tracked ?s = tracked s" using track.admit_P [OF refl 3(2,3)] .
  then have "distinct (request_ids (pending ?s @ active ?s @ preempted ?s))"
    using old(4) mset_eq_imp_distinct_iff unfolding tracked_ids by metis
  moreover have "active_ok (granted (pending s ! i) needed)"
    using list_all_nth [OF old(1) i] by (simp add: queue_ok_defs granted_def)
  moreover have "list_all pending_ok (pending ?s)"
    using old(1) by (auto simp: admit_at_def list_all_iff skip_request_def pending_ok_def
        dest: in_set_takeD in_set_dropD)
  moreover have "skips_ok ?s" using skips.admit_P [OF old(6) 3(2,3)] .
  ultimately show ?case using old by (simp add: sched_inv_def admit_at_def)
qed

lemma enqueue_sched_inv:
  assumes "sched_inv s" and "request_id r \<notin># tracked s"
  shows "sched_inv (enqueue s r)"
  using assms by (auto simp: sched_inv_def enqueue_def pending_ok_def skips_ok_def sorted_wrt_append tracked_ids)

lemma complete_step_sched_inv:
  assumes inv: "sched_inv s"
  shows "sched_inv (complete_step s rid n)"
proof (cases "find_request (active s) rid")
  case None
  then show ?thesis using inv by (simp add: complete_step_def)
next
  case (Some i)
  note old = sched_inv_parts [OF inv]
  have i: "i < length (active s)" using find_request_Some [OF Some] by simp
  have keep: "sched_inv (s\<lparr>active := (active s)[i := r]\<rparr>)"
    if "active_ok r" "request_id r = request_id (active s ! i)" for r
  proof -
    have "request_ids ((active s)[i := r]) = request_ids (active s)"
      unfolding request_ids_def using that(2) i by (intro nth_equalityI) (auto simp: nth_list_update)
    moreover have "list_all active_ok ((active s)[i := r])"
      using old(2) that(1) by (auto simp: list_all_iff dest!: set_update_subset_insert [THEN subsetD])
    ultimately show ?thesis using inv by (simp add: sched_inv_def skips_ok_def)
  qed
  let ?r = "active s ! i"
  have ok: "active_ok ?r" using old(2) i by (rule list_all_nth)
  have "active_ok (?r\<lparr>remaining_prefill_tokens := 0, rq_state := Decode\<rparr>)" by (simp add: active_ok_def)
  moreover have "active_ok (?r\<lparr>remaining_prefill_tokens := remaining_prefill_tokens ?r - n\<rparr>)"
    if "rq_state ?r = Prefill" "n < remaining_prefill_tokens ?r"
  proof -
    have "remaining_prefill_tokens ?r - n \<le> remaining_prefill_tokens ?r"
      using unat_sub [OF less_imp_le [OF that(2)]] by (simp add: word_le_nat_alt)
    then show ?thesis using ok that(1) by (auto simp: active_ok_def)
  qed
  ultimately show ?thesis
    using inv Some keep by (auto simp: complete_step_def Let_def not_le)
qed

text \<open>Removing position \<open>i\<close> of one queue and the record of the request that was there.\<close>

lemma ids_erase_at:
  "distinct (request_ids rs) \<Longrightarrow> i < length rs \<Longrightarrow>
   set (request_ids (erase_at i rs)) = set (request_ids rs) - {request_id (rs ! i)}"
proof -
  assume d: "distinct (request_ids rs)" and i: "i < length rs"
  have m: "mset (request_ids rs) = add_mset (request_id (rs ! i)) (mset (erase_at i (request_ids rs)))"
    using mset_erase_at [of i "request_ids rs"] i by simp
  then have "distinct (request_id (rs ! i) # erase_at i (request_ids rs))"
    using d mset_eq_imp_distinct_iff [of "request_ids rs" "request_id (rs ! i) # erase_at i (request_ids rs)"] by simp
  moreover have "set (request_ids rs) = insert (request_id (rs ! i)) (set (erase_at i (request_ids rs)))"
    using arg_cong [OF m, of set_mset] by simp
  ultimately show ?thesis by auto
qed

lemma resume_eq:
  assumes "resume s rid = (ok, s')"
  shows "(\<not> ok \<and> (\<exists>kv. s' = s\<lparr>cache_manager := kv\<rparr>))
    \<or> (ok \<and> (\<exists>i kv. find_request (preempted s) rid = Some i
        \<and> swap_in_request (cache_manager s) rid = (True, kv)
        \<and> s' = s\<lparr>cache_manager := kv, preempted := erase_at i (preempted s),
            lifetime_held := lifetime_held s + lifetime_blocks (preempted s ! i),
            preemption_infos := (preemption_infos s)(rid := None),
            active := active s @ [(preempted s ! i)\<lparr>rq_state :=
              (if remaining_prefill_tokens (preempted s ! i) > 0 then Prefill else Decode)\<rparr>]\<rparr>))"
proof (cases "find_request (preempted s) rid")
  case None
  then have "s' = s\<lparr>cache_manager := cache_manager s\<rparr>" "\<not> ok" using assms by (auto simp: resume_def)
  then show ?thesis by blast
next
  case (Some i)
  note at = find_request_Some [OF Some]
  show ?thesis
    using assms Some at
    by (cases "fst (swap_in_request (cache_manager s) rid)")
      (auto simp: resume_def Let_def split: prod.splits bool.splits)
qed

lemma resume_sched_inv:
  assumes inv: "sched_inv s" and run: "resume s rid = (ok, s')"
  shows "sched_inv s'"
proof -
  note old = sched_inv_parts [OF inv]
  from resume_eq [OF run] show ?thesis
  proof (elim disjE conjE exE)
    fix kv assume "s' = s\<lparr>cache_manager := kv\<rparr>"
    then show ?thesis using inv by (simp add: sched_inv_def skips_ok_def)
  next
    fix i kv
    let ?r = "preempted s ! i"
    assume at: "find_request (preempted s) rid = Some i"
      and s': "s' = s\<lparr>cache_manager := kv, preempted := erase_at i (preempted s),
            lifetime_held := lifetime_held s + lifetime_blocks ?r,
            preemption_infos := (preemption_infos s)(rid := None),
            active := active s @ [?r\<lparr>rq_state :=
              (if remaining_prefill_tokens ?r > 0 then Prefill else Decode)\<rparr>]\<rparr>"
    note i = find_request_Some [OF at]
    have "preempted_ok ?r" using old(3) i by (simp add: list_all_nth)
    then have act: "list_all active_ok (active s')"
      using old(2) s' by (auto simp: queue_ok_defs word_gt_0)
    have "mset (request_ids (pending s' @ active s' @ preempted s')) = mset (request_ids (pending s @ active s @ preempted s))"
      using mset_erase_at [of i "request_ids (preempted s)"] i s' by simp
    then have "distinct (request_ids (pending s' @ active s' @ preempted s'))"
      using old(4) mset_eq_imp_distinct_iff by metis
    moreover have "dom (preemption_infos s') = set (request_ids (preempted s'))"
      using ids_erase_at [of "preempted s" i] old(4,5) i s' by simp
    ultimately show ?thesis
      using act old(1,3,6) s' by (simp add: sched_inv_def skips_ok_def list_all_erase_at)
  qed
qed

text \<open>A cancelled request was in exactly one queue, and leaves it.\<close>

lemma skips_ok_erase_at:
  "skips_ok s \<Longrightarrow> sched_config s' = sched_config s \<Longrightarrow> pending s' = erase_at i (pending s) \<Longrightarrow> skips_ok s'"
proof -
  assume ok: "skips_ok s" and cfg: "sched_config s' = sched_config s" and p: "pending s' = erase_at i (pending s)"
  have "sorted_wrt R (erase_at i xs)" if "sorted_wrt R xs" for R and xs :: "Request list"
  proof -
    have sub: "sorted_wrt R (take i xs @ drop i xs)" using that by simp
    then have "sorted_wrt R (take i xs)" "\<forall>a\<in>set (take i xs). \<forall>b\<in>set (drop i xs). R a b"
      unfolding sorted_wrt_append by simp_all
    moreover have "sorted_wrt R (drop (Suc i) xs)" using that by (rule sorted_wrt_drop)
    moreover have "set (drop (Suc i) xs) \<subseteq> set (drop i xs)" by (simp add: set_drop_subset_set_drop)
    ultimately show ?thesis unfolding erase_at_def sorted_wrt_append by blast
  qed
  then show ?thesis using ok cfg p by (simp add: skips_ok_def list_all_erase_at)
qed

lemma drop_request_fields [simp]:
  "pending (drop_request s r rid) = pending s" "active (drop_request s r rid) = active s"
  "preempted (drop_request s r rid) = preempted s" "sched_config (drop_request s r rid) = sched_config s"
  "preemption_infos (drop_request s r rid) = (preemption_infos s)(rid := None)"
  "cache_manager (drop_request s r rid) = release_request (cache_manager s) (request_id r)"
  by (simp_all add: drop_request_def Let_def)

lemma cancel_sched_inv:
  assumes inv: "sched_inv s"
  shows "sched_inv (cancel s rid)"
proof -
  note old = sched_inv_parts [OF inv]
  have pend: "sched_inv ((drop_request s r rid)\<lparr>pending := erase_at i (pending s)\<rparr>)" if "find_request (pending s) rid = Some i" for i r
  proof -
    note i = find_request_Some [OF that]
    have "mset (request_ids (pending s)) = add_mset rid (mset (erase_at i (request_ids (pending s))))"
      using mset_erase_at [of i "request_ids (pending s)"] i by simp
    then have "distinct (rid # erase_at i (request_ids (pending s)) @ request_ids (active s @ preempted s))"
      using old(4) mset_eq_imp_distinct_iff [of "request_ids (pending s @ active s @ preempted s)"
          "rid # erase_at i (request_ids (pending s)) @ request_ids (active s @ preempted s)"] by simp
    then show ?thesis
      using old skips_ok_erase_at [OF old(6)] by (simp add: sched_inv_def list_all_erase_at)
  qed
  have act: "sched_inv ((drop_request s r rid)\<lparr>active := erase_at i (active s)\<rparr>)" if "find_request (active s) rid = Some i" for i r
  proof -
    note i = find_request_Some [OF that]
    have "mset (request_ids (active s)) = add_mset rid (mset (erase_at i (request_ids (active s))))"
      using mset_erase_at [of i "request_ids (active s)"] i by simp
    then have "distinct (rid # request_ids (pending s) @ erase_at i (request_ids (active s)) @ request_ids (preempted s))"
      using old(4) mset_eq_imp_distinct_iff [of "request_ids (pending s @ active s @ preempted s)"
          "rid # request_ids (pending s) @ erase_at i (request_ids (active s)) @ request_ids (preempted s)"] by simp
    then show ?thesis using old by (simp add: sched_inv_def list_all_erase_at skips_ok_def)
  qed
  have pre: "sched_inv ((drop_request s r rid)\<lparr>preempted := erase_at i (preempted s)\<rparr>)" if "find_request (preempted s) rid = Some i" for i r
  proof -
    note i = find_request_Some [OF that]
    have "distinct (request_ids (pending s @ active s) @ erase_at i (request_ids (preempted s)))"
      using distinct_erase_at [of "request_ids (pending s @ active s)" "request_ids (preempted s)" i] old(4) by simp
    moreover have "set (erase_at i (request_ids (preempted s))) = set (request_ids (preempted s)) - {rid}"
      using ids_erase_at [of "preempted s" i] old(4) i by simp
    ultimately show ?thesis using old by (simp add: sched_inv_def list_all_erase_at skips_ok_def)
  qed
  show ?thesis using inv pend act pre by (auto simp: cancel_def split: option.split)
qed

lemma sched_step_inv: "sched_inv s \<Longrightarrow> sched_step s op s' \<Longrightarrow> sched_inv s'"
proof -
  assume inv: "sched_inv s" and "sched_step s op s'"
  then have en: "sched_enabled op s" and s': "s' = sched_apply op s" by (simp_all add: sched_step_simps)
  show ?thesis
  proof (cases op)
    case (Enqueue r)
    then show ?thesis using enqueue_sched_inv [OF inv] en s' by simp
  next
    case ScheduleNext
    then show ?thesis using queues.loop.schedule_next_P [OF inv] s' by simp
  next
    case (CompleteStep rid n)
    then show ?thesis using complete_step_sched_inv [OF inv] s' by simp
  next
    case (Cancel rid)
    then show ?thesis using cancel_sched_inv [OF inv] s' by simp
  next
    case (Preempt rid why)
    then show ?thesis using preempt_sched_inv [OF inv, of rid why "fst (preempt s rid why)"] s' by simp
  next
    case (Resume rid)
    then show ?thesis using resume_sched_inv [OF inv, of rid "fst (resume s rid)"] s' by simp
  qed
qed

lemma Scheduler_new_inv: "sched_inv (Scheduler_new cfg kv)"
  by (simp add: sched_inv_def Scheduler_new_def skips_ok_def)

lemma sched_reachable_inv: "sched_reachable s0 s \<Longrightarrow> sched_inv s0 \<Longrightarrow> sched_inv s"
  by (induction rule: sched_reachable.induct) (auto intro: sched_step_inv)

section \<open>What the queues say about a request\<close>

lemma request_state_preempted:
  assumes "sched_inv s"
  shows "request_state s rid = Some Preempted \<longleftrightarrow> rid \<in> set (request_ids (preempted s))"
proof -
  note inv = sched_inv_parts [OF assms]
  have st: "rq_state r = Preempted \<longleftrightarrow> r \<in> set (preempted s)" if "r \<in> set (pending s @ active s @ preempted s)" for r
  proof -
    have "r \<in> set (preempted s) \<Longrightarrow> rq_state r = Preempted" using inv(3) by (auto simp: list_all_iff preempted_ok_def)
    moreover have "r \<in> set (pending s @ active s) \<Longrightarrow> rq_state r \<noteq> Preempted"
      using inv(1,2) by (auto simp: list_all_iff queue_ok_defs)
    ultimately show ?thesis using that by auto
  qed
  show ?thesis
  proof (cases "find (\<lambda>r. request_id r = rid) (pending s @ active s @ preempted s)")
    case None
    then have "request_state s rid = None" "rid \<notin> set (request_ids (preempted s))"
      by (simp add: request_state_def) (use None in \<open>auto simp: find_None_iff\<close>)
    then show ?thesis by simp
  next
    case (Some r)
    then obtain i where "i < length (pending s @ active s @ preempted s)"
        "r = (pending s @ active s @ preempted s) ! i" "request_id r = rid"
      unfolding find_Some_iff by blast
    then have r: "r \<in> set (pending s @ active s @ preempted s)" "request_id r = rid"
      using nth_mem [of i "pending s @ active s @ preempted s"] by metis+
    have "rid \<in> set (request_ids (preempted s)) \<longleftrightarrow> r \<in> set (preempted s)"
      using r inv(4) by auto
    then show ?thesis using Some st [OF r(1)] by (simp add: request_state_def)
  qed
qed

lemma complete_step_held:
  assumes "held_ok s"
  shows "held_ok (complete_step s rid n)"
proof -
  have "map lifetime_blocks (active (complete_step s rid n)) = map lifetime_blocks (active s)"
  proof (cases "find_request (active s) rid")
    case (Some i)
    have "i < length (active s)" using find_request_Some [OF Some] by simp
    then have "map lifetime_blocks ((active s)[i := r]) = map lifetime_blocks (active s)"
      if "lifetime_blocks r = lifetime_blocks (active s ! i)" for r
      using that by (intro nth_equalityI) (auto simp: nth_list_update)
    then show ?thesis using Some by (simp add: complete_step_def Let_def)
  qed (simp add: complete_step_def)
  then have "held_sum (complete_step s rid n) = held_sum s"
    unfolding held_sum_def map_map [of unat lifetime_blocks, unfolded comp_def, symmetric] by simp
  then show ?thesis
    using assms by (auto simp: held_ok_def pool_stats_def complete_step_def Let_def split: option.splits if_splits)
qed

text \<open>A request that was just preempted can be found, and taken back, at the end of its queue.\<close>

lemma find_request_last:
  "rid \<notin> set (request_ids rs) \<Longrightarrow> request_id r = rid \<Longrightarrow> find_request (rs @ [r]) rid = Some (length rs)"
  by (induction rs) auto

lemma erase_at_last [simp]: "erase_at (length xs) (xs @ [x]) = xs"
  by (simp add: erase_at_def)

text \<open>A successful preemption followed by a successful resume moves the request to the end of the
  active queue, in the state it had, and restores the reservation.\<close>

lemma preempt_resume_queues:
  assumes inv: "sched_inv s" and held: "held_ok s" and pre: "preempt s rid why = (True, s1)"
    and res: "resume s1 rid = (True, s2)"
  obtains i where "find_request (active s) rid = Some i" "i < length (active s)"
    and "pending s2 = pending s" "preempted s2 = preempted s" "lifetime_held s2 = lifetime_held s"
    and "map request_id (active s2) = map request_id (erase_at i (active s)) @ [rid]"
    and "remaining_prefill_tokens (last (active s2)) = remaining_prefill_tokens (active s ! i)"
    and "remaining_prefill_tokens (active s ! i) > 0 \<longrightarrow> last (active s2) = active s ! i"
proof -
  obtain i where i: "find_request (active s) rid = Some i" "i < length (active s)"
    and act: "active s1 = erase_at i (active s)"
    and pr: "preempted s1 = preempted s @ [(active s ! i)\<lparr>rq_state := Preempted\<rparr>]"
    and pend: "pending s1 = pending s"
    and lh: "lifetime_held s1 = (if lifetime_blocks (active s ! i) > 0 \<and> lifetime_held s \<ge> lifetime_blocks (active s ! i)
             then lifetime_held s - lifetime_blocks (active s ! i) else lifetime_held s)"
    using preempt_eq [OF pre] by auto
  have rid: "request_id (active s ! i) = rid" using find_request_Some [OF i(1)] by simp
  have "rid \<in> set (request_ids (active s))" using rid i(2) by (auto simp: image_iff)
  then have fresh: "rid \<notin> set (request_ids (preempted s))" using sched_inv_parts(4) [OF inv] by auto
  have at: "find_request (preempted s1) rid = Some (length (preempted s))"
    unfolding pr using fresh rid by (intro find_request_last) simp_all
  have "unat (lifetime_blocks (active s ! i)) \<le> held_sum s"
    using sum_erase_at [OF i(2), of "\<lambda>r. unat (lifetime_blocks r)"] by (simp add: held_sum_def)
  then have "lifetime_blocks (active s ! i) \<le> lifetime_held s"
    using held by (simp add: held_ok_def word_le_nat_alt)
  then have back_held: "lifetime_held s1 + lifetime_blocks (active s ! i) = lifetime_held s"
    using lh by (auto simp: word_gt_0)
  have ok: "active_ok (active s ! i)" using sched_inv_parts(2) [OF inv] i(2) by (rule list_all_nth)
  from resume_eq [OF res] at obtain kv where
    s2: "s2 = s1\<lparr>cache_manager := kv, preempted := preempted s,
            lifetime_held := lifetime_held s,
            preemption_infos := (preemption_infos s1)(rid := None),
            active := active s1 @ [(active s ! i)\<lparr>rq_state :=
              (if remaining_prefill_tokens (active s ! i) > 0 then Prefill else Decode)\<rparr>]\<rparr>"
    using back_held by (auto simp: pr)
  show thesis
  proof (rule that [OF i])
    show "remaining_prefill_tokens (active s ! i) > 0 \<longrightarrow> last (active s2) = active s ! i"
      using ok by (auto simp: s2 active_ok_def)
  qed (simp_all add: s2 pend act rid)
qed

text \<open>Cancelling a tracked request takes it out of its queue once and releases its sequences.\<close>

lemma cancel_tracked:
  assumes "rid \<in># tracked s"
  shows "tracked s = add_mset rid (tracked (cancel s rid))"
    and "cache_manager (cancel s rid) = release_request (cache_manager s) rid"
proof -
  have some: "find_request (pending s) rid \<noteq> None \<or> find_request (active s) rid \<noteq> None \<or> find_request (preempted s) rid \<noteq> None"
    using assms unfolding find_request_None tracked_def by auto
  have at: "i < length q \<and> request_id (q ! i) = rid \<and> mset (map request_id q) = add_mset rid (mset (map request_id (erase_at i q)))"
    if "find_request q rid = Some i" for q i
    using find_request_Some [OF that] mset_map_erase_at [of i q request_id] by auto
  show "tracked s = add_mset rid (tracked (cancel s rid))"
    and "cache_manager (cancel s rid) = release_request (cache_manager s) rid"
    using some by (auto simp: cancel_def tracked_def dest: at split: option.split)
qed

lemma preempt_preempted:
  "preempt s rid why = (True, s1) \<Longrightarrow> find_request (preempted s1) rid \<noteq> None"
  using preempt_eq [of s rid why True s1]
  by (auto simp: find_request_None dest: find_request_Some)

lemma schedule_next_config: "sched_config (snd (schedule_next s)) = sched_config s"
proof -
  obtain s1 plan1 where adm: "admit_from_pending s empty_plan = (s1, plan1)" by fastforce
  show ?thesis
    using admit_from_pending_plan [OF adm plan_ok_empty] by (simp add: schedule_next_def adm)
qed

end
