(* ===== verification/KVLimits.thy ===== *)
theory KVLimits
  imports KVSystem PoolSize
begin

text \<open>
  Machine-integer limits that follow from the invariant. A sequence refers to a frame at most once and
  every published prefix has a user, so the reference count of a frame is at most twice the number of
  live sequences; with a pool and a backend of fewer than \<open>2 ^ 30\<close> blocks a resume never asks for more
  frames than a 32-bit counter holds, and a sequence has fewer than \<open>2 ^ 31\<close> blocks. Clients of the cache
  manager therefore only have to bound the number of live sequences and of swap-outs.
\<close>

section \<open>Reference counts\<close>

lemma count_map_total: "count (map_total f m) x = (\<Sum>k\<in>dom m. count (f (the (m k))) x)"
  by (simp add: map_total_def count_sum)

lemma count_records_refs:
  "list_all (\<lambda>r. distinct (physical_ids r)) recs \<Longrightarrow> count (records_refs recs) p \<le> length recs"
proof (induction recs)
  case (Cons r recs)
  then have "count (mset (physical_ids r)) p \<le> 1" using no_dup_mset [of "physical_ids r"] by (simp add: no_dup_def)
  then show ?case using Cons by (simp add: records_refs_def)
qed (simp add: records_refs_def)

lemma records_le_sequences:
  assumes "kv_inv kv"
  shows "(\<Sum>key\<in>dom (prefix_index kv). length (the (prefix_index kv key))) \<le> card (dom (sequences kv))"
proof -
  note parts = kv_inv_parts [OF assms]
  let ?D = "dom (prefix_index kv)" and ?hs = "\<lambda>key. content_hash ` set (the (prefix_index kv key))"
  let ?use = "\<lambda>sid. (prefix_key (the (sequences kv sid)), prefix_hash (the (sequences kv sid)))"
  have recs: "distinct (map content_hash recs)" "list_all (record_ok kv key) recs"
    if "prefix_index kv key = Some recs" for key recs
    using parts(4) that unfolding prefix_ok_def by blast+
  have "Sigma ?D ?hs \<subseteq> ?use ` dom (sequences kv)"
  proof
    fix x assume "x \<in> Sigma ?D ?hs"
    then obtain key rs r where x: "x = (key, content_hash r)" "prefix_index kv key = Some rs" "r \<in> set rs" by auto
    then have "record_ok kv key r" using recs(2) by (auto simp: list_all_iff)
    then have "users r \<noteq> 0" "unat (users r) = card (prefix_users (sequences kv) key (content_hash r))"
      by (simp_all add: record_ok_def)
    then have "prefix_users (sequences kv) key (content_hash r) \<noteq> {}" by (metis card.empty unat_eq_0_iff_word)
    then obtain sid where "sid \<in> prefix_users (sequences kv) key (content_hash r)" by blast
    then obtain st where st: "sequences kv sid = Some st" "prefix_key st = key" "prefix_hash st = content_hash r"
      by (auto simp: prefix_users_def)
    then have "x = ?use sid" "sid \<in> dom (sequences kv)" using x(1) by auto
    then show "x \<in> ?use ` dom (sequences kv)" by (rule image_eqI)
  qed
  then have "card (Sigma ?D ?hs) \<le> card (dom (sequences kv))"
    using surj_card_le [OF parts(1)] by simp
  moreover have "card (Sigma ?D ?hs) = (\<Sum>key\<in>?D. card (?hs key))"
    using parts(2) by (intro card_SigmaI) auto
  moreover have "card (?hs key) = length (the (prefix_index kv key))" if "key \<in> ?D" for key
    using that recs(1) distinct_card [of "map content_hash (the (prefix_index kv key))"] by auto
  ultimately show ?thesis by simp
qed

lemma refs_count_le:
  assumes "kv_inv kv"
  shows "count (kv_refs kv) p \<le> 2 * card (dom (sequences kv))"
proof -
  note parts = kv_inv_parts [OF assms]
  have "count (seq_refs (the (sequences kv sid))) p \<le> 1" if "sid \<in> dom (sequences kv)" for sid
    using that kv_inv_no_dup [OF assms] by (auto simp: seq_refs_def no_dup_def)
  then have "count (map_total seq_refs (sequences kv)) p \<le> (\<Sum>sid\<in>dom (sequences kv). 1)"
    unfolding count_map_total by (intro sum_mono)
  moreover have "count (records_refs (the (prefix_index kv key))) p \<le> length (the (prefix_index kv key))"
    if "key \<in> dom (prefix_index kv)" for key
  proof -
    from that obtain recs where recs: "prefix_index kv key = Some recs" by blast
    then have "list_all (record_ok kv key) recs" using parts(4) unfolding prefix_ok_def by blast
    then show ?thesis using recs count_records_refs by (simp add: record_ok_def list_all_iff)
  qed
  then have "count (map_total records_refs (prefix_index kv)) p
      \<le> (\<Sum>key\<in>dom (prefix_index kv). length (the (prefix_index kv key)))"
    unfolding count_map_total by (intro sum_mono)
  ultimately show ?thesis using records_le_sequences [OF assms] by (simp add: kv_refs_def)
qed

lemma few_sequences_room:
  assumes "kv_inv kv" and "card (dom (sequences kv)) < 1073741824"
  shows "refs_room kv" and "users_room kv"
proof -
  have "2 * count (kv_refs kv) p < 4294967296" for p using refs_count_le [OF assms(1), of p] assms(2) by linarith
  then show "refs_room kv" by (simp add: refs_room_def)
  show "users_room kv" using assms(2) by (simp add: users_room_def)
qed

section \<open>Swap slots and blocks\<close>

lemma size_map_total:
  fixes f :: "'v \<Rightarrow> 'a multiset"
  shows "size (map_total f m) = (\<Sum>k\<in>dom m. size (f (the (m k))))"
proof -
  have "size (\<Sum>k\<in>D. f (the (m k))) = (\<Sum>k\<in>D. size (f (the (m k))))" for D
    by (induction D rule: infinite_finite_induct) simp_all
  then show ?thesis by (simp add: map_total_def)
qed

text \<open>A pool and a backend of fewer than \<open>2 ^ 30\<close> blocks each. This depends on the layout only.\<close>

definition small_pool :: "KVCacheManager \<Rightarrow> bool" where
  "small_pool kv \<longleftrightarrow>
     capacity (allocator kv) < 1073741824
     \<and> (\<forall>n. map_option max_slots (al_swap_backend (allocator kv)) = Some n \<longrightarrow> unat n < 1073741824)"

lemma small_pool_layout: "kv_layout kv' = kv_layout kv \<Longrightarrow> small_pool kv' = small_pool kv"
  using kv_layout_shape [of kv' kv] by (simp add: small_pool_def)

text \<open>The most blocks one sequence can have: every frame of the pool and every place of the backend.\<close>

definition swap_places :: "KVCacheManager \<Rightarrow> nat" where
  "swap_places kv = (case map_option max_slots (al_swap_backend (allocator kv)) of None \<Rightarrow> 0 | Some n \<Rightarrow> unat n)"

definition seq_limit :: "KVCacheManager \<Rightarrow> nat" where
  "seq_limit kv = capacity (allocator kv) + swap_places kv"

lemma seq_limit_layout: "kv_layout kv' = kv_layout kv \<Longrightarrow> seq_limit kv' = seq_limit kv"
  using kv_layout_shape [of kv' kv] by (simp add: seq_limit_def swap_places_def)

lemma seq_limit_lt: "small_pool kv \<Longrightarrow> seq_limit kv < 2147483648"
  by (auto simp: small_pool_def seq_limit_def swap_places_def split: option.split)

lemma slots_le:
  assumes "kv_inv kv"
  shows "size (kv_slots kv) \<le> swap_places kv"
proof -
  have own: "owns (allocator kv) (kv_refs kv) (kv_slots kv)" using assms by (rule kv_inv_owns)
  then have "kv_slots kv = mset_set (dom (swapped (allocator kv)))" by (simp add: owns_def slots_of_def)
  then have "size (kv_slots kv) = card (dom (swapped (allocator kv)))" by simp
  also have "\<dots> \<le> swap_places kv"
  proof (cases "al_swap_backend (allocator kv)")
    case None
    then show ?thesis by (simp add: swapped_def)
  next
    case (Some sb)
    then have "hsb_invar sb" using owns_inv [OF own] by (simp add: alloc_inv_def memory_inv_def Let_def)
    moreover have "dom (hsb_contents sb) \<subseteq> fst ` set (slots sb)"
      by (auto simp: hsb_contents_def dest: map_of_SomeD intro: rev_image_eqI)
    then have "card (dom (hsb_contents sb)) \<le> length (slots sb)"
      by (metis List.finite_set card_length card_mono dual_order.trans finite_imageI length_map list.set_map)
    ultimately show ?thesis using Some by (simp add: swapped_def hsb_invar_def swap_places_def)
  qed
  finally show ?thesis .
qed

lemma slots_lt:
  assumes "kv_inv kv" and "small_pool kv"
  shows "size (kv_slots kv) < 1073741824"
  using slots_le [OF assms(1)] assms(2) by (auto simp: small_pool_def swap_places_def split: option.splits)

lemma kv_swapped_le: "kv_inv kv \<Longrightarrow> sum (kv_swapped kv) S \<le> size (kv_slots kv)"
proof -
  assume "kv_inv kv"
  then have fin: "finite (dom (sequences kv))" by (rule kv_inv_parts)
  have "sum (kv_swapped kv) S = sum (kv_swapped kv) (S \<inter> dom (sequences kv))" if "finite S"
    using that by (intro sum.mono_neutral_right) (auto simp: kv_swapped_def domIff split: option.splits)
  then have "sum (kv_swapped kv) S \<le> sum (kv_swapped kv) (S \<inter> dom (sequences kv))"
    by (cases "finite S") simp_all
  also have "\<dots> \<le> sum (kv_swapped kv) (dom (sequences kv))" using fin by (intro sum_mono2) auto
  also have "\<dots> = size (kv_slots kv)"
    unfolding kv_slots_def size_map_total by (intro sum.cong) (auto simp: kv_swapped_def seq_slots_def)
  finally show ?thesis .
qed

lemma request_swapped_lt:
  assumes "kv_inv kv" and "small_pool kv"
  shows "sum_list (map (kv_swapped kv) (sequences_for kv rid)) < 1073741824"
proof -
  have "distinct (sequences_for kv rid)" using kv_inv_parts(3) [OF assms(1)] by (simp add: index_ok_def)
  then have "sum_list (map (kv_swapped kv) (sequences_for kv rid)) = sum (kv_swapped kv) (set (sequences_for kv rid))"
    by (rule sum_list_distinct_conv_sum_set)
  then show ?thesis using kv_swapped_le [OF assms(1)] slots_lt [OF assms] by (metis le_less_trans)
qed

lemma tables_blocks_sizes: "tables_blocks ts = size (tables_refs ts) + size (tables_slots ts)"
proof -
  have "length es = size (sum_list (map entry_refs es)) + size (sum_list (map entry_slots es))" for es
    by (induction es) (auto simp: entry_refs_def entry_slots_def split: option.split)
  then have "length (entries t) = size (table_refs t) + size (table_slots t)" for t
    by (simp add: table_refs_def table_slots_def)
  then show ?thesis by (induction ts) simp_all
qed

lemma seq_refs_le_capacity:
  assumes "kv_inv kv" and "sequences kv sid = Some st"
  shows "size (tables_refs (tables st)) \<le> capacity (allocator kv)"
proof -
  have "tables_refs (tables st) \<subseteq># kv_refs kv" using kv_split(1) [OF kv_inv_parts(1) [OF assms(1)] assms(2)] by simp
  then have "card (set_mset (tables_refs (tables st))) \<le> card (set_mset (kv_refs kv))"
    by (intro card_mono) (auto dest: mset_subset_eqD)
  then show ?thesis
    using owns_free [OF kv_inv_owns [OF assms(1)]] no_dup_size [OF kv_inv_no_dup [OF assms]] by linarith
qed

lemma seq_blocks_le:
  assumes "kv_inv kv"
  shows "seq_blocks kv sid \<le> seq_limit kv"
proof (cases "sequences kv sid")
  case None
  then show ?thesis by (simp add: seq_blocks_def)
next
  case (Some st)
  have "size (tables_slots (tables st)) \<le> swap_places kv"
    using kv_swapped_le [OF assms, of "{sid}"] slots_le [OF assms] Some by (simp add: kv_swapped_def)
  then show ?thesis
    using seq_refs_le_capacity [OF assms Some] Some by (simp add: seq_blocks_def tables_blocks_sizes seq_limit_def)
qed

lemma seq_blocks_lt: "kv_inv kv \<Longrightarrow> small_pool kv \<Longrightarrow> seq_blocks kv sid < 2147483648"
  using seq_blocks_le [of kv sid] seq_limit_lt [of kv] by linarith

lemma seq_entries_lt:
  assumes "kv_inv kv" and "small_pool kv" and "sequences kv sid = Some st"
  shows "length (entries (hd (tables st))) < 2147483648"
proof -
  have "length (entries (hd (tables st))) \<le> tables_blocks (tables st)"
    using tables_ok_nonempty [OF kv_inv_tables [OF assms(1,3)]] by (cases "tables st") simp_all
  then show ?thesis using seq_blocks_lt [OF assms(1,2), of sid] assms(3) by (simp add: seq_blocks_def)
qed

text \<open>A number of tokens whose blocks can be counted in 32 bits, for all tables of a sequence.\<close>

definition tokens_fit :: "KVCacheManager \<Rightarrow> u32 \<Rightarrow> bool" where
  "tokens_fit kv n \<longleftrightarrow>
     kv_tokens_per_block kv = 0
     \<or> unat n + unat (kv_tokens_per_block kv) \<le> 4294967296
       \<and> blocks_for (kv_tokens_per_block kv) n * unat (table_count kv) < 2147483648"

lemma tokens_fit_layout: "kv_layout kv' = kv_layout kv \<Longrightarrow> tokens_fit kv' n = tokens_fit kv n"
  using kv_layout_shape [of kv' kv] by (simp add: tokens_fit_def)

lemma tokens_fit_mono:
  assumes "tokens_fit kv n" and "m \<le> n"
  shows "tokens_fit kv m"
proof -
  have le: "unat m \<le> unat n" using assms(2) by (simp add: word_le_nat_alt)
  then have "blocks_for tpb m \<le> blocks_for tpb n" for tpb unfolding blocks_for_def by (intro div_le_mono) simp
  then have "blocks_for tpb m * c \<le> blocks_for tpb n * c" for tpb c by (rule mult_le_mono1)
  from this [of "kv_tokens_per_block kv" "unat (table_count kv)"] show ?thesis
    using assms(1) le unfolding tokens_fit_def by linarith
qed

lemma tokens_fit_reserve:
  assumes "kv_inv kv" and "small_pool kv" and "tokens_fit kv n"
  shows "reserve_fits kv sid n"
proof (cases "sequences kv sid = None \<or> kv_tokens_per_block kv = 0")
  case True
  then show ?thesis by (auto simp: reserve_fits_def split: option.split)
next
  case False
  then obtain st where st: "sequences kv sid = Some st" by (cases "sequences kv sid") auto
  have len: "length (tables st) = unat (table_count kv)" using kv_inv_tables [OF assms(1) st] by (simp add: tables_ok_def)
  have fit: "unat n + unat (kv_tokens_per_block kv) \<le> 4294967296"
    "blocks_for (kv_tokens_per_block kv) n * unat (table_count kv) < 2147483648"
    using assms(3) False by (simp_all add: tokens_fit_def)
  have "blocks_for (kv_tokens_per_block kv) n * 1 \<le> blocks_for (kv_tokens_per_block kv) n * unat (table_count kv)"
    using table_count_pos [of kv] by (intro mult_le_mono2) simp
  then have "length (entries (hd (tables st))) + blocks_for (kv_tokens_per_block kv) n < 4294967296"
    using seq_entries_lt [OF assms(1,2) st] fit by linarith
  then show ?thesis using fit st len by (simp add: reserve_fits_def)
qed

lemma request_blocks_le:
  assumes "kv_inv kv"
  shows "sum_list (map (seq_blocks kv) (sequences_for kv rid)) \<le> card (dom (sequences kv)) * seq_limit kv"
proof -
  have dist: "distinct (sequences_for kv rid)" using kv_inv_parts(3) [OF assms] by (simp add: index_ok_def)
  have "set (sequences_for kv rid) \<subseteq> dom (sequences kv)"
    using kv_inv_parts(3) [OF assms] by (auto simp: index_ok_def request_of_def)
  then have "length (sequences_for kv rid) \<le> card (dom (sequences kv))"
    using kv_inv_parts(1) [OF assms] dist by (metis card_mono distinct_card)
  moreover have "sum_list (map (seq_blocks kv) sids) \<le> length sids * seq_limit kv" for sids
    using seq_blocks_le [OF assms] by (induction sids) (simp_all add: add_mono)
  ultimately show ?thesis by (meson le_trans mult_le_mono1)
qed

end
