(* ===== verification/CacheOwners.thy ===== *)
theory CacheOwners
  imports KVLimits
begin

text \<open>
  Which request each live sequence belongs to, and how the operations change that: creating and forking
  add one sequence, releasing removes the sequences of a request, everything else leaves the owners
  alone. The first part needs no invariant, since it only looks at the sequence table. The second part
  shows that the swap slots numbered so far change with swap-outs only.
\<close>

section \<open>Definitions\<close>

definition owners :: "KVCacheManager \<Rightarrow> SequenceId \<rightharpoonup> RequestId" where
  "owners kv = request_of (sequences kv)"

lemma dom_owners [simp]: "dom (owners kv) = dom (sequences kv)"
  by (auto simp: owners_def request_of_def)

lemma owners_fields [simp]:
  "owners (kv\<lparr>allocator := al\<rparr>) = owners kv" "owners (kv\<lparr>prefix_index := pi\<rparr>) = owners kv"
  "owners (index_sequence kv rid sid) = owners kv"
  by (simp_all add: owners_def index_sequence_def)

lemma owners_update:
  "sequences kv sid = Some st \<Longrightarrow> metadata st' = metadata st \<Longrightarrow>
   owners (kv\<lparr>sequences := (sequences kv)(sid \<mapsto> st')\<rparr>) = owners kv"
  by (auto simp: owners_def request_of_def fun_eq_iff)

lemma owners_cong: "sequences kv' = (sequences kv)(sid \<mapsto> st') \<Longrightarrow> sequences kv sid = Some st \<Longrightarrow>
   metadata st' = metadata st \<Longrightarrow> owners kv' = owners kv"
  by (auto simp: owners_def request_of_def fun_eq_iff)

section \<open>Operations on one sequence\<close>

lemma owners_create:
  "create_sequence kv meta = (ok, kv') \<Longrightarrow>
   owners kv' = (if ok then (owners kv)(sm_sequence_id meta \<mapsto> sm_request_id meta) else owners kv)"
  by (auto simp: create_sequence_def Let_def owners_def request_of_def index_sequence_def fun_eq_iff split: if_splits)

lemma owners_fork:
  "fork_sequence kv parent meta = (ok, kv') \<Longrightarrow>
   owners kv' = (if ok then (owners kv)(sm_sequence_id meta \<mapsto> sm_request_id meta) else owners kv)"
  by (auto simp: fork_sequence_def Let_def owners_def request_of_def index_sequence_def fun_eq_iff
      split: option.splits if_splits prod.splits)

lemma owners_reserve [simp]: "owners (snd (reserve_tokens kv sid n)) = owners kv"
  by (auto simp: reserve_tokens_def Let_def owners_def request_of_def fun_eq_iff split: option.splits prod.splits)

lemma owners_ensure [simp]: "owners (snd (ensure_token_writable kv sid pos kind layer)) = owners kv"
  by (auto simp: ensure_token_writable_def Let_def owners_def request_of_def fun_eq_iff
      split: option.splits prod.splits)

lemma owners_publish [simp]: "owners (snd (publish_prefix kv sid key)) = owners kv"
  by (auto simp: publish_prefix_def Let_def owners_def request_of_def fun_eq_iff split: option.splits)

lemma owners_attach [simp]: "owners (snd (attach_prefix kv sid key)) = owners kv"
  by (auto simp: attach_prefix_def Let_def owners_def request_of_def fun_eq_iff split: option.splits prod.splits)

lemma owners_swap_out [simp]: "owners (snd (swap_out_sequence kv sid)) = owners kv"
  by (auto simp: swap_out_sequence_def Let_def owners_def request_of_def fun_eq_iff split: option.splits prod.splits)

lemma owners_swap_in [simp]: "owners (snd (swap_in_sequence kv sid)) = owners kv"
  by (auto simp: swap_in_sequence_def Let_def owners_def request_of_def fun_eq_iff split: option.splits prod.splits)

section \<open>Operations on a request\<close>

lemma owners_swap_out_request [simp]: "owners (snd (swap_out_request kv rid)) = owners kv"
proof -
  have "owners (snd (swap_out_sequences sids kv n)) = owners kv" for sids n
  proof (induction sids arbitrary: kv n)
    case (Cons sid sids)
    obtain k kv1 where one: "swap_out_sequence kv sid = (k, kv1)" by fastforce
    then have "owners kv1 = owners kv" using owners_swap_out [of kv sid] by simp
    then show ?case using Cons [of kv1 "n + k"] one by simp
  qed simp
  then show ?thesis by (simp add: swap_out_request_def)
qed

lemma owners_swap_in_request [simp]: "owners (snd (swap_in_request kv rid)) = owners kv"
proof -
  have "owners (snd (swap_in_sequences sids kv)) = owners kv" for sids
  proof (induction sids arbitrary: kv)
    case (Cons sid sids)
    obtain ok kv1 where one: "swap_in_sequence kv sid = (ok, kv1)" by fastforce
    then have "owners kv1 = owners kv" using owners_swap_in [of kv sid] by simp
    then show ?case using Cons [of kv1] one by (cases ok) simp_all
  qed simp
  then show ?thesis by (simp add: swap_in_request_def Let_def)
qed

lemma release_request_owners:
  assumes "kv_inv kv"
  shows "owners (release_request kv rid) = (\<lambda>sid. if owners kv sid = Some rid then None else owners kv sid)"
proof -
  have "sid \<in> set (sequences_for kv rid) \<longleftrightarrow> owners kv sid = Some rid" for sid
    using kv_inv_parts(3) [OF assms] by (simp add: index_ok_def owners_def)
  moreover have "sequences (release_request kv rid)
      = (\<lambda>sid. if sid \<in> set (sequences_for kv rid) then None else sequences kv sid)"
    using release_sequences_step [OF assms, of "sequences_for kv rid"] unfolding release_request_def by blast
  ultimately show ?thesis by (auto simp: owners_def request_of_def fun_eq_iff)
qed

lemma release_request_step:
  assumes "kv_inv kv"
  shows "kv_inv (release_request kv rid)"
    and "swap_room (allocator kv) n \<Longrightarrow> swap_room (allocator (release_request kv rid)) n"
  using release_sequences_step [OF assms, of "sequences_for kv rid"] unfolding release_request_def by blast+

text \<open>Without sequences nothing is referred to and nothing is swapped out.\<close>

lemma no_owners_all_free:
  assumes "kv_inv kv" and "dom (owners kv) = {}"
  shows "length (free_list (allocator kv)) = capacity (allocator kv)" and "kv_slots kv = {#}"
  using no_sequences_all_free [OF assms(1)] assms(2) by (simp_all add: kv_slots_def)

section \<open>The backend\<close>

lemma backend_allocate: "allocate al = (r, al') \<Longrightarrow> al_swap_backend al' = al_swap_backend al"
  by (auto simp: allocate_def Let_def update_info_def split: if_splits)

lemma backend_retain [simp]: "al_swap_backend (retain al p) = al_swap_backend al"
  by (simp add: retain_def update_info_def)

lemma backend_release [simp]: "al_swap_backend (release al p) = al_swap_backend al"
  by (simp add: release_def update_info_def Let_def)

lemma backend_copy_block [simp]: "al_swap_backend (copy_block al s d) = al_swap_backend al"
  by (simp add: copy_block_def write_frame_def Let_def split: option.split)

lemma backend_retain_all [simp]: "al_swap_backend (foldl retain al ps) = al_swap_backend al"
  by (induction ps arbitrary: al) simp_all

lemma backend_reserve_blocks:
  "reserve_blocks sid tpb base offs al t = (ok, al', t') \<Longrightarrow> al_swap_backend al' = al_swap_backend al"
  by (induction offs arbitrary: al t)
    (auto dest!: backend_allocate simp: Let_def split: prod.splits option.splits)

lemma backend_reserve_tables:
  "reserve_tables sid tpb n al ts = (ok, al', ts') \<Longrightarrow> al_swap_backend al' = al_swap_backend al"
proof (induction ts arbitrary: al ok ts')
  case (Cons t ts)
  obtain ok1 al1 t1 where one: "reserve_blocks sid tpb (of_nat (bt_size t)) [0..<unat n] al t = (ok1, al1, t1)"
    by (metis prod_cases3)
  show ?case
    using Cons one backend_reserve_blocks [OF one]
    by (cases ok1) (auto simp: Let_def split: prod.splits)
qed simp

lemma backend_attach_blocks:
  "attach_blocks sid tpb i ps al t = (al', t') \<Longrightarrow> al_swap_backend al' = al_swap_backend al"
  by (induction ps arbitrary: i al t) auto

lemma backend_attach_tables:
  "attach_tables sid tpb n ps al ts = (al', ts') \<Longrightarrow> al_swap_backend al' = al_swap_backend al"
proof (induction ts arbitrary: ps al ts')
  case (Cons t ts)
  obtain al1 t1 where one: "attach_blocks sid tpb 0 (take n ps) al t = (al1, t1)" by fastforce
  show ?case
    using Cons one backend_attach_blocks [OF one] by (auto simp: Let_def split: prod.splits)
qed simp

text \<open>No operation but swapping and releasing touches the backend.\<close>

lemma backend_ops [simp]:
  "al_swap_backend (allocator (snd (create_sequence kv meta))) = al_swap_backend (allocator kv)"
  "al_swap_backend (allocator (snd (reserve_tokens kv sid n))) = al_swap_backend (allocator kv)"
  "al_swap_backend (allocator (snd (attach_prefix kv sid key))) = al_swap_backend (allocator kv)"
  "al_swap_backend (allocator (snd (fork_sequence kv sid meta))) = al_swap_backend (allocator kv)"
  "al_swap_backend (allocator (snd (publish_prefix kv sid key))) = al_swap_backend (allocator kv)"
  "al_swap_backend (allocator (snd (ensure_token_writable kv sid pos kind layer))) = al_swap_backend (allocator kv)"
proof -
  show "al_swap_backend (allocator (snd (create_sequence kv meta))) = al_swap_backend (allocator kv)"
    by (simp add: create_sequence_def index_sequence_def Let_def)
  show "al_swap_backend (allocator (snd (reserve_tokens kv sid n))) = al_swap_backend (allocator kv)"
    by (auto simp: reserve_tokens_def Let_def dest!: backend_reserve_tables split: option.split prod.split)
  show "al_swap_backend (allocator (snd (attach_prefix kv sid key))) = al_swap_backend (allocator kv)"
    by (auto simp: attach_prefix_def Let_def dest!: backend_attach_tables split: option.split prod.split)
  show "al_swap_backend (allocator (snd (fork_sequence kv sid meta))) = al_swap_backend (allocator kv)"
    by (simp add: fork_sequence_def fork_tables_eq index_sequence_def Let_def split: option.split)
  show "al_swap_backend (allocator (snd (publish_prefix kv sid key))) = al_swap_backend (allocator kv)"
    by (simp add: publish_prefix_def Let_def split: option.split)
  show "al_swap_backend (allocator (snd (ensure_token_writable kv sid pos kind layer))) = al_swap_backend (allocator kv)"
    by (auto simp: ensure_token_writable_def Let_def dest!: backend_allocate split: option.split prod.split)
qed

lemma swap_room_backend: "al_swap_backend al' = al_swap_backend al \<Longrightarrow> swap_room al' n = swap_room al n"
  by (simp add: swap_room_def)

end
