(* ===== verification/SchedulerCache.thy ===== *)
theory SchedulerCache
  imports SchedulerSystem CacheOwners
begin

text \<open>
  The scheduler and the cache manager together. Every operation of the scheduler keeps the invariant of
  the cache manager it drives, and every live sequence belongs to a request that is active or preempted,
  so nothing is leaked when requests end. The operations of the cache manager that the scheduler issues
  stay within their machine-integer limits as long as the number of live sequences and of swap slots
  numbered so far leaves room for one more call, which is what \<open>roomy\<close> says.
\<close>

section \<open>Definitions\<close>

definition cache_sound :: "Scheduler \<Rightarrow> bool" where
  "cache_sound s \<longleftrightarrow>
     kv_inv (cache_manager s) \<and> small_pool (cache_manager s)
     \<and> list_all (\<lambda>r. tokens_fit (cache_manager s) (prompt_tokens r)) (pending s)
     \<and> ran (owners (cache_manager s)) \<subseteq> set (request_ids (active s @ preempted s))"

text \<open>Room for \<open>S\<close> sequences in all, for swapping out every active or pending request once, and for
  numbering \<open>n\<close> more slots after that.\<close>

definition cache_room :: "nat \<Rightarrow> nat \<Rightarrow> Scheduler \<Rightarrow> bool" where
  "cache_room S n s \<longleftrightarrow>
     card (dom (owners (cache_manager s))) + length (pending s) \<le> S \<and> S < 1073741824
     \<and> swap_room (allocator (cache_manager s)) ((length (active s) + length (pending s)) * (S * seq_limit (cache_manager s)) + n)"

section \<open>Placing a request\<close>

lemma kv_op_inv: "kv_inv kv \<Longrightarrow> kv_enabled op kv \<Longrightarrow> kv_inv (kv_apply op kv)"
  using kv_apply_refines by blast

lemma place_request_step:
  assumes inv: "kv_inv kv" and small: "small_pool kv" and fit: "tokens_fit kv (prompt_tokens r)"
    and few: "card (dom (owners kv)) + 1 < 1073741824" and run: "place_request kv r = (ok, kv')"
  shows "kv_inv kv'" and "kv_layout kv' = kv_layout kv"
    and "swap_room (allocator kv) n \<Longrightarrow> swap_room (allocator kv') n"
    and "ok \<Longrightarrow> owners kv' = (owners kv)(root_sequence_id r \<mapsto> request_id r)"
    and "\<not> ok \<Longrightarrow> dom (owners kv') \<subseteq> dom (owners kv) \<and> ran (owners kv') \<subseteq> ran (owners kv)"
proof -
  obtain c kv1 where create: "create_sequence kv (metadata_from r) = (c, kv1)" by fastforce
  let ?c = "if rq_prefix_key r = [] then 0 else prefix_token_count kv1 (rq_prefix_key r)"
  obtain att kv2 where attach: "(if ?c > 0 \<and> ?c \<le> prompt_tokens r
      then attach_prefix kv1 (root_sequence_id r) (rq_prefix_key r) else (0, kv1)) = (att, kv2)" by fastforce
  let ?n = "if prompt_tokens r > att then prompt_tokens r - att else 0"
  obtain rsv kv3 where reserve:
    "(if ?n > 0 then reserve_tokens kv2 (root_sequence_id r) ?n else (True, kv2)) = (rsv, kv3)" by fastforce
  have place: "(ok, kv') = (if c then if \<not> rsv \<or> prompt_tokens r > 0 \<and> att = 0 \<and> ?n = 0
      then (False, release_request kv3 (request_id r)) else (True, kv3) else (False, kv1))"
    unfolding run [symmetric] place_request_def create prod.case Let_def attach reserve by (cases c) simp_all
  have own1: "owners kv1 = (if c then (owners kv)(root_sequence_id r \<mapsto> request_id r) else owners kv)"
    using owners_create [OF create] by (simp add: metadata_from_def)
  have inv1: "kv_inv kv1" using kv_op_inv [OF inv, of "CreateSequence (metadata_from r)"] create by simp
  have "card (dom (owners kv1)) \<le> card (dom (owners kv)) + 1"
    unfolding own1 using kv_inv_parts(1) [OF inv] by (simp add: card_insert_if)
  then have "card (dom (sequences kv1)) < 1073741824" using few by simp
  then have "kv_enabled (AttachPrefix (root_sequence_id r) (rq_prefix_key r)) kv1"
    using few_sequences_room [OF inv1] by simp
  from kv_op_inv [OF inv1 this] have inv2: "kv_inv kv2" using attach inv1 by (auto split: if_splits)
  have own2: "owners kv2 = owners kv1" using attach by (metis owners_attach snd_conv)
  have lay1: "kv_layout kv1 = kv_layout kv" using create by (metis kv_layout_create snd_conv)
  have lay2: "kv_layout kv2 = kv_layout kv1" using attach by (metis kv_layout_attach snd_conv)
  have lay3: "kv_layout kv3 = kv_layout kv2" using reserve by (metis kv_layout_reserve snd_conv)
  have fit2: "small_pool kv2" "tokens_fit kv2 (prompt_tokens r)"
    using small fit small_pool_layout [of kv2 kv] tokens_fit_layout [of kv2 kv] lay1 lay2 by simp_all
  have "?n \<le> prompt_tokens r" by (auto simp: word_sub_le less_imp_le)
  then have "tokens_fit kv2 ?n" using tokens_fit_mono [OF fit2(2)] by blast
  then have "kv_enabled (ReserveTokens (root_sequence_id r) ?n) kv2"
    using tokens_fit_reserve [OF inv2 fit2(1)] by simp
  from kv_op_inv [OF inv2 this] have inv3: "kv_inv kv3" using reserve inv2 by (auto split: if_splits)
  have own3: "owners kv3 = owners kv2" using reserve by (metis owners_reserve snd_conv)
  have bk: "al_swap_backend (allocator kv1) = al_swap_backend (allocator kv)"
    "al_swap_backend (allocator kv3) = al_swap_backend (allocator kv)"
  proof -
    show b1: "al_swap_backend (allocator kv1) = al_swap_backend (allocator kv)"
      using create by (metis backend_ops(1) snd_conv)
    have b2: "al_swap_backend (allocator kv2) = al_swap_backend (allocator kv1)"
      using attach by (metis backend_ops(3) snd_conv)
    have b3: "al_swap_backend (allocator kv3) = al_swap_backend (allocator kv2)"
      using reserve by (metis backend_ops(2) snd_conv)
    show "al_swap_backend (allocator kv3) = al_swap_backend (allocator kv)" using b1 b2 b3 by simp
  qed
  note rel = release_request_step [OF inv3, where rid = "request_id r"] release_request_owners [OF inv3, where rid = "request_id r"]
  show "kv_inv kv'" using place inv1 inv3 rel(1) by (auto split: if_splits)
  show "kv_layout kv' = kv_layout kv" using place lay1 lay2 lay3 by (auto split: if_splits)
  show "swap_room (allocator kv') n" if "swap_room (allocator kv) n"
    using that place rel(2) swap_room_backend [OF bk(1)] swap_room_backend [OF bk(2)] by (auto split: if_splits)
  show "owners kv' = (owners kv)(root_sequence_id r \<mapsto> request_id r)" if ok
    using that place own1 own2 own3 by (auto split: if_splits)
  show "dom (owners kv') \<subseteq> dom (owners kv) \<and> ran (owners kv') \<subseteq> ran (owners kv)" if "\<not> ok"
  proof (cases c)
    case False
    then show ?thesis using place own1 by simp
  next
    case True
    then have "kv' = release_request kv3 (request_id r)" using place that by (auto split: if_splits)
    then have "owners kv' = (\<lambda>sid. if owners kv3 sid = Some (request_id r) then None else owners kv3 sid)"
      using rel(3) by simp
    moreover have "owners kv3 = (owners kv)(root_sequence_id r \<mapsto> request_id r)" using own1 own2 own3 True by simp
    ultimately have "owners kv' sid = Some q \<Longrightarrow> owners kv sid = Some q" for sid q by (auto split: if_splits)
    then show ?thesis unfolding dom_def ran_def by blast
  qed
qed

section \<open>Preempting and resuming\<close>

lemma swap_out_request_step:
  assumes inv: "kv_inv kv" and few: "card (dom (owners kv)) \<le> S"
    and room: "swap_room (allocator kv) (S * seq_limit kv + n)"
  shows "kv_inv (snd (swap_out_request kv rid))" and "swap_room (allocator (snd (swap_out_request kv rid))) n"
proof -
  have "sum_list (map (seq_blocks kv) (sequences_for kv rid)) \<le> card (dom (sequences kv)) * seq_limit kv"
    using inv by (rule request_blocks_le)
  also have "\<dots> \<le> S * seq_limit kv" using few by simp
  finally have room': "swap_room (allocator kv) (sum_list (map (seq_blocks kv) (sequences_for kv rid)) + n)"
    using room by (auto intro: swap_room_mono)
  obtain c kv' where run: "swap_out_sequences (sequences_for kv rid) kv 0 = (c, kv')" by fastforce
  from swap_out_sequences_step [OF inv room' run]
  show "kv_inv (snd (swap_out_request kv rid))" and "swap_room (allocator (snd (swap_out_request kv rid))) n"
    by (simp_all add: swap_out_request_def run)
qed

lemma cache_sound_parts:
  assumes "cache_sound s"
  shows "kv_inv (cache_manager s)" "small_pool (cache_manager s)"
    "list_all (\<lambda>r. tokens_fit (cache_manager s) (prompt_tokens r)) (pending s)"
    "ran (owners (cache_manager s)) \<subseteq> set (request_ids (active s @ preempted s))"
  using assms by (simp_all add: cache_sound_def)

text \<open>An operation that keeps the pool and the invariant of the manager.\<close>

lemma cache_soundI:
  assumes "cache_sound s" and "kv_inv (cache_manager s')" and "kv_layout (cache_manager s') = kv_layout (cache_manager s)"
    and "list_all (\<lambda>r. prompt_tokens r \<in> prompt_tokens ` set (pending s)) (pending s')"
    and "ran (owners (cache_manager s')) \<subseteq> set (request_ids (active s' @ preempted s'))"
  shows "cache_sound s'"
  using assms small_pool_layout [OF assms(3)] tokens_fit_layout [OF assms(3)]
  unfolding cache_sound_def list_all_iff by auto

lemma preempt_ids:
  assumes "preempt s rid why = (ok, s')"
  shows "set (request_ids (active s' @ preempted s')) = set (request_ids (active s @ preempted s))"
proof -
  from preempt_eq [OF assms] show ?thesis
  proof (elim disjE conjE exE)
    fix i
    assume "i < length (active s)" "active s' = erase_at i (active s)"
      "preempted s' = preempted s @ [(active s ! i)\<lparr>rq_state := Preempted\<rparr>]"
    moreover from this have "mset (request_ids (active s)) = add_mset (request_id (active s ! i)) (mset (request_ids (active s')))"
      using mset_map_erase_at [of i "active s" request_id] by (simp add: request_ids_def)
    then have "set (request_ids (active s)) = insert (request_id (active s ! i)) (set (request_ids (active s')))"
      by (metis set_mset_add_mset_insert set_mset_mset)
    ultimately show ?thesis by (auto simp: request_ids_def)
  qed simp
qed

lemma preempt_cache:
  assumes sound: "cache_sound s" and room: "cache_room S n s" and run: "preempt s rid why = (ok, s')"
  shows "cache_sound s' \<and> cache_room S n s'"
proof -
  note parts = cache_sound_parts [OF sound]
  from preempt_eq [OF run] show ?thesis
  proof (elim disjE conjE exE)
    fix i
    assume i: "i < length (active s)" and act: "active s' = erase_at i (active s)"
      and pend: "pending s' = pending s"
      and kv: "cache_manager s' = snd (swap_out_request (cache_manager s) rid)"
    have len: "length (active s) = Suc (length (active s'))" using act i by (simp add: erase_at_def)
    then have more: "swap_room (allocator (cache_manager s))
        (S * seq_limit (cache_manager s) + ((length (active s') + length (pending s')) * (S * seq_limit (cache_manager s)) + n))"
      using room pend by (simp add: cache_room_def algebra_simps)
    have few: "card (dom (owners (cache_manager s))) \<le> S" using room by (simp add: cache_room_def)
    note step = swap_out_request_step [OF parts(1) few more, of rid, folded kv]
    have "cache_sound s'"
      using sound step(1)
    proof (rule cache_soundI)
      show "ran (owners (cache_manager s')) \<subseteq> set (request_ids (active s' @ preempted s'))"
        using parts(4) preempt_ids [OF run] kv by simp
    qed (simp_all add: kv pend list_all_iff)
    moreover have "cache_room S n s'"
      using room step(2) kv pend seq_limit_layout [of "cache_manager s'" "cache_manager s"] by (simp add: cache_room_def)
    ultimately show ?thesis ..
  qed (use sound room in simp)
qed

interpretation cache: placement_invariant "\<lambda>s. cache_sound s \<and> cache_room S n s" for S n
proof (unfold_locales, goal_cases)
  case (1 s rid why ok s')
  then show ?case using preempt_cache by blast
next
  case (2 s r kv)
  then have sound: "cache_sound s" by simp
  note parts = cache_sound_parts [OF sound]
  have fit: "tokens_fit (cache_manager s) (prompt_tokens r)" using parts(3) 2 by (simp add: list_all_iff)
  have "0 < length (pending s)" using 2(2) by (cases "pending s") auto
  then have few: "card (dom (owners (cache_manager s))) + 1 < 1073741824" using 2(1) unfolding cache_room_def by linarith
  note step = place_request_step [OF parts(1,2) fit few 2(3)]
  have dom: "dom (owners kv) \<subseteq> dom (owners (cache_manager s))" and ran: "ran (owners kv) \<subseteq> ran (owners (cache_manager s))"
    using step(5) 2(1) by simp_all
  have "card (dom (owners kv)) \<le> card (dom (owners (cache_manager s)))"
    using kv_inv_parts(1) [OF parts(1)] dom by (intro card_mono) simp_all
  then have "cache_room S n (s\<lparr>cache_manager := kv\<rparr>)"
    using 2(1) step(3) seq_limit_layout [OF step(2)] by (simp add: cache_room_def)
  moreover have "cache_sound (s\<lparr>cache_manager := kv\<rparr>)"
  proof (rule cache_soundI [OF sound])
    show "ran (owners (cache_manager (s\<lparr>cache_manager := kv\<rparr>)))
        \<subseteq> set (request_ids (active (s\<lparr>cache_manager := kv\<rparr>) @ preempted (s\<lparr>cache_manager := kv\<rparr>)))"
      using ran parts(4) by simp
  qed (use step(1,2) in \<open>simp_all add: list_all_iff\<close>)
  ultimately show ?case by simp
next
  case (3 s i needed kv)
  let ?r = "pending s ! i" and ?s = "admit_at i needed (s\<lparr>cache_manager := kv\<rparr>)"
  have sound: "cache_sound s" using 3(1) by simp
  note parts = cache_sound_parts [OF sound]
  have i: "i < length (pending s)" using 3(2) by (simp add: may_admit_def)
  have fit: "tokens_fit (cache_manager s) (prompt_tokens ?r)" using parts(3) 3(1) i by (simp add: list_all_length)
  have few: "card (dom (owners (cache_manager s))) + 1 < 1073741824" using 3(1) i unfolding cache_room_def by linarith
  note step = place_request_step [OF parts(1,2) fit few 3(4)]
  have own: "owners kv = (owners (cache_manager s))(root_sequence_id ?r \<mapsto> request_id ?r)" using step(4) by simp
  have sizes: "length (active ?s) = Suc (length (active s))" "length (pending s) = Suc (length (pending ?s))"
    using i by (simp_all add: admit_at_def)
  have "card (dom (owners kv)) \<le> card (dom (owners (cache_manager s))) + 1"
    unfolding own using kv_inv_parts(1) [OF parts(1)] 3(1) by (simp add: card_insert_if)
  then have "card (dom (owners kv)) + length (pending ?s) \<le> S" using 3(1) sizes(2) by (simp add: cache_room_def)
  moreover have "cache_manager ?s = kv" by (simp add: admit_at_def)
  ultimately have "cache_room S n ?s"
    using 3(1) step(3) sizes seq_limit_layout [OF step(2)] by (simp add: cache_room_def)
  moreover have "cache_sound ?s"
  proof (rule cache_soundI [OF sound])
    show "ran (owners (cache_manager ?s)) \<subseteq> set (request_ids (active ?s @ preempted ?s))"
      using parts(4) 3(1) own by (auto simp: admit_at_def granted_def request_ids_def ran_def split: if_splits)
    show "list_all (\<lambda>r. prompt_tokens r \<in> prompt_tokens ` set (pending s)) (pending ?s)"
      using set_take_subset [of i "pending s"] set_drop_subset [of "Suc i" "pending s"]
      by (auto simp: admit_at_def list_all_iff skip_request_def)
  qed (use step(1,2) in \<open>simp_all add: admit_at_def\<close>)
  ultimately show ?case by simp
qed

section \<open>The other operations\<close>

lemma resume_cache:
  assumes sound: "cache_sound s" and run: "resume s rid = (ok, s')"
  shows "cache_sound s'" and "cache_room S (S * seq_limit (cache_manager s) + n) s \<Longrightarrow> cache_room S n s'"
proof -
  note parts = cache_sound_parts [OF sound]
  have "cache_sound s' \<and> (cache_room S (S * seq_limit (cache_manager s) + n) s \<longrightarrow> cache_room S n s')"
  proof (cases "find_request (preempted s) rid")
    case None
    then have "s' = s" using run by (simp add: resume_def)
    then show ?thesis using sound by (auto simp: cache_room_def intro: swap_room_mono)
  next
    case (Some i)
    note i = find_request_Some [OF Some]
    obtain c kv where swap: "swap_in_request (cache_manager s) rid = (c, kv)" by fastforce
    have few: "sum_list (map (kv_swapped (cache_manager s)) (sequences_for (cache_manager s) rid)) < 4294967296"
      using request_swapped_lt [OF parts(1,2), of rid] by linarith
    note step = swap_in_request_step [OF parts(1) few swap]
    have own: "owners kv = owners (cache_manager s)" using swap by (metis owners_swap_in_request snd_conv)
    have lay: "kv_layout kv = kv_layout (cache_manager s)" using swap by (metis kv_layout_swap_in_request snd_conv)
    show ?thesis
    proof (cases c)
      case False
      then have "s' = s" using run Some i swap step(4) by (simp add: resume_def)
      then show ?thesis using sound by (auto simp: cache_room_def intro: swap_room_mono)
    next
      case True
      let ?r = "(preempted s ! i)\<lparr>rq_state := (if remaining_prefill_tokens (preempted s ! i) > 0 then Prefill else Decode)\<rparr>"
      have s': "cache_manager s' = kv" "pending s' = pending s" "preempted s' = erase_at i (preempted s)"
        "active s' = active s @ [?r]"
        using run Some i swap True by (auto simp: resume_def Let_def)
      have "insert rid (set (request_ids (erase_at i (preempted s)))) = set (request_ids (preempted s))"
        using mset_erase_at [of i "request_ids (preempted s)"] i
        by (metis length_map nth_map request_ids_def request_ids_erase_at set_mset_add_mset_insert set_mset_mset)
      then have ids: "set (request_ids (active s' @ preempted s')) = set (request_ids (active s @ preempted s))"
        using s' i by auto
      have "cache_sound s'"
        using sound
      proof (rule cache_soundI)
        show "ran (owners (cache_manager s')) \<subseteq> set (request_ids (active s' @ preempted s'))"
          unfolding ids using parts(4) s'(1) own by simp
      qed (use step(1) s' lay in \<open>simp_all add: list_all_iff\<close>)
      moreover have "cache_room S n s'" if "cache_room S (S * seq_limit (cache_manager s) + n) s"
        using that step(7) s' own seq_limit_layout [OF lay] by (simp add: cache_room_def algebra_simps)
      ultimately show ?thesis by blast
    qed
  qed
  then show "cache_sound s'" and "cache_room S (S * seq_limit (cache_manager s) + n) s \<Longrightarrow> cache_room S n s'" by blast+
qed

text \<open>Cancelling releases every sequence of the request, so it owns none when it leaves its queue.\<close>

lemma ids_erase_at_superset:
  "set (request_ids rs) - {request_id (rs ! i)} \<subseteq> set (request_ids (erase_at i rs))"
proof (cases "i < length rs")
  case True
  then have "mset (request_ids rs) = add_mset (request_id (rs ! i)) (mset (request_ids (erase_at i rs)))"
    using mset_map_erase_at [of i rs request_id] by (simp add: request_ids_def)
  then have "set (request_ids rs) = insert (request_id (rs ! i)) (set (request_ids (erase_at i rs)))"
    by (metis set_mset_add_mset_insert set_mset_mset)
  then show ?thesis by blast
qed (simp add: erase_at_def)

lemma cancel_cache:
  assumes sound: "cache_sound s"
  shows "cache_sound (cancel s rid)" and "cache_room S n s \<Longrightarrow> cache_room S n (cancel s rid)"
proof -
  note parts = cache_sound_parts [OF sound]
  let ?kv = "release_request (cache_manager s) rid"
  have own: "ran (owners ?kv) \<subseteq> ran (owners (cache_manager s)) - {rid}" "dom (owners ?kv) \<subseteq> dom (owners (cache_manager s))"
    unfolding release_request_owners [OF parts(1)] dom_def ran_def by (auto split: if_splits)
  have card: "card (dom (owners ?kv)) \<le> card (dom (owners (cache_manager s)))"
    using own(2) kv_inv_parts(1) [OF parts(1)] by (intro card_mono) simp_all
  have step: "cache_sound s' \<and> (cache_room S n s \<longrightarrow> cache_room S n s')"
    if kv: "cache_manager s' = ?kv"
      and q: "set (pending s') \<subseteq> set (pending s)" "length (pending s') \<le> length (pending s)" "length (active s') \<le> length (active s)"
      and ids: "set (request_ids (active s @ preempted s)) - {rid} \<subseteq> set (request_ids (active s' @ preempted s'))" for s'
  proof -
    have "cache_sound s'"
      using sound
    proof (rule cache_soundI)
      show "ran (owners (cache_manager s')) \<subseteq> set (request_ids (active s' @ preempted s'))"
        unfolding kv using own(1) parts(4) ids by blast
    qed (use kv release_request_step(1) [OF parts(1)] q(1) in \<open>auto simp: list_all_iff\<close>)
    moreover have "(length (active s') + length (pending s')) * (S * seq_limit (cache_manager s))
        \<le> (length (active s) + length (pending s)) * (S * seq_limit (cache_manager s))"
      using q by (intro mult_le_mono1) simp
    then have less: "(length (active s') + length (pending s')) * (S * seq_limit (cache_manager s)) + n
        \<le> (length (active s) + length (pending s)) * (S * seq_limit (cache_manager s)) + n" by simp
    have "cache_room S n s'" if room: "cache_room S n s"
    proof -
      have "swap_room (allocator (cache_manager s')) ((length (active s) + length (pending s)) * (S * seq_limit (cache_manager s)) + n)"
        unfolding kv using room by (intro release_request_step(2) [OF parts(1)]) (simp add: cache_room_def)
      from swap_room_mono [OF this less] show ?thesis
        using room kv q card seq_limit_layout [of ?kv "cache_manager s"] by (simp add: cache_room_def)
    qed
    ultimately show ?thesis by blast
  qed
  have shorter: "length (erase_at i q) \<le> length q" for i and q :: "Request list" by (simp add: erase_at_def)
  have "cache_sound (cancel s rid) \<and> (cache_room S n s \<longrightarrow> cache_room S n (cancel s rid))"
  proof (cases "rid \<in># tracked s")
    case False
    then have "cancel s rid = s"
      unfolding tracked_def by (auto simp: cancel_def find_request_None split: option.split dest: find_request_Some)
    then show ?thesis using sound by simp
  next
    case True
    show ?thesis
    proof (rule step)
      show "cache_manager (cancel s rid) = ?kv" using True by (rule cancel_tracked)
      show "set (pending (cancel s rid)) \<subseteq> set (pending s)" "length (pending (cancel s rid)) \<le> length (pending s)"
        "length (active (cancel s rid)) \<le> length (active s)"
        using shorter by (auto simp: cancel_def dest: set_erase_at [THEN subsetD] split: option.split)
      have sup: "set (request_ids q) - {rid} \<subseteq> set (request_ids (erase_at i q))" if "find_request q rid = Some i" for q i
        using ids_erase_at_superset [of q i] find_request_Some [OF that] by simp
      show "set (request_ids (active s @ preempted s)) - {rid}
          \<subseteq> set (request_ids (active (cancel s rid) @ preempted (cancel s rid)))"
      proof (cases "find_request (pending s) rid")
        case None
        show ?thesis
        proof (cases "find_request (active s) rid")
          case none: None
          then obtain i where "find_request (preempted s) rid = Some i"
            using True None unfolding tracked_def find_request_None by (cases "find_request (preempted s) rid") (auto simp: find_request_None)
          then show ?thesis using None none sup [of "preempted s" i] by (auto simp: cancel_def)
        next
          case (Some i)
          then show ?thesis using None sup [OF Some] by (auto simp: cancel_def)
        qed
      next
        case (Some i)
        then show ?thesis by (auto simp: cancel_def)
      qed
    qed
  qed
  then show "cache_sound (cancel s rid)" and "cache_room S n s \<Longrightarrow> cache_room S n (cancel s rid)" by blast+
qed

lemma complete_step_queues:
  "request_ids (active (complete_step s rid n)) = request_ids (active s)"
  "pending (complete_step s rid n) = pending s" "preempted (complete_step s rid n) = preempted s"
  "cache_manager (complete_step s rid n) = cache_manager s" "length (active (complete_step s rid n)) = length (active s)"
proof -
  show "request_ids (active (complete_step s rid n)) = request_ids (active s)"
  proof (cases "find_request (active s) rid")
    case (Some i)
    have "i < length (active s)" using find_request_Some [OF Some] by simp
    then have "request_ids ((active s)[i := r]) = request_ids (active s)" if "request_id r = request_id (active s ! i)" for r
      using that unfolding request_ids_def by (intro nth_equalityI) (auto simp: nth_list_update)
    then show ?thesis using Some by (simp add: complete_step_def Let_def)
  qed (simp add: complete_step_def)
qed (auto simp: complete_step_def Let_def split: option.split)

lemma complete_step_cache:
  "cache_sound (complete_step s rid n) = cache_sound s" "cache_room S m (complete_step s rid n) = cache_room S m s"
  by (simp_all add: cache_sound_def cache_room_def complete_step_queues)

lemma enqueue_cache:
  assumes "cache_sound s" and "tokens_fit (cache_manager s) (prompt_tokens r)"
  shows "cache_sound (enqueue s r)"
  using assms by (simp add: cache_sound_def enqueue_def)

end
