(* ===== verification/ServingSystem.thy ===== *)
theory ServingSystem
  imports SchedulerCache
begin

text \<open>
  The whole serving system: the scheduler, and a client that executes its plans by working on the cache
  manager directly (reserving, preparing writes, writing, forking, publishing prefixes). In every
  reachable state both invariants hold, nothing has faulted, and every live sequence belongs to an active
  or preempted request. An idle scheduler therefore has an empty pool.
\<close>

section \<open>Steps\<close>

text \<open>Room for the sequences and swap-outs of one more scheduler call.\<close>

definition roomy :: "Scheduler \<Rightarrow> bool" where
  "roomy s \<longleftrightarrow> cache_room (card (dom (owners (cache_manager s))) + length (pending s)) 0 s"

datatype sys_op = Sched sched_op | Client kv_op

fun sys_apply :: "sys_op \<Rightarrow> Scheduler \<Rightarrow> Scheduler" where
  "sys_apply (Sched op) s = sched_apply op s"
| "sys_apply (Client op) s = s\<lparr>cache_manager := kv_apply op (cache_manager s)\<rparr>"

text \<open>What a client may do: work on sequences, and fork for a request that is being served. It creates
  no sequences of its own, and leaves swapping and releasing to the scheduler.\<close>

fun client_op :: "kv_op \<Rightarrow> Scheduler \<Rightarrow> bool" where
  "client_op (ForkSequence parent meta) s = (sm_request_id meta \<in> set (request_ids (active s @ preempted s)))"
| "client_op (ReserveTokens sid n) s = True"
| "client_op (EnsureWritable sid pos kind layer) s = True"
| "client_op (ClientWrite sid pos layer p bs) s = True"
| "client_op (PublishPrefix sid key) s = True"
| "client_op _ s = False"

fun sys_enabled :: "sys_op \<Rightarrow> Scheduler \<Rightarrow> bool" where
  "sys_enabled (Sched (Enqueue r)) s = (request_id r \<notin># tracked s \<and> tokens_fit (cache_manager s) (prompt_tokens r))"
| "sys_enabled (Sched op) s = roomy s"
| "sys_enabled (Client op) s = (client_op op s \<and> kv_enabled op (cache_manager s))"

inductive sys_step :: "Scheduler \<Rightarrow> sys_op \<Rightarrow> Scheduler \<Rightarrow> bool" where
  "sys_enabled op s \<Longrightarrow> sys_step s op (sys_apply op s)"

inductive sys_reachable :: "Scheduler \<Rightarrow> Scheduler \<Rightarrow> bool" for s0 where
  sys_start: "sys_reachable s0 s0"
| sys_next: "sys_reachable s0 s \<Longrightarrow> sys_step s op s' \<Longrightarrow> sys_reachable s0 s'"

inductive_simps sys_step_simps: "sys_step s op s'"

section \<open>Preservation\<close>

lemma kv_layout_client_write [simp]: "kv_layout (client_write kv p bs) = kv_layout kv"
  by (simp add: client_write_def kv_layout_def split: option.split)

lemma owners_client_write [simp]: "owners (client_write kv p bs) = owners kv"
  by (simp add: client_write_def split: option.split)

lemma client_step_layout: "client_op op s \<Longrightarrow> kv_layout (kv_apply op kv) = kv_layout kv"
  by (cases op) auto

lemma client_step_owners:
  assumes "client_op op s"
  shows "ran (owners (kv_apply op kv)) \<subseteq> ran (owners kv) \<union> set (request_ids (active s @ preempted s))"
proof (cases op)
  case (ForkSequence parent meta)
  obtain ok kv' where run: "fork_sequence kv parent meta = (ok, kv')" by fastforce
  show ?thesis
    using assms owners_fork [OF run] run by (auto simp: ForkSequence ran_def split: if_splits)
qed (use assms in auto)

lemma client_step_sound:
  assumes sound: "cache_sound s" and "client_op op s" and "kv_enabled op (cache_manager s)"
  shows "cache_sound (s\<lparr>cache_manager := kv_apply op (cache_manager s)\<rparr>)"
  using sound
proof (rule cache_soundI)
  note parts = cache_sound_parts [OF sound]
  show "kv_inv (cache_manager (s\<lparr>cache_manager := kv_apply op (cache_manager s)\<rparr>))"
    using kv_op_inv [OF parts(1) assms(3)] by simp
  show "ran (owners (cache_manager (s\<lparr>cache_manager := kv_apply op (cache_manager s)\<rparr>)))
      \<subseteq> set (request_ids (active (s\<lparr>cache_manager := kv_apply op (cache_manager s)\<rparr>)
          @ preempted (s\<lparr>cache_manager := kv_apply op (cache_manager s)\<rparr>)))"
    using client_step_owners [OF assms(2), of "cache_manager s"] parts(4) by auto
qed (use client_step_layout [OF assms(2)] in \<open>simp_all add: list_all_iff\<close>)

lemma sched_inv_cache [simp]: "sched_inv (s\<lparr>cache_manager := kv\<rparr>) = sched_inv s"
  by (simp add: sched_inv_def skips_ok_def)

lemma sched_apply_sound:
  assumes sound: "cache_sound s" and "sys_enabled (Sched op) s"
  shows "cache_sound (sched_apply op s)"
proof (cases op)
  case (Enqueue r)
  then show ?thesis using assms enqueue_cache by simp
next
  case ScheduleNext
  then show ?thesis using assms cache.schedule_next_P [of s] by (simp add: roomy_def)
next
  case (CompleteStep rid n)
  then show ?thesis using sound by (simp add: complete_step_cache)
next
  case (Cancel rid)
  then show ?thesis using sound by (simp add: cancel_cache)
next
  case (Preempt rid why)
  then show ?thesis
    using assms preempt_cache [OF sound, of _ _ rid why "fst (preempt s rid why)" "snd (preempt s rid why)"]
    by (simp add: roomy_def)
next
  case (Resume rid)
  then show ?thesis using resume_cache(1) [OF sound, of rid "fst (resume s rid)" "snd (resume s rid)"] by simp
qed

lemma sys_step_sound:
  assumes "cache_sound s" and "sched_inv s" and "sys_step s op s'"
  shows "cache_sound s'" and "sched_inv s'"
proof -
  have en: "sys_enabled op s" and s': "s' = sys_apply op s" using assms(3) by (simp_all add: sys_step_simps)
  have "cache_sound s' \<and> sched_inv s'"
  proof (cases op)
    case (Sched sop)
    have "sched_enabled sop s" using en Sched by (cases sop) simp_all
    then have "sched_inv (sched_apply sop s)" using sched_step_inv [OF assms(2)] sched_step.intros by blast
    then show ?thesis using sched_apply_sound [OF assms(1)] en s' Sched by simp
  next
    case (Client kop)
    then show ?thesis using client_step_sound [OF assms(1)] en s' assms(2) by simp
  qed
  then show "cache_sound s'" and "sched_inv s'" by blast+
qed

lemma sys_reachable_sound:
  assumes "sys_reachable s0 s" and "cache_sound s0" and "sched_inv s0"
  shows "cache_sound s \<and> sched_inv s"
  using assms by (induction rule: sys_reachable.induct) (auto dest: sys_step_sound)

lemma fresh_system_sound:
  assumes "alloc_inv al" and "alloc_refs al = {#}" and "slots_of al = {#}" and "small_pool (KVCacheManager_new al)"
  shows "cache_sound (Scheduler_new cfg (KVCacheManager_new al))" and "sched_inv (Scheduler_new cfg (KVCacheManager_new al))"
  using KVCacheManager_new_inv [OF assms(1-3)] assms(4) Scheduler_new_inv
  by (simp_all add: cache_sound_def Scheduler_new_def KVCacheManager_new_def owners_def request_of_def ran_def)

text \<open>Without active and preempted requests there are no sequences, so nothing is held.\<close>

lemma idle_all_free:
  assumes "cache_sound s" and "active s = []" and "preempted s = []"
  shows "sequences (cache_manager s) = Map.empty"
    and "length (free_list (allocator (cache_manager s))) = capacity (allocator (cache_manager s))"
    and "swapped (allocator (cache_manager s)) = Map.empty"
proof -
  note parts = cache_sound_parts [OF assms(1)]
  have "ran (owners (cache_manager s)) = {}" using parts(4) assms(2,3) by simp
  then have "dom (owners (cache_manager s)) = {}" unfolding ran_def dom_def by blast
  then show none: "sequences (cache_manager s) = Map.empty" by simp
  from no_sequences_all_free [OF parts(1) none]
  show "length (free_list (allocator (cache_manager s))) = capacity (allocator (cache_manager s))"
    and "swapped (allocator (cache_manager s)) = Map.empty" by simp_all
qed

end
