(* ===== verification/PlanEntries.thy ===== *)
theory PlanEntries
  imports SchedulerSystem
begin

text \<open>
  The entries of a batch plan. A plan prefills every request at most once, and only requests whose prompt
  is not complete; it decodes every request at most once, and only active ones. Unlike the facts in
  \<open>SchedulerPlan\<close> this needs no assumption on prompts: a prefilled request may have been preempted by the same
  call, so the statement is about the active and the preempted queue.
\<close>

section \<open>Requests that wait for their prompt\<close>

text \<open>A request whose prompt is not complete: the ids a plan may prefill.\<close>

definition needs_prefill :: "Scheduler \<Rightarrow> RequestId set" where
  "needs_prefill s = request_id ` {r \<in> set (active s @ preempted s). remaining_prefill_tokens r > 0}"

lemma needs_prefill_active:
  assumes inv: "sched_inv s" and need: "rid \<in> needs_prefill s" and i: "find_request (active s) rid = Some i"
  shows "remaining_prefill_tokens (active s ! i) > 0"
proof -
  note at = find_request_Some [OF i]
  have dist: "distinct (request_ids (pending s @ active s @ preempted s))" using inv by (rule sched_inv_parts)
  obtain r where r: "r \<in> set (active s @ preempted s)" "request_id r = rid" "remaining_prefill_tokens r > 0"
    using need by (auto simp: needs_prefill_def)
  have mem: "active s ! i \<in> set (active s @ preempted s)" using at by simp
  have "distinct (map request_id (active s @ preempted s))" using dist by (simp add: request_ids_def)
  then have "inj_on request_id (set (active s @ preempted s))" by (simp only: distinct_map)
  then have "r = active s ! i" using r(1,2) mem at unfolding inj_on_def by blast
  then show ?thesis using r(3) by simp
qed

section \<open>Completing a step\<close>

lemma complete_step_cases:
  obtains (same) "complete_step s rid c = s" and "\<And>i. find_request (active s) rid = Some i \<Longrightarrow> rq_state (active s ! i) \<noteq> Prefill"
  | (step) i r where "find_request (active s) rid = Some i" and "rq_state (active s ! i) = Prefill"
      and "complete_step s rid c = s\<lparr>active := (active s)[i := r]\<rparr>" and "request_id r = rid"
      and "rq_state r = Decode \<and> remaining_prefill_tokens r = 0
        \<or> rq_state r = Prefill \<and> remaining_prefill_tokens (active s ! i) > 0"
proof (cases "\<exists>i. find_request (active s) rid = Some i \<and> rq_state (active s ! i) = Prefill")
  case False
  then have "complete_step s rid c = s" by (auto simp: complete_step_def Let_def split: option.split)
  then show thesis using same False by blast
next
  case True
  then obtain i where i: "find_request (active s) rid = Some i" "rq_state (active s ! i) = Prefill" by blast
  have rid: "request_id (active s ! i) = rid" using find_request_Some [OF i(1)] by simp
  show thesis
  proof (cases "c \<ge> remaining_prefill_tokens (active s ! i)")
    case True
    then show thesis
      using step [OF i, of "(active s ! i)\<lparr>remaining_prefill_tokens := 0, rq_state := Decode\<rparr>"] i rid
      by (simp add: complete_step_def)
  next
    case False
    then have "remaining_prefill_tokens (active s ! i) > 0" by (metis word_gt_0 word_zero_le)
    then show thesis
      using step [OF i, of "(active s ! i)\<lparr>remaining_prefill_tokens := remaining_prefill_tokens (active s ! i) - c\<rparr>"]
        i rid False by (simp add: complete_step_def Let_def)
  qed
qed

text \<open>The state a request is found in.\<close>

lemma find_id_Some: "find (\<lambda>r. request_id r = rid) rs = Some q \<Longrightarrow> q \<in> set rs \<and> request_id q = rid"
  by (induction rs) (auto split: if_splits)

lemma request_state_active:
  assumes inv: "sched_inv s" and i: "find_request (active s) rid = Some i"
  shows "request_state s rid = Some (rq_state (active s ! i))"
proof -
  note at = find_request_Some [OF i]
  have "distinct (request_ids (pending s @ active s @ preempted s))" using inv by (rule sched_inv_parts)
  then have "find (\<lambda>r. request_id r = rid) (pending s) = None" using at by (auto simp: find_None_iff)
  moreover have "find (\<lambda>r. request_id r = rid) rs = Some (rs ! i)" if "find_request rs rid = Some i" for rs i
    using that by (induction rs arbitrary: i) (auto split: if_splits)
  moreover have "find P (xs @ ys) = (case find P xs of None \<Rightarrow> find P ys | Some x \<Rightarrow> Some x)" for P and xs ys :: "Request list"
    by (induction xs) auto
  ultimately show ?thesis using i by (simp add: request_state_def)
qed

lemma request_state_Decode:
  assumes "sched_inv s" and "request_state s rid = Some Decode"
  obtains i where "find_request (active s) rid = Some i"
proof -
  note parts = sched_inv_parts [OF assms(1)]
  obtain q where "find (\<lambda>r. request_id r = rid) (pending s @ active s @ preempted s) = Some q" "rq_state q = Decode"
    using assms(2) by (auto simp: request_state_def)
  then have "q \<in> set (active s)" "request_id q = rid"
    using find_id_Some [of rid _ q] parts(1,3) by (fastforce simp: list_all_iff queue_ok_defs)+
  then show thesis using that find_request_None [of "active s" rid] by auto
qed

section \<open>The prefill entries of a plan\<close>

text \<open>A plan prefills every request at most once, and only requests whose prompt is not complete. This
  holds for empty prompts too, which never get an entry.\<close>

definition plan_wants :: "Scheduler \<Rightarrow> BatchPlan \<Rightarrow> bool" where
  "plan_wants s plan \<longleftrightarrow> distinct (prefill_requests plan) \<and> set (prefill_requests plan) \<subseteq> needs_prefill s"

interpretation wants: admission_invariant "\<lambda>s. X \<subseteq> needs_prefill s" for X
proof (unfold_locales, goal_cases)
  case (1 s rid why ok s')
  from preempt_eq [OF 1(2)] show ?case
  proof (elim disjE conjE exE)
    fix i
    assume i: "i < length (active s)" and act: "active s' = erase_at i (active s)"
      and pre: "preempted s' = preempted s @ [(active s ! i)\<lparr>rq_state := Preempted\<rparr>]"
    have split: "set (active s) = insert (active s ! i) (set (active s'))"
      using mset_erase_at [OF i] act by (metis set_mset_add_mset_insert set_mset_mset)
    have "x \<in> needs_prefill s'" if x: "x \<in> needs_prefill s" for x
    proof -
      obtain r where r: "r \<in> set (active s @ preempted s)" "x = request_id r" "remaining_prefill_tokens r > 0"
        using x by (auto simp: needs_prefill_def)
      let ?q = "if r = active s ! i then r\<lparr>rq_state := Preempted\<rparr> else r"
      have "?q \<in> set (active s' @ preempted s')" using r(1) split pre by auto
      moreover have "x = request_id ?q" "remaining_prefill_tokens ?q > 0" using r by auto
      ultimately show ?thesis unfolding needs_prefill_def by blast
    qed
    then show ?thesis using 1(1) by blast
  qed (use 1 in simp)
next
  case (2 s kv)
  then show ?case by (simp add: needs_prefill_def)
next
  case (3 s i needed)
  have "needs_prefill s \<subseteq> needs_prefill (admit_at i needed s)" by (auto simp: needs_prefill_def admit_at_def)
  then show ?case using 3(1) by blast
qed

lemma needs_prefill_ids: "needs_prefill s \<subseteq> set (request_ids (active s @ preempted s))"
  by (auto simp: needs_prefill_def)

lemma plan_wants_chunk:
  assumes "plan_wants s plan" and "r \<in> set (active s @ preempted s)" and "request_id r \<notin> set (prefill_requests plan)"
  shows "plan_wants s (schedule_prefill_chunk cfg r plan)"
  using assms by (auto simp: plan_wants_def schedule_prefill_chunk_def Let_def needs_prefill_def word_gt_0)

lemma scan_pending_chunk:
  "scan_pending i rs s plan = (found, s', plan') \<Longrightarrow>
   (case found of None \<Rightarrow> plan' = plan
    | Some (j, r) \<Rightarrow> plan' = schedule_prefill_chunk (sched_config s) r plan)"
proof (induction rs arbitrary: i s)
  case (Cons r rs)
  obtain ok s1 r1 plan1 where t: "try_admit s r plan (length (prefill_requests plan)) = (ok, s1, r1, plan1)"
    by (metis prod_cases4)
  show ?case
  proof (cases ok)
    case True
    then show ?thesis using Cons.prems t try_admit_plan_cases(2) [OF t] by auto
  next
    case False
    then have "plan1 = plan" "sched_config s1 = sched_config s" using try_admit_fields [OF t] by simp_all
    then show ?thesis using Cons.IH [of "Suc i" s1] Cons.prems t False by (cases found) auto
  qed
qed simp

text \<open>The request that was granted joins the active queue.\<close>

lemma plan_wants_admitted:
  assumes want: "set (prefill_requests plan) \<subseteq> needs_prefill s2" and dist: "distinct (prefill_requests plan)"
    and fresh: "request_id q \<notin> set (prefill_requests plan)" and r: "r = granted q needed"
    and act: "active s' = active s2 @ [r]" and pre: "preempted s' = preempted s2"
    and plan': "plan' = schedule_prefill_chunk cfg r plan"
  shows "plan_wants s' plan'"
proof -
  have "needs_prefill s2 \<subseteq> needs_prefill s'" by (auto simp: needs_prefill_def act pre)
  then have "plan_wants s' plan" using want dist by (auto simp: plan_wants_def)
  moreover have "r \<in> set (active s' @ preempted s')" "request_id r \<notin> set (prefill_requests plan)"
    using act fresh r by (simp_all add: granted_def)
  ultimately show ?thesis unfolding plan' by (rule plan_wants_chunk)
qed

lemma admit_once_wants:
  assumes inv: "sched_inv s" and want: "plan_wants s plan" and run: "admit_once s plan = (ok, s', plan')"
    and ne: "pending s \<noteq> []"
  shows "plan_wants s' plan'"
proof -
  have dist: "distinct (prefill_requests plan)" and sub: "set (prefill_requests plan) \<subseteq> needs_prefill s"
    using want by (simp_all add: plan_wants_def)
  have fresh: "request_id q \<notin> set (prefill_requests plan)" if "q \<in> set (pending s)" for q
  proof -
    have "set (request_ids (pending s)) \<inter> set (request_ids (active s @ preempted s)) = {}"
      using sched_inv_parts(4) [OF inv] by auto
    moreover have "request_id q \<in> set (request_ids (pending s))" using that by simp
    ultimately show ?thesis using sub needs_prefill_ids [of s] by blast
  qed
  show ?thesis
  proof (cases "\<not> size_aware_admission (sched_config s) \<or> admission_skips (hd (pending s)) \<ge> admission_skip_limit (sched_config s)")
    case True
    obtain ok1 s1 r1 plan1 where t: "try_admit s (hd (pending s)) plan (length (prefill_requests plan)) = (ok1, s1, r1, plan1)"
      by (metis prod_cases4)
    note p = wants.loop.try_admit_P [OF sub t hd_in_set [OF ne]]
    show ?thesis
    proof (cases ok1)
      case False
      then show ?thesis
        using run True t p(1) [OF False] try_admit_fields(3) [OF t] dist by (auto simp: admit_once_def plan_wants_def)
    next
      case ok1: True
      from p(2) [OF ok1] obtain s2 kv needed where s2: "set (prefill_requests plan) \<subseteq> needs_prefill s2"
        "s1 = s2\<lparr>cache_manager := kv, lifetime_held := lifetime_held s2 + needed\<rparr>" "r1 = granted (hd (pending s)) needed"
        by blast
      have s': "active s' = active s2 @ [r1]" "preempted s' = preempted s2" "plan' = plan1"
        using run True t ok1 s2 by (auto simp: admit_once_def)
      have "plan1 = schedule_prefill_chunk (sched_config s) r1 plan" using try_admit_plan_cases(2) [OF t ok1] by auto
      then show ?thesis
        using plan_wants_admitted [OF s2(1) dist fresh [OF hd_in_set [OF ne]] s2(3) s'(1,2)] s'(3) by simp
    qed
  next
    case False
    obtain found s1 plan1 where sc: "scan_pending 0 (pending s) s plan = (found, s1, plan1)"
      by (metis prod_cases3)
    note p = wants.loop.scan_pending_P [OF sub sc order_refl] and chunk = scan_pending_chunk [OF sc]
    show ?thesis
    proof (cases found)
      case None
      then show ?thesis using run False sc p chunk dist by (auto simp: admit_once_def plan_wants_def)
    next
      case (Some jr)
      obtain j r where jr: "found = Some (j, r)" using Some by (cases jr) simp
      from p jr obtain s2 kv needed where s2: "set (prefill_requests plan) \<subseteq> needs_prefill s2"
        "s1 = s2\<lparr>cache_manager := kv, lifetime_held := lifetime_held s2 + needed\<rparr>" "r = granted (pending s ! j) needed"
        "j < length (pending s)"
        by auto
      have s': "active s' = active s2 @ [r]" "preempted s' = preempted s2" "plan' = plan1"
        using run False sc jr s2 by (auto simp: admit_once_def)
      have "plan1 = schedule_prefill_chunk (sched_config s) r plan" using chunk jr by simp
      then show ?thesis
        using plan_wants_admitted [OF s2(1) dist fresh [OF nth_mem [OF s2(4)]] s2(3) s'(1,2)] s'(3) by simp
    qed
  qed
qed

lemma admit_from_pending_wants:
  "admit_from_pending s plan = (s', plan') \<Longrightarrow> sched_inv s \<Longrightarrow> plan_wants s plan \<Longrightarrow> plan_wants s' plan'"
proof (induction s plan rule: admit_from_pending.induct)
  case (1 s plan)
  obtain ok s1 plan1 where run: "admit_once s plan = (ok, s1, plan1)" by (metis prod_cases3)
  show ?case
  proof (cases "pending s \<noteq> [] \<and> length (active s) < unat (max_active_requests (sched_config s))")
    case False
    then show ?thesis using "1.prems" by (auto simp: admit_from_pending.simps [of s])
  next
    case go: True
    have "sched_inv s1" "plan_wants s1 plan1"
      using queues.loop.admit_once_P [OF "1.prems"(2) run] admit_once_wants [OF "1.prems"(2,3) run] go by simp_all
    then show ?thesis
      using "1.IH" [OF go run [symmetric]] "1.prems"(1) go run
      by (cases ok) (simp_all add: admit_from_pending.simps [of s])
  qed
qed

lemma admit_from_pending_decode:
  "admit_from_pending s plan = (s', plan') \<Longrightarrow> decode_requests plan' = decode_requests plan"
proof (induction s plan rule: admit_from_pending.induct)
  case (1 s plan)
  obtain ok s1 plan1 where run: "admit_once s plan = (ok, s1, plan1)" by (metis prod_cases3)
  obtain ok1 s2 r1 plan2 where t: "try_admit s (hd (pending s)) plan (length (prefill_requests plan)) = (ok1, s2, r1, plan2)"
    by (metis prod_cases4)
  obtain found s3 plan3 where sc: "scan_pending 0 (pending s) s plan = (found, s3, plan3)" by (metis prod_cases3)
  have "decode_requests plan2 = decode_requests plan"
    using try_admit_fields(3) [OF t] try_admit_plan_cases(2) [OF t] schedule_prefill_chunk_set(2) by (cases ok1) auto
  moreover have "decode_requests plan3 = decode_requests plan"
    using scan_pending_chunk [OF sc] schedule_prefill_chunk_set(2) by (auto split: option.splits)
  ultimately have "decode_requests plan1 = decode_requests plan"
    using run by (auto simp: admit_once_def t sc Let_def split: if_splits bool.splits option.splits)
  then show ?case
    using "1.IH" [OF _ run [symmetric]] "1.prems" run
    by (cases ok) (auto simp: admit_from_pending.simps [of s] split: if_splits)
qed

lemma continue_prefill_wants:
  "plan_wants s plan \<Longrightarrow> set rs \<subseteq> set (active s) \<Longrightarrow> plan_wants s (foldl (continue_prefill cfg) plan rs)"
  by (induction rs arbitrary: plan) (simp_all add: continue_prefill_def plan_wants_chunk)

lemma decode_requests_distinct:
  "distinct (decode_requests plan @ request_ids rs) \<Longrightarrow> distinct (decode_requests (schedule_decode_tokens cfg rs plan))"
  by (induction cfg rs plan rule: schedule_decode_tokens.induct) auto

lemma schedule_next_plan:
  assumes inv: "sched_inv s" and run: "schedule_next s = (plan, s')"
  shows "plan_wants s' plan" and "distinct (decode_requests plan)"
    and "set (decode_requests plan) \<subseteq> set (request_ids (active s'))"
    and "length (prefill_requests plan) = length (prefill_tokens plan)"
proof -
  obtain s1 plan1 where adm: "admit_from_pending s empty_plan = (s1, plan1)" by fastforce
  let ?plan2 = "foldl (continue_prefill (sched_config s1)) plan1 (active s1)"
  have s1: "s' = s1" and plan: "plan = schedule_decode_tokens (sched_config s1) (active s1) ?plan2"
    using run adm by (auto simp: schedule_next_def)
  have "sched_inv s1" using queues.loop.admit_from_pending_P [OF inv, of empty_plan] adm by simp
  then have dist: "distinct (request_ids (active s1))" using sched_inv_parts(4) by fastforce
  have "plan_wants s1 plan1"
    using admit_from_pending_wants [OF adm inv] by (simp add: plan_wants_def empty_plan_def)
  then have want: "plan_wants s1 ?plan2" by (rule continue_prefill_wants) simp
  note dec = schedule_decode_tokens_set [of "sched_config s1" "active s1" ?plan2]
  have none: "decode_requests plan1 = []" using admit_from_pending_decode [OF adm] by (simp add: empty_plan_def)
  then have none: "decode_requests ?plan2 = []" using continue_prefill_set by metis
  show "plan_wants s' plan" using want dec unfolding s1 plan by (simp add: plan_wants_def)
  show "distinct (decode_requests plan)" unfolding plan by (rule decode_requests_distinct) (simp add: none dist)
  show "set (decode_requests plan) \<subseteq> set (request_ids (active s'))" using dec none s1 plan by simp
  have "plan_ok (sched_config s) plan1" "sched_config s1 = sched_config s"
    using admit_from_pending_plan [OF adm plan_ok_empty] by simp_all
  then have "plan_ok (sched_config s1) plan" unfolding plan by (intro schedule_decode_tokens_ok continue_prefill_ok) simp
  then show "length (prefill_requests plan) = length (prefill_tokens plan)" by (simp add: plan_ok_def)
qed

end
