(* ===== verification/SchedulerProgress.thy ===== *)
theory SchedulerProgress
  imports ServingSystem PlanEntries
begin

text \<open>
  Progress of the scheduler. Entries of a plan are only ever appended, so what the first admission attempt
  contributes stays at the front. An idle scheduler that holds no reservation starts the first waiting
  request whenever the request fits the pool at all, and a plan without tokens means that no active request
  can use one.
\<close>

section \<open>Plans grow at the end\<close>

definition extends :: "BatchPlan \<Rightarrow> BatchPlan \<Rightarrow> bool" where
  "extends plan plan' \<longleftrightarrow>
     (\<exists>ids chunks. prefill_requests plan' = prefill_requests plan @ ids \<and> prefill_tokens plan' = prefill_tokens plan @ chunks)"

lemma extends_refl [simp]: "extends plan plan"
  by (simp add: extends_def)

lemma extends_trans: "extends a b \<Longrightarrow> extends b c \<Longrightarrow> extends a c"
  by (auto simp: extends_def)

lemma extends_chunk: "extends plan (schedule_prefill_chunk cfg r plan)"
  by (simp add: extends_def schedule_prefill_chunk_def Let_def)

lemma extends_decode: "extends plan (schedule_decode_tokens cfg rs plan)"
  by (induction cfg rs plan rule: schedule_decode_tokens.induct) (auto simp: extends_def)

lemma extends_continue: "extends plan (foldl (continue_prefill cfg) plan rs)"
proof (induction rs arbitrary: plan)
  case (Cons r rs)
  have "extends plan (continue_prefill cfg plan r)" by (simp add: continue_prefill_def extends_chunk)
  then show ?case using Cons extends_trans by fastforce
qed simp

lemma extends_try_admit: "try_admit s r plan adm = (ok, s', r', plan') \<Longrightarrow> extends plan plan'"
  using try_admit_fields(3) try_admit_plan_cases(2) extends_chunk by (cases ok) fastforce+

lemma extends_admit_once:
  assumes "admit_once s plan = (ok, s', plan')"
  shows "extends plan plan'"
proof -
  obtain ok1 s1 r1 plan1 where t: "try_admit s (hd (pending s)) plan (length (prefill_requests plan)) = (ok1, s1, r1, plan1)"
    by (metis prod_cases4)
  obtain found s2 plan2 where sc: "scan_pending 0 (pending s) s plan = (found, s2, plan2)" by (metis prod_cases3)
  have "extends plan plan2" using scan_pending_chunk [OF sc] extends_chunk by (auto split: option.splits)
  then show ?thesis
    using assms extends_try_admit [OF t]
    by (auto simp: admit_once_def t sc Let_def split: if_splits bool.splits option.splits)
qed

lemma extends_admit_from_pending: "admit_from_pending s plan = (s', plan') \<Longrightarrow> extends plan plan'"
proof (induction s plan rule: admit_from_pending.induct)
  case (1 s plan)
  obtain ok s1 plan1 where run: "admit_once s plan = (ok, s1, plan1)" by (metis prod_cases3)
  note first = extends_admit_once [OF run]
  show ?case
    using "1.IH" [OF _ run [symmetric]] "1.prems" run first
    by (cases ok) (auto simp: admit_from_pending.simps [of s] dest: extends_trans split: if_splits)
qed

section \<open>A plan without tokens\<close>

text \<open>A request that can use a token in the next step.\<close>

definition can_run :: "Request \<Rightarrow> bool" where
  "can_run r \<longleftrightarrow> rq_state r = Decode \<or> rq_state r = Prefill \<and> remaining_prefill_tokens r > 0"

lemma plan_ok_idle:
  assumes "plan_ok cfg plan"
  shows "scheduled_tokens plan = 0 \<longleftrightarrow> prefill_requests plan = [] \<and> decode_requests plan = []"
proof
  assume "scheduled_tokens plan = 0"
  then have "sum_list (map unat (prefill_tokens plan)) = 0" "decode_requests plan = []"
    using assms by (simp_all add: plan_ok_def)
  moreover have "prefill_tokens plan = []" if zero: "sum_list (map unat (prefill_tokens plan)) = 0"
  proof (cases "prefill_tokens plan")
    case (Cons c cs)
    then have "unat c = 0" using zero by simp
    then have "c = 0" by (simp only: unat_eq_0_iff_word)
    then show ?thesis using Cons assms by (simp add: plan_ok_def)
  qed
  ultimately show "prefill_requests plan = [] \<and> decode_requests plan = []" using assms by (simp add: plan_ok_def)
next
  assume none: "prefill_requests plan = [] \<and> decode_requests plan = []"
  then have "unat (scheduled_tokens plan) = 0" using assms by (simp add: plan_ok_def)
  then show "scheduled_tokens plan = 0" by (simp only: unat_eq_0_iff_word)
qed

lemma chunk_nonempty:
  assumes "remaining_prefill_tokens r > 0" and "scheduled_tokens plan < max_batch_tokens cfg"
  shows "prefill_requests (schedule_prefill_chunk cfg r plan) = prefill_requests plan @ [request_id r]"
    and "prefill_tokens (schedule_prefill_chunk cfg r plan)
      = prefill_tokens plan @ [min (remaining_prefill_tokens r) (max_batch_tokens cfg - scheduled_tokens plan)]"
proof -
  have "max_batch_tokens cfg - scheduled_tokens plan \<noteq> 0" using assms(2) by auto
  then have "min (remaining_prefill_tokens r) (max_batch_tokens cfg - scheduled_tokens plan) \<noteq> 0"
    using assms(1) by (simp add: min_def word_gt_0)
  then show "prefill_requests (schedule_prefill_chunk cfg r plan) = prefill_requests plan @ [request_id r]"
    and "prefill_tokens (schedule_prefill_chunk cfg r plan)
      = prefill_tokens plan @ [min (remaining_prefill_tokens r) (max_batch_tokens cfg - scheduled_tokens plan)]"
    using assms by (simp_all add: schedule_prefill_chunk_def Let_def not_le word_gt_0)
qed

lemma extends_nil: "extends plan plan' \<Longrightarrow> prefill_requests plan' = [] \<Longrightarrow> prefill_requests plan = []"
  by (auto simp: extends_def)

lemma continue_prefill_idle:
  "plan_ok cfg plan \<Longrightarrow> decode_requests plan = [] \<Longrightarrow> 0 < max_batch_tokens cfg \<Longrightarrow>
   prefill_requests (foldl (continue_prefill cfg) plan rs) = [] \<Longrightarrow> r \<in> set rs \<Longrightarrow>
   \<not> (rq_state r = Prefill \<and> remaining_prefill_tokens r > 0)"
proof (induction rs arbitrary: plan)
  case (Cons q rs)
  let ?plan = "continue_prefill cfg plan q"
  have ok: "plan_ok cfg ?plan" using continue_prefill_ok [of cfg plan "[q]"] Cons.prems(1) by simp
  have dec: "decode_requests ?plan = []"
    using Cons.prems(2) schedule_prefill_chunk_set(2) by (simp add: continue_prefill_def)
  have none: "prefill_requests ?plan = []"
    using extends_nil [OF extends_continue [of ?plan cfg rs]] Cons.prems(4) by simp
  have "extends plan ?plan" by (simp add: continue_prefill_def extends_chunk)
  then have start: "prefill_requests plan = []" using none extends_nil by blast
  then have "scheduled_tokens plan = 0" using plan_ok_idle [OF Cons.prems(1)] Cons.prems(2) by simp
  then have "prefill_requests ?plan \<noteq> []" if "rq_state q = Prefill" "remaining_prefill_tokens q > 0"
    using chunk_nonempty(1) [of q plan cfg] Cons.prems(3) start that by (simp add: continue_prefill_def)
  then have head: "\<not> (rq_state q = Prefill \<and> remaining_prefill_tokens q > 0)" using none by blast
  show ?case
  proof (cases "r = q")
    case False
    then show ?thesis using Cons.IH [OF ok dec Cons.prems(3)] Cons.prems(4,5) by simp
  qed (simp add: head)
qed simp

lemma decode_idle:
  "scheduled_tokens plan = 0 \<Longrightarrow> decode_requests (schedule_decode_tokens cfg rs plan) = [] \<Longrightarrow> 0 < max_batch_tokens cfg \<Longrightarrow>
   r \<in> set rs \<Longrightarrow> rq_state r \<noteq> Decode"
proof (induction cfg rs plan rule: schedule_decode_tokens.induct)
  case (2 cfg q rs plan)
  have grows: "decode_requests (schedule_decode_tokens cfg rs plan') \<noteq> []" if "decode_requests plan' \<noteq> []" for plan'
    using that by (induction cfg rs plan' rule: schedule_decode_tokens.induct) auto
  show ?case
  proof (cases "rq_state q = Decode")
    case True
    then show ?thesis
      using "2.prems"(1-3) grows [of "plan\<lparr>decode_requests := decode_requests plan @ [request_id q],
          scheduled_tokens := scheduled_tokens plan + 1\<rparr>"] by (simp split: if_splits)
  next
    case False
    then show ?thesis using 2 by auto
  qed
qed simp

lemma schedule_next_no_idle:
  assumes run: "schedule_next s = (plan, s')" and batch: "0 < max_batch_tokens (sched_config s)"
    and none: "scheduled_tokens plan = 0" and r: "r \<in> set (active s')"
  shows "\<not> can_run r"
proof -
  obtain s1 plan1 where adm: "admit_from_pending s empty_plan = (s1, plan1)" by fastforce
  let ?plan2 = "foldl (continue_prefill (sched_config s1)) plan1 (active s1)"
  have s1: "s' = s1" and plan: "plan = schedule_decode_tokens (sched_config s1) (active s1) ?plan2"
    using run adm by (auto simp: schedule_next_def)
  have ok1: "plan_ok (sched_config s1) plan1" and cfg: "sched_config s1 = sched_config s"
    using admit_from_pending_plan [OF adm plan_ok_empty] by simp_all
  have ok2: "plan_ok (sched_config s1) ?plan2" using ok1 by (rule continue_prefill_ok)
  have "plan_ok (sched_config s1) plan" unfolding plan using ok2 by (rule schedule_decode_tokens_ok)
  then have empty: "prefill_requests plan = []" "decode_requests plan = []" using plan_ok_idle none by blast+
  have dec1: "decode_requests plan1 = []" using admit_from_pending_decode [OF adm] by (simp add: empty_plan_def)
  have empty2: "prefill_requests ?plan2 = []" using empty(1) plan schedule_decode_tokens_set by metis
  have dec2: "decode_requests ?plan2 = []" using dec1 continue_prefill_set by metis
  then have "scheduled_tokens ?plan2 = 0" using plan_ok_idle [OF ok2] empty2 by blast
  then have "rq_state r \<noteq> Decode" using decode_idle [OF _ _ _ r [unfolded s1]] empty(2) plan batch cfg by metis
  moreover have "\<not> (rq_state r = Prefill \<and> remaining_prefill_tokens r > 0)"
    using continue_prefill_idle [OF ok1 dec1 _ empty2] batch cfg r s1 by simp
  ultimately show ?thesis by (auto simp: can_run_def)
qed

section \<open>An idle scheduler starts the first request that fits\<close>

text \<open>A request whose prompt and decode budget can be counted in 32 bits and fit an empty pool.\<close>

definition fits_empty_pool :: "KVCacheManager \<Rightarrow> Request \<Rightarrow> bool" where
  "fits_empty_pool kv r \<longleftrightarrow>
     (let tpb = kv_tokens_per_block kv; n = prompt_tokens r + max_decode_tokens (sampling r) in
      tpb \<noteq> 0 \<and> unat (prompt_tokens r) + unat (max_decode_tokens (sampling r)) + unat tpb \<le> 4294967296
      \<and> blocks_for tpb n * unat (table_count kv) \<le> capacity (allocator kv))"

lemma blocks_for_tokens_kv:
  assumes "kv_tokens_per_block (cache_manager s) \<noteq> 0"
  shows "blocks_for_tokens s n = ((n + kv_tokens_per_block (cache_manager s) - 1) div kv_tokens_per_block (cache_manager s))
      * table_count (cache_manager s)"
  using assms by (auto simp: blocks_for_tokens_def kv_tokens_per_block_def table_count_def pool_shape_def Let_def
      split: option.splits)

lemma place_request_empty:
  assumes inv: "kv_inv kv" and none: "sequences kv = Map.empty" and fit: "tokens_fit kv (prompt_tokens r)"
    and tpb: "kv_tokens_per_block kv \<noteq> 0" and pos: "prompt_tokens r > 0"
    and room: "blocks_for (kv_tokens_per_block kv) (prompt_tokens r) * unat (table_count kv) \<le> capacity (allocator kv)"
  shows "fst (place_request kv r)"
proof -
  obtain c kv1 where create: "create_sequence kv (metadata_from r) = (c, kv1)" by fastforce
  note step = create_sequence_step [OF inv create]
  have c: c using step(2) none by simp
  have noprefix: "prefix_index kv = Map.empty" using no_sequences_no_prefixes [OF inv none] .
  have kv1: "prefix_index kv1 = Map.empty" "sequences kv1 (root_sequence_id r) \<noteq> None"
    using create c noprefix none
    by (auto simp: create_sequence_def Let_def index_sequence_def metadata_from_def split: if_splits)
  then obtain st where st: "sequences kv1 (root_sequence_id r) = Some st" by auto
  have cached: "prefix_token_count kv1 (rq_prefix_key r) = 0" using kv1(1) by (simp add: prefix_token_count_def)
  have lay: "kv_layout kv1 = kv_layout kv" using create by (metis kv_layout_create snd_conv)
  note shape = kv_layout_shape [OF lay]
  have tok: "tables_ok kv1 (tables st)" using kv_inv_tables [OF step(1) st] .
  have len: "length (tables st) = unat (table_count kv)" using tok shape(1) by (simp add: tables_ok_def)
  have empty: "length (entries (hd (tables st))) = 0"
  proof -
    have "st = \<lparr>metadata = metadata_from r, tables = replicate (unat (table_count kv)) (BlockTable_new (root_sequence_id r) TextKV),
        prefix_key = [], prefix_hash = 0\<rparr>"
      using create c st none by (auto simp: create_sequence_def Let_def index_sequence_def metadata_from_def)
    then show ?thesis using table_count_pos [of kv] by (cases "unat (table_count kv)") (simp_all add: BlockTable_new_def)
  qed
  let ?b = "blocks_for (kv_tokens_per_block kv) (prompt_tokens r)"
  have lim: "unat (prompt_tokens r) + unat (kv_tokens_per_block kv) \<le> 4294967296" "?b * unat (table_count kv) < 2147483648"
    using fit tpb by (simp_all add: tokens_fit_def)
  have "?b * 1 \<le> ?b * unat (table_count kv)" using table_count_pos [of kv] by (intro mult_le_mono2) simp
  then have small: "?b < 2147483648" using lim(2) by linarith
  obtain ok kv2 where reserve: "reserve_tokens kv1 (root_sequence_id r) (prompt_tokens r) = (ok, kv2)" by fastforce
  have "length (free_list (allocator kv1)) = capacity (allocator kv)"
    using no_sequences_all_free(1) [OF inv none] step(6) by simp
  then have ok
    using reserve_tokens_step [OF step(1) st _ _ _ _ reserve] shape tpb lim len small empty room by simp
  then show ?thesis
    using c create reserve cached pos by (simp add: place_request_def Let_def)
qed

lemma reclaim_idle: "active s = [] \<Longrightarrow> reclaim_for_admission s p d adm = s"
  by (simp add: reclaim_for_admission_def reclaim_loop.simps Let_def)

lemma idle_lifetime_blocks:
  assumes inv: "kv_inv (cache_manager s)" and none: "sequences (cache_manager s) = Map.empty"
    and fits: "fits_empty_pool (cache_manager s) r"
  shows "unat (lifetime_blocks_for s r) \<le> capacity (allocator (cache_manager s))"
proof -
  let ?kv = "cache_manager s" and ?n = "prompt_tokens r + max_decode_tokens (sampling r)"
  let ?tpb = "kv_tokens_per_block ?kv"
  have fit: "?tpb \<noteq> 0" "unat (prompt_tokens r) + unat (max_decode_tokens (sampling r)) + unat ?tpb \<le> 4294967296"
    "blocks_for ?tpb ?n * unat (table_count ?kv) \<le> capacity (allocator ?kv)"
    using fits by (simp_all add: fits_empty_pool_def Let_def)
  have "0 < unat ?tpb" using fit(1) by (simp add: unat_gt_0)
  then have "unat ?n = unat (prompt_tokens r) + unat (max_decode_tokens (sampling r))"
    using fit(2) by (simp add: unat_word_ariths)
  then have "unat ((?n + ?tpb - 1) div ?tpb) = blocks_for ?tpb ?n" using blocks_for_word [OF fit(1)] fit(2) by simp
  moreover have "capacity (allocator ?kv) < 4294967296"
    using owns_inv [OF kv_inv_owns [OF inv]] ids_inv_length by (simp add: alloc_inv_def capacity_def)
  ultimately have count: "unat (blocks_for_tokens s ?n) \<le> capacity (allocator ?kv)"
    using fit(3) by (simp add: blocks_for_tokens_kv [OF fit(1)] unat_word_ariths)
  have "cached_tokens s r = 0"
    using no_sequences_no_prefixes [OF inv none] by (simp add: cached_tokens_def prefix_token_count_def)
  then show ?thesis
    using count by (cases "prompt_tokens r = 0") (simp_all add: lifetime_blocks_for_def Let_def word_gt_0)
qed

lemma idle_try_admit:
  assumes sound: "cache_sound s" and idle: "active s = []" "preempted s = []" and held: "lifetime_held s = 0"
    and batch: "0 < max_batch_tokens (sched_config s)" and r: "r \<in> set (pending s)" "prompt_tokens r > 0"
    and fits: "fits_empty_pool (cache_manager s) r"
  obtains s' where "try_admit s r empty_plan 0 = (True, s', granted r (lifetime_blocks_for s r),
      schedule_prefill_chunk (sched_config s) (granted r (lifetime_blocks_for s r)) empty_plan)"
proof -
  let ?kv = "cache_manager s" and ?need = "lifetime_blocks_for s r" and ?tpb = "kv_tokens_per_block (cache_manager s)"
  note parts = cache_sound_parts [OF sound]
  have none: "sequences ?kv = Map.empty" using idle_all_free(1) [OF sound idle] .
  have fit: "tokens_fit ?kv (prompt_tokens r)" using parts(3) r(1) by (simp add: list_all_iff)
  have tpb: "?tpb \<noteq> 0" using fits by (simp add: fits_empty_pool_def Let_def)
  have "unat ?need \<le> unat (total_blocks (pool_stats s))"
    using idle_lifetime_blocks [OF parts(1) none fits] stats_total [OF owns_inv [OF kv_inv_owns [OF parts(1)]]]
    by (simp add: pool_stats_def)
  then have need: "?need \<le> total_blocks (pool_stats s)" by (simp add: word_le_nat_alt)
  have "unat (prompt_tokens r) \<le> unat (prompt_tokens r + max_decode_tokens (sampling r))"
  proof -
    have "unat (prompt_tokens r) + unat (max_decode_tokens (sampling r)) < 4294967296"
      using fits unat_gt_0 [of ?tpb] by (simp add: fits_empty_pool_def Let_def)
    then show ?thesis by (simp add: unat_word_ariths)
  qed
  then have "blocks_for ?tpb (prompt_tokens r) \<le> blocks_for ?tpb (prompt_tokens r + max_decode_tokens (sampling r))"
    unfolding blocks_for_def by (intro div_le_mono) simp
  then have "blocks_for ?tpb (prompt_tokens r) * unat (table_count ?kv)
      \<le> blocks_for ?tpb (prompt_tokens r + max_decode_tokens (sampling r)) * unat (table_count ?kv)"
    by (rule mult_le_mono1)
  also have "\<dots> \<le> capacity (allocator ?kv)" using fits by (simp add: fits_empty_pool_def Let_def)
  finally have room: "blocks_for ?tpb (prompt_tokens r) * unat (table_count ?kv) \<le> capacity (allocator ?kv)" .
  obtain kv where place: "place_request ?kv r = (True, kv)"
    using place_request_empty [OF parts(1) none fit tpb r(2) room] by (metis prod.collapse)
  have "try_admit s r empty_plan 0 = (True, s\<lparr>cache_manager := kv, lifetime_held := lifetime_held s + ?need\<rparr>,
      granted r ?need, schedule_prefill_chunk (sched_config s) (granted r ?need) empty_plan)"
    unfolding try_admit_place reclaim_idle [OF idle(1)] place using need held batch
    by (simp add: empty_plan_def not_less not_le)
  then show thesis by (rule that)
qed

lemma idle_starts_head:
  assumes sound: "cache_sound s" and inv: "sched_inv s" and idle: "active s = []" "preempted s = []"
    and held: "lifetime_held s = 0" and batch: "0 < max_batch_tokens (sched_config s)"
    and slots: "0 < max_active_requests (sched_config s)" and ne: "pending s \<noteq> []"
    and pos: "prompt_tokens (hd (pending s)) > 0" and fits: "fits_empty_pool (cache_manager s) (hd (pending s))"
    and run: "schedule_next s = (plan, s')"
  obtains ids chunks where "prefill_requests plan = request_id (hd (pending s)) # ids"
    and "prefill_tokens plan = min (prompt_tokens (hd (pending s))) (max_batch_tokens (sched_config s)) # chunks"
proof -
  let ?r = "hd (pending s)" and ?cfg = "sched_config s"
  let ?g = "granted ?r (lifetime_blocks_for s ?r)"
  obtain s1 where try1: "try_admit s ?r empty_plan 0 = (True, s1, ?g, schedule_prefill_chunk ?cfg ?g empty_plan)"
    using idle_try_admit [OF sound idle held batch hd_in_set [OF ne] pos fits] .
  have "pending_ok ?r" using sched_inv_parts(1) [OF inv] ne by (cases "pending s") simp_all
  then have rem: "remaining_prefill_tokens ?g = prompt_tokens ?r" by (simp add: pending_ok_def granted_def)
  let ?plan1 = "schedule_prefill_chunk ?cfg ?g empty_plan"
  have plan1: "prefill_requests ?plan1 = [request_id ?r]" "prefill_tokens ?plan1 = [min (prompt_tokens ?r) (max_batch_tokens ?cfg)]"
    using chunk_nonempty [of ?g empty_plan ?cfg] rem pos batch by (simp_all add: empty_plan_def granted_def)
  have none: "prefill_requests empty_plan = []" by (simp add: empty_plan_def)
  have "scan_pending 0 (pending s) s empty_plan = (Some (0, ?g), s1, ?plan1)"
    using try1 ne by (cases "pending s") (simp_all add: none)
  then have "\<exists>s2. admit_once s empty_plan = (True, s2, ?plan1)"
    using try1 unfolding admit_once_def none Let_def by auto
  then obtain s2 where once: "admit_once s empty_plan = (True, s2, ?plan1)" by blast
  have "0 < unat (max_active_requests ?cfg)" using slots by (simp add: word_less_nat_alt)
  then have step: "admit_from_pending s empty_plan = admit_from_pending s2 ?plan1"
    using once ne idle(1) by (simp add: admit_from_pending.simps [of s])
  obtain s3 plan3 where adm: "admit_from_pending s2 ?plan1 = (s3, plan3)" by fastforce
  have "plan = schedule_decode_tokens (sched_config s3) (active s3) (foldl (continue_prefill (sched_config s3)) plan3 (active s3))"
    using run step adm by (auto simp: schedule_next_def)
  then have "extends ?plan1 plan"
    using extends_admit_from_pending [OF adm] extends_continue extends_decode extends_trans by metis
  then show thesis using that plan1 by (auto simp: extends_def)
qed

end
