(* ===== verification/CacheView.thy ===== *)
theory CacheView
  imports KVTransparency
begin

text \<open>
  The read-only view of a sequence's cache: \<^verbatim>\<open>CacheView\<close> of
  \<^verbatim>\<open>include/qwenvl_paged/KVCacheManager.h\<close> with its methods in \<^verbatim>\<open>src/KVCacheManager.cpp\<close>, and
  \<^verbatim>\<open>KVCacheManager::cache_view\<close>. The view's pointers are optional copies of what they point to (the
  view is used while nothing mutates the cache); an address is a byte offset into the pool.

  The lemmas show that a vector read through the view is the vector of the sequence's content, and
  lies inside the frame that \<^verbatim>\<open>ensure_token_writable\<close> hands out for the same token.
\<close>

section \<open>Definitions\<close>

record CacheView =
  view_sequence_id :: SequenceId
  view_cache_kind :: CacheKind
  view_block_table :: "BlockTable option"
  view_layer_tables :: "BlockTable list option"
  view_allocator :: "MemoryAllocator option"
  view_layout :: KVBlockLayout

definition view_valid :: "CacheView \<Rightarrow> bool" where
  "view_valid v \<longleftrightarrow>
     view_block_table v \<noteq> None \<and> view_allocator v \<noteq> None \<and> element_count (view_layout v) > 0"

text \<open>The table a layer reads: \<open>None\<close> is the early return of \<^verbatim>\<open>block_bytes\<close>.\<close>

definition view_table :: "CacheView \<Rightarrow> u32 \<Rightarrow> BlockTable option" where
  "view_table v layer =
     (case view_layer_tables v of
        Some ts \<Rightarrow>
          if unat layer < length ts then Some (ts ! unat layer)
          else if layer \<noteq> 0 then None else view_block_table v
      | None \<Rightarrow> if layer \<noteq> 0 then None else view_block_table v)"

definition block_bytes :: "CacheView \<Rightarrow> LogicalBlockIndex \<Rightarrow> u32 \<Rightarrow> u64 option" where
  "block_bytes v idx layer =
     (if \<not> view_valid v then None
      else case view_table v layer of
        None \<Rightarrow> None
      | Some t \<Rightarrow>
          (case bt_lookup t idx of
             None \<Rightarrow> None
           | Some p \<Rightarrow>
               (case al_block (the (view_allocator v)) p of None \<Rightarrow> None | Some b \<Rightarrow> pb_storage b)))"

definition block_bytes_shared :: "CacheView \<Rightarrow> LogicalBlockIndex \<Rightarrow> u64 option" where
  "block_bytes_shared v idx = block_bytes v idx 0"

text \<open>\<^verbatim>\<open>slot<T>\<close> for an element type of \<open>elem_size\<close> bytes.\<close>

definition view_slot ::
    "CacheView \<Rightarrow> u64 \<Rightarrow> KVStream \<Rightarrow> u32 \<Rightarrow> TokenPosition \<Rightarrow> u32 \<Rightarrow> u64 option" where
  "view_slot v elem_size stream layer token kv_head =
     (let shape = kvl_shape (view_layout v) in
      if \<not> view_valid v \<or> elem_size \<noteq> ucast (bytes_per_element shape) then None
      else
        let tpb = tokens_per_block shape; per_layer = per_layer_frames shape in
        if per_layer \<and> (case view_layer_tables v of None \<Rightarrow> True | Some ts \<Rightarrow> unat layer \<ge> length ts) then None
        else
          case element_offset (view_layout v) (if per_layer then 0 else layer) stream (token mod tpb) kv_head of
            None \<Rightarrow> None
          | Some off \<Rightarrow>
              (let idx = token div tpb in
               case (if per_layer then block_bytes v idx layer else block_bytes_shared v idx) of
                 None \<Rightarrow> None
               | Some bytes \<Rightarrow> Some (bytes + off * elem_size)))"

definition cache_view :: "KVCacheManager \<Rightarrow> SequenceId \<Rightarrow> CacheKind \<Rightarrow> CacheView option" where
  "cache_view kv sid kind =
     (case sequences kv sid of
        None \<Rightarrow> None
      | Some st \<Rightarrow>
          Some \<lparr>view_sequence_id = sid, view_cache_kind = kind,
                view_block_table = Some (text_table st), view_layer_tables = Some (tables st),
                view_allocator = Some (allocator kv),
                view_layout = \<lparr>kvl_shape = (case al_block (allocator kv) 0 of
                   None \<Rightarrow> default_BlockShape | Some b \<Rightarrow> pb_shape b)\<rparr>\<rparr>)"

section \<open>Tables, frames and content\<close>

text \<open>The table that layer \<open>layer\<close> of a model reads: one per layer, or the shared one.\<close>

definition table_of_layer :: "CacheView \<Rightarrow> u32 \<Rightarrow> u32" where
  "table_of_layer v layer = (if per_layer_frames (kvl_shape (view_layout v)) then layer else 0)"

definition offset_layer :: "CacheView \<Rightarrow> u32 \<Rightarrow> u32" where
  "offset_layer v layer = (if per_layer_frames (kvl_shape (view_layout v)) then 0 else layer)"

lemma cache_view_Some:
  assumes "cache_view kv sid kind = Some v"
  obtains st where "sequences kv sid = Some st" and "view_block_table v = Some (text_table st)"
    and "view_layer_tables v = Some (tables st)" and "view_allocator v = Some (allocator kv)"
    and "kvl_shape (view_layout v) = pool_shape kv" and "view_sequence_id v = sid"
  using assms by (auto simp: cache_view_def pool_shape_def split: option.splits)

lemma pool_shape_tpb:
  "element_count \<lparr>kvl_shape = pool_shape kv\<rparr> > 0 \<Longrightarrow>
   tokens_per_block (pool_shape kv) = kv_tokens_per_block kv \<and> kv_tokens_per_block kv \<noteq> 0"
  by (auto simp: pool_shape_def kv_tokens_per_block_def element_count_def layer_stride_def
      stream_stride_def default_BlockShape_def frame_layers_def split: option.splits)

text \<open>The frame behind block \<open>idx\<close> of a table of the sequence.\<close>

lemma block_bytes_entry:
  assumes inv: "kv_inv kv" and v: "cache_view kv sid kind = Some v" and valid: "view_valid v"
    and st: "sequences kv sid = Some st" and layer: "unat layer < length (tables st)"
  shows "block_bytes v idx layer =
    (if unat idx < length (entries (tables st ! unat layer))
        \<and> swap_slot (entries (tables st ! unat layer) ! unat idx) = None
     then Some (of_nat (unat (physical_id (entries (tables st ! unat layer) ! unat idx))
            * unat (block_stride_bytes (allocator kv))))
     else None)"
proof -
  let ?t = "tables st ! unat layer" and ?al = "allocator kv"
  have tab: "view_table v layer = Some ?t" "view_allocator v = Some ?al"
    using v st layer by (auto simp: cache_view_def view_table_def)
  have cont: "bt_contiguous ?t"
    using tables_ok_contiguous [OF kv_inv_tables [OF inv st]] layer by (simp add: list_all_length)
  have look: "bt_lookup ?t idx = (if unat idx < length (entries ?t) \<and> swap_slot (entries ?t ! unat idx) = None
      then Some (physical_id (entries ?t ! unat idx)) else None)"
    using bt_search(4) [OF bt_contiguous_sorted [OF cont]] bt_contiguous_abs [OF cont] by simp
  show ?thesis
  proof (cases "unat idx < length (entries ?t) \<and> swap_slot (entries ?t ! unat idx) = None")
    case False
    then show ?thesis using tab look valid by (auto simp: block_bytes_def)
  next
    case True
    let ?p = "physical_id (entries ?t ! unat idx)"
    have "?p \<in># tables_refs (tables st)" using block_ref_mem [OF layer] True by blast
    then have own: "unat ?p < capacity ?al" using owns_valid [OF kv_owns_split [OF inv st]] by simp
    have mem: "memory_inv ?al" "capacity ?al = unat (max_blocks (config ?al))"
      using kv_inv_parts(5) [OF inv] by (simp_all add: alloc_inv_def capacity_def ids_inv_def)
    obtain b off where b: "al_block ?al ?p = Some b" "pb_storage b = Some off"
        "unat off = unat ?p * unat (block_stride_bytes ?al)"
      using memory_block [OF mem(1)] own mem(2) by metis
    have "off = of_nat (unat ?p * unat (block_stride_bytes ?al))" unfolding b(3) [symmetric] by simp
    then show ?thesis using tab look valid True b by (simp add: block_bytes_def)
  qed
qed

text \<open>A read through the view succeeds exactly when the coordinates are in range and the token's
  block is mapped and resident.\<close>

lemma view_slot_eq:
  assumes inv: "kv_inv kv" and v: "cache_view kv sid kind = Some v" and valid: "view_valid v"
    and size: "elem_size = ucast (bytes_per_element (pool_shape kv))"
  shows "view_slot v elem_size stream layer token h =
    (case write_target kv sid token (table_of_layer v layer) of
       None \<Rightarrow> None
     | Some e \<Rightarrow>
         if swap_slot e \<noteq> None then None
         else map_option (\<lambda>off. of_nat (unat (physical_id e) * unat (block_stride_bytes (allocator kv))) + off * elem_size)
                (element_offset (view_layout v) (offset_layer v layer) stream (token mod kv_tokens_per_block kv) h))"
proof -
  obtain st where st: "sequences kv sid = Some st" and tabs: "view_layer_tables v = Some (tables st)"
    and shape: "kvl_shape (view_layout v) = pool_shape kv" using cache_view_Some [OF v] by metis
  let ?tl = "table_of_layer v layer" and ?idx = "token div kv_tokens_per_block kv"
  have lay: "view_layout v = \<lparr>kvl_shape = pool_shape kv\<rparr>" using shape by simp
  have tpb: "tokens_per_block (pool_shape kv) = kv_tokens_per_block kv" "kv_tokens_per_block kv \<noteq> 0"
    using pool_shape_tpb [of kv] valid lay by (simp_all add: view_valid_def)
  have ne: "0 < length (tables st)" using tables_ok_nonempty [OF kv_inv_tables [OF inv st]] by simp
  have bytes: "(if per_layer_frames (pool_shape kv) then block_bytes v ?idx layer else block_bytes_shared v ?idx)
      = block_bytes v ?idx ?tl" by (simp add: table_of_layer_def shape block_bytes_shared_def)
  have slot: "view_slot v elem_size stream layer token h =
      (if \<not> unat ?tl < length (tables st) then None
       else case element_offset (view_layout v) (offset_layer v layer) stream (token mod kv_tokens_per_block kv) h of
         None \<Rightarrow> None | Some off \<Rightarrow> map_option (\<lambda>b. b + off * elem_size) (block_bytes v ?idx ?tl))"
    unfolding view_slot_def Let_def shape tpb(1) bytes
    using valid size tabs ne
    by (auto simp: offset_layer_def table_of_layer_def shape split: option.split)
  show ?thesis
  proof (cases "unat ?tl < length (tables st)")
    case False
    then show ?thesis using slot st by (simp add: write_target_def)
  next
    case True
    then show ?thesis
      using slot block_bytes_entry [OF inv v valid st True, of ?idx] st tpb(2)
      by (auto simp: write_target_def split: option.split)
  qed
qed

text \<open>Where a read lands: inside the pool, on the bytes of the sequence's content.\<close>

lemma segment_segment: "o' + n \<le> m \<Longrightarrow> segment o' n (segment off m xs) = segment (off + o') n xs"
  by (simp add: segment_def drop_take min_absorb1 add.commute)

lemma view_slot_content:
  assumes inv: "kv_inv kv" and v: "cache_view kv sid kind = Some v" and valid: "view_valid v"
    and size: "elem_size = ucast (bytes_per_element (pool_shape kv))"
    and fits: "layout_fits (view_layout v)"
      "layout_elements (view_layout v) * unat elem_size \<le> unat (block_stride_bytes (allocator kv))"
    and e: "write_target kv sid token (table_of_layer v layer) = Some e" "swap_slot e = None"
    and off: "element_offset (view_layout v) (offset_layer v layer) stream (token mod kv_tokens_per_block kv) h = Some off"
    and addr: "view_slot v elem_size stream layer token h = Some a"
  defines "n \<equiv> unat (head_dim (pool_shape kv)) * unat elem_size"
  shows "unat a + n \<le> length (pool (allocator kv))"
    and "segment (unat a) n (pool (allocator kv))
      = segment (unat off * unat elem_size) n (frame_of (allocator kv) (physical_id e))"
proof -
  let ?al = "allocator kv" and ?p = "physical_id e"
  let ?s = "unat (block_stride_bytes (allocator kv))" and ?o = "unat off * unat elem_size"
  have shape: "kvl_shape (view_layout v) = pool_shape kv" using cache_view_Some [OF v] by metis
  obtain st where st: "sequences kv sid = Some st" using cache_view_Some [OF v] by metis
  have "?p \<in># tables_refs (tables st)"
    using e st block_ref_mem [of "unat (table_of_layer v layer)" "tables st" "unat (token div kv_tokens_per_block kv)"]
    by (auto simp: write_target_def split: if_splits)
  then have own: "unat ?p < capacity ?al" using owns_valid [OF kv_owns_split [OF inv st]] by simp
  have mem: "memory_inv ?al" "capacity ?al = unat (max_blocks (config ?al))"
    using kv_inv_parts(5) [OF inv] by (simp_all add: alloc_inv_def capacity_def ids_inv_def)
  have len: "length (pool ?al) = unat (max_blocks (config ?al)) * ?s" "length (pool ?al) < 18446744073709551616"
    using mem(1) by (simp_all add: memory_inv_def Let_def)
  have frame: "unat ?p * ?s + ?s \<le> length (pool ?al)" using frame_fits own mem(2) len(1) by simp
  have "unat off + unat (head_dim (pool_shape kv)) \<le> layout_elements (view_layout v)"
    using element_offset_row [OF fits(1) off] by (simp add: shape)
  then have "(unat off + unat (head_dim (pool_shape kv))) * unat elem_size \<le> ?s"
    using fits(2) mult_le_mono1 order_trans by blast
  then have inside: "?o + n \<le> ?s" by (simp add: n_def add_mult_distrib)
  have "a = of_nat (unat ?p * ?s) + off * elem_size"
    using addr view_slot_eq [OF inv v valid size, of stream layer token h] e off by simp
  then have "a = of_nat (unat ?p * ?s + ?o)" by simp
  moreover have "unat ?p * ?s + ?o < 18446744073709551616" using inside frame len(2) by linarith
  ultimately have a: "unat a = unat ?p * ?s + ?o" by (metis unat_of_nat_u64)
  show "unat a + n \<le> length (pool ?al)" using a inside frame by linarith
  show "segment (unat a) n (pool ?al) = segment ?o n (frame_of ?al ?p)"
    unfolding a frame_of_def frame_at_def by (rule segment_segment [OF inside, symmetric])
qed

text \<open>The block of a token in the content of its sequence.\<close>

lemma write_target_content:
  assumes "write_target kv sid token t = Some e" and "swap_slot e = None"
  shows "\<exists>content. kv_view kv sid = Some content
    \<and> content ! unat t ! unat (token div kv_tokens_per_block kv) = Some (frame_of (allocator kv) (physical_id e))"
  using assms
  by (auto simp: write_target_def kv_view_def tables_view_def table_view_def entry_content_def
      split: option.splits if_splits)

end
