(* ===== verification/PagedAttention.thy ===== *)
theory PagedAttention
  imports CacheView
begin

text \<open>
  The CPU attention kernels of \<^verbatim>\<open>include/qwenvl_paged/PagedAttention.h\<close>: the reference
  \<^verbatim>\<open>paged_attention_decode\<close>, the block-at-a-time \<^verbatim>\<open>paged_attention_decode_blocked\<close>, and
  \<^verbatim>\<open>paged_attention_decode_opt\<close> with its fused and online variants, in the portable build (without
  \<^verbatim>\<open>__AVX512F__\<close>, where \<^verbatim>\<open>kAvx\<close> selects nothing).

  The template parameter and the \<^verbatim>\<open>float\<close> operations are the fields of a record \<open>arith\<close>, so a lemma
  about the kernels holds for IEEE arithmetic as for any other; nothing is assumed about them where
  two kernels perform the same operations in the same order. A null \<^verbatim>\<open>query\<close> or \<^verbatim>\<open>out\<close> is \<open>None\<close>; a
  kernel returns its flag and the output array, so that an early \<^verbatim>\<open>return false\<close> shows what had been
  written by then. Arrays indexed by the query group \<open>g\<close> (\<^verbatim>\<open>max_score\<close>, \<^verbatim>\<open>denom\<close>, the rows of
  \<^verbatim>\<open>accumulator\<close> and \<^verbatim>\<open>scores\<close>) are one list of per-group records.
\<close>

section \<open>Arithmetic and memory\<close>

record ('e, 'f) arith =
  elem_size :: u64
  elem_of_bytes :: "u8 list \<Rightarrow> 'e"
  to_float :: "'e \<Rightarrow> 'f"
  from_float :: "'f \<Rightarrow> 'e"
  fl_zero :: 'f
  fl_one :: 'f
  fl_neg_inf :: 'f
  fl_add :: "'f \<Rightarrow> 'f \<Rightarrow> 'f"
  fl_sub :: "'f \<Rightarrow> 'f \<Rightarrow> 'f"
  fl_mul :: "'f \<Rightarrow> 'f \<Rightarrow> 'f"
  fl_div :: "'f \<Rightarrow> 'f \<Rightarrow> 'f"
  fl_exp :: "'f \<Rightarrow> 'f"
  fl_less :: "'f \<Rightarrow> 'f \<Rightarrow> bool"
  fl_eq :: "'f \<Rightarrow> 'f \<Rightarrow> bool"

text \<open>\<^verbatim>\<open>std::max\<close> returns its first argument unless that is less than the second.\<close>

definition fl_max :: "('e, 'f) arith \<Rightarrow> 'f \<Rightarrow> 'f \<Rightarrow> 'f" where
  "fl_max A a b = (if fl_less A a b then b else a)"

record 'f PagedAttentionParams =
  pa_layer :: u32
  pa_num_query_heads :: u32
  pa_context_len :: u32
  pa_scale :: 'f

text \<open>\<^verbatim>\<open>ptr[d]\<close> for a pointer into the pool.\<close>

definition elem_at :: "('e, 'f) arith \<Rightarrow> u8 list \<Rightarrow> u64 \<Rightarrow> nat \<Rightarrow> 'e" where
  "elem_at A mem ptr d =
     elem_of_bytes A (segment (unat ptr + d * unat (elem_size A)) (unat (elem_size A)) mem)"

definition load_as_float :: "('e, 'f) arith \<Rightarrow> u8 list \<Rightarrow> u64 \<Rightarrow> nat \<Rightarrow> 'f" where
  "load_as_float A mem ptr d = to_float A (elem_at A mem ptr d)"

section \<open>Inner loops\<close>

text \<open>The dot product of the query head at \<open>qbase\<close> with a key.\<close>

definition dot_head :: "('e, 'f) arith \<Rightarrow> u8 list \<Rightarrow> 'e list \<Rightarrow> nat \<Rightarrow> u64 \<Rightarrow> nat \<Rightarrow> 'f" where
  "dot_head A mem query qbase key n =
     foldl (\<lambda>dot d. fl_add A dot (fl_mul A (to_float A (query ! (qbase + d))) (load_as_float A mem key d)))
       (fl_zero A) [0..<n]"

definition axpy_head :: "('e, 'f) arith \<Rightarrow> u8 list \<Rightarrow> 'f list \<Rightarrow> u64 \<Rightarrow> 'f \<Rightarrow> nat \<Rightarrow> 'f list" where
  "axpy_head A mem acc ptr weight n =
     foldl (\<lambda>acc d. acc[d := fl_add A (acc ! d) (fl_mul A weight (load_as_float A mem ptr d))]) acc [0..<n]"

definition scale_head :: "('e, 'f) arith \<Rightarrow> 'f list \<Rightarrow> 'f \<Rightarrow> nat \<Rightarrow> 'f list" where
  "scale_head A acc factor n = foldl (\<lambda>acc d. acc[d := fl_mul A (acc ! d) factor]) acc [0..<n]"

text \<open>One key: its score goes into the score array and the running maximum.\<close>

definition score_step ::
    "('e, 'f) arith \<Rightarrow> u8 list \<Rightarrow> 'e list \<Rightarrow> nat \<Rightarrow> 'f \<Rightarrow> nat \<Rightarrow> 'f list \<times> 'f \<Rightarrow> nat \<Rightarrow> u64 \<Rightarrow> 'f list \<times> 'f" where
  "score_step A mem query qbase scale n st token key =
     (let (scores, max_score) = st; s = fl_mul A (dot_head A mem query qbase key n) scale
      in (scores[token := s], fl_max A max_score s))"

text \<open>One value: its weight goes into the denominator and the accumulator.\<close>

definition value_step ::
    "('e, 'f) arith \<Rightarrow> u8 list \<Rightarrow> nat \<Rightarrow> 'f list \<Rightarrow> 'f \<Rightarrow> 'f \<times> 'f list \<Rightarrow> nat \<Rightarrow> u64 \<Rightarrow> 'f \<times> 'f list" where
  "value_step A mem n scores max_score st token ptr =
     (let (denominator, acc) = st; weight = fl_exp A (fl_sub A (scores ! token) max_score)
      in (fl_add A denominator weight, axpy_head A mem acc ptr weight n))"

definition write_head :: "('e, 'f) arith \<Rightarrow> 'e list \<Rightarrow> nat \<Rightarrow> 'f list \<Rightarrow> 'f \<Rightarrow> nat \<Rightarrow> 'e list" where
  "write_head A out base acc denominator n =
     foldl (\<lambda>out d. out[base + d := from_float A (fl_div A (acc ! d) denominator)]) out [0..<n]"

section \<open>The kernels\<close>

text \<open>The two guards every kernel starts with.\<close>

definition args_ok ::
    "('e, 'f) arith \<Rightarrow> CacheView \<Rightarrow> 'e list option \<Rightarrow> 'f PagedAttentionParams \<Rightarrow> 'e list option \<Rightarrow> bool" where
  "args_ok A v query params out \<longleftrightarrow>
     \<not> (\<not> view_valid v \<or> query = None \<or> out = None)
     \<and> (let shape = kvl_shape (view_layout v) in
        \<not> (elem_size A \<noteq> ucast (bytes_per_element shape) \<or> pa_context_len params = 0
           \<or> pa_layer params \<ge> num_layers shape \<or> pa_num_query_heads params = 0
           \<or> pa_num_query_heads params mod num_kv_heads shape \<noteq> 0))"

subsection \<open>Reference\<close>

text \<open>The addresses of one stream for all heads and tokens, head by head; \<open>None\<close> when a lookup fails.\<close>

definition resolve_stream ::
    "('e, 'f) arith \<Rightarrow> CacheView \<Rightarrow> 'f PagedAttentionParams \<Rightarrow> KVStream \<Rightarrow> u64 list option" where
  "resolve_stream A v params stream =
     (let ptrs = concat (map (\<lambda>kv_head. map (\<lambda>token.
            view_slot v (elem_size A) stream (pa_layer params) (of_nat token) (of_nat kv_head))
            [0..<unat (pa_context_len params)]) [0..<unat (num_kv_heads (kvl_shape (view_layout v)))])
      in if None \<in> set ptrs then None else Some (map the ptrs))"

definition decode_head ::
    "('e, 'f) arith \<Rightarrow> u8 list \<Rightarrow> 'e list \<Rightarrow> 'f PagedAttentionParams \<Rightarrow> nat \<Rightarrow> nat
       \<Rightarrow> u64 list \<Rightarrow> u64 list \<Rightarrow> 'e list \<Rightarrow> nat \<Rightarrow> 'e list" where
  "decode_head A mem query params n group_size keys vals out q_head =
     (let ctx = unat (pa_context_len params); base = q_head div group_size * ctx;
          (scores, max_score) =
            foldl (\<lambda>st token. score_step A mem query (q_head * n) (pa_scale params) n st token (keys ! (base + token)))
              (replicate ctx (fl_zero A), fl_neg_inf A) [0..<ctx];
          (denominator, acc) =
            foldl (\<lambda>st token. value_step A mem n scores max_score st token (vals ! (base + token)))
              (fl_zero A, replicate n (fl_zero A)) [0..<ctx]
      in write_head A out (q_head * n) acc denominator n)"

definition paged_attention_decode ::
    "('e, 'f) arith \<Rightarrow> CacheView \<Rightarrow> 'e list option \<Rightarrow> 'f PagedAttentionParams \<Rightarrow> 'e list option
       \<Rightarrow> bool \<times> 'e list option" where
  "paged_attention_decode A v query params out =
     (if \<not> args_ok A v query params out then (False, out)
      else
        let shape = kvl_shape (view_layout v); n = unat (head_dim shape);
            group_size = unat (pa_num_query_heads params div num_kv_heads shape);
            mem = pool (the (view_allocator v))
        in case (resolve_stream A v params Key, resolve_stream A v params Value) of
             (Some keys, Some vals) \<Rightarrow>
               (True, Some (foldl (decode_head A mem (the query) params n group_size keys vals) (the out)
                              [0..<unat (pa_num_query_heads params)]))
           | _ \<Rightarrow> (False, out))"

subsection \<open>One block at a time\<close>

definition logical_blocks :: "u32 \<Rightarrow> u32 \<Rightarrow> nat" where
  "logical_blocks context_len tpb = unat ((context_len + tpb - 1) div tpb)"

text \<open>The frame of every logical block of the context; \<open>None\<close> when one is unmapped or swapped out.\<close>

definition resolve_frames :: "CacheView \<Rightarrow> u32 \<Rightarrow> nat \<Rightarrow> u64 list option" where
  "resolve_frames v layer block_count =
     (let frames = map (\<lambda>logical.
            if per_layer_frames (kvl_shape (view_layout v)) then block_bytes v (of_nat logical) layer
            else block_bytes_shared v (of_nat logical)) [0..<block_count]
      in if None \<in> set frames then None else Some (map the frames))"

text \<open>The token loop of one logical block: from \<^verbatim>\<open>begin\<close> up to \<^verbatim>\<open>end\<close>.\<close>

definition block_begin :: "u32 \<Rightarrow> nat \<Rightarrow> u32" where
  "block_begin tpb i = of_nat i * tpb"

definition block_range :: "u32 \<Rightarrow> u32 \<Rightarrow> nat \<Rightarrow> nat list" where
  "block_range tpb context_len i =
     (let bgn = block_begin tpb i in [unat bgn..<unat (min (bgn + tpb) context_len)])"

text \<open>\<^verbatim>\<open>base + *element_offset(...)\<close>, or \<open>None\<close> when the offset has no value.\<close>

definition vector_ptr ::
    "('e, 'f) arith \<Rightarrow> CacheView \<Rightarrow> u32 \<Rightarrow> u64 \<Rightarrow> KVStream \<Rightarrow> u32 \<Rightarrow> u32 \<Rightarrow> u64 option" where
  "vector_ptr A v layer base stream token_in_block kv_head =
     map_option (\<lambda>off. base + off * elem_size A)
       (element_offset (view_layout v) (offset_layer v layer) stream token_in_block kv_head)"

text \<open>The two nested loops over blocks and tokens: \<open>fetch\<close> gets the block's base and the token's
  position in the block, and the loops end when it finds nothing.\<close>

definition block_loop ::
    "CacheView \<Rightarrow> 'f PagedAttentionParams \<Rightarrow> u64 list \<Rightarrow> (u64 \<Rightarrow> u32 \<Rightarrow> 'p option)
       \<Rightarrow> ('s \<Rightarrow> nat \<Rightarrow> 'p \<Rightarrow> 's) \<Rightarrow> 's \<Rightarrow> 's option" where
  "block_loop v params frames fetch step start =
     (let tpb = tokens_per_block (kvl_shape (view_layout v)); ctx = pa_context_len params in
      foldl (\<lambda>st logical. foldl (\<lambda>st token.
          case st of
            None \<Rightarrow> None
          | Some s \<Rightarrow>
              map_option (step s token) (fetch (frames ! logical) (of_nat token - block_begin tpb logical)))
          st (block_range tpb ctx logical))
        (Some start) [0..<logical_blocks ctx tpb])"

fun blocked_heads ::
    "('e, 'f) arith \<Rightarrow> CacheView \<Rightarrow> 'e list \<Rightarrow> 'f PagedAttentionParams \<Rightarrow> u64 list \<Rightarrow> nat list \<Rightarrow> 'e list
       \<Rightarrow> bool \<times> 'e list" where
  "blocked_heads A v query params frames [] out = (True, out)"
| "blocked_heads A v query params frames (q_head # heads) out =
     (let shape = kvl_shape (view_layout v); n = unat (head_dim shape); ctx = unat (pa_context_len params);
          group_size = unat (pa_num_query_heads params div num_kv_heads shape);
          kv_head = of_nat (q_head div group_size); mem = pool (the (view_allocator v))
      in case block_loop v params frames
                (\<lambda>base token. vector_ptr A v (pa_layer params) base Key token kv_head)
                (score_step A mem query (q_head * n) (pa_scale params) n)
                (replicate ctx (fl_zero A), fl_neg_inf A) of
           None \<Rightarrow> (False, out)
         | Some (scores, max_score) \<Rightarrow>
             (case block_loop v params frames
                     (\<lambda>base token. vector_ptr A v (pa_layer params) base Value token kv_head)
                     (value_step A mem n scores max_score) (fl_zero A, replicate n (fl_zero A)) of
                None \<Rightarrow> (False, out)
              | Some (denominator, acc) \<Rightarrow>
                  blocked_heads A v query params frames heads
                    (write_head A out (q_head * n) acc denominator n)))"

definition paged_attention_decode_blocked ::
    "('e, 'f) arith \<Rightarrow> CacheView \<Rightarrow> 'e list option \<Rightarrow> 'f PagedAttentionParams \<Rightarrow> 'e list option
       \<Rightarrow> bool \<times> 'e list option" where
  "paged_attention_decode_blocked A v query params out =
     (if \<not> args_ok A v query params out then (False, out)
      else
        let tpb = tokens_per_block (kvl_shape (view_layout v)) in
        case resolve_frames v (pa_layer params) (logical_blocks (pa_context_len params) tpb) of
          None \<Rightarrow> (False, out)
        | Some frames \<Rightarrow>
            (case blocked_heads A v (the query) params frames [0..<unat (pa_num_query_heads params)] (the out) of
               (ok, out') \<Rightarrow> (ok, Some out')))"

subsection \<open>Fused query groups and online softmax\<close>

record 'f group_state =
  gs_max :: 'f
  gs_denom :: 'f
  gs_acc :: "'f list"
  gs_scores :: "'f list"

definition fresh_group :: "('e, 'f) arith \<Rightarrow> bool \<Rightarrow> nat \<Rightarrow> nat \<Rightarrow> 'f group_state" where
  "fresh_group A online n ctx =
     \<lparr>gs_max = fl_neg_inf A, gs_denom = fl_zero A, gs_acc = replicate n (fl_zero A),
      gs_scores = (if online then [] else replicate ctx (fl_zero A))\<rparr>"

text \<open>A loop over the query heads of a group.\<close>

definition over_groups :: "nat \<Rightarrow> (nat \<Rightarrow> 'f group_state \<Rightarrow> 'f group_state) \<Rightarrow> 'f group_state list \<Rightarrow> 'f group_state list" where
  "over_groups group_size f rows = foldl (\<lambda>rows g. rows[g := f g (rows ! g)]) rows [0..<group_size]"

definition online_step ::
    "('e, 'f) arith \<Rightarrow> u8 list \<Rightarrow> 'e list \<Rightarrow> 'f \<Rightarrow> nat \<Rightarrow> u64 \<Rightarrow> u64 \<Rightarrow> nat \<Rightarrow> 'f group_state \<Rightarrow> 'f group_state" where
  "online_step A mem query scale n key ptr qbase gs =
     (let score = fl_mul A scale (dot_head A mem query qbase key n);
          new_max = fl_max A (gs_max gs) score;
          rescale = fl_exp A (fl_sub A (gs_max gs) new_max);
          weight = fl_exp A (fl_sub A score new_max);
          acc = (if \<not> fl_eq A (gs_max gs) new_max \<and> \<not> fl_eq A (gs_denom gs) (fl_zero A)
                 then scale_head A (gs_acc gs) rescale n else gs_acc gs)
      in gs\<lparr>gs_denom := fl_add A (fl_mul A (gs_denom gs) rescale) weight, gs_max := new_max,
            gs_acc := axpy_head A mem acc ptr weight n\<rparr>)"

definition fused_score_step ::
    "('e, 'f) arith \<Rightarrow> u8 list \<Rightarrow> 'e list \<Rightarrow> 'f \<Rightarrow> nat \<Rightarrow> nat \<Rightarrow> u64 \<Rightarrow> nat \<Rightarrow> 'f group_state \<Rightarrow> 'f group_state" where
  "fused_score_step A mem query scale n token key qbase gs =
     (let score = fl_mul A scale (dot_head A mem query qbase key n)
      in gs\<lparr>gs_scores := (gs_scores gs)[token := score], gs_max := fl_max A (gs_max gs) score\<rparr>)"

definition fused_value_step ::
    "('e, 'f) arith \<Rightarrow> u8 list \<Rightarrow> nat \<Rightarrow> nat \<Rightarrow> u64 \<Rightarrow> 'f group_state \<Rightarrow> 'f group_state" where
  "fused_value_step A mem n token ptr gs =
     (let weight = fl_exp A (fl_sub A (gs_scores gs ! token) (gs_max gs))
      in gs\<lparr>gs_denom := fl_add A (gs_denom gs) weight, gs_acc := axpy_head A mem (gs_acc gs) ptr weight n\<rparr>)"

definition write_group :: "('e, 'f) arith \<Rightarrow> nat \<Rightarrow> 'e list \<Rightarrow> nat \<Rightarrow> 'f group_state \<Rightarrow> 'e list" where
  "write_group A n out base gs =
     (let inv = fl_div A (fl_one A) (gs_denom gs)
      in foldl (\<lambda>out d. out[base + d := from_float A (fl_mul A (gs_acc gs ! d) inv)]) out [0..<n])"

text \<open>The work for one kv head up to the output: \<open>None\<close> is an early \<^verbatim>\<open>return false\<close>.\<close>

definition opt_kv_head ::
    "('e, 'f) arith \<Rightarrow> bool \<Rightarrow> CacheView \<Rightarrow> 'e list \<Rightarrow> 'f PagedAttentionParams \<Rightarrow> u64 list \<Rightarrow> nat
       \<Rightarrow> 'f group_state list option" where
  "opt_kv_head A online v query params frames kv_head =
     (let shape = kvl_shape (view_layout v); n = unat (head_dim shape); ctx = unat (pa_context_len params);
          group_size = unat (pa_num_query_heads params div num_kv_heads shape);
          mem = pool (the (view_allocator v));
          q_of = (\<lambda>g. (kv_head * group_size + g) * n);
          key_ptr = (\<lambda>base token. vector_ptr A v (pa_layer params) base Key token (of_nat kv_head));
          value_ptr = (\<lambda>base token. vector_ptr A v (pa_layer params) base Value token (of_nat kv_head));
          start = replicate group_size (fresh_group A online n ctx)
      in if online then
           block_loop v params frames
             (\<lambda>base token. case (key_ptr base token, value_ptr base token) of
                (Some key, Some val) \<Rightarrow> Some (key, val) | _ \<Rightarrow> None)
             (\<lambda>rows token (key, val). over_groups group_size
                (\<lambda>g. online_step A mem query (pa_scale params) n key val (q_of g)) rows) start
         else
           (case block_loop v params frames key_ptr
                   (\<lambda>rows token key. over_groups group_size
                      (\<lambda>g. fused_score_step A mem query (pa_scale params) n token key (q_of g)) rows) start of
              None \<Rightarrow> None
            | Some rows \<Rightarrow>
                block_loop v params frames value_ptr
                  (\<lambda>rows token val. over_groups group_size (\<lambda>g. fused_value_step A mem n token val) rows) rows))"

fun opt_heads ::
    "('e, 'f) arith \<Rightarrow> bool \<Rightarrow> CacheView \<Rightarrow> 'e list \<Rightarrow> 'f PagedAttentionParams \<Rightarrow> u64 list \<Rightarrow> nat list \<Rightarrow> 'e list
       \<Rightarrow> bool \<times> 'e list" where
  "opt_heads A online v query params frames [] out = (True, out)"
| "opt_heads A online v query params frames (kv_head # heads) out =
     (case opt_kv_head A online v query params frames kv_head of
        None \<Rightarrow> (False, out)
      | Some rows \<Rightarrow>
          (let shape = kvl_shape (view_layout v); n = unat (head_dim shape);
               group_size = unat (pa_num_query_heads params div num_kv_heads shape)
           in opt_heads A online v query params frames heads
                (foldl (\<lambda>out g. write_group A n out ((kv_head * group_size + g) * n) (rows ! g)) out [0..<group_size])))"

definition paged_attention_decode_opt ::
    "('e, 'f) arith \<Rightarrow> bool \<Rightarrow> bool \<Rightarrow> CacheView \<Rightarrow> 'e list option \<Rightarrow> 'f PagedAttentionParams \<Rightarrow> 'e list option
       \<Rightarrow> bool \<times> 'e list option" where
  "paged_attention_decode_opt A fuse_gqa online v query params out =
     (if \<not> args_ok A v query params out then (False, out)
      else
        let shape = kvl_shape (view_layout v); tpb = tokens_per_block shape in
        case resolve_frames v (pa_layer params) (logical_blocks (pa_context_len params) tpb) of
          None \<Rightarrow> (False, out)
        | Some frames \<Rightarrow>
            if \<not> fuse_gqa then paged_attention_decode_blocked A v query params out
            else
              (case opt_heads A online v (the query) params frames [0..<unat (num_kv_heads shape)] (the out) of
                 (ok, out') \<Rightarrow> (ok, Some out')))"

definition paged_attention_decode_fused ::
    "('e, 'f) arith \<Rightarrow> CacheView \<Rightarrow> 'e list option \<Rightarrow> 'f PagedAttentionParams \<Rightarrow> 'e list option
       \<Rightarrow> bool \<times> 'e list option" where
  "paged_attention_decode_fused A v query params out = paged_attention_decode_opt A True False v query params out"

definition paged_attention_decode_fast ::
    "('e, 'f) arith \<Rightarrow> CacheView \<Rightarrow> 'e list option \<Rightarrow> 'f PagedAttentionParams \<Rightarrow> 'e list option
       \<Rightarrow> bool \<times> 'e list option" where
  "paged_attention_decode_fast A v query params out = paged_attention_decode_opt A True True v query params out"

end
