(* ===== verification/AttentionProps.thy ===== *)
theory AttentionProps
  imports PagedAttention
begin

text \<open>
  The attention kernels compute the same function. Walking the context block by block visits the
  tokens in the same order as walking it token by token, and a block's base plus the offset in the
  block is the address the reference resolves for the token. From there the blocked kernel performs
  the reference's operations one for one; the fused kernel does up to the order of a product and a
  reciprocal; the online kernel does in exact arithmetic.
\<close>

section \<open>Loops over blocks\<close>

lemma foldl_concat_map: "foldl (\<lambda>s x. foldl (f x) s (g x)) s xs = foldl (\<lambda>s (x, y). f x s y) s (concat (map (\<lambda>x. map (Pair x) (g x)) xs))"
proof (induction xs arbitrary: s)
  case (Cons x xs)
  have "foldl (f x) s ys = foldl (\<lambda>s (x, y). f x s y) s (map (Pair x) ys)" for s ys
    by (induction ys arbitrary: s) simp_all
  then show ?case using Cons by simp
qed simp

lemma block_range_nat:
  assumes tpb: "tpb \<noteq> 0" and room: "unat ctx + unat tpb \<le> 4294967296" and i: "i * unat tpb < unat ctx"
  shows "unat (block_begin tpb i) = i * unat tpb"
    and "block_range tpb ctx i = [i * unat tpb..<min (i * unat tpb + unat tpb) (unat ctx)]"
proof -
  have b: "block_begin tpb i = of_nat (i * unat tpb)" by (simp add: block_begin_def)
  have lt: "i * unat tpb + unat tpb < 4294967296" using room i by linarith
  then show bgn: "unat (block_begin tpb i) = i * unat tpb" unfolding b by (intro unat_of_nat_u32) linarith
  have "block_begin tpb i + tpb = of_nat (i * unat tpb + unat tpb)" using b by simp
  then have "unat (block_begin tpb i + tpb) = i * unat tpb + unat tpb" using lt by (metis unat_of_nat_u32)
  then have "unat (min (block_begin tpb i + tpb) ctx) = min (i * unat tpb + unat tpb) (unat ctx)"
    by (simp add: min_def word_le_nat_alt)
  then show "block_range tpb ctx i = [i * unat tpb..<min (i * unat tpb + unat tpb) (unat ctx)]"
    by (simp add: block_range_def bgn)
qed

lemma logical_blocks_nat:
  assumes "tpb \<noteq> 0" and "unat ctx + unat tpb \<le> 4294967296"
  shows "logical_blocks ctx tpb = (unat ctx + unat tpb - 1) div unat tpb"
proof -
  have pos: "0 < unat tpb" using assms(1) by (simp add: unat_gt_0)
  have "ctx + tpb - 1 = of_nat (unat ctx + unat tpb - 1)" using pos by (simp add: of_nat_diff)
  moreover have "unat ctx + unat tpb - 1 < 4294967296" using assms(2) pos by linarith
  ultimately have "unat (ctx + tpb - 1) = unat ctx + unat tpb - 1" by (metis unat_of_nat_u32)
  then show ?thesis by (simp add: logical_blocks_def unat_div)
qed

text \<open>The blocks of a context, in order, are its tokens, in order.\<close>

lemma concat_blocks:
  "0 < (b::nat) \<Longrightarrow> k \<le> (c + b - 1) div b \<Longrightarrow>
   concat (map (\<lambda>i. map (Pair i) [i * b..<min (i * b + b) c]) [0..<k]) = map (\<lambda>t. (t div b, t)) [0..<min (k * b) c]"
proof (induction k)
  case (Suc k)
  have "Suc k * b \<le> c + b - 1"
    using Suc.prems by (meson div_times_less_eq_dividend le_trans mult_le_mono1)
  then have kc: "k * b < c" using Suc.prems(1) by simp
  have "t div b = k" if "k * b \<le> t" "t < k * b + b" for t
    using that Suc.prems(1) by (metis add.commute div_nat_eqI mult.commute mult_Suc_right)
  then have "map (Pair k) [k * b..<min (k * b + b) c] = map (\<lambda>t. (t div b, t)) [k * b..<min (k * b + b) c]"
    by (auto intro!: map_cong)
  moreover have "[0..<min (Suc k * b) c] = [0..<k * b] @ [k * b..<min (k * b + b) c]"
  proof -
    obtain d where d: "min (k * b + b) c = k * b + d" using kc by (metis le_add1 le_iff_add less_imp_le_nat min.bounded_iff)
    moreover have "min (Suc k * b) c = k * b + d" using d by (simp add: add.commute)
    ultimately show ?thesis using upt_add_eq_append [of 0 "k * b" d] by simp
  qed
  ultimately show ?case using Suc kc by simp
qed simp

lemma all_blocks: "0 < (b::nat) \<Longrightarrow> c \<le> (c + b - 1) div b * b"
proof -
  assume "0 < b"
  then have "c + b - 1 < (c + b - 1) div b * b + b"
    by (metis add.commute dividend_less_times_div mult.commute)
  then show ?thesis using \<open>0 < b\<close> by linarith
qed

lemma block_loop_eq:
  assumes tpb: "tokens_per_block (kvl_shape (view_layout v)) \<noteq> 0"
    and room: "unat (pa_context_len params) + unat (tokens_per_block (kvl_shape (view_layout v))) \<le> 4294967296"
  shows "block_loop v params frames fetch step start =
    foldl (\<lambda>st token. case st of None \<Rightarrow> None
      | Some s \<Rightarrow> map_option (step s token)
          (fetch (frames ! (token div unat (tokens_per_block (kvl_shape (view_layout v)))))
             (of_nat token mod tokens_per_block (kvl_shape (view_layout v)))))
      (Some start) [0..<unat (pa_context_len params)]"
proof -
  let ?tpb = "tokens_per_block (kvl_shape (view_layout v))" and ?ctx = "pa_context_len params"
  let ?b = "unat ?tpb" and ?c = "unat ?ctx"
  let ?nb = "(?c + ?b - 1) div ?b"
  have pos: "0 < ?b" using tpb by (simp add: unat_gt_0)
  have lt: "i * ?b < ?c" if "i < ?nb" for i
  proof -
    have "Suc i * ?b \<le> ?c + ?b - 1"
      using that by (metis Suc_leI div_times_less_eq_dividend le_trans mult_le_mono1)
    then show ?thesis using pos by simp
  qed
  let ?body = "\<lambda>i st token. case st of None \<Rightarrow> None
      | Some s \<Rightarrow> map_option (step s token) (fetch (frames ! i) (of_nat token - block_begin ?tpb i))"
  let ?body' = "\<lambda>st token. case st of None \<Rightarrow> None
      | Some s \<Rightarrow> map_option (step s token) (fetch (frames ! (token div ?b)) (of_nat token mod ?tpb))"
  have "block_loop v params frames fetch step start
      = foldl (\<lambda>st i. foldl (?body i) st (block_range ?tpb ?ctx i)) (Some start) [0..<?nb]"
    by (simp add: block_loop_def Let_def logical_blocks_nat [OF tpb room])
  also have "\<dots> = foldl (\<lambda>st (i, token). ?body i st token) (Some start)
      (concat (map (\<lambda>i. map (Pair i) (block_range ?tpb ?ctx i)) [0..<?nb]))"
    by (rule foldl_concat_map)
  also have "map (\<lambda>i. map (Pair i) (block_range ?tpb ?ctx i)) [0..<?nb]
      = map (\<lambda>i. map (Pair i) [i * ?b..<min (i * ?b + ?b) ?c]) [0..<?nb]"
    using block_range_nat(2) [OF tpb room lt] by (intro map_cong) simp_all
  also have "concat \<dots> = map (\<lambda>t. (t div ?b, t)) [0..<?c]"
    using concat_blocks [OF pos order_refl, of ?c] all_blocks [OF pos, of ?c] by (simp add: min_absorb2)
  also have "foldl (\<lambda>st (i, token). ?body i st token) (Some start) \<dots> = foldl ?body' (Some start) [0..<?c]"
  proof -
    have same: "of_nat token - block_begin ?tpb (token div ?b) = of_nat token mod ?tpb" if "token < ?c" for token
    proof -
      have "token < 4294967296" using that room by linarith
      then have "unat (of_nat token :: u32) = token" by simp
      then have "unat ((of_nat token :: u32) mod ?tpb) = token mod ?b" by (simp add: unat_mod)
      moreover have "(of_nat (unat w) :: u32) = w" for w :: u32 by simp
      ultimately have "(of_nat token :: u32) mod ?tpb = of_nat (token mod ?b)" by metis
      moreover have "(of_nat token :: u32) = of_nat (token div ?b * ?b + token mod ?b)" by simp
      then have "(of_nat token :: u32) = of_nat (token div ?b) * ?tpb + of_nat (token mod ?b)"
        unfolding of_nat_add of_nat_mult by simp
      ultimately show ?thesis by (simp add: block_begin_def)
    qed
    show ?thesis
      unfolding foldl_map by (intro foldl_cong refl) (use same in \<open>auto split: option.split\<close>)
  qed
  finally show ?thesis .
qed

lemma block_loop_all:
  assumes "tokens_per_block (kvl_shape (view_layout v)) \<noteq> 0"
    and "unat (pa_context_len params) + unat (tokens_per_block (kvl_shape (view_layout v))) \<le> 4294967296"
    and found: "\<And>t. t < unat (pa_context_len params) \<Longrightarrow>
      fetch (frames ! (t div unat (tokens_per_block (kvl_shape (view_layout v)))))
        (of_nat t mod tokens_per_block (kvl_shape (view_layout v))) = Some (p t)"
  shows "block_loop v params frames fetch step start
    = Some (foldl (\<lambda>s t. step s t (p t)) start [0..<unat (pa_context_len params)])"
proof -
  let ?f = "\<lambda>st token. case st of None \<Rightarrow> None
      | Some s \<Rightarrow> map_option (step s token)
          (fetch (frames ! (token div unat (tokens_per_block (kvl_shape (view_layout v)))))
             (of_nat token mod tokens_per_block (kvl_shape (view_layout v))))"
  have "foldl ?f (Some s) ts = Some (foldl (\<lambda>s t. step s t (p t)) s ts)" if "set ts \<subseteq> {..<unat (pa_context_len params)}" for s ts
    using that found by (induction ts arbitrary: s) auto
  then show ?thesis unfolding block_loop_eq [OF assms(1,2)] by (simp add: lessThan_atLeast0)
qed

lemma block_loop_none:
  assumes "tokens_per_block (kvl_shape (view_layout v)) \<noteq> 0"
    and "unat (pa_context_len params) + unat (tokens_per_block (kvl_shape (view_layout v))) \<le> 4294967296"
    and "0 < unat (pa_context_len params)" and "fetch (frames ! 0) 0 = None"
  shows "block_loop v params frames fetch step start = None"
proof -
  let ?f = "\<lambda>st token. case st of None \<Rightarrow> None
      | Some s \<Rightarrow> map_option (step s token)
          (fetch (frames ! (token div unat (tokens_per_block (kvl_shape (view_layout v)))))
             (of_nat token mod tokens_per_block (kvl_shape (view_layout v))))"
  have stuck: "foldl ?f None ts = None" for ts by (induction ts) simp_all
  have "[0..<unat (pa_context_len params)] = 0 # [1..<unat (pa_context_len params)]"
    using assms(3) by (simp add: upt_conv_Cons)
  then show ?thesis unfolding block_loop_eq [OF assms(1,2)] using stuck assms(4) by simp
qed

section \<open>Addresses\<close>

text \<open>A view with its table pointers set, as \<^verbatim>\<open>cache_view\<close> builds it, and a context whose rounding
  does not wrap.\<close>

definition context_ok :: "CacheView \<Rightarrow> 'f PagedAttentionParams \<Rightarrow> bool" where
  "context_ok v params \<longleftrightarrow>
     (case view_layer_tables v of None \<Rightarrow> False | Some ts \<Rightarrow> ts \<noteq> [])
     \<and> unat (pa_context_len params) + unat (tokens_per_block (kvl_shape (view_layout v))) \<le> 4294967296"

text \<open>The frame of the block that holds a token.\<close>

definition token_frame :: "CacheView \<Rightarrow> u32 \<Rightarrow> nat \<Rightarrow> u64 option" where
  "token_frame v layer i =
     (if per_layer_frames (kvl_shape (view_layout v)) then block_bytes v (of_nat i) layer
      else block_bytes_shared v (of_nat i))"

lemma valid_shape:
  assumes "view_valid v"
  shows "tokens_per_block (kvl_shape (view_layout v)) \<noteq> 0" and "num_kv_heads (kvl_shape (view_layout v)) \<noteq> 0"
    and "head_dim (kvl_shape (view_layout v)) \<noteq> 0"
  using assms by (auto simp: view_valid_def element_count_def layer_stride_def stream_stride_def
      token_stride_def head_stride_def)

lemma view_slot_frame:
  assumes "view_valid v" and "elem_size A = ucast (bytes_per_element (kvl_shape (view_layout v)))"
    and "view_layer_tables v = Some ts" and "ts \<noteq> []" and t: "t < 4294967296"
  shows "view_slot v (elem_size A) stream layer (of_nat t) h =
    (case token_frame v layer (t div unat (tokens_per_block (kvl_shape (view_layout v)))) of
       None \<Rightarrow> None
     | Some base \<Rightarrow> vector_ptr A v layer base stream (of_nat t mod tokens_per_block (kvl_shape (view_layout v))) h)"
proof -
  let ?tpb = "tokens_per_block (kvl_shape (view_layout v))"
  have "unat ((of_nat t :: u32) div ?tpb) = t div unat ?tpb" using t by (simp add: unat_div)
  moreover have "(of_nat (unat w) :: u32) = w" for w :: u32 by simp
  ultimately have idx: "(of_nat t :: u32) div ?tpb = of_nat (t div unat ?tpb)" by metis
  have far: "block_bytes v i layer = None" if "length ts \<le> unat layer" for i
    using that assms(3,4) by (cases "layer = 0") (auto simp: block_bytes_def view_table_def)
  show ?thesis
    using assms(1-3) far
    by (auto simp: view_slot_def Let_def token_frame_def vector_ptr_def offset_layer_def idx split: option.split)
qed

lemma resolve_frames_eq:
  "resolve_frames v layer n =
     (if \<forall>i<n. token_frame v layer i \<noteq> None then Some (map (\<lambda>i. the (token_frame v layer i)) [0..<n]) else None)"
proof -
  have "None \<in> set (map (token_frame v layer) [0..<n]) \<longleftrightarrow> \<not> (\<forall>i<n. token_frame v layer i \<noteq> None)"
    by (force simp: image_iff)
  moreover have "resolve_frames v layer n = (if None \<in> set (map (token_frame v layer) [0..<n]) then None
      else Some (map the (map (token_frame v layer) [0..<n])))"
    unfolding resolve_frames_def token_frame_def Let_def by (rule refl)
  ultimately show ?thesis by (simp add: comp_def)
qed

lemma nth_concat_rows:
  "k < m \<Longrightarrow> t < c \<Longrightarrow> concat (map (\<lambda>k. map (f k) [0..<c]) [0..<m]) ! (k * c + t) = f k t"
proof (induction m)
  case (Suc m)
  have len: "length (concat (map (\<lambda>k. map (f k) [0..<c]) [0..<m])) = m * c" for m by (induction m) simp_all
  show ?case
  proof (cases "k < m")
    case True
    then have "k * c + t < m * c" using radix_step Suc.prems(2) by blast
    then show ?thesis using Suc True by (simp add: nth_append len)
  next
    case False
    then have "k = m" using Suc.prems(1) by simp
    then show ?thesis using Suc.prems(2) by (simp add: nth_append len)
  qed
qed simp

text \<open>The addresses the reference resolves, when every lookup succeeds.\<close>

lemma resolve_stream_eq:
  defines "slot \<equiv> \<lambda>v A params stream t h. view_slot v (elem_size A) stream (pa_layer params) (of_nat t) (of_nat h)"
  shows "(\<And>t h. t < unat (pa_context_len params) \<Longrightarrow> h < unat (num_kv_heads (kvl_shape (view_layout v))) \<Longrightarrow>
           slot v A params stream t h = Some (p h t)) \<Longrightarrow>
         \<exists>ptrs. resolve_stream A v params stream = Some ptrs
           \<and> (\<forall>t h. t < unat (pa_context_len params) \<longrightarrow> h < unat (num_kv_heads (kvl_shape (view_layout v))) \<longrightarrow>
                ptrs ! (h * unat (pa_context_len params) + t) = p h t)"
    and "t < unat (pa_context_len params) \<Longrightarrow> h < unat (num_kv_heads (kvl_shape (view_layout v))) \<Longrightarrow>
         slot v A params stream t h = None \<Longrightarrow> resolve_stream A v params stream = None"
proof -
  let ?c = "unat (pa_context_len params)" and ?m = "unat (num_kv_heads (kvl_shape (view_layout v)))"
  let ?ptrs = "concat (map (\<lambda>h. map (\<lambda>t. slot v A params stream t h) [0..<?c]) [0..<?m])"
  have def: "resolve_stream A v params stream = (if None \<in> set ?ptrs then None else Some (map the ?ptrs))"
    unfolding resolve_stream_def slot_def Let_def by (rule refl)
  show "resolve_stream A v params stream = None" if "t < ?c" "h < ?m" "slot v A params stream t h = None"
    using that unfolding def by (force simp: image_iff)
  assume all: "\<And>t h. t < ?c \<Longrightarrow> h < ?m \<Longrightarrow> slot v A params stream t h = Some (p h t)"
  have "?ptrs = concat (map (\<lambda>h. map (\<lambda>t. Some (p h t)) [0..<?c]) [0..<?m])"
    using all by (intro arg_cong [of _ _ concat] map_cong refl) auto
  then have "?ptrs = map Some (concat (map (\<lambda>h. map (p h) [0..<?c]) [0..<?m]))"
    by (simp add: map_concat comp_def)
  then have "resolve_stream A v params stream = Some (concat (map (\<lambda>h. map (p h) [0..<?c]) [0..<?m]))"
    unfolding def by (auto simp: comp_def)
  then show "\<exists>ptrs. resolve_stream A v params stream = Some ptrs \<and> (\<forall>t h. t < ?c \<longrightarrow> h < ?m \<longrightarrow> ptrs ! (h * ?c + t) = p h t)"
    using nth_concat_rows [of _ ?m _ ?c p] by blast
qed

lemma vector_ptr_defined:
  "vector_ptr A v layer base stream t h \<noteq> None \<longleftrightarrow>
     offset_layer v layer < frame_layers (kvl_shape (view_layout v))
     \<and> t < tokens_per_block (kvl_shape (view_layout v)) \<and> h < num_kv_heads (kvl_shape (view_layout v))"
  by (auto simp: vector_ptr_def element_offset_def Let_def not_le)

text \<open>The three ways resolution can go: a block is missing, the layer is not stored, or every vector
  has an address that both ways of resolving agree on.\<close>

lemma resolve_cases:
  assumes valid: "view_valid v" and size: "elem_size A = ucast (bytes_per_element (kvl_shape (view_layout v)))"
    and ctx: "context_ok v params" and pos: "pa_context_len params \<noteq> 0"
  defines "c \<equiv> unat (pa_context_len params)" and "tpb \<equiv> tokens_per_block (kvl_shape (view_layout v))"
    and "m \<equiv> unat (num_kv_heads (kvl_shape (view_layout v)))"
    and "frames_of \<equiv> resolve_frames v (pa_layer params) (logical_blocks (pa_context_len params) (tokens_per_block (kvl_shape (view_layout v))))"
  obtains (missing) "frames_of = None" and "resolve_stream A v params Key = None"
  | (unstored) frames where "frames_of = Some frames" and "resolve_stream A v params Key = None"
      and "\<And>base stream t h. vector_ptr A v (pa_layer params) base stream t h = None"
  | (found) frames keys vals p where "frames_of = Some frames"
      and "resolve_stream A v params Key = Some keys" and "resolve_stream A v params Value = Some vals"
      and "\<And>stream h t. h < m \<Longrightarrow> t < c \<Longrightarrow>
        vector_ptr A v (pa_layer params) (frames ! (t div unat tpb)) stream (of_nat t mod tpb) (of_nat h) = Some (p stream h t)"
      and "\<And>h t. h < m \<Longrightarrow> t < c \<Longrightarrow> keys ! (h * c + t) = p Key h t"
      and "\<And>h t. h < m \<Longrightarrow> t < c \<Longrightarrow> vals ! (h * c + t) = p Value h t"
proof -
  obtain ts where ts: "view_layer_tables v = Some ts" "ts \<noteq> []"
    and room: "c + unat tpb \<le> 4294967296" using ctx by (auto simp: context_ok_def c_def tpb_def split: option.splits)
  have tpb0: "tpb \<noteq> 0" and m0: "0 < m" using valid_shape [OF valid] by (simp_all add: tpb_def m_def unat_gt_0)
  have b0: "0 < unat tpb" using tpb0 by (simp add: unat_gt_0)
  have c0: "0 < c" using pos by (simp add: c_def unat_gt_0)
  let ?nb = "(c + unat tpb - 1) div unat tpb"
  have nb: "logical_blocks (pa_context_len params) (tokens_per_block (kvl_shape (view_layout v))) = ?nb"
    using logical_blocks_nat [of tpb "pa_context_len params"] tpb0 room by (simp add: c_def tpb_def)
  have fr: "frames_of = (if \<forall>i<?nb. token_frame v (pa_layer params) i \<noteq> None
      then Some (map (\<lambda>i. the (token_frame v (pa_layer params) i)) [0..<?nb]) else None)"
    unfolding frames_of_def nb resolve_frames_eq by (rule refl)
  have slot: "view_slot v (elem_size A) stream (pa_layer params) (of_nat t) h =
      (case token_frame v (pa_layer params) (t div unat tpb) of None \<Rightarrow> None
       | Some base \<Rightarrow> vector_ptr A v (pa_layer params) base stream (of_nat t mod tpb) h)" if "t < c" for stream t h
    unfolding tpb_def using that room by (intro view_slot_frame [OF valid size ts]) linarith
  show thesis
  proof (cases "\<forall>i<?nb. token_frame v (pa_layer params) i \<noteq> None")
    case False
    then obtain i where i: "i < ?nb" "token_frame v (pa_layer params) i = None" by blast
    have "Suc i * unat tpb \<le> c + unat tpb - 1"
      using i(1) by (metis Suc_leI div_times_less_eq_dividend le_trans mult_le_mono1)
    then have t: "i * unat tpb < c" using b0 by simp
    have "resolve_stream A v params Key = None"
      using resolve_stream_eq(2) [of "i * unat tpb" params 0 v A Key] slot [OF t, of Key "of_nat 0"] t m0 i(2) b0
      by (simp add: c_def m_def)
    moreover have "frames_of = None" using False fr by simp
    ultimately show thesis using missing by blast
  next
    case True
    let ?frames = "map (\<lambda>i. the (token_frame v (pa_layer params) i)) [0..<?nb]"
    have fr': "frames_of = Some ?frames" using True fr by simp
    have at: "token_frame v (pa_layer params) (t div unat tpb) = Some (?frames ! (t div unat tpb))" if "t < c" for t
    proof -
      have "t < ?nb * unat tpb" using that all_blocks [OF b0, of c] by linarith
      then have "t div unat tpb < ?nb" using b0 by (simp add: div_less_iff_less_mult)
      then show ?thesis using True by auto
    qed
    show thesis
    proof (cases "offset_layer v (pa_layer params) < frame_layers (kvl_shape (view_layout v))")
      case False
      then have none: "vector_ptr A v (pa_layer params) base stream t h = None" for base stream t h
        using vector_ptr_defined [of A v "pa_layer params" base stream t h] by blast
      have "resolve_stream A v params Key = None"
        using resolve_stream_eq(2) [of 0 params 0 v A Key] slot [OF c0, of Key "of_nat 0"] c0 m0 none
        by (simp add: c_def m_def split: option.splits)
      then show thesis using unstored [OF fr' _ none] by blast
    next
      case layer: True
      let ?v = "\<lambda>stream h t. vector_ptr A v (pa_layer params) (?frames ! (t div unat tpb)) stream (of_nat t mod tpb) (of_nat h)"
      have def: "?v stream h t = Some (the (?v stream h t))" if "h < m" "t < c" for stream h t
      proof -
        have "(of_nat t :: u32) mod tpb < tpb" using tpb0 by (simp add: word_mod_less_divisor word_gt_0)
        moreover have "(of_nat h :: u32) < num_kv_heads (kvl_shape (view_layout v))"
          using that(1) less_trans [OF that(1) [unfolded m_def] unat_u32_lt]
          by (simp add: m_def word_less_nat_alt)
        ultimately have "?v stream h t \<noteq> None" using layer unfolding vector_ptr_defined tpb_def by blast
        then show ?thesis by simp
      qed
      have all: "view_slot v (elem_size A) stream (pa_layer params) (of_nat t) (of_nat h) = Some (the (?v stream h t))"
        if "t < unat (pa_context_len params)" "h < unat (num_kv_heads (kvl_shape (view_layout v)))" for stream t h
        using slot [of t stream "of_nat h"] at [of t] def [of h t stream] that by (simp add: c_def m_def)
      obtain keys where "resolve_stream A v params Key = Some keys" "\<forall>t h. t < c \<longrightarrow> h < m \<longrightarrow> keys ! (h * c + t) = the (?v Key h t)"
        using resolve_stream_eq(1) [of params v A Key "\<lambda>h t. the (?v Key h t)", OF all] unfolding c_def m_def by blast
      moreover obtain vals where "resolve_stream A v params Value = Some vals" "\<forall>t h. t < c \<longrightarrow> h < m \<longrightarrow> vals ! (h * c + t) = the (?v Value h t)"
        using resolve_stream_eq(1) [of params v A Value "\<lambda>h t. the (?v Value h t)", OF all] unfolding c_def m_def by blast
      ultimately show thesis using found [OF fr' _ _ def] by blast
    qed
  qed
qed

section \<open>The blocked kernel is the reference\<close>

lemma group_heads:
  assumes "args_ok A v query params out"
  shows "unat (pa_num_query_heads params) = unat (num_kv_heads (kvl_shape (view_layout v)))
      * unat (pa_num_query_heads params div num_kv_heads (kvl_shape (view_layout v)))"
    and "0 < unat (pa_num_query_heads params div num_kv_heads (kvl_shape (view_layout v)))"
proof -
  let ?n = "unat (pa_num_query_heads params)" and ?m = "unat (num_kv_heads (kvl_shape (view_layout v)))"
  have "pa_num_query_heads params mod num_kv_heads (kvl_shape (view_layout v)) = 0" "pa_num_query_heads params \<noteq> 0"
    using assms by (simp_all add: args_ok_def Let_def)
  then have "?n mod ?m = 0" "0 < ?n" by (simp_all flip: unat_mod add: unat_gt_0)
  then show eq: "?n = ?m * unat (pa_num_query_heads params div num_kv_heads (kvl_shape (view_layout v)))"
    by (auto simp: unat_div)
  then show "0 < unat (pa_num_query_heads params div num_kv_heads (kvl_shape (view_layout v)))"
    using \<open>0 < ?n\<close> by (metis gr0I mult_0_right)
qed

lemma args_okD:
  assumes "args_ok A v query params out"
  shows "view_valid v" and "elem_size A = ucast (bytes_per_element (kvl_shape (view_layout v)))"
    and "pa_context_len params \<noteq> 0" and "pa_num_query_heads params \<noteq> 0" and "query \<noteq> None" and "out \<noteq> None"
  using assms by (simp_all add: args_ok_def Let_def)

lemma blocked_heads_found:
  assumes tpb: "tokens_per_block (kvl_shape (view_layout v)) \<noteq> 0"
    and room: "unat (pa_context_len params) + unat (tokens_per_block (kvl_shape (view_layout v))) \<le> 4294967296"
    and ptr: "\<And>stream h t. h < unat (num_kv_heads (kvl_shape (view_layout v))) \<Longrightarrow> t < unat (pa_context_len params) \<Longrightarrow>
        vector_ptr A v (pa_layer params) (frames ! (t div unat (tokens_per_block (kvl_shape (view_layout v))))) stream
          (of_nat t mod tokens_per_block (kvl_shape (view_layout v))) (of_nat h) = Some (p stream h t)"
    and keys: "\<And>h t. h < unat (num_kv_heads (kvl_shape (view_layout v))) \<Longrightarrow> t < unat (pa_context_len params) \<Longrightarrow>
        keys ! (h * unat (pa_context_len params) + t) = p Key h t"
    and vals: "\<And>h t. h < unat (num_kv_heads (kvl_shape (view_layout v))) \<Longrightarrow> t < unat (pa_context_len params) \<Longrightarrow>
        vals ! (h * unat (pa_context_len params) + t) = p Value h t"
    and heads: "\<And>q. q \<in> set heads \<Longrightarrow>
        q div unat (pa_num_query_heads params div num_kv_heads (kvl_shape (view_layout v)))
          < unat (num_kv_heads (kvl_shape (view_layout v)))"
  shows "blocked_heads A v query params frames heads out =
    (True, foldl (decode_head A (pool (the (view_allocator v))) query params (unat (head_dim (kvl_shape (view_layout v))))
       (unat (pa_num_query_heads params div num_kv_heads (kvl_shape (view_layout v)))) keys vals) out heads)"
  using heads
proof (induction heads arbitrary: out)
  case (Cons q heads)
  let ?G = "unat (pa_num_query_heads params div num_kv_heads (kvl_shape (view_layout v)))"
  let ?c = "unat (pa_context_len params)" and ?n = "unat (head_dim (kvl_shape (view_layout v)))"
  let ?mem = "pool (the (view_allocator v))"
  have q: "q div ?G < unat (num_kv_heads (kvl_shape (view_layout v)))" using Cons.prems by simp
  have loop: "block_loop v params frames
        (\<lambda>base token. vector_ptr A v (pa_layer params) base stream token (of_nat (q div ?G))) step start
      = Some (foldl (\<lambda>s t. step s t (p stream (q div ?G) t)) start [0..<?c])" for stream and step :: "'x \<Rightarrow> _" and start
    by (rule block_loop_all [OF tpb room]) (rule ptr [OF q])
  have k: "foldl (\<lambda>s t. score_step A ?mem query (q * ?n) (pa_scale params) ?n s t (p Key (q div ?G) t)) s [0..<?c]
      = foldl (\<lambda>s t. score_step A ?mem query (q * ?n) (pa_scale params) ?n s t (keys ! (q div ?G * ?c + t))) s [0..<?c]" for s
    using keys [OF q] by (intro foldl_cong) auto
  have w: "foldl (\<lambda>s t. value_step A ?mem ?n scores mx s t (p Value (q div ?G) t)) s [0..<?c]
      = foldl (\<lambda>s t. value_step A ?mem ?n scores mx s t (vals ! (q div ?G * ?c + t))) s [0..<?c]" for s scores mx
    using vals [OF q] by (intro foldl_cong) auto
  have "blocked_heads A v query params frames (q # heads) out
      = blocked_heads A v query params frames heads (decode_head A ?mem query params ?n ?G keys vals out q)"
    by (simp add: decode_head_def Let_def loop k w split: prod.split)
  then show ?case using Cons by simp
qed simp

lemma decode_blocked_eq:
  assumes ctx: "context_ok v params"
  shows "paged_attention_decode_blocked A v query params out = paged_attention_decode A v query params out"
proof (cases "args_ok A v query params out")
  case False
  then show ?thesis by (simp add: paged_attention_decode_blocked_def paged_attention_decode_def)
next
  case ok: True
  note args = args_okD [OF ok]
  let ?G = "unat (pa_num_query_heads params div num_kv_heads (kvl_shape (view_layout v)))"
  let ?m = "unat (num_kv_heads (kvl_shape (view_layout v)))" and ?c = "unat (pa_context_len params)"
  have tpb: "tokens_per_block (kvl_shape (view_layout v)) \<noteq> 0" using valid_shape [OF args(1)] by simp
  have room: "?c + unat (tokens_per_block (kvl_shape (view_layout v))) \<le> 4294967296"
    using ctx by (simp add: context_ok_def split: option.splits)
  have c0: "0 < ?c" using args(3) by (simp add: unat_gt_0)
  have nq: "[0..<unat (pa_num_query_heads params)] = 0 # [1..<unat (pa_num_query_heads params)]"
    using args(4) by (simp add: upt_conv_Cons unat_gt_0)
  show ?thesis
    using args(1,2) ctx args(3)
  proof (cases rule: resolve_cases)
    case missing
    then show ?thesis using ok by (simp add: paged_attention_decode_blocked_def paged_attention_decode_def Let_def)
  next
    case (unstored frames)
    have none: "block_loop v params frames (\<lambda>base token. vector_ptr A v (pa_layer params) base stream token h) step start = None"
      for stream h and step :: "'x \<Rightarrow> _" and start
      by (rule block_loop_none [OF tpb room c0]) (rule unstored(3))
    have "blocked_heads A v (the query) params frames (0 # qs) o' = (False, o')" for qs o'
      unfolding blocked_heads.simps Let_def none by simp
    then show ?thesis
      using ok unstored args(6) by (simp add: paged_attention_decode_blocked_def paged_attention_decode_def Let_def nq)
  next
    case (found frames keys vals p)
    have heads: "q div ?G < ?m" if "q \<in> set [0..<unat (pa_num_query_heads params)]" for q
      using that group_heads [OF ok] by (simp add: div_less_iff_less_mult)
    have "blocked_heads A v (the query) params frames [0..<unat (pa_num_query_heads params)] (the out) =
        (True, foldl (decode_head A (pool (the (view_allocator v))) (the query) params
           (unat (head_dim (kvl_shape (view_layout v)))) ?G keys vals) (the out) [0..<unat (pa_num_query_heads params)])"
      by (rule blocked_heads_found [OF tpb room found(4,5,6) heads])
    then show ?thesis
      using ok found(1-3) by (simp add: paged_attention_decode_blocked_def paged_attention_decode_def Let_def)
  qed
qed

end
