(* ===== verification/AttentionOpt.thy ===== *)
theory AttentionOpt
  imports AttentionProps Complex_Main
begin

text \<open>
  The optimised attention kernels against the reference. Each query head of a group only touches its
  own row, so the loops over a group's heads split into one loop per head. The fused kernel then
  computes the reference's scores, denominators and accumulators, and divides by multiplying with a
  reciprocal; the online kernel keeps, after every token, the sums the reference would have for the
  maximum seen so far. The latter needs the laws of exact arithmetic, which the type \<open>xreal\<close> (the real
  numbers with a negative infinity, as \<^verbatim>\<open>max_score\<close> starts from it) provides.
\<close>

section \<open>Loops over rows\<close>

lemma foldl_update_each:
  "k \<le> length xs \<Longrightarrow> foldl (\<lambda>xs i. xs[i := f i (xs ! i)]) xs [0..<k] = map (\<lambda>i. f i (xs ! i)) [0..<k] @ drop k xs"
proof (induction k)
  case (Suc k)
  then have "drop k xs = xs ! k # drop (Suc k) xs" by (simp add: Cons_nth_drop_Suc)
  then show ?case using Suc by (simp add: nth_append list_update_append)
qed simp

lemma over_groups_map: "length rows = G \<Longrightarrow> over_groups G f rows = map (\<lambda>g. f g (rows ! g)) [0..<G]"
  using foldl_update_each [of G rows f] by (simp add: over_groups_def)

lemma axpy_head_map:
  "length acc = n \<Longrightarrow> axpy_head A mem acc ptr w n
     = map (\<lambda>d. fl_add A (acc ! d) (fl_mul A w (load_as_float A mem ptr d))) [0..<n]"
  using foldl_update_each [of n acc "\<lambda>d x. fl_add A x (fl_mul A w (load_as_float A mem ptr d))"]
  by (simp add: axpy_head_def)

lemma scale_head_map:
  "length acc = n \<Longrightarrow> scale_head A acc factor n = map (\<lambda>d. fl_mul A (acc ! d) factor) [0..<n]"
  using foldl_update_each [of n acc "\<lambda>d x. fl_mul A x factor"] by (simp add: scale_head_def)

text \<open>A loop over tokens whose body is a loop over the group: one loop over tokens per head.\<close>

lemma foldl_over_groups:
  "length rows = G \<Longrightarrow>
   foldl (\<lambda>rows t. over_groups G (\<lambda>g. F g t) rows) rows ts = map (\<lambda>g. foldl (\<lambda>r t. F g t r) (rows ! g) ts) [0..<G]"
proof (induction ts arbitrary: rows)
  case Nil
  then show ?case using map_nth [of rows] by simp
next
  case (Cons t ts)
  have "foldl (\<lambda>rows t. over_groups G (\<lambda>g. F g t) rows) rows (t # ts)
      = map (\<lambda>g. foldl (\<lambda>r t. F g t r) (over_groups G (\<lambda>g. F g t) rows ! g) ts) [0..<G]"
    using Cons by (simp add: over_groups_map)
  then show ?case using Cons.prems by (simp add: over_groups_map)
qed

text \<open>The query heads of all groups, in order.\<close>

lemma foldl_heads:
  "foldl (\<lambda>out kv. foldl (\<lambda>out g. f out (kv * G + g)) out [0..<G]) out [0..<m] = foldl f out [0..<m * G]"
proof (induction m)
  case (Suc m)
  have "[0..<Suc m * G] = [0..<m * G] @ map (\<lambda>g. g + m * G) [0..<G]"
    using upt_add_eq_append [of 0 "m * G" G] map_add_upt [of "m * G" G] by (simp add: add.commute)
  then show ?case using Suc by (simp add: foldl_map add.commute)
qed simp

lemma group_div: "g < G \<Longrightarrow> (kv * G + g) div G = (kv::nat)"
  by simp

lemma opt_heads_found:
  assumes "\<And>kv. kv \<in> set kvs \<Longrightarrow> \<exists>rows. opt_kv_head A online v query params frames kv = Some rows
      \<and> (\<forall>g<G. \<forall>o'. write_group A n o' ((kv * G + g) * n) (rows ! g) = F o' (kv * G + g))"
    and "G = unat (pa_num_query_heads params div num_kv_heads (kvl_shape (view_layout v)))"
    and "n = unat (head_dim (kvl_shape (view_layout v)))"
  shows "opt_heads A online v query params frames kvs out
    = (True, foldl (\<lambda>out kv. foldl (\<lambda>out g. F out (kv * G + g)) out [0..<G]) out kvs)"
  using assms(1)
proof (induction kvs arbitrary: out)
  case (Cons kv kvs)
  obtain rows where rows: "opt_kv_head A online v query params frames kv = Some rows"
    "\<forall>g<G. \<forall>o'. write_group A n o' ((kv * G + g) * n) (rows ! g) = F o' (kv * G + g)"
    using Cons.prems [of kv] by auto
  have "foldl (\<lambda>out g. write_group A n out ((kv * G + g) * n) (rows ! g)) out [0..<G]
      = foldl (\<lambda>out g. F out (kv * G + g)) out [0..<G]"
    using rows(2) by (intro foldl_cong) auto
  then show ?case using Cons rows(1) by (simp add: Let_def flip: assms(2,3))
qed simp

section \<open>From one row to the kernel\<close>

text \<open>If every row of every kv head yields what the reference writes for that query head, the
  optimised kernel is the reference.\<close>

lemma decode_opt_eq:
  assumes ctx: "context_ok v params"
    and row: "\<And>frames keys vals p kv. args_ok A v query params out \<Longrightarrow>
      kv < unat (num_kv_heads (kvl_shape (view_layout v))) \<Longrightarrow>
      (\<And>stream t. t < unat (pa_context_len params) \<Longrightarrow>
         vector_ptr A v (pa_layer params) (frames ! (t div unat (tokens_per_block (kvl_shape (view_layout v))))) stream
           (of_nat t mod tokens_per_block (kvl_shape (view_layout v))) (of_nat kv) = Some (p stream t)) \<Longrightarrow>
      (\<And>t. t < unat (pa_context_len params) \<Longrightarrow> keys ! (kv * unat (pa_context_len params) + t) = p Key t) \<Longrightarrow>
      (\<And>t. t < unat (pa_context_len params) \<Longrightarrow> vals ! (kv * unat (pa_context_len params) + t) = p Value t) \<Longrightarrow>
      \<exists>rows. opt_kv_head A online v (the query) params frames kv = Some rows
        \<and> (\<forall>g<unat (pa_num_query_heads params div num_kv_heads (kvl_shape (view_layout v))).
            \<forall>o'. write_group A (unat (head_dim (kvl_shape (view_layout v)))) o'
                ((kv * unat (pa_num_query_heads params div num_kv_heads (kvl_shape (view_layout v))) + g)
                  * unat (head_dim (kvl_shape (view_layout v)))) (rows ! g)
              = decode_head A (pool (the (view_allocator v))) (the query) params
                  (unat (head_dim (kvl_shape (view_layout v))))
                  (unat (pa_num_query_heads params div num_kv_heads (kvl_shape (view_layout v)))) keys vals o'
                  (kv * unat (pa_num_query_heads params div num_kv_heads (kvl_shape (view_layout v))) + g))"
  shows "paged_attention_decode_opt A True online v query params out = paged_attention_decode A v query params out"
proof (cases "args_ok A v query params out")
  case False
  then show ?thesis by (simp add: paged_attention_decode_opt_def paged_attention_decode_def)
next
  case ok: True
  note args = args_okD [OF ok]
  let ?G = "unat (pa_num_query_heads params div num_kv_heads (kvl_shape (view_layout v)))"
  let ?m = "unat (num_kv_heads (kvl_shape (view_layout v)))" and ?c = "unat (pa_context_len params)"
  let ?n = "unat (head_dim (kvl_shape (view_layout v)))" and ?mem = "pool (the (view_allocator v))"
  have tpb: "tokens_per_block (kvl_shape (view_layout v)) \<noteq> 0" and m0: "0 < ?m"
    using valid_shape [OF args(1)] by (simp_all add: unat_gt_0)
  have room: "?c + unat (tokens_per_block (kvl_shape (view_layout v))) \<le> 4294967296"
    using ctx by (simp add: context_ok_def split: option.splits)
  have c0: "0 < ?c" using args(3) by (simp add: unat_gt_0)
  show ?thesis
    using args(1,2) ctx args(3)
  proof (cases rule: resolve_cases)
    case missing
    then show ?thesis using ok by (simp add: paged_attention_decode_opt_def paged_attention_decode_def Let_def)
  next
    case (unstored frames)
    have none: "block_loop v params frames (\<lambda>base token. vector_ptr A v (pa_layer params) base stream token h) step start = None"
      for stream h and step :: "'x \<Rightarrow> _" and start
      by (rule block_loop_none [OF tpb room c0]) (rule unstored(3))
    have none2: "block_loop v params frames (\<lambda>base token. None) step start = None" for step :: "'x \<Rightarrow> nat \<Rightarrow> 'y \<Rightarrow> 'x" and start
      by (rule block_loop_none [OF tpb room c0]) simp
    have "opt_kv_head A online v (the query) params frames kv = None" for kv
      by (cases online) (simp_all add: opt_kv_head_def Let_def unstored(3) none2)
    moreover have "[0..<?m] = 0 # [1..<?m]" using m0 by (simp add: upt_conv_Cons)
    ultimately show ?thesis
      using ok unstored args(6) by (simp add: paged_attention_decode_opt_def paged_attention_decode_def Let_def)
  next
    case (found frames keys vals p)
    let ?F = "decode_head A ?mem (the query) params ?n ?G keys vals"
    have "opt_heads A online v (the query) params frames [0..<?m] (the out)
        = (True, foldl (\<lambda>out kv. foldl (\<lambda>out g. ?F out (kv * ?G + g)) out [0..<?G]) (the out) [0..<?m])"
    proof (rule opt_heads_found [OF _ refl refl])
      fix kv assume "kv \<in> set [0..<?m]"
      then have kv: "kv < ?m" by simp
      show "\<exists>rows. opt_kv_head A online v (the query) params frames kv = Some rows
          \<and> (\<forall>g<?G. \<forall>o'. write_group A ?n o' ((kv * ?G + g) * ?n) (rows ! g) = ?F o' (kv * ?G + g))"
        by (rule row [OF ok kv, where p = "\<lambda>stream t. p stream kv t"]) (use found(4-6) kv in blast)+
    qed
    also have "\<dots> = (True, foldl ?F (the out) [0..<unat (pa_num_query_heads params)])"
      by (simp add: foldl_heads group_heads(1) [OF ok])
    finally show ?thesis
      using ok found(1-3) by (simp add: paged_attention_decode_opt_def paged_attention_decode_def Let_def)
  qed
qed

section \<open>The fused kernel\<close>

text \<open>Products commute and dividing is multiplying with the reciprocal: what the fused kernel changes.\<close>

definition recip_arith :: "('e, 'f) arith \<Rightarrow> bool" where
  "recip_arith A \<longleftrightarrow>
     (\<forall>a b. fl_mul A a b = fl_mul A b a) \<and> (\<forall>a b. fl_mul A a (fl_div A (fl_one A) b) = fl_div A a b)"

lemma write_group_recip:
  "recip_arith A \<Longrightarrow> write_group A n out base gs = write_head A out base (gs_acc gs) (gs_denom gs) n"
  by (simp add: write_group_def write_head_def recip_arith_def Let_def)

lemma fused_scores:
  assumes "recip_arith A"
  shows "foldl (\<lambda>gs t. fused_score_step A mem query scale n t (key t) qbase gs) gs ts =
    (case foldl (\<lambda>st t. score_step A mem query qbase scale n st t (key t)) (gs_scores gs, gs_max gs) ts of
       (scores, mx) \<Rightarrow> gs\<lparr>gs_scores := scores, gs_max := mx\<rparr>)"
proof (induction ts arbitrary: gs)
  case (Cons t ts)
  have "fl_mul A scale x = fl_mul A x scale" for x using assms by (simp add: recip_arith_def)
  then show ?case using Cons by (simp add: fused_score_step_def score_step_def Let_def split: prod.split)
qed simp

lemma fused_values:
  "foldl (\<lambda>gs t. fused_value_step A mem n t (val t) gs) gs ts =
    (case foldl (\<lambda>st t. value_step A mem n (gs_scores gs) (gs_max gs) st t (val t)) (gs_denom gs, gs_acc gs) ts of
       (den, acc) \<Rightarrow> gs\<lparr>gs_denom := den, gs_acc := acc\<rparr>)"
proof (induction ts arbitrary: gs)
  case (Cons t ts)
  then show ?case by (simp add: fused_value_step_def value_step_def Let_def split: prod.split)
qed simp

lemma decode_fused_eq:
  assumes ctx: "context_ok v params" and recip: "recip_arith A"
  shows "paged_attention_decode_fused A v query params out = paged_attention_decode A v query params out"
  unfolding paged_attention_decode_fused_def
proof (rule decode_opt_eq [OF ctx])
  fix frames keys vals and p :: "KVStream \<Rightarrow> nat \<Rightarrow> u64" and kv
  let ?G = "unat (pa_num_query_heads params div num_kv_heads (kvl_shape (view_layout v)))"
  let ?c = "unat (pa_context_len params)" and ?tpb = "tokens_per_block (kvl_shape (view_layout v))"
  let ?n = "unat (head_dim (kvl_shape (view_layout v)))" and ?mem = "pool (the (view_allocator v))"
  let ?q = "the query" and ?start = "fresh_group A False (unat (head_dim (kvl_shape (view_layout v)))) (unat (pa_context_len params))"
  assume ok: "args_ok A v query params out"
    and ptr: "\<And>stream t. t < ?c \<Longrightarrow> vector_ptr A v (pa_layer params) (frames ! (t div unat ?tpb)) stream
           (of_nat t mod ?tpb) (of_nat kv) = Some (p stream t)"
    and keys: "\<And>t. t < ?c \<Longrightarrow> keys ! (kv * ?c + t) = p Key t"
    and vals: "\<And>t. t < ?c \<Longrightarrow> vals ! (kv * ?c + t) = p Value t"
  have tpb: "?tpb \<noteq> 0" using valid_shape args_okD(1) [OF ok] by blast
  have room: "?c + unat ?tpb \<le> 4294967296" using ctx by (simp add: context_ok_def split: option.splits)
  have loop: "block_loop v params frames (\<lambda>base token. vector_ptr A v (pa_layer params) base stream token (of_nat kv)) step start
      = Some (foldl (\<lambda>s t. step s t (p stream t)) start [0..<?c])" for stream and step :: "'x \<Rightarrow> _" and start
    by (rule block_loop_all [OF tpb room]) (rule ptr)
  let ?row1 = "\<lambda>g. foldl (\<lambda>r t. fused_score_step A ?mem ?q (pa_scale params) ?n t (p Key t) ((kv * ?G + g) * ?n) r) ?start [0..<?c]"
  let ?row = "\<lambda>g. foldl (\<lambda>r t. fused_value_step A ?mem ?n t (p Value t) r) (?row1 g) [0..<?c]"
  have rows1: "foldl (\<lambda>rows t. over_groups ?G (\<lambda>g. fused_score_step A ?mem ?q (pa_scale params) ?n t (p Key t) ((kv * ?G + g) * ?n)) rows)
      (replicate ?G ?start) [0..<?c] = map ?row1 [0..<?G]"
    by (subst foldl_over_groups) simp_all
  have rows2: "foldl (\<lambda>rows t. over_groups ?G (\<lambda>g. fused_value_step A ?mem ?n t (p Value t)) rows) (map ?row1 [0..<?G]) [0..<?c]
      = map ?row [0..<?G]"
    by (subst foldl_over_groups) simp_all
  have run: "opt_kv_head A False v ?q params frames kv = Some (map ?row [0..<?G])"
    unfolding opt_kv_head_def Let_def by (simp add: loop rows1 rows2)
  have "write_group A ?n o' ((kv * ?G + g) * ?n) (?row g) = decode_head A ?mem ?q params ?n ?G keys vals o' (kv * ?G + g)"
    if g: "g < ?G" for g o'
  proof -
    have div: "(kv * ?G + g) div ?G = kv" using g by (rule group_div)
    let ?sc = "\<lambda>f. foldl (\<lambda>st t. score_step A ?mem ?q ((kv * ?G + g) * ?n) (pa_scale params) ?n st t (f t))
        (replicate ?c (fl_zero A), fl_neg_inf A) [0..<?c]"
    let ?va = "\<lambda>scores mx f. foldl (\<lambda>st t. value_step A ?mem ?n scores mx st t (f t)) (fl_zero A, replicate ?n (fl_zero A)) [0..<?c]"
    have sc: "?sc (\<lambda>t. keys ! (kv * ?c + t)) = ?sc (p Key)" using keys by (intro foldl_cong) auto
    have va: "?va scores mx (\<lambda>t. vals ! (kv * ?c + t)) = ?va scores mx (p Value)" for scores mx
      using vals by (intro foldl_cong) auto
    have "?row g = (case ?sc (p Key) of (scores, mx) \<Rightarrow> (case ?va scores mx (p Value) of
        (den, acc) \<Rightarrow> \<lparr>gs_max = mx, gs_denom = den, gs_acc = acc, gs_scores = scores\<rparr>))"
      by (simp add: fused_scores [OF recip] fused_values fresh_group_def split: prod.split)
    then show ?thesis
      by (simp add: write_group_recip [OF recip] decode_head_def Let_def div sc va split: prod.split)
  qed
  then show "\<exists>rows. opt_kv_head A False v ?q params frames kv = Some rows
      \<and> (\<forall>g<?G. \<forall>o'. write_group A ?n o' ((kv * ?G + g) * ?n) (rows ! g)
          = decode_head A ?mem ?q params ?n ?G keys vals o' (kv * ?G + g))"
    using run by simp
qed

section \<open>The online kernel in exact arithmetic\<close>

datatype xreal = NegInf | Fin real

fun xop :: "(real \<Rightarrow> real \<Rightarrow> real) \<Rightarrow> xreal \<Rightarrow> xreal \<Rightarrow> xreal" where
  "xop f (Fin a) (Fin b) = Fin (f a b)"
| "xop f a b = NegInf"

fun xexp :: "xreal \<Rightarrow> xreal" where
  "xexp (Fin a) = Fin (exp a)"
| "xexp NegInf = Fin 0"

fun xless :: "xreal \<Rightarrow> xreal \<Rightarrow> bool" where
  "xless a NegInf = False"
| "xless NegInf (Fin b) = True"
| "xless (Fin a) (Fin b) = (a < b)"

text \<open>Exact arithmetic over elements of any type that denote real numbers.\<close>

definition exact_arith :: "u64 \<Rightarrow> (u8 list \<Rightarrow> 'e) \<Rightarrow> ('e \<Rightarrow> real) \<Rightarrow> (xreal \<Rightarrow> 'e) \<Rightarrow> ('e, xreal) arith" where
  "exact_arith sz parse val bk =
     \<lparr>elem_size = sz, elem_of_bytes = parse, to_float = (\<lambda>x. Fin (val x)), from_float = bk,
      fl_zero = Fin 0, fl_one = Fin 1, fl_neg_inf = NegInf,
      fl_add = xop (+), fl_sub = xop (-), fl_mul = xop (*), fl_div = xop (/), fl_exp = xexp,
      fl_less = xless, fl_eq = (=)\<rparr>"

lemma exact_simps [simp]:
  "fl_zero (exact_arith sz parse val bk) = Fin 0" "fl_one (exact_arith sz parse val bk) = Fin 1"
  "fl_neg_inf (exact_arith sz parse val bk) = NegInf" "fl_add (exact_arith sz parse val bk) = xop (+)"
  "fl_sub (exact_arith sz parse val bk) = xop (-)" "fl_mul (exact_arith sz parse val bk) = xop (*)"
  "fl_div (exact_arith sz parse val bk) = xop (/)" "fl_exp (exact_arith sz parse val bk) = xexp"
  "fl_less (exact_arith sz parse val bk) = xless" "fl_eq (exact_arith sz parse val bk) = (=)"
  "from_float (exact_arith sz parse val bk) = bk" "to_float (exact_arith sz parse val bk) x = Fin (val x)"
  by (simp_all add: exact_arith_def)

lemma fl_max_exact [simp]:
  "fl_max (exact_arith sz parse val bk) NegInf (Fin b) = Fin b"
  "fl_max (exact_arith sz parse val bk) (Fin a) (Fin b) = Fin (max a b)"
  by (auto simp: fl_max_def max_def)

text \<open>Elements in memory, dot products and accumulators are finite.\<close>

lemma load_exact: "\<exists>r. load_as_float (exact_arith sz parse val bk) mem ptr d = Fin r"
  by (simp add: load_as_float_def)

lemma dot_exact: "\<exists>r. dot_head (exact_arith sz parse val bk) mem query qbase key n = Fin r"
proof -
  have "\<exists>r. foldl (\<lambda>dot d. xop (+) dot (xop (*) (Fin (f d)) (Fin (h d)))) (Fin a) ds = Fin r" for f h a and ds :: "nat list"
    by (induction ds arbitrary: a) simp_all
  then show ?thesis by (simp add: dot_head_def load_as_float_def)
qed

lemma axpy_exact:
  assumes "length acc = n" and "\<forall>d<n. acc ! d = Fin (a d)"
    and "\<And>d. load_as_float (exact_arith sz parse val bk) mem ptr d = Fin (x d)"
  shows "axpy_head (exact_arith sz parse val bk) mem acc ptr (Fin w) n = map (\<lambda>d. Fin (a d + w * x d)) [0..<n]"
  using assms by (simp add: axpy_head_map)

text \<open>The reference's second loop, for scores \<open>s\<close>, values \<open>x\<close> and any finite maximum.\<close>

lemma value_loop_exact:
  assumes "length scores = c" and "\<forall>t<c. scores ! t = Fin (s t)"
    and "\<And>t d. load_as_float (exact_arith sz parse val bk) mem (ptr t) d = Fin (x t d)"
  shows "k \<le> c \<Longrightarrow> foldl (\<lambda>st t. value_step (exact_arith sz parse val bk) mem n scores (Fin M) st t (ptr t))
      (Fin 0, replicate n (Fin 0)) [0..<k]
    = (Fin (\<Sum>t<k. exp (s t - M)), map (\<lambda>d. Fin (\<Sum>t<k. exp (s t - M) * x t d)) [0..<n])"
proof (induction k)
  case 0
  then show ?case by (simp add: map_replicate_const)
next
  case (Suc k)
  let ?acc = "map (\<lambda>d. Fin (\<Sum>t<k. exp (s t - M) * x t d)) [0..<n]"
  have "axpy_head (exact_arith sz parse val bk) mem ?acc (ptr k) (Fin (exp (s k - M))) n
      = map (\<lambda>d. Fin ((\<Sum>t<k. exp (s t - M) * x t d) + exp (s k - M) * x k d)) [0..<n]"
    by (rule axpy_exact) (use assms(3) in simp_all)
  then show ?case using Suc assms(2) by (simp add: value_step_def Let_def)
qed

text \<open>The reference's first loop: the scores, and their running maximum.\<close>

lemma score_loop_exact:
  assumes "\<And>t. xop (*) (dot_head (exact_arith sz parse val bk) mem query qbase (key t) n) scale = Fin (s t)"
  shows "k \<le> c \<Longrightarrow> \<exists>scores. foldl (\<lambda>st t. score_step (exact_arith sz parse val bk) mem query qbase scale n st t (key t))
      (replicate c (Fin 0), NegInf) [0..<k]
    = (scores, foldl (fl_max (exact_arith sz parse val bk)) NegInf (map (\<lambda>t. Fin (s t)) [0..<k]))
    \<and> length scores = c \<and> (\<forall>t<k. scores ! t = Fin (s t))"
proof (induction k)
  case (Suc k)
  then obtain scores where "foldl (\<lambda>st t. score_step (exact_arith sz parse val bk) mem query qbase scale n st t (key t))
      (replicate c (Fin 0), NegInf) [0..<k]
    = (scores, foldl (fl_max (exact_arith sz parse val bk)) NegInf (map (\<lambda>t. Fin (s t)) [0..<k]))"
    "length scores = c" "\<forall>t<k. scores ! t = Fin (s t)" by auto
  then show ?case using assms Suc.prems by (auto simp: score_step_def Let_def less_Suc_eq nth_list_update)
qed simp

lemma online_step_exact:
  assumes "gs_max gs = Fin M" and "gs_denom gs = Fin D" and "D \<noteq> 0"
    and "xop (*) scale (dot_head (exact_arith sz parse val bk) mem query qbase key n) = Fin score"
    and "max M score = N"
    and "(if Fin M \<noteq> Fin N then scale_head (exact_arith sz parse val bk) (gs_acc gs) (Fin (exp (M - N))) n else gs_acc gs) = acc"
  shows "online_step (exact_arith sz parse val bk) mem query scale n key ptr qbase gs
    = gs\<lparr>gs_max := Fin N, gs_denom := Fin (D * exp (M - N) + exp (score - N)),
         gs_acc := axpy_head (exact_arith sz parse val bk) mem acc ptr (Fin (exp (score - N))) n\<rparr>"
  using assms(1-5) unfolding assms(6) [symmetric] by (simp add: online_step_def Let_def)

text \<open>The online loop: after every token the sums the reference has for the maximum so far.\<close>

lemma online_loop_exact:
  assumes sc: "\<And>t. xop (*) scale (dot_head (exact_arith sz parse val bk) mem query qbase (key t) n) = Fin (s t)"
    and x: "\<And>t d. load_as_float (exact_arith sz parse val bk) mem (ptr t) d = Fin (x t d)"
    and start: "gs_max gs = NegInf" "gs_denom gs = Fin 0" "gs_acc gs = replicate n (Fin 0)"
  shows "\<exists>M. foldl (fl_max (exact_arith sz parse val bk)) NegInf (map (\<lambda>t. Fin (s t)) [0..<Suc k]) = Fin M
    \<and> foldl (\<lambda>gs t. online_step (exact_arith sz parse val bk) mem query scale n (key t) (ptr t) qbase gs) gs [0..<Suc k]
      = gs\<lparr>gs_max := Fin M, gs_denom := Fin (\<Sum>t<Suc k. exp (s t - M)),
           gs_acc := map (\<lambda>d. Fin (\<Sum>t<Suc k. exp (s t - M) * x t d)) [0..<n]\<rparr>"
proof (induction k)
  case 0
  have "axpy_head (exact_arith sz parse val bk) mem (replicate n (Fin 0)) (ptr 0) (Fin 1) n = map (\<lambda>d. Fin (0 + 1 * x 0 d)) [0..<n]"
    by (rule axpy_exact) (use x in simp_all)
  then show ?case using start sc by (simp add: online_step_def Let_def)
next
  case (Suc k)
  let ?A = "exact_arith sz parse val bk"
  obtain M where M: "foldl (fl_max ?A) NegInf (map (\<lambda>t. Fin (s t)) [0..<Suc k]) = Fin M"
    and st: "foldl (\<lambda>gs t. online_step ?A mem query scale n (key t) (ptr t) qbase gs) gs [0..<Suc k]
      = gs\<lparr>gs_max := Fin M, gs_denom := Fin (\<Sum>t<Suc k. exp (s t - M)),
           gs_acc := map (\<lambda>d. Fin (\<Sum>t<Suc k. exp (s t - M) * x t d)) [0..<n]\<rparr>"
    using Suc by blast
  let ?N = "max M (s (Suc k))" and ?r = "exp (M - max M (s (Suc k)))" and ?w = "exp (s (Suc k) - max M (s (Suc k)))"
  have shift: "(\<Sum>t<Suc k. exp (s t - M) * y t) * ?r = (\<Sum>t<Suc k. exp (s t - ?N) * y t)" for y
  proof -
    have "exp (s t - M) * y t * ?r = exp (s t - ?N) * y t" for t
    proof -
      have "exp (s t - M) * ?r = exp (s t - ?N)" unfolding exp_add [symmetric] by simp
      then show ?thesis by (metis mult.assoc mult.commute)
    qed
    then show ?thesis by (simp only: sum_distrib_right)
  qed
  let ?acc = "\<lambda>d. (\<Sum>t<Suc k. exp (s t - ?N) * x t d)"
  have pos: "(\<Sum>t<Suc k. exp (s t - M)) \<noteq> 0"
  proof -
    have "0 < (\<Sum>t<Suc k. exp (s t - M))" by (rule sum_pos) (simp_all add: lessThan_empty_iff)
    then show ?thesis by (rule less_imp_neq [THEN not_sym])
  qed
  have scaled: "(if Fin M \<noteq> Fin ?N then scale_head ?A (map (\<lambda>d. Fin (\<Sum>t<Suc k. exp (s t - M) * x t d)) [0..<n]) (Fin ?r) n
        else map (\<lambda>d. Fin (\<Sum>t<Suc k. exp (s t - M) * x t d)) [0..<n]) = map (\<lambda>d. Fin (?acc d)) [0..<n]"
  proof (cases "M = ?N")
    case False
    then show ?thesis using shift [of "\<lambda>t. x t _"] by (simp add: scale_head_map del: sum.lessThan_Suc)
  qed auto
  have ax: "axpy_head ?A mem (map (\<lambda>d. Fin (?acc d)) [0..<n]) (ptr (Suc k)) (Fin ?w) n
      = map (\<lambda>d. Fin (?acc d + ?w * x (Suc k) d)) [0..<n]"
    by (rule axpy_exact) (use x in simp_all)
  let ?D = "\<Sum>t<Suc k. exp (s t - M)"
  let ?gs = "gs\<lparr>gs_max := Fin M, gs_denom := Fin ?D,
      gs_acc := map (\<lambda>d. Fin (\<Sum>t<Suc k. exp (s t - M) * x t d)) [0..<n]\<rparr>"
  have old: "gs_max ?gs = Fin M" "gs_denom ?gs = Fin ?D"
    "gs_acc ?gs = map (\<lambda>d. Fin (\<Sum>t<Suc k. exp (s t - M) * x t d)) [0..<n]" by simp_all
  have "?D * ?r = (\<Sum>t<Suc k. exp (s t - ?N))" using shift [of "\<lambda>_. 1"] by simp
  moreover have "online_step ?A mem query scale n (key (Suc k)) (ptr (Suc k)) qbase ?gs
      = ?gs\<lparr>gs_max := Fin ?N, gs_denom := Fin (?D * ?r + ?w),
           gs_acc := axpy_head ?A mem (map (\<lambda>d. Fin (?acc d)) [0..<n]) (ptr (Suc k)) (Fin ?w) n\<rparr>"
    by (rule online_step_exact [OF old(1,2) pos sc refl]) (unfold old(3), rule scaled)
  ultimately have "online_step ?A mem query scale n (key (Suc k)) (ptr (Suc k)) qbase ?gs
      = gs\<lparr>gs_max := Fin ?N, gs_denom := Fin ((\<Sum>t<Suc k. exp (s t - ?N)) + ?w),
           gs_acc := map (\<lambda>d. Fin (?acc d + ?w * x (Suc k) d)) [0..<n]\<rparr>"
    unfolding ax by (simp del: sum.lessThan_Suc)
  then show ?case
    using M st by (intro exI [of _ ?N]) simp
qed

text \<open>One query head: what the online kernel writes is what the reference writes.\<close>

lemma online_row:
  fixes parse :: "u8 list \<Rightarrow> 'e" and val :: "'e \<Rightarrow> real" and bk :: "xreal \<Rightarrow> 'e" and sz :: u64
    and mem :: "u8 list" and query :: "'e list" and n qbase :: nat and key ptr :: "nat \<Rightarrow> u64"
  assumes c: "0 < c" and scale: "scale = Fin sc"
  defines "A \<equiv> exact_arith sz parse val bk"
  defines "gs \<equiv> foldl (\<lambda>gs t. online_step A mem query scale n (key t) (ptr t) qbase gs) (fresh_group A True n c) [0..<c]"
  shows "write_group A n out base gs =
    (case foldl (\<lambda>st t. score_step A mem query qbase scale n st t (key t)) (replicate c (Fin 0), NegInf) [0..<c] of
       (scores, mx) \<Rightarrow> (case foldl (\<lambda>st t. value_step A mem n scores mx st t (ptr t)) (Fin 0, replicate n (Fin 0)) [0..<c] of
         (den, acc) \<Rightarrow> write_head A out base acc den n))"
proof -
  obtain k where k: "c = Suc k" using c by (cases c) auto
  have "\<exists>s. \<forall>t. dot_head A mem query qbase (key t) n = Fin (s t)"
    unfolding A_def by (rule choice) (rule allI, rule dot_exact)
  then obtain dot where dot: "\<And>t. dot_head A mem query qbase (key t) n = Fin (dot t)" by blast
  define s where "s t = dot t * sc" for t
  have s1: "xop (*) (dot_head A mem query qbase (key t) n) scale = Fin (s t)"
    and s2: "xop (*) scale (dot_head A mem query qbase (key t) n) = Fin (s t)" for t
    by (simp_all add: dot scale s_def mult.commute)
  define x where "x t d = val (elem_at A mem (ptr t) d)" for t d
  have x: "load_as_float A mem (ptr t) d = Fin (x t d)" for t d by (simp add: load_as_float_def x_def A_def)
  have fresh: "gs_max (fresh_group A True n c) = NegInf" "gs_denom (fresh_group A True n c) = Fin 0"
    "gs_acc (fresh_group A True n c) = replicate n (Fin 0)" by (simp_all add: fresh_group_def A_def)
  obtain M where M: "foldl (fl_max A) NegInf (map (\<lambda>t. Fin (s t)) [0..<c]) = Fin M"
    and gs: "gs = (fresh_group A True n c)\<lparr>gs_max := Fin M, gs_denom := Fin (\<Sum>t<c. exp (s t - M)),
           gs_acc := map (\<lambda>d. Fin (\<Sum>t<c. exp (s t - M) * x t d)) [0..<n]\<rparr>"
    using online_loop_exact [where key = key and ptr = ptr and s = s and x = x and k = k,
        OF s2 [unfolded A_def] x [unfolded A_def] fresh [unfolded A_def]]
    unfolding gs_def k A_def by blast
  obtain scores where sc: "foldl (\<lambda>st t. score_step A mem query qbase scale n st t (key t)) (replicate c (Fin 0), NegInf) [0..<c]
      = (scores, Fin M)" "length scores = c" "\<forall>t<c. scores ! t = Fin (s t)"
    using score_loop_exact [where key = key and s = s and k = c and c = c, OF s1 [unfolded A_def]] M unfolding A_def by auto
  have va: "foldl (\<lambda>st t. value_step A mem n scores (Fin M) st t (ptr t)) (Fin 0, replicate n (Fin 0)) [0..<c]
      = (Fin (\<Sum>t<c. exp (s t - M)), map (\<lambda>d. Fin (\<Sum>t<c. exp (s t - M) * x t d)) [0..<n])"
    unfolding A_def by (rule value_loop_exact [where ptr = ptr and x = x, OF sc(2,3) x [unfolded A_def] order_refl])
  have "write_group A n out base gs = write_head A out base (gs_acc gs) (gs_denom gs) n"
    unfolding write_group_def write_head_def Let_def gs
    by (intro foldl_cong) (simp_all add: A_def)
  then show ?thesis by (simp add: sc(1) va gs)
qed

lemma decode_fast_eq:
  assumes ctx: "context_ok v params" and scale: "pa_scale params = Fin sc"
  shows "paged_attention_decode_fast (exact_arith sz parse val bk) v query params out
    = paged_attention_decode (exact_arith sz parse val bk) v query params out"
  unfolding paged_attention_decode_fast_def
proof (rule decode_opt_eq [OF ctx])
  let ?A = "exact_arith sz parse val bk"
  fix frames keys vals and p :: "KVStream \<Rightarrow> nat \<Rightarrow> u64" and kv
  let ?G = "unat (pa_num_query_heads params div num_kv_heads (kvl_shape (view_layout v)))"
  let ?c = "unat (pa_context_len params)" and ?tpb = "tokens_per_block (kvl_shape (view_layout v))"
  let ?n = "unat (head_dim (kvl_shape (view_layout v)))" and ?mem = "pool (the (view_allocator v))"
  let ?q = "the query" and ?start = "fresh_group ?A True (unat (head_dim (kvl_shape (view_layout v)))) (unat (pa_context_len params))"
  assume ok: "args_ok ?A v query params out"
    and ptr: "\<And>stream t. t < ?c \<Longrightarrow> vector_ptr ?A v (pa_layer params) (frames ! (t div unat ?tpb)) stream
           (of_nat t mod ?tpb) (of_nat kv) = Some (p stream t)"
    and keys: "\<And>t. t < ?c \<Longrightarrow> keys ! (kv * ?c + t) = p Key t"
    and vals: "\<And>t. t < ?c \<Longrightarrow> vals ! (kv * ?c + t) = p Value t"
  have tpb: "?tpb \<noteq> 0" using valid_shape args_okD(1) [OF ok] by blast
  have room: "?c + unat ?tpb \<le> 4294967296" using ctx by (simp add: context_ok_def split: option.splits)
  have c0: "0 < ?c" using args_okD(3) [OF ok] by (simp add: unat_gt_0)
  let ?both = "\<lambda>base token. case (vector_ptr ?A v (pa_layer params) base Key token (of_nat kv),
      vector_ptr ?A v (pa_layer params) base Value token (of_nat kv)) of (Some key, Some vl) \<Rightarrow> Some (key, vl) | _ \<Rightarrow> None"
  let ?row = "\<lambda>g. foldl (\<lambda>r t. online_step ?A ?mem ?q (pa_scale params) ?n (p Key t) (p Value t) ((kv * ?G + g) * ?n) r) ?start [0..<?c]"
  have "block_loop v params frames ?both step start = Some (foldl (\<lambda>s t. step s t (p Key t, p Value t)) start [0..<?c])"
    for step and start :: "xreal group_state list"
    by (rule block_loop_all [OF tpb room]) (simp add: ptr)
  moreover have "foldl (\<lambda>rows t. over_groups ?G (\<lambda>g. online_step ?A ?mem ?q (pa_scale params) ?n (p Key t) (p Value t) ((kv * ?G + g) * ?n)) rows)
      (replicate ?G ?start) [0..<?c] = map ?row [0..<?G]"
    by (subst foldl_over_groups) simp_all
  ultimately have run: "opt_kv_head ?A True v ?q params frames kv = Some (map ?row [0..<?G])"
    unfolding opt_kv_head_def Let_def by simp
  have "write_group ?A ?n o' ((kv * ?G + g) * ?n) (?row g) = decode_head ?A ?mem ?q params ?n ?G keys vals o' (kv * ?G + g)"
    if g: "g < ?G" for g o'
  proof -
    have div: "(kv * ?G + g) div ?G = kv" using g by (rule group_div)
    let ?sc = "\<lambda>f. foldl (\<lambda>st t. score_step ?A ?mem ?q ((kv * ?G + g) * ?n) (pa_scale params) ?n st t (f t))
        (replicate ?c (Fin 0), NegInf) [0..<?c]"
    let ?va = "\<lambda>scores mx f. foldl (\<lambda>st t. value_step ?A ?mem ?n scores mx st t (f t)) (Fin 0, replicate ?n (Fin 0)) [0..<?c]"
    have k: "?sc (\<lambda>t. keys ! (kv * ?c + t)) = ?sc (p Key)" using keys by (intro foldl_cong) auto
    have w: "?va scores mx (\<lambda>t. vals ! (kv * ?c + t)) = ?va scores mx (p Value)" for scores mx
      using vals by (intro foldl_cong) auto
    show ?thesis
      unfolding online_row [OF c0 scale] by (simp add: decode_head_def Let_def div k w)
  qed
  then show "\<exists>rows. opt_kv_head ?A True v ?q params frames kv = Some rows
      \<and> (\<forall>g<?G. \<forall>o'. write_group ?A ?n o' ((kv * ?G + g) * ?n) (rows ! g)
          = decode_head ?A ?mem ?q params ?n ?G keys vals o' (kv * ?G + g))"
    using run by simp
qed

end
