(* ===== verification/TraceReplay.thy ===== *)
theory TraceReplay
  imports CacheView Scheduler
begin

text \<open>
  The replay driver of \<^verbatim>\<open>tools/trace_replay/TraceReplay.h\<close> and \<^verbatim>\<open>TraceReplay.cpp\<close>: the data of a trace
  and of a run, the driver's helpers on the cache manager, and the contiguous baseline
  \<^verbatim>\<open>run_contiguous\<close>, a first-fit allocator of block runs with its admission and decode loops. All
  counters keep their width. The loops are recursive functions; the outer one is bounded by
  \<^verbatim>\<open>max_steps\<close>, the admission loop by the requests left, the decode loop by the active list.

  The trace file is read in \<open>TraceFile\<close>; the CSV output, the command line and the ratio \<^verbatim>\<open>utilization\<close> are in
  \<open>ReplayTool\<close>.
\<close>

section \<open>Data\<close>

record TraceHeader =
  th_model :: string
  th_mix :: string
  th_dimension_source :: string
  th_pixel_budget :: string
  th_seed :: u64
  th_num_requests :: u32
  th_num_layers :: u32
  th_num_kv_heads :: u32
  th_head_dim :: u32
  th_bytes_per_element :: u32
  th_max_prompt_tokens :: u32
  th_max_decode_budget :: u32
  th_visual_tokens_max :: u32
  th_images_total :: u32

record TraceImage =
  grid_t :: u32
  grid_h :: u32
  grid_w :: u32
  visual_tokens :: u32

record TraceRequest =
  tr_request_id :: RequestId
  arrival_us :: u64
  text_tokens :: u32
  tr_prompt_tokens :: u32
  decode_budget :: u32
  decode_actual :: u32
  tr_num_parallel_samples :: u32
  tr_prefix_key :: string
  images :: "TraceImage list"
  tr_multimodal_spans :: "MultimodalSpan list"
  tr_positional_encoding :: PositionalEncodingMetadata

record Trace =
  header :: TraceHeader
  requests :: "TraceRequest list"

record ReplayConfig =
  rc_tokens_per_block :: u32
  rc_max_blocks :: u32
  rc_max_active_requests :: u32
  rc_max_batch_tokens :: u32
  rc_preemption_watermark_blocks :: u32
  swap_slots :: u32
  rc_size_aware_admission :: bool
  rc_admission_skip_limit :: u32
  prefix_caching :: bool
  baseline_max_context :: u32
  max_steps :: u64

record ReplayMetrics =
  mode :: string
  steps :: u64
  requests_completed :: u32
  requests_admitted :: u32
  tokens_decoded :: u64
  peak_blocks_in_use :: u32
  peak_bytes_in_use :: u64
  peak_active_requests :: u32
  reserved_token_slots :: u64
  committed_tokens :: u64
  preemptions :: u64
  resumes :: u64
  failed_resumes :: u64
  swapped_blocks_out :: u64
  forks :: u64
  cow_events :: u64
  prefix_hits :: u64
  prefix_blocks_saved :: u64
  p99_ttft_cost :: u64
  head_of_line_stall_steps :: u64
  fragmentation_failures :: u64
  requests_never_admissible :: u32
  max_partial_block_slack :: u32
  rm_completed :: bool
  leak_free :: bool

definition fresh_metrics :: "string \<Rightarrow> ReplayMetrics" where
  "fresh_metrics name =
     \<lparr>mode = name, steps = 0, requests_completed = 0, requests_admitted = 0, tokens_decoded = 0,
      peak_blocks_in_use = 0, peak_bytes_in_use = 0, peak_active_requests = 0, reserved_token_slots = 0,
      committed_tokens = 0, preemptions = 0, resumes = 0, failed_resumes = 0, swapped_blocks_out = 0,
      forks = 0, cow_events = 0, prefix_hits = 0, prefix_blocks_saved = 0, p99_ttft_cost = 0,
      head_of_line_stall_steps = 0, fragmentation_failures = 0, requests_never_admissible = 0,
      max_partial_block_slack = 0, rm_completed = False, leak_free = False\<rparr>"

section \<open>Helpers\<close>

definition ceil_div :: "u32 \<Rightarrow> u32 \<Rightarrow> u32" where
  "ceil_div n divisor = (if divisor = 0 then 0 else (n + divisor - 1) div divisor)"

definition kind_from_string :: "string \<Rightarrow> PositionEncodingKind" where
  "kind_from_string name = (if name = ''image'' then Image2D else if name = ''video'' then Video3D else Text1D)"

text \<open>Makes the block of a position writable and counts the copy this took.\<close>

definition touch_position ::
    "KVCacheManager \<Rightarrow> SequenceId \<Rightarrow> TokenPosition \<Rightarrow> u32 \<Rightarrow> ReplayMetrics \<Rightarrow> KVCacheManager \<times> ReplayMetrics" where
  "touch_position kv sid position tpb metrics =
     (case cache_view kv sid TextKV of
        None \<Rightarrow> (kv, metrics)
      | Some view \<Rightarrow>
          (case view_block_table view of
             None \<Rightarrow> (kv, metrics)
           | Some t \<Rightarrow>
               (let old_frame = bt_lookup t (position div tpb);
                    (new_frame, kv) = ensure_token_writable kv sid position TextKV 0
                in (kv, if old_frame \<noteq> None \<and> new_frame \<noteq> None \<and> old_frame \<noteq> new_frame
                        then metrics\<lparr>cow_events := cow_events metrics + 1\<rparr> else metrics))))"

definition ensure_capacity :: "KVCacheManager \<Rightarrow> SequenceId \<Rightarrow> TokenPosition \<Rightarrow> u32 \<Rightarrow> bool \<times> KVCacheManager" where
  "ensure_capacity kv sid position tpb =
     (case cache_view kv sid TextKV of
        None \<Rightarrow> (False, kv)
      | Some view \<Rightarrow>
          (case view_block_table view of
             None \<Rightarrow> (False, kv)
           | Some t \<Rightarrow>
               if unat (position div tpb) < bt_size t then (True, kv) else reserve_tokens kv sid 1))"

definition reserved_slots :: "KVCacheManager \<Rightarrow> SequenceId \<Rightarrow> u32 \<Rightarrow> u32" where
  "reserved_slots kv sid tpb =
     (case cache_view kv sid TextKV of
        None \<Rightarrow> 0
      | Some view \<Rightarrow>
          (case view_block_table view of None \<Rightarrow> 0 | Some t \<Rightarrow> of_nat (bt_size t) * tpb))"

definition suggested_pool_blocks :: "Trace \<Rightarrow> ReplayConfig \<Rightarrow> u32" where
  "suggested_pool_blocks trace cfg =
     foldl (\<lambda>worst r.
         let branches = max 1 (tr_num_parallel_samples r);
             prompt_blocks = ceil_div (tr_prompt_tokens r) (rc_tokens_per_block cfg);
             branch_blocks = ceil_div (decode_budget r) (rc_tokens_per_block cfg) + 2
         in max worst (prompt_blocks + branches * branch_blocks)) 0 (requests trace)
     * max 1 (rc_max_active_requests cfg)"

section \<open>The contiguous baseline\<close>

record Reservation =
  rv_index :: nat
  start_block :: u32
  block_count :: u32
  rv_committed :: u32
  rv_decoded :: u32

record Baseline =
  used :: "bool list"
  blocks_in_use :: u32
  bl_active :: "Reservation list"
  next_pending :: nat
  completed_count :: nat
  metrics :: ReplayMetrics

definition request_blocks :: "ReplayConfig \<Rightarrow> TraceRequest \<Rightarrow> u32" where
  "request_blocks cfg r =
     ceil_div (min (baseline_max_context cfg) (tr_prompt_tokens r + decode_budget r)) (rc_tokens_per_block cfg)"

definition servable :: "ReplayConfig \<Rightarrow> TraceRequest \<Rightarrow> bool" where
  "servable cfg r \<longleftrightarrow>
     \<not> (tr_prompt_tokens r + decode_budget r > baseline_max_context cfg
        \<or> request_blocks cfg r > rc_max_blocks cfg)"

text \<open>\<^verbatim>\<open>first_fit\<close>: the loop over the blocks from \<open>block\<close> on, with the free run that ends there.\<close>

fun first_fit_from :: "bool list \<Rightarrow> u32 \<Rightarrow> u32 \<Rightarrow> u32 \<Rightarrow> u32 option" where
  "first_fit_from [] needed block run = None"
| "first_fit_from (u # us) needed block run =
     (let run = (if u then 0 else run + 1) in
      if run = needed then Some (block + 1 - needed) else first_fit_from us needed (block + 1) run)"

definition first_fit :: "bool list \<Rightarrow> u32 \<Rightarrow> u32 option" where
  "first_fit us needed = first_fit_from us needed 0 0"

text \<open>Setting the flags of a run of blocks.\<close>

definition mark_run :: "bool list \<Rightarrow> u32 \<Rightarrow> u32 \<Rightarrow> bool \<Rightarrow> bool list" where
  "mark_run us start n b = foldl (\<lambda>us i. us[unat (start + of_nat i) := b]) us [0..<unat n]"

text \<open>One iteration of the admission loop: whether it goes on, and whether it made progress.\<close>

definition baseline_admit_once :: "Trace \<Rightarrow> ReplayConfig \<Rightarrow> Baseline \<Rightarrow> bool \<times> Baseline" where
  "baseline_admit_once trace cfg s =
     (let r = requests trace ! next_pending s in
      if \<not> servable cfg r
      then (True, s\<lparr>next_pending := next_pending s + 1, completed_count := completed_count s + 1\<rparr>)
      else
        let needed = request_blocks cfg r in
        case first_fit (used s) needed of
          None \<Rightarrow>
            (False,
             if rc_max_blocks cfg - blocks_in_use s \<ge> needed
             then s\<lparr>metrics := (metrics s)\<lparr>fragmentation_failures := fragmentation_failures (metrics s) + 1\<rparr>\<rparr>
             else s)
        | Some start \<Rightarrow>
            (True,
             s\<lparr>used := mark_run (used s) start needed True, blocks_in_use := blocks_in_use s + needed,
               bl_active := bl_active s @ [\<lparr>rv_index = next_pending s, start_block = start, block_count = needed,
                                           rv_committed = tr_prompt_tokens r, rv_decoded = 0\<rparr>],
               metrics := (metrics s)\<lparr>requests_admitted := requests_admitted (metrics s) + 1\<rparr>,
               next_pending := next_pending s + 1\<rparr>))"

lemma baseline_admit_once_next:
  "baseline_admit_once trace cfg s = (True, s') \<Longrightarrow> next_pending s' = Suc (next_pending s)"
  by (auto simp: baseline_admit_once_def Let_def split: if_splits option.splits)

function baseline_admit :: "Trace \<Rightarrow> ReplayConfig \<Rightarrow> Baseline \<Rightarrow> bool \<Rightarrow> Baseline \<times> bool" where
  "baseline_admit trace cfg s progress =
     (if next_pending s < length (requests trace) \<and> length (bl_active s) < unat (rc_max_active_requests cfg)
      then
        (case baseline_admit_once trace cfg s of
           (False, s') \<Rightarrow> (s', progress)
         | (True, s') \<Rightarrow> baseline_admit trace cfg s' True)
      else (s, progress))"
  by pat_completeness auto
termination
  by (relation "measure (\<lambda>(trace, _, s, _). length (requests trace) - next_pending s)")
    (auto dest: baseline_admit_once_next [OF sym])

declare baseline_admit.simps [simp del]

text \<open>The decode loop: a finished reservation is replaced by the last one.\<close>

function baseline_decode :: "Trace \<Rightarrow> nat \<Rightarrow> Baseline \<Rightarrow> bool \<Rightarrow> Baseline \<times> bool" where
  "baseline_decode trace i s progress =
     (if i < length (bl_active s)
      then
        let r = (bl_active s ! i)\<lparr>rv_committed := rv_committed (bl_active s ! i) + 1,
                                 rv_decoded := rv_decoded (bl_active s ! i) + 1\<rparr>;
            active = (bl_active s)[i := r];
            s = s\<lparr>bl_active := active,
                  metrics := (metrics s)\<lparr>tokens_decoded := tokens_decoded (metrics s) + 1\<rparr>\<rparr>
        in if rv_decoded r \<ge> decode_actual (requests trace ! rv_index r)
           then baseline_decode trace i
                  (s\<lparr>used := mark_run (used s) (start_block r) (block_count r) False,
                     blocks_in_use := blocks_in_use s - block_count r,
                     bl_active := butlast (active[i := last active]),
                     completed_count := completed_count s + 1\<rparr>) True
           else baseline_decode trace (Suc i) s True
      else (s, progress))"
  by pat_completeness auto
termination
  by (relation "measure (\<lambda>(_, i, s, _). length (bl_active s) - i)") (auto simp: Let_def)

declare baseline_decode.simps [simp del]

text \<open>The counters at the end of a step.\<close>

definition slack_step :: "u32 \<Rightarrow> ReplayMetrics \<Rightarrow> Reservation \<Rightarrow> ReplayMetrics" where
  "slack_step tpb m r =
     (let m = m\<lparr>committed_tokens := committed_tokens m + ucast (rv_committed r)\<rparr>;
          reserved = block_count r * tpb
      in if reserved > rv_committed r
         then m\<lparr>max_partial_block_slack := max (max_partial_block_slack m) (reserved - rv_committed r)\<rparr> else m)"

definition baseline_account :: "Trace \<Rightarrow> ReplayConfig \<Rightarrow> u64 \<Rightarrow> nat \<Rightarrow> Baseline \<Rightarrow> Baseline" where
  "baseline_account trace cfg bytes admitted_before s =
     (let m = metrics s;
          m = (if next_pending s < length (requests trace) \<and> admitted_before = next_pending s
               then m\<lparr>head_of_line_stall_steps := head_of_line_stall_steps m + 1\<rparr> else m);
          m = m\<lparr>peak_active_requests := max (peak_active_requests m) (of_nat (length (bl_active s))),
                peak_blocks_in_use := max (peak_blocks_in_use m) (blocks_in_use s),
                peak_bytes_in_use := max (peak_bytes_in_use m) (ucast (blocks_in_use s) * bytes),
                reserved_token_slots := reserved_token_slots m
                  + ucast (blocks_in_use s) * ucast (rc_tokens_per_block cfg)\<rparr>
      in s\<lparr>metrics := foldl (slack_step (rc_tokens_per_block cfg)) m (bl_active s)\<rparr>)"

definition baseline_step :: "Trace \<Rightarrow> ReplayConfig \<Rightarrow> u64 \<Rightarrow> Baseline \<Rightarrow> Baseline \<times> bool" where
  "baseline_step trace cfg bytes s =
     (let s = s\<lparr>metrics := (metrics s)\<lparr>steps := steps (metrics s) + 1\<rparr>\<rparr>;
          admitted_before = next_pending s;
          (s, progress) = baseline_admit trace cfg s False;
          (s, progress) = baseline_decode trace 0 s progress
      in (baseline_account trace cfg bytes admitted_before s, progress))"

text \<open>Only the step itself counts steps, so the outer loop ends at \<^verbatim>\<open>max_steps\<close>.\<close>

lemma baseline_admit_steps: "steps (metrics (fst (baseline_admit trace cfg s p))) = steps (metrics s)"
proof (induction trace cfg s p rule: baseline_admit.induct)
  case (1 trace cfg s p)
  obtain ok s' where run: "baseline_admit_once trace cfg s = (ok, s')" by fastforce
  then have "steps (metrics s') = steps (metrics s)"
    by (auto simp: baseline_admit_once_def Let_def split: if_splits option.splits)
  then show ?case
    using 1 [OF _ run [symmetric]] run by (cases ok) (simp_all add: baseline_admit.simps [of trace cfg s])
qed

lemma baseline_decode_steps: "steps (metrics (fst (baseline_decode trace i s p))) = steps (metrics s)"
proof (induction trace i s p rule: baseline_decode.induct)
  case (1 trace i s p)
  show ?case
  proof (cases "i < length (bl_active s)")
    case False
    then show ?thesis by (simp add: baseline_decode.simps [of trace i s])
  next
    case True
    note IH = 1 [OF True refl refl refl]
    show ?thesis using IH True by (subst baseline_decode.simps) (simp add: Let_def)
  qed
qed

lemma slack_steps: "steps (foldl (slack_step tpb) m rs) = steps m"
  by (induction rs arbitrary: m) (simp_all add: slack_step_def Let_def)

lemma baseline_step_steps:
  "baseline_step trace cfg bytes s = (s', p) \<Longrightarrow> steps (metrics s') = steps (metrics s) + 1"
proof -
  assume run: "baseline_step trace cfg bytes s = (s', p)"
  let ?s = "s\<lparr>metrics := (metrics s)\<lparr>steps := steps (metrics s) + 1\<rparr>\<rparr>"
  obtain s1 p1 where a: "baseline_admit trace cfg ?s False = (s1, p1)" by fastforce
  obtain s2 p2 where d: "baseline_decode trace 0 s1 p1 = (s2, p2)" by fastforce
  have "steps (metrics s2) = steps (metrics s) + 1"
    using baseline_admit_steps [of trace cfg ?s False] baseline_decode_steps [of trace 0 s1 p1] a d by simp
  moreover have "steps (metrics s') = steps (metrics s2)"
    using run a d by (auto simp: baseline_step_def baseline_account_def Let_def slack_steps)
  ultimately show ?thesis by simp
qed

function baseline_loop :: "Trace \<Rightarrow> ReplayConfig \<Rightarrow> u64 \<Rightarrow> Baseline \<Rightarrow> Baseline" where
  "baseline_loop trace cfg bytes s =
     (if completed_count s < length (requests trace) \<and> steps (metrics s) < max_steps cfg
      then
        (case baseline_step trace cfg bytes s of
           (s', progress) \<Rightarrow> if \<not> progress then s' else baseline_loop trace cfg bytes s')
      else s)"
  by pat_completeness auto
termination
proof (relation "measure (\<lambda>(_, cfg, _, s). unat (max_steps cfg) - unat (steps (metrics s)))", goal_cases)
  case (2 trace cfg bytes s s' p)
  have "steps (metrics s') = steps (metrics s) + 1" 
    using baseline_step_steps [of trace cfg bytes s s' p] 2(2) by simp
  then show ?case using 2(1) unat_step_u64 [of "steps (metrics s)" "max_steps cfg"] by simp
qed simp

declare baseline_loop.simps [simp del]

definition baseline_start :: "Trace \<Rightarrow> ReplayConfig \<Rightarrow> Baseline" where
  "baseline_start trace cfg =
     \<lparr>used = replicate (unat (rc_max_blocks cfg)) False, blocks_in_use = 0, bl_active = [],
      next_pending = 0, completed_count = 0,
      metrics = (fresh_metrics ''contiguous'')
        \<lparr>requests_never_admissible := of_nat (length (filter (\<lambda>r. \<not> servable cfg r) (requests trace)))\<rparr>\<rparr>"

definition run_contiguous :: "Trace \<Rightarrow> ReplayConfig \<Rightarrow> ReplayMetrics" where
  "run_contiguous trace cfg =
     (let bytes = byte_size \<lparr>tokens_per_block = rc_tokens_per_block cfg, num_layers = th_num_layers (header trace),
            num_kv_heads = th_num_kv_heads (header trace), head_dim = th_head_dim (header trace),
            bytes_per_element = th_bytes_per_element (header trace), layers_per_frame = 0\<rparr>;
          s = baseline_loop trace cfg bytes (baseline_start trace cfg)
      in (metrics s)\<lparr>requests_completed := of_nat (completed_count s),
                     rm_completed := (completed_count s = length (requests trace)),
                     leak_free := (blocks_in_use s = 0)\<rparr>)"

end
