(* ===== verification/ReplayProps.thy ===== *)
theory ReplayProps
  imports TraceReplay
begin

text \<open>
  The contiguous baseline is a correct allocator: first fit returns the leftmost free run of the
  requested length and misses none, the reservations of the active requests never overlap, the
  flags and the counter of used blocks are exactly theirs, and a run that serves every request ends
  with every block free.
\<close>

section \<open>First fit\<close>

definition run_free :: "bool list \<Rightarrow> nat \<Rightarrow> nat \<Rightarrow> bool" where
  "run_free us n i \<longleftrightarrow> i + n \<le> length us \<and> (\<forall>j. i \<le> j \<and> j < i + n \<longrightarrow> \<not> us ! j)"

text \<open>The leftmost free run, or none when there is none.\<close>

definition fit_ok :: "bool list \<Rightarrow> nat \<Rightarrow> u32 option \<Rightarrow> bool" where
  "fit_ok us n found =
     (case found of
        None \<Rightarrow> \<forall>i. \<not> run_free us n i
      | Some i \<Rightarrow> run_free us n (unat i) \<and> (\<forall>j<unat i. \<not> run_free us n j))"

text \<open>What the loop knows when it reaches a block: the free run that ends before it is maximal and
  too short, and no run of the requested length ends before it.\<close>

definition fit_inv :: "bool list \<Rightarrow> nat \<Rightarrow> nat \<Rightarrow> bool" where
  "fit_inv pre n r \<longleftrightarrow>
     r \<le> length pre \<and> r < n \<and> (\<forall>j. length pre - r \<le> j \<and> j < length pre \<longrightarrow> \<not> pre ! j)
     \<and> (r < length pre \<longrightarrow> pre ! (length pre - r - 1)) \<and> (\<forall>i. \<not> run_free pre n i)"

lemma fit_inv_used: "fit_inv pre n r \<Longrightarrow> fit_inv (pre @ [True]) n 0"
proof -
  assume inv: "fit_inv pre n r"
  have "\<not> run_free (pre @ [True]) n i" for i
  proof
    assume free: "run_free (pre @ [True]) n i"
    show False
    proof (cases "i + n \<le> length pre")
      case True
      then have "run_free pre n i" using free by (auto simp: run_free_def nth_append)
      then show False using inv by (simp add: fit_inv_def)
    next
      case False
      then have "i \<le> length pre \<and> length pre < i + n"
        using free inv by (auto simp: run_free_def fit_inv_def)
      then show False using free by (fastforce simp: run_free_def nth_append)
    qed
  qed
  then show ?thesis using inv by (auto simp: fit_inv_def)
qed

lemma fit_inv_free:
  assumes inv: "fit_inv pre n r" and short: "Suc r \<noteq> n"
  shows "fit_inv (pre @ [False]) n (Suc r)"
proof -
  have "\<not> run_free (pre @ [False]) n i" for i
  proof
    assume free: "run_free (pre @ [False]) n i"
    show False
    proof (cases "i + n \<le> length pre")
      case True
      then have "run_free pre n i" using free by (auto simp: run_free_def nth_append)
      then show False using inv by (simp add: fit_inv_def)
    next
      case False
      then have eq: "i + n = Suc (length pre)" using free by (simp add: run_free_def)
      then have "r < length pre" using inv short by (simp add: fit_inv_def)
      then have at: "pre ! (length pre - r - 1)" using inv by (simp add: fit_inv_def)
      have "r < n" using inv by (simp add: fit_inv_def)
      then have "i \<le> length pre - r - 1" using short eq by linarith
      moreover have lt: "length pre - r - 1 < i + n" "length pre - r - 1 < length pre" using eq \<open>r < length pre\<close> by linarith+
      ultimately have "\<not> (pre @ [False]) ! (length pre - r - 1)" using free by (simp add: run_free_def)
      then show False using at lt(2) by (metis nth_append)
    qed
  qed
  then show ?thesis using inv short by (auto simp: fit_inv_def nth_append Suc_diff_le)
qed

lemma first_fit_from_correct:
  assumes "length (pre @ us) < 4294967296" and "fit_inv pre (unat n) (unat r)" and "unat b = length pre"
  shows "fit_ok (pre @ us) (unat n) (first_fit_from us n b r)"
  using assms
proof (induction us arbitrary: pre b r)
  case Nil
  then show ?case by (simp add: fit_inv_def fit_ok_def)
next
  case (Cons u us)
  have b1: "unat (b + 1) = length (pre @ [u])" using Cons.prems by (simp add: unat_inc_u32)
  have n0: "0 < unat n" and rn: "unat r < unat n" using Cons.prems(2) by (auto simp: fit_inv_def)
  show ?case
  proof (cases u)
    case True
    have "n \<noteq> 0" using n0 by auto
    then show ?thesis
      using Cons.IH [of "pre @ [True]" 0 "b + 1"] Cons.prems(1) fit_inv_used [OF Cons.prems(2)] b1 True by simp
  next
    case False
    have r1: "unat (r + 1) = Suc (unat r)"
      using Cons.prems by (simp add: unat_inc_u32 fit_inv_def)
    show ?thesis
    proof (cases "r + 1 = n")
      case hit: True
      have n: "unat n = Suc (unat r)" using r1 hit by simp
      have le: "unat n \<le> length (pre @ [u])" using Cons.prems(2) n by (simp add: fit_inv_def)
      have start: "unat (b + 1 - n) = length (pre @ [u]) - unat n"
        using b1 le by (simp add: unat_sub word_le_nat_alt)
      have "run_free (pre @ u # us) (unat n) (length (pre @ [u]) - unat n)"
        using Cons.prems(2) False n le by (auto simp: run_free_def fit_inv_def nth_append nth_Cons')
      moreover have "\<not> run_free (pre @ u # us) (unat n) j" if "j < length (pre @ [u]) - unat n" for j
      proof
        assume "run_free (pre @ u # us) (unat n) j"
        moreover have inside: "j + unat n \<le> length pre" using that by simp
        ultimately have "\<not> pre ! k" if "j \<le> k" "k < j + unat n" for k
          using that less_le_trans [OF that(2) inside] by (auto simp: run_free_def nth_append dest!: spec [of _ k])
        then have "run_free pre (unat n) j" using that by (simp add: run_free_def)
        then show False using Cons.prems(2) by (simp add: fit_inv_def)
      qed
      ultimately show ?thesis using hit False start by (simp add: fit_ok_def)
    next
      case miss: False
      then have "Suc (unat r) \<noteq> unat n" using r1 by (metis word_unat_eq_iff)
      from Cons.IH [of "pre @ [False]" "r + 1" "b + 1"] Cons.prems(1) fit_inv_free [OF Cons.prems(2) this] b1 r1 False
      show ?thesis using miss by simp
    qed
  qed
qed

lemma first_fit_correct:
  assumes "length us < 4294967296" and "n \<noteq> 0"
  shows "fit_ok us (unat n) (first_fit us n)"
proof -
  have "fit_inv [] (unat n) 0" using assms(2) by (auto simp: fit_inv_def run_free_def unat_gt_0)
  then show ?thesis
    using first_fit_from_correct [of "[]" us n 0 0] assms(1) by (simp add: first_fit_def)
qed

text \<open>For zero blocks the comparison only succeeds where a used block has reset the run.\<close>

lemma first_fit_from_zero:
  "unat run + length us < 4294967296 \<Longrightarrow> first_fit_from us 0 block run = None \<longleftrightarrow> True \<notin> set us"
proof (induction us arbitrary: block run)
  case (Cons u us)
  then have run: "unat (run + 1) = unat run + 1" by (intro unat_inc_u32) simp
  then have "run + 1 \<noteq> 0" by (metis add_is_0 unat_0 zero_neq_one)
  then show ?case using Cons run by (cases u) (simp_all add: Let_def)
qed simp

lemma first_fit_zero: "length us < 4294967296 \<Longrightarrow> first_fit us 0 = None \<longleftrightarrow> True \<notin> set us"
  using first_fit_from_zero [of 0 us 0] by (simp add: first_fit_def)

section \<open>The invariant\<close>

text \<open>The blocks of a reservation.\<close>

definition cells :: "Reservation \<Rightarrow> nat list" where
  "cells r = [unat (start_block r)..<unat (start_block r) + unat (block_count r)]"

definition all_cells :: "Reservation list \<Rightarrow> nat list" where
  "all_cells rs = concat (map cells rs)"

definition baseline_inv :: "Trace \<Rightarrow> ReplayConfig \<Rightarrow> Baseline \<Rightarrow> bool" where
  "baseline_inv trace cfg s \<longleftrightarrow>
     length (used s) = unat (rc_max_blocks cfg)
     \<and> distinct (all_cells (bl_active s))
     \<and> set (all_cells (bl_active s)) = {b. b < length (used s) \<and> used s ! b}
     \<and> unat (blocks_in_use s) = length (all_cells (bl_active s))
     \<and> completed_count s + length (bl_active s) = next_pending s
     \<and> next_pending s \<le> length (requests trace)"

lemma baseline_start_inv: "baseline_inv trace cfg (baseline_start trace cfg)"
  by (simp add: baseline_inv_def baseline_start_def all_cells_def)

lemma mark_run_nth:
  assumes "unat start + unat n \<le> length us" and "length us < 4294967296"
  shows "length (mark_run us start n b) = length us"
    and "j < length us \<Longrightarrow> mark_run us start n b ! j = (if unat start \<le> j \<and> j < unat start + unat n then b else us ! j)"
proof -
  have idx: "unat (start + of_nat i) = unat start + i" if "i < unat n" for i
  proof -
    have "start + of_nat i = of_nat (unat start + i)" by simp
    moreover have "unat start + i < 4294967296" using assms that by linarith
    ultimately show ?thesis by (metis unat_of_nat_u32)
  qed
  have "length (foldl (\<lambda>us i. us[unat (start + of_nat i) := b]) us [0..<k]) = length us
      \<and> (\<forall>j<length us. foldl (\<lambda>us i. us[unat (start + of_nat i) := b]) us [0..<k] ! j
          = (if unat start \<le> j \<and> j < unat start + k then b else us ! j))" if "k \<le> unat n" for k
    using that
  proof (induction k)
    case (Suc k)
    let ?xs = "foldl (\<lambda>us i. us[unat (start + of_nat i) := b]) us [0..<k]"
    have "length ?xs = length us" "\<forall>j<length us. ?xs ! j = (if unat start \<le> j \<and> j < unat start + k then b else us ! j)"
      using Suc by auto
    then have "\<forall>j<length us. ?xs[unat start + k := b] ! j = (if unat start \<le> j \<and> j < unat start + Suc k then b else us ! j)"
      by (auto simp: nth_list_update less_Suc_eq)
    then show ?case using Suc idx [of k] by simp
  qed auto
  then show "length (mark_run us start n b) = length us"
    and "j < length us \<Longrightarrow> mark_run us start n b ! j = (if unat start \<le> j \<and> j < unat start + unat n then b else us ! j)"
    unfolding mark_run_def by blast+
qed

lemma mark_run_cells:
  assumes sub: "set [unat start..<unat start + unat n] \<subseteq> {..<length us}" and len: "length us < 4294967296"
  shows "length (mark_run us start n b) = length us
    \<and> (\<forall>j<length us. mark_run us start n b ! j = (if j \<in> set [unat start..<unat start + unat n] then b else us ! j))"
proof (cases "n = 0")
  case True
  then show ?thesis by (simp add: mark_run_def)
next
  case False
  then have "0 < unat n" by (simp add: unat_gt_0)
  then have "unat start + unat n - 1 \<in> set [unat start..<unat start + unat n]" by auto
  then have "unat start + unat n \<le> length us" using sub by auto
  from mark_run_nth [OF this len, where b = b] show ?thesis by auto
qed

lemma used_le: "baseline_inv trace cfg s \<Longrightarrow> length (used s) < 4294967296"
  by (simp add: baseline_inv_def)

text \<open>Admitting a request takes a free run.\<close>

lemma baseline_admit_once_inv:
  assumes inv: "baseline_inv trace cfg s" and run: "baseline_admit_once trace cfg s = (ok, s')"
    and more: "next_pending s < length (requests trace)"
  shows "baseline_inv trace cfg s'"
proof -
  let ?r = "requests trace ! next_pending s"
  let ?n = "request_blocks cfg ?r"
  show ?thesis
  proof (cases "servable cfg ?r")
    case False
    then have "s' = s\<lparr>next_pending := next_pending s + 1, completed_count := completed_count s + 1\<rparr>"
      using run by (simp add: baseline_admit_once_def)
    then show ?thesis using inv more by (simp add: baseline_inv_def)
  next
    case srv: True
    show ?thesis
    proof (cases "first_fit (used s) ?n")
      case None
      then have "s' = s\<lparr>metrics := metrics s'\<rparr>"
        using run srv by (auto simp: baseline_admit_once_def Let_def split: if_splits)
      moreover have "baseline_inv trace cfg (s\<lparr>metrics := m\<rparr>)" for m using inv by (simp add: baseline_inv_def)
      ultimately show ?thesis by metis
    next
      case (Some start)
      have fit: "run_free (used s) (unat ?n) (unat start) \<or> ?n = 0"
        using first_fit_correct [OF used_le [OF inv], of ?n] Some by (auto simp: fit_ok_def)
      let ?cs = "[unat start..<unat start + unat ?n]"
      have fresh: "unat start + unat ?n \<le> length (used s) \<or> ?n = 0"
        "set ?cs \<inter> set (all_cells (bl_active s)) = {}"
      proof -
        show "unat start + unat ?n \<le> length (used s) \<or> ?n = 0" using fit by (auto simp: run_free_def)
        have "used s ! b" if "b \<in> set (all_cells (bl_active s))" for b
          using that inv by (simp add: baseline_inv_def)
        moreover have "\<not> used s ! b" if "b \<in> set ?cs" for b using that fit by (auto simp: run_free_def)
        ultimately show "set ?cs \<inter> set (all_cells (bl_active s)) = {}" by blast
      qed
      have s': "s' = s\<lparr>used := mark_run (used s) start ?n True, blocks_in_use := blocks_in_use s + ?n,
          bl_active := bl_active s @ [\<lparr>rv_index = next_pending s, start_block = start, block_count = ?n,
                                      rv_committed = tr_prompt_tokens ?r, rv_decoded = 0\<rparr>],
          metrics := (metrics s)\<lparr>requests_admitted := requests_admitted (metrics s) + 1\<rparr>,
          next_pending := next_pending s + 1\<rparr>"
        using run srv Some by (auto simp: baseline_admit_once_def Let_def)
      have cs: "all_cells (bl_active s') = all_cells (bl_active s) @ ?cs" by (simp add: s' all_cells_def cells_def)
      have us: "length (used s') = length (used s)"
        "j < length (used s) \<Longrightarrow> used s' ! j = (j \<in> set ?cs \<or> used s ! j)" for j
      proof -
        have "set ?cs \<subseteq> {..<length (used s)}" using fresh(1) by auto
        from mark_run_cells [OF this used_le [OF inv], of True]
        have "length (mark_run (used s) start ?n True) = length (used s)
            \<and> (\<forall>j<length (used s). mark_run (used s) start ?n True ! j = (j \<in> set ?cs \<or> used s ! j))"
          by auto
        then show "length (used s') = length (used s)"
          and "j < length (used s) \<Longrightarrow> used s' ! j = (j \<in> set ?cs \<or> used s ! j)" for j by (simp_all add: s')
      qed
      have sub: "set ?cs \<subseteq> {..<length (used s)}" using fresh(1) by auto
      have "set (all_cells (bl_active s')) = {b. b < length (used s') \<and> used s' ! b}"
      proof -
        have "set (all_cells (bl_active s)) = {b. b < length (used s) \<and> used s ! b}" using inv by (simp add: baseline_inv_def)
        then show ?thesis unfolding cs set_append us(1) using us(2) sub by blast
      qed
      moreover have dist: "distinct (all_cells (bl_active s'))"
        unfolding cs using fresh(2) inv by (simp add: baseline_inv_def Int_commute)
      moreover have "unat (blocks_in_use s') = length (all_cells (bl_active s'))"
      proof -
        have "length (all_cells (bl_active s')) \<le> card {..<length (used s)}"
          unfolding distinct_card [OF dist, symmetric]
        proof (rule card_mono)
          have "set (all_cells (bl_active s)) \<subseteq> {..<length (used s)}" using inv by (auto simp: baseline_inv_def)
          then show "set (all_cells (bl_active s')) \<subseteq> {..<length (used s)}" unfolding cs set_append using sub by blast
        qed simp
        moreover have "unat (blocks_in_use s) = length (all_cells (bl_active s))" using inv by (simp add: baseline_inv_def)
        ultimately have "unat (blocks_in_use s) + unat ?n \<le> length (used s)" using cs by simp
        then have "unat (blocks_in_use s) + unat ?n < 4294967296" using used_le [OF inv] by (rule le_less_trans)
        then show ?thesis using inv cs by (simp add: s' baseline_inv_def unat_word_ariths)
      qed
      ultimately show ?thesis using inv more us(1) by (simp add: baseline_inv_def s')
    qed
  qed
qed

lemma baseline_admit_inv: "baseline_inv trace cfg s \<Longrightarrow> baseline_inv trace cfg (fst (baseline_admit trace cfg s p))"
proof (induction trace cfg s p rule: baseline_admit.induct)
  case (1 trace cfg s p)
  obtain ok s' where run: "baseline_admit_once trace cfg s = (ok, s')" by fastforce
  show ?case
    using "1.IH" [OF _ run [symmetric]] "1.prems" run baseline_admit_once_inv [OF "1.prems" run]
    by (cases ok) (simp_all add: baseline_admit.simps [of trace cfg s])
qed

text \<open>Finishing a request frees its run; the last reservation takes its place in the list.\<close>

lemma mset_swap_remove:
  assumes "i < length xs"
  shows "mset xs = add_mset (xs ! i) (mset (butlast (xs[i := last xs])))"
proof -
  let ?ys = "xs[i := last xs]"
  have ne: "?ys \<noteq> []" "xs \<noteq> []" using assms by auto
  then have "last ?ys = last xs" by (simp add: last_list_update)
  then have "mset ?ys = add_mset (last xs) (mset (butlast ?ys))"
    using append_butlast_last_id [OF ne(1)] by (metis mset_append mset.simps union_mset_add_mset_right add.right_neutral)
  moreover have "mset ?ys = add_mset (last xs) (mset xs - {#xs ! i#})" using assms by (rule mset_update)
  ultimately have "mset (butlast ?ys) = mset xs - {#xs ! i#}" by simp
  then show ?thesis using assms by simp
qed

lemma mset_all_cells: "mset (all_cells rs) = (\<Sum>r\<in>#mset rs. mset (cells r))"
  by (induction rs) (simp_all add: all_cells_def)

lemma all_cells_remove:
  assumes "mset rs = add_mset r (mset rs')"
  shows "mset (all_cells rs) = mset (cells r @ all_cells rs')"
  using assms by (simp add: mset_all_cells)

lemma all_cells_cong:
  assumes "i < length rs" and "start_block r = start_block (rs ! i)" and "block_count r = block_count (rs ! i)"
  shows "all_cells (rs[i := r]) = all_cells rs"
proof -
  have "cells r = cells (rs ! i)" using assms by (simp add: cells_def)
  then have "map cells (rs[i := r]) = map cells rs"
    using assms(1) by (intro nth_equalityI) (auto simp: nth_list_update)
  then show ?thesis by (simp add: all_cells_def)
qed

lemma baseline_finish_inv:
  assumes inv: "baseline_inv trace cfg s" and i: "i < length (bl_active s)" and r: "r = bl_active s ! i"
  shows "baseline_inv trace cfg (s\<lparr>used := mark_run (used s) (start_block r) (block_count r) False,
      blocks_in_use := blocks_in_use s - block_count r,
      bl_active := butlast ((bl_active s)[i := last (bl_active s)]),
      completed_count := completed_count s + 1\<rparr>)"
proof -
  let ?rs = "butlast ((bl_active s)[i := last (bl_active s)])" and ?us = "mark_run (used s) (start_block r) (block_count r) False"
  have split: "mset (all_cells (bl_active s)) = mset (cells r @ all_cells ?rs)"
    unfolding r by (rule all_cells_remove [OF mset_swap_remove [OF i]])
  have dist: "distinct (cells r @ all_cells ?rs)"
    using inv mset_eq_imp_distinct_iff [OF split] by (simp add: baseline_inv_def)
  have sets: "set (cells r) \<union> set (all_cells ?rs) = {b. b < length (used s) \<and> used s ! b}"
    using inv mset_eq_setD [OF split] by (simp add: baseline_inv_def)
  have "set [unat (start_block r)..<unat (start_block r) + unat (block_count r)] \<subseteq> {..<length (used s)}"
    using sets by (auto simp: cells_def)
  from mark_run_cells [OF this used_le [OF inv], of False]
  have us: "length ?us = length (used s)" "\<forall>j<length (used s). ?us ! j = (j \<notin> set (cells r) \<and> used s ! j)"
    by (auto simp: cells_def)
  have "set (all_cells ?rs) = {b. b < length ?us \<and> ?us ! b}"
  proof -
    have "{b. b < length ?us \<and> ?us ! b} = {b. b < length (used s) \<and> used s ! b} - set (cells r)" using us by auto
    then show ?thesis unfolding sets [symmetric] using dist by auto
  qed
  moreover have "unat (blocks_in_use s - block_count r) = length (all_cells ?rs)"
  proof -
    have len: "length (all_cells (bl_active s)) = unat (block_count r) + length (all_cells ?rs)"
      using mset_eq_length [OF split] by (simp add: cells_def)
    have "unat (blocks_in_use s) = length (all_cells (bl_active s))" using inv by (simp add: baseline_inv_def)
    then show ?thesis using len unat_sub [of "block_count r" "blocks_in_use s"] by (simp add: word_le_nat_alt)
  qed
  moreover have "Suc (length ?rs) = length (bl_active s)" using i by simp
  ultimately show ?thesis using inv dist us(1) by (simp add: baseline_inv_def)
qed

lemma baseline_decode_inv: "baseline_inv trace cfg s \<Longrightarrow> baseline_inv trace cfg (fst (baseline_decode trace i s p))"
proof (induction trace i s p rule: baseline_decode.induct)
  case (1 trace i s p)
  show ?case
  proof (cases "i < length (bl_active s)")
    case False
    then show ?thesis using "1.prems" by (simp add: baseline_decode.simps [of trace i s])
  next
    case True
    define r where "r = (bl_active s ! i)\<lparr>rv_committed := rv_committed (bl_active s ! i) + 1,
      rv_decoded := rv_decoded (bl_active s ! i) + 1\<rparr>"
    define s1 where "s1 = s\<lparr>bl_active := (bl_active s)[i := r],
      metrics := (metrics s)\<lparr>tokens_decoded := tokens_decoded (metrics s) + 1\<rparr>\<rparr>"
    have "all_cells ((bl_active s)[i := r]) = all_cells (bl_active s)"
      using True by (rule all_cells_cong) (simp_all add: r_def)
    then have inv1: "baseline_inv trace cfg s1" using "1.prems" by (simp add: baseline_inv_def s1_def)
    have at: "i < length (bl_active s1)" "r = bl_active s1 ! i" using True by (simp_all add: s1_def)
    note fin = baseline_finish_inv [OF inv1 at]
    have step: "baseline_decode trace i s p = (if rv_decoded r \<ge> decode_actual (requests trace ! rv_index r)
        then baseline_decode trace i (s1\<lparr>used := mark_run (used s1) (start_block r) (block_count r) False,
          blocks_in_use := blocks_in_use s1 - block_count r,
          bl_active := butlast ((bl_active s1)[i := last (bl_active s1)]),
          completed_count := completed_count s1 + 1\<rparr>) True
        else baseline_decode trace (Suc i) s1 True)"
      using True by (subst baseline_decode.simps) (simp add: Let_def s1_def r_def)
    show ?thesis
      using "1.IH" [OF True r_def refl s1_def] fin inv1 by (simp add: step s1_def)
  qed
qed

section \<open>The whole run\<close>

lemma baseline_inv_metrics [simp]: "baseline_inv trace cfg (s\<lparr>metrics := m\<rparr>) = baseline_inv trace cfg s"
  by (simp add: baseline_inv_def)

lemma baseline_step_inv:
  assumes "baseline_inv trace cfg s" and "baseline_step trace cfg bytes s = (s', p)"
  shows "baseline_inv trace cfg s'"
proof -
  let ?s = "s\<lparr>metrics := (metrics s)\<lparr>steps := steps (metrics s) + 1\<rparr>\<rparr>"
  obtain s1 p1 where a: "baseline_admit trace cfg ?s False = (s1, p1)" by fastforce
  obtain s2 p2 where d: "baseline_decode trace 0 s1 p1 = (s2, p2)" by fastforce
  have "baseline_inv trace cfg s2"
    using baseline_admit_inv [of trace cfg ?s False] baseline_decode_inv [of trace cfg s1 0 p1] a d assms(1) by simp
  then show ?thesis using assms(2) a d by (auto simp: baseline_step_def baseline_account_def Let_def)
qed

lemma baseline_loop_inv: "baseline_inv trace cfg s \<Longrightarrow> baseline_inv trace cfg (baseline_loop trace cfg bytes s)"
proof (induction trace cfg bytes s rule: baseline_loop.induct)
  case (1 trace cfg bytes s)
  obtain s' p where run: "baseline_step trace cfg bytes s = (s', p)" by fastforce
  have "baseline_inv trace cfg s'" using baseline_step_inv [OF "1.prems" run] .
  then show ?case
    using "1.IH" [OF _ run [symmetric]] "1.prems" run by (simp add: baseline_loop.simps [of trace cfg bytes s])
qed

lemma baseline_loop_steps:
  "steps (metrics s) \<le> max_steps cfg \<Longrightarrow> steps (metrics (baseline_loop trace cfg bytes s)) \<le> max_steps cfg"
proof (induction trace cfg bytes s rule: baseline_loop.induct)
  case (1 trace cfg bytes s)
  obtain s' p where run: "baseline_step trace cfg bytes s = (s', p)" by fastforce
  have "steps (metrics s') \<le> max_steps cfg" if "steps (metrics s) < max_steps cfg"
    using baseline_step_steps [OF run] that by (simp add: inc_le)
  then show ?case
    using "1.IH" [OF _ run [symmetric]] "1.prems" run by (simp add: baseline_loop.simps [of trace cfg bytes s])
qed

text \<open>When every request is accounted for, no reservation is left.\<close>

lemma baseline_done:
  assumes inv: "baseline_inv trace cfg s"
  shows "completed_count s \<le> length (requests trace)"
    and "completed_count s = length (requests trace) \<Longrightarrow> bl_active s = [] \<and> blocks_in_use s = 0 \<and> True \<notin> set (used s)"
proof -
  have c: "completed_count s + length (bl_active s) = next_pending s" "next_pending s \<le> length (requests trace)"
    using inv by (simp_all add: baseline_inv_def)
  then show "completed_count s \<le> length (requests trace)" by linarith
  assume "completed_count s = length (requests trace)"
  then have "length (bl_active s) = 0" using c by linarith
  then have none: "bl_active s = []" by simp
  then have "unat (blocks_in_use s) = 0" "{b. b < length (used s) \<and> used s ! b} = {}"
    using inv by (simp_all add: baseline_inv_def all_cells_def)
  then show "bl_active s = [] \<and> blocks_in_use s = 0 \<and> True \<notin> set (used s)"
    using none by (auto simp: in_set_conv_nth unat_eq_zero)
qed

lemma run_contiguous_result:
  defines "s \<equiv> \<lambda>trace cfg. baseline_loop trace cfg
     (byte_size \<lparr>tokens_per_block = rc_tokens_per_block cfg, num_layers = th_num_layers (header trace),
        num_kv_heads = th_num_kv_heads (header trace), head_dim = th_head_dim (header trace),
        bytes_per_element = th_bytes_per_element (header trace), layers_per_frame = 0\<rparr>) (baseline_start trace cfg)"
  shows "rm_completed (run_contiguous trace cfg) \<Longrightarrow> leak_free (run_contiguous trace cfg)"
    and "steps (run_contiguous trace cfg) \<le> max_steps cfg"
    and "baseline_inv trace cfg (s trace cfg)"
proof -
  show inv: "baseline_inv trace cfg (s trace cfg)" unfolding s_def by (intro baseline_loop_inv baseline_start_inv)
  show "leak_free (run_contiguous trace cfg)" if "rm_completed (run_contiguous trace cfg)"
    using that baseline_done(2) [OF inv] by (simp add: run_contiguous_def s_def Let_def)
  have "steps (metrics (baseline_start trace cfg)) \<le> max_steps cfg"
    by (simp add: baseline_start_def fresh_metrics_def)
  then show "steps (run_contiguous trace cfg) \<le> max_steps cfg"
    using baseline_loop_steps by (simp add: run_contiguous_def Let_def)
qed

end
