(* ===== verification/PagedReplay.thy ===== *)
theory PagedReplay
  imports TraceReplay "HOL-Library.Monad_Syntax"
begin

text \<open>
  The paged replay \<^verbatim>\<open>run_paged\<close> of \<^verbatim>\<open>tools/trace_replay/TraceReplay.cpp\<close>: a driver that enqueues
  every request of a trace, then repeats \<^verbatim>\<open>schedule_next\<close> and executes the plan on the cache manager.
  All of its variables are local, so the model keeps them in one record; the two flags of an iteration,
  \<^verbatim>\<open>progress_made\<close> and \<^verbatim>\<open>growth_failed\<close>, are fields too. Each loop body is one definition.
  \<^verbatim>\<open>index_of.at\<close> throws for an unknown request: the driver has no handler, so the functions return
  an option, \<open>None\<close> being an exception that leaves \<^verbatim>\<open>run_paged\<close>.

  What \<^verbatim>\<open>std::aligned_alloc\<close> gives the pool is the argument \<open>slab\<close>. The rank of the 99th percentile is
  computed with exact arithmetic; the code multiplies by a \<^verbatim>\<open>double\<close>, which agrees below \<open>10 ^ 13\<close>
  requests.
\<close>

section \<open>Data\<close>

record RequestProgress =
  rp_request :: TraceRequest
  rp_sequences :: "SequenceId list"
  rp_committed :: u32
  rp_decoded :: u32
  rp_shared_prompt_tokens :: u32
  rp_admitted :: bool
  rp_finished :: bool

definition fresh_progress :: "TraceRequest \<Rightarrow> RequestProgress" where
  "fresh_progress request =
     \<lparr>rp_request = request, rp_sequences = [], rp_committed = 0, rp_decoded = 0,
      rp_shared_prompt_tokens = 0, rp_admitted = False, rp_finished = False\<rparr>"

record PagedRun =
  scheduler :: Scheduler
  progress :: "RequestProgress list"
  index_of :: "RequestId \<rightharpoonup> nat"
  next_fork_sequence :: SequenceId
  waiting :: u64
  completed :: nat
  live :: "RequestId list"
  preempted_ids :: "RequestId set"
  no_progress_steps :: u32
  token_cost :: u64
  ttfts :: "u64 list"
  run_metrics :: ReplayMetrics
  progress_made :: bool
  growth_failed :: bool

text \<open>Updates of the record's components.\<close>

definition with_cache :: "PagedRun \<Rightarrow> KVCacheManager \<Rightarrow> PagedRun" where
  "with_cache run kv = run\<lparr>scheduler := (scheduler run)\<lparr>cache_manager := kv\<rparr>\<rparr>"

definition with_progress :: "PagedRun \<Rightarrow> nat \<Rightarrow> RequestProgress \<Rightarrow> PagedRun" where
  "with_progress run i state = run\<lparr>progress := (progress run)[i := state]\<rparr>"

abbreviation run_cache :: "PagedRun \<Rightarrow> KVCacheManager" where
  "run_cache run \<equiv> cache_manager (scheduler run)"

abbreviation run_stats :: "PagedRun \<Rightarrow> AllocatorStats" where
  "run_stats run \<equiv> pool_stats (scheduler run)"

section \<open>Start\<close>

definition replay_shape :: "Trace \<Rightarrow> ReplayConfig \<Rightarrow> BlockShape" where
  "replay_shape trace cfg =
     \<lparr>tokens_per_block = rc_tokens_per_block cfg, num_layers = th_num_layers (header trace),
      num_kv_heads = th_num_kv_heads (header trace), head_dim = th_head_dim (header trace),
      bytes_per_element = th_bytes_per_element (header trace), layers_per_frame = 0\<rparr>"

definition replay_allocator_config :: "Trace \<Rightarrow> ReplayConfig \<Rightarrow> AllocatorConfig" where
  "replay_allocator_config trace cfg =
     \<lparr>block_shape = replay_shape trace cfg,
      memory_options = \<lparr>alignment_bytes = kDefaultBlockAlignmentBytes, prefer_pinned_memory = False\<rparr>,
      max_blocks = rc_max_blocks cfg\<rparr>"

definition replay_allocator :: "Trace \<Rightarrow> ReplayConfig \<Rightarrow> u8 list option \<Rightarrow> MemoryAllocator" where
  "replay_allocator trace cfg slab =
     (let al = MemoryAllocator_new (replay_allocator_config trace cfg) slab in
      if swap_slots cfg > 0 then set_swap_backend al (Some (HostSwapBackend_new (ucast (swap_slots cfg)))) else al)"

definition replay_scheduler_config :: "ReplayConfig \<Rightarrow> SchedulerConfig" where
  "replay_scheduler_config cfg =
     \<lparr>max_active_requests = rc_max_active_requests cfg, max_batch_tokens = rc_max_batch_tokens cfg,
      preemption_watermark_blocks = rc_preemption_watermark_blocks cfg,
      size_aware_admission = rc_size_aware_admission cfg, admission_skip_limit = rc_admission_skip_limit cfg\<rparr>"

definition scheduled_request :: "ReplayConfig \<Rightarrow> TraceRequest \<Rightarrow> Request" where
  "scheduled_request cfg request =
     \<lparr>request_id = tr_request_id request, root_sequence_id = tr_request_id request,
      prompt_tokens = tr_prompt_tokens request,
      sampling = \<lparr>num_parallel_samples = tr_num_parallel_samples request, max_decode_tokens = decode_budget request\<rparr>,
      rq_multimodal_spans = tr_multimodal_spans request,
      rq_positional_encoding = tr_positional_encoding request,
      rq_prefix_key = (if prefix_caching cfg then tr_prefix_key request else []),
      rq_state = Pending, remaining_prefill_tokens = 0, admission_skips = 0, lifetime_blocks = 0\<rparr>"

definition enqueue_one :: "ReplayConfig \<Rightarrow> PagedRun \<Rightarrow> nat \<times> TraceRequest \<Rightarrow> PagedRun" where
  "enqueue_one cfg run = (\<lambda>(i, request).
     (let m = run_metrics run;
          m = (if ceil_div (tr_prompt_tokens request + decode_budget request) (rc_tokens_per_block cfg) > rc_max_blocks cfg
               then m\<lparr>requests_never_admissible := requests_never_admissible m + 1\<rparr> else m)
      in run\<lparr>progress := (progress run)[i := fresh_progress request],
             index_of := (index_of run)(tr_request_id request \<mapsto> i),
             next_fork_sequence := max (next_fork_sequence run) (tr_request_id request + 1),
             run_metrics := m,
             scheduler := enqueue (scheduler run) (scheduled_request cfg request)\<rparr>))"

definition paged_start :: "Trace \<Rightarrow> ReplayConfig \<Rightarrow> u8 list option \<Rightarrow> PagedRun" where
  "paged_start trace cfg slab =
     foldl (enqueue_one cfg)
       \<lparr>scheduler = Scheduler_new (replay_scheduler_config cfg)
          (KVCacheManager_new (replay_allocator trace cfg slab)),
        progress = map fresh_progress (requests trace), index_of = Map.empty, next_fork_sequence = 1,
        waiting = of_nat (length (requests trace)), completed = 0, live = [], preempted_ids = {},
        no_progress_steps = 0, token_cost = 0, ttfts = [], run_metrics = fresh_metrics ''paged'',
        progress_made = False, growth_failed = False\<rparr>
       (zip [0..<length (requests trace)] (requests trace))"

section \<open>Prefilling\<close>

text \<open>What happens when a request shows up in a plan for the first time.\<close>

definition note_admission :: "ReplayConfig \<Rightarrow> nat \<Rightarrow> RequestId \<Rightarrow> PagedRun \<Rightarrow> PagedRun" where
  "note_admission cfg i rid run =
     (let state = progress run ! i; request = rp_request state; m = run_metrics run in
      if rp_admitted state then run
      else
        let state = state\<lparr>rp_admitted := True, rp_sequences := rp_sequences state @ [tr_request_id request]\<rparr>;
            m = m\<lparr>requests_admitted := requests_admitted m + 1\<rparr>;
            cached = (if prefix_caching cfg \<and> tr_prefix_key request \<noteq> []
                      then prefix_token_count (run_cache run) (tr_prefix_key request) else 0);
            (state, m) = (if cached > 0
                          then (state\<lparr>rp_shared_prompt_tokens := cached\<rparr>,
                                m\<lparr>prefix_hits := prefix_hits m + 1,
                                  prefix_blocks_saved := prefix_blocks_saved m + ucast (cached div rc_tokens_per_block cfg)\<rparr>)
                          else (state, m))
        in (with_progress run i state)\<lparr>waiting := waiting run - 1, live := live run @ [rid], run_metrics := m\<rparr>)"

definition touch_offset ::
    "u32 \<Rightarrow> SequenceId \<Rightarrow> u32 \<Rightarrow> u32 \<Rightarrow> KVCacheManager \<times> ReplayMetrics \<Rightarrow> nat \<Rightarrow> KVCacheManager \<times> ReplayMetrics" where
  "touch_offset tpb sid base shared = (\<lambda>(kv, m) offset.
     (let position = base + of_nat offset in
      if position < shared then (kv, m)
      else if position mod tpb = 0 then touch_position kv sid position tpb m else (kv, m)))"

text \<open>The inner loop that forks the parallel samples of a request.\<close>

definition fork_branch :: "nat \<Rightarrow> PagedRun \<Rightarrow> nat \<Rightarrow> PagedRun" where
  "fork_branch i run branch =
     (let state = progress run ! i; request = rp_request state; child_id = next_fork_sequence run;
          child = \<lparr>sm_sequence_id = child_id, sm_request_id = tr_request_id request,
                   sm_multimodal_spans = tr_multimodal_spans request,
                   sm_positional_encoding = tr_positional_encoding request\<rparr>;
          (ok, kv) = fork_sequence (run_cache run) (tr_request_id request) child;
          run = (with_cache run kv)\<lparr>next_fork_sequence := child_id + 1\<rparr>
      in if ok
         then (with_progress run i (state\<lparr>rp_sequences := rp_sequences state @ [child_id]\<rparr>))
                \<lparr>run_metrics := (run_metrics run)\<lparr>forks := forks (run_metrics run) + 1\<rparr>\<rparr>
         else run)"

text \<open>Once the prompt is complete its prefix is published and the samples are forked.\<close>

definition start_decoding :: "ReplayConfig \<Rightarrow> nat \<Rightarrow> PagedRun \<Rightarrow> PagedRun" where
  "start_decoding cfg i run =
     (let request = rp_request (progress run ! i);
          run = (if prefix_caching cfg \<and> tr_prefix_key request \<noteq> []
                 then with_cache run (snd (publish_prefix (run_cache run) (tr_request_id request) (tr_prefix_key request)))
                 else run)
      in foldl (fork_branch i) run [1..<unat (tr_num_parallel_samples request)])"

text \<open>Making the blocks of a chunk writable, one position per block.\<close>

definition touch_prompt :: "ReplayConfig \<Rightarrow> nat \<Rightarrow> u32 \<Rightarrow> PagedRun \<Rightarrow> PagedRun" where
  "touch_prompt cfg i chunk run =
     (let state = progress run ! i;
          (kv, m) = foldl (touch_offset (rc_tokens_per_block cfg) (tr_request_id (rp_request state)) (rp_committed state)
                             (rp_shared_prompt_tokens state)) (run_cache run, run_metrics run) [0..<unat chunk]
      in (with_progress (with_cache run kv) i (state\<lparr>rp_committed := rp_committed state + chunk\<rparr>))\<lparr>run_metrics := m\<rparr>)"

definition prefill_one :: "ReplayConfig \<Rightarrow> PagedRun \<Rightarrow> RequestId \<Rightarrow> u32 \<Rightarrow> PagedRun option" where
  "prefill_one cfg run rid chunk = do {
     i \<leftarrow> index_of run rid;
     let run = note_admission cfg i rid run;
     let run = touch_prompt cfg i chunk run;
     let run = run\<lparr>scheduler := complete_step (scheduler run) rid chunk, progress_made := True\<rparr>;
     Some (if request_state (scheduler run) rid = Some Decode then start_decoding cfg i run else run)
   }"

fun prefill_all :: "ReplayConfig \<Rightarrow> (RequestId \<times> u32) list \<Rightarrow> PagedRun \<Rightarrow> PagedRun option" where
  "prefill_all cfg [] run = Some run"
| "prefill_all cfg ((rid, chunk) # rest) run = do {
     run \<leftarrow> prefill_one cfg run rid chunk;
     prefill_all cfg rest run
   }"

section \<open>Decoding\<close>

text \<open>\<^verbatim>\<open>reclaim_for_decode\<close>: parks the newest request of the plan, and says whether frames came back.\<close>

fun reclaim_newest :: "u32 \<Rightarrow> RequestId set \<Rightarrow> RequestId list \<Rightarrow> PagedRun \<Rightarrow> (bool \<times> PagedRun) option" where
  "reclaim_newest free_before in_plan [] run = Some (False, run)"
| "reclaim_newest free_before in_plan (rid # rids) run = do {
     i \<leftarrow> index_of run rid;
     if rp_finished (progress run ! i) \<or> rid \<notin> in_plan then reclaim_newest free_before in_plan rids run
     else case preempt (scheduler run) rid ''decode growth failed'' of
       (False, s) \<Rightarrow> reclaim_newest free_before in_plan rids (run\<lparr>scheduler := s\<rparr>)
     | (True, s) \<Rightarrow> Some (free_blocks (pool_stats s) > free_before, run\<lparr>scheduler := s\<rparr>)
   }"

definition reclaim_for_decode :: "RequestId set \<Rightarrow> PagedRun \<Rightarrow> (bool \<times> PagedRun) option" where
  "reclaim_for_decode in_plan run =
     reclaim_newest (free_blocks (run_stats run)) in_plan (rev (live run)) run"

text \<open>Growing every sequence of a request, up to the first failure.\<close>

fun grow_all :: "u32 \<Rightarrow> TokenPosition \<Rightarrow> SequenceId list \<Rightarrow> KVCacheManager \<Rightarrow> bool \<times> KVCacheManager" where
  "grow_all tpb position [] kv = (True, kv)"
| "grow_all tpb position (sid # sids) kv =
     (case ensure_capacity kv sid position tpb of
        (False, kv) \<Rightarrow> (False, kv)
      | (True, kv) \<Rightarrow> grow_all tpb position sids kv)"

text \<open>One decoded token of a request that has room for it, and the end of a request.\<close>

definition touch_token :: "ReplayConfig \<Rightarrow> nat \<Rightarrow> PagedRun \<Rightarrow> PagedRun" where
  "touch_token cfg i run =
     (let state = progress run ! i;
          (kv, m) = foldl (\<lambda>(kv, m) sid. touch_position kv sid (rp_committed state) (rc_tokens_per_block cfg) m)
                      (run_cache run, run_metrics run) (rp_sequences state)
      in (with_progress (with_cache run kv) i
            (state\<lparr>rp_committed := rp_committed state + 1, rp_decoded := rp_decoded state + 1\<rparr>))
           \<lparr>run_metrics := m\<lparr>tokens_decoded := tokens_decoded m + of_nat (length (rp_sequences state))\<rparr>\<rparr>)"

definition finish_request :: "nat \<Rightarrow> RequestId \<Rightarrow> PagedRun \<Rightarrow> PagedRun" where
  "finish_request i rid run =
     (with_progress run i ((progress run ! i)\<lparr>rp_finished := True, rp_sequences := []\<rparr>))
       \<lparr>scheduler := cancel (scheduler run) rid, completed := completed run + 1\<rparr>"

definition decode_token :: "ReplayConfig \<Rightarrow> u32 \<Rightarrow> nat \<Rightarrow> RequestId \<Rightarrow> PagedRun \<Rightarrow> PagedRun" where
  "decode_token cfg scheduled i rid run =
     (let run = touch_token cfg i run;
          run = run\<lparr>scheduler := complete_step (scheduler run) rid 1, progress_made := True\<rparr>;
          state = progress run ! i;
          run = (if rp_decoded state = 1 then run\<lparr>ttfts := ttfts run @ [token_cost run + ucast scheduled]\<rparr> else run)
      in if rp_decoded state \<ge> decode_actual (rp_request state) then finish_request i rid run else run)"

definition decode_one ::
    "ReplayConfig \<Rightarrow> RequestId set \<Rightarrow> u32 \<Rightarrow> RequestId \<Rightarrow> PagedRun \<Rightarrow> PagedRun option" where
  "decode_one cfg in_plan scheduled rid run = do {
     i \<leftarrow> index_of run rid;
     if preemption_info (scheduler run) rid \<noteq> None then Some run
     else do {
       let state = progress run ! i;
       let (grew, kv) = grow_all (rc_tokens_per_block cfg) (rp_committed state) (rp_sequences state) (run_cache run);
       let run = with_cache run kv;
       if \<not> grew
       then do {
         (reclaimed, run) \<leftarrow> reclaim_for_decode in_plan (run\<lparr>growth_failed := True\<rparr>);
         Some (if reclaimed then run\<lparr>progress_made := True\<rparr> else run)
       }
       else Some (decode_token cfg scheduled i rid run)
     }
   }"

fun decode_all ::
    "ReplayConfig \<Rightarrow> RequestId set \<Rightarrow> u32 \<Rightarrow> RequestId list \<Rightarrow> PagedRun \<Rightarrow> PagedRun option" where
  "decode_all cfg in_plan scheduled [] run = Some run"
| "decode_all cfg in_plan scheduled (rid # rids) run = do {
     run \<leftarrow> decode_one cfg in_plan scheduled rid run;
     decode_all cfg in_plan scheduled rids run
   }"

section \<open>After the plan\<close>

text \<open>Counting the requests that were parked since the last step.\<close>

fun note_preemptions :: "RequestId list \<Rightarrow> PagedRun \<Rightarrow> PagedRun option" where
  "note_preemptions [] run = Some run"
| "note_preemptions (rid # rids) run = do {
     i \<leftarrow> index_of run rid;
     if rp_finished (progress run ! i) then note_preemptions rids run
     else case preemption_info (scheduler run) rid of
       None \<Rightarrow> note_preemptions rids (run\<lparr>preempted_ids := preempted_ids run - {rid}\<rparr>)
     | Some info \<Rightarrow>
         if rid \<in> preempted_ids run then note_preemptions rids run
         else
           let m = run_metrics run in
           note_preemptions rids
             (run\<lparr>preempted_ids := insert rid (preempted_ids run),
                  run_metrics := m\<lparr>preemptions := preemptions m + 1,
                                   swapped_blocks_out := swapped_blocks_out m + ucast (pi_swapped_blocks info)\<rparr>\<rparr>)
   }"

fun resume_parked :: "RequestId list \<Rightarrow> PagedRun \<Rightarrow> PagedRun" where
  "resume_parked [] run = run"
| "resume_parked (rid # rids) run =
     (if rid \<notin> preempted_ids run then resume_parked rids run
      else
        let m = run_metrics run in
        case resume (scheduler run) rid of
          (True, s) \<Rightarrow>
            resume_parked rids (run\<lparr>scheduler := s, preempted_ids := preempted_ids run - {rid},
                                    run_metrics := m\<lparr>resumes := resumes m + 1\<rparr>\<rparr>)
        | (False, s) \<Rightarrow>
            resume_parked rids (run\<lparr>scheduler := s, run_metrics := m\<lparr>failed_resumes := failed_resumes m + 1\<rparr>\<rparr>))"

text \<open>\<^verbatim>\<open>remove_if\<close> of the finished requests.\<close>

fun unfinished :: "PagedRun \<Rightarrow> RequestId list \<Rightarrow> RequestId list option" where
  "unfinished run [] = Some []"
| "unfinished run (rid # rids) = do {
     i \<leftarrow> index_of run rid;
     rest \<leftarrow> unfinished run rids;
     Some (if rp_finished (progress run ! i) then rest else rid # rest)
   }"

text \<open>The accounting of a step: the slack of every sequence that is not parked.\<close>

definition account_sequence :: "KVCacheManager \<Rightarrow> u32 \<Rightarrow> u32 \<Rightarrow> ReplayMetrics \<Rightarrow> SequenceId \<Rightarrow> ReplayMetrics" where
  "account_sequence kv tpb committed m sid =
     (let m = m\<lparr>committed_tokens := committed_tokens m + ucast committed\<rparr>;
          reserved = reserved_slots kv sid tpb
      in if reserved > committed
         then m\<lparr>max_partial_block_slack := max (max_partial_block_slack m) (reserved - committed)\<rparr> else m)"

fun account_live :: "u32 \<Rightarrow> RequestId list \<Rightarrow> PagedRun \<Rightarrow> PagedRun option" where
  "account_live tpb [] run = Some run"
| "account_live tpb (rid # rids) run = do {
     i \<leftarrow> index_of run rid;
     let state = progress run ! i;
     account_live tpb rids
       (if rid \<in> preempted_ids run then run
        else run\<lparr>run_metrics := foldl (account_sequence (run_cache run) tpb (rp_committed state))
                                   (run_metrics run) (rp_sequences state)\<rparr>)
   }"

definition account_step :: "ReplayConfig \<Rightarrow> u64 \<Rightarrow> BatchPlan \<Rightarrow> PagedRun \<Rightarrow> PagedRun option" where
  "account_step cfg bytes plan run =
     (let m = run_metrics run;
          m = (if waiting run > 0 \<and> prefill_requests plan = []
               then m\<lparr>head_of_line_stall_steps := head_of_line_stall_steps m + 1\<rparr> else m);
          in_use = total_blocks (run_stats run) - free_blocks (run_stats run);
          m = m\<lparr>peak_active_requests := max (peak_active_requests m) (of_nat (length (decode_requests plan))),
                peak_blocks_in_use := max (peak_blocks_in_use m) in_use,
                peak_bytes_in_use := max (peak_bytes_in_use m) (ucast in_use * bytes),
                reserved_token_slots := reserved_token_slots m + ucast in_use * ucast (rc_tokens_per_block cfg)\<rparr>
      in account_live (rc_tokens_per_block cfg) (live run)
           (run\<lparr>token_cost := token_cost run + ucast (scheduled_tokens plan), run_metrics := m\<rparr>))"

section \<open>The loop\<close>

text \<open>One iteration up to the test for a stall.\<close>

definition paged_step :: "ReplayConfig \<Rightarrow> u64 \<Rightarrow> PagedRun \<Rightarrow> PagedRun option" where
  "paged_step cfg bytes run = do {
     let (plan, s) = schedule_next (scheduler run);
     let run = run\<lparr>scheduler := s, progress_made := False, growth_failed := False,
                   run_metrics := (run_metrics run)\<lparr>steps := steps (run_metrics run) + 1\<rparr>\<rparr>;
     let in_plan = set (prefill_requests plan) \<union> set (decode_requests plan);
     run \<leftarrow> prefill_all cfg (zip (prefill_requests plan) (prefill_tokens plan)) run;
     run \<leftarrow> decode_all cfg in_plan (scheduled_tokens plan) (decode_requests plan) run;
     run \<leftarrow> note_preemptions (live run) run;
     let run = (if growth_failed run then run else resume_parked (live run) run);
     keep \<leftarrow> unfinished run (live run);
     account_step cfg bytes plan (run\<lparr>live := keep\<rparr>)
   }"

text \<open>The test for a stall: whether the loop breaks.\<close>

definition stall_check :: "PagedRun \<Rightarrow> bool \<times> PagedRun" where
  "stall_check run =
     (if progress_made run then (False, run\<lparr>no_progress_steps := 0\<rparr>)
      else
        let run = run\<lparr>no_progress_steps := no_progress_steps run + 1\<rparr>
        in (no_progress_steps run \<ge> 2, run))"

section \<open>What the driver never changes\<close>

text \<open>The requests and their positions stay as they are, and only the step itself counts steps.\<close>

definition run_frame :: "PagedRun \<Rightarrow> (RequestId \<rightharpoonup> nat) \<times> TraceRequest list \<times> u64" where
  "run_frame run = (index_of run, map rp_request (progress run), steps (run_metrics run))"

lemma run_frame_fields [simp]:
  "run_frame (run\<lparr>scheduler := s\<rparr>) = run_frame run" "run_frame (run\<lparr>next_fork_sequence := n\<rparr>) = run_frame run"
  "run_frame (run\<lparr>waiting := w\<rparr>) = run_frame run" "run_frame (run\<lparr>completed := c\<rparr>) = run_frame run"
  "run_frame (run\<lparr>live := l\<rparr>) = run_frame run" "run_frame (run\<lparr>preempted_ids := ids\<rparr>) = run_frame run"
  "run_frame (run\<lparr>no_progress_steps := k\<rparr>) = run_frame run" "run_frame (run\<lparr>token_cost := t\<rparr>) = run_frame run"
  "run_frame (run\<lparr>ttfts := ts\<rparr>) = run_frame run" "run_frame (run\<lparr>progress_made := b\<rparr>) = run_frame run"
  "run_frame (run\<lparr>growth_failed := b\<rparr>) = run_frame run" "run_frame (with_cache run kv) = run_frame run"
  by (simp_all add: run_frame_def with_cache_def)

lemma run_frame_metrics:
  "steps m = steps (run_metrics run) \<Longrightarrow> run_frame (run\<lparr>run_metrics := m\<rparr>) = run_frame run"
  by (simp add: run_frame_def)

lemma run_frame_progress:
  "rp_request state = rp_request (progress run ! i) \<Longrightarrow> run_frame (with_progress run i state) = run_frame run"
  by (cases "i < length (progress run)") (auto simp: run_frame_def with_progress_def map_update list_update_beyond
      intro: list_update_same_conv [THEN iffD2])

lemma with_progress_fields [simp]:
  "run_metrics (with_progress run i state) = run_metrics run" "scheduler (with_progress run i state) = scheduler run"
  "run_metrics (with_cache run kv) = run_metrics run" "progress (with_cache run kv) = progress run"
  by (simp_all add: with_progress_def with_cache_def)

lemmas run_frame_simps = run_frame_metrics run_frame_progress

lemma touch_position_steps: "touch_position kv sid pos tpb m = (kv', m') \<Longrightarrow> steps m' = steps m"
  by (auto simp: touch_position_def Let_def split: option.splits prod.splits if_splits)

lemma touch_offset_steps: "touch_offset tpb sid base shared (kv, m) k = (kv', m') \<Longrightarrow> steps m' = steps m"
  by (auto simp: touch_offset_def Let_def dest: touch_position_steps split: if_splits)

lemma fold_steps:
  assumes step: "\<And>kv m x kv' m'. f (kv, m) x = (kv', m') \<Longrightarrow> steps m' = steps m"
  shows "foldl f (kv, m) xs = (kv', m') \<Longrightarrow> steps m' = steps m"
proof (induction xs arbitrary: kv m)
  case (Cons x xs)
  obtain kv1 m1 where first: "f (kv, m) x = (kv1, m1)" by fastforce
  then have "foldl f (kv1, m1) xs = (kv', m')" using Cons.prems by simp
  from Cons.IH [OF this] show ?case using step [OF first] by simp
qed simp

lemma touch_prompt_frame: "run_frame (touch_prompt cfg i chunk run) = run_frame run"
proof -
  let ?state = "progress run ! i"
  obtain kv m where touch: "foldl (touch_offset (rc_tokens_per_block cfg) (tr_request_id (rp_request ?state))
      (rp_committed ?state) (rp_shared_prompt_tokens ?state)) (run_cache run, run_metrics run) [0..<unat chunk] = (kv, m)"
    by fastforce
  have "steps m = steps (run_metrics run)" using touch_offset_steps touch by (rule fold_steps)
  then show ?thesis by (simp add: touch_prompt_def touch Let_def run_frame_simps)
qed

lemma touch_token_frame: "run_frame (touch_token cfg i run) = run_frame run"
proof -
  let ?state = "progress run ! i"
  obtain kv m where touch: "foldl (\<lambda>(kv, m) sid. touch_position kv sid (rp_committed ?state) (rc_tokens_per_block cfg) m)
      (run_cache run, run_metrics run) (rp_sequences ?state) = (kv, m)" by fastforce
  have "steps m = steps (run_metrics run)" using _ touch by (rule fold_steps) (auto dest: touch_position_steps)
  then show ?thesis by (simp add: touch_token_def touch Let_def run_frame_simps)
qed

lemma note_admission_frame: "run_frame (note_admission cfg i rid run) = run_frame run"
  by (auto simp: note_admission_def Let_def run_frame_simps)

lemma fork_branch_frame: "run_frame (fork_branch i run b) = run_frame run"
  by (auto simp: fork_branch_def Let_def run_frame_simps split: prod.split)

lemma start_decoding_frame: "run_frame (start_decoding cfg i run) = run_frame run"
proof -
  have "run_frame (foldl (fork_branch i) run bs) = run_frame run" for run bs
    by (induction bs arbitrary: run) (simp_all add: fork_branch_frame)
  then show ?thesis by (simp add: start_decoding_def Let_def)
qed

lemma prefill_one_frame: "prefill_one cfg run rid chunk = Some run' \<Longrightarrow> run_frame run' = run_frame run"
  by (auto simp: prefill_one_def Let_def bind_eq_Some_conv start_decoding_frame touch_prompt_frame note_admission_frame)

lemma prefill_all_frame: "prefill_all cfg ps run = Some run' \<Longrightarrow> run_frame run' = run_frame run"
  by (induction cfg ps run rule: prefill_all.induct) (auto simp: bind_eq_Some_conv dest: prefill_one_frame)

lemma reclaim_newest_frame: "reclaim_newest fb ip ids run = Some (b, run') \<Longrightarrow> run_frame run' = run_frame run"
  by (induction fb ip ids run rule: reclaim_newest.induct)
    (auto simp: bind_eq_Some_conv split: if_splits prod.splits bool.splits)

lemma decode_token_frame: "run_frame (decode_token cfg n i rid run) = run_frame run"
  by (simp add: decode_token_def finish_request_def Let_def run_frame_simps touch_token_frame)

lemma decode_one_frame: "decode_one cfg ip n rid run = Some run' \<Longrightarrow> run_frame run' = run_frame run"
  by (auto simp: decode_one_def Let_def bind_eq_Some_conv reclaim_for_decode_def decode_token_frame
      dest!: reclaim_newest_frame split: if_splits prod.splits)

lemma decode_all_frame: "decode_all cfg ip n ids run = Some run' \<Longrightarrow> run_frame run' = run_frame run"
  by (induction cfg ip n ids run rule: decode_all.induct) (auto simp: bind_eq_Some_conv dest: decode_one_frame)

lemma note_preemptions_frame: "note_preemptions ids run = Some run' \<Longrightarrow> run_frame run' = run_frame run"
  by (induction ids run rule: note_preemptions.induct)
    (auto simp: bind_eq_Some_conv Let_def run_frame_simps split: if_splits option.splits)

lemma resume_parked_frame: "run_frame (resume_parked ids run) = run_frame run"
  by (induction ids run rule: resume_parked.induct) (auto simp: Let_def run_frame_simps split: prod.split bool.split)

lemma account_live_frame: "account_live tpb ids run = Some run' \<Longrightarrow> run_frame run' = run_frame run"
proof (induction tpb ids run rule: account_live.induct)
  case (2 tpb rid rids run)
  have "steps (foldl (account_sequence kv tpb c) m sids) = steps m" for kv c m sids
    by (induction sids arbitrary: m) (simp_all add: account_sequence_def Let_def)
  then show ?case using 2 by (auto simp: bind_eq_Some_conv Let_def run_frame_simps split: if_splits)
qed simp

lemma account_step_frame: "account_step cfg bytes plan run = Some run' \<Longrightarrow> run_frame run' = run_frame run"
  by (auto simp: account_step_def Let_def run_frame_simps dest!: account_live_frame split: if_splits)

lemma paged_step_steps:
  assumes "paged_step cfg bytes run = Some run'"
  shows "steps (run_metrics run') = steps (run_metrics run) + 1"
proof -
  obtain plan s where sched: "schedule_next (scheduler run) = (plan, s)" by fastforce
  let ?run = "run\<lparr>scheduler := s, progress_made := False, growth_failed := False,
      run_metrics := (run_metrics run)\<lparr>steps := steps (run_metrics run) + 1\<rparr>\<rparr>"
  have "run_frame run' = run_frame ?run"
    using assms
    by (auto simp: paged_step_def sched Let_def bind_eq_Some_conv resume_parked_frame
        dest!: prefill_all_frame decode_all_frame note_preemptions_frame account_step_frame split: if_splits)
  then show ?thesis by (simp add: run_frame_def)
qed

section \<open>The outer loop\<close>

text \<open>The loop ends because every iteration counts a step and the count is bounded by \<^verbatim>\<open>max_steps\<close>.\<close>

lemma stall_check_metrics: "stall_check run = (b, run') \<Longrightarrow> run_metrics run' = run_metrics run"
  by (auto simp: stall_check_def Let_def split: if_splits)

function paged_loop :: "Trace \<Rightarrow> ReplayConfig \<Rightarrow> u64 \<Rightarrow> PagedRun \<Rightarrow> PagedRun option" where
  "paged_loop trace cfg bytes run =
     (if completed run < length (requests trace) \<and> steps (run_metrics run) < max_steps cfg
      then
        (case paged_step cfg bytes run of
           None \<Rightarrow> None
         | Some run \<Rightarrow>
             (case stall_check run of
                (True, run) \<Rightarrow> Some run
              | (False, run) \<Rightarrow> paged_loop trace cfg bytes run))
      else Some run)"
  by pat_completeness auto
termination
proof (relation "measure (\<lambda>(_, cfg, _, run). unat (max_steps cfg) - unat (steps (run_metrics run)))", goal_cases)
  case (2 trace cfg bytes run run1 b run')
  have "steps (run_metrics run') = steps (run_metrics run) + 1"
    using stall_check_metrics [OF 2(3) [symmetric]] paged_step_steps [OF 2(2)] by simp
  then show ?case using 2(1) unat_step_u64 [of "steps (run_metrics run)" "max_steps cfg"] by simp
qed simp

declare paged_loop.simps [simp del]

definition p99_index :: "nat \<Rightarrow> nat" where
  "p99_index n = 99 * (n - 1) div 100"

definition pool_leak_free :: "AllocatorStats \<Rightarrow> bool" where
  "pool_leak_free st \<longleftrightarrow>
     free_blocks st = total_blocks st \<and> active_blocks st = 0 \<and> shared_blocks st = 0 \<and> swapped_blocks st = 0"

definition paged_finish :: "Trace \<Rightarrow> PagedRun \<Rightarrow> ReplayMetrics" where
  "paged_finish trace run =
     (let m = run_metrics run;
          m = (if ttfts run \<noteq> [] then m\<lparr>p99_ttft_cost := sort (ttfts run) ! p99_index (length (ttfts run))\<rparr> else m)
      in m\<lparr>requests_completed := of_nat (completed run),
           rm_completed := (completed run = length (requests trace)),
           leak_free := pool_leak_free (run_stats run)\<rparr>)"

definition run_paged :: "Trace \<Rightarrow> ReplayConfig \<Rightarrow> u8 list option \<Rightarrow> ReplayMetrics option" where
  "run_paged trace cfg slab =
     map_option (paged_finish trace)
       (paged_loop trace cfg (byte_size (replay_shape trace cfg)) (paged_start trace cfg slab))"

end
