(* ===== verification/ReplayClient.thy ===== *)
theory ReplayClient
  imports ServingSystem PlanEntries
begin

text \<open>
  What the replay driver relies on when it serves requests: which prefix key a sequence carries, and how
  many sequences a run can still create. The predicate \<open>serve_ok\<close> collects the invariants of the scheduler and
  of the cache manager with these limits, and each call of the driver is shown to keep it.
\<close>

section \<open>Prefix keys\<close>

text \<open>Every sequence carries no key or the one that \<open>K\<close> gives it.\<close>

definition keys_in :: "(SequenceId \<Rightarrow> string) \<Rightarrow> KVCacheManager \<Rightarrow> bool" where
  "keys_in K kv \<longleftrightarrow> (\<forall>sid st. sequences kv sid = Some st \<longrightarrow> prefix_key st = [] \<or> prefix_key st = K sid)"

lemma keys_inD: "keys_in K kv \<Longrightarrow> sequences kv sid = Some st \<Longrightarrow> prefix_key st = [] \<or> prefix_key st = K sid"
  by (auto simp: keys_in_def)

lemma keys_in_update:
  "keys_in K kv \<Longrightarrow> sequences kv' = (sequences kv)(sid \<mapsto> st) \<Longrightarrow> prefix_key st = [] \<or> prefix_key st = K sid \<Longrightarrow>
   keys_in K kv'"
  by (auto simp: keys_in_def)

lemma keys_in_same: "sequences kv' = sequences kv \<Longrightarrow> keys_in K kv' = keys_in K kv"
  by (simp add: keys_in_def)

lemma keys_in_create: "keys_in K kv \<Longrightarrow> keys_in K (snd (create_sequence kv meta))"
  by (auto simp: create_sequence_def Let_def index_sequence_def keys_in_def)

lemma keys_in_fork: "keys_in K kv \<Longrightarrow> keys_in K (snd (fork_sequence kv parent meta))"
  by (auto simp: fork_sequence_def Let_def index_sequence_def keys_in_def split: option.split prod.split)

lemma keys_in_reserve: "keys_in K kv \<Longrightarrow> keys_in K (snd (reserve_tokens kv sid n))"
  by (auto simp: reserve_tokens_def Let_def keys_in_def split: option.split prod.split)

lemma keys_in_ensure: "keys_in K kv \<Longrightarrow> keys_in K (snd (ensure_token_writable kv sid pos kind layer))"
  by (auto simp: ensure_token_writable_def Let_def keys_in_def split: option.split prod.split)

lemma keys_in_publish: "keys_in K kv \<Longrightarrow> key = K sid \<Longrightarrow> keys_in K (snd (publish_prefix kv sid key))"
  by (auto simp: publish_prefix_def Let_def keys_in_def split: option.split)

lemma keys_in_attach: "keys_in K kv \<Longrightarrow> key = [] \<or> key = K sid \<Longrightarrow> keys_in K (snd (attach_prefix kv sid key))"
  by (auto simp: attach_prefix_def Let_def keys_in_def split: option.split prod.split)

lemma keys_in_swap_out: "keys_in K kv \<Longrightarrow> keys_in K (snd (swap_out_sequence kv sid))"
  by (auto simp: swap_out_sequence_def Let_def keys_in_def split: option.split prod.split)

lemma keys_in_swap_in: "keys_in K kv \<Longrightarrow> keys_in K (snd (swap_in_sequence kv sid))"
  by (auto simp: swap_in_sequence_def Let_def keys_in_def split: option.split prod.split)

lemma keys_in_swap_out_request: "keys_in K kv \<Longrightarrow> keys_in K (snd (swap_out_request kv rid))"
proof -
  have "keys_in K kv \<Longrightarrow> keys_in K (snd (swap_out_sequences sids kv n))" for sids n
  proof (induction sids arbitrary: kv n)
    case (Cons sid sids)
    then show ?case
      using keys_in_swap_out [of K kv sid] by (cases "swap_out_sequence kv sid") simp
  qed simp
  then show "keys_in K kv \<Longrightarrow> ?thesis" by (simp add: swap_out_request_def)
qed

lemma keys_in_swap_in_request: "keys_in K kv \<Longrightarrow> keys_in K (snd (swap_in_request kv rid))"
proof -
  have "keys_in K kv \<Longrightarrow> keys_in K (snd (swap_in_sequences sids kv))" for sids
  proof (induction sids arbitrary: kv)
    case (Cons sid sids)
    then show ?case
      using keys_in_swap_in [of K kv sid] by (cases "swap_in_sequence kv sid") (simp split: bool.split)
  qed simp
  then show "keys_in K kv \<Longrightarrow> ?thesis" by (simp add: swap_in_request_def Let_def)
qed

lemma keys_in_release: "keys_in K kv \<Longrightarrow> keys_in K (release_sequence kv sid)"
proof (cases "sequences kv sid")
  case (Some st)
  assume keys: "keys_in K kv"
  obtain kv1 st1 where drop: "drop_prefix_user kv st = (kv1, st1)" by fastforce
  have "sequences kv1 = sequences kv"
    using drop by (auto simp: drop_prefix_user_def Let_def split: option.splits if_splits)
  then have "sequences (release_sequence kv sid) = (sequences kv)(sid := None)"
    by (simp add: release_sequence_def Some drop Let_def unindex_sequence_def split: option.split)
  then show ?thesis using keys by (simp add: keys_in_def)
qed (simp add: release_sequence_def)

lemma keys_in_release_request: "keys_in K kv \<Longrightarrow> keys_in K (release_request kv rid)"
proof -
  have "keys_in K kv \<Longrightarrow> keys_in K (foldl release_sequence kv sids)" for sids
    by (induction sids arbitrary: kv) (simp_all add: keys_in_release)
  then show "keys_in K kv \<Longrightarrow> ?thesis" by (simp add: release_request_def)
qed

section \<open>Sequences still to come\<close>

text \<open>A request creates its root sequence when it is admitted and forks its other samples when its prompt is
  complete.\<close>

definition forks_left :: "(RequestId \<Rightarrow> nat) \<Rightarrow> Request \<Rightarrow> nat" where
  "forks_left M r = (if remaining_prefill_tokens r > 0 then M (request_id r) - 1 else 0)"

definition seqs_left :: "(RequestId \<Rightarrow> nat) \<Rightarrow> Scheduler \<Rightarrow> nat" where
  "seqs_left M s =
     sum_list (map (\<lambda>r. max 1 (M (request_id r))) (pending s)) + sum_list (map (forks_left M) (active s @ preempted s))"

definition key_ok :: "(SequenceId \<Rightarrow> string) \<Rightarrow> Request \<Rightarrow> bool" where
  "key_ok K r \<longleftrightarrow> rq_prefix_key r = [] \<or> rq_prefix_key r = K (root_sequence_id r)"

definition keys_ok :: "(SequenceId \<Rightarrow> string) \<Rightarrow> Scheduler \<Rightarrow> bool" where
  "keys_ok K s \<longleftrightarrow> keys_in K (cache_manager s) \<and> list_all (key_ok K) (pending s)"

lemma keys_in_place_request:
  assumes keys: "keys_in K kv" and "key_ok K r"
  shows "keys_in K (snd (place_request kv r))"
proof -
  have key: "rq_prefix_key r = [] \<or> rq_prefix_key r = K (root_sequence_id r)" using assms(2) by (simp add: key_ok_def)
  obtain c kv1 where create: "create_sequence kv (metadata_from r) = (c, kv1)" by fastforce
  let ?c = "if rq_prefix_key r = [] then 0 else prefix_token_count kv1 (rq_prefix_key r)"
  obtain att kv2 where attach: "(if ?c > 0 \<and> ?c \<le> prompt_tokens r
      then attach_prefix kv1 (root_sequence_id r) (rq_prefix_key r) else (0, kv1)) = (att, kv2)" by fastforce
  let ?n = "if prompt_tokens r > att then prompt_tokens r - att else 0"
  obtain rsv kv3 where reserve:
    "(if ?n > 0 then reserve_tokens kv2 (root_sequence_id r) ?n else (True, kv2)) = (rsv, kv3)" by fastforce
  have k1: "keys_in K kv1" using keys_in_create [OF keys] create by (metis snd_conv)
  have k2: "keys_in K kv2" using keys_in_attach [OF k1 key] k1 attach by (metis snd_conv)
  have k3: "keys_in K kv3" using keys_in_reserve [OF k2] k2 reserve by (metis snd_conv)
  show ?thesis
    unfolding place_request_def create prod.case Let_def attach reserve
    using k1 k3 keys_in_release_request [OF k3] by (cases c) simp_all
qed

text \<open>The invariants of both components, with the limits of a run: at most \<open>W\<close> sequences, \<open>k\<close> of which are kept
  for forks that are under way, at most \<open>L\<close> blocks in a sequence, and numbers for \<open>n\<close> more swap slots.\<close>

definition serve_ok :: "(SequenceId \<Rightarrow> string) \<Rightarrow> (RequestId \<Rightarrow> nat) \<Rightarrow> nat \<Rightarrow> nat \<Rightarrow> nat \<Rightarrow> nat \<Rightarrow> Scheduler \<Rightarrow> bool" where
  "serve_ok K M L W k n s \<longleftrightarrow>
     cache_sound s \<and> sched_inv s \<and> keys_ok K s
     \<and> card (dom (owners (cache_manager s))) + seqs_left M s + k \<le> W \<and> W < 1073741824
     \<and> seq_limit (cache_manager s) \<le> L \<and> tokens_fit (cache_manager s) 1
     \<and> swap_room (allocator (cache_manager s)) n"

lemma serve_okD:
  assumes "serve_ok K M L W k n s"
  shows "cache_sound s" "sched_inv s" "keys_ok K s"
    "card (dom (owners (cache_manager s))) + seqs_left M s + k \<le> W" "W < 1073741824"
    "seq_limit (cache_manager s) \<le> L" "tokens_fit (cache_manager s) 1" "swap_room (allocator (cache_manager s)) n"
    "kv_inv (cache_manager s)"
  using assms cache_sound_parts(1) by (auto simp: serve_ok_def)

lemma serve_ok_mono: "serve_ok K M L W k n s \<Longrightarrow> k' \<le> k \<Longrightarrow> n' \<le> n \<Longrightarrow> serve_ok K M L W k' n' s"
  using swap_room_mono by (auto simp: serve_ok_def)

lemma sum_list_erase_at: "i < length xs \<Longrightarrow> sum_list (map f (erase_at i xs)) + f (xs ! i) = sum_list (map f xs)"
  for f :: "'a \<Rightarrow> nat"
  using sum_erase_at [of i xs f] by simp

lemma forks_left_state [simp]: "forks_left M (r\<lparr>rq_state := st\<rparr>) = forks_left M r"
  by (simp add: forks_left_def)

lemma preempt_seqs_left:
  assumes "preempt s rid why = (ok, s')"
  shows "seqs_left M s' = seqs_left M s"
  using preempt_eq [OF assms]
proof (elim disjE conjE exE)
  fix i
  assume "i < length (active s)" "active s' = erase_at i (active s)" "pending s' = pending s"
    "preempted s' = preempted s @ [(active s ! i)\<lparr>rq_state := Preempted\<rparr>]"
  then show ?thesis
    using sum_list_erase_at [of i "active s" "forks_left M"] by (simp add: seqs_left_def)
qed simp

lemma preempt_keys_ok: "keys_ok K s \<Longrightarrow> preempt s rid why = (ok, s') \<Longrightarrow> keys_ok K s'"
  using preempt_eq [of s rid why ok s'] keys_in_swap_out_request by (auto simp: keys_ok_def)

lemma admit_seqs_left:
  assumes "i < length (pending s)" and "pending_ok (pending s ! i)"
  shows "seqs_left M (admit_at i needed s) + 1 \<le> seqs_left M s"
proof -
  have "sum_list (map (\<lambda>r. max 1 (M (request_id r))) (pending s))
      = max 1 (M (request_id (pending s ! i))) + sum_list (map (\<lambda>r. max 1 (M (request_id r))) (pending (admit_at i needed s)))"
    using sum_erase_at [OF assms(1), of "\<lambda>r. max 1 (M (request_id r))"]
    by (simp add: admit_at_def erase_at_def skip_request_def comp_def)
  moreover have "forks_left M (granted (pending s ! i) needed) \<le> M (request_id (pending s ! i)) - 1"
    by (simp add: forks_left_def granted_def)
  ultimately show ?thesis by (simp add: seqs_left_def admit_at_def)
qed

section \<open>Scheduling\<close>

text \<open>The property that admission keeps: everything of \<open>serve_ok\<close>, with the room that the cache manager needs while
  requests are preempted and placed.\<close>

definition admit_ok :: "(SequenceId \<Rightarrow> string) \<Rightarrow> (RequestId \<Rightarrow> nat) \<Rightarrow> nat \<Rightarrow> nat \<Rightarrow> nat \<Rightarrow> nat \<Rightarrow> Scheduler \<Rightarrow> bool" where
  "admit_ok K M L W k n s \<longleftrightarrow>
     cache_sound s \<and> cache_room W n s \<and> sched_inv s \<and> keys_ok K s
     \<and> card (dom (owners (cache_manager s))) + seqs_left M s + k \<le> W
     \<and> seq_limit (cache_manager s) \<le> L \<and> tokens_fit (cache_manager s) 1"

lemma admit_okI:
  assumes "cache_sound s' \<and> cache_room W n s'" and "sched_inv s'" and "keys_ok K s'"
    and "kv_layout (cache_manager s') = kv_layout (cache_manager s)" and "admit_ok K M L W k n s"
    and "card (dom (owners (cache_manager s'))) + seqs_left M s' \<le> card (dom (owners (cache_manager s))) + seqs_left M s"
  shows "admit_ok K M L W k n s'"
  using assms seq_limit_layout [OF assms(4)] tokens_fit_layout [OF assms(4)] by (simp add: admit_ok_def)

interpretation serve: placement_invariant "admit_ok K M L W k n" for K M L W k n
proof (unfold_locales, goal_cases)
  case (1 s rid why ok s')
  then have parts: "cache_sound s \<and> cache_room W n s" "sched_inv s" "keys_ok K s" by (simp_all add: admit_ok_def)
  have own: "owners (cache_manager s') = owners (cache_manager s)" using preempt_eq [OF 1(2)] by auto
  show ?case
  proof (rule admit_okI [OF cache.preempt_P [OF parts(1) 1(2)] preempt_sched_inv [OF parts(2) 1(2)]
        preempt_keys_ok [OF parts(3) 1(2)] _ 1(1)])
    show "kv_layout (cache_manager s') = kv_layout (cache_manager s)" using preempt_kv_layout [OF 1(2)] ..
  qed (simp add: own preempt_seqs_left [OF 1(2)])
next
  case (2 s r kv)
  then have parts: "cache_sound s \<and> cache_room W n s" "sched_inv s" "keys_ok K s" by (simp_all add: admit_ok_def)
  note lay = place_request_layout [OF 2(3)]
  have key: "key_ok K r" using parts(3) 2(2) by (auto simp: keys_ok_def list_all_iff)
  note sound = cache_sound_parts [OF conjunct1 [OF parts(1)]]
  have fit: "tokens_fit (cache_manager s) (prompt_tokens r)" using sound(3) 2(2) by (simp add: list_all_iff)
  have "0 < length (pending s)" using 2(2) by (cases "pending s") auto
  then have few: "card (dom (owners (cache_manager s))) + 1 < 1073741824"
    using parts(1) unfolding cache_room_def by linarith
  have "dom (owners kv) \<subseteq> dom (owners (cache_manager s))"
    using place_request_step(5) [OF sound(1,2) fit few 2(3)] by simp
  then have card: "card (dom (owners kv)) \<le> card (dom (owners (cache_manager s)))"
    using kv_inv_parts(1) [OF sound(1)] by (intro card_mono) simp_all
  show ?case
  proof (rule admit_okI [OF cache.refuse_P [OF parts(1) 2(2,3)] _ _ _ 2(1)])
    show "keys_ok K (s\<lparr>cache_manager := kv\<rparr>)"
      using parts(3) keys_in_place_request [of K "cache_manager s" r] key 2(3) by (simp add: keys_ok_def)
  qed (use parts(2) lay card in \<open>simp_all add: seqs_left_def\<close>)
next
  case (3 s i needed kv)
  then have parts: "cache_sound s \<and> cache_room W n s" "sched_inv s" "keys_ok K s" by (simp_all add: admit_ok_def)
  let ?r = "pending s ! i" and ?s = "admit_at i needed (s\<lparr>cache_manager := kv\<rparr>)"
  note lay = place_request_layout [OF 3(4)]
  have i: "i < length (pending s)" using 3(2) by (simp add: may_admit_def)
  have key: "key_ok K ?r" using parts(3) i unfolding keys_ok_def list_all_length by blast
  note sound = cache_sound_parts [OF conjunct1 [OF parts(1)]]
  have fit: "tokens_fit (cache_manager s) (prompt_tokens ?r)" using sound(3) i by (simp add: list_all_length)
  have few: "card (dom (owners (cache_manager s))) + 1 < 1073741824"
    using parts(1) i unfolding cache_room_def by linarith
  have own: "owners kv = (owners (cache_manager s))(root_sequence_id ?r \<mapsto> request_id ?r)"
    using place_request_step(4) [OF sound(1,2) fit few 3(4)] by simp
  have card: "card (dom (owners kv)) \<le> card (dom (owners (cache_manager s))) + 1"
    unfolding own using kv_inv_parts(1) [OF sound(1)] by (simp add: card_insert_if)
  have kv: "cache_manager ?s = kv" by (simp add: admit_at_def)
  have left: "seqs_left M ?s + 1 \<le> seqs_left M s"
    using admit_seqs_left [of i "s\<lparr>cache_manager := kv\<rparr>" M needed] i list_all_nth [OF sched_inv_parts(1) [OF parts(2)] i]
    by (simp add: seqs_left_def)
  have "sched_inv (s\<lparr>cache_manager := kv\<rparr>)" using parts(2) by simp
  then have inv: "sched_inv ?s"
    using 3(2,3) lay by (intro queues.admit_P) (simp_all add: may_admit_def fits_pool_def total_blocks_kv)
  show ?case
  proof (rule admit_okI [OF cache.place_P [OF parts(1) 3(2-4)] inv _ _ 3(1)])
    have "list_all (key_ok K) (pending ?s)"
      using parts(3) by (auto simp: keys_ok_def key_ok_def admit_at_def list_all_iff skip_request_def
          dest: in_set_takeD in_set_dropD)
    then show "keys_ok K ?s"
      using parts(3) keys_in_place_request [of K "cache_manager s" ?r] key 3(4) kv by (simp add: keys_ok_def)
  qed (use lay card left kv in simp_all)
qed

lemma pending_le_seqs_left: "length (pending s) \<le> seqs_left M s"
proof -
  have "length rs \<le> sum_list (map (\<lambda>r. max 1 (M (request_id r))) rs)" for rs by (induction rs) auto
  from this [of "pending s"] show ?thesis unfolding seqs_left_def by (rule trans_le_add1)
qed

lemma schedule_next_serve:
  assumes ok: "serve_ok K M L W k (N * (W * L) + n) s" and few: "length (active s) + length (pending s) \<le> N"
    and run: "schedule_next s = (plan, s')"
  shows "serve_ok K M L W k n s'"
proof -
  note parts = serve_okD [OF ok]
  have "(length (active s) + length (pending s)) * (W * seq_limit (cache_manager s)) \<le> N * (W * L)"
    using few parts(6) by (intro mult_le_mono) simp_all
  then have "cache_room W n s"
    using parts pending_le_seqs_left [of s M] swap_room_mono [OF parts(8)] by (simp add: cache_room_def)
  then have "admit_ok K M L W k n s" using parts by (simp add: admit_ok_def)
  from serve.schedule_next_P [OF this] have new: "admit_ok K M L W k n s'" using run by simp
  then have "swap_room (allocator (cache_manager s')) n" by (auto simp: admit_ok_def cache_room_def intro: swap_room_mono)
  then show ?thesis using new parts(5) by (simp add: serve_ok_def admit_ok_def)
qed

section \<open>The other calls of the driver\<close>

text \<open>An operation keeps \<open>serve_ok\<close> if it keeps the two invariants and the layout, adds no sequences and numbers no
  slots.\<close>

lemma serve_okI:
  assumes "serve_ok K M L W k n s" and "cache_sound s'" and "sched_inv s'" and "keys_ok K s'"
    and "kv_layout (cache_manager s') = kv_layout (cache_manager s)"
    and "card (dom (owners (cache_manager s'))) + seqs_left M s' + k' \<le> card (dom (owners (cache_manager s))) + seqs_left M s + k"
    and "swap_room (allocator (cache_manager s)) n \<Longrightarrow> swap_room (allocator (cache_manager s')) n'"
  shows "serve_ok K M L W k' n' s'"
  using assms seq_limit_layout [OF assms(5)] tokens_fit_layout [OF assms(5)] by (simp add: serve_ok_def)

lemma preempt_serve:
  assumes ok: "serve_ok K M L W k (W * L + n) s" and run: "preempt s rid why = (b, s')"
  shows "serve_ok K M L W k n s'"
proof -
  note parts = serve_okD [OF ok]
  from preempt_eq [OF run] show ?thesis
  proof (elim disjE conjE exE)
    fix i
    assume pend: "pending s' = pending s" and kv: "cache_manager s' = snd (swap_out_request (cache_manager s) rid)"
    have few: "card (dom (owners (cache_manager s))) \<le> W" using parts(4) by simp
    have "W * seq_limit (cache_manager s) \<le> W * L" using parts(6) by simp
    then have "swap_room (allocator (cache_manager s)) (W * seq_limit (cache_manager s) + n)"
      using swap_room_mono [OF parts(8)] by simp
    note step = swap_out_request_step [OF parts(9) few this, of rid, folded kv]
    have lay: "kv_layout (cache_manager s') = kv_layout (cache_manager s)" using preempt_kv_layout [OF run] ..
    have "cache_sound s'"
      using parts(1) step(1) lay
    proof (rule cache_soundI)
      show "ran (owners (cache_manager s')) \<subseteq> set (request_ids (active s' @ preempted s'))"
        using cache_sound_parts(4) [OF parts(1)] preempt_ids [OF run] kv by simp
    qed (simp add: pend list_all_iff)
    from ok this preempt_sched_inv [OF parts(2) run] preempt_keys_ok [OF parts(3) run] lay show ?thesis
      by (rule serve_okI) (use step(2) kv in \<open>simp_all add: preempt_seqs_left [OF run]\<close>)
  qed (use serve_ok_mono [OF ok, of k n] in simp)
qed

lemma resume_serve:
  assumes ok: "serve_ok K M L W k n s" and run: "resume s rid = (b, s')"
  shows "serve_ok K M L W k n s'"
proof -
  note parts = serve_okD [OF ok]
  obtain c kv where swap: "swap_in_request (cache_manager s) rid = (c, kv)" by fastforce
  have few: "sum_list (map (kv_swapped (cache_manager s)) (sequences_for (cache_manager s) rid)) < 4294967296"
    using request_swapped_lt [OF parts(9) cache_sound_parts(2) [OF parts(1)], of rid] by linarith
  note step = swap_in_request_step [OF parts(9) few swap]
  have kv: "cache_manager s' = cache_manager s \<or> cache_manager s' = kv" and pend: "pending s' = pending s"
    using run swap find_request_Some [of "preempted s" rid]
    by (auto simp: resume_def Let_def split: option.splits bool.splits)
  have own: "owners (cache_manager s') = owners (cache_manager s)"
    using kv swap owners_swap_in_request [of "cache_manager s" rid] by auto
  have lay: "kv_layout (cache_manager s') = kv_layout (cache_manager s)"
    using kv swap kv_layout_swap_in_request [of "cache_manager s" rid] by auto
  have "keys_in K (cache_manager s')"
    using kv swap keys_in_swap_in_request [of K "cache_manager s" rid] parts(3) by (auto simp: keys_ok_def)
  then have keys: "keys_ok K s'" using parts(3) pend by (simp add: keys_ok_def)
  have left: "seqs_left M s' = seqs_left M s"
    using resume_eq [OF run]
  proof (elim disjE conjE exE)
    fix i kv
    assume "find_request (preempted s) rid = Some i"
      and s': "s' = s\<lparr>cache_manager := kv, preempted := erase_at i (preempted s),
            lifetime_held := lifetime_held s + lifetime_blocks (preempted s ! i),
            preemption_infos := (preemption_infos s)(rid := None),
            active := active s @ [(preempted s ! i)\<lparr>rq_state :=
              (if remaining_prefill_tokens (preempted s ! i) > 0 then Prefill else Decode)\<rparr>]\<rparr>"
    then have "i < length (preempted s)" using find_request_Some by blast
    then show ?thesis using sum_list_erase_at [of i "preempted s" "forks_left M"] s' by (simp add: seqs_left_def)
  qed (simp add: seqs_left_def)
  show ?thesis
    using ok resume_cache(1) [OF parts(1) run] resume_sched_inv [OF parts(2) run] keys lay
  proof (rule serve_okI)
    show "swap_room (allocator (cache_manager s')) n" if "swap_room (allocator (cache_manager s)) n"
      using that kv step(7) by auto
  qed (simp add: own left)
qed

lemma cancel_serve:
  assumes ok: "serve_ok K M L W k n s"
  shows "serve_ok K M L W k n (cancel s rid)"
proof (cases "rid \<in># tracked s")
  case False
  then have "cancel s rid = s"
    unfolding tracked_def by (auto simp: cancel_def find_request_None split: option.split dest: find_request_Some)
  then show ?thesis using ok by simp
next
  case True
  note parts = serve_okD [OF ok]
  let ?s = "cancel s rid"
  have kv: "cache_manager ?s = release_request (cache_manager s) rid" using True by (rule cancel_tracked)
  have "dom (owners (cache_manager ?s)) \<subseteq> dom (owners (cache_manager s))"
    unfolding kv release_request_owners [OF parts(9)] dom_def by (auto split: if_splits)
  then have card: "card (dom (owners (cache_manager ?s))) \<le> card (dom (owners (cache_manager s)))"
    using kv_inv_parts(1) [OF parts(9)] by (intro card_mono) simp_all
  have erase: "sum_list (map f (erase_at i q)) \<le> sum_list (map f q)" for f :: "Request \<Rightarrow> nat" and i q
    using sum_erase_at [of i q f] by (cases "i < length q") (simp_all add: erase_at_def)
  have left: "seqs_left M ?s \<le> seqs_left M s"
    using erase by (auto simp: cancel_def seqs_left_def split: option.split)
  have "set (pending ?s) \<subseteq> set (pending s)"
    by (auto simp: cancel_def dest: set_erase_at [THEN subsetD] split: option.split)
  then have keys: "keys_ok K ?s"
    using parts(3) keys_in_release_request [of K "cache_manager s" rid] by (auto simp: keys_ok_def kv list_all_iff)
  show ?thesis
    using ok cancel_cache(1) [OF parts(1)] cancel_sched_inv [OF parts(2)] keys
  proof (rule serve_okI)
    show "swap_room (allocator (cache_manager ?s)) n" if "swap_room (allocator (cache_manager s)) n"
      using release_request_step(2) [OF parts(9) that] kv by simp
  qed (use card left kv in simp_all)
qed

section \<open>Work on sequences\<close>

lemma client_serve:
  assumes ok: "serve_ok K M L W k n s" and "client_op op s" and "kv_enabled op (cache_manager s)"
    and keys: "keys_in K (kv_apply op (cache_manager s))"
    and card: "card (dom (owners (kv_apply op (cache_manager s)))) + k' \<le> card (dom (owners (cache_manager s))) + k"
    and bk: "al_swap_backend (allocator (kv_apply op (cache_manager s))) = al_swap_backend (allocator (cache_manager s))"
  shows "serve_ok K M L W k' n (s\<lparr>cache_manager := kv_apply op (cache_manager s)\<rparr>)"
proof -
  note parts = serve_okD [OF ok]
  note sound = client_step_sound [OF parts(1) assms(2,3)]
  have "sched_inv (s\<lparr>cache_manager := kv_apply op (cache_manager s)\<rparr>)" using parts(2) by simp
  moreover have "keys_ok K (s\<lparr>cache_manager := kv_apply op (cache_manager s)\<rparr>)"
    using parts(3) keys by (simp add: keys_ok_def)
  ultimately show ?thesis
    using client_step_layout [OF assms(2)] card swap_room_backend [OF bk]
    by (intro serve_okI [OF ok sound]) (simp_all add: seqs_left_def)
qed

lemma ensure_serve:
  "serve_ok K M L W k n s \<Longrightarrow>
   serve_ok K M L W k n (s\<lparr>cache_manager := snd (ensure_token_writable (cache_manager s) sid pos kind layer)\<rparr>)"
  using client_serve [of K M L W k n s "EnsureWritable sid pos kind layer" k] keys_in_ensure serve_okD(3)
  by (auto simp: keys_ok_def)

lemma reserve_serve:
  assumes "serve_ok K M L W k n s"
  shows "serve_ok K M L W k n (s\<lparr>cache_manager := snd (reserve_tokens (cache_manager s) sid 1)\<rparr>)"
proof -
  note parts = serve_okD [OF assms]
  have "reserve_fits (cache_manager s) sid 1"
    using parts(9) cache_sound_parts(2) [OF parts(1)] parts(7) by (rule tokens_fit_reserve)
  then show ?thesis
    using client_serve [OF assms, of "ReserveTokens sid 1" k] keys_in_reserve parts(3) by (simp add: keys_ok_def)
qed

lemma few_owners: "serve_ok K M L W k n s \<Longrightarrow> card (dom (sequences (cache_manager s))) < 1073741824"
  using serve_okD(4,5) [of K M L W k n s] by simp

lemma publish_serve:
  assumes ok: "serve_ok K M L W k n s" and "key = K sid"
  shows "serve_ok K M L W k n (s\<lparr>cache_manager := snd (publish_prefix (cache_manager s) sid key)\<rparr>)"
proof -
  note parts = serve_okD [OF ok]
  have keys: "keys_in K (cache_manager s)" using parts(3) by (simp add: keys_ok_def)
  have "kv_enabled (PublishPrefix sid key) (cache_manager s)"
    using few_sequences_room [OF parts(9) few_owners [OF ok]] keys_inD [OF keys, of sid] assms(2)
    by (simp split: option.split)
  then show ?thesis
    using client_serve [OF ok, of "PublishPrefix sid key" k] keys_in_publish [OF keys assms(2)] by simp
qed

lemma fork_serve:
  assumes ok: "serve_ok K M L W (Suc k) n s" and "sm_request_id meta \<in> set (request_ids (active s @ preempted s))"
  shows "serve_ok K M L W k n (s\<lparr>cache_manager := snd (fork_sequence (cache_manager s) parent meta)\<rparr>)"
proof -
  note parts = serve_okD [OF ok]
  have keys: "keys_in K (cache_manager s)" using parts(3) by (simp add: keys_ok_def)
  obtain b kv where run: "fork_sequence (cache_manager s) parent meta = (b, kv)" by fastforce
  have "card (dom (owners kv)) \<le> card (dom (owners (cache_manager s))) + 1"
    using kv_inv_parts(1) [OF parts(9)] unfolding owners_fork [OF run] by (simp add: card_insert_if)
  then show ?thesis
    using client_serve [OF ok, of "ForkSequence parent meta" k] keys_in_fork [OF keys, of parent meta] assms(2) run
      backend_ops(4) [of "cache_manager s" parent meta]
      few_sequences_room [OF parts(9) few_owners [OF ok]] by simp
qed

section \<open>Completing a step\<close>

lemma complete_step_serve:
  assumes ok: "serve_ok K M L W k n s"
    and le: "seqs_left M (complete_step s rid c) + k' \<le> seqs_left M s + k"
  shows "serve_ok K M L W k' n (complete_step s rid c)"
proof -
  note parts = serve_okD [OF ok]
  have "cache_sound (complete_step s rid c)" using parts(1) by (simp add: complete_step_cache)
  from ok this complete_step_sched_inv [OF parts(2)] show ?thesis
    by (rule serve_okI) (use parts(3) le in \<open>simp_all add: keys_ok_def complete_step_queues\<close>)
qed

lemma sum_list_update: "i < length xs \<Longrightarrow> sum_list (map f (xs[i := x])) + f (xs ! i) = sum_list (map f xs) + f x"
  for f :: "'a \<Rightarrow> nat"
proof (induction xs arbitrary: i)
  case (Cons y ys)
  then show ?case by (cases i) auto
qed simp

lemma forks_left_le [simp]: "forks_left M r \<le> M (request_id r) - 1"
  by (simp add: forks_left_def)

lemma forks_left_mono:
  "request_id r' = request_id r \<Longrightarrow> remaining_prefill_tokens r > 0 \<or> remaining_prefill_tokens r' = 0 \<Longrightarrow>
   forks_left M r' \<le> forks_left M r"
  by (auto simp: forks_left_def)

lemma seqs_left_update:
  "i < length (active s) \<Longrightarrow>
   seqs_left M (s\<lparr>active := (active s)[i := r]\<rparr>) + forks_left M (active s ! i) = seqs_left M s + forks_left M r"
  using sum_list_update [of i "active s" "forks_left M" r] by (simp add: seqs_left_def)

lemma complete_step_seqs_left: "seqs_left M (complete_step s rid c) \<le> seqs_left M s"
proof (cases rule: complete_step_cases [of s rid c])
  case (step i r)
  note at = find_request_Some [OF step(1)]
  have "forks_left M r \<le> forks_left M (active s ! i)" using step(4,5) at by (auto simp: forks_left_def)
  then show ?thesis using seqs_left_update [of i s M r] at step(3) by simp
qed simp

text \<open>When a step completes a prompt, the forks of the request are under way.\<close>

lemma complete_step_decode:
  assumes inv: "sched_inv s" and need: "rid \<in> needs_prefill s"
    and dec: "request_state (complete_step s rid c) rid = Some Decode"
  shows "seqs_left M (complete_step s rid c) + (M rid - 1) \<le> seqs_left M s"
proof -
  note inv' = complete_step_sched_inv [OF inv, of rid c]
  obtain j where j: "find_request (active (complete_step s rid c)) rid = Some j" using request_state_Decode [OF inv' dec] .
  show ?thesis
  proof (cases rule: complete_step_cases [of s rid c])
    case same
    then have "rq_state (active s ! j) = Decode" using dec request_state_active [OF inv'] j by simp
    moreover have "remaining_prefill_tokens (active s ! j) > 0" using needs_prefill_active [OF inv need] j same by simp
    moreover have "active_ok (active s ! j)"
      using list_all_nth [OF sched_inv_parts(2) [OF inv]] find_request_Some [OF j] same by simp
    ultimately show ?thesis by (simp add: active_ok_def)
  next
    case (step i r)
    note at = find_request_Some [OF step(1)]
    have ids: "request_ids ((active s)[i := r]) = request_ids (active s)"
      using at step(4) unfolding request_ids_def by (intro nth_equalityI) (auto simp: nth_list_update)
    have "distinct (request_ids (active s))" using sched_inv_parts(4) [OF inv] by simp
    then have "find_request ((active s)[i := r]) (request_id ((active s)[i := r] ! i)) = Some i"
      using at ids by (intro find_request_distinct) (simp_all only: length_list_update)
    then have "rq_state r = Decode" using dec request_state_active [OF inv', of rid i] at step(3,4) by simp
    then have "forks_left M r = 0" using step(5) by (auto simp: forks_left_def)
    moreover have "forks_left M (active s ! i) = M rid - 1"
      using needs_prefill_active [OF inv need step(1)] at by (simp add: forks_left_def)
    ultimately show ?thesis using seqs_left_update [of i s M r] at step(3) by simp
  qed
qed


end
