(* ===== verification/PagedProps.thy ===== *)
theory PagedProps
  imports PagedReplay ReplayClient
begin

text \<open>
  The paged replay keeps the invariants of the system it drives. The invariant of a run says that the
  scheduler tracks exactly the requests that are not finished, that the counters of the driver agree with
  them, and that the limits of \<open>serve_ok\<close> hold for the sequences and swap slots that the rest of the run can
  ask for. Hence no lookup throws, and a run that completes every request leaves an empty pool.
\<close>

section \<open>The invariant of a run\<close>

definition trace_ids :: "Trace \<Rightarrow> RequestId list" where
  "trace_ids trace = map tr_request_id (requests trace)"

definition request_by_id :: "Trace \<Rightarrow> RequestId \<rightharpoonup> TraceRequest" where
  "request_by_id trace = map_of (map (\<lambda>r. (tr_request_id r, r)) (requests trace))"

definition key_for :: "Trace \<Rightarrow> SequenceId \<Rightarrow> string" where
  "key_for trace rid = (case request_by_id trace rid of None \<Rightarrow> [] | Some r \<Rightarrow> tr_prefix_key r)"

definition branches_for :: "Trace \<Rightarrow> RequestId \<Rightarrow> nat" where
  "branches_for trace rid = (case request_by_id trace rid of None \<Rightarrow> 0 | Some r \<Rightarrow> unat (tr_num_parallel_samples r))"

text \<open>All sequences a trace ever creates.\<close>

definition total_sequences :: "Trace \<Rightarrow> nat" where
  "total_sequences trace = sum_list (map (\<lambda>r. max 1 (unat (tr_num_parallel_samples r))) (requests trace))"

definition open_ids :: "Trace \<Rightarrow> bool list \<Rightarrow> RequestId list" where
  "open_ids trace done = map fst (filter (\<lambda>(rid, d). \<not> d) (zip (trace_ids trace) done))"

definition index_good :: "Trace \<Rightarrow> (RequestId \<rightharpoonup> nat) \<Rightarrow> bool" where
  "index_good trace index \<longleftrightarrow>
     (\<forall>rid i. index rid = Some i \<longleftrightarrow> i < length (requests trace) \<and> trace_ids trace ! i = rid)"

definition run_inv :: "Trace \<Rightarrow> nat \<Rightarrow> nat \<Rightarrow> nat \<Rightarrow> PagedRun \<Rightarrow> bool" where
  "run_inv trace L k n run \<longleftrightarrow>
     serve_ok (key_for trace) (branches_for trace) L (total_sequences trace) k n (scheduler run)
     \<and> index_good trace (index_of run) \<and> map rp_request (progress run) = requests trace
     \<and> tracked (scheduler run) = mset (open_ids trace (map rp_finished (progress run)))
     \<and> completed run = length (filter rp_finished (progress run))
     \<and> set (live run) \<subseteq> set (trace_ids trace)"

text \<open>Which requests are finished: only the end of a request changes this.\<close>

definition run_flags :: "PagedRun \<Rightarrow> bool list \<times> nat" where
  "run_flags run = (map rp_finished (progress run), completed run)"

lemma run_invD:
  assumes "run_inv trace L k n run"
  shows "serve_ok (key_for trace) (branches_for trace) L (total_sequences trace) k n (scheduler run)"
    "index_good trace (index_of run)" "map rp_request (progress run) = requests trace"
    "tracked (scheduler run) = mset (open_ids trace (map rp_finished (progress run)))"
    "completed run = length (filter rp_finished (progress run))" "set (live run) \<subseteq> set (trace_ids trace)"
  using assms by (simp_all add: run_inv_def)

lemma run_inv_cong:
  assumes inv: "run_inv trace L k n run" and frame: "run_frame run' = run_frame run" and flags: "run_flags run' = run_flags run"
    and track: "tracked (scheduler run') = tracked (scheduler run)"
    and live: "set (live run') \<subseteq> set (trace_ids trace)"
    and serve: "serve_ok (key_for trace) (branches_for trace) L (total_sequences trace) k' n' (scheduler run')"
  shows "run_inv trace L k' n' run'"
proof -
  have fl: "map rp_finished (progress run') = map rp_finished (progress run)" "completed run' = completed run"
    using flags by (simp_all add: run_flags_def)
  have "length (filter rp_finished ps) = length (filter (\<lambda>b. b) (map rp_finished ps))" for ps
    by (simp add: filter_map comp_def)
  then have "length (filter rp_finished (progress run')) = length (filter rp_finished (progress run))" using fl by metis
  then show ?thesis
    using assms fl run_invD [OF inv] by (simp add: run_inv_def run_frame_def)
qed

lemma run_inv_mono: "run_inv trace L k n run \<Longrightarrow> n' \<le> n \<Longrightarrow> run_inv trace L k n' run"
  using serve_ok_mono by (auto simp: run_inv_def)

lemma run_inv_index:
  assumes inv: "run_inv trace L k n run" and mem: "rid \<in> set (trace_ids trace)"
  obtains i where "index_of run rid = Some i" "i < length (progress run)"
    "tr_request_id (rp_request (progress run ! i)) = rid" "rp_request (progress run ! i) = requests trace ! i"
proof -
  note parts = run_invD [OF inv]
  have len: "length (progress run) = length (requests trace)" using arg_cong [OF parts(3), of length] by simp
  obtain i where i: "i < length (requests trace)" "trace_ids trace ! i = rid"
    using mem by (auto simp: trace_ids_def in_set_conv_nth)
  then have "rp_request (progress run ! i) = requests trace ! i" using parts(3) len by (metis nth_map)
  moreover have "index_of run rid = Some i" using i parts(2) by (simp add: index_good_def)
  ultimately show thesis using that i len by (simp add: trace_ids_def)
qed

lemma request_by_id_nth:
  assumes "distinct (trace_ids trace)" and "i < length (requests trace)"
  shows "request_by_id trace (tr_request_id (requests trace ! i)) = Some (requests trace ! i)"
proof -
  have "distinct (map fst (map (\<lambda>r. (tr_request_id r, r)) (requests trace)))"
    using assms(1) by (simp add: trace_ids_def comp_def)
  then show ?thesis unfolding request_by_id_def by (rule map_of_is_SomeI) (use assms(2) in force)
qed

lemma open_ids_subset: "set (open_ids trace done) \<subseteq> set (trace_ids trace)"
  by (auto simp: open_ids_def dest: set_zip_leftD)

lemma tracked_in_trace: "run_inv trace L k n run \<Longrightarrow> rid \<in># tracked (scheduler run) \<Longrightarrow> rid \<in> set (trace_ids trace)"
  using run_invD(4) [of trace L k n run] open_ids_subset [of trace] by auto

section \<open>Flags\<close>

lemma run_flags_fields [simp]:
  "run_flags (run\<lparr>scheduler := s\<rparr>) = run_flags run" "run_flags (run\<lparr>next_fork_sequence := m\<rparr>) = run_flags run"
  "run_flags (run\<lparr>waiting := w\<rparr>) = run_flags run" "run_flags (run\<lparr>live := l\<rparr>) = run_flags run"
  "run_flags (run\<lparr>preempted_ids := ids\<rparr>) = run_flags run" "run_flags (run\<lparr>no_progress_steps := c\<rparr>) = run_flags run"
  "run_flags (run\<lparr>token_cost := t\<rparr>) = run_flags run" "run_flags (run\<lparr>ttfts := ts\<rparr>) = run_flags run"
  "run_flags (run\<lparr>progress_made := b\<rparr>) = run_flags run" "run_flags (run\<lparr>growth_failed := b\<rparr>) = run_flags run"
  "run_flags (run\<lparr>run_metrics := m'\<rparr>) = run_flags run" "run_flags (with_cache run kv) = run_flags run"
  by (simp_all add: run_flags_def with_cache_def)

lemma run_flags_progress:
  "rp_finished state = rp_finished (progress run ! i) \<Longrightarrow> run_flags (with_progress run i state) = run_flags run"
  by (cases "i < length (progress run)") (auto simp: run_flags_def with_progress_def map_update list_update_beyond
      intro: list_update_same_conv [THEN iffD2])

lemma note_admission_flags: "run_flags (note_admission cfg i rid run) = run_flags run"
  by (auto simp: note_admission_def Let_def run_flags_progress)

lemma touch_prompt_flags: "run_flags (touch_prompt cfg i chunk run) = run_flags run"
  by (auto simp: touch_prompt_def Let_def run_flags_progress split: prod.split)

lemma touch_token_flags: "run_flags (touch_token cfg i run) = run_flags run"
  by (auto simp: touch_token_def Let_def run_flags_progress split: prod.split)

lemma fork_branch_flags: "run_flags (fork_branch i run b) = run_flags run"
  by (auto simp: fork_branch_def Let_def run_flags_progress split: prod.split)

section \<open>Touching and growing\<close>

lemma touch_position_cache:
  "touch_position kv sid pos tpb m = (kv', m') \<Longrightarrow> kv' = kv \<or> kv' = snd (ensure_token_writable kv sid pos TextKV 0)"
  by (auto simp: touch_position_def Let_def split: option.splits prod.splits if_splits)

lemma ensure_capacity_cache:
  "ensure_capacity kv sid pos tpb = (b, kv') \<Longrightarrow> kv' = kv \<or> kv' = snd (reserve_tokens kv sid 1)"
  by (auto simp: ensure_capacity_def split: option.splits if_splits)

lemma touch_position_serve:
  assumes "serve_ok K M L W k n (s\<lparr>cache_manager := kv\<rparr>)" and "touch_position kv sid pos tpb m = (kv', m')"
  shows "serve_ok K M L W k n (s\<lparr>cache_manager := kv'\<rparr>)"
  using touch_position_cache [OF assms(2)] ensure_serve [OF assms(1), of sid pos TextKV 0] assms(1) by auto

lemma fold_serve:
  assumes step: "\<And>kv m x kv' m'. f (kv, m) x = (kv', m') \<Longrightarrow> serve_ok K M L W k n (s\<lparr>cache_manager := kv\<rparr>) \<Longrightarrow>
      serve_ok K M L W k n (s\<lparr>cache_manager := kv'\<rparr>)"
  shows "foldl f (kv, m) xs = (kv', m') \<Longrightarrow> serve_ok K M L W k n (s\<lparr>cache_manager := kv\<rparr>) \<Longrightarrow>
      serve_ok K M L W k n (s\<lparr>cache_manager := kv'\<rparr>)"
proof (induction xs arbitrary: kv m)
  case (Cons x xs)
  obtain kv1 m1 where first: "f (kv, m) x = (kv1, m1)" by fastforce
  then have "foldl f (kv1, m1) xs = (kv', m')" using Cons.prems(1) by simp
  then show ?case using Cons.IH step [OF first Cons.prems(2)] by blast
qed simp

lemma grow_all_serve:
  "grow_all tpb pos sids kv = (b, kv') \<Longrightarrow> serve_ok K M L W k n (s\<lparr>cache_manager := kv\<rparr>) \<Longrightarrow>
   serve_ok K M L W k n (s\<lparr>cache_manager := kv'\<rparr>)"
proof (induction tpb pos sids kv rule: grow_all.induct)
  case (2 tpb pos sid sids kv)
  obtain c kv1 where first: "ensure_capacity kv sid pos tpb = (c, kv1)" by fastforce
  have "serve_ok K M L W k n (s\<lparr>cache_manager := kv1\<rparr>)"
    using ensure_capacity_cache [OF first] reserve_serve [OF "2.prems"(2), of sid] "2.prems"(2) by auto
  then show ?case using 2 first by (auto split: bool.splits)
qed simp

text \<open>A change of the cache manager alone.\<close>

lemma cache_self: "s\<lparr>cache_manager := cache_manager s\<rparr> = s"
  by simp

lemma tracked_cache [simp]: "tracked (s\<lparr>cache_manager := kv\<rparr>) = tracked s" "needs_prefill (s\<lparr>cache_manager := kv\<rparr>) = needs_prefill s"
  by (simp_all add: tracked_def needs_prefill_def)

definition only_cache :: "PagedRun \<Rightarrow> PagedRun \<Rightarrow> bool" where
  "only_cache run run' \<longleftrightarrow> (\<exists>kv. scheduler run' = (scheduler run)\<lparr>cache_manager := kv\<rparr>)"

lemma only_cache_tracked: "only_cache run run' \<Longrightarrow> tracked (scheduler run') = tracked (scheduler run)"
  and only_cache_needs: "only_cache run run' \<Longrightarrow> needs_prefill (scheduler run') = needs_prefill (scheduler run)"
  and only_cache_active: "only_cache run run' \<Longrightarrow> active (scheduler run') = active (scheduler run) \<and> preempted (scheduler run') = preempted (scheduler run)"
  by (auto simp: only_cache_def)

lemma only_cache_trans: "only_cache a b \<Longrightarrow> only_cache b c \<Longrightarrow> only_cache a c"
  by (auto simp: only_cache_def)

lemma only_cache_refl [simp]: "only_cache a a"
  unfolding only_cache_def by (rule exI [of _ "run_cache a"]) simp

lemma with_cache_scheduler [simp]: "scheduler (with_cache run kv) = (scheduler run)\<lparr>cache_manager := kv\<rparr>"
  by (simp add: with_cache_def)

lemma only_cache_with [simp]: "only_cache run (with_cache run kv)"
  by (auto simp: only_cache_def)

lemma live_with [simp]: "live (with_cache run kv) = live run" "live (with_progress run i state) = live run"
  by (simp_all add: with_cache_def with_progress_def)

lemma note_admission_run:
  assumes inv: "run_inv trace L k n run" and mem: "rid \<in> set (trace_ids trace)"
  shows "run_inv trace L k n (note_admission cfg i rid run)" and "scheduler (note_admission cfg i rid run) = scheduler run"
proof -
  show sch: "scheduler (note_admission cfg i rid run) = scheduler run" by (auto simp: note_admission_def Let_def)
  have "set (live (note_admission cfg i rid run)) \<subseteq> insert rid (set (live run))"
    by (auto simp: note_admission_def Let_def with_progress_def split: if_splits)
  then have "set (live (note_admission cfg i rid run)) \<subseteq> set (trace_ids trace)" using run_invD(6) [OF inv] mem by blast
  from run_inv_cong [OF inv note_admission_frame note_admission_flags _ this] show "run_inv trace L k n (note_admission cfg i rid run)"
    using sch run_invD(1) [OF inv] by simp
qed

lemma touch_prompt_run:
  assumes inv: "run_inv trace L k n run"
  shows "run_inv trace L k n (touch_prompt cfg i chunk run)" and "only_cache run (touch_prompt cfg i chunk run)"
proof -
  let ?state = "progress run ! i"
  obtain kv m where touch: "foldl (touch_offset (rc_tokens_per_block cfg) (tr_request_id (rp_request ?state))
      (rp_committed ?state) (rp_shared_prompt_tokens ?state)) (run_cache run, run_metrics run) [0..<unat chunk] = (kv, m)"
    by fastforce
  have sch: "scheduler (touch_prompt cfg i chunk run) = (scheduler run)\<lparr>cache_manager := kv\<rparr>"
    "live (touch_prompt cfg i chunk run) = live run"
    by (simp_all add: touch_prompt_def touch Let_def)
  then show "only_cache run (touch_prompt cfg i chunk run)" by (auto simp: only_cache_def)
  have "serve_ok (key_for trace) (branches_for trace) L (total_sequences trace) k n ((scheduler run)\<lparr>cache_manager := kv\<rparr>)"
    using _ touch
  proof (rule fold_serve)
    show "serve_ok (key_for trace) (branches_for trace) L (total_sequences trace) k n
        ((scheduler run)\<lparr>cache_manager := run_cache run\<rparr>)" using run_invD(1) [OF inv] by simp
  qed (auto simp: touch_offset_def Let_def dest: touch_position_serve split: if_splits)
  then show "run_inv trace L k n (touch_prompt cfg i chunk run)"
    using run_inv_cong [OF inv touch_prompt_frame touch_prompt_flags] run_invD(6) [OF inv] by (simp add: sch)
qed

lemma touch_token_run:
  assumes inv: "run_inv trace L k n run"
  shows "run_inv trace L k n (touch_token cfg i run)" and "only_cache run (touch_token cfg i run)"
proof -
  let ?state = "progress run ! i"
  obtain kv m where touch: "foldl (\<lambda>(kv, m) sid. touch_position kv sid (rp_committed ?state) (rc_tokens_per_block cfg) m)
      (run_cache run, run_metrics run) (rp_sequences ?state) = (kv, m)" by fastforce
  have sch: "scheduler (touch_token cfg i run) = (scheduler run)\<lparr>cache_manager := kv\<rparr>"
    "live (touch_token cfg i run) = live run"
    by (simp_all add: touch_token_def touch Let_def)
  then show "only_cache run (touch_token cfg i run)" by (auto simp: only_cache_def)
  have "serve_ok (key_for trace) (branches_for trace) L (total_sequences trace) k n ((scheduler run)\<lparr>cache_manager := kv\<rparr>)"
    using _ touch
  proof (rule fold_serve)
    show "serve_ok (key_for trace) (branches_for trace) L (total_sequences trace) k n
        ((scheduler run)\<lparr>cache_manager := run_cache run\<rparr>)" using run_invD(1) [OF inv] by simp
  qed (auto dest: touch_position_serve)
  then show "run_inv trace L k n (touch_token cfg i run)"
    using run_inv_cong [OF inv touch_token_frame touch_token_flags] run_invD(6) [OF inv] by (simp add: sch)
qed

section \<open>Prefilling\<close>

lemma fork_branch_run:
  assumes inv: "run_inv trace L (Suc k) n run"
    and mem: "tr_request_id (rp_request (progress run ! i)) \<in> set (request_ids (active (scheduler run) @ preempted (scheduler run)))"
  shows "run_inv trace L k n (fork_branch i run b)" and "only_cache run (fork_branch i run b)"
    and "rp_request (progress (fork_branch i run b) ! i) = rp_request (progress run ! i)"
proof -
  let ?req = "rp_request (progress run ! i)"
  let ?child = "\<lparr>sm_sequence_id = next_fork_sequence run, sm_request_id = tr_request_id ?req,
      sm_multimodal_spans = tr_multimodal_spans ?req, sm_positional_encoding = tr_positional_encoding ?req\<rparr>"
  let ?kv = "snd (fork_sequence (run_cache run) (tr_request_id ?req) ?child)"
  have sch: "scheduler (fork_branch i run b) = (scheduler run)\<lparr>cache_manager := ?kv\<rparr>" "live (fork_branch i run b) = live run"
    by (auto simp: fork_branch_def Let_def split: prod.split)
  show "only_cache run (fork_branch i run b)" unfolding only_cache_def sch by blast
  have "serve_ok (key_for trace) (branches_for trace) L (total_sequences trace) k n (scheduler (fork_branch i run b))"
    unfolding sch by (rule fork_serve [OF run_invD(1) [OF inv]]) (use mem in simp)
  then show "run_inv trace L k n (fork_branch i run b)"
    using run_inv_cong [OF inv fork_branch_frame fork_branch_flags] run_invD(6) [OF inv] by (simp add: sch)
  have "map rp_request (progress (fork_branch i run b)) = map rp_request (progress run)"
    using fork_branch_frame [of i run b] by (simp add: run_frame_def)
  then show "rp_request (progress (fork_branch i run b) ! i) = rp_request (progress run ! i)"
    by (cases "i < length (progress run)")
      (metis length_map nth_map, auto simp: fork_branch_def Let_def with_progress_def with_cache_def list_update_beyond split: prod.split)
qed

lemma fork_all_run:
  "run_inv trace L (length bs) n run \<Longrightarrow>
   tr_request_id (rp_request (progress run ! i)) \<in> set (request_ids (active (scheduler run) @ preempted (scheduler run))) \<Longrightarrow>
   run_inv trace L 0 n (foldl (fork_branch i) run bs) \<and> only_cache run (foldl (fork_branch i) run bs)"
proof (induction bs arbitrary: run)
  case (Cons b bs)
  note step = fork_branch_run [of trace L "length bs" n run i b]
  have "run_inv trace L 0 n (foldl (fork_branch i) (fork_branch i run b) bs)
      \<and> only_cache (fork_branch i run b) (foldl (fork_branch i) (fork_branch i run b) bs)"
    using Cons step only_cache_active by simp
  then show ?case using only_cache_trans step(2) Cons.prems by simp
qed simp

lemma start_decoding_run:
  assumes inv: "run_inv trace L (branches_for trace rid - 1) n run" and dist: "distinct (trace_ids trace)"
    and i: "i < length (progress run)" and rid: "tr_request_id (rp_request (progress run ! i)) = rid"
    and mem: "rid \<in> set (request_ids (active (scheduler run) @ preempted (scheduler run)))"
  shows "run_inv trace L 0 n (start_decoding cfg i run)" and "only_cache run (start_decoding cfg i run)"
proof -
  let ?req = "rp_request (progress run ! i)" and ?k = "branches_for trace rid - 1"
  have len: "length (progress run) = length (requests trace)" using arg_cong [OF run_invD(3) [OF inv], of length] by simp
  have "?req = requests trace ! i" using run_invD(3) [OF inv] i len by (metis nth_map)
  then have by_id: "request_by_id trace rid = Some ?req" using request_by_id_nth [OF dist] i len rid by metis
  define run1 where "run1 = (if prefix_caching cfg \<and> tr_prefix_key ?req \<noteq> []
      then with_cache run (snd (publish_prefix (run_cache run) (tr_request_id ?req) (tr_prefix_key ?req))) else run)"
  have "run_inv trace L ?k n (with_cache run (snd (publish_prefix (run_cache run) rid (tr_prefix_key ?req))))"
  proof (rule run_inv_cong [OF inv])
    show "serve_ok (key_for trace) (branches_for trace) L (total_sequences trace) ?k n
        (scheduler (with_cache run (snd (publish_prefix (run_cache run) rid (tr_prefix_key ?req)))))"
      unfolding with_cache_scheduler using run_invD(1) [OF inv] by (rule publish_serve) (simp add: key_for_def by_id)
  qed (use run_invD(6) [OF inv] in simp_all)
  then have inv1: "run_inv trace L ?k n run1" using inv rid by (simp add: run1_def)
  have oc1: "only_cache run run1" by (simp add: run1_def)
  have prog: "progress run1 = progress run" by (simp add: run1_def)
  let ?bs = "[1..<unat (tr_num_parallel_samples ?req)]"
  have k: "length ?bs = ?k" by (simp add: branches_for_def by_id)
  have all: "run_inv trace L 0 n (foldl (fork_branch i) run1 ?bs) \<and> only_cache run1 (foldl (fork_branch i) run1 ?bs)"
  proof (rule fork_all_run)
    show "run_inv trace L (length ?bs) n run1" using inv1 unfolding k .
    show "tr_request_id (rp_request (progress run1 ! i)) \<in> set (request_ids (active (scheduler run1) @ preempted (scheduler run1)))"
      using mem rid prog only_cache_active [OF oc1] by simp
  qed
  have "start_decoding cfg i run = foldl (fork_branch i) run1 ?bs" by (simp add: start_decoding_def run1_def Let_def)
  then show "run_inv trace L 0 n (start_decoding cfg i run)" and "only_cache run (start_decoding cfg i run)"
    using all only_cache_trans [OF oc1] by simp_all
qed

lemma complete_step_needs: "needs_prefill s - {rid} \<subseteq> needs_prefill (complete_step s rid c)"
proof (cases rule: complete_step_cases [of s rid c])
  case (step i r)
  note at = find_request_Some [OF step(1)]
  show ?thesis
  proof
    fix x assume "x \<in> needs_prefill s - {rid}"
    then obtain q where q: "q \<in> set (active s @ preempted s)" "remaining_prefill_tokens q > 0" "x = request_id q" "x \<noteq> rid"
      by (auto simp: needs_prefill_def)
    have "q \<in> set ((active s)[i := r])" if mem: "q \<in> set (active s)"
    proof -
      obtain j where j: "j < length (active s)" "active s ! j = q" using mem by (auto simp: in_set_conv_nth)
      then have "j \<noteq> i" using q(3,4) at by auto
      then have "(active s)[i := r] ! j = q" using j by simp
      then show ?thesis using j(1) by (metis length_list_update nth_mem)
    qed
    then have "q \<in> set (active (complete_step s rid c) @ preempted (complete_step s rid c))" using q(1) step(3) by auto
    then show "x \<in> needs_prefill (complete_step s rid c)" using q(2,3) by (auto simp: needs_prefill_def)
  qed
qed auto

lemma tracked_complete_step [simp]: "tracked (complete_step s rid c) = tracked s"
  by (simp add: tracked_ids complete_step_queues)

lemma prefill_one_run:
  assumes inv: "run_inv trace L 0 n run" and dist: "distinct (trace_ids trace)" and need: "rid \<in> needs_prefill (scheduler run)"
  obtains run' where "prefill_one cfg run rid chunk = Some run'" "run_inv trace L 0 n run'"
    "tracked (scheduler run') = tracked (scheduler run)"
    "needs_prefill (scheduler run) - {rid} \<subseteq> needs_prefill (scheduler run')"
proof -
  have "rid \<in># tracked (scheduler run)"
    using need needs_prefill_ids [of "scheduler run"] unfolding tracked_ids by auto
  then have mem: "rid \<in> set (trace_ids trace)" using tracked_in_trace [OF inv] by blast
  obtain i where i: "index_of run rid = Some i" "i < length (progress run)"
    "tr_request_id (rp_request (progress run ! i)) = rid" using run_inv_index [OF inv mem] by metis
  define run1 where "run1 = touch_prompt cfg i chunk (note_admission cfg i rid run)"
  note adm = note_admission_run [OF inv mem, of cfg i]
  have inv1: "run_inv trace L 0 n run1" unfolding run1_def by (rule touch_prompt_run [OF adm(1)])
  have oc1: "only_cache run run1"
    using touch_prompt_run(2) [OF adm(1), of cfg i chunk] adm(2) by (simp add: run1_def only_cache_def)
  define run2 where "run2 = run1\<lparr>scheduler := complete_step (scheduler run1) rid chunk, progress_made := True\<rparr>"
  have frame: "run_frame run2 = run_frame run"
    by (simp add: run2_def run1_def touch_prompt_frame note_admission_frame)
  have req: "map rp_request (progress run2) = map rp_request (progress run)" using frame by (simp add: run_frame_def)
  then have i2: "i < length (progress run2)" "tr_request_id (rp_request (progress run2 ! i)) = rid"
    using i by (metis length_map, metis length_map nth_map)
  have inv2: "run_inv trace L k n run2"
    if "seqs_left (branches_for trace) (complete_step (scheduler run1) rid chunk) + k
        \<le> seqs_left (branches_for trace) (scheduler run1) + 0" for k
  proof (rule run_inv_cong [OF inv1])
    show "serve_ok (key_for trace) (branches_for trace) L (total_sequences trace) k n (scheduler run2)"
      using complete_step_serve [OF run_invD(1) [OF inv1] that] by (simp add: run2_def)
  qed (use run_invD(6) [OF inv1] in \<open>simp_all add: run2_def\<close>)
  have track2: "tracked (scheduler run2) = tracked (scheduler run)"
    using only_cache_tracked [OF oc1] by (simp add: run2_def)
  have needs2: "needs_prefill (scheduler run) - {rid} \<subseteq> needs_prefill (scheduler run2)"
    using complete_step_needs [of "scheduler run1" rid chunk] only_cache_needs [OF oc1] by (simp add: run2_def)
  have eq: "prefill_one cfg run rid chunk
      = Some (if request_state (scheduler run2) rid = Some Decode then start_decoding cfg i run2 else run2)"
    by (simp add: prefill_one_def i(1) run2_def run1_def Let_def)
  show thesis
  proof (cases "request_state (scheduler run2) rid = Some Decode")
    case False
    then show thesis
      using that [of run2] eq inv2 [of 0] complete_step_seqs_left track2 needs2 by simp
  next
    case True
    have s1: "sched_inv (scheduler run1)" using serve_okD(2) [OF run_invD(1) [OF inv1]] .
    have "seqs_left (branches_for trace) (complete_step (scheduler run1) rid chunk) + (branches_for trace rid - 1)
        \<le> seqs_left (branches_for trace) (scheduler run1)"
      using complete_step_decode [OF s1] need only_cache_needs [OF oc1] True by (simp add: run2_def)
    then have inv3: "run_inv trace L (branches_for trace rid - 1) n run2" using inv2 by simp
    have "rid \<in> set (request_ids (active (scheduler run1) @ preempted (scheduler run1)))"
      using need needs_prefill_ids only_cache_needs [OF oc1] by blast
    then have mem2: "rid \<in> set (request_ids (active (scheduler run2) @ preempted (scheduler run2)))"
      by (simp add: run2_def complete_step_queues del: request_ids_simps(6))
    note start = start_decoding_run [OF inv3 dist i2 mem2, of cfg]
    show thesis
      using that [of "start_decoding cfg i run2"] eq True start track2 needs2
        only_cache_tracked [OF start(2)] only_cache_needs [OF start(2)] by simp
  qed
qed

lemma prefill_all_run:
  "run_inv trace L 0 n run \<Longrightarrow> distinct (trace_ids trace) \<Longrightarrow> distinct (map fst ps) \<Longrightarrow>
   set (map fst ps) \<subseteq> needs_prefill (scheduler run) \<Longrightarrow>
   \<exists>run'. prefill_all cfg ps run = Some run' \<and> run_inv trace L 0 n run'
     \<and> tracked (scheduler run') = tracked (scheduler run)"
proof (induction cfg ps run rule: prefill_all.induct)
  case (2 cfg rid chunk rest run)
  have "rid \<in> needs_prefill (scheduler run)" using "2.prems"(4) by simp
  then obtain run1 where run1: "prefill_one cfg run rid chunk = Some run1" "run_inv trace L 0 n run1"
    "tracked (scheduler run1) = tracked (scheduler run)"
    "needs_prefill (scheduler run) - {rid} \<subseteq> needs_prefill (scheduler run1)"
    using prefill_one_run [OF "2.prems"(1,2), of rid cfg chunk] by metis
  have "set (map fst rest) \<subseteq> needs_prefill (scheduler run1)" using "2.prems"(3,4) run1(4) by auto
  then show ?case using "2.IH" [OF run1(1,2) "2.prems"(2)] "2.prems"(3) run1(1,3) by simp
qed simp

section \<open>Decoding\<close>

lemma preempt_run:
  assumes inv: "run_inv trace L 0 (total_sequences trace * L + n) run"
    and run: "preempt (scheduler run) rid why = (b, s)"
  shows "run_inv trace L 0 n (run\<lparr>scheduler := s\<rparr>)" and "tracked s = tracked (scheduler run)"
proof -
  show track: "tracked s = tracked (scheduler run)" using track.preempt_P [OF refl run] .
  show "run_inv trace L 0 n (run\<lparr>scheduler := s\<rparr>)"
    by (rule run_inv_cong [OF inv])
      (use preempt_serve [OF run_invD(1) [OF inv] run] run_invD(6) [OF inv] track in simp_all)
qed

lemma reclaim_newest_run:
  "run_inv trace L 0 (total_sequences trace * L + n) run \<Longrightarrow> set ids \<subseteq> set (trace_ids trace) \<Longrightarrow>
   \<exists>b run'. reclaim_newest fb ip ids run = Some (b, run') \<and> run_inv trace L 0 n run'
     \<and> tracked (scheduler run') = tracked (scheduler run)"
proof (induction fb ip ids run rule: reclaim_newest.induct)
  case (1 fb ip run)
  then show ?case using run_inv_mono [OF "1.prems"(1), of n] by auto
next
  case (2 fb ip rid rids run)
  obtain i where i: "index_of run rid = Some i" using run_inv_index [OF "2.prems"(1), of rid] "2.prems"(2) by auto
  obtain b s where pre: "preempt (scheduler run) rid ''decode growth failed'' = (b, s)" by fastforce
  note step = preempt_run [OF "2.prems"(1) pre]
  have "s = scheduler run" if "\<not> b" using preempt_eq [OF pre] that by blast
  then show ?case using 2 i pre step by (cases b) auto
qed

lemma filter_update:
  "i < length xs \<Longrightarrow> \<not> xs ! i \<Longrightarrow> length (filter (\<lambda>b. b) (xs[i := True])) = Suc (length (filter (\<lambda>b. b) xs))"
proof (induction xs arbitrary: i)
  case (Cons x xs)
  then show ?case by (cases i) auto
qed simp

lemma open_ids_finish:
  assumes "i < length (requests trace)" and "length done = length (requests trace)" and "\<not> done ! i"
  shows "mset (open_ids trace done) = add_mset (trace_ids trace ! i) (mset (open_ids trace (done[i := True])))"
proof -
  have "mset (map fst (filter (\<lambda>(rid, d). \<not> d) (zip ids done)))
      = add_mset (ids ! i) (mset (map fst (filter (\<lambda>(rid, d). \<not> d) (zip ids (done[i := True])))))"
    if "length ids = length done" "i < length ids" "\<not> done ! i" for i and ids :: "RequestId list" and "done"
    using that
  proof (induction ids "done" arbitrary: i rule: list_induct2)
    case (Cons x xs d ds)
    then show ?case by (cases i) auto
  qed simp
  then show ?thesis using assms unfolding open_ids_def by (simp add: trace_ids_def)
qed

lemma open_ids_mem:
  assumes "distinct (trace_ids trace)" and "i < length (requests trace)" and "trace_ids trace ! i \<in> set (open_ids trace done)"
  shows "\<not> done ! i"
proof -
  obtain j where j: "j < length (trace_ids trace)" "j < length done" "trace_ids trace ! j = trace_ids trace ! i" "\<not> done ! j"
    using assms(3) by (auto simp: open_ids_def set_zip)
  then have "j = i" using assms(1,2) nth_eq_iff_index_eq [of "trace_ids trace" j i] by (simp add: trace_ids_def)
  then show ?thesis using j(4) by simp
qed

lemma finish_request_run:
  assumes inv: "run_inv trace L 0 n run" and dist: "distinct (trace_ids trace)" and mem: "rid \<in># tracked (scheduler run)"
    and i: "i < length (progress run)" "tr_request_id (rp_request (progress run ! i)) = rid"
  shows "run_inv trace L 0 n (finish_request i rid run)"
    and "tracked (scheduler run) = add_mset rid (tracked (scheduler (finish_request i rid run)))"
proof -
  note parts = run_invD [OF inv]
  let ?done = "map rp_finished (progress run)" and ?run = "finish_request i rid run"
  have len: "length (progress run) = length (requests trace)" using arg_cong [OF parts(3), of length] by simp
  have "rp_request (progress run ! i) = requests trace ! i" using parts(3) i(1) len by (metis nth_map)
  then have rid: "trace_ids trace ! i = rid" using i len by (simp add: trace_ids_def)
  have notdone: "\<not> ?done ! i" using open_ids_mem [OF dist] i(1) len mem parts(4) rid by simp
  show track: "tracked (scheduler run) = add_mset rid (tracked (scheduler ?run))"
    using cancel_tracked(1) [OF mem] by (simp add: finish_request_def)
  have done': "map rp_finished (progress ?run) = ?done[i := True]"
    by (simp add: finish_request_def with_progress_def map_update)
  have open_eq: "tracked (scheduler ?run) = mset (open_ids trace (map rp_finished (progress ?run)))"
    using open_ids_finish [of i trace ?done] i(1) len notdone rid parts(4) track done' by simp
  have count: "length (filter rp_finished ps) = length (filter (\<lambda>b. b) (map rp_finished ps))" for ps
    by (simp add: filter_map comp_def)
  have "length (filter rp_finished (progress ?run)) = Suc (length (filter rp_finished (progress run)))"
    using filter_update [of i ?done] i(1) notdone done' count [of "progress ?run"] count [of "progress run"] by simp
  then have comp: "completed ?run = length (filter rp_finished (progress ?run))"
    using parts(5) by (simp add: finish_request_def)
  have "run_frame ?run = run_frame run" by (simp add: finish_request_def run_frame_simps)
  then have fixed: "index_of ?run = index_of run" "map rp_request (progress ?run) = map rp_request (progress run)"
    by (simp_all add: run_frame_def)
  show "run_inv trace L 0 n ?run"
    using parts cancel_serve [OF parts(1), of rid] open_eq comp fixed
    by (simp add: run_inv_def finish_request_def)
qed

lemma decode_token_run:
  assumes inv: "run_inv trace L 0 n run" and dist: "distinct (trace_ids trace)" and mem: "rid \<in># tracked (scheduler run)"
    and i: "i < length (progress run)" "tr_request_id (rp_request (progress run ! i)) = rid"
  shows "run_inv trace L 0 n (decode_token cfg sc i rid run)"
    and "tracked (scheduler run) \<subseteq># add_mset rid (tracked (scheduler (decode_token cfg sc i rid run)))"
proof -
  let ?t = "touch_token cfg i run"
  note touch = touch_token_run [OF inv, of cfg i]
  define run1 where "run1 = ?t\<lparr>scheduler := complete_step (scheduler ?t) rid 1, progress_made := True\<rparr>"
  define run2 where "run2 = (if rp_decoded (progress run1 ! i) = 1
      then run1\<lparr>ttfts := ttfts run1 @ [token_cost run1 + ucast sc]\<rparr> else run1)"
  have same: "scheduler run2 = complete_step (scheduler ?t) rid 1" "progress run2 = progress ?t" "live run2 = live ?t"
    "run_frame run2 = run_frame ?t" "run_flags run2 = run_flags ?t"
    by (simp_all add: run2_def run1_def)
  have inv2: "run_inv trace L 0 n run2"
  proof (rule run_inv_cong [OF touch(1) same(4,5)])
    show "serve_ok (key_for trace) (branches_for trace) L (total_sequences trace) 0 n (scheduler run2)"
      unfolding same using complete_step_seqs_left by (intro complete_step_serve [OF run_invD(1) [OF touch(1)]]) simp
  qed (use run_invD(6) [OF touch(1)] same in simp_all)
  have track: "tracked (scheduler run2) = tracked (scheduler run)" using same(1) only_cache_tracked [OF touch(2)] by simp
  have "map rp_request (progress run2) = map rp_request (progress run)"
    using same(4) touch_token_frame [of cfg i run] by (simp add: run_frame_def)
  then have i2: "i < length (progress run2)" "tr_request_id (rp_request (progress run2 ! i)) = rid"
    using i by (metis length_map, metis length_map nth_map)
  have mem2: "rid \<in># tracked (scheduler run2)" using mem track by simp
  note fin = finish_request_run [OF inv2 dist mem2 i2]
  have "progress run1 = progress run2" by (simp add: run2_def)
  then have eq: "decode_token cfg sc i rid run
      = (if rp_decoded (progress run2 ! i) \<ge> decode_actual (rp_request (progress run2 ! i)) then finish_request i rid run2 else run2)"
    unfolding decode_token_def Let_def run1_def [symmetric] run2_def [symmetric] by simp
  show "run_inv trace L 0 n (decode_token cfg sc i rid run)" using eq inv2 fin(1) by simp
  show "tracked (scheduler run) \<subseteq># add_mset rid (tracked (scheduler (decode_token cfg sc i rid run)))"
    using eq track fin(2) by simp
qed

lemma decode_one_run:
  assumes inv: "run_inv trace L 0 (total_sequences trace * L + n) run" and dist: "distinct (trace_ids trace)"
    and mem: "rid \<in># tracked (scheduler run)"
  obtains run' where "decode_one cfg ip sc rid run = Some run'" "run_inv trace L 0 n run'"
    "tracked (scheduler run) \<subseteq># add_mset rid (tracked (scheduler run'))"
proof -
  obtain i where i: "index_of run rid = Some i" "i < length (progress run)"
    "tr_request_id (rp_request (progress run ! i)) = rid" using run_inv_index [OF inv tracked_in_trace [OF inv mem]] by metis
  show thesis
  proof (cases "preemption_info (scheduler run) rid = None")
    case False
    then have "decode_one cfg ip sc rid run = Some run" by (simp add: decode_one_def i)
    then show thesis using that run_inv_mono [OF inv, of n] by simp
  next
    case True
    let ?state = "progress run ! i"
    obtain grew kv where grow: "grow_all (rc_tokens_per_block cfg) (rp_committed ?state) (rp_sequences ?state) (run_cache run) = (grew, kv)"
      by fastforce
    let ?run = "with_cache run kv"
    have inv1: "run_inv trace L 0 (total_sequences trace * L + n) ?run"
      by (rule run_inv_cong [OF inv])
        (use grow_all_serve [OF grow, of "key_for trace" "branches_for trace" L "total_sequences trace" 0 _ "scheduler run"]
          run_invD(1,6) [OF inv] in simp_all)
    show thesis
    proof (cases grew)
      case True
      have "decode_one cfg ip sc rid run = Some (decode_token cfg sc i rid ?run)"
        using \<open>preemption_info (scheduler run) rid = None\<close> grow True by (simp add: decode_one_def i)
      moreover have "run_inv trace L 0 n ?run" using run_inv_mono [OF inv1, of n] by simp
      ultimately show thesis
        using that decode_token_run [OF _ dist, of L n ?run rid i cfg sc] mem i by simp
    next
      case False
      have "run_inv trace L 0 (total_sequences trace * L + n) (?run\<lparr>growth_failed := True\<rparr>)"
        by (rule run_inv_cong [OF inv1]) (use run_invD(1,6) [OF inv1] in simp_all)
      from reclaim_newest_run [OF this, of "rev (live run)" "free_blocks (run_stats (?run\<lparr>growth_failed := True\<rparr>))" ip]
      obtain b run' where rec: "reclaim_for_decode ip (?run\<lparr>growth_failed := True\<rparr>) = Some (b, run')"
        "run_inv trace L 0 n run'" "tracked (scheduler run') = tracked (scheduler run)"
        using run_invD(6) [OF inv] by (auto simp: reclaim_for_decode_def)
      then have "decode_one cfg ip sc rid run = Some (if b then run'\<lparr>progress_made := True\<rparr> else run')"
        using \<open>preemption_info (scheduler run) rid = None\<close> grow False by (simp add: decode_one_def i)
      moreover have "run_inv trace L 0 n (run'\<lparr>progress_made := True\<rparr>)"
        by (rule run_inv_cong [OF rec(2)]) (use run_invD(1,6) [OF rec(2)] in simp_all)
      ultimately show thesis using that rec by (cases b) simp_all
    qed
  qed
qed

lemma decode_all_run:
  "run_inv trace L 0 (length ids * (total_sequences trace * L) + n) run \<Longrightarrow> distinct (trace_ids trace) \<Longrightarrow> distinct ids \<Longrightarrow>
   set ids \<subseteq> set_mset (tracked (scheduler run)) \<Longrightarrow>
   \<exists>run'. decode_all cfg ip sc ids run = Some run' \<and> run_inv trace L 0 n run'"
proof (induction cfg ip sc ids run rule: decode_all.induct)
  case (2 cfg ip sc rid rids run)
  have "run_inv trace L 0 (total_sequences trace * L + (length rids * (total_sequences trace * L) + n)) run"
    using "2.prems"(1) by (simp add: algebra_simps)
  then obtain run1 where run1: "decode_one cfg ip sc rid run = Some run1"
    "run_inv trace L 0 (length rids * (total_sequences trace * L) + n) run1"
    "tracked (scheduler run) \<subseteq># add_mset rid (tracked (scheduler run1))"
    using decode_one_run [OF _ "2.prems"(2), of L _ run rid cfg ip sc] "2.prems"(4) by auto
  have "x \<in># tracked (scheduler run1)" if "x \<in> set rids" for x
  proof -
    have "x \<in># tracked (scheduler run)" "x \<noteq> rid" using that "2.prems"(3,4) by auto
    then show ?thesis using mset_subset_eqD [OF run1(3), of x] by simp
  qed
  then show ?case using "2.IH" [OF run1(1,2) "2.prems"(2)] "2.prems"(3) run1(1) by auto
qed auto

section \<open>The rest of an iteration\<close>

lemma resume_tracked: "resume s rid = (b, s') \<Longrightarrow> tracked s' = tracked s"
  using resume_eq [of s rid b s'] mset_map_erase_at [of _ "preempted s" request_id]
  by (auto simp: tracked_def dest: find_request_Some)

lemma run_inv_other:
  assumes "run_inv trace L k n run" and "run_frame run' = run_frame run" and "run_flags run' = run_flags run"
    and "scheduler run' = scheduler run" and "live run' = live run"
  shows "run_inv trace L k n run'"
  by (rule run_inv_cong [OF assms(1-3)]) (use assms(4,5) run_invD(1,6) [OF assms(1)] in simp_all)

lemma note_preemptions_run:
  "run_inv trace L k n run \<Longrightarrow> set ids \<subseteq> set (trace_ids trace) \<Longrightarrow>
   \<exists>run'. note_preemptions ids run = Some run' \<and> run_inv trace L k n run' \<and> live run' = live run"
proof (induction ids run rule: note_preemptions.induct)
  case (2 rid rids run)
  obtain i where i: "index_of run rid = Some i" using run_inv_index [OF "2.prems"(1), of rid] "2.prems"(2) by auto
  have keep: "run_inv trace L k n (run\<lparr>preempted_ids := S\<rparr>)" for S
    by (rule run_inv_other [OF "2.prems"(1)]) simp_all
  have keep2: "run_inv trace L k n (run\<lparr>preempted_ids := S, run_metrics := m\<rparr>)" if "steps m = steps (run_metrics run)" for S m
    by (rule run_inv_other [OF "2.prems"(1)]) (use that in \<open>simp_all add: run_frame_def run_flags_def\<close>)
  show ?case
    using 2 i keep keep2 by (auto simp: Let_def split: option.splits)
qed auto

lemma resume_parked_run: "run_inv trace L k n run \<Longrightarrow> run_inv trace L k n (resume_parked ids run) \<and> live (resume_parked ids run) = live run"
proof (induction ids run rule: resume_parked.induct)
  case (2 rid rids run)
  obtain b s where res: "resume (scheduler run) rid = (b, s)" by fastforce
  have keep: "run_inv trace L k n (run\<lparr>scheduler := s, preempted_ids := S, run_metrics := m\<rparr>)"
    if "steps m = steps (run_metrics run)" for S m
    by (rule run_inv_cong [OF "2.prems"])
      (use that resume_serve [OF run_invD(1) [OF "2.prems"] res] resume_tracked [OF res] run_invD(6) [OF "2.prems"]
        in \<open>simp_all add: run_frame_def run_flags_def\<close>)
  from this [of _ "preempted_ids run"] have keep2: "run_inv trace L k n (run\<lparr>scheduler := s, run_metrics := m\<rparr>)"
    if "steps m = steps (run_metrics run)" for m using that by simp
  show ?case using 2 res keep keep2 by (cases b) (simp_all add: Let_def)
qed simp

lemma unfinished_run:
  "run_inv trace L k n run \<Longrightarrow> set ids \<subseteq> set (trace_ids trace) \<Longrightarrow>
   \<exists>keep. unfinished run ids = Some keep \<and> set keep \<subseteq> set ids"
proof (induction run ids rule: unfinished.induct)
  case (2 run rid rids)
  obtain i where "index_of run rid = Some i" using run_inv_index [OF "2.prems"(1), of rid] "2.prems"(2) by auto
  then show ?case using 2 by auto
qed simp

lemma account_live_run:
  "run_inv trace L k n run \<Longrightarrow> set ids \<subseteq> set (trace_ids trace) \<Longrightarrow>
   \<exists>run'. account_live tpb ids run = Some run' \<and> run_inv trace L k n run'"
proof (induction tpb ids run rule: account_live.induct)
  case (2 tpb rid rids run)
  obtain i where i: "index_of run rid = Some i" using run_inv_index [OF "2.prems"(1), of rid] "2.prems"(2) by auto
  have "steps (foldl (account_sequence kv tpb c) m sids) = steps m" for kv c m sids
    by (induction sids arbitrary: m) (simp_all add: account_sequence_def Let_def)
  then have "run_inv trace L k n (run\<lparr>run_metrics := foldl (account_sequence kv tpb c) (run_metrics run) sids\<rparr>)" for kv c sids
    by (intro run_inv_other [OF "2.prems"(1)]) (simp_all add: run_frame_metrics)
  then show ?case using 2 i by (simp add: Let_def)
qed simp

lemma account_step_run:
  assumes inv: "run_inv trace L k n run"
  shows "\<exists>run'. account_step cfg bytes plan run = Some run' \<and> run_inv trace L k n run'"
proof -
  have "run_inv trace L k n (run\<lparr>token_cost := c, run_metrics := m\<rparr>)" if "steps m = steps (run_metrics run)" for c m
    by (rule run_inv_other [OF inv]) (use that in \<open>simp_all add: run_frame_def run_flags_def\<close>)
  then show ?thesis
    unfolding account_step_def Let_def using run_invD(6) [OF inv] by (intro account_live_run) auto
qed

lemma paged_step_run:
  assumes inv: "run_inv trace L 0 (2 * (length (requests trace) * (total_sequences trace * L)) + n) run"
    and dist: "distinct (trace_ids trace)"
  obtains run' where "paged_step cfg bytes run = Some run'" "run_inv trace L 0 n run'"
proof -
  let ?N = "length (requests trace)" and ?B = "total_sequences trace * L"
  note parts = run_invD [OF inv]
  obtain plan s where sched: "schedule_next (scheduler run) = (plan, s)" by fastforce
  define run1 where "run1 = run\<lparr>scheduler := s, progress_made := False, growth_failed := False,
      run_metrics := (run_metrics run)\<lparr>steps := steps (run_metrics run) + 1\<rparr>\<rparr>"
  have "length (open_ids trace done) \<le> ?N" for "done"
    unfolding open_ids_def by (simp add: trace_ids_def le_trans [OF length_filter_le])
  then have "size (tracked (scheduler run)) \<le> ?N" using parts(4) by simp
  then have few: "length (active (scheduler run)) + length (pending (scheduler run)) \<le> ?N" by (simp add: tracked_def)
  have serve: "serve_ok (key_for trace) (branches_for trace) L (total_sequences trace) 0 (?N * ?B + n) s"
  proof (rule schedule_next_serve [OF _ few sched])
    have "2 * (?N * ?B) + n = ?N * ?B + (?N * ?B + n)" by simp
    then show "serve_ok (key_for trace) (branches_for trace) L (total_sequences trace) 0 (?N * ?B + (?N * ?B + n)) (scheduler run)"
      using parts(1) by metis
  qed
  have track: "tracked s = tracked (scheduler run)" using track.loop.schedule_next_P [OF refl, of "scheduler run"] sched by simp
  have "run_inv trace L 0 (?N * ?B + n) run1"
    using parts serve track by (simp add: run1_def run_inv_def)
  moreover note plan = schedule_next_plan [OF serve_okD(2) [OF parts(1)] sched]
  have "map fst (zip (prefill_requests plan) (prefill_tokens plan)) = prefill_requests plan" using plan(4) by simp
  ultimately obtain run2 where run2: "prefill_all cfg (zip (prefill_requests plan) (prefill_tokens plan)) run1 = Some run2"
    "run_inv trace L 0 (?N * ?B + n) run2" "tracked (scheduler run2) = tracked s"
    using prefill_all_run [of trace L "?N * ?B + n" run1 "zip (prefill_requests plan) (prefill_tokens plan)" cfg] dist plan(1)
    by (auto simp: run1_def plan_wants_def)
  have dec: "set (decode_requests plan) \<subseteq> set_mset (tracked s)" using plan(3) unfolding tracked_ids by auto
  then have "set (decode_requests plan) \<subseteq> set (trace_ids trace)" using tracked_in_trace [OF inv] track by auto
  then have "length (decode_requests plan) \<le> ?N"
    using card_mono [of "set (trace_ids trace)" "set (decode_requests plan)"] distinct_card [OF plan(2)] distinct_card [OF dist]
    by (simp add: trace_ids_def)
  then have "run_inv trace L 0 (length (decode_requests plan) * ?B + n) run2"
    using run_inv_mono [OF run2(2)] by simp
  then obtain run3 where run3: "decode_all cfg (set (prefill_requests plan) \<union> set (decode_requests plan)) (scheduled_tokens plan)
      (decode_requests plan) run2 = Some run3" "run_inv trace L 0 n run3"
    using decode_all_run [OF _ dist plan(2)] dec run2(3) by metis
  obtain run4 where run4: "note_preemptions (live run3) run3 = Some run4" "run_inv trace L 0 n run4"
    using note_preemptions_run [OF run3(2) run_invD(6) [OF run3(2)]] by blast
  define run5 where "run5 = (if growth_failed run4 then run4 else resume_parked (live run4) run4)"
  have inv5: "run_inv trace L 0 n run5" using run4(2) resume_parked_run [OF run4(2)] by (simp add: run5_def)
  obtain keep where keep: "unfinished run5 (live run5) = Some keep" "set keep \<subseteq> set (live run5)"
    using unfinished_run [OF inv5 run_invD(6) [OF inv5]] by blast
  have inv6: "run_inv trace L 0 n (run5\<lparr>live := keep\<rparr>)"
    by (rule run_inv_cong [OF inv5]) (use run_invD(1,6) [OF inv5] keep(2) in auto)
  obtain run7 where "account_step cfg bytes plan (run5\<lparr>live := keep\<rparr>) = Some run7" "run_inv trace L 0 n run7"
    using account_step_run [OF inv6] by blast
  then show thesis
    using that sched run2(1) run3(1) run4(1) keep(1)
    by (simp add: paged_step_def run1_def [symmetric] run5_def [symmetric] Let_def)
qed

section \<open>The loop\<close>

text \<open>Every iteration needs room for a bounded number of swap slots, so a run that has room for \<^verbatim>\<open>max_steps\<close>
  iterations never throws.\<close>

definition step_budget :: "Trace \<Rightarrow> nat \<Rightarrow> nat" where
  "step_budget trace L = 2 * (length (requests trace) * (total_sequences trace * L))"

lemma stall_check_run:
  assumes "run_inv trace L k n run" and "stall_check run = (b, run')"
  shows "run_inv trace L k n run'"
  by (rule run_inv_other [OF assms(1)]) (use assms(2) in \<open>auto simp: stall_check_def Let_def split: if_splits\<close>)

lemma paged_loop_run:
  "distinct (trace_ids trace) \<Longrightarrow>
   run_inv trace L 0 ((unat (max_steps cfg) - unat (steps (run_metrics run))) * step_budget trace L) run \<Longrightarrow>
   \<exists>run'. paged_loop trace cfg bytes run = Some run' \<and> run_inv trace L 0 0 run'"
proof (induction trace cfg bytes run rule: paged_loop.induct)
  case (1 trace cfg bytes run)
  show ?case
  proof (cases "completed run < length (requests trace) \<and> steps (run_metrics run) < max_steps cfg")
    case False
    then show ?thesis using "1.prems" run_inv_mono [OF "1.prems"(2), of 0] by (auto simp: paged_loop.simps [of trace cfg bytes run])
  next
    case go: True
    let ?left = "\<lambda>c. (unat (max_steps cfg) - unat (c :: u64)) * step_budget trace L" and ?c = "steps (run_metrics run)"
    have "unat (max_steps cfg) - unat (?c + 1) < unat (max_steps cfg) - unat ?c" using go unat_step_u64 by blast
    then have "Suc (unat (max_steps cfg) - unat (?c + 1)) * step_budget trace L \<le> ?left ?c"
      by (intro mult_le_mono1) simp
    then have "step_budget trace L + ?left (?c + 1) \<le> ?left ?c" by simp
    then have "run_inv trace L 0 (2 * (length (requests trace) * (total_sequences trace * L)) + ?left (?c + 1)) run"
      using run_inv_mono [OF "1.prems"(2)] by (simp add: step_budget_def)
    then obtain run1 where run1: "paged_step cfg bytes run = Some run1" "run_inv trace L 0 (?left (?c + 1)) run1"
      using paged_step_run [OF _ "1.prems"(1)] by metis
    obtain b run2 where stall: "stall_check run1 = (b, run2)" by fastforce
    have inv2: "run_inv trace L 0 (?left (steps (run_metrics run2))) run2"
      using stall_check_run [OF run1(2) stall] stall_check_metrics [OF stall] paged_step_steps [OF run1(1)] by simp
    show ?thesis
    proof (cases b)
      case True
      then show ?thesis
        using go run1(1) stall run_inv_mono [OF inv2, of 0] by (simp add: paged_loop.simps [of trace cfg bytes run])
    next
      case False
      then show ?thesis
        using "1.IH" [OF go run1(1) stall [symmetric]] "1.prems"(1) inv2 go run1(1) stall
        by (simp add: paged_loop.simps [of trace cfg bytes run])
    qed
  qed
qed

section \<open>The start\<close>

text \<open>The request as it waits in the pending queue.\<close>

definition pending_request :: "ReplayConfig \<Rightarrow> TraceRequest \<Rightarrow> Request" where
  "pending_request cfg r =
     (scheduled_request cfg r)\<lparr>remaining_prefill_tokens := tr_prompt_tokens r\<rparr>"

lemma enqueue_one_fold:
  assumes "distinct (map tr_request_id rs)"
    and "\<And>t. t < length rs \<Longrightarrow> progress run ! (j + t) = fresh_progress (rs ! t)"
  shows "scheduler (foldl (enqueue_one cfg) run (zip [j..<j + length rs] rs))
      = (scheduler run)\<lparr>pending := pending (scheduler run) @ map (pending_request cfg) rs\<rparr>
    \<and> progress (foldl (enqueue_one cfg) run (zip [j..<j + length rs] rs)) = progress run
    \<and> completed (foldl (enqueue_one cfg) run (zip [j..<j + length rs] rs)) = completed run
    \<and> live (foldl (enqueue_one cfg) run (zip [j..<j + length rs] rs)) = live run
    \<and> steps (run_metrics (foldl (enqueue_one cfg) run (zip [j..<j + length rs] rs))) = steps (run_metrics run)
    \<and> (\<forall>rid i. index_of (foldl (enqueue_one cfg) run (zip [j..<j + length rs] rs)) rid = Some i \<longleftrightarrow>
         (\<exists>t < length rs. i = j + t \<and> tr_request_id (rs ! t) = rid)
         \<or> rid \<notin> set (map tr_request_id rs) \<and> index_of run rid = Some i)"
  using assms
proof (induction rs arbitrary: j run)
  case Nil
  then show ?case by simp
next
  case (Cons r rs)
  let ?run = "enqueue_one cfg run (j, r)"
  have upd: "(progress run)[j := fresh_progress r] = progress run"
    using Cons.prems(2) [of 0] by (metis add.right_neutral length_Cons list_update_id nth_Cons_0 zero_less_Suc)
  then have run1: "scheduler ?run = (scheduler run)\<lparr>pending := pending (scheduler run) @ [pending_request cfg r]\<rparr>"
    "progress ?run = progress run" "completed ?run = completed run" "live ?run = live run"
    "steps (run_metrics ?run) = steps (run_metrics run)" "index_of ?run = (index_of run)(tr_request_id r \<mapsto> j)"
    by (simp_all add: enqueue_one_def enqueue_def pending_request_def scheduled_request_def Let_def)
  have prog: "\<And>t. t < length rs \<Longrightarrow> progress ?run ! (Suc j + t) = fresh_progress (rs ! t)"
    using Cons.prems(2) [of "Suc _"] run1(2) by simp
  have dist: "distinct (map tr_request_id rs)" using Cons.prems(1) by simp
  have zip: "zip [j..<j + length (r # rs)] (r # rs) = (j, r) # zip [Suc j..<Suc j + length rs] rs"
    by (simp add: upt_conv_Cons del: upt_Suc)
  note IH = Cons.IH [OF dist prog]
  have ex: "(\<exists>t < length (r # rs). i = j + t \<and> tr_request_id ((r # rs) ! t) = rid)
      \<longleftrightarrow> i = j \<and> tr_request_id r = rid \<or> (\<exists>t < length rs. i = Suc j + t \<and> tr_request_id (rs ! t) = rid)" for rid i
    by (auto simp: less_Suc_eq_0_disj)
  have in_rs: "tr_request_id (rs ! t) \<in> set (map tr_request_id rs)" if "t < length rs" for t using that by simp
  show ?case
    unfolding zip foldl_Cons ex
    using IH run1 Cons.prems(1) in_rs by auto
qed

text \<open>What a replay is run with: distinct request ids, a slab of the size the pool asks for, fewer than \<open>2 ^ 30\<close>
  frames, swap slots and sequences, prompts of fewer than \<open>2 ^ 31\<close> tokens, blocks of at least one and at most
  \<open>2 ^ 31\<close> tokens (the driver divides by the number without a check), and, when blocks can be swapped out, slot numbers for \<^verbatim>\<open>max_steps\<close> iterations.\<close>

definition replay_fits :: "Trace \<Rightarrow> ReplayConfig \<Rightarrow> bool" where
  "replay_fits trace cfg \<longleftrightarrow>
     distinct (trace_ids trace) \<and> total_sequences trace < 1073741824
     \<and> unat (rc_max_blocks cfg) < 1073741824 \<and> unat (swap_slots cfg) < 1073741824
     \<and> rc_tokens_per_block cfg \<noteq> 0 \<and> unat (rc_tokens_per_block cfg) \<le> 2147483648
     \<and> list_all (\<lambda>r. unat (tr_prompt_tokens r) < 2147483648) (requests trace)
     \<and> (swap_slots cfg = 0
        \<or> unat (max_steps cfg) * step_budget trace (unat (rc_max_blocks cfg) + unat (swap_slots cfg)) < 18446744073709551615)"

definition slab_fits :: "Trace \<Rightarrow> ReplayConfig \<Rightarrow> u8 list \<Rightarrow> bool" where
  "slab_fits trace cfg slab \<longleftrightarrow>
     (let stride = unat (block_stride_for (replay_allocator_config trace cfg)) in
      length slab = stride * unat (rc_max_blocks cfg)
      \<and> stride * unat (rc_max_blocks cfg) < 18446744073709551616 \<and> slab \<noteq> [])"

lemma replay_allocator_fresh:
  assumes "slab_fits trace cfg slab"
  defines "al \<equiv> replay_allocator trace cfg (Some slab)"
  shows "alloc_inv al" and "alloc_refs al = {#}" and "slots_of al = {#}"
    and "config al = replay_allocator_config trace cfg"
    and "al_swap_backend al = (if swap_slots cfg > 0 then Some (HostSwapBackend_new (ucast (swap_slots cfg))) else None)"
proof -
  let ?cfg = "replay_allocator_config trace cfg" and ?sb = "HostSwapBackend_new (ucast (swap_slots cfg))"
  let ?al = "MemoryAllocator_new ?cfg (Some slab)"
  have max: "max_blocks ?cfg = rc_max_blocks cfg" by (simp add: replay_allocator_config_def)
  have base: "alloc_inv ?al" "alloc_refs ?al = {#}"
    using assms(1) by (intro MemoryAllocator_new_inv; simp add: slab_fits_def Let_def max)+
  have fields: "config ?al = ?cfg" "al_swap_backend ?al = None"
    by (simp_all add: MemoryAllocator_new_def Let_def bind_frames_def unbound_allocator_def)
  have none: "hsb_contents ?sb = Map.empty" by (simp add: hsb_contents_def HostSwapBackend_new_def)
  have with_backend: "alloc_inv (?al\<lparr>al_swap_backend := Some ?sb\<rparr>)"
    by (rule set_backend_inv [OF base(1) hsb_invar_new]) (simp add: none)
  have al: "al = (if swap_slots cfg > 0 then ?al\<lparr>al_swap_backend := Some ?sb\<rparr> else ?al)"
    by (simp add: al_def replay_allocator_def set_swap_backend_def Let_def)
  show "alloc_inv al" using al base(1) with_backend by simp
  show "alloc_refs al = {#}" using al base(2) by (simp add: alloc_refs_def)
  show "slots_of al = {#}" using al none fields(2) by (simp add: slots_of_def swapped_def)
  show "config al = ?cfg" using al fields(1) by simp
  show "al_swap_backend al = (if swap_slots cfg > 0 then Some ?sb else None)" using al fields(2) by simp
qed

lemma tokens_fit_small:
  assumes "table_count kv = 1" and "unat (kv_tokens_per_block kv) \<le> 2147483648" and "unat n < 2147483648"
  shows "tokens_fit kv n"
proof (cases "kv_tokens_per_block kv = 0")
  case False
  let ?t = "unat (kv_tokens_per_block kv)"
  have pos: "0 < ?t" using False by (simp add: unat_gt_0)
  have "unat n + ?t - 1 < ?t * 2147483648" 
  proof -
    have "?t + 2147483647 \<le> ?t * 2147483648" using pos by simp
    then show ?thesis using assms(3) by linarith
  qed
  then have "blocks_for (kv_tokens_per_block kv) n < 2147483648"
    unfolding blocks_for_def using pos by (simp add: div_less_iff_less_mult mult.commute)
  then show ?thesis using assms by (simp add: tokens_fit_def)
qed (simp add: tokens_fit_def)

lemma replay_cache_fresh:
  assumes slab: "slab_fits trace cfg slab" and fits: "replay_fits trace cfg"
  defines "kv \<equiv> KVCacheManager_new (replay_allocator trace cfg (Some slab))"
  shows "kv_inv kv" and "small_pool kv" and "seq_limit kv = unat (rc_max_blocks cfg) + unat (swap_slots cfg)"
    and "unat n < 2147483648 \<Longrightarrow> tokens_fit kv n"
    and "swap_room (allocator kv) (unat (max_steps cfg) * step_budget trace (unat (rc_max_blocks cfg) + unat (swap_slots cfg)))"
proof -
  let ?al = "replay_allocator trace cfg (Some slab)"
  note al = replay_allocator_fresh [OF slab]
  have kv: "allocator kv = ?al" by (simp add: kv_def KVCacheManager_new_def)
  show "kv_inv kv" unfolding kv_def using al(1-3) by (rule KVCacheManager_new_inv)
  have cap: "capacity ?al = unat (rc_max_blocks cfg)"
    using al(1,4) by (simp add: alloc_inv_def ids_inv_def capacity_def replay_allocator_config_def)
  have places: "unat (ucast (swap_slots cfg) :: u64) = unat (swap_slots cfg)"
    by (simp add: unsigned_ucast_eq take_bit_nat_eq_self_iff less_trans [OF unat_u32_lt])
  show "seq_limit kv = unat (rc_max_blocks cfg) + unat (swap_slots cfg)"
    unfolding seq_limit_def swap_places_def kv cap al(5) by (simp add: HostSwapBackend_new_def places unat_gt_0 word_gt_0)
  show "small_pool kv"
    unfolding small_pool_def kv cap al(5) using fits by (auto simp: replay_fits_def HostSwapBackend_new_def places)
  have frames: "blocks ?al = map (bind_frame (replay_allocator_config trace cfg) (block_stride_bytes ?al) (Some 0))
      [0..<unat (rc_max_blocks cfg)]"
    using al(1,4) by (simp add: alloc_inv_def memory_inv_def Let_def replay_allocator_config_def)
  have shape: "al_block ?al 0 = None \<or> (\<exists>b. al_block ?al 0 = Some b \<and> pb_shape b = replay_shape trace cfg)"
  proof (cases "rc_max_blocks cfg = 0")
    case False
    then have "0 < unat (rc_max_blocks cfg)" by (simp add: unat_gt_0)
    then show ?thesis by (simp add: al_block_def frames bind_frame_def replay_allocator_config_def Let_def)
  qed (simp add: al_block_def frames)
  have layers: "\<not> per_layer_frames (replay_shape trace cfg)" "\<not> per_layer_frames default_BlockShape"
    by (auto simp: per_layer_frames_def frame_layers_def replay_shape_def default_BlockShape_def)
  have tc: "table_count kv = 1" using shape layers by (auto simp: table_count_def pool_shape_def kv Let_def)
  have "kv_tokens_per_block kv = 0 \<or> kv_tokens_per_block kv = rc_tokens_per_block cfg"
    using shape by (auto simp: kv_tokens_per_block_def kv replay_shape_def)
  then have tpb: "unat (kv_tokens_per_block kv) \<le> 2147483648" using fits by (auto simp: replay_fits_def)
  show "tokens_fit kv n" if "unat n < 2147483648" using tc tpb that by (rule tokens_fit_small)
  show "swap_room (allocator kv) (unat (max_steps cfg) * step_budget trace (unat (rc_max_blocks cfg) + unat (swap_slots cfg)))"
    unfolding kv swap_room_def al(5) using fits by (auto simp: replay_fits_def HostSwapBackend_new_def)
qed

lemma paged_start_run:
  assumes slab: "slab_fits trace cfg slab" and fits: "replay_fits trace cfg"
  defines "L \<equiv> unat (rc_max_blocks cfg) + unat (swap_slots cfg)" and "run \<equiv> paged_start trace cfg (Some slab)"
  shows "run_inv trace L 0 (unat (max_steps cfg) * step_budget trace L) run" and "steps (run_metrics run) = 0"
proof -
  let ?rs = "requests trace" and ?kv = "KVCacheManager_new (replay_allocator trace cfg (Some slab))"
  note cache = replay_cache_fresh [OF slab fits]
  have dist: "distinct (trace_ids trace)" using fits by (simp add: replay_fits_def)
  define run0 where "run0 = \<lparr>scheduler = Scheduler_new (replay_scheduler_config cfg) ?kv,
        progress = map fresh_progress ?rs, index_of = Map.empty, next_fork_sequence = 1,
        waiting = of_nat (length ?rs), completed = 0, live = [], preempted_ids = {},
        no_progress_steps = 0, token_cost = 0, ttfts = [], run_metrics = fresh_metrics ''paged'',
        progress_made = False, growth_failed = False\<rparr>"
  have run: "run = foldl (enqueue_one cfg) run0 (zip [0..<0 + length ?rs] ?rs)"
    by (simp add: run_def paged_start_def run0_def)
  have "\<And>t. t < length ?rs \<Longrightarrow> progress run0 ! (0 + t) = fresh_progress (?rs ! t)" by (simp add: run0_def)
  note start = enqueue_one_fold [OF dist [unfolded trace_ids_def] this, where cfg = cfg, folded run]
  have sched: "cache_manager (scheduler run) = ?kv" "pending (scheduler run) = map (pending_request cfg) ?rs"
    "active (scheduler run) = []" "preempted (scheduler run) = []" "preemption_infos (scheduler run) = Map.empty"
    using start by (simp_all add: run0_def Scheduler_new_def)
  show "steps (run_metrics run) = 0" using start by (simp add: run0_def fresh_metrics_def)
  have rq: "request_id (pending_request cfg r) = tr_request_id r" "prompt_tokens (pending_request cfg r) = tr_prompt_tokens r"
    "root_sequence_id (pending_request cfg r) = tr_request_id r" for r
    by (simp_all add: pending_request_def scheduled_request_def)
  have ids: "request_ids (pending (scheduler run)) = trace_ids trace"
    by (simp add: sched request_ids_def trace_ids_def rq comp_def)
  have inv: "sched_inv (scheduler run)"
    unfolding sched_inv_def skips_ok_def using dist ids
    by (auto simp: sched list_all_iff pending_ok_def pending_request_def scheduled_request_def sorted_wrt_map
        request_ids_def trace_ids_def comp_def intro: sorted_wrt_mono_rel [OF _ sorted_wrt_true])
  have sound: "cache_sound (scheduler run)"
    unfolding cache_sound_def sched using cache(1,2,4) fits
    by (auto simp: list_all_iff rq replay_fits_def owners_def KVCacheManager_new_def request_of_def ran_def)
  have by_id: "request_by_id trace (tr_request_id r) = Some r" if r: "r \<in> set ?rs" for r
    using r request_by_id_nth [OF dist] by (auto simp: in_set_conv_nth)
  have keys: "keys_ok (key_for trace) (scheduler run)"
    unfolding keys_ok_def keys_in_def sched
    by (auto simp: KVCacheManager_new_def list_all_iff key_ok_def key_for_def by_id pending_request_def scheduled_request_def)
  have no_owner: "owners ?kv = Map.empty" by (auto simp: owners_def KVCacheManager_new_def request_of_def)
  have "seqs_left (branches_for trace) (scheduler run) = total_sequences trace"
    unfolding seqs_left_def total_sequences_def sched
    by (auto simp: rq branches_for_def by_id intro!: arg_cong [where f = sum_list])
  then have serve: "serve_ok (key_for trace) (branches_for trace) L (total_sequences trace) 0
      (unat (max_steps cfg) * step_budget trace L) (scheduler run)"
    using sound inv keys cache(3,5) cache(4) [of 1] fits
    by (simp add: serve_ok_def sched L_def replay_fits_def no_owner del: dom_owners)
  have prog: "progress run = map fresh_progress ?rs" "completed run = 0" "live run = []" using start by (simp_all add: run0_def)
  have "index_good trace (index_of run)"
    using start by (auto simp: index_good_def run0_def trace_ids_def)
  moreover have "open_ids trace (map rp_finished (progress run)) = trace_ids trace"
    by (simp add: open_ids_def prog fresh_progress_def comp_def zip_replicate2 map_replicate_const trace_ids_def filter_map)
  moreover have "tracked (scheduler run) = mset (trace_ids trace)" unfolding tracked_ids using ids by (simp add: sched)
  ultimately show "run_inv trace L 0 (unat (max_steps cfg) * step_budget trace L) run"
    using serve by (simp add: run_inv_def prog fresh_progress_def comp_def)
qed

section \<open>The end\<close>

lemma completed_leak_free:
  assumes inv: "run_inv trace L k n run" and all: "completed run = length (requests trace)"
  shows "pool_leak_free (run_stats run)"
proof -
  note parts = run_invD [OF inv]
  have len: "length (progress run) = length (requests trace)" using arg_cong [OF parts(3), of length] by simp
  have "length (filter rp_finished (progress run)) = length (progress run)" using parts(5) all len by simp
  then have "rp_finished p" if "p \<in> set (progress run)" for p
    using that length_filter_less [of p "progress run" rp_finished] by auto
  then have "map rp_finished (progress run) = replicate (length (requests trace)) True"
    using len by (intro nth_equalityI) simp_all
  then have "open_ids trace (map rp_finished (progress run)) = []"
    by (simp add: open_ids_def zip_replicate2 filter_map comp_def)
  then have "tracked (scheduler run) = {#}" using parts(4) by simp
  then have "active (scheduler run) = []" "preempted (scheduler run) = []" by (simp_all add: tracked_def)
  from idle_all_free [OF serve_okD(1) [OF parts(1)] this]
  have free: "length (free_list (allocator (run_cache run))) = capacity (allocator (run_cache run))"
    and none: "swapped (allocator (run_cache run)) = Map.empty" by simp_all
  have al: "alloc_inv (allocator (run_cache run))" using owns_inv [OF kv_inv_owns [OF serve_okD(9) [OF parts(1)]]] .
  have counts: "unat (free_blocks (run_stats run)) = unat (total_blocks (run_stats run))"
    using stats_free [OF al] stats_total [OF al] free by (simp add: pool_stats_def)
  then have "unat (active_blocks (run_stats run)) = 0" "unat (shared_blocks (run_stats run)) = 0"
    using stats_partition [OF al] unfolding pool_stats_def by linarith+
  then have "active_blocks (run_stats run) = 0" "shared_blocks (run_stats run) = 0"
    by (simp_all only: unat_eq_0_iff_word)
  moreover have "free_blocks (run_stats run) = total_blocks (run_stats run)" using counts by (rule word_unat_eq_iff [THEN iffD2])
  moreover have "swapped_blocks (run_stats run) = 0"
  proof (cases "al_swap_backend (allocator (run_cache run))")
    case (Some sb)
    then have "hsb_invar sb" using al by (simp add: alloc_inv_def memory_inv_def Let_def)
    then have "resident_slots sb = 0" using hsb_resident [of sb] none Some by (simp add: swapped_def)
    then show ?thesis using Some by (simp add: pool_stats_def stats_def)
  qed (simp add: pool_stats_def stats_def)
  ultimately show ?thesis by (simp add: pool_leak_free_def)
qed

lemma paged_loop_steps:
  "paged_loop trace cfg bytes run = Some run' \<Longrightarrow> steps (run_metrics run) \<le> max_steps cfg \<Longrightarrow>
   steps (run_metrics run') \<le> max_steps cfg"
proof (induction trace cfg bytes run rule: paged_loop.induct)
  case (1 trace cfg bytes run)
  show ?case
  proof (cases "completed run < length (requests trace) \<and> steps (run_metrics run) < max_steps cfg")
    case False
    then show ?thesis using "1.prems" by (auto simp: paged_loop.simps [of trace cfg bytes run])
  next
    case go: True
    then obtain run1 where run1: "paged_step cfg bytes run = Some run1"
      using "1.prems"(1) by (auto simp: paged_loop.simps [of trace cfg bytes run] split: option.splits)
    obtain b run2 where stall: "stall_check run1 = (b, run2)" by fastforce
    have "steps (run_metrics run2) = steps (run_metrics run) + 1"
      using stall_check_metrics [OF stall] paged_step_steps [OF run1] by simp
    then have le: "steps (run_metrics run2) \<le> max_steps cfg" using go inc_le by metis
    show ?thesis
      using "1.IH" [OF go run1 stall [symmetric]] "1.prems"(1) go run1 stall le
      by (cases b) (simp_all add: paged_loop.simps [of trace cfg bytes run])
  qed
qed

text \<open>The whole replay.\<close>

lemma run_paged_ok:
  assumes fits: "replay_fits trace cfg" and slab: "slab_fits trace cfg slab"
  obtains m where "run_paged trace cfg (Some slab) = Some m" "steps m \<le> max_steps cfg"
    "unat (requests_completed m) \<le> length (requests trace)"
    "rm_completed m \<Longrightarrow> leak_free m \<and> requests_completed m = of_nat (length (requests trace))"
proof -
  let ?L = "unat (rc_max_blocks cfg) + unat (swap_slots cfg)" and ?run = "paged_start trace cfg (Some slab)"
  note start = paged_start_run [OF slab fits]
  have dist: "distinct (trace_ids trace)" using fits by (simp add: replay_fits_def)
  obtain run where run: "paged_loop trace cfg (byte_size (replay_shape trace cfg)) ?run = Some run" "run_inv trace ?L 0 0 run"
    using paged_loop_run [OF dist, of ?L cfg ?run] start by auto
  note parts = run_invD [OF run(2)]
  have "completed run \<le> length (progress run)" using parts(5) length_filter_le by metis
  then have le: "completed run \<le> length (requests trace)" using arg_cong [OF parts(3), of length] by simp
  have metrics: "steps (paged_finish trace run) = steps (run_metrics run)"
    "requests_completed (paged_finish trace run) = of_nat (completed run)"
    "rm_completed (paged_finish trace run) \<longleftrightarrow> completed run = length (requests trace)"
    "leak_free (paged_finish trace run) = pool_leak_free (run_stats run)"
    by (simp_all add: paged_finish_def Let_def)
  have "unat (of_nat (completed run) :: u32) \<le> completed run" by (simp add: unsigned_of_nat take_bit_nat_less_eq_self)
  then have le32: "unat (requests_completed (paged_finish trace run)) \<le> length (requests trace)" using le metrics(2) by simp
  show thesis
  proof (rule that)
    show "run_paged trace cfg (Some slab) = Some (paged_finish trace run)" by (simp add: run_paged_def run(1))
    show "steps (paged_finish trace run) \<le> max_steps cfg"
      using paged_loop_steps [OF run(1)] start(2) metrics(1) by simp
    show "leak_free (paged_finish trace run) \<and> requests_completed (paged_finish trace run) = of_nat (length (requests trace))"
      if "rm_completed (paged_finish trace run)"
      using that metrics completed_leak_free [OF run(2)] by simp
  qed (rule le32)
qed

end
