(* ===== verification/GoldenExport.thy ===== *)
theory GoldenExport
  imports PagedAttention ToolBase Complex_Main
begin

text \<open>
  The fixture exporter, \<^verbatim>\<open>tools/golden_export/main.cpp\<close>: it fills a cache with a deterministic pattern,
  runs the reference kernel over it, recomputes the result without the cache (\<^verbatim>\<open>cross_check\<close>) and writes
  everything as \<^verbatim>\<open>.npy\<close> files.

  \<^verbatim>\<open>float\<close> is a parameter as in \<open>PagedAttention\<close>: the record \<open>floats\<close> adds to the arithmetic what the exporter
  uses besides, the bytes of a \<^verbatim>\<open>float\<close> among them. An exception is \<open>Inl\<close> with its message. The slabs the
  allocators get from the system are arguments. The result of an export is the list of files in the order
  they are written; errors of the file system and the progress line on the console are not modelled.
\<close>

section \<open>Exceptions\<close>

definition require :: "bool \<Rightarrow> string \<Rightarrow> string + unit" where
  "require condition what = (if condition then Inr () else Inl what)"

section \<open>Files\<close>

definition shape_text :: "u64 list \<Rightarrow> string" where
  "shape_text shape =
     concat (map (\<lambda>i. to_string (unat (shape ! i))
       @ (if i + 1 < length shape then '', '' else if length shape = 1 then '','' else [])) [0..<length shape])"

definition npy_dict :: "string \<Rightarrow> u64 list \<Rightarrow> string" where
  "npy_dict descr shape =
     ''{'descr': '' @ [CHR 0x27] @ descr @ [CHR 0x27] @ '', 'fortran_order': False, 'shape': (''
       @ shape_text shape @ ''), }''"

definition npy_header :: "string \<Rightarrow> u64 list \<Rightarrow> string" where
  "npy_header descr shape =
     (let dict = npy_dict descr shape; unpadded = 10 + length dict + 1; padded = (unpadded + 63) div 64 * 64
      in dict @ replicate (padded - unpadded) (CHR '' '') @ [CHR 0x0A])"

definition npy_magic :: "u8 list" where
  "npy_magic = [0x93, 0x4E, 0x55, 0x4D, 0x50, 0x59, 0x01, 0x00]"

definition write_npy :: "string \<Rightarrow> u64 list \<Rightarrow> u8 list \<Rightarrow> u64 \<Rightarrow> u8 list" where
  "write_npy descr shape data element_bytes =
     (let header = npy_header descr shape;
          count = foldl (*) 1 shape;
          header_len = (of_nat (length header) :: 16 word)
      in npy_magic @ [ucast header_len, ucast (drop_bit 8 header_len)] @ map of_char header
           @ take (unat (count * element_bytes)) data)"

text \<open>The bytes of a 32-bit integer, least significant first.\<close>

definition i32_bytes :: "u32 \<Rightarrow> u8 list" where
  "i32_bytes w = map (\<lambda>k. ucast (drop_bit (8 * k) w)) [0..<4]"

section \<open>Floats\<close>

record 'f floats =
  fl_ops :: "('f, 'f) arith"
  float_bytes :: "'f \<Rightarrow> u8 list"
  float_of_u32 :: "u32 \<Rightarrow> 'f"
  float_literal :: "rat \<Rightarrow> 'f"
  fl_abs :: "'f \<Rightarrow> 'f"
  fl_le :: "'f \<Rightarrow> 'f \<Rightarrow> bool"

definition kCrossCheckTolerance :: "'f floats \<Rightarrow> 'f" where
  "kCrossCheckTolerance F = float_literal F (1 / 10000)"

type_synonym npy_file = "string \<times> u8 list"

definition npy_path :: "string \<Rightarrow> string \<Rightarrow> string" where
  "npy_path dir name = dir @ ''/'' @ name @ ''.npy''"

definition write_f32 :: "'f floats \<Rightarrow> string \<Rightarrow> string \<Rightarrow> u64 list \<Rightarrow> 'f list \<Rightarrow> npy_file" where
  "write_f32 F dir name shape data =
     (npy_path dir name, write_npy ''<f4'' shape (concat (map (float_bytes F) data)) 4)"

definition write_i32 :: "string \<Rightarrow> string \<Rightarrow> u64 list \<Rightarrow> u32 list \<Rightarrow> npy_file" where
  "write_i32 dir name shape data =
     (npy_path dir name, write_npy ''<i4'' shape (concat (map i32_bytes data)) 4)"

text \<open>The value is a 64-bit signed integer in the code; every caller passes a non-negative one.\<close>

definition write_scalar_i32 :: "string \<Rightarrow> string \<Rightarrow> int \<Rightarrow> string + npy_file" where
  "write_scalar_i32 dir name val =
     and_then (require (val \<ge> - 2147483648 \<and> val \<le> 2147483647) (''scalar '' @ name @ '' does not fit in int32''))
       (\<lambda>_. Inr (write_i32 dir name [] [of_int val]))"

definition write_scalar_f32 :: "'f floats \<Rightarrow> string \<Rightarrow> string \<Rightarrow> 'f \<Rightarrow> npy_file" where
  "write_scalar_f32 F dir name val = write_f32 F dir name [] [val]"

section \<open>The pattern\<close>

unbundle bit_operations_syntax

definition mix_hash :: "u32 list \<Rightarrow> u32" where
  "mix_hash parts = foldl (\<lambda>hashed part. (hashed XOR part) * 16777619) 2166136261 parts"

definition mix :: "'f floats \<Rightarrow> u32 list \<Rightarrow> 'f" where
  "mix F parts =
     fl_sub (fl_ops F) (fl_div (fl_ops F) (float_of_u32 F (mix_hash parts mod 2000)) (float_literal F 1000))
       (float_literal F 1)"

definition cache_value :: "'f floats \<Rightarrow> u32 \<Rightarrow> u32 \<Rightarrow> KVStream \<Rightarrow> u32 \<Rightarrow> u32 \<Rightarrow> u32 \<Rightarrow> 'f" where
  "cache_value F sequence layer stream token head d =
     mix F [0, sequence, layer, if stream = Key then 0 else 1, token, head, d]"

definition query_value :: "'f floats \<Rightarrow> u32 \<Rightarrow> u32 \<Rightarrow> u32 \<Rightarrow> 'f" where
  "query_value F sequence query_head d = mix F [1, sequence, query_head, d]"

section \<open>The cross check\<close>

record 'f Scenario =
  sc_name :: string
  sc_purpose :: string
  sc_tokens_per_block :: u32
  sc_num_layers :: u32
  sc_num_kv_heads :: u32
  sc_head_dim :: u32
  sc_num_query_heads :: u32
  sc_layer :: u32
  sc_scale :: 'f
  sc_context_lens :: "u32 list"
  sc_scatter :: bool

text \<open>Textbook attention of one query head, straight from the pattern: the accumulator and the denominator.\<close>

definition expected_head :: "'f floats \<Rightarrow> 'f Scenario \<Rightarrow> BlockShape \<Rightarrow> u32 \<Rightarrow> 'f list \<Rightarrow> nat \<Rightarrow> 'f list \<times> 'f" where
  "expected_head F sc shape sequence query q_head =
     (let A = fl_ops F; n = unat (head_dim shape); ctx = unat (sc_context_lens sc ! unat sequence);
          group_size = unat (sc_num_query_heads sc div num_kv_heads shape);
          kv_head = of_nat (q_head div group_size);
          stored = (\<lambda>stream token d. cache_value F sequence (sc_layer sc) stream (of_nat token) kv_head (of_nat d));
          (scores, max_score) = foldl (\<lambda>(scores, max_score) token.
              let dot = foldl (\<lambda>dot d. fl_add A dot (fl_mul A (query ! (q_head * n + d)) (stored Key token d)))
                          (fl_zero A) [0..<n];
                  s = fl_mul A dot (sc_scale sc)
              in (scores[token := s], fl_max A max_score s)) (replicate ctx (fl_zero A), fl_neg_inf A) [0..<ctx];
          (denominator, acc) = foldl (\<lambda>(denominator, acc) token.
              let weight = fl_exp A (fl_sub A (scores ! token) max_score)
              in (fl_add A denominator weight,
                  foldl (\<lambda>acc d. acc[d := fl_add A (acc ! d) (fl_mul A weight (stored Value token d))]) acc [0..<n]))
            (fl_zero A, replicate n (fl_zero A)) [0..<ctx]
      in (acc, denominator))"

definition cross_check :: "'f floats \<Rightarrow> 'f Scenario \<Rightarrow> BlockShape \<Rightarrow> u32 \<Rightarrow> 'f list \<Rightarrow> 'f list \<Rightarrow> string + unit" where
  "cross_check F sc shape sequence query actual =
     try_loop (\<lambda>_ q_head.
       let (acc, denominator) = expected_head F sc shape sequence query q_head; n = unat (head_dim shape) in
       try_loop (\<lambda>_ d.
         require (fl_le F (fl_abs F (fl_sub (fl_ops F) (fl_div (fl_ops F) (acc ! d) denominator) (actual ! (q_head * n + d))))
                    (kCrossCheckTolerance F))
           (sc_name sc @ '': sequence '' @ to_string (unat sequence) @ '' query head '' @ to_string q_head
              @ '' dim '' @ to_string d @ '' disagrees with the contiguous reference''))
         [0..<n] ()) [0..<unat (sc_num_query_heads sc)] ()"

definition is_scattered :: "BlockTable \<Rightarrow> bool" where
  "is_scattered t =
     (let ids = map physical_id (entries t) in
      if length ids < 2 then False
      else
        let lowest = foldl min (hd ids) ids; highest = foldl max (hd ids) ids
        in (ucast (highest - lowest + 1) :: u64) \<noteq> of_nat (length ids))"

section \<open>Filling a sequence\<close>

text \<open>\<^verbatim>\<open>base[i] = v\<close> for the \<^verbatim>\<open>float\<close> pointer of a frame.\<close>

definition store_float :: "'f floats \<Rightarrow> MemoryAllocator \<Rightarrow> PhysicalBlock \<Rightarrow> u64 \<Rightarrow> 'f \<Rightarrow> MemoryAllocator" where
  "store_float F al b i v =
     (case pb_storage b of
        None \<Rightarrow> al\<lparr>faulted := True\<rparr>
      | Some base \<Rightarrow>
          let ptr = unat base + unat i * unat (elem_size (fl_ops F)); bs = float_bytes F v in
          if ptr + length bs \<le> length (pool al) then al\<lparr>pool := overwrite ptr bs (pool al)\<rparr>
          else al\<lparr>faulted := True\<rparr>)"

definition fill_head ::
    "'f floats \<Rightarrow> BlockShape \<Rightarrow> KVBlockLayout \<Rightarrow> u32 \<Rightarrow> u32 \<Rightarrow> KVStream \<Rightarrow> u32 \<Rightarrow> PhysicalBlock
       \<Rightarrow> MemoryAllocator \<Rightarrow> nat \<Rightarrow> string + MemoryAllocator" where
  "fill_head F shape layout salt layer stream token b al head =
     (case element_offset layout layer stream (token mod tokens_per_block shape) (of_nat head) of
        None \<Rightarrow> Inl ''element_offset out of range''
      | Some off \<Rightarrow>
          Inr (foldl (\<lambda>al d. store_float F al b (off + of_nat d)
                               (cache_value F salt layer stream token (of_nat head) (of_nat d)))
                 al [0..<unat (head_dim shape)]))"

definition fill_token ::
    "'f floats \<Rightarrow> BlockShape \<Rightarrow> KVBlockLayout \<Rightarrow> SequenceId \<Rightarrow> u32 \<Rightarrow> nat \<Rightarrow> KVStream \<Rightarrow> KVCacheManager \<Rightarrow> nat
       \<Rightarrow> string + KVCacheManager" where
  "fill_token F shape layout sid salt layer stream kv token =
     (case ensure_token_writable kv sid (of_nat token) TextKV 0 of
        (None, kv) \<Rightarrow> Inl ''ensure_token_writable failed''
      | (Some p, kv) \<Rightarrow>
          (case al_block (allocator kv) p of
             None \<Rightarrow> Inl ''writable frame missing''
           | Some b \<Rightarrow>
               and_then (try_loop (fill_head F shape layout salt (of_nat layer) stream (of_nat token) b)
                           [0..<unat (num_kv_heads shape)] (allocator kv))
                 (\<lambda>al. Inr (kv\<lparr>allocator := al\<rparr>))))"

definition fill_sequence ::
    "'f floats \<Rightarrow> BlockShape \<Rightarrow> KVBlockLayout \<Rightarrow> KVCacheManager \<Rightarrow> SequenceId \<Rightarrow> u32 \<Rightarrow> u32 \<Rightarrow> string + KVCacheManager" where
  "fill_sequence F shape layout kv sid salt context_len =
     try_loop (\<lambda>kv layer. try_loop (\<lambda>kv stream.
         try_loop (fill_token F shape layout sid salt layer stream) [0..<unat context_len] kv)
       [Key, Value] kv) [0..<unat (num_layers shape)] kv"

section \<open>Writing a fixture\<close>

record 'f FixtureArrays =
  fx_queries :: "'f list"
  fx_outputs :: "'f list"
  fx_block_table :: "u32 list"
  fx_context_lens :: "u32 list"

definition scenario_params :: "'f Scenario \<Rightarrow> nat \<Rightarrow> 'f PagedAttentionParams" where
  "scenario_params sc i =
     \<lparr>pa_layer = sc_layer sc, pa_num_query_heads = sc_num_query_heads sc, pa_context_len = sc_context_lens sc ! i,
      pa_scale = sc_scale sc\<rparr>"

definition query_row :: "'f floats \<Rightarrow> 'f Scenario \<Rightarrow> BlockShape \<Rightarrow> nat \<Rightarrow> 'f list" where
  "query_row F sc shape i =
     concat (map (\<lambda>q_head. map (\<lambda>d. query_value F (of_nat i) (of_nat q_head) (of_nat d)) [0..<unat (head_dim shape)])
       [0..<unat (sc_num_query_heads sc)])"

text \<open>One sequence of the batch: its query, its output and its row of the block table are written into the
  flat arrays.\<close>

definition fixture_row ::
    "'f floats \<Rightarrow> 'f Scenario \<Rightarrow> BlockShape \<Rightarrow> KVCacheManager \<Rightarrow> SequenceId list \<Rightarrow> nat
       \<Rightarrow> 'f FixtureArrays \<Rightarrow> nat \<Rightarrow> string + 'f FixtureArrays" where
  "fixture_row F sc shape kv sids max_blocks_per_seq fx i =
     (let query_elements = unat (sc_num_query_heads sc) * unat (head_dim shape);
          query = query_row F sc shape i;
          out = segment (i * query_elements) query_elements (fx_outputs fx)
      in case cache_view kv (sids ! i) TextKV of
           None \<Rightarrow> Inl ''cache_view failed''
         | Some v \<Rightarrow>
             and_then (require (sc_scatter sc \<longrightarrow> is_scattered (the (view_block_table v)))
                         (sc_name sc @ '': sequence '' @ to_string i @ '' did not scatter''))
               (\<lambda>_. let (ok, out') = paged_attention_decode (fl_ops F) v (Some query) (scenario_params sc i) (Some out) in
                 and_then (require ok ''paged_attention_decode rejected the fixture'')
                   (\<lambda>_. and_then (cross_check F sc shape (of_nat i) query (the out'))
                     (\<lambda>_. Inr
                       \<lparr>fx_queries = overwrite (i * query_elements) query (fx_queries fx),
                        fx_outputs = overwrite (i * query_elements) (the out') (fx_outputs fx),
                        fx_block_table = overwrite (i * max_blocks_per_seq)
                          (map physical_id (entries (the (view_block_table v)))) (fx_block_table fx),
                        fx_context_lens = (fx_context_lens fx)[i := sc_context_lens sc ! i]\<rparr>))))"

definition blank_arrays :: "'f floats \<Rightarrow> 'f Scenario \<Rightarrow> BlockShape \<Rightarrow> nat \<Rightarrow> nat \<Rightarrow> 'f FixtureArrays" where
  "blank_arrays F sc shape num_seqs max_blocks_per_seq =
     (let query_elements = unat (sc_num_query_heads sc) * unat (head_dim shape) in
      \<lparr>fx_queries = replicate (num_seqs * query_elements) (fl_zero (fl_ops F)),
       fx_outputs = replicate (num_seqs * query_elements) (fl_zero (fl_ops F)),
       fx_block_table = replicate (num_seqs * max_blocks_per_seq) (- 1), fx_context_lens = replicate num_seqs 0\<rparr>)"

text \<open>The copy of the pool: the elements of every frame, without the padding between frames. A frame that
  is missing or has no storage is a null pointer, which the code does not test.\<close>

definition pool_elements :: "'f floats \<Rightarrow> KVBlockLayout \<Rightarrow> MemoryAllocator \<Rightarrow> u32 \<Rightarrow> u8 list option" where
  "pool_elements F layout al pool_blocks =
     (let n = unat (element_count layout) * unat (elem_size (fl_ops F));
          rows = map (\<lambda>i. case al_block al (of_nat i) of None \<Rightarrow> None | Some b \<Rightarrow> frame_bytes al b n) [0..<unat pool_blocks]
      in if None \<in> set rows then None else Some (concat (map the rows)))"

definition scalar_fields :: "'f Scenario \<Rightarrow> BlockShape \<Rightarrow> KVBlockLayout \<Rightarrow> (string \<times> int) list" where
  "scalar_fields sc shape layout =
     [(''tokens_per_block'', uint (tokens_per_block shape)), (''num_layers'', uint (num_layers shape)),
      (''num_kv_heads'', uint (num_kv_heads shape)), (''head_dim'', uint (head_dim shape)),
      (''num_query_heads'', uint (sc_num_query_heads sc)), (''layer'', uint (sc_layer sc)),
      (''head_stride'', sint (head_stride layout)), (''token_stride'', sint (token_stride layout)),
      (''stream_stride'', sint (stream_stride layout)), (''layer_stride'', sint (layer_stride layout))]"

definition write_fixture ::
    "'f floats \<Rightarrow> 'f Scenario \<Rightarrow> BlockShape \<Rightarrow> KVBlockLayout \<Rightarrow> KVCacheManager \<Rightarrow> SequenceId list \<Rightarrow> u32 \<Rightarrow> u32
       \<Rightarrow> string + npy_file list" where
  "write_fixture F sc shape layout kv sids pool_blocks max_blocks_per_seq =
     (let n = length sids; dir = sc_name sc in
      and_then (try_loop (fixture_row F sc shape kv sids (unat max_blocks_per_seq)) [0..<n]
                  (blank_arrays F sc shape n (unat max_blocks_per_seq)))
        (\<lambda>fx. case pool_elements F layout (allocator kv) pool_blocks of
           None \<Rightarrow> Inl ''null frame''
         | Some bytes \<Rightarrow>
             and_then (try_loop (\<lambda>files (name, val). and_then (write_scalar_i32 dir name val) (\<lambda>f. Inr (files @ [f])))
                         (scalar_fields sc shape layout)
                         [(npy_path dir ''kv_pool'', write_npy ''<f4'' [ucast pool_blocks, element_count layout] bytes 4),
                          write_f32 F dir ''query'' [of_nat n, ucast (sc_num_query_heads sc), ucast (head_dim shape)] (fx_queries fx),
                          write_f32 F dir ''output'' [of_nat n, ucast (sc_num_query_heads sc), ucast (head_dim shape)] (fx_outputs fx),
                          write_i32 dir ''block_table'' [of_nat n, ucast max_blocks_per_seq] (fx_block_table fx),
                          write_i32 dir ''context_lens'' [of_nat n] (fx_context_lens fx)])
               (\<lambda>files. Inr (files @ [write_scalar_f32 F dir ''scale'' (sc_scale sc)]))))"

section \<open>The exporters\<close>

definition scenario_shape :: "'f Scenario \<Rightarrow> BlockShape" where
  "scenario_shape sc =
     \<lparr>tokens_per_block = sc_tokens_per_block sc, num_layers = sc_num_layers sc, num_kv_heads = sc_num_kv_heads sc,
      head_dim = sc_head_dim sc, bytes_per_element = 4, layers_per_frame = 0\<rparr>"

definition exporter_config :: "'f Scenario \<Rightarrow> u32 \<Rightarrow> AllocatorConfig" where
  "exporter_config sc pool_blocks =
     \<lparr>block_shape = scenario_shape sc,
      memory_options = \<lparr>alignment_bytes = kDefaultBlockAlignmentBytes, prefer_pinned_memory = False\<rparr>,
      max_blocks = pool_blocks\<rparr>"

definition blocks_per_seq :: "'f Scenario \<Rightarrow> u32 list" where
  "blocks_per_seq sc = map (\<lambda>n. (n + sc_tokens_per_block sc - 1) div sc_tokens_per_block sc) (sc_context_lens sc)"

definition scenario_pool_blocks :: "'f Scenario \<Rightarrow> u32" where
  "scenario_pool_blocks sc = (if sc_scatter sc then sum_list (blocks_per_seq sc) * 2 else sum_list (blocks_per_seq sc))"

definition zero_frames :: "u32 \<Rightarrow> MemoryAllocator \<Rightarrow> string + MemoryAllocator" where
  "zero_frames pool_blocks al =
     try_loop (\<lambda>al i. case al_block al (of_nat i) of
         None \<Rightarrow> Inl ''pool frame missing''
       | Some b \<Rightarrow> Inr (write_frame al b (replicate (unat (pb_size_bytes b)) 0))) [0..<unat pool_blocks] al"

definition kSpacerSequence :: SequenceId where
  "kSpacerSequence = 9999"

definition sequence_id :: "nat \<Rightarrow> SequenceId" where
  "sequence_id i = of_nat i + 1"

definition plain_metadata :: "SequenceId \<Rightarrow> SequenceMetadata" where
  "plain_metadata sid =
     \<lparr>sm_sequence_id = sid, sm_request_id = sid, sm_multimodal_spans = [], sm_positional_encoding = []\<rparr>"

text \<open>An operation of the manager under \<^verbatim>\<open>require\<close>.\<close>

definition required :: "string \<Rightarrow> bool \<times> KVCacheManager \<Rightarrow> string + KVCacheManager" where
  "required what r = (case r of (ok, kv) \<Rightarrow> and_then (require ok what) (\<lambda>_. Inr kv))"

definition create_all :: "'f Scenario \<Rightarrow> KVCacheManager \<Rightarrow> string + KVCacheManager" where
  "create_all sc kv =
     and_then (try_loop (\<lambda>kv i. required ''create_sequence failed'' (create_sequence kv (plain_metadata (sequence_id i))))
                 [0..<length (sc_context_lens sc)] kv)
       (\<lambda>kv. if sc_scatter sc
              then required ''create spacer sequence failed'' (create_sequence kv (plain_metadata kSpacerSequence))
              else Inr kv)"

definition reserve_round :: "'f Scenario \<Rightarrow> nat \<Rightarrow> KVCacheManager \<Rightarrow> nat \<Rightarrow> string + KVCacheManager" where
  "reserve_round sc k kv i =
     (if k \<ge> unat (blocks_per_seq sc ! i) then Inr kv
      else
        and_then (required ''reserve_tokens failed'' (reserve_tokens kv (sequence_id i) (sc_tokens_per_block sc)))
          (\<lambda>kv. if sc_scatter sc
                 then required ''reserve spacer tokens failed'' (reserve_tokens kv kSpacerSequence (sc_tokens_per_block sc))
                 else Inr kv))"

definition reserve_all :: "'f Scenario \<Rightarrow> KVCacheManager \<Rightarrow> string + KVCacheManager" where
  "reserve_all sc kv =
     try_loop (\<lambda>kv k. try_loop (reserve_round sc k) [0..<length (sc_context_lens sc)] kv)
       [0..<unat (foldl max 0 (blocks_per_seq sc))] kv"

definition fill_all :: "'f floats \<Rightarrow> 'f Scenario \<Rightarrow> KVCacheManager \<Rightarrow> string + KVCacheManager" where
  "fill_all F sc kv =
     try_loop (\<lambda>kv i. fill_sequence F (scenario_shape sc) \<lparr>kvl_shape = scenario_shape sc\<rparr> kv (sequence_id i) (of_nat i)
                        (sc_context_lens sc ! i)) [0..<length (sc_context_lens sc)] kv"

definition export_scenario :: "'f floats \<Rightarrow> u8 list option \<Rightarrow> 'f Scenario \<Rightarrow> string + npy_file list" where
  "export_scenario F slab sc =
     (let pool_blocks = scenario_pool_blocks sc;
          kv = KVCacheManager_new (MemoryAllocator_new (exporter_config sc pool_blocks) slab)
      in and_then (zero_frames pool_blocks (allocator kv))
           (\<lambda>al. and_then (create_all sc (kv\<lparr>allocator := al\<rparr>))
             (\<lambda>kv. and_then (reserve_all sc kv)
               (\<lambda>kv. and_then (fill_all F sc (if sc_scatter sc then release_sequence kv kSpacerSequence else kv))
                 (\<lambda>kv. write_fixture F sc (scenario_shape sc) \<lparr>kvl_shape = scenario_shape sc\<rparr> kv
                         (map sequence_id [0..<length (sc_context_lens sc)]) pool_blocks
                         (foldl max 0 (blocks_per_seq sc)))))))"

text \<open>The physical frames of a sequence, in logical order.\<close>

definition mapped_frames :: "KVCacheManager \<Rightarrow> SequenceId \<Rightarrow> string + PhysicalBlockId list" where
  "mapped_frames kv sid =
     (case cache_view kv sid TextKV of
        None \<Rightarrow> Inl ''cache_view failed''
      | Some v \<Rightarrow> Inr (map physical_id (entries (the (view_block_table v)))))"

definition churn_scenario :: "'f floats \<Rightarrow> 'f Scenario" where
  "churn_scenario F =
     \<lparr>sc_name = ''cow_and_recycled_frames'',
      sc_purpose = ''a fork parent, its copy-on-write child, and a sequence on recycled frames'',
      sc_tokens_per_block = 4, sc_num_layers = 2, sc_num_kv_heads = 2, sc_head_dim = 8, sc_num_query_heads = 4,
      sc_layer = 1, sc_scale = float_literal F (35 / 100), sc_context_lens = [10, 10, 6], sc_scatter = False\<rparr>"

definition prefill_frames :: "'f floats \<Rightarrow> u32 \<Rightarrow> MemoryAllocator \<Rightarrow> string + MemoryAllocator" where
  "prefill_frames F pool_blocks al =
     try_loop (\<lambda>al pid. case al_block al (of_nat pid) of
         None \<Rightarrow> Inl ''pool frame missing''
       | Some b \<Rightarrow>
           Inr (foldl (\<lambda>al i. store_float F al b (of_nat i) (mix F [2, of_nat pid, of_nat i])) al
                  [0..<unat (pb_size_bytes b div 4)])) [0..<unat pool_blocks] al"

text \<open>Creating a sequence, reserving its blocks and filling them.\<close>

definition build_sequence ::
    "'f floats \<Rightarrow> 'f Scenario \<Rightarrow> string \<Rightarrow> SequenceId \<Rightarrow> u32 \<Rightarrow> u32 \<Rightarrow> KVCacheManager \<Rightarrow> string + KVCacheManager" where
  "build_sequence F sc what sid salt context_len kv =
     and_then (required (''create '' @ what @ '' failed'') (create_sequence kv (plain_metadata sid)))
       (\<lambda>kv. and_then (required (''reserve '' @ what @ '' failed'') (reserve_tokens kv sid context_len))
         (\<lambda>kv. fill_sequence F (scenario_shape sc) \<lparr>kvl_shape = scenario_shape sc\<rparr> kv sid salt context_len))"

text \<open>The checks that the fixture still tests what its name says.\<close>

definition churn_premises ::
    "'f Scenario \<Rightarrow> PhysicalBlockId list \<Rightarrow> PhysicalBlockId list \<Rightarrow> PhysicalBlockId list \<Rightarrow> PhysicalBlockId list \<Rightarrow> string + unit" where
  "churn_premises sc victim_frames parent_frames child_frames recycled_frames =
     and_then (try_loop (\<lambda>_ frame. require (frame \<notin> set parent_frames)
                 ''child still shares a frame with its parent: copy-on-write did not happen'') child_frames ())
       (\<lambda>_. and_then (require (list_ex (\<lambda>frame. frame \<in> set victim_frames) recycled_frames)
                 ''recycled sequence drew only fresh frames: the fixture is not testing reuse'')
         (\<lambda>_. require (sc_context_lens sc ! 2 mod sc_tokens_per_block sc \<noteq> 0)
                 ''recycled sequence must end mid-block to leave a stale tail exposed''))"

definition export_churn_scenario :: "'f floats \<Rightarrow> u8 list option \<Rightarrow> string + npy_file list" where
  "export_churn_scenario F slab =
     (let sc = churn_scenario F; shape = scenario_shape sc; layout = \<lparr>kvl_shape = shape\<rparr>; ctx = sc_context_lens sc;
          kVictim = 100; kParent = 1; kChild = 2; kRecycled = 3;
          kv = KVCacheManager_new (MemoryAllocator_new (exporter_config sc 10) slab)
      in and_then (prefill_frames F 10 (allocator kv))
       (\<lambda>al. and_then (build_sequence F sc ''parent'' kParent 0 (ctx ! 0) (kv\<lparr>allocator := al\<rparr>))
       (\<lambda>kv. and_then (required ''fork_sequence failed'' (fork_sequence kv kParent (plain_metadata kChild)))
       (\<lambda>kv. and_then (fill_sequence F shape layout kv kChild 1 (ctx ! 1))
       (\<lambda>kv. and_then (build_sequence F sc ''victim'' kVictim 7 (ctx ! 0) kv)
       (\<lambda>kv. and_then (mapped_frames kv kVictim)
       (\<lambda>victim_frames. and_then (build_sequence F sc ''recycled'' kRecycled 2 (ctx ! 2) (release_sequence kv kVictim))
       (\<lambda>kv. and_then (mapped_frames kv kParent)
       (\<lambda>parent_frames. and_then (mapped_frames kv kChild)
       (\<lambda>child_frames. and_then (mapped_frames kv kRecycled)
       (\<lambda>recycled_frames. and_then (churn_premises sc victim_frames parent_frames child_frames recycled_frames)
       (\<lambda>_. write_fixture F sc shape layout kv [kParent, kChild, kRecycled] 10 3))))))))))))"

definition scenarios :: "'f floats \<Rightarrow> 'f Scenario list" where
  "scenarios F =
     [\<lparr>sc_name = ''single_head_contiguous'',
       sc_purpose = ''smallest case that exercises nothing but the softmax and the dot product'',
       sc_tokens_per_block = 4, sc_num_layers = 1, sc_num_kv_heads = 1, sc_head_dim = 4, sc_num_query_heads = 1,
       sc_layer = 0, sc_scale = float_literal F 1, sc_context_lens = [8], sc_scatter = False\<rparr>,
      \<lparr>sc_name = ''scattered_partial_block'',
       sc_purpose = ''non-zero layer over scattered frames with a partially filled last block'',
       sc_tokens_per_block = 4, sc_num_layers = 2, sc_num_kv_heads = 2, sc_head_dim = 4, sc_num_query_heads = 2,
       sc_layer = 1, sc_scale = float_literal F (1 / 2), sc_context_lens = [10], sc_scatter = True\<rparr>,
      \<lparr>sc_name = ''grouped_query_heads'',
       sc_purpose = ''group size 4, so a kernel that ignores the query-head mapping fails'',
       sc_tokens_per_block = 4, sc_num_layers = 1, sc_num_kv_heads = 2, sc_head_dim = 4, sc_num_query_heads = 8,
       sc_layer = 0, sc_scale = float_literal F (1 / 2), sc_context_lens = [11], sc_scatter = True\<rparr>,
      \<lparr>sc_name = ''batched_head_dim_128'',
       sc_purpose = ''ragged batch at the real head_dim and GQA ratio, with block-table padding'',
       sc_tokens_per_block = 16, sc_num_layers = 2, sc_num_kv_heads = 2, sc_head_dim = 128, sc_num_query_heads = 4,
       sc_layer = 1, sc_scale = float_literal F (88388348 / 1000000000), sc_context_lens = [40, 17, 63], sc_scatter = True\<rparr>]"

text \<open>\<^verbatim>\<open>main\<close>: its exit code, and the files of a successful run. The slabs are those of the four scenarios and
  of the churn scenario.\<close>

definition golden_main :: "'f floats \<Rightarrow> u8 list option list \<Rightarrow> u8 list option \<Rightarrow> nat \<times> npy_file list" where
  "golden_main F slabs churn_slab =
     (case and_then (try_loop (\<lambda>files (slab, sc). and_then (export_scenario F slab sc) (\<lambda>fs. Inr (files @ fs)))
                       (zip slabs (scenarios F)) [])
             (\<lambda>files. and_then (export_churn_scenario F churn_slab) (\<lambda>fs. Inr (files @ fs))) of
        Inl what \<Rightarrow> (1, [])
      | Inr files \<Rightarrow> (0, files))"

end
