(* ===== verification/GoldenFill.thy ===== *)
theory GoldenFill
  imports GoldenExport KVLimits
begin

text \<open>
  Filling a sequence with the exporter's pattern. Every store is a write of a whole frame with one element
  changed, so filling is a run of copy-on-write preparations and client writes; afterwards the content of the
  sequence holds the pattern at every coordinate, whatever was shared with other sequences before, and every
  other sequence is as it was.
\<close>

section \<open>Loops that may throw\<close>

lemma require_simps [simp]: "require True what = Inr ()" "require False what = Inl what"
  by (simp_all add: require_def)

text \<open>A loop whose body keeps an invariant of the elements treated so far runs to its end.\<close>

lemma try_loop_inv:
  assumes step: "\<And>ys x s. set ys \<subseteq> set xs \<Longrightarrow> x \<in> set xs \<Longrightarrow> I ys s \<Longrightarrow> \<exists>s'. body s x = Inr s' \<and> I (ys @ [x]) s'"
    and start: "I [] s"
  shows "\<exists>s'. try_loop body xs s = Inr s' \<and> I xs s'"
proof -
  have "\<exists>s'. try_loop body zs s = Inr s' \<and> I (ys @ zs) s'" if "I ys s" "set ys \<union> set zs \<subseteq> set xs" for ys zs s
    using that
  proof (induction zs arbitrary: ys s)
    case (Cons z zs)
    obtain s1 where s1: "body s z = Inr s1" "I (ys @ [z]) s1" using step [of ys z s] Cons.prems by auto
    have "set (ys @ [z]) \<union> set zs \<subseteq> set xs" using Cons.prems(2) by auto
    from Cons.IH [OF s1(2) this] show ?case using s1(1) by simp
  qed simp
  from this [OF start, of xs] show ?thesis by simp
qed

section \<open>Writing elements of a block\<close>

text \<open>The bytes of a block after the stores \<open>ws\<close>, each the number of an element and its value.\<close>

definition poke :: "'f floats \<Rightarrow> u8 list \<Rightarrow> nat \<times> 'f \<Rightarrow> u8 list" where
  "poke F bs w = overwrite (fst w * 4) (float_bytes F (snd w)) bs"

definition float_ok :: "'f floats \<Rightarrow> bool" where
  "float_ok F \<longleftrightarrow>
     elem_size (fl_ops F) = 4 \<and> (\<forall>x. to_float (fl_ops F) x = x) \<and> (\<forall>x. from_float (fl_ops F) x = x)
     \<and> (\<forall>v. length (float_bytes F v) = 4 \<and> elem_of_bytes (fl_ops F) (float_bytes F v) = v)"

lemma float_okD:
  assumes "float_ok F"
  shows "elem_size (fl_ops F) = 4" and "to_float (fl_ops F) x = x" and "from_float (fl_ops F) x = x"
    and "length (float_bytes F v) = 4" and "elem_of_bytes (fl_ops F) (float_bytes F v) = v"
  using assms by (simp_all add: float_ok_def)

definition element :: "nat \<Rightarrow> u8 list \<Rightarrow> u8 list" where
  "element i bs = segment (i * 4) 4 bs"

lemma element_poke:
  assumes F: "float_ok F" and "i * 4 + 4 \<le> length bs" and "fst w * 4 + 4 \<le> length bs"
  shows "element i (poke F bs w) = (if i = fst w then float_bytes F (snd w) else element i bs)"
    and "length (poke F bs w) = length bs"
proof -
  note len = float_okD(4) [OF F, of "snd w"]
  show "length (poke F bs w) = length bs" using assms(3) len by (simp add: poke_def)
  show "element i (poke F bs w) = (if i = fst w then float_bytes F (snd w) else element i bs)"
  proof (cases "i = fst w")
    case True
    then show ?thesis
      using segment_overwrite_same [of "fst w * 4" "float_bytes F (snd w)" bs] assms(3) len
      by (simp add: element_def poke_def)
  next
    case False
    then have "i * 4 + 4 \<le> fst w * 4 \<or> fst w * 4 + length (float_bytes F (snd w)) \<le> i * 4"
      using frames_disjoint [of i "fst w" 4] len by auto
    then show ?thesis
      using segment_overwrite_disjoint [of "i * 4" 4 "fst w * 4" "float_bytes F (snd w)" bs] assms(3) len False
      by (simp add: element_def poke_def)
  qed
qed

lemma pokes_length:
  assumes F: "float_ok F" and "\<forall>w\<in>set ws. fst w * 4 + 4 \<le> length bs"
  shows "length (foldl (poke F) bs ws) = length bs"
  using assms(2)
proof (induction ws arbitrary: bs)
  case (Cons w ws)
  then have "length (poke F bs w) = length bs" using element_poke(2) [OF F, of "fst w" bs w] by simp
  then show ?case using Cons by simp
qed simp

text \<open>When equal numbers come with equal values, the order of the stores does not matter.\<close>

lemma element_pokes:
  assumes F: "float_ok F" and "\<forall>w\<in>set ws. fst w * 4 + 4 \<le> length bs" and "i * 4 + 4 \<le> length bs"
  shows "element i (foldl (poke F) bs ws) = element i bs \<and> i \<notin> fst ` set ws
    \<or> (\<exists>v. (i, v) \<in> set ws \<and> element i (foldl (poke F) bs ws) = float_bytes F v)"
  using assms(2,3)
proof (induction ws arbitrary: bs)
  case (Cons w ws)
  have w: "fst w * 4 + 4 \<le> length bs" using Cons.prems(1) by simp
  note one = element_poke [OF F Cons.prems(2) w]
  from Cons.IH [of "poke F bs w"] have "element i (foldl (poke F) (poke F bs w) ws) = element i (poke F bs w) \<and> i \<notin> fst ` set ws
      \<or> (\<exists>v. (i, v) \<in> set ws \<and> element i (foldl (poke F) (poke F bs w) ws) = float_bytes F v)"
    using Cons.prems one(2) by simp
  then show ?case
  proof (elim disjE exE conjE)
    assume same: "element i (foldl (poke F) (poke F bs w) ws) = element i (poke F bs w)" and not: "i \<notin> fst ` set ws"
    show ?thesis
    proof (cases "i = fst w")
      case True
      then show ?thesis using same one(1) by (intro disjI2 exI [of _ "snd w"]) simp
    next
      case False
      then show ?thesis using same one(1) not by auto
    qed
  qed auto
qed simp

section \<open>Stores and frames\<close>

lemma overwrite_segment:
  assumes "off + n \<le> length xs"
  shows "overwrite off (segment off n xs) xs = xs"
proof -
  have "drop (off + n) xs = drop n (drop off xs)" by (simp add: add.commute)
  moreover have "length (segment off n xs) = n" using assms by simp
  ultimately have "overwrite off (segment off n xs) xs = take off xs @ take n (drop off xs) @ drop n (drop off xs)"
    by (simp add: overwrite_def segment_def)
  then show ?thesis by (simp only: append_take_drop_id)
qed

lemma write_frame_write_frame:
  assumes "pb_storage b = Some off" and "unat off + length bs \<le> length (pool al)" and "length bs' = length bs"
  shows "write_frame (write_frame al b bs) b bs' = write_frame al b bs'"
  using assms by (simp add: write_frame_def overwrite_def)

lemma store_float_frame:
  assumes F: "float_ok F" and b: "pb_storage b = Some off" and len: "unat off + length bs \<le> length (pool al)"
    and i: "unat i * 4 + 4 \<le> length bs"
  shows "store_float F (write_frame al b bs) b i v = write_frame al b (poke F bs (unat i, v))"
proof -
  let ?v = "float_bytes F v"
  have v: "length ?v = 4" and E: "unat (elem_size (fl_ops F)) = 4" using float_okD [OF F] by simp_all
  have "overwrite (unat off + unat i * 4) ?v (overwrite (unat off) bs (pool al))
      = overwrite (unat off) (overwrite (unat i * 4) ?v bs) (pool al)"
    using len i v by (simp add: overwrite_def min_absorb2 add.commute add.left_commute)
  then show ?thesis
    using b len i v E by (simp add: store_float_def write_frame_def poke_def Let_def)
qed

lemma stores_frame:
  assumes F: "float_ok F" and b: "pb_storage b = Some off" and len: "unat off + length bs \<le> length (pool al)"
    and ws: "\<forall>w\<in>set ws. unat (fst w) * 4 + 4 \<le> length bs"
  shows "foldl (\<lambda>al w. store_float F al b (fst w) (snd w)) (write_frame al b bs) ws
    = write_frame al b (foldl (poke F) bs (map (\<lambda>w. (unat (fst w), snd w)) ws))"
  using len ws
proof (induction ws arbitrary: bs)
  case (Cons w ws)
  have one: "store_float F (write_frame al b bs) b (fst w) (snd w) = write_frame al b (poke F bs (unat (fst w), snd w))"
    using store_float_frame [OF F b Cons.prems(1)] Cons.prems(2) by simp
  have len1: "length (poke F bs (unat (fst w), snd w)) = length bs"
    using element_poke(2) [OF F, of "unat (fst w)" bs "(unat (fst w), snd w)"] Cons.prems(2) by simp
  show ?case using Cons.IH [of "poke F bs (unat (fst w), snd w)"] Cons.prems one len1 by simp
qed simp

section \<open>Room for copies\<close>

text \<open>The blocks of a sequence's first table, how many of them are shared, and the condition under which a
  write to any of the first \<open>n\<close> blocks can be prepared, one after the other in any order: all are resident
  and there is a free frame for every shared one.\<close>

definition first_entries :: "KVCacheManager \<Rightarrow> SequenceId \<Rightarrow> BlockTableEntry list" where
  "first_entries kv sid = (case sequences kv sid of None \<Rightarrow> [] | Some st \<Rightarrow> entries (tables st ! 0))"

definition shared_entries :: "MemoryAllocator \<Rightarrow> BlockTableEntry list \<Rightarrow> nat" where
  "shared_entries al es = length (filter (\<lambda>e. ref_of al (physical_id e) > 1) es)"

definition fill_ready :: "KVCacheManager \<Rightarrow> SequenceId \<Rightarrow> nat \<Rightarrow> bool" where
  "fill_ready kv sid n \<longleftrightarrow>
     sequences kv sid \<noteq> None \<and> n \<le> length (first_entries kv sid)
     \<and> list_all (\<lambda>e. swap_slot e = None) (first_entries kv sid)
     \<and> shared_entries (allocator kv) (first_entries kv sid) \<le> length (free_list (allocator kv))"

lemma shared_entries_update:
  assumes i: "i < length es" and shared: "ref_of al (physical_id (es ! i)) > 1" and priv: "ref_of al' (physical_id e') \<le> 1"
    and others: "\<And>k. k < length es \<Longrightarrow> k \<noteq> i \<Longrightarrow>
      ref_of al' (physical_id (es ! k)) > 1 \<Longrightarrow> ref_of al (physical_id (es ! k)) > 1"
  shows "shared_entries al' (es[i := e']) < shared_entries al es"
proof -
  let ?old = "{k. k < length es \<and> ref_of al (physical_id (es ! k)) > 1}"
  let ?new = "{k. k < length (es[i := e']) \<and> ref_of al' (physical_id (es[i := e'] ! k)) > 1}"
  have "k \<in> ?old \<and> k \<noteq> i" if "k \<in> ?new" for k
    using that priv others [of k] by (cases "k = i") auto
  then have "?new \<subseteq> ?old - {i}" by blast
  moreover have "i \<in> ?old" using i shared by simp
  ultimately have "?new \<subset> ?old" by blast
  then have "card ?new < card ?old" by (intro psubset_card_mono) simp_all
  then show ?thesis by (simp add: shared_entries_def length_filter_conv_card)
qed

lemma shared_entries_ids: "shared_entries al es = length (filter (\<lambda>q. ref_of al q > 1) (map physical_id es))"
  by (simp add: shared_entries_def filter_map o_def)

lemma ref_of_release:
  assumes "ids_inv al"
  shows "ref_of (release al p) = (ref_of al)(p := ref_of al p - 1)"
proof
  fix q
  have "ref_of (release al p) q = count (alloc_refs al - {#p#}) q"
    using ids_inv_count [OF release_refs(1) [OF assms], of p q] release_refs(2) [OF assms] by simp
  then show "ref_of (release al p) q = ((ref_of al)(p := ref_of al p - 1)) q" using ids_inv_count [OF assms] by simp
qed

lemma free_list_release_shared: "ref_of al p > 1 \<Longrightarrow> free_list (release al p) = free_list al"
proof -
  assume two: "ref_of al p > 1"
  then have valid: "unat p < length (infos al)" and rc: "unat (ref_count (infos al ! unat p)) > 1"
    by (auto simp: ref_of_def split: if_splits)
  then have "ref_count (infos al ! unat p) - 1 \<noteq> 0" by (metis right_minus_eq unat_1 less_irrefl)
  then show ?thesis using valid by (auto simp: release_def update_info_def Let_def)
qed

text \<open>The frames after a copy was made for one shared block.\<close>

lemma copy_for_write:
  assumes inv: "alloc_inv al" and p: "ref_of al p > 1" and run: "allocate al = (Some c, al1)"
  defines "al' \<equiv> release (copy_block al1 p c) p"
  shows "length (free_list al) = Suc (length (free_list al'))" and "ref_of al' c = 1"
    and "q \<noteq> c \<Longrightarrow> ref_of al' q \<le> ref_of al q"
proof -
  have ids: "ids_inv al" and mem: "memory_inv al" using inv by (simp_all add: alloc_inv_def)
  note al1 = allocate_Some [OF ids run]
  have ref1: "ref_of al1 = (ref_of al)(c := 1)"
    unfolding al1(1) using ref_of_update_info [OF al1(2)] by (auto simp: fun_eq_iff)
  have "memory_inv al1" and cap: "length (infos al) = unat (max_blocks (config al1))"
    unfolding al1(1) using mem ids by (simp_all add: memory_inv_def update_info_def Let_def ids_inv_def)
  moreover have "unat p < length (infos al)" using p by (intro ref_of_pos_valid) simp
  ultimately have copy: "infos (copy_block al1 p c) = infos al1" "free_list (copy_block al1 p c) = free_list al1"
    using copy_block_frames [of al1 p c] al1(2) by simp_all
  have "ids_inv (copy_block al1 p c)"
    using al1(5) copy copy_block_frames(4) [OF \<open>memory_inv al1\<close>, of p c] al1(2) p cap ref_of_pos_valid [of al p]
    by (simp add: ids_inv_def ref_of_cong [OF copy(1)])
  then have ref: "ref_of al' = (ref_of al1)(p := ref_of al1 p - 1)"
    unfolding al'_def using ref_of_release ref_of_cong [OF copy(1)] by simp
  have ne: "p \<noteq> c" using p al1(3) by auto
  then show "ref_of al' c = 1" and "q \<noteq> c \<Longrightarrow> ref_of al' q \<le> ref_of al q" using ref ref1 by auto
  have "ref_of (copy_block al1 p c) p > 1" using ne p ref1 ref_of_cong [OF copy(1)] by simp
  from free_list_release_shared [OF this] have "free_list al' = free_list al1" unfolding al'_def using copy(2) by simp
  moreover have "free_list al1 = butlast (free_list al)" unfolding al1(1) by simp
  ultimately show "length (free_list al) = Suc (length (free_list al'))" using al1(4) by (metis length_append_singleton)
qed

lemma ensure_fill_ready:
  assumes inv: "kv_inv kv" and ready: "fill_ready kv sid n"
    and run: "ensure_token_writable kv sid pos kind 0 = (Some p, kv1)"
  shows "fill_ready kv1 sid n" and "length (first_entries kv1 sid) = length (first_entries kv sid)"
    and "shared_entries (allocator kv) (first_entries kv sid) = 0 \<Longrightarrow>
      map physical_id (first_entries kv1 sid) = map physical_id (first_entries kv sid)
      \<and> shared_entries (allocator kv1) (first_entries kv1 sid) = 0"
    and "other \<noteq> sid \<Longrightarrow> sequences kv1 other = sequences kv other"
    and "ref_of (allocator kv1) q \<le> max 1 (ref_of (allocator kv) q)"
    and "k < length (first_entries kv sid) \<Longrightarrow> ref_of (allocator kv1) (physical_id (first_entries kv1 sid ! k))
      \<le> max 1 (ref_of (allocator kv) (physical_id (first_entries kv sid ! k)))"
    and "length (free_list (allocator kv)) + shared_entries (allocator kv1) (first_entries kv1 sid)
      \<le> length (free_list (allocator kv1)) + shared_entries (allocator kv) (first_entries kv sid)"
proof -
  obtain st where st: "sequences kv sid = Some st" using ready by (auto simp: fill_ready_def)
  let ?es = "entries (tables st ! 0)" and ?i = "unat (pos div kv_tokens_per_block kv)" and ?al = "allocator kv"
  have es: "first_entries kv sid = ?es" by (simp add: first_entries_def st)
  have ne: "0 < length (tables st)" using tables_ok_nonempty [OF kv_inv_tables [OF inv st]] by simp
  note eq = ensure_unfold [OF inv st, of pos kind 0, unfolded run]
  have target: "write_target kv sid pos 0 = Some (?es ! ?i)" and i: "?i < length ?es"
    using eq st by (auto simp: write_target_def split: if_splits)
  have res: "swap_slot (?es ! ?i) = None" using ready i by (simp add: fill_ready_def es list_all_length)
  let ?e = "?es ! ?i"
  have "fill_ready kv1 sid n \<and> length (first_entries kv1 sid) = length ?es
    \<and> (shared_entries ?al ?es = 0 \<longrightarrow> map physical_id (first_entries kv1 sid) = map physical_id ?es
        \<and> shared_entries (allocator kv1) (first_entries kv1 sid) = 0)
    \<and> (\<forall>other. other \<noteq> sid \<longrightarrow> sequences kv1 other = sequences kv other)
    \<and> (\<forall>q. ref_of (allocator kv1) q \<le> max 1 (ref_of ?al q))
    \<and> (\<forall>k<length ?es. ref_of (allocator kv1) (physical_id (first_entries kv1 sid ! k)) \<le> max 1 (ref_of ?al (physical_id (?es ! k))))
    \<and> length (free_list ?al) + shared_entries (allocator kv1) (first_entries kv1 sid)
        \<le> length (free_list (allocator kv1)) + shared_entries ?al ?es"
  proof (cases "ref_of ?al (physical_id ?e) \<le> 1")
    case True
    then have kv1: "kv1 = with_tables kv sid st ?al ((tables st)[0 := bt_update_at (tables st ! 0) ?i (\<lambda>e. e\<lparr>writable := True\<rparr>)])"
      using eq target res by simp
    then have es1: "first_entries kv1 sid = ?es[?i := ?e\<lparr>writable := True\<rparr>]" and al1: "allocator kv1 = ?al"
      and sid1: "sequences kv1 sid \<noteq> None"
      using ne by (simp_all add: first_entries_def with_tables_def bt_update_at_def)
    have ids: "map physical_id (?es[?i := ?e\<lparr>writable := True\<rparr>]) = map physical_id ?es"
      using i by (simp add: map_update list_update_same_conv)
    have "shared_entries ?al (?es[?i := ?e\<lparr>writable := True\<rparr>]) = shared_entries ?al ?es"
      by (simp only: shared_entries_ids ids)
    moreover have "list_all (\<lambda>e. swap_slot e = None) (?es[?i := ?e\<lparr>writable := True\<rparr>])"
      using ready i res by (auto simp: fill_ready_def es list_all_length nth_list_update)
    moreover have "physical_id (?es[?i := ?e\<lparr>writable := True\<rparr>] ! k) = physical_id (?es ! k)" if "k < length ?es" for k
      using that by (cases "k = ?i") simp_all
    moreover have "sequences kv1 other = sequences kv other" if "other \<noteq> sid" for other using kv1 that by (simp add: with_tables_def)
    ultimately show ?thesis using ready ids by (simp add: fill_ready_def es es1 al1 sid1)
  next
    case False
    then obtain c al1 where alloc: "allocate ?al = (Some c, al1)"
      using eq target res by (auto split: prod.splits option.splits)
    let ?al' = "release (copy_block al1 (physical_id ?e) c) (physical_id ?e)" and ?e' = "?e\<lparr>physical_id := c, writable := True\<rparr>"
    have kv1: "kv1 = with_tables kv sid st ?al' ((tables st)[0 := bt_update_at (tables st ! 0) ?i (\<lambda>e. e\<lparr>physical_id := c, writable := True\<rparr>)])"
      using eq target res False alloc by simp
    then have es1: "first_entries kv1 sid = ?es[?i := ?e']" and al': "allocator kv1 = ?al'" and sid1: "sequences kv1 sid \<noteq> None"
      using ne by (simp_all add: first_entries_def with_tables_def bt_update_at_def)
    have shared: "ref_of ?al (physical_id ?e) > 1" using False by simp
    note c = copy_for_write [OF kv_inv_parts(5) [OF inv] shared alloc]
    have "shared_entries ?al' (?es[?i := ?e']) < shared_entries ?al ?es"
    proof (rule shared_entries_update [OF i shared])
      show "ref_of ?al' (physical_id ?e') \<le> 1" using c(2) by simp
      show "ref_of ?al (physical_id (?es ! k)) > 1" if "ref_of ?al' (physical_id (?es ! k)) > 1" for k
        using c(3) [of "physical_id (?es ! k)"] c(2) that by (cases "physical_id (?es ! k) = c") auto
    qed
    moreover have "list_all (\<lambda>e. swap_slot e = None) (?es[?i := ?e'])"
      using ready i res by (auto simp: fill_ready_def es list_all_length nth_list_update)
    moreover have refs: "ref_of ?al' q \<le> max 1 (ref_of ?al q)" for q using c(2) c(3) [of q] by (cases "q = c") auto
    moreover have "ref_of ?al' (physical_id (?es[?i := ?e'] ! k)) \<le> max 1 (ref_of ?al (physical_id (?es ! k)))" if "k < length ?es" for k
      using that refs [of "physical_id (?es ! k)"] c(2) by (cases "k = ?i") simp_all
    moreover have "sequences kv1 other = sequences kv other" if "other \<noteq> sid" for other using kv1 that by (simp add: with_tables_def)
    ultimately show ?thesis using ready c(1) by (simp add: fill_ready_def es es1 al' sid1)
  qed
  then show "fill_ready kv1 sid n" and "length (first_entries kv1 sid) = length (first_entries kv sid)"
    and "shared_entries (allocator kv) (first_entries kv sid) = 0 \<Longrightarrow>
      map physical_id (first_entries kv1 sid) = map physical_id (first_entries kv sid)
      \<and> shared_entries (allocator kv1) (first_entries kv1 sid) = 0"
    and "other \<noteq> sid \<Longrightarrow> sequences kv1 other = sequences kv other"
    and "ref_of (allocator kv1) q \<le> max 1 (ref_of (allocator kv) q)"
    and "k < length (first_entries kv sid) \<Longrightarrow> ref_of (allocator kv1) (physical_id (first_entries kv1 sid ! k))
      \<le> max 1 (ref_of (allocator kv) (physical_id (first_entries kv sid ! k)))"
    and "length (free_list (allocator kv)) + shared_entries (allocator kv1) (first_entries kv1 sid)
      \<le> length (free_list (allocator kv1)) + shared_entries (allocator kv) (first_entries kv sid)"
    using es by simp_all
qed

section \<open>One token\<close>

text \<open>A layout that fits the frames of a pool of packed blocks.\<close>

definition fill_env :: "KVBlockLayout \<Rightarrow> KVCacheManager \<Rightarrow> bool" where
  "fill_env l kv \<longleftrightarrow>
     layout_fits l \<and> element_count l > 0 \<and> kvl_shape l = pool_shape kv \<and> \<not> per_layer_frames (kvl_shape l)
     \<and> layout_elements l * 4 \<le> unat (block_stride_bytes (allocator kv))"

lemma fill_env_tpb: "fill_env l kv \<Longrightarrow> kv_tokens_per_block kv = tokens_per_block (kvl_shape l) \<and> tokens_per_block (kvl_shape l) \<noteq> 0"
  using pool_shape_tpb [of kv] by (cases l) (simp add: fill_env_def)

lemma stride_layout:
  assumes inv: "kv_inv kv" "kv_inv kv'" and layout: "kv_layout kv' = kv_layout kv" and pos: "0 < capacity (allocator kv)"
  shows "block_stride_bytes (allocator kv') = block_stride_bytes (allocator kv)" and "pool_shape kv' = pool_shape kv"
proof -
  have stride: "pb_size_bytes (blocks al ! 0) = block_stride_bytes al" if "alloc_inv al" "0 < capacity al" for al
  proof -
    have "blocks al = map (bind_frame (config al) (block_stride_bytes al) (Some 0)) [0..<unat (max_blocks (config al))]"
      "0 < unat (max_blocks (config al))"
      using that by (simp_all add: alloc_inv_def memory_inv_def Let_def ids_inv_def capacity_def)
    then show ?thesis by (simp add: bind_frame_def Let_def)
  qed
  have same: "blocks (allocator kv') = blocks (allocator kv)" "capacity (allocator kv') = capacity (allocator kv)"
    using layout by (simp_all add: kv_layout_def pool_layout_def capacity_def)
  then show "block_stride_bytes (allocator kv') = block_stride_bytes (allocator kv)"
    using stride [OF kv_inv_parts(5) [OF inv(1)]] stride [OF kv_inv_parts(5) [OF inv(2)]] pos by simp
  show "pool_shape kv' = pool_shape kv" using same(1) by (simp add: pool_shape_def al_block_def)
qed

text \<open>The stores of one token of one stream of one layer.\<close>

definition element_index :: "KVBlockLayout \<Rightarrow> u32 \<Rightarrow> KVStream \<Rightarrow> u32 \<Rightarrow> u32 \<Rightarrow> nat \<Rightarrow> nat" where
  "element_index l layer stream token head d =
     vector_row l layer stream (token mod tokens_per_block (kvl_shape l)) head * unat (head_dim (kvl_shape l)) + d"

definition head_writes ::
    "'f floats \<Rightarrow> KVBlockLayout \<Rightarrow> u32 \<Rightarrow> u32 \<Rightarrow> KVStream \<Rightarrow> u32 \<Rightarrow> nat \<Rightarrow> (nat \<times> 'f) list" where
  "head_writes F l salt layer stream token h =
     map (\<lambda>d. (element_index l layer stream token (of_nat h) d, cache_value F salt layer stream token (of_nat h) (of_nat d)))
       [0..<unat (head_dim (kvl_shape l))]"

definition token_writes ::
    "'f floats \<Rightarrow> KVBlockLayout \<Rightarrow> u32 \<Rightarrow> u32 \<Rightarrow> KVStream \<Rightarrow> u32 \<Rightarrow> nat list \<Rightarrow> (nat \<times> 'f) list" where
  "token_writes F l salt layer stream token hs = concat (map (head_writes F l salt layer stream token) hs)"

lemma element_offset_ex:
  assumes "layer < frame_layers (kvl_shape l)" and "head < num_kv_heads (kvl_shape l)" and "tokens_per_block (kvl_shape l) \<noteq> 0"
  shows "\<exists>off. element_offset l layer stream (token mod tokens_per_block (kvl_shape l)) head = Some off"
proof -
  have "token mod tokens_per_block (kvl_shape l) < tokens_per_block (kvl_shape l)"
    using assms(3) by (simp add: word_mod_less_divisor word_gt_0)
  then show ?thesis using assms(1,2) by (simp add: element_offset_def Let_def not_le [symmetric])
qed

lemma element_index_lt:
  assumes fits: "layout_fits l" and "layer < frame_layers (kvl_shape l)" "head < num_kv_heads (kvl_shape l)"
    and "tokens_per_block (kvl_shape l) \<noteq> 0" and "d < unat (head_dim (kvl_shape l))"
  obtains off where "element_offset l layer stream (token mod tokens_per_block (kvl_shape l)) head = Some off"
    and "unat (off + of_nat d) = element_index l layer stream token head d"
    and "element_index l layer stream token head d < layout_elements l"
proof -
  let ?t = "token mod tokens_per_block (kvl_shape l)"
  obtain off where off: "element_offset l layer stream ?t head = Some off"
    using element_offset_ex [OF assms(2-4)] by blast
  note row = element_offset_row [OF fits off]
  have lt: "element_index l layer stream token head d < layout_elements l"
    using row(2) assms(5) by (simp add: element_index_def)
  then have "unat off + d < 18446744073709551616" using fits row(1) by (simp add: layout_fits_def element_index_def)
  then have "unat (off + of_nat d) = unat off + d" by (simp add: unat_word_ariths unat_of_nat)
  then show thesis using that off lt row(1) by (simp add: element_index_def)
qed

lemma fill_head_eq:
  assumes F: "float_ok F" and fits: "layout_fits l" and layer: "layer < frame_layers (kvl_shape l)"
    and head: "of_nat h < num_kv_heads (kvl_shape l)" and tpb: "tokens_per_block (kvl_shape l) \<noteq> 0"
    and b: "pb_storage b = Some off" and len: "unat off + length bs \<le> length (pool al)" and big: "layout_elements l * 4 \<le> length bs"
  shows "fill_head F (kvl_shape l) l salt layer stream token b (write_frame al b bs) h
    = Inr (write_frame al b (foldl (poke F) bs (head_writes F l salt layer stream token h)))"
proof -
  let ?t = "token mod tokens_per_block (kvl_shape l)" and ?n = "unat (head_dim (kvl_shape l))"
  obtain o' where o': "element_offset l layer stream ?t (of_nat h) = Some o'"
    using element_offset_ex [OF layer head tpb] by blast
  let ?ws = "map (\<lambda>d. (o' + of_nat d, cache_value F salt layer stream token (of_nat h) (of_nat d))) [0..<?n]"
  have idx: "unat (o' + of_nat d) = element_index l layer stream token (of_nat h) d"
    "element_index l layer stream token (of_nat h) d < layout_elements l" if "d < ?n" for d
    using element_index_lt [OF fits layer head tpb that, of stream token] o' by auto
  have "unat (fst w) * 4 + 4 \<le> length bs" if "w \<in> set ?ws" for w
    using that idx big by fastforce
  then have "foldl (\<lambda>al w. store_float F al b (fst w) (snd w)) (write_frame al b bs) ?ws
      = write_frame al b (foldl (poke F) bs (map (\<lambda>w. (unat (fst w), snd w)) ?ws))"
    using stores_frame [OF F b len] by blast
  moreover have "map (\<lambda>w. (unat (fst w), snd w)) ?ws = head_writes F l salt layer stream token h"
    unfolding head_writes_def by (auto simp: idx)
  ultimately have "foldl (\<lambda>al w. store_float F al b (fst w) (snd w)) (write_frame al b bs) ?ws
      = write_frame al b (foldl (poke F) bs (head_writes F l salt layer stream token h))" by (simp only:)
  then show ?thesis by (simp add: fill_head_def o' foldl_map)
qed

lemma head_writes_bound:
  assumes "layout_fits l" and "layer < frame_layers (kvl_shape l)" and "of_nat h < num_kv_heads (kvl_shape l)"
    and "tokens_per_block (kvl_shape l) \<noteq> 0" and "layout_elements l * 4 \<le> n"
  shows "\<forall>w\<in>set (head_writes F l salt layer stream token h). fst w * 4 + 4 \<le> n"
  using element_index_lt [OF assms(1-4), of _ stream token] assms(5) by (fastforce simp: head_writes_def)

lemma fill_heads_eq:
  assumes F: "float_ok F" and fits: "layout_fits l" and layer: "layer < frame_layers (kvl_shape l)"
    and tpb: "tokens_per_block (kvl_shape l) \<noteq> 0"
    and b: "pb_storage b = Some off" and "unat off + length bs \<le> length (pool al)" and "layout_elements l * 4 \<le> length bs"
    and "\<forall>h\<in>set hs. of_nat h < num_kv_heads (kvl_shape l)"
  shows "try_loop (fill_head F (kvl_shape l) l salt layer stream token b) hs (write_frame al b bs)
    = Inr (write_frame al b (foldl (poke F) bs (token_writes F l salt layer stream token hs)))"
  using assms(6-8)
proof (induction hs arbitrary: bs)
  case (Cons h hs)
  let ?bs = "foldl (poke F) bs (head_writes F l salt layer stream token h)"
  have one: "fill_head F (kvl_shape l) l salt layer stream token b (write_frame al b bs) h = Inr (write_frame al b ?bs)"
    using fill_head_eq [OF F fits layer _ tpb b] Cons.prems by simp
  have "length ?bs = length bs"
    using pokes_length [OF F] head_writes_bound [OF fits layer _ tpb] Cons.prems by (metis list.set_intros(1))
  then show ?case using Cons.IH [of ?bs] Cons.prems one by (simp add: token_writes_def)
qed (simp add: token_writes_def)

text \<open>A token is written into the block it belongs to; nothing else changes in any sequence.\<close>

lemma fill_token_step:
  fixes token :: nat and salt :: u32 and stream :: KVStream and layer :: nat
  assumes F: "float_ok F" and inv: "kv_inv kv" and env: "fill_env l kv" and ready: "fill_ready kv sid n"
    and blk: "unat (of_nat token div tokens_per_block (kvl_shape l) :: u32) < n"
    and layer: "(of_nat layer :: u32) < frame_layers (kvl_shape l)"
  defines "j \<equiv> unat (of_nat token div tokens_per_block (kvl_shape l) :: u32)"
    and "ws \<equiv> token_writes F l salt (of_nat layer) stream (of_nat token) [0..<unat (num_kv_heads (kvl_shape l))]"
  obtains kv' old bytes where "fill_token F (kvl_shape l) l sid salt layer stream kv token = Inr kv'"
    and "kv_inv kv'" and "kv_layout kv' = kv_layout kv" and "prefix_view kv' = prefix_view kv" and "fill_ready kv' sid n"
    and "length (first_entries kv' sid) = length (first_entries kv sid)"
    and "shared_entries (allocator kv) (first_entries kv sid) = 0 \<Longrightarrow>
      map physical_id (first_entries kv' sid) = map physical_id (first_entries kv sid)
      \<and> shared_entries (allocator kv') (first_entries kv' sid) = 0"
    and "\<And>other. other \<noteq> sid \<Longrightarrow> sequences kv' other = sequences kv other"
    and "\<And>q. ref_of (allocator kv') q \<le> max 1 (ref_of (allocator kv) q)"
    and "length (free_list (allocator kv)) + shared_entries (allocator kv') (first_entries kv' sid)
      \<le> length (free_list (allocator kv')) + shared_entries (allocator kv) (first_entries kv sid)"
    and "\<And>k. k < length (first_entries kv sid) \<Longrightarrow> ref_of (allocator kv') (physical_id (first_entries kv' sid ! k))
      \<le> (if k = j then 1 else max 1 (ref_of (allocator kv) (physical_id (first_entries kv sid ! k))))"
    and "kv_view kv sid = Some old" and "0 < length old" and "j < length (old ! 0)" and "old ! 0 ! j = Some bytes"
    and "length bytes = unat (block_stride_bytes (allocator kv))"
    and "kv_view kv' = (kv_view kv)(sid \<mapsto> old[0 := (old ! 0)[j := Some (foldl (poke F) bytes ws)]])"
proof -
  note tpb = fill_env_tpb [OF env]
  obtain st where st: "sequences kv sid = Some st" using ready by (auto simp: fill_ready_def)
  have ne: "0 < length (tables st)" using tables_ok_nonempty [OF kv_inv_tables [OF inv st]] by simp
  have es: "first_entries kv sid = entries (tables st ! 0)" by (simp add: first_entries_def st)
  have jlt: "j < length (first_entries kv sid)" using blk ready by (simp add: fill_ready_def j_def)
  let ?e = "first_entries kv sid ! j"
  have target: "write_target kv sid (of_nat token) 0 = Some ?e"
    using st ne jlt tpb by (simp add: write_target_def es j_def)
  have res: "swap_slot ?e = None" using ready jlt by (simp add: fill_ready_def list_all_length)
  have "ref_of (allocator kv) (physical_id ?e) \<le> 1 \<or> free_list (allocator kv) \<noteq> []"
  proof (rule ccontr)
    assume none: "\<not> ?thesis"
    then have "?e \<in> set (filter (\<lambda>e. ref_of (allocator kv) (physical_id e) > 1) (first_entries kv sid))" using jlt by simp
    then show False using none ready length_pos_if_in_set by (fastforce simp: fill_ready_def shared_entries_def)
  qed
  then have can: "can_write kv sid (of_nat token) 0" using target res by (simp add: can_write_def)
  obtain r kv1 where run: "ensure_token_writable kv sid (of_nat token) TextKV 0 = (r, kv1)" by fastforce
  note ens = ensure_token_writable_step [OF inv run]
  obtain p where p: "r = Some p" using ens can by blast
  have inv1: "kv_inv kv1" and same: "kv_same kv kv1" and wr: "write_ready kv1 sid (of_nat token) 0 p" using ens p by blast+
  have layout1: "kv_layout kv1 = kv_layout kv" using kv_layout_ensure [of kv sid "of_nat token" TextKV 0] run by simp
  note ready1 = ensure_fill_ready [OF inv ready run [unfolded p]]
  let ?al = "allocator kv1" and ?s = "unat (block_stride_bytes (allocator kv1))"
  have one: "count (kv_refs kv1) p = 1" using owns_ref_of [OF kv_inv_owns [OF inv1], of p] wr by (simp add: write_ready_def)
  then have "p \<in># kv_refs kv1" by (metis count_greater_zero_iff zero_less_one)
  then have cap: "unat p < capacity ?al" using owns_valid [OF kv_inv_owns [OF inv1]] by simp
  have mem: "memory_inv ?al" "capacity ?al = unat (max_blocks (config ?al))"
    using kv_inv_parts(5) [OF inv1] by (simp_all add: alloc_inv_def capacity_def ids_inv_def)
  obtain b off where b: "al_block ?al p = Some b" "pb_storage b = Some off" "unat off = unat p * ?s" "unat off + ?s \<le> length (pool ?al)"
    using memory_block [OF mem(1)] cap mem(2) by metis
  have stride: "block_stride_bytes ?al = block_stride_bytes (allocator kv)"
    using stride_layout(1) [OF inv inv1 layout1] cap kv_layout_shape(3) [OF layout1] by simp
  let ?bytes = "frame_of ?al p"
  have len: "length ?bytes = ?s" using b(3,4) by (simp add: frame_of_def frame_at_def)
  have self: "write_frame ?al b ?bytes = ?al"
  proof -
    have "overwrite (unat off) (segment (unat off) ?s (pool ?al)) (pool ?al) = pool ?al" using b(4) by (rule overwrite_segment)
    then show ?thesis using b by (simp add: write_frame_def frame_of_def frame_at_def)
  qed
  have big: "layout_elements l * 4 \<le> length ?bytes" and fits: "layout_fits l" using env stride len by (simp_all add: fill_env_def)
  have heads: "\<forall>h\<in>set [0..<unat (num_kv_heads (kvl_shape l))]. (of_nat h :: u32) < num_kv_heads (kvl_shape l)"
    by (auto simp: word_less_nat_alt unat_of_nat intro: le_less_trans [OF mod_less_eq_dividend])
  have loop: "try_loop (fill_head F (kvl_shape l) l salt (of_nat layer) stream (of_nat token) b) [0..<unat (num_kv_heads (kvl_shape l))] ?al
      = Inr (write_frame ?al b (foldl (poke F) ?bytes ws))"
    using fill_heads_eq [OF F fits layer conjunct2 [OF tpb] b(2) _ big heads, of ?al salt stream "of_nat token"] self b(4) len
    by (simp add: ws_def)
  let ?bs = "foldl (poke F) ?bytes ws" and ?kv' = "client_write kv1 p (foldl (poke F) (frame_of (allocator kv1) p) ws)"
  have kv': "?kv' = kv1\<lparr>allocator := write_frame ?al b ?bs\<rparr>" using b(1) by (simp add: client_write_def)
  have fill: "fill_token F (kvl_shape l) l sid salt layer stream kv token = Inr ?kv'"
    using run p b(1) loop kv' by (simp add: fill_token_def)
  have "\<forall>w\<in>set ws. fst w * 4 + 4 \<le> length ?bytes"
    unfolding ws_def token_writes_def using head_writes_bound [OF fits layer _ conjunct2 [OF tpb] big] heads by fastforce
  then have blen: "length ?bs = ?s" using pokes_length [OF F] len by simp
  note wstep = client_write_step [OF inv1 wr, of ?bs]
  have ok: "write_length_ok kv1 ?bs" using blen by (simp add: write_length_ok_def)
  have tpb1: "kv_tokens_per_block kv1 = tokens_per_block (kvl_shape l)" using kv_layout_shape(2) [OF layout1] tpb by simp
  obtain old where old: "kv_view kv1 sid = Some old" "0 < length old" "j < length (old ! 0)"
    "kv_view ?kv' = (kv_view kv1)(sid \<mapsto> old[0 := (old ! 0)[j := Some ?bs]])"
    using wstep(3) [OF ok] tpb1 by (auto simp: j_def)
  have view: "kv_view kv1 = kv_view kv" "prefix_view kv1 = prefix_view kv" using same by (simp_all add: kv_same_def)
  have "old ! 0 ! j = Some ?bytes"
    using write_target_content [of kv1 sid "of_nat token" 0] wr old(1) tpb1 by (auto simp: write_ready_def j_def)
  moreover have "first_entries ?kv' sid = first_entries kv1 sid" "kv_layout ?kv' = kv_layout kv1"
      "sequences ?kv' = sequences kv1" "free_list (allocator ?kv') = free_list ?al"
    unfolding kv' by (simp_all add: first_entries_def kv_layout_def write_frame_def split: option.split)
  moreover have "ref_of (allocator ?kv') = ref_of ?al"
    unfolding kv' by (rule ref_of_cong) (simp add: write_frame_def split: option.split)
  moreover have "ref_of ?al (physical_id (first_entries kv1 sid ! j)) = 1"
    using wr tpb1 by (auto simp: write_ready_def write_target_def first_entries_def j_def split: option.splits if_splits)
  ultimately show thesis
    using that [OF fill wstep(1) [OF ok]] wstep(2) [OF ok] old ready1 view layout1 len stride
    by (simp add: fill_ready_def shared_entries_def)
qed

section \<open>The pattern in the content of a sequence\<close>

type_synonym coord = "u32 \<times> KVStream \<times> u32 \<times> u32 \<times> nat"

definition valid_coord :: "KVBlockLayout \<Rightarrow> coord \<Rightarrow> bool" where
  "valid_coord l = (\<lambda>(layer, stream, token, head, d).
     layer < frame_layers (kvl_shape l) \<and> head < num_kv_heads (kvl_shape l) \<and> d < unat (head_dim (kvl_shape l)))"

definition coord_block :: "KVBlockLayout \<Rightarrow> coord \<Rightarrow> nat" where
  "coord_block l = (\<lambda>(layer, stream, token, head, d). unat (token div tokens_per_block (kvl_shape l)))"

definition coord_index :: "KVBlockLayout \<Rightarrow> coord \<Rightarrow> nat" where
  "coord_index l = (\<lambda>(layer, stream, token, head, d). element_index l layer stream token head d)"

definition coord_value :: "'f floats \<Rightarrow> u32 \<Rightarrow> coord \<Rightarrow> 'f" where
  "coord_value F salt = (\<lambda>(layer, stream, token, head, d). cache_value F salt layer stream token head (of_nat d))"

text \<open>The sequence holds the pattern's value at a coordinate.\<close>

definition pattern_at :: "'f floats \<Rightarrow> KVBlockLayout \<Rightarrow> u32 \<Rightarrow> KVCacheManager \<Rightarrow> SequenceId \<Rightarrow> coord \<Rightarrow> bool" where
  "pattern_at F l salt kv sid c \<longleftrightarrow>
     (\<exists>content bytes. kv_view kv sid = Some content \<and> content ! 0 ! coord_block l c = Some bytes
        \<and> element (coord_index l c) bytes = float_bytes F (coord_value F salt c))"

text \<open>Within one block, the position determines the coordinate.\<close>

lemma coord_index_inj:
  assumes "valid_coord l c" and "valid_coord l c'" and tpb: "tokens_per_block (kvl_shape l) \<noteq> 0"
    and "coord_block l c = coord_block l c'" and "coord_index l c = coord_index l c'"
  shows "c = c'"
proof -
  obtain layer s t h d where c: "c = (layer, s, t, h, d)" by (cases c)
  obtain layer' s' t' h' d' where c': "c' = (layer', s', t', h', d')" by (cases c')
  let ?tpb = "tokens_per_block (kvl_shape l)"
  have mods: "t mod ?tpb < ?tpb" "t' mod ?tpb < ?tpb" using tpb by (simp_all add: word_mod_less_divisor word_gt_0)
  have "vector_row l layer s (t mod ?tpb) h = vector_row l layer' s' (t' mod ?tpb) h'" and d: "d = d'"
    using assms(1,2,5) radix_inj unfolding c c' by (simp_all add: valid_coord_def coord_index_def element_index_def)
  then have same: "layer = layer'" "s = s'" "t mod ?tpb = t' mod ?tpb" "h = h'"
    using vector_row_inj [OF mods(1) _ mods(2)] assms(1,2) unfolding c c' by (auto simp: valid_coord_def)
  have "t div ?tpb = t' div ?tpb" using assms(4) unfolding c c' by (simp add: coord_block_def word_unat_eq_iff)
  then have "t = t'" using same(3) by (metis word_mod_div_equality)
  then show ?thesis using same d unfolding c c' by simp
qed

text \<open>The coordinates one call of the token step writes.\<close>

definition token_coords :: "KVBlockLayout \<Rightarrow> u32 \<Rightarrow> KVStream \<Rightarrow> u32 \<Rightarrow> coord set" where
  "token_coords l layer stream token =
     {(layer, stream, token, head, d) | head d. head < num_kv_heads (kvl_shape l) \<and> d < unat (head_dim (kvl_shape l))}"

lemma set_head_writes:
  "(i, v) \<in> set (head_writes F l salt layer stream token h) \<longleftrightarrow>
   (\<exists>d<unat (head_dim (kvl_shape l)). i = element_index l layer stream token (of_nat h) d
      \<and> v = cache_value F salt layer stream token (of_nat h) (of_nat d))"
  by (auto simp: head_writes_def)

lemma token_writes_coords:
  "(i, v) \<in> set (token_writes F l salt layer stream token [0..<unat (num_kv_heads (kvl_shape l))]) \<longleftrightarrow>
   (\<exists>c\<in>token_coords l layer stream token. i = coord_index l c \<and> v = coord_value F salt c)"
proof -
  have heads: "{h. h < num_kv_heads (kvl_shape l)} = of_nat ` {0..<unat (num_kv_heads (kvl_shape l))}"
  proof (intro equalityI subsetI)
    fix h :: u32
    assume "h \<in> {h. h < num_kv_heads (kvl_shape l)}"
    then have "h = of_nat (unat h)" "unat h \<in> {0..<unat (num_kv_heads (kvl_shape l))}" by (simp_all add: word_less_nat_alt)
    then show "h \<in> of_nat ` {0..<unat (num_kv_heads (kvl_shape l))}" by blast
  next
    fix h :: u32
    assume "h \<in> of_nat ` {0..<unat (num_kv_heads (kvl_shape l))}"
    then obtain k where "h = of_nat k" "k < unat (num_kv_heads (kvl_shape l))" by auto
    then show "h \<in> {h. h < num_kv_heads (kvl_shape l)}"
      by (auto simp: word_less_nat_alt unat_of_nat intro: le_less_trans [OF mod_less_eq_dividend])
  qed
  have "(i, v) \<in> set (token_writes F l salt layer stream token [0..<unat (num_kv_heads (kvl_shape l))]) \<longleftrightarrow>
      (\<exists>h\<in>of_nat ` {0..<unat (num_kv_heads (kvl_shape l))}. \<exists>d<unat (head_dim (kvl_shape l)).
         i = element_index l layer stream token h d \<and> v = cache_value F salt layer stream token h (of_nat d))"
    by (simp add: token_writes_def set_head_writes)
  also have "\<dots> \<longleftrightarrow> (\<exists>c\<in>token_coords l layer stream token. i = coord_index l c \<and> v = coord_value F salt c)"
    unfolding heads [symmetric] by (auto simp: token_coords_def coord_index_def coord_value_def)
  finally show ?thesis .
qed

text \<open>The step on one block: coordinates of the token get their value, the others keep theirs.\<close>

lemma token_block_pattern:
  fixes salt :: u32 and stream :: KVStream
  assumes F: "float_ok F" and fits: "layout_fits l" and tpb: "tokens_per_block (kvl_shape l) \<noteq> 0"
    and layer: "layer < frame_layers (kvl_shape l)" and big: "layout_elements l * 4 \<le> length bytes" and c: "valid_coord l c"
    and blk: "coord_block l c = unat (token div tokens_per_block (kvl_shape l))"
  defines "ws \<equiv> token_writes F l salt layer stream token [0..<unat (num_kv_heads (kvl_shape l))]"
  shows "element (coord_index l c) (foldl (poke F) bytes ws)
    = (if c \<in> token_coords l layer stream token then float_bytes F (coord_value F salt c) else element (coord_index l c) bytes)"
proof -
  have bound: "coord_index l c' * 4 + 4 \<le> length bytes" if "valid_coord l c'" for c'
  proof -
    obtain y s t h d where c': "c' = (y, s, t, h, d)" by (cases c')
    have "coord_index l c' < layout_elements l"
      using element_index_lt [OF fits _ _ tpb, of y h d s t] that unfolding c' by (auto simp: valid_coord_def coord_index_def)
    then show ?thesis using big by linarith
  qed
  have valid: "valid_coord l c' \<and> coord_block l c' = coord_block l c" if "c' \<in> token_coords l layer stream token" for c'
    using that layer blk by (auto simp: token_coords_def valid_coord_def coord_block_def)
  have inj: "c' = c" if "c' \<in> token_coords l layer stream token" "coord_index l c = coord_index l c'" for c'
    using coord_index_inj [OF _ c tpb] valid that by metis
  have "\<forall>w\<in>set ws. fst w * 4 + 4 \<le> length bytes"
  proof
    fix w
    assume "w \<in> set ws"
    then have "(fst w, snd w) \<in> set ws" by simp
    then obtain c' where "c' \<in> token_coords l layer stream token" "fst w = coord_index l c'"
      unfolding ws_def token_writes_coords by blast
    then show "fst w * 4 + 4 \<le> length bytes" using bound valid by metis
  qed
  from element_pokes [OF F this bound [OF c]] show ?thesis
  proof (elim disjE exE conjE)
    assume same: "element (coord_index l c) (foldl (poke F) bytes ws) = element (coord_index l c) bytes"
      and not: "coord_index l c \<notin> fst ` set ws"
    have "c \<notin> token_coords l layer stream token"
    proof
      assume "c \<in> token_coords l layer stream token"
      then have "(coord_index l c, coord_value F salt c) \<in> set ws" unfolding ws_def token_writes_coords by blast
      then show False using not by force
    qed
    then show ?thesis using same by simp
  next
    fix v
    assume v: "(coord_index l c, v) \<in> set ws" and "element (coord_index l c) (foldl (poke F) bytes ws) = float_bytes F v"
    moreover obtain c' where "c' \<in> token_coords l layer stream token" "coord_index l c = coord_index l c'" "v = coord_value F salt c'"
      using v unfolding ws_def token_writes_coords by blast
    ultimately show ?thesis using inj by auto
  qed
qed

section \<open>The whole sequence\<close>

text \<open>What holds while a sequence is being filled, when the coordinates in \<open>S\<close> have been written.\<close>

definition fill_inv ::
    "'f floats \<Rightarrow> KVBlockLayout \<Rightarrow> u32 \<Rightarrow> SequenceId \<Rightarrow> nat \<Rightarrow> KVCacheManager \<Rightarrow> coord set \<Rightarrow> KVCacheManager \<Rightarrow> bool" where
  "fill_inv F l salt sid n kv0 S kv \<longleftrightarrow>
     kv_inv kv \<and> kv_layout kv = kv_layout kv0 \<and> prefix_view kv = prefix_view kv0
     \<and> (\<forall>other. other \<noteq> sid \<longrightarrow> kv_view kv other = kv_view kv0 other) \<and> fill_ready kv sid n
     \<and> length (first_entries kv sid) = length (first_entries kv0 sid)
     \<and> (shared_entries (allocator kv0) (first_entries kv0 sid) = 0 \<longrightarrow>
          map physical_id (first_entries kv sid) = map physical_id (first_entries kv0 sid)
          \<and> shared_entries (allocator kv) (first_entries kv sid) = 0)
     \<and> (\<forall>other. other \<noteq> sid \<longrightarrow> sequences kv other = sequences kv0 other)
     \<and> (\<forall>q. ref_of (allocator kv) q \<le> max 1 (ref_of (allocator kv0) q))
     \<and> length (free_list (allocator kv0)) + shared_entries (allocator kv) (first_entries kv sid)
         \<le> length (free_list (allocator kv)) + shared_entries (allocator kv0) (first_entries kv0 sid)
     \<and> (\<forall>c\<in>S. pattern_at F l salt kv sid c \<and> coord_block l c < length (first_entries kv sid)
          \<and> ref_of (allocator kv) (physical_id (first_entries kv sid ! coord_block l c)) \<le> 1)"

lemma fill_inv_start: "kv_inv kv \<Longrightarrow> fill_ready kv sid n \<Longrightarrow> fill_inv F l salt sid n kv {} kv"
  by (simp add: fill_inv_def)

lemma fill_inv_mono: "fill_inv F l salt sid n kv0 S kv \<Longrightarrow> S' \<subseteq> S \<Longrightarrow> fill_inv F l salt sid n kv0 S' kv"
  unfolding fill_inv_def by blast

lemma fill_env_layout:
  assumes env: "fill_env l kv0" and inv: "kv_inv kv0" "kv_inv kv" and layout: "kv_layout kv = kv_layout kv0"
    and pos: "0 < capacity (allocator kv0)"
  shows "fill_env l kv"
  using env stride_layout [OF inv layout pos] by (auto simp: fill_env_def)

lemma fill_inv_token:
  fixes token layer :: nat
  assumes F: "float_ok F" and env: "fill_env l kv0" and inv0: "kv_inv kv0" and pos: "0 < capacity (allocator kv0)"
    and inv: "fill_inv F l salt sid n kv0 S kv" and S: "\<forall>c\<in>S. valid_coord l c"
    and blk: "unat (of_nat token div tokens_per_block (kvl_shape l) :: u32) < n"
    and layer: "(of_nat layer :: u32) < frame_layers (kvl_shape l)"
  obtains kv' where "fill_token F (kvl_shape l) l sid salt layer stream kv token = Inr kv'"
    and "fill_inv F l salt sid n kv0 (S \<union> token_coords l (of_nat layer) stream (of_nat token)) kv'"
proof -
  have parts: "kv_inv kv" "kv_layout kv = kv_layout kv0" "fill_ready kv sid n" using inv by (simp_all add: fill_inv_def)
  have env': "fill_env l kv" using fill_env_layout [OF env inv0 parts(1,2) pos] .
  note tpb = conjunct2 [OF fill_env_tpb [OF env]]
  have fits: "layout_fits l" "layout_elements l * 4 \<le> unat (block_stride_bytes (allocator kv))"
    using env' by (simp_all add: fill_env_def)
  let ?j = "unat (of_nat token div tokens_per_block (kvl_shape l) :: u32)"
  let ?ws = "token_writes F l salt (of_nat layer) stream (of_nat token) [0..<unat (num_kv_heads (kvl_shape l))]"
  let ?T = "token_coords l (of_nat layer) stream (of_nat token)"
  obtain kv' old bytes where kv': "fill_token F (kvl_shape l) l sid salt layer stream kv token = Inr kv'" "kv_inv kv'"
      "kv_layout kv' = kv_layout kv" "prefix_view kv' = prefix_view kv" "fill_ready kv' sid n"
      "length (first_entries kv' sid) = length (first_entries kv sid)"
      "shared_entries (allocator kv) (first_entries kv sid) = 0 \<Longrightarrow>
        map physical_id (first_entries kv' sid) = map physical_id (first_entries kv sid)
        \<and> shared_entries (allocator kv') (first_entries kv' sid) = 0"
      "\<And>other. other \<noteq> sid \<Longrightarrow> sequences kv' other = sequences kv other"
      "\<And>q. ref_of (allocator kv') q \<le> max 1 (ref_of (allocator kv) q)"
      "length (free_list (allocator kv)) + shared_entries (allocator kv') (first_entries kv' sid)
        \<le> length (free_list (allocator kv')) + shared_entries (allocator kv) (first_entries kv sid)"
    and ref: "\<And>k. k < length (first_entries kv sid) \<Longrightarrow> ref_of (allocator kv') (physical_id (first_entries kv' sid ! k))
      \<le> (if k = ?j then 1 else max 1 (ref_of (allocator kv) (physical_id (first_entries kv sid ! k))))"
    and old: "kv_view kv sid = Some old" "0 < length old" "?j < length (old ! 0)" "old ! 0 ! ?j = Some bytes"
      "length bytes = unat (block_stride_bytes (allocator kv))"
    and view: "kv_view kv' = (kv_view kv)(sid \<mapsto> old[0 := (old ! 0)[?j := Some (foldl (poke F) bytes ?ws)]])"
    using fill_token_step [OF F parts(1) env' parts(3) blk layer, of salt stream thesis] by blast
  have step: "element (coord_index l c) (foldl (poke F) bytes ?ws)
      = (if c \<in> ?T then float_bytes F (coord_value F salt c) else element (coord_index l c) bytes)"
    if "valid_coord l c" "coord_block l c = ?j" for c
    using token_block_pattern [OF F fits(1) tpb layer _ that] fits(2) old(5) by simp
  have "pattern_at F l salt kv' sid c" if "c \<in> S \<union> ?T" for c
  proof -
    have valid: "valid_coord l c" using that S layer by (auto simp: token_coords_def valid_coord_def)
    have new: "kv_view kv' sid = Some (old[0 := (old ! 0)[?j := Some (foldl (poke F) bytes ?ws)]])" using view by simp
    show ?thesis
    proof (cases "c \<in> ?T")
      case True
      then have "coord_block l c = ?j" by (auto simp: token_coords_def coord_block_def)
      then show ?thesis using new old step [OF valid] True unfolding pattern_at_def by auto
    next
      case False
      then have "pattern_at F l salt kv sid c" using that inv by (simp add: fill_inv_def)
      then obtain bs where bs: "old ! 0 ! coord_block l c = Some bs" "element (coord_index l c) bs = float_bytes F (coord_value F salt c)"
        using old(1) by (auto simp: pattern_at_def)
      show ?thesis
      proof (cases "coord_block l c = ?j")
        case True
        then show ?thesis using new old step [OF valid True] False bs unfolding pattern_at_def by auto
      next
        case other: False
        then show ?thesis using new old bs unfolding pattern_at_def by auto
      qed
    qed
  qed
  moreover have "coord_block l c < length (first_entries kv' sid)
      \<and> ref_of (allocator kv') (physical_id (first_entries kv' sid ! coord_block l c)) \<le> 1" if "c \<in> S \<union> ?T" for c
  proof (cases "c \<in> ?T")
    case True
    then have "coord_block l c = ?j" by (auto simp: token_coords_def coord_block_def)
    moreover have "?j < length (first_entries kv sid)" using blk parts(3) by (simp add: fill_ready_def)
    ultimately show ?thesis using ref [of ?j] kv'(6) by simp
  next
    case False
    then show ?thesis using that inv ref [of "coord_block l c"] kv'(6) by (force simp: fill_inv_def split: if_splits)
  qed
  moreover have "ref_of (allocator kv') q \<le> max 1 (ref_of (allocator kv0) q)" for q
  proof -
    have "ref_of (allocator kv) q \<le> max 1 (ref_of (allocator kv0) q)" using inv by (simp add: fill_inv_def)
    then show ?thesis using kv'(9) [of q] by linarith
  qed
  ultimately have "fill_inv F l salt sid n kv0 (S \<union> ?T) kv'"
    using inv kv'(2-8) kv'(10) view by (auto simp: fill_inv_def)
  then show thesis using that kv'(1) by blast
qed

text \<open>The coordinates of a context of \<open>ctx\<close> tokens.\<close>

definition context_coords :: "KVBlockLayout \<Rightarrow> u32 \<Rightarrow> coord set" where
  "context_coords l ctx = {(layer, stream, token, head, d). valid_coord l (layer, stream, token, head, d) \<and> token < ctx}"

lemma word_below_of_nat: "(w :: u32) < m \<Longrightarrow> \<exists>k<unat m. w = of_nat k"
  by (rule exI [of _ "unat w"]) (simp add: word_less_nat_alt)

lemma of_nat_below: "k < unat (m :: u32) \<Longrightarrow> (of_nat k :: u32) < m"
  by (auto simp: word_less_nat_alt unat_of_nat intro: le_less_trans [OF mod_less_eq_dividend])

text \<open>The loop over the tokens, and the one over the streams.\<close>

lemma fill_tokens_step:
  fixes layer :: nat and stream :: KVStream
  assumes F: "float_ok F" and env: "fill_env l kv" and inv: "kv_inv kv" and pos: "0 < capacity (allocator kv)"
    and blocks: "\<And>t. t < ctx \<Longrightarrow> unat (t div tokens_per_block (kvl_shape l)) < n"
    and layer: "(of_nat layer :: u32) < frame_layers (kvl_shape l)"
    and start: "fill_inv F l salt sid n kv S kv1" and S: "\<forall>c\<in>S. valid_coord l c"
  defines "T \<equiv> \<lambda>ts. \<Union>t\<in>set ts. token_coords l (of_nat layer) stream (of_nat t)"
  shows "\<exists>kv'. try_loop (fill_token F (kvl_shape l) l sid salt layer stream) [0..<unat ctx] kv1 = Inr kv'
    \<and> fill_inv F l salt sid n kv (S \<union> T [0..<unat ctx]) kv'"
proof (rule try_loop_inv [where I = "\<lambda>ts. fill_inv F l salt sid n kv (S \<union> T ts)"])
  show "fill_inv F l salt sid n kv (S \<union> T []) kv1" using start by (simp add: T_def)
next
  fix ts t kv2
  assume t: "t \<in> set [0..<unat ctx]" and ts: "fill_inv F l salt sid n kv (S \<union> T ts) kv2"
  have blk: "unat (of_nat t div tokens_per_block (kvl_shape l) :: u32) < n" using blocks of_nat_below t by simp
  have "\<forall>c\<in>S \<union> T ts. valid_coord l c" using S layer by (auto simp: T_def token_coords_def valid_coord_def)
  from fill_inv_token [OF F env inv pos ts this blk layer] obtain kv' where
    kv': "fill_token F (kvl_shape l) l sid salt layer stream kv2 t = Inr kv'"
      "fill_inv F l salt sid n kv ((S \<union> T ts) \<union> token_coords l (of_nat layer) stream (of_nat t)) kv'" by blast
  have "(S \<union> T ts) \<union> token_coords l (of_nat layer) stream (of_nat t) = S \<union> T (ts @ [t])" by (auto simp: T_def)
  then show "\<exists>kv'. fill_token F (kvl_shape l) l sid salt layer stream kv2 t = Inr kv' \<and> fill_inv F l salt sid n kv (S \<union> T (ts @ [t])) kv'"
    using kv' by metis
qed

definition layer_coords :: "KVBlockLayout \<Rightarrow> u32 \<Rightarrow> nat \<Rightarrow> coord set" where
  "layer_coords l ctx layer =
     (\<Union>stream\<in>{Key, Value}. \<Union>t\<in>set [0..<unat ctx]. token_coords l (of_nat layer) stream (of_nat t))"

lemma fill_layer_step:
  fixes layer :: nat
  assumes F: "float_ok F" and env: "fill_env l kv" and inv: "kv_inv kv" and pos: "0 < capacity (allocator kv)"
    and blocks: "\<And>t. t < ctx \<Longrightarrow> unat (t div tokens_per_block (kvl_shape l)) < n"
    and layer: "(of_nat layer :: u32) < frame_layers (kvl_shape l)"
    and start: "fill_inv F l salt sid n kv S kv1" and S: "\<forall>c\<in>S. valid_coord l c"
  shows "\<exists>kv'. try_loop (\<lambda>kv stream. try_loop (fill_token F (kvl_shape l) l sid salt layer stream) [0..<unat ctx] kv) [Key, Value] kv1 = Inr kv'
    \<and> fill_inv F l salt sid n kv (S \<union> layer_coords l ctx layer) kv'"
proof -
  let ?T = "\<lambda>stream. \<Union>t\<in>set [0..<unat ctx]. token_coords l (of_nat layer) stream (of_nat t)"
  note tokens = fill_tokens_step [OF F env inv pos blocks layer]
  obtain kv2 where kv2: "try_loop (fill_token F (kvl_shape l) l sid salt layer Key) [0..<unat ctx] kv1 = Inr kv2"
    "fill_inv F l salt sid n kv (S \<union> ?T Key) kv2" using tokens [OF _ start S] by blast
  have "\<forall>c\<in>S \<union> ?T Key. valid_coord l c" using S layer by (auto simp: token_coords_def valid_coord_def)
  from tokens [OF _ kv2(2) this] obtain kv' where
    kv': "try_loop (fill_token F (kvl_shape l) l sid salt layer Value) [0..<unat ctx] kv2 = Inr kv'"
      "fill_inv F l salt sid n kv ((S \<union> ?T Key) \<union> ?T Value) kv'" by blast
  have "(S \<union> ?T Key) \<union> ?T Value = S \<union> layer_coords l ctx layer" by (simp add: layer_coords_def Un_assoc)
  then have "fill_inv F l salt sid n kv (S \<union> layer_coords l ctx layer) kv'" using kv'(2) by (simp only:)
  then show ?thesis using kv2(1) kv'(1) by simp
qed

lemma context_coords_layers:
  assumes "frame_layers (kvl_shape l) = num_layers (kvl_shape l)"
  shows "context_coords l ctx \<subseteq> (\<Union>layer\<in>set [0..<unat (num_layers (kvl_shape l))]. layer_coords l ctx layer)"
proof
  fix c
  assume "c \<in> context_coords l ctx"
  then obtain layer stream token head d where c: "c = (layer, stream, token, head, d)" "valid_coord l c" "token < ctx"
    by (auto simp: context_coords_def)
  obtain i where i: "i < unat (num_layers (kvl_shape l))" "layer = of_nat i"
    using word_below_of_nat [of layer "num_layers (kvl_shape l)"] c(1,2) assms by (auto simp: valid_coord_def)
  obtain t where t: "t < unat ctx" "token = of_nat t" using word_below_of_nat [OF c(3)] by blast
  have "c \<in> token_coords l (of_nat i) stream (of_nat t)" using c i t by (auto simp: token_coords_def valid_coord_def)
  then have "c \<in> layer_coords l ctx i" using t by (cases stream) (auto simp: layer_coords_def)
  then show "c \<in> (\<Union>layer\<in>set [0..<unat (num_layers (kvl_shape l))]. layer_coords l ctx layer)" using i by auto
qed

text \<open>Filling succeeds when every block of the context is there, resident, and there is a free frame for
  every shared one. Then the sequence holds the pattern at every coordinate of the context.\<close>

lemma fill_sequence_step:
  assumes F: "float_ok F" and env: "fill_env l kv" and inv: "kv_inv kv" and ready: "fill_ready kv sid n"
    and blocks: "\<And>t. t < ctx \<Longrightarrow> unat (t div tokens_per_block (kvl_shape l)) < n" and pos: "0 < capacity (allocator kv)"
    and layers: "frame_layers (kvl_shape l) = num_layers (kvl_shape l)"
  obtains kv' where "fill_sequence F (kvl_shape l) l kv sid salt ctx = Inr kv'"
    and "fill_inv F l salt sid n kv (context_coords l ctx) kv'"
proof -
  let ?I = "\<lambda>lays. fill_inv F l salt sid n kv (\<Union>layer\<in>set lays. layer_coords l ctx layer)"
  let ?L = "[0..<unat (num_layers (kvl_shape l))]"
  have "\<exists>kv'. fill_sequence F (kvl_shape l) l kv sid salt ctx = Inr kv' \<and> ?I ?L kv'"
    unfolding fill_sequence_def
  proof (rule try_loop_inv [where I = ?I])
    show "?I [] kv" using fill_inv_start [OF inv ready] by simp
  next
    fix lays layer kv1
    assume lays: "set lays \<subseteq> set ?L" "layer \<in> set ?L" "?I lays kv1"
    have below: "(of_nat k :: u32) < frame_layers (kvl_shape l)" if "k \<in> set ?L" for k
      using that of_nat_below layers by simp
    then have "\<forall>c\<in>\<Union>layer\<in>set lays. layer_coords l ctx layer. valid_coord l c"
      using lays(1) by (fastforce simp: layer_coords_def token_coords_def valid_coord_def)
    from fill_layer_step [OF F env inv pos blocks below [OF lays(2)] lays(3) this]
    show "\<exists>kv'. try_loop (\<lambda>kv stream. try_loop (fill_token F (kvl_shape l) l sid salt layer stream) [0..<unat ctx] kv) [Key, Value] kv1 = Inr kv'
        \<and> ?I (lays @ [layer]) kv'" by (simp add: Un_commute)
  qed
  then obtain kv' where kv': "fill_sequence F (kvl_shape l) l kv sid salt ctx = Inr kv'" "?I ?L kv'" by blast
  from kv'(2) context_coords_layers [OF layers] have "fill_inv F l salt sid n kv (context_coords l ctx) kv'" by (rule fill_inv_mono)
  with kv'(1) show thesis by (rule that)
qed

end
