(* ===== verification/GoldenCheck.thy ===== *)
theory GoldenCheck
  imports GoldenFill AttentionProps
begin

text \<open>
  The reference kernel on a sequence filled by the exporter: reading through the view gives the pattern back,
  and so the kernel computes what \<^verbatim>\<open>cross_check\<close> recomputes from the pattern, operation by operation. The
  agreement is exact in every arithmetic.
\<close>

section \<open>Reading the pattern\<close>

text \<open>A sequence that holds the pattern over a context of \<open>ctx\<close> tokens, all of it resident.\<close>

definition holds_pattern :: "'f floats \<Rightarrow> KVBlockLayout \<Rightarrow> u32 \<Rightarrow> u32 \<Rightarrow> KVCacheManager \<Rightarrow> SequenceId \<Rightarrow> bool" where
  "holds_pattern F l salt ctx kv sid \<longleftrightarrow>
     (\<forall>c\<in>context_coords l ctx. pattern_at F l salt kv sid c)
     \<and> list_all (\<lambda>e. swap_slot e = None) (first_entries kv sid)
     \<and> (\<forall>t<ctx. unat (t div tokens_per_block (kvl_shape l)) < length (first_entries kv sid))"

lemma fill_view:
  assumes inv: "kv_inv kv" and env: "fill_env l kv" and v: "cache_view kv sid TextKV = Some v"
  shows "view_layout v = l" and "view_valid v" and "view_allocator v = Some (allocator kv)"
    and "the (view_block_table v) = hd (tables (the (sequences kv sid)))" and "entries (the (view_block_table v)) = first_entries kv sid"
    and "table_of_layer v layer = 0" and "offset_layer v layer = layer"
proof -
  obtain st where st: "sequences kv sid = Some st" "view_block_table v = Some (text_table st)"
    "view_allocator v = Some (allocator kv)" "kvl_shape (view_layout v) = pool_shape kv" using cache_view_Some [OF v] by metis
  show layout: "view_layout v = l" using st(4) env by (cases l; cases "view_layout v") (simp add: fill_env_def)
  show "view_valid v" using st layout env by (simp add: view_valid_def fill_env_def)
  show "view_allocator v = Some (allocator kv)" using st by simp
  show "the (view_block_table v) = hd (tables (the (sequences kv sid)))" using st by (simp add: text_table_def)
  have "tables st \<noteq> []" using tables_ok_nonempty [OF kv_inv_tables [OF inv st(1)]] .
  then show "entries (the (view_block_table v)) = first_entries kv sid"
    using st by (simp add: first_entries_def text_table_def hd_conv_nth)
  show "table_of_layer v layer = 0" and "offset_layer v layer = layer"
    using env layout by (auto simp: table_of_layer_def offset_layer_def fill_env_def)
qed

lemma element_segment:
  assumes "segment a (n * 4) mem = segment (i * 4) (n * 4) bytes" and "d < n"
  shows "segment (a + d * 4) 4 mem = element (i + d) bytes"
proof -
  have "d * 4 + 4 \<le> n * 4" using assms(2) by linarith
  from segment_segment [OF this, of a mem] segment_segment [OF this, of "i * 4" bytes] assms(1)
  show ?thesis by (simp add: element_def add_mult_distrib)
qed

text \<open>Every slot of the context is found, and what is loaded through it is the pattern.\<close>

lemma slot_pattern:
  assumes F: "float_ok F" and inv: "kv_inv kv" and env: "fill_env l kv" and bpe: "bytes_per_element (kvl_shape l) = 4"
    and v: "cache_view kv sid TextKV = Some v" and pat: "holds_pattern F l salt ctx kv sid"
    and layer: "layer < frame_layers (kvl_shape l)" and head: "head < num_kv_heads (kvl_shape l)" and token: "token < ctx"
  obtains a where "view_slot v (elem_size (fl_ops F)) stream layer token head = Some a"
    and "\<And>d. d < unat (head_dim (kvl_shape l)) \<Longrightarrow>
      load_as_float (fl_ops F) (pool (allocator kv)) a d = cache_value F salt layer stream token head (of_nat d)"
proof -
  note view = fill_view [OF inv env v]
  note tpb = fill_env_tpb [OF env]
  let ?tpb = "tokens_per_block (kvl_shape l)" and ?n = "unat (head_dim (kvl_shape l))"
  obtain st where st: "sequences kv sid = Some st" using cache_view_Some [OF v] by metis
  have es: "first_entries kv sid = entries (tables st ! 0)" by (simp add: first_entries_def st)
  have ne: "0 < length (tables st)" using tables_ok_nonempty [OF kv_inv_tables [OF inv st]] by simp
  have j: "unat (token div ?tpb) < length (first_entries kv sid)" using pat token by (simp add: holds_pattern_def)
  let ?e = "first_entries kv sid ! unat (token div ?tpb)"
  have e: "write_target kv sid token (table_of_layer v layer) = Some ?e" "swap_slot ?e = None"
    using st ne j tpb pat by (simp_all add: write_target_def es view(6) holds_pattern_def list_all_length)
  obtain off where off: "element_offset l layer stream (token mod ?tpb) head = Some off"
    using element_offset_ex [OF layer head conjunct2 [OF tpb]] by blast
  have E: "elem_size (fl_ops F) = 4" using float_okD(1) [OF F] .
  have shape: "kvl_shape l = pool_shape kv" and fits: "layout_fits l" "layout_elements l * 4 \<le> unat (block_stride_bytes (allocator kv))"
    using env by (simp_all add: fill_env_def)
  have size: "elem_size (fl_ops F) = ucast (bytes_per_element (pool_shape kv))" using E bpe shape by simp
  have off': "element_offset (view_layout v) (offset_layer v layer) stream (token mod kv_tokens_per_block kv) head = Some off"
    using off tpb view by simp
  obtain a where a: "view_slot v (elem_size (fl_ops F)) stream layer token head = Some a"
    using view_slot_eq [OF inv v view(2) size, of stream layer token head] e off' by simp
  have fits': "layout_fits (view_layout v)"
    "layout_elements (view_layout v) * unat (elem_size (fl_ops F)) \<le> unat (block_stride_bytes (allocator kv))"
    using fits E view(1) by simp_all
  note content = view_slot_content [OF inv v view(2) size fits' e off' a]
  have seg: "segment (unat a) (?n * 4) (pool (allocator kv)) = segment (unat off * 4) (?n * 4) (frame_of (allocator kv) (physical_id ?e))"
    using content(2) E shape by simp
  have "load_as_float (fl_ops F) (pool (allocator kv)) a d = cache_value F salt layer stream token head (of_nat d)" if d: "d < ?n" for d
  proof -
    let ?c = "(layer, stream, token, head, d)"
    have "pattern_at F l salt kv sid ?c"
      using pat layer head token d by (simp add: holds_pattern_def context_coords_def valid_coord_def)
    then obtain content bytes where pc: "kv_view kv sid = Some content" "content ! 0 ! unat (token div ?tpb) = Some bytes"
      "element (coord_index l ?c) bytes = float_bytes F (cache_value F salt layer stream token head (of_nat d))"
      by (auto simp: pattern_at_def coord_block_def coord_value_def)
    have "bytes = frame_of (allocator kv) (physical_id ?e)"
      using write_target_content [OF e] pc(1,2) tpb view(6) by auto
    moreover have "coord_index l ?c = unat off + d"
      using element_offset_row(1) [OF fits(1) off] by (simp add: coord_index_def element_index_def)
    ultimately have "segment (unat a + d * 4) 4 (pool (allocator kv)) = float_bytes F (cache_value F salt layer stream token head (of_nat d))"
      using element_segment [OF seg d] pc(3) by simp
    then show ?thesis using float_okD [OF F] E by (simp add: load_as_float_def elem_at_def)
  qed
  then show thesis using that a by blast
qed

section \<open>The kernel computes the textbook formula\<close>

lemma foldl_cong_mem: "(\<And>s x. x \<in> set xs \<Longrightarrow> f s x = g s x) \<Longrightarrow> foldl f s xs = foldl g s xs"
  by (induction xs arbitrary: s) simp_all

text \<open>One query head, when the resolved addresses hold the pattern.\<close>

lemma decode_head_expected:
  fixes F :: "'f floats" and sc :: "'f Scenario" and i :: nat and shape :: BlockShape
  assumes F: "float_ok F" and i: "i < length (sc_context_lens sc)" "i < 4294967296"
  defines "params \<equiv> scenario_params sc i" and "ctx \<equiv> unat (sc_context_lens sc ! i)" and "n \<equiv> unat (head_dim shape)"
    and "gs \<equiv> unat (sc_num_query_heads sc div num_kv_heads shape)"
  assumes keys: "\<And>t d. t < ctx \<Longrightarrow> d < n \<Longrightarrow> load_as_float (fl_ops F) mem (keys ! (q_head div gs * ctx + t)) d
      = cache_value F (of_nat i) (sc_layer sc) Key (of_nat t) (of_nat (q_head div gs)) (of_nat d)"
    and vals: "\<And>t d. t < ctx \<Longrightarrow> d < n \<Longrightarrow> load_as_float (fl_ops F) mem (vals ! (q_head div gs * ctx + t)) d
      = cache_value F (of_nat i) (sc_layer sc) Value (of_nat t) (of_nat (q_head div gs)) (of_nat d)"
  shows "decode_head (fl_ops F) mem query params n gs keys vals out q_head =
    (case expected_head F sc shape (of_nat i) query q_head of (acc, denominator) \<Rightarrow>
       write_head (fl_ops F) out (q_head * n) acc denominator n)"
proof -
  let ?A = "fl_ops F" and ?base = "q_head div gs * ctx"
  have ctx: "unat (pa_context_len params) = ctx" "pa_scale params = sc_scale sc"
    by (simp_all add: params_def scenario_params_def ctx_def)
  have salt: "unat (of_nat i :: u32) = i" using i(2) by (simp add: unat_of_nat)
  let ?stored = "\<lambda>stream t d. cache_value F (of_nat i) (sc_layer sc) stream (of_nat t) (of_nat (q_head div gs)) (of_nat d)"
  have dot: "dot_head ?A mem query (q_head * n) (keys ! (?base + t)) n
      = foldl (\<lambda>dot d. fl_add ?A dot (fl_mul ?A (query ! (q_head * n + d)) (?stored Key t d))) (fl_zero ?A) [0..<n]"
    if "t < ctx" for t
    unfolding dot_head_def using keys that float_okD(2) [OF F] by (intro foldl_cong_mem) simp
  have axpy: "axpy_head ?A mem acc (vals ! (?base + t)) weight n
      = foldl (\<lambda>acc d. acc[d := fl_add ?A (acc ! d) (fl_mul ?A weight (?stored Value t d))]) acc [0..<n]"
    if "t < ctx" for acc weight t
    unfolding axpy_head_def using vals that by (intro foldl_cong_mem) simp
  have scores: "foldl (\<lambda>st t. score_step ?A mem query (q_head * n) (sc_scale sc) n st t (keys ! (?base + t))) s0 [0..<ctx]
      = foldl (\<lambda>(scores, max_score) t.
          let dot = foldl (\<lambda>dot d. fl_add ?A dot (fl_mul ?A (query ! (q_head * n + d)) (?stored Key t d))) (fl_zero ?A) [0..<n];
              s = fl_mul ?A dot (sc_scale sc)
          in (scores[t := s], fl_max ?A max_score s)) s0 [0..<ctx]" for s0
    using dot by (intro foldl_cong_mem) (auto simp: score_step_def Let_def split: prod.split)
  have sums: "foldl (\<lambda>st t. value_step ?A mem n scores max_score st t (vals ! (?base + t))) s0 [0..<ctx]
      = foldl (\<lambda>(denominator, acc) t.
          let weight = fl_exp ?A (fl_sub ?A (scores ! t) max_score)
          in (fl_add ?A denominator weight,
              foldl (\<lambda>acc d. acc[d := fl_add ?A (acc ! d) (fl_mul ?A weight (?stored Value t d))]) acc [0..<n])) s0 [0..<ctx]"
    for scores max_score s0
    using axpy by (intro foldl_cong_mem) (auto simp: value_step_def Let_def split: prod.split)
  show ?thesis
    unfolding decode_head_def expected_head_def Let_def ctx scores sums salt
    unfolding n_def [symmetric] gs_def [symmetric] ctx_def [symmetric]
    by (simp split: prod.split)
qed

section \<open>Rows of an array\<close>

lemma concat_rows_length:
  assumes "\<And>q. q < k \<Longrightarrow> length (row q) = n"
  shows "length (concat (map row [0..<k])) = k * n"
  using assms by (induction k) simp_all

lemma foldl_overwrite_rows:
  assumes rows: "\<And>q. q < k \<Longrightarrow> length (row q) = n" and len: "k * n \<le> length out"
  shows "foldl (\<lambda>out q. overwrite (q * n) (row q) out) out [0..<k] = concat (map row [0..<k]) @ drop (k * n) out"
  using assms
proof (induction k)
  case (Suc k)
  let ?done = "concat (map row [0..<k])"
  have len_done: "length ?done = k * n" by (rule concat_rows_length) (simp add: Suc.prems(1))
  have "foldl (\<lambda>out q. overwrite (q * n) (row q) out) out [0..<k] = ?done @ drop (k * n) out" using Suc by simp
  moreover have "overwrite (k * n) (row k) (?done @ drop (k * n) out) = ?done @ row k @ drop (n + k * n) out"
    using Suc.prems len_done by (simp add: overwrite_def)
  ultimately show ?case by (simp add: add.commute)
qed simp

lemma concat_rows_nth:
  assumes "\<And>q. q < k \<Longrightarrow> length (row q) = n" and "q < k" and "d < n"
  shows "concat (map row [0..<k]) ! (q * n + d) = row q ! d"
  using assms(1,2)
proof (induction k)
  case (Suc k)
  have len: "length (concat (map row [0..<k])) = k * n" by (rule concat_rows_length) (simp add: Suc.prems(1))
  show ?case
  proof (cases "q < k")
    case True
    have "q * n + d < k * n" using True assms(3) radix_step by metis
    then show ?thesis using Suc True len by (simp add: nth_append)
  next
    case False
    then have "q = k" using Suc.prems(2) by simp
    then show ?thesis using Suc.prems(1) len assms(3) by (simp add: nth_append)
  qed
qed simp

section \<open>A row of the fixture\<close>

definition expected_row :: "'f floats \<Rightarrow> 'f Scenario \<Rightarrow> BlockShape \<Rightarrow> nat \<Rightarrow> nat \<Rightarrow> 'f list" where
  "expected_row F sc shape i q_head =
     (case expected_head F sc shape (of_nat i) (query_row F sc shape i) q_head of (acc, denominator) \<Rightarrow>
        map (\<lambda>d. fl_div (fl_ops F) (acc ! d) denominator) [0..<unat (head_dim shape)])"

text \<open>The attention output of sequence \<open>i\<close> of a scenario, computed from the pattern alone.\<close>

definition textbook_output :: "'f floats \<Rightarrow> 'f Scenario \<Rightarrow> BlockShape \<Rightarrow> nat \<Rightarrow> 'f list" where
  "textbook_output F sc shape i = concat (map (expected_row F sc shape i) [0..<unat (sc_num_query_heads sc)])"

lemma length_expected_row [simp]: "length (expected_row F sc shape i q) = unat (head_dim shape)"
  by (simp add: expected_row_def split: prod.split)

lemma length_textbook_output [simp]:
  "length (textbook_output F sc shape i) = unat (sc_num_query_heads sc) * unat (head_dim shape)"
  unfolding textbook_output_def by (rule concat_rows_length) simp

lemma write_head_overwrite:
  assumes "base + n \<le> length out"
  shows "write_head A out base acc denominator n = overwrite base (map (\<lambda>d. from_float A (fl_div A (acc ! d) denominator)) [0..<n]) out"
proof -
  have "foldl (\<lambda>out d. out[base + d := f d]) out [0..<k] = overwrite base (map f [0..<k]) out" if "base + k \<le> length out" for f k
    using that
  proof (induction k)
    case 0
    show ?case by (simp add: overwrite_def)
  next
    case (Suc k)
    then have eq: "drop (base + k) out = out ! (base + k) # drop (Suc (base + k)) out" by (simp add: Cons_nth_drop_Suc)
    show ?case using Suc by (simp add: overwrite_def list_update_append eq)
  qed
  then show ?thesis using assms by (simp add: write_head_def)
qed

text \<open>A tolerance test that accepts the expected values against themselves, as it does for every value that is
  a number.\<close>

definition self_checks :: "'f floats \<Rightarrow> 'f Scenario \<Rightarrow> BlockShape \<Rightarrow> nat \<Rightarrow> bool" where
  "self_checks F sc shape i \<longleftrightarrow>
     list_all (\<lambda>x. fl_le F (fl_abs F (fl_sub (fl_ops F) x x)) (kCrossCheckTolerance F)) (textbook_output F sc shape i)"

lemma try_loop_unit: "(\<And>x. x \<in> set xs \<Longrightarrow> body () x = Inr ()) \<Longrightarrow> try_loop body xs () = Inr ()"
  by (induction xs) simp_all

lemma cross_check_textbook:
  assumes "self_checks F sc shape i"
  shows "cross_check F sc shape (of_nat i) (query_row F sc shape i) (textbook_output F sc shape i) = Inr ()"
proof -
  let ?n = "unat (head_dim shape)" and ?out = "textbook_output F sc shape i"
  have val: "?out ! (q * ?n + d) = fl_div (fl_ops F) (acc ! d) denominator"
    if "q < unat (sc_num_query_heads sc)" "d < ?n"
      "expected_head F sc shape (of_nat i) (query_row F sc shape i) q = (acc, denominator)" for q d acc denominator
  proof -
    have "?out ! (q * ?n + d) = expected_row F sc shape i q ! d"
      unfolding textbook_output_def using that by (intro concat_rows_nth) simp_all
    then show ?thesis using that by (simp add: expected_row_def)
  qed
  have ok: "fl_le F (fl_abs F (fl_sub (fl_ops F) (?out ! (q * ?n + d)) (?out ! (q * ?n + d)))) (kCrossCheckTolerance F)"
    if "q < unat (sc_num_query_heads sc)" "d < ?n" for q d
  proof -
    have "q * ?n + d < length ?out" using radix_step [OF that] by simp
    then show ?thesis using assms by (simp add: self_checks_def list_all_length)
  qed
  show ?thesis
    unfolding cross_check_def
  proof (rule try_loop_unit)
    fix q
    assume q: "q \<in> set [0..<unat (sc_num_query_heads sc)]"
    obtain acc denominator where e: "expected_head F sc shape (of_nat i) (query_row F sc shape i) q = (acc, denominator)" by fastforce
    show "(let (acc, denominator) = expected_head F sc shape (of_nat i) (query_row F sc shape i) q; n = ?n in
        try_loop (\<lambda>_ d. require (fl_le F (fl_abs F (fl_sub (fl_ops F) (fl_div (fl_ops F) (acc ! d) denominator) (?out ! (q * n + d))))
            (kCrossCheckTolerance F)) (sc_name sc @ '': sequence '' @ to_string (unat (of_nat i :: u32)) @ '' query head '' @ to_string q
              @ '' dim '' @ to_string d @ '' disagrees with the contiguous reference'')) [0..<n] ()) = Inr ()"
      unfolding e Let_def prod.case
    proof (rule try_loop_unit)
      fix d
      assume d: "d \<in> set [0..<?n]"
      have "fl_le F (fl_abs F (fl_sub (fl_ops F) (fl_div (fl_ops F) (acc ! d) denominator) (?out ! (q * ?n + d)))) (kCrossCheckTolerance F)"
        using ok [of q d] val [OF _ _ e, of d] q d by simp
      then show "require (fl_le F (fl_abs F (fl_sub (fl_ops F) (fl_div (fl_ops F) (acc ! d) denominator) (?out ! (q * ?n + d))))
          (kCrossCheckTolerance F)) (sc_name sc @ '': sequence '' @ to_string (unat (of_nat i :: u32)) @ '' query head '' @ to_string q
            @ '' dim '' @ to_string d @ '' disagrees with the contiguous reference'') = Inr ()" by (simp add: require_def)
    qed
  qed
qed

text \<open>What a scenario has to be for the kernel to accept it.\<close>

definition heads_ok :: "'f Scenario \<Rightarrow> BlockShape \<Rightarrow> bool" where
  "heads_ok sc shape \<longleftrightarrow>
     sc_layer sc < num_layers shape \<and> num_kv_heads shape \<noteq> 0 \<and> sc_num_query_heads sc \<noteq> 0
     \<and> sc_num_query_heads sc mod num_kv_heads shape = 0 \<and> bytes_per_element shape = 4
     \<and> frame_layers shape = num_layers shape"

lemma attention_textbook:
  fixes i :: nat
  assumes F: "float_ok F" and inv: "kv_inv kv" and env: "fill_env l kv" and heads: "heads_ok sc (kvl_shape l)"
    and v: "cache_view kv sid TextKV = Some v" and pat: "holds_pattern F l (of_nat i) (sc_context_lens sc ! i) kv sid"
    and i: "i < length (sc_context_lens sc)" "i < 4294967296" and pos: "sc_context_lens sc ! i \<noteq> 0"
    and out: "length out = unat (sc_num_query_heads sc) * unat (head_dim (kvl_shape l))"
  shows "paged_attention_decode (fl_ops F) v (Some (query_row F sc (kvl_shape l) i)) (scenario_params sc i) (Some out)
    = (True, Some (textbook_output F sc (kvl_shape l) i))"
proof -
  let ?A = "fl_ops F" and ?shape = "kvl_shape l" and ?params = "scenario_params sc i" and ?query = "query_row F sc (kvl_shape l) i"
  let ?n = "unat (head_dim (kvl_shape l))" and ?ctx = "unat (sc_context_lens sc ! i)" and ?H = "unat (num_kv_heads (kvl_shape l))"
  let ?gs = "unat (sc_num_query_heads sc div num_kv_heads (kvl_shape l))" and ?mem = "pool (allocator kv)"
  note view = fill_view [OF inv env v]
  have args: "args_ok ?A v (Some ?query) ?params (Some out)"
    using view heads pos float_okD(1) [OF F]
    by (simp add: args_ok_def heads_ok_def scenario_params_def Let_def not_le)
  have layer: "sc_layer sc < frame_layers ?shape" using heads by (simp add: heads_ok_def)
  have slots: "\<exists>a. view_slot v (elem_size ?A) stream (sc_layer sc) (of_nat t) (of_nat h) = Some a
      \<and> (\<forall>d<?n. load_as_float ?A ?mem a d = cache_value F (of_nat i) (sc_layer sc) stream (of_nat t) (of_nat h) (of_nat d))"
    if "t < ?ctx" "h < ?H" for stream t h
    using slot_pattern [OF F inv env _ v pat layer of_nat_below [OF that(2)] of_nat_below [OF that(1)], of stream] heads
    by (metis heads_ok_def)
  define p where "p stream h t = the (view_slot v (elem_size ?A) stream (sc_layer sc) (of_nat t) (of_nat h))" for stream and h t :: nat
  have p: "view_slot v (elem_size ?A) stream (sc_layer sc) (of_nat t) (of_nat h) = Some (p stream h t)
      \<and> (\<forall>d<?n. load_as_float ?A ?mem (p stream h t) d = cache_value F (of_nat i) (sc_layer sc) stream (of_nat t) (of_nat h) (of_nat d))"
    if "t < ?ctx" "h < ?H" for stream t h
    using slots [OF that, of stream] by (auto simp: p_def)
  have ctx: "unat (pa_context_len ?params) = ?ctx" "pa_layer ?params = sc_layer sc" "pa_num_query_heads ?params = sc_num_query_heads sc"
    by (simp_all add: scenario_params_def)
  have res: "\<exists>ptrs. resolve_stream ?A v ?params stream = Some ptrs \<and> (\<forall>t h. t < ?ctx \<longrightarrow> h < ?H \<longrightarrow> ptrs ! (h * ?ctx + t) = p stream h t)" for stream
    using resolve_stream_eq(1) [of ?params v ?A stream "p stream"] p ctx view(1) by simp
  obtain keys vals where keys: "resolve_stream ?A v ?params Key = Some keys" "\<And>t h. t < ?ctx \<Longrightarrow> h < ?H \<Longrightarrow> keys ! (h * ?ctx + t) = p Key h t"
    and vals: "resolve_stream ?A v ?params Value = Some vals" "\<And>t h. t < ?ctx \<Longrightarrow> h < ?H \<Longrightarrow> vals ! (h * ?ctx + t) = p Value h t"
    using res [of Key] res [of Value] by blast
  note group = group_heads [OF args, unfolded ctx view(1)]
  have kv_head: "q div ?gs < ?H" if "q < unat (sc_num_query_heads sc)" for q
    using that group by (simp add: div_less_iff_less_mult)
  have head: "decode_head ?A ?mem ?query ?params ?n ?gs keys vals o' q = overwrite (q * ?n) (expected_row F sc ?shape i q) o'"
    if q: "q < unat (sc_num_query_heads sc)" and len: "length o' = unat (sc_num_query_heads sc) * ?n" for q o'
  proof -
    have "decode_head ?A ?mem ?query ?params ?n ?gs keys vals o' q =
        (case expected_head F sc ?shape (of_nat i) ?query q of (acc, denominator) \<Rightarrow> write_head ?A o' (q * ?n) acc denominator ?n)"
      by (rule decode_head_expected [OF F i]) (use keys(2) vals(2) p kv_head [OF q] in auto)
    moreover have "q * ?n + ?n \<le> length o'" using frame_fits [OF q] len by simp
    ultimately show ?thesis
      using float_okD(3) [OF F] by (simp add: expected_row_def write_head_overwrite split: prod.split)
  qed
  have "foldl (decode_head ?A ?mem ?query ?params ?n ?gs keys vals) out [0..<k]
      = foldl (\<lambda>o' q. overwrite (q * ?n) (expected_row F sc ?shape i q) o') out [0..<k]
      \<and> length (foldl (decode_head ?A ?mem ?query ?params ?n ?gs keys vals) out [0..<k]) = length out"
    if "k \<le> unat (sc_num_query_heads sc)" for k
    using that
  proof (induction k)
    case (Suc k)
    from Suc.IH [OF Suc_leD [OF Suc.prems]] have IH: "length (foldl (decode_head ?A ?mem ?query ?params ?n ?gs keys vals) out [0..<k]) = length out"
      "foldl (decode_head ?A ?mem ?query ?params ?n ?gs keys vals) out [0..<k]
        = foldl (\<lambda>o' q. overwrite (q * ?n) (expected_row F sc ?shape i q) o') out [0..<k]" by blast+
    have "k * ?n + ?n \<le> length out" using frame_fits [of k "unat (sc_num_query_heads sc)"] Suc.prems out by simp
    then show ?case using head [of k] Suc.prems IH out by simp
  qed simp
  then have "foldl (decode_head ?A ?mem ?query ?params ?n ?gs keys vals) out [0..<unat (sc_num_query_heads sc)]
      = textbook_output F sc ?shape i"
    using foldl_overwrite_rows [of "unat (sc_num_query_heads sc)" "expected_row F sc ?shape i" ?n out] out
    by (simp add: textbook_output_def)
  then show ?thesis
    unfolding paged_attention_decode_def using args keys(1) vals(1) view ctx by simp
qed

end
