(* ===== verification/GoldenSetup.thy ===== *)
theory GoldenSetup
  imports GoldenCheck KVPrefix
begin

text \<open>
  The operations of the manager as the exporters use them, with the frames they take and give back: the
  exporters check where frames land (\<^verbatim>\<open>is_scattered\<close>, the premises of the churn scenario), so the order of the
  free list matters here.
\<close>

section \<open>The frames of a sequence\<close>

text \<open>A known sequence whose blocks are all resident, in the frames \<open>ps\<close>.\<close>

definition seq_frames :: "KVCacheManager \<Rightarrow> SequenceId \<Rightarrow> PhysicalBlockId list \<Rightarrow> bool" where
  "seq_frames kv sid ps \<longleftrightarrow>
     sequences kv sid \<noteq> None \<and> map physical_id (first_entries kv sid) = ps
     \<and> list_all (\<lambda>e. swap_slot e = None) (first_entries kv sid)"

lemma seq_frames_cong: "sequences kv' sid = sequences kv sid \<Longrightarrow> seq_frames kv' sid = seq_frames kv sid"
  by (simp add: seq_frames_def first_entries_def fun_eq_iff)

lemma seq_frames_length: "seq_frames kv sid ps \<Longrightarrow> length (first_entries kv sid) = length ps"
  by (auto simp: seq_frames_def)

text \<open>A pool in which no frame is shared.\<close>

definition unshared :: "KVCacheManager \<Rightarrow> bool" where
  "unshared kv \<longleftrightarrow> (\<forall>q. ref_of (allocator kv) q \<le> 1)"

lemma unshared_entries: "unshared kv \<Longrightarrow> shared_entries (allocator kv) es = 0"
  by (simp add: unshared_def shared_entries_def not_less)

lemma unshared_mono: "unshared kv \<Longrightarrow> (\<And>q. ref_of (allocator kv') q \<le> max 1 (ref_of (allocator kv) q)) \<Longrightarrow> unshared kv'"
  unfolding unshared_def by (metis max.absorb1)

section \<open>Creating\<close>

lemma create_plain:
  assumes inv: "kv_inv kv" and new: "sequences kv sid = None"
  obtains kv' where "create_sequence kv (plain_metadata sid) = (True, kv')" and "kv_inv kv'" and "kv_layout kv' = kv_layout kv"
    and "allocator kv' = allocator kv" and "seq_frames kv' sid []" and "\<And>other. other \<noteq> sid \<Longrightarrow> sequences kv' other = sequences kv other"
    and "prefix_index kv' = prefix_index kv"
proof -
  obtain ok kv' where run: "create_sequence kv (plain_metadata sid) = (ok, kv')" by fastforce
  note step = create_sequence_step [OF inv run]
  have ok: ok using step(2) new by (simp add: plain_metadata_def)
  have tabs: "0 < unat (table_count kv)" using table_count_pos [of kv] by simp
  have "sequences kv' other = sequences kv other" if "other \<noteq> sid" for other
    using run new that by (auto simp: create_sequence_def plain_metadata_def index_sequence_def Let_def)
  moreover have "seq_frames kv' sid []"
    using run new tabs
    by (auto simp: create_sequence_def plain_metadata_def index_sequence_def seq_frames_def first_entries_def Let_def
        BlockTable_new_def)
  moreover have "kv_layout kv' = kv_layout kv" using kv_layout_create [of kv "plain_metadata sid"] run by simp
  moreover have "prefix_index kv' = prefix_index kv"
    using run new by (auto simp: create_sequence_def plain_metadata_def index_sequence_def Let_def)
  ultimately show thesis using that [of kv'] run step(1,6) ok by simp
qed

section \<open>Reserving\<close>

lemma allocate_effect:
  assumes "free_list al \<noteq> []"
  obtains al' where "allocate al = (Some (last (free_list al)), al')" and "free_list al' = butlast (free_list al)"
    and "\<And>q. ref_of al' q \<le> max 1 (ref_of al q)"
proof -
  let ?p = "last (free_list al)"
  let ?al' = "update_info (al\<lparr>free_list := butlast (free_list al)\<rparr>) ?p (\<lambda>i. i\<lparr>pbi_state := Active, ref_count := 1\<rparr>)"
  have "allocate al = (Some ?p, ?al')" using assms by (simp add: allocate_def Let_def)
  moreover have "free_list ?al' = butlast (free_list al)" by (simp add: update_info_def)
  moreover have "ref_of ?al' q \<le> max 1 (ref_of al q)" for q
    by (cases "unat ?p < length (infos al)") (auto simp: ref_of_def update_info_def nth_list_update list_update_beyond)
  ultimately show thesis by (rule that)
qed

text \<open>Blocks are appended in the order in which frames come off the end of the free list.\<close>

lemma reserve_blocks_frames:
  assumes "bt_contiguous t" and "length (entries t) = b + k" and "b + (k + d) < 4294967296" and "d \<le> length (free_list al)"
  shows "\<exists>al' t' new. reserve_blocks sid tpb (of_nat b) [k..<k + d] al t = (True, al', t')
    \<and> entries t' = entries t @ new \<and> map physical_id new = take d (rev (free_list al))
    \<and> list_all (\<lambda>e. swap_slot e = None) new
    \<and> free_list al' = take (length (free_list al) - d) (free_list al) \<and> (\<forall>q. ref_of al' q \<le> max 1 (ref_of al q))"
  using assms
proof (induction d arbitrary: k al t)
  case (Suc d)
  have ne: "free_list al \<noteq> []" using Suc.prems(4) by auto
  then obtain al1 where al1: "allocate al = (Some (last (free_list al)), al1)" "free_list al1 = butlast (free_list al)"
    "\<And>q. ref_of al1 q \<le> max 1 (ref_of al q)" using allocate_effect by metis
  let ?p = "last (free_list al)" and ?l = "block_descriptor sid (bt_cache_kind t) tpb (of_nat b + of_nat k)"
  let ?e = "\<lparr>logical = ?l, physical_id = ?p, writable = True, swap_slot = None\<rparr>"
  have idx: "lb_index ?l = of_nat (length (entries t))" using Suc.prems(2) by (simp add: block_descriptor_def)
  have map: "bt_map t ?l ?p True = t\<lparr>entries := entries t @ [?e]\<rparr>" "bt_contiguous (bt_map t ?l ?p True)"
    using bt_map_append [OF Suc.prems(1) _ idx] Suc.prems(2,3) by simp_all
  have "length (entries (bt_map t ?l ?p True)) = b + Suc k" "b + (Suc k + d) < 4294967296" "d \<le> length (free_list al1)"
    using map(1) Suc.prems al1(2) by simp_all
  from Suc.IH [OF map(2) this] obtain al' t' new where IH:
    "reserve_blocks sid tpb (of_nat b) [Suc k..<Suc k + d] al1 (bt_map t ?l ?p True) = (True, al', t')"
    "entries t' = entries (bt_map t ?l ?p True) @ new" "map physical_id new = take d (rev (free_list al1))"
    "list_all (\<lambda>e. swap_slot e = None) new" "free_list al' = take (length (free_list al1) - d) (free_list al1)"
    "\<And>q. ref_of al' q \<le> max 1 (ref_of al1 q)" by blast
  have upt: "[k..<k + Suc d] = k # [Suc k..<Suc k + d]" by (simp add: upt_conv_Cons)
  have "reserve_blocks sid tpb (of_nat b) [k..<k + Suc d] al t = (True, al', t')"
    unfolding upt using al1(1) IH(1) by (simp add: Let_def)
  moreover have "entries t' = entries t @ (?e # new)" using IH(2) map(1) by simp
  moreover have "map physical_id (?e # new) = take (Suc d) (rev (free_list al))"
  proof -
    have "rev (free_list al) = ?p # rev (butlast (free_list al))" using ne by (cases "free_list al" rule: rev_cases) simp_all
    then have "take (Suc d) (rev (free_list al)) = ?p # take d (rev (free_list al1))" unfolding al1(2) by (simp only: take_Suc_Cons)
    then show ?thesis using IH(3) by simp
  qed
  moreover have "free_list al' = take (length (free_list al) - Suc d) (free_list al)"
    using IH(5) al1(2) by (simp add: butlast_conv_take)
  moreover have "ref_of al' q \<le> max 1 (ref_of al q)" for q using IH(6) [of q] al1(3) [of q] by linarith
  moreover have "list_all (\<lambda>e. swap_slot e = None) (?e # new)" using IH(4) by simp
  ultimately show ?case by blast
qed simp

lemma reserve_frames:
  assumes inv: "kv_inv kv" and one: "table_count kv = 1" and ps: "seq_frames kv sid ps" and tpb: "kv_tokens_per_block kv \<noteq> 0"
    and nowrap: "unat n + unat (kv_tokens_per_block kv) \<le> 4294967296"
    and small: "length ps + blocks_for (kv_tokens_per_block kv) n < 4294967296"
    and free: "blocks_for (kv_tokens_per_block kv) n \<le> length (free_list (allocator kv))"
  defines "d \<equiv> blocks_for (kv_tokens_per_block kv) n"
  obtains kv' where "reserve_tokens kv sid n = (True, kv')" and "kv_inv kv'" and "kv_layout kv' = kv_layout kv"
    and "seq_frames kv' sid (ps @ take d (rev (free_list (allocator kv))))"
    and "free_list (allocator kv') = take (length (free_list (allocator kv)) - d) (free_list (allocator kv))"
    and "\<And>q. ref_of (allocator kv') q \<le> max 1 (ref_of (allocator kv) q)"
    and "\<And>other. other \<noteq> sid \<Longrightarrow> sequences kv' other = sequences kv other"
    and "\<And>other. other \<noteq> sid \<Longrightarrow> kv_view kv' other = kv_view kv other" and "prefix_index kv' = prefix_index kv"
proof -
  obtain st where st: "sequences kv sid = Some st" using ps by (auto simp: seq_frames_def)
  have len: "length (tables st) = 1" using kv_inv_tables [OF inv st] one by (simp add: tables_ok_def)
  then obtain t where t: "tables st = [t]" by (auto simp: length_Suc_conv)
  have es: "first_entries kv sid = entries t" by (simp add: first_entries_def st t)
  have cont: "bt_contiguous t" using tables_ok_contiguous [OF kv_inv_tables [OF inv st]] t by simp
  have lt: "length (entries t) = length ps" using seq_frames_length [OF ps] es by simp
  have need: "unat ((n + kv_tokens_per_block kv - 1) div kv_tokens_per_block kv) = d"
    using blocks_for_word [OF tpb nowrap] by (simp add: d_def)
  have "length (entries t) + d < 4294967296" using small lt by (simp add: d_def)
  then obtain al' t' new where res:
    "reserve_blocks sid (kv_tokens_per_block kv) (of_nat (length (entries t))) [0..<0 + d] (allocator kv) t = (True, al', t')"
    "entries t' = entries t @ new" "map physical_id new = take d (rev (free_list (allocator kv)))"
    "list_all (\<lambda>e. swap_slot e = None) new"
    "free_list al' = take (length (free_list (allocator kv)) - d) (free_list (allocator kv))"
    "\<And>q. ref_of al' q \<le> max 1 (ref_of (allocator kv) q)"
    using reserve_blocks_frames [OF cont, of "length (entries t)" 0 d "allocator kv" sid "kv_tokens_per_block kv"] free
    by (auto simp: d_def)
  let ?kv = "kv\<lparr>allocator := al', sequences := (sequences kv)(sid \<mapsto> st\<lparr>tables := [t']\<rparr>)\<rparr>"
  have run: "reserve_tokens kv sid n = (True, ?kv)"
    using st tpb t res(1) need free
    by (simp add: reserve_tokens_def Let_def can_allocate_def bt_size_def d_def [symmetric])
  have "blocks_for (kv_tokens_per_block kv) n * length (tables st) < 4294967296"
    "length (entries (hd (tables st))) + blocks_for (kv_tokens_per_block kv) n < 4294967296"
    using small lt t by simp_all
  from reserve_tokens_step [OF inv st tpb nowrap this run]
  have "kv_inv ?kv" "\<forall>other. other \<noteq> sid \<longrightarrow> kv_view ?kv other = kv_view kv other" by blast+
  moreover have "kv_layout ?kv = kv_layout kv" using kv_layout_reserve [of kv sid n] run by simp
  moreover have "seq_frames ?kv sid (ps @ take d (rev (free_list (allocator kv))))"
    using res(2-4) ps es by (simp add: seq_frames_def first_entries_def)
  ultimately show thesis using that [OF run] res(5,6) by simp
qed

section \<open>Releasing\<close>

text \<open>Exclusively owned frames go back to the end of the free list in order.\<close>

lemma release_frames_list:
  assumes "ids_inv al" and "list_all (\<lambda>e. swap_slot e = None) es" and "distinct (map physical_id es)"
    and "\<forall>e\<in>set es. ref_of al (physical_id e) = 1"
  shows "free_list (foldl release_entry al es) = free_list al @ map physical_id es
    \<and> (\<forall>q. ref_of (foldl release_entry al es) q \<le> ref_of al q)"
  using assms
proof (induction es arbitrary: al)
  case (Cons e es)
  let ?p = "physical_id e"
  have e: "release_entry al e = release al ?p" using Cons.prems(2) by (simp add: release_entry_def)
  have one: "ref_of al ?p = 1" using Cons.prems(4) by simp
  then have valid: "unat ?p < length (infos al)" "unat (ref_count (infos al ! unat ?p)) = 1"
    by (auto simp: ref_of_def split: if_splits)
  then have "ref_count (infos al ! unat ?p) = 1" by (simp add: word_unat_eq_iff)
  then have fl: "free_list (release al ?p) = free_list al @ [?p]"
    using valid by (simp add: release_def update_info_def Let_def)
  note ref = ref_of_release [OF Cons.prems(1), of ?p]
  have "\<forall>e'\<in>set es. ref_of (release al ?p) (physical_id e') = 1"
  proof
    fix e'
    assume e': "e' \<in> set es"
    then have "physical_id e' \<noteq> ?p" using Cons.prems(3) by (metis distinct.simps(2) image_eqI list.set_map list.simps(9))
    then show "ref_of (release al ?p) (physical_id e') = 1" using Cons.prems(4) e' ref by simp
  qed
  from Cons.IH [OF release_refs(1) [OF Cons.prems(1)] _ _ this] Cons.prems(2,3)
  have IH: "free_list (foldl release_entry (release al ?p) es) = free_list (release al ?p) @ map physical_id es"
    "\<And>q. ref_of (foldl release_entry (release al ?p) es) q \<le> ref_of (release al ?p) q" by auto
  have "ref_of (release al ?p) q \<le> ref_of al q" for q using ref by simp
  then show ?case using IH fl e order_trans by fastforce
qed simp

lemma sum_list_singletons: "sum_list (map (\<lambda>x. {#f x#}) xs) = mset (map f xs)"
  by (induction xs) simp_all

lemma seq_frames_mset:
  assumes ps: "seq_frames kv sid ps" and st: "sequences kv sid = Some st"
  shows "table_refs (tables st ! 0) = mset ps"
proof -
  have es: "first_entries kv sid = entries (tables st ! 0)" by (simp add: first_entries_def st)
  have "table_refs (tables st ! 0) = sum_list (map (\<lambda>e. {#physical_id e#}) (first_entries kv sid))"
    using ps es unfolding table_refs_def
    by (intro arg_cong [of _ _ sum_list] map_cong) (auto simp: seq_frames_def list_all_iff entry_resident)
  also have "\<dots> = mset (map physical_id (first_entries kv sid))" by (rule sum_list_singletons)
  finally show ?thesis using ps unfolding seq_frames_def by metis
qed

lemma seq_frames_refs:
  assumes inv: "kv_inv kv" and ps: "seq_frames kv sid ps" and p: "p \<in> set ps"
  shows "ref_of (allocator kv) p \<ge> 1" and "unat p < capacity (allocator kv)"
proof -
  obtain st where st: "sequences kv sid = Some st" using ps by (auto simp: seq_frames_def)
  have ne: "0 < length (tables st)" using tables_ok_nonempty [OF kv_inv_tables [OF inv st]] by simp
  have es: "first_entries kv sid = entries (tables st ! 0)" by (simp add: first_entries_def st)
  obtain i where "i < length (entries (tables st ! 0))" "p = physical_id (entries (tables st ! 0) ! i)"
    using p ps es unfolding in_set_conv_nth by (auto simp: seq_frames_def)
  then have mem: "p \<in># tables_refs (tables st)" using block_ref_mem [OF ne, of i] ps es by (auto simp: seq_frames_def list_all_length)
  have sub: "tables_refs (tables st) \<subseteq># kv_refs kv" using kv_split(1) [OF kv_inv_parts(1) [OF inv] st] by simp
  show "ref_of (allocator kv) p \<ge> 1"
    using mset_subset_eqD [OF sub mem] owns_ref_of [OF kv_inv_owns [OF inv], of p] by (simp add: Suc_le_eq)
  then show "unat p < capacity (allocator kv)" by (auto simp: ref_of_def capacity_def split: if_splits)
qed

lemma seq_frames_owned:
  assumes inv: "kv_inv kv" and ps: "seq_frames kv sid ps" and un: "\<forall>p\<in>set ps. ref_of (allocator kv) p \<le> 1"
  shows "\<forall>p\<in>set ps. ref_of (allocator kv) p = 1" and "distinct ps"
proof -
  show "\<forall>p\<in>set ps. ref_of (allocator kv) p = 1" using un seq_frames_refs(1) [OF inv ps] by (simp add: le_antisym)
  obtain st where st: "sequences kv sid = Some st" using ps by (auto simp: seq_frames_def)
  have ne: "0 < length (tables st)" using tables_ok_nonempty [OF kv_inv_tables [OF inv st]] by simp
  have "mset ps = table_refs (tables st ! 0)" using seq_frames_mset [OF ps st] by simp
  moreover have "table_refs (tables st ! 0) \<subseteq># tables_refs (tables st)"
    using member_sum_list_mset [OF nth_mem [OF ne], of table_refs] by (simp add: tables_refs_def)
  ultimately have "count (mset ps) p \<le> 1" for p
    using kv_inv_no_dup [OF inv st] mset_subset_eq_count by (metis no_dup_def order_trans)
  then have "no_dup (mset ps)" by (simp add: no_dup_def)
  then show "distinct ps" by simp
qed

lemma prefix_view_empty: "prefix_view kv = Map.empty \<longleftrightarrow> prefix_index kv = Map.empty"
  by (auto simp: prefix_view_def fun_eq_iff)

lemma release_plain:
  assumes inv: "kv_inv kv" and one: "table_count kv = 1" and ps: "seq_frames kv sid ps"
    and un: "\<forall>p\<in>set ps. ref_of (allocator kv) p \<le> 1" and none: "prefix_index kv = Map.empty"
  shows "kv_inv (release_sequence kv sid)" and "kv_layout (release_sequence kv sid) = kv_layout kv"
    and "sequences (release_sequence kv sid) = (sequences kv)(sid := None)"
    and "kv_view (release_sequence kv sid) = (kv_view kv)(sid := None)"
    and "free_list (allocator (release_sequence kv sid)) = free_list (allocator kv) @ ps"
    and "ref_of (allocator (release_sequence kv sid)) q \<le> ref_of (allocator kv) q"
    and "prefix_index (release_sequence kv sid) = Map.empty"
proof -
  obtain st where st: "sequences kv sid = Some st" using ps by (auto simp: seq_frames_def)
  have "length (tables st) = 1" using kv_inv_tables [OF inv st] one by (simp add: tables_ok_def)
  then obtain t where t: "tables st = [t]" by (auto simp: length_Suc_conv)
  have es: "first_entries kv sid = entries t" by (simp add: first_entries_def st t)
  have "drop_prefix_user kv st = (kv, if prefix_key st = [] then st else st\<lparr>prefix_key := [], prefix_hash := 0\<rparr>)"
    using none by (simp add: drop_prefix_user_def)
  then obtain st1 where drop: "drop_prefix_user kv st = (kv, st1)" "tables st1 = tables st" "metadata st1 = metadata st"
    by (cases "prefix_key st = []") simp_all
  note eq = release_sequence_eq [OF st drop refl]
  show "kv_inv (release_sequence kv sid)" "kv_layout (release_sequence kv sid) = kv_layout kv"
    "sequences (release_sequence kv sid) = (sequences kv)(sid := None)"
    "kv_view (release_sequence kv sid) = (kv_view kv)(sid := None)"
    using release_sequence_step [OF inv] by simp_all
  show "prefix_index (release_sequence kv sid) = Map.empty" using eq(3) none by simp
  have ids: "ids_inv (allocator kv)" using kv_inv_parts(5) [OF inv] by (simp add: alloc_inv_def)
  have "list_all (\<lambda>e. swap_slot e = None) (entries t)" "distinct (map physical_id (entries t))"
    "\<forall>e\<in>set (entries t). ref_of (allocator kv) (physical_id e) = 1" "map physical_id (entries t) = ps"
    using ps seq_frames_owned [OF inv ps un] by (auto simp: seq_frames_def es)
  then show "free_list (allocator (release_sequence kv sid)) = free_list (allocator kv) @ ps"
    and "ref_of (allocator (release_sequence kv sid)) q \<le> ref_of (allocator kv) q"
    using release_frames_list [OF ids] eq(1) t by simp_all
qed

section \<open>Filling\<close>

lemma holds_pattern_cong:
  "sequences kv' sid = sequences kv sid \<Longrightarrow> kv_view kv' sid = kv_view kv sid \<Longrightarrow>
   holds_pattern F l salt ctx kv' sid = holds_pattern F l salt ctx kv sid"
  by (simp add: holds_pattern_def pattern_at_def first_entries_def)

lemma fill_plain:
  assumes F: "float_ok F" and env: "fill_env l kv" and inv: "kv_inv kv" and ps: "seq_frames kv sid ps"
    and free: "shared_entries (allocator kv) (first_entries kv sid) \<le> length (free_list (allocator kv))"
    and blocks: "\<And>t. t < ctx \<Longrightarrow> unat (t div tokens_per_block (kvl_shape l)) < length ps"
    and pos: "0 < capacity (allocator kv)" and layers: "frame_layers (kvl_shape l) = num_layers (kvl_shape l)"
  obtains kv' ps' where "fill_sequence F (kvl_shape l) l kv sid salt ctx = Inr kv'" and "kv_inv kv'"
    and "kv_layout kv' = kv_layout kv" and "prefix_view kv' = prefix_view kv" and "holds_pattern F l salt ctx kv' sid"
    and "seq_frames kv' sid ps'" and "length ps' = length ps"
    and "shared_entries (allocator kv) (first_entries kv sid) = 0 \<Longrightarrow> ps' = ps"
    and "\<And>other. other \<noteq> sid \<Longrightarrow> sequences kv' other = sequences kv other \<and> kv_view kv' other = kv_view kv other"
    and "\<And>q. ref_of (allocator kv') q \<le> max 1 (ref_of (allocator kv) q)"
    and "length (free_list (allocator kv)) \<le> length (free_list (allocator kv')) + shared_entries (allocator kv) (first_entries kv sid)"
    and "\<And>c. c \<in> context_coords l ctx \<Longrightarrow> ref_of (allocator kv') (ps' ! coord_block l c) \<le> 1"
proof -
  have ready: "fill_ready kv sid (length ps)"
    using ps free seq_frames_length [OF ps] by (simp add: fill_ready_def seq_frames_def)
  obtain kv' where run: "fill_sequence F (kvl_shape l) l kv sid salt ctx = Inr kv'"
    and inv': "fill_inv F l salt sid (length ps) kv (context_coords l ctx) kv'"
    using fill_sequence_step [OF F env inv ready blocks pos layers] by blast
  let ?ps' = "map physical_id (first_entries kv' sid)"
  have frames: "seq_frames kv' sid ?ps'" using inv' by (simp add: fill_inv_def fill_ready_def seq_frames_def)
  have len: "length (first_entries kv' sid) = length ps" using inv' seq_frames_length [OF ps] by (simp add: fill_inv_def)
  have "holds_pattern F l salt ctx kv' sid"
    using inv' blocks len by (simp add: holds_pattern_def fill_inv_def fill_ready_def)
  moreover have "shared_entries (allocator kv) (first_entries kv sid) = 0 \<Longrightarrow> ?ps' = ps"
    using inv' ps by (simp add: fill_inv_def seq_frames_def)
  moreover have "ref_of (allocator kv') (?ps' ! coord_block l c) \<le> 1" if "c \<in> context_coords l ctx" for c
    using inv' that unfolding fill_inv_def by (metis nth_map)
  ultimately show thesis using that [of kv' ?ps'] run inv' frames len by (simp add: fill_inv_def)
qed

end
