(* ===== verification/GoldenFixture.thy ===== *)
theory GoldenFixture
  imports GoldenSetup
begin

text \<open>
  \<^verbatim>\<open>write_fixture\<close> on a cache whose sequences hold the pattern: every check passes, and the files written are
  the ones a consumer expects. A consumer that follows the block table and the strides through the exported
  pool finds the pattern of every sequence.
\<close>

section \<open>Loops over a range\<close>

lemma try_loop_upt:
  assumes "\<And>i. i < n \<Longrightarrow> body (S i) i = Inr (S (Suc i))"
  shows "try_loop body [0..<n] (S 0) = Inr (S n)"
  using assms by (induction n) (simp_all add: try_loop_append)

lemma try_loop_range:
  assumes start: "I 0 s" and step: "\<And>i s. i < n \<Longrightarrow> I i s \<Longrightarrow> \<exists>s'. body s i = Inr s' \<and> I (Suc i) s'"
  shows "\<exists>s'. try_loop body [0..<n] s = Inr s' \<and> I n s'"
  using step
proof (induction n)
  case (Suc n)
  then obtain s1 where s1: "try_loop body [0..<n] s = Inr s1" "I n s1" by (metis less_Suc_eq)
  obtain s2 where "body s1 n = Inr s2" "I (Suc n) s2" using Suc.prems [OF _ s1(2)] by auto
  then show ?case using s1(1) by (simp add: try_loop_append)
qed (simp add: start)

section \<open>Rows of a flat array\<close>

lemma overwrite_blank:
  assumes "length pre = i * m" and "length row \<le> m" and "i < n"
  shows "overwrite (i * m) row (pre @ replicate ((n - i) * m) z)
    = (pre @ row @ replicate (m - length row) z) @ replicate ((n - Suc i) * m) z"
proof -
  have "(n - i) * m = m + (n - Suc i) * m" using assms(3) by (metis Suc_diff_Suc mult_Suc)
  then have "replicate ((n - i) * m) z = replicate (length row) z @ replicate (m - length row) z @ replicate ((n - Suc i) * m) z"
    using assms(2) by (simp add: replicate_add [symmetric])
  then show ?thesis using assms(1) by (simp add: overwrite_def)
qed

text \<open>A row of the exported block table, padded with \<open>-1\<close>.\<close>

definition table_row :: "nat \<Rightarrow> PhysicalBlockId list \<Rightarrow> u32 list" where
  "table_row m ps = ps @ replicate (m - length ps) (- 1)"

lemma length_table_row [simp]: "length ps \<le> m \<Longrightarrow> length (table_row m ps) = m"
  by (simp add: table_row_def)

lemma length_query_row [simp]: "length (query_row F sc shape i) = unat (sc_num_query_heads sc) * unat (head_dim shape)"
  unfolding query_row_def by (rule concat_rows_length) simp

section \<open>A filled batch\<close>

text \<open>The sequences of the batch are resident in the frames given, hold their pattern, and pass the exporter's
  own checks.\<close>

definition batch_ready ::
    "'f floats \<Rightarrow> 'f Scenario \<Rightarrow> KVBlockLayout \<Rightarrow> KVCacheManager \<Rightarrow> SequenceId list \<Rightarrow> (nat \<Rightarrow> PhysicalBlockId list) \<Rightarrow> bool" where
  "batch_ready F sc l kv sids frames \<longleftrightarrow>
     length sids = length (sc_context_lens sc) \<and> length sids < 4294967296
     \<and> (\<forall>i<length sids. seq_frames kv (sids ! i) (frames i)
          \<and> holds_pattern F l (of_nat i) (sc_context_lens sc ! i) kv (sids ! i)
          \<and> sc_context_lens sc ! i \<noteq> 0 \<and> self_checks F sc (kvl_shape l) i
          \<and> (sc_scatter sc \<longrightarrow> (\<forall>t. map physical_id (entries t) = frames i \<longrightarrow> is_scattered t)))"

definition rows_done ::
    "'f floats \<Rightarrow> 'f Scenario \<Rightarrow> BlockShape \<Rightarrow> nat \<Rightarrow> nat \<Rightarrow> (nat \<Rightarrow> PhysicalBlockId list) \<Rightarrow> nat \<Rightarrow> 'f FixtureArrays" where
  "rows_done F sc shape n m frames i =
     (let qe = unat (sc_num_query_heads sc) * unat (head_dim shape); z = fl_zero (fl_ops F) in
      \<lparr>fx_queries = concat (map (query_row F sc shape) [0..<i]) @ replicate ((n - i) * qe) z,
       fx_outputs = concat (map (textbook_output F sc shape) [0..<i]) @ replicate ((n - i) * qe) z,
       fx_block_table = concat (map (\<lambda>i. table_row m (frames i)) [0..<i]) @ replicate ((n - i) * m) (- 1),
       fx_context_lens = take i (sc_context_lens sc) @ replicate (n - i) 0\<rparr>)"

lemma fixture_row_step:
  assumes F: "float_ok F" and inv: "kv_inv kv" and env: "fill_env l kv" and heads: "heads_ok sc (kvl_shape l)"
    and batch: "batch_ready F sc l kv sids frames" and rows: "\<forall>i<length sids. length (frames i) \<le> m" and i: "i < length sids"
  shows "fixture_row F sc (kvl_shape l) kv sids m (rows_done F sc (kvl_shape l) (length sids) m frames i) i
    = Inr (rows_done F sc (kvl_shape l) (length sids) m frames (Suc i))"
proof -
  let ?shape = "kvl_shape l" and ?n = "length sids" and ?fx = "rows_done F sc (kvl_shape l) (length sids) m frames i"
  let ?qe = "unat (sc_num_query_heads sc) * unat (head_dim (kvl_shape l))" and ?ctx = "sc_context_lens sc"
  have b: "seq_frames kv (sids ! i) (frames i)" "holds_pattern F l (of_nat i) (?ctx ! i) kv (sids ! i)" "?ctx ! i \<noteq> 0"
      "self_checks F sc ?shape i" "sc_scatter sc \<Longrightarrow> map physical_id (entries t) = frames i \<Longrightarrow> is_scattered t"
      "length ?ctx = ?n" "i < length ?ctx" "i < 4294967296" for t
    using batch i by (auto simp: batch_ready_def)
  obtain v where v: "cache_view kv (sids ! i) TextKV = Some v" using b(1) by (auto simp: seq_frames_def cache_view_def)
  have ids: "map physical_id (entries (the (view_block_table v))) = frames i"
    using fill_view(5) [OF inv env v] b(1) by (simp add: seq_frames_def)
  have "Suc i * ?qe \<le> ?n * ?qe" using i by (intro mult_le_mono1) simp
  then have len: "length (concat (map (query_row F sc ?shape) [0..<i])) = i * ?qe"
    "length (concat (map (textbook_output F sc ?shape) [0..<i])) = i * ?qe"
    "length (concat (map (\<lambda>i. table_row m (frames i)) [0..<i])) = i * m"
    "length (segment (i * ?qe) ?qe (fx_outputs ?fx)) = ?qe"
    using rows i concat_rows_length [of i "query_row F sc ?shape"] concat_rows_length [of i "textbook_output F sc ?shape"]
      concat_rows_length [of i "\<lambda>i. table_row m (frames i)"]
    by (simp_all add: rows_done_def Let_def segment_def diff_mult_distrib)
  note kernel = attention_textbook [OF F inv env heads v b(2) b(7,8) b(3) len(4)]
  have ctx: "(take i ?ctx @ replicate (?n - i) 0)[i := ?ctx ! i] = take (Suc i) ?ctx @ replicate (?n - Suc i) 0"
  proof -
    have "replicate (?n - i) 0 = (0 :: u32) # replicate (?n - Suc i) 0" using i by (metis Suc_diff_Suc replicate_Suc)
    then show ?thesis using b(6) i by (simp add: list_update_append take_Suc_conv_app_nth)
  qed
  have "fixture_row F sc ?shape kv sids m ?fx i
      = Inr \<lparr>fx_queries = overwrite (i * ?qe) (query_row F sc ?shape i) (fx_queries ?fx),
             fx_outputs = overwrite (i * ?qe) (textbook_output F sc ?shape i) (fx_outputs ?fx),
             fx_block_table = overwrite (i * m) (frames i) (fx_block_table ?fx),
             fx_context_lens = (fx_context_lens ?fx)[i := ?ctx ! i]\<rparr>"
    unfolding fixture_row_def Let_def v option.case kernel prod.case option.sel ids cross_check_textbook [OF b(4)]
    using b(5) ids by simp
  also have "\<dots> = Inr (rows_done F sc ?shape ?n m frames (Suc i))"
    using overwrite_blank [OF len(1) _ i, of "query_row F sc ?shape i"] overwrite_blank [OF len(2) _ i, of "textbook_output F sc ?shape i"]
      overwrite_blank [OF len(3) _ i, of "frames i"] rows i ctx
    by (simp add: rows_done_def Let_def table_row_def)
  finally show ?thesis .
qed

section \<open>The files\<close>

text \<open>What is written: the pool, the queries, the textbook outputs, the padded block table, the context lengths
  and the scalars.\<close>

definition fixture_files ::
    "'f floats \<Rightarrow> 'f Scenario \<Rightarrow> BlockShape \<Rightarrow> u8 list \<Rightarrow> u32 \<Rightarrow> u32 \<Rightarrow> (nat \<Rightarrow> PhysicalBlockId list) \<Rightarrow> npy_file list" where
  "fixture_files F sc shape pool_copy pool_blocks max_blocks_per_seq frames =
     (let dir = sc_name sc; n = length (sc_context_lens sc); layout = \<lparr>kvl_shape = shape\<rparr>;
          vectors = [of_nat n, ucast (sc_num_query_heads sc), ucast (head_dim shape)]
      in [(npy_path dir ''kv_pool'', write_npy ''<f4'' [ucast pool_blocks, element_count layout] pool_copy 4),
          write_f32 F dir ''query'' vectors (concat (map (query_row F sc shape) [0..<n])),
          write_f32 F dir ''output'' vectors (concat (map (textbook_output F sc shape) [0..<n])),
          write_i32 dir ''block_table'' [of_nat n, ucast max_blocks_per_seq]
            (concat (map (\<lambda>i. table_row (unat max_blocks_per_seq) (frames i)) [0..<n])),
          write_i32 dir ''context_lens'' [of_nat n] (sc_context_lens sc)]
         @ map (\<lambda>(name, val). write_i32 dir name [] [of_int val]) (scalar_fields sc shape layout)
         @ [write_scalar_f32 F dir ''scale'' (sc_scale sc)])"

definition scalars_fit :: "'f Scenario \<Rightarrow> BlockShape \<Rightarrow> bool" where
  "scalars_fit sc shape \<longleftrightarrow>
     list_all (\<lambda>(name, val). - 2147483648 \<le> val \<and> val \<le> 2147483647) (scalar_fields sc shape \<lparr>kvl_shape = shape\<rparr>)"

lemma write_scalars:
  assumes "list_all (\<lambda>(name, val). - 2147483648 \<le> val \<and> val \<le> 2147483647) scalars"
  shows "try_loop (\<lambda>files (name, val). and_then (write_scalar_i32 dir name val) (\<lambda>f. Inr (files @ [f]))) scalars files
    = Inr (files @ map (\<lambda>(name, val). write_i32 dir name [] [of_int val]) scalars)"
  using assms by (induction scalars arbitrary: files) (auto simp: write_scalar_i32_def)

definition pool_copy :: "KVBlockLayout \<Rightarrow> MemoryAllocator \<Rightarrow> u8 list" where
  "pool_copy l al = concat (map (\<lambda>i. take (layout_elements l * 4) (frame_of al (of_nat i))) [0..<capacity al])"

lemma pool_elements_copy:
  assumes F: "float_ok F" and inv: "kv_inv kv" and env: "fill_env l kv" and cap: "capacity (allocator kv) = unat pool_blocks"
  shows "pool_elements F l (allocator kv) pool_blocks = Some (pool_copy l (allocator kv))"
proof -
  let ?al = "allocator kv" and ?n = "layout_elements l * 4"
  have mem: "memory_inv ?al" and caps: "unat (max_blocks (config ?al)) = unat pool_blocks"
    using kv_inv_parts(5) [OF inv] cap by (simp_all add: alloc_inv_def ids_inv_def capacity_def)
  have n: "unat (element_count l) * unat (elem_size (fl_ops F)) = ?n" "?n \<le> unat (block_stride_bytes ?al)"
    using env unat_element_count float_okD(1) [OF F] by (simp_all add: fill_env_def)
  have row: "(case al_block ?al (of_nat i) of None \<Rightarrow> None | Some b \<Rightarrow> frame_bytes ?al b ?n)
      = Some (take ?n (frame_of ?al (of_nat i)))" if "i < unat pool_blocks" for i
  proof -
    have i: "unat (of_nat i :: u32) = i" using that less_trans [OF _ unat_u32_lt] by (simp add: unat_of_nat)
    then have "unat (of_nat i :: u32) < unat (max_blocks (config ?al))" using that caps by simp
    then obtain b off where b: "al_block ?al (of_nat i) = Some b" "pb_storage b = Some off"
      "unat off = unat (of_nat i :: u32) * unat (block_stride_bytes ?al)"
      "unat off + unat (block_stride_bytes ?al) \<le> length (pool ?al)"
      using memory_block [OF mem] by metis
    then show ?thesis using n(2)
      by (auto simp: frame_bytes_def frame_of_def frame_at_def segment_def min_absorb1)
  qed
  then have eq: "map (\<lambda>i. case al_block ?al (of_nat i) of None \<Rightarrow> None | Some b \<Rightarrow> frame_bytes ?al b ?n) [0..<unat pool_blocks]
      = map (\<lambda>i. Some (take ?n (frame_of ?al (of_nat i)))) [0..<unat pool_blocks]" by simp
  show ?thesis unfolding pool_elements_def Let_def n(1) eq by (auto simp: pool_copy_def cap comp_def)
qed

lemma write_fixture_files:
  assumes F: "float_ok F" and inv: "kv_inv kv" and env: "fill_env \<lparr>kvl_shape = shape\<rparr> kv" and heads: "heads_ok sc shape"
    and batch: "batch_ready F sc \<lparr>kvl_shape = shape\<rparr> kv sids frames" and rows: "\<forall>i<length sids. length (frames i) \<le> unat m"
    and cap: "capacity (allocator kv) = unat pool_blocks" and scalars: "scalars_fit sc shape"
  shows "write_fixture F sc shape \<lparr>kvl_shape = shape\<rparr> kv sids pool_blocks m
    = Inr (fixture_files F sc shape (pool_copy \<lparr>kvl_shape = shape\<rparr> (allocator kv)) pool_blocks m frames)"
proof -
  let ?n = "length sids" and ?l = "\<lparr>kvl_shape = shape\<rparr>"
  have n: "length (sc_context_lens sc) = ?n" using batch by (simp add: batch_ready_def)
  have "try_loop (fixture_row F sc shape kv sids (unat m)) [0..<?n] (rows_done F sc shape ?n (unat m) frames 0)
      = Inr (rows_done F sc shape ?n (unat m) frames ?n)"
    using fixture_row_step [OF F inv env _ batch rows] heads by (intro try_loop_upt) simp
  moreover have "rows_done F sc shape ?n (unat m) frames 0 = blank_arrays F sc shape ?n (unat m)"
    by (simp add: rows_done_def blank_arrays_def Let_def)
  ultimately have loop: "try_loop (fixture_row F sc shape kv sids (unat m)) [0..<?n] (blank_arrays F sc shape ?n (unat m))
      = Inr (rows_done F sc shape ?n (unat m) frames ?n)" by simp
  have "write_fixture F sc shape ?l kv sids pool_blocks m = and_then (try_loop
      (\<lambda>files (name, val). and_then (write_scalar_i32 (sc_name sc) name val) (\<lambda>f. Inr (files @ [f]))) (scalar_fields sc shape ?l)
      (take 5 (fixture_files F sc shape (pool_copy ?l (allocator kv)) pool_blocks m frames)))
      (\<lambda>files. Inr (files @ [write_scalar_f32 F (sc_name sc) ''scale'' (sc_scale sc)]))"
    unfolding write_fixture_def Let_def loop pool_elements_copy [OF F inv env cap] and_then_simps option.case
    by (simp add: rows_done_def fixture_files_def Let_def n)
  also have "\<dots> = Inr (fixture_files F sc shape (pool_copy ?l (allocator kv)) pool_blocks m frames)"
    unfolding write_scalars [OF scalars [unfolded scalars_fit_def]] by (simp add: fixture_files_def Let_def)
  finally show ?thesis .
qed

section \<open>Reading the exported pool\<close>

lemma concat_rows_segment:
  assumes rows: "\<And>q. q < k \<Longrightarrow> length (row q) = n" and q: "q < k" and a: "a + m \<le> n"
  shows "segment (q * n + a) m (concat (map row [0..<k])) = segment a m (row q)"
proof (rule nth_equalityI)
  have "q * n + n \<le> k * n" using frame_fits [OF q] by simp
  then have len: "q * n + a + m \<le> length (concat (map row [0..<k]))" using concat_rows_length [of k row n] rows a by simp
  then show "length (segment (q * n + a) m (concat (map row [0..<k]))) = length (segment a m (row q))"
    using a rows [OF q] by simp
  fix j
  assume "j < length (segment (q * n + a) m (concat (map row [0..<k])))"
  then have j: "j < m" using len by simp
  have "concat (map row [0..<k]) ! (q * n + (a + j)) = row q ! (a + j)" using rows q j a by (intro concat_rows_nth) simp_all
  then show "segment (q * n + a) m (concat (map row [0..<k])) ! j = segment a m (row q) ! j"
    using j len a rows [OF q] by (simp add: segment_def add.assoc)
qed

text \<open>The address a consumer computes, from the entry of the block table and the strides, holds the pattern.\<close>

lemma pool_copy_pattern:
  assumes inv: "kv_inv kv" and env: "fill_env l kv" and ps: "seq_frames kv sid ps" and pat: "holds_pattern F l salt ctx kv sid"
    and off: "element_offset l layer stream (token mod tokens_per_block (kvl_shape l)) head = Some off"
    and token: "token < ctx" and d: "d < unat (head_dim (kvl_shape l))"
  shows "element (unat (ps ! unat (token div tokens_per_block (kvl_shape l))) * layout_elements l + unat off + d) (pool_copy l (allocator kv))
    = float_bytes F (cache_value F salt layer stream token head (of_nat d))"
proof -
  let ?j = "unat (token div tokens_per_block (kvl_shape l))" and ?al = "allocator kv" and ?L = "layout_elements l"
  let ?c = "(layer, stream, token, head, d)"
  note tpb = fill_env_tpb [OF env]
  have fits: "layout_fits l" and stride: "?L * 4 \<le> unat (block_stride_bytes ?al)" using env by (simp_all add: fill_env_def)
  obtain st where st: "sequences kv sid = Some st" using ps by (auto simp: seq_frames_def)
  have ne: "0 < length (tables st)" using tables_ok_nonempty [OF kv_inv_tables [OF inv st]] by simp
  have j: "?j < length (first_entries kv sid)" using pat token by (simp add: holds_pattern_def)
  let ?e = "first_entries kv sid ! ?j"
  have e: "write_target kv sid token 0 = Some ?e" "swap_slot ?e = None" "ps ! ?j = physical_id ?e"
    using st ne j tpb ps by (auto simp: write_target_def first_entries_def seq_frames_def list_all_length)
  have range: "layer < frame_layers (kvl_shape l)" "head < num_kv_heads (kvl_shape l)"
    using off by (simp_all add: element_offset_def Let_def split: if_splits)
  have "pattern_at F l salt kv sid ?c" using pat range token d by (simp add: holds_pattern_def context_coords_def valid_coord_def)
  then have elem: "element (coord_index l ?c) (frame_of ?al (ps ! ?j)) = float_bytes F (cache_value F salt layer stream token head (of_nat d))"
    using write_target_content [OF e(1,2)] tpb e(3) by (auto simp: pattern_at_def coord_block_def coord_value_def)
  have index: "coord_index l ?c = unat off + d" "unat off + d < ?L"
    using element_offset_row [OF fits off] d by (simp_all add: coord_index_def element_index_def)
  have cap: "unat (ps ! ?j) < capacity ?al"
    using j ps by (intro seq_frames_refs(2) [OF inv ps] nth_mem) (auto simp: seq_frames_def)
  have len: "length (take (?L * 4) (frame_of ?al (of_nat q))) = ?L * 4" if "q < capacity ?al" for q
  proof -
    have "memory_inv ?al" "unat (max_blocks (config ?al)) = capacity ?al"
      using kv_inv_parts(5) [OF inv] by (simp_all add: alloc_inv_def ids_inv_def capacity_def)
    moreover from this(2) have "unat (of_nat q :: u32) = q" using that unat_u32_lt [of "max_blocks (config ?al)"] by simp
    ultimately have "length (frame_of ?al (of_nat q)) = unat (block_stride_bytes ?al)" using that frame_bytes_full by metis
    then show ?thesis using stride by simp
  qed
  have "(unat off + d) * 4 + 4 \<le> ?L * 4" using mult_le_mono1 [OF Suc_leI [OF index(2)], of 4] by simp
  then have "segment (unat (ps ! ?j) * (?L * 4) + (unat off + d) * 4) 4 (pool_copy l ?al)
      = segment ((unat off + d) * 4) 4 (take (?L * 4) (frame_of ?al (of_nat (unat (ps ! ?j)))))"
    unfolding pool_copy_def using len cap by (intro concat_rows_segment) simp_all
  then have "element (unat (ps ! ?j) * ?L + unat off + d) (pool_copy l ?al) = segment ((unat off + d) * 4) 4 (take (?L * 4) (frame_of ?al (ps ! ?j)))"
    by (simp add: element_def add_mult_distrib add.assoc mult.assoc)
  also have "\<dots> = element (unat off + d) (frame_of ?al (ps ! ?j))"
    using index(2) by (simp add: element_def segment_def take_drop min_absorb1)
  finally show ?thesis using elem index(1) by simp
qed

end
