(* ===== verification/GoldenScenario.thy ===== *)
theory GoldenScenario
  imports GoldenFixture
begin

text \<open>
  The path of \<^verbatim>\<open>export_scenario\<close> from a fresh pool to a filled batch: zeroing, creating the sequences, reserving
  one block per sequence and round with a spacer frame in between, releasing the spacer and filling.
\<close>

section \<open>Scattered frames\<close>

lemma foldl_max_bound:
  "a \<le> foldl max a (xs :: 'a::linorder list) \<and> (\<forall>x\<in>set xs. x \<le> foldl max a xs)"
  by (induction xs arbitrary: a) (auto intro: order_trans [OF max.cobounded1] order_trans [OF max.cobounded2])

lemma foldl_max_mem: "foldl max a (xs :: 'a::linorder list) \<in> insert a (set xs)"
  by (induction xs arbitrary: a) (auto simp: max_def)

lemma foldl_min_bound:
  "foldl min a (xs :: 'a::linorder list) \<le> a \<and> (\<forall>x\<in>set xs. foldl min a xs \<le> x)"
  by (induction xs arbitrary: a) (auto intro: order_trans [OF _ min.cobounded1] order_trans [OF _ min.cobounded2])

lemma foldl_min_mem: "foldl min a (xs :: 'a::linorder list) \<in> insert a (set xs)"
  by (induction xs arbitrary: a) (auto simp: min_def)

lemma unat_ucast_u64: "unat (ucast (x :: u32) :: u64) = unat x"
  by (simp add: unsigned_ucast_eq take_bit_nat_eq_self_iff less_trans [OF unat_u32_lt])

text \<open>Distinct odd numbers leave gaps.\<close>

lemma odd_spread:
  assumes distinct: "distinct ns" and odd: "\<forall>n\<in>set ns. odd n \<and> lo \<le> n \<and> n \<le> (hi :: nat)" and "odd lo" and "odd hi" and le: "lo \<le> hi"
  shows "2 * length ns \<le> hi - lo + 2"
proof -
  obtain a b where ab: "lo = 2 * a + 1" "hi = 2 * b + 1" using assms(3,4) by (auto elim!: oddE)
  have half: "\<exists>k. n = 2 * k + 1 \<and> a \<le> k \<and> k \<le> b" if "n \<in> set ns" for n
  proof -
    have "odd n" using odd that by blast
    then obtain k where k: "n = 2 * k + 1" by (rule oddE)
    have "lo \<le> n" "n \<le> hi" using odd that by blast+
    then show ?thesis using k ab by auto
  qed
  then have "set ns \<subseteq> (\<lambda>k. 2 * k + 1) ` {a..b}" by (fastforce simp: image_iff)
  then have "length ns \<le> card ((\<lambda>k. 2 * k + 1) ` {a..b})"
    using card_mono [of "(\<lambda>k. 2 * k + 1) ` {a..b}" "set ns"] distinct by (simp add: distinct_card)
  also have "\<dots> \<le> Suc b - a" using card_image_le [of "{a..b}" "\<lambda>k. 2 * k + 1"] by simp
  finally show ?thesis using ab le by linarith
qed

lemma odd_frames_scattered:
  assumes ids: "map physical_id (entries t) = ps" and two: "2 \<le> length ps" and distinct: "distinct ps" and odd: "\<forall>p\<in>set ps. odd (unat p)"
  shows "is_scattered t"
proof -
  let ?lo = "foldl min (hd ps) ps" and ?hi = "foldl max (hd ps) ps"
  have hd: "hd ps \<in> set ps" using two by (cases ps) simp_all
  have mem: "?lo \<in> set ps" "?hi \<in> set ps" using foldl_min_mem [of "hd ps" ps] foldl_max_mem [of "hd ps" ps] hd by auto
  have bounds: "unat ?lo \<le> unat p \<and> unat p \<le> unat ?hi" if "p \<in> set ps" for p
    using foldl_min_bound [of "hd ps" ps] foldl_max_bound [of "hd ps" ps] that by (auto simp: word_le_nat_alt)
  have "2 * length (map unat ps) \<le> unat ?hi - unat ?lo + 2"
  proof (rule odd_spread)
    show "distinct (map unat ps)" using distinct by (simp add: distinct_map inj_on_def word_unat_eq_iff)
  qed (use bounds odd mem in auto)
  then have gap: "2 * length ps \<le> unat ?hi - unat ?lo + 2" by simp
  have le: "unat ?lo \<le> unat ?hi" using bounds [OF mem(1)] by simp
  then have diff: "unat (?hi - ?lo) = unat ?hi - unat ?lo" by (simp add: unat_sub word_le_nat_alt)
  have "odd (unat ?lo)" using odd mem by blast
  then have "unat ?lo \<noteq> 0" by (metis even_zero)
  then have "unat (?hi - ?lo) + 1 < 4294967296" using diff unat_u32_lt [of ?hi] by linarith
  then have inc: "unat (?hi - ?lo + 1) = unat ?hi - unat ?lo + 1" using unat_inc_u32 diff by metis
  have "unat (ucast (?hi - ?lo + 1) :: u64) = unat (?hi - ?lo + 1)" by (rule unat_ucast_u64)
  then have "unat (ucast (?hi - ?lo + 1) :: u64) = unat ?hi - unat ?lo + 1" using inc by simp
  moreover have "unat (of_nat (length ps) :: u64) = length ps"
  proof (rule unat_of_nat_u64)
    show "length ps < 18446744073709551616" using gap unat_u32_lt [of ?hi] by linarith
  qed
  ultimately have "(ucast (?hi - ?lo + 1) :: u64) \<noteq> of_nat (length ps)" using gap two by auto
  then show ?thesis using two unfolding is_scattered_def Let_def ids by simp
qed

section \<open>The fresh pool\<close>

text \<open>Writing whole frames leaves everything but the bytes as it was.\<close>

lemma write_frames_loop:
  assumes inv: "alloc_inv al" and n: "n \<le> capacity al"
    and body: "\<And>al p. memory_inv al \<Longrightarrow> unat p < unat (max_blocks (config al)) \<Longrightarrow>
      \<exists>b bs. al_block al p = Some b \<and> length bs = unat (block_stride_bytes al) \<and> body al p = Inr (write_frame al b bs)"
  shows "\<exists>bytes. try_loop (\<lambda>al i. body al (of_nat i)) [0..<n] al = Inr (al\<lparr>pool := bytes\<rparr>) \<and> alloc_inv (al\<lparr>pool := bytes\<rparr>)"
proof -
  have cap: "n \<le> unat (max_blocks (config al))" using inv n by (simp add: alloc_inv_def ids_inv_def capacity_def)
  have "\<exists>al'. try_loop (\<lambda>al i. body al (of_nat i)) [0..<n] al = Inr al' \<and> (\<exists>bytes. al' = al\<lparr>pool := bytes\<rparr> \<and> alloc_inv al')"
  proof (rule try_loop_range [of "\<lambda>_ al'. \<exists>bytes. al' = al\<lparr>pool := bytes\<rparr> \<and> alloc_inv al'" al n])
    show "\<exists>bytes. al = al\<lparr>pool := bytes\<rparr> \<and> alloc_inv al" using inv by (intro exI [of _ "pool al"]) simp
  next
    fix i al1
    assume i: "i < n" and al1: "\<exists>bytes. al1 = al\<lparr>pool := bytes\<rparr> \<and> alloc_inv al1"
    then obtain bytes where bytes: "al1 = al\<lparr>pool := bytes\<rparr>" and inv1: "ids_inv al1" "memory_inv al1" by (auto simp: alloc_inv_def)
    have p: "unat (of_nat i :: u32) < unat (max_blocks (config al1))"
      using i cap bytes less_trans [OF less_le_trans [OF i cap] unat_u32_lt] by simp
    obtain b bs where b: "al_block al1 (of_nat i) = Some b" "length bs = unat (block_stride_bytes al1)"
      "body al1 (of_nat i) = Inr (write_frame al1 b bs)" using body [OF inv1(2) p] by blast
    let ?al2 = "al1\<lparr>pool := overwrite (unat (of_nat i :: u32) * unat (block_stride_bytes al1)) bs (pool al1)\<rparr>"
    have "write_frame al1 b bs = ?al2" using frame_bytes_full [OF inv1(2) p] b by (metis option.inject)
    moreover have "alloc_inv ?al2"
      using write_pool_frame(1) [OF inv1(2) p b(2)] inv1(1) by (simp add: alloc_inv_def ids_inv_def ref_of_def)
    ultimately show "\<exists>s'. body al1 (of_nat i) = Inr s' \<and> (\<exists>bytes. s' = al\<lparr>pool := bytes\<rparr> \<and> alloc_inv s')"
      using b(3) bytes by auto
  qed
  then show ?thesis by metis
qed

lemma zero_frames_ok:
  assumes "alloc_inv al" and "unat n \<le> capacity al"
  shows "\<exists>bytes. zero_frames n al = Inr (al\<lparr>pool := bytes\<rparr>) \<and> alloc_inv (al\<lparr>pool := bytes\<rparr>)"
  unfolding zero_frames_def
proof (rule write_frames_loop [OF assms])
  fix al :: MemoryAllocator and p :: PhysicalBlockId
  assume "memory_inv al" and "unat p < unat (max_blocks (config al))"
  then obtain b where "al_block al p = Some b" "pb_size_bytes b = block_stride_bytes al" using frame_bytes_full by metis
  then show "\<exists>b bs. al_block al p = Some b \<and> length bs = unat (block_stride_bytes al)
      \<and> (case al_block al p of None \<Rightarrow> Inl ''pool frame missing'' | Some b \<Rightarrow> Inr (write_frame al b (replicate (unat (pb_size_bytes b)) 0)))
          = Inr (write_frame al b bs)" by (intro exI [of _ b] exI [of _ "replicate (unat (block_stride_bytes al)) 0"]) simp
qed

section \<open>Steps of the set-up\<close>

text \<open>What every step keeps: the invariant, the geometry of the pool \<open>kv0\<close> started with, no published prefix and
  no shared frame.\<close>

definition setup_ok :: "KVCacheManager \<Rightarrow> KVCacheManager \<Rightarrow> bool" where
  "setup_ok kv0 kv \<longleftrightarrow>
     kv_inv kv \<and> kv_layout kv = kv_layout kv0 \<and> prefix_index kv = Map.empty \<and> unshared kv"

lemma setup_ok_shape:
  assumes "setup_ok kv0 kv"
  shows "table_count kv = table_count kv0" and "kv_tokens_per_block kv = kv_tokens_per_block kv0"
    and "capacity (allocator kv) = capacity (allocator kv0)"
  using assms kv_layout_shape [of kv kv0] by (simp_all add: setup_ok_def)

lemma setup_create:
  assumes ok: "setup_ok kv0 kv" and new: "sequences kv sid = None"
  obtains kv' where "required what (create_sequence kv (plain_metadata sid)) = Inr kv'" and "setup_ok kv0 kv'"
    and "allocator kv' = allocator kv" and "seq_frames kv' sid []" and "\<And>other. other \<noteq> sid \<Longrightarrow> sequences kv' other = sequences kv other"
proof -
  obtain kv' where kv': "create_sequence kv (plain_metadata sid) = (True, kv')" "kv_inv kv'" "kv_layout kv' = kv_layout kv"
    "allocator kv' = allocator kv" "seq_frames kv' sid []" "\<And>other. other \<noteq> sid \<Longrightarrow> sequences kv' other = sequences kv other"
    "prefix_index kv' = prefix_index kv"
    using create_plain [OF _ new] ok unfolding setup_ok_def by metis
  show thesis
    by (rule that [of kv']) (use kv' ok in \<open>simp_all add: required_def setup_ok_def unshared_def\<close>)
qed

text \<open>Reserving one block takes the last free frame.\<close>

lemma blocks_for_self: "tpb \<noteq> 0 \<Longrightarrow> blocks_for tpb tpb = 1"
  by (simp add: blocks_for_def unat_gt_0 div_nat_eqI)

lemma setup_take:
  assumes ok: "setup_ok kv0 kv" and one: "table_count kv0 = 1" and tpb: "kv_tokens_per_block kv0 = tpb" "tpb \<noteq> 0" "unat tpb \<le> 2147483648"
    and ps: "seq_frames kv sid ps" and small: "length ps + 1 < 4294967296" and free: "free_list (allocator kv) = map of_nat [0..<Suc m]"
  obtains kv' where "required what (reserve_tokens kv sid tpb) = Inr kv'" and "setup_ok kv0 kv'"
    and "free_list (allocator kv') = map of_nat [0..<m]" and "seq_frames kv' sid (ps @ [of_nat m])"
    and "\<And>other. other \<noteq> sid \<Longrightarrow> sequences kv' other = sequences kv other"
proof -
  note shape = setup_ok_shape [OF ok]
  have b: "blocks_for (kv_tokens_per_block kv) tpb = 1" using blocks_for_self tpb shape by simp
  have pre: "kv_inv kv" "table_count kv = 1" "kv_tokens_per_block kv \<noteq> 0" "unat tpb + unat (kv_tokens_per_block kv) \<le> 4294967296"
    "length ps + blocks_for (kv_tokens_per_block kv) tpb < 4294967296"
    "blocks_for (kv_tokens_per_block kv) tpb \<le> length (free_list (allocator kv))"
    using ok one tpb shape small free b by (simp_all add: setup_ok_def)
  from reserve_frames [OF pre(1,2) ps pre(3-6)] obtain kv' where kv': "reserve_tokens kv sid tpb = (True, kv')" "kv_inv kv'"
    "kv_layout kv' = kv_layout kv" "seq_frames kv' sid (ps @ take 1 (rev (free_list (allocator kv))))"
    "free_list (allocator kv') = take (length (free_list (allocator kv)) - 1) (free_list (allocator kv))"
    "\<And>q. ref_of (allocator kv') q \<le> max 1 (ref_of (allocator kv) q)"
    "\<And>other. other \<noteq> sid \<Longrightarrow> sequences kv' other = sequences kv other" "prefix_index kv' = prefix_index kv"
    unfolding b by metis
  have "unshared kv'" by (rule unshared_mono [OF _ kv'(6)]) (use ok in \<open>simp add: setup_ok_def\<close>)
  then have "setup_ok kv0 kv'" using ok kv' by (simp add: setup_ok_def)
  moreover have "free_list (allocator kv') = map of_nat [0..<m]" and "seq_frames kv' sid (ps @ [of_nat m])"
    using kv'(4,5) free by simp_all
  ultimately show thesis using that [of kv'] kv'(1,7) by (simp add: required_def)
qed

section \<open>Sequence ids\<close>

lemma unat_sequence_id: "i < 9998 \<Longrightarrow> unat (sequence_id i) = Suc i"
proof -
  assume "i < 9998"
  then have lt: "Suc i < 18446744073709551616" by linarith
  have "sequence_id i = of_nat (Suc i)" unfolding sequence_id_def of_nat_Suc by (rule add.commute)
  then show ?thesis using unat_of_nat_u64 [OF lt] by simp
qed

lemma sequence_id_inj: "i < 9998 \<Longrightarrow> j < 9998 \<Longrightarrow> sequence_id i = sequence_id j \<longleftrightarrow> i = j"
  using unat_sequence_id by (metis nat.inject)

lemma sequence_id_spacer: "i < 9998 \<Longrightarrow> sequence_id i \<noteq> kSpacerSequence"
proof
  assume i: "i < 9998" and eq: "sequence_id i = kSpacerSequence"
  have "unat kSpacerSequence = 9999" by (simp add: kSpacerSequence_def)
  then show False using unat_sequence_id [OF i] i eq by simp
qed

lemma create_all_ok:
  assumes ok: "setup_ok kv0 kv" and none: "sequences kv = Map.empty" and n: "length (sc_context_lens sc) < 9999"
  obtains kv' where "create_all sc kv = Inr kv'" and "setup_ok kv0 kv'" and "allocator kv' = allocator kv"
    and "\<And>i. i < length (sc_context_lens sc) \<Longrightarrow> seq_frames kv' (sequence_id i) []"
    and "sc_scatter sc \<Longrightarrow> seq_frames kv' kSpacerSequence []"
proof -
  let ?n = "length (sc_context_lens sc)"
  let ?I = "\<lambda>i kv'. setup_ok kv0 kv' \<and> allocator kv' = allocator kv \<and> (\<forall>j<i. seq_frames kv' (sequence_id j) [])
      \<and> (\<forall>sid. sid \<notin> sequence_id ` {..<i} \<longrightarrow> sequences kv' sid = None)"
  have "\<exists>kv1. try_loop (\<lambda>kv i. required ''create_sequence failed'' (create_sequence kv (plain_metadata (sequence_id i)))) [0..<?n] kv = Inr kv1
    \<and> ?I ?n kv1"
  proof (rule try_loop_range [of ?I kv ?n])
    show "?I 0 kv" using ok none by simp
  next
    fix i kv'
    assume i: "i < ?n" and I: "?I i kv'"
    have fresh: "sequence_id i \<notin> sequence_id ` {..<i}"
    proof
      assume "sequence_id i \<in> sequence_id ` {..<i}"
      then obtain j where "j < i" "sequence_id i = sequence_id j" by blast
      then show False using sequence_id_inj [of i j] i n by simp
    qed
    then have "sequences kv' (sequence_id i) = None" using I by blast
    from setup_create [OF conjunct1 [OF I] this, of "''create_sequence failed''"]
    obtain kv2 where kv2: "required ''create_sequence failed'' (create_sequence kv' (plain_metadata (sequence_id i))) = Inr kv2"
      "setup_ok kv0 kv2" "allocator kv2 = allocator kv'" "seq_frames kv2 (sequence_id i) []"
      "\<And>other. other \<noteq> sequence_id i \<Longrightarrow> sequences kv2 other = sequences kv' other" by metis
    have "seq_frames kv2 (sequence_id j) []" if "j < Suc i" for j
    proof (cases "j = i")
      case False
      then have "j < i" using that by simp
      then have "sequence_id j \<noteq> sequence_id i" using fresh by (metis imageI lessThan_iff)
      then show ?thesis using seq_frames_cong [OF kv2(5)] I \<open>j < i\<close> by simp
    qed (simp add: kv2(4))
    moreover have "sequences kv2 sid = None" if "sid \<notin> sequence_id ` {..<Suc i}" for sid
      using that kv2(5) I by (simp add: lessThan_Suc)
    ultimately show "\<exists>s'. required ''create_sequence failed'' (create_sequence kv' (plain_metadata (sequence_id i))) = Inr s' \<and> ?I (Suc i) s'"
      using kv2 I by auto
  qed
  then obtain kv1 where loop: "try_loop (\<lambda>kv i. required ''create_sequence failed'' (create_sequence kv (plain_metadata (sequence_id i)))) [0..<?n] kv = Inr kv1"
    and kv1: "?I ?n kv1" by blast
  show thesis
  proof (cases "sc_scatter sc")
    case True
    have away: "sequence_id j \<noteq> kSpacerSequence" if "j < ?n" for j using sequence_id_spacer that n by simp
    then have "kSpacerSequence \<notin> sequence_id ` {..<?n}" by (metis imageE lessThan_iff)
    then have "sequences kv1 kSpacerSequence = None" using kv1 by blast
    from setup_create [OF conjunct1 [OF kv1] this, of "''create spacer sequence failed''"]
    obtain kv2 where kv2: "required ''create spacer sequence failed'' (create_sequence kv1 (plain_metadata kSpacerSequence)) = Inr kv2"
      "setup_ok kv0 kv2" "allocator kv2 = allocator kv1" "seq_frames kv2 kSpacerSequence []"
      "\<And>other. other \<noteq> kSpacerSequence \<Longrightarrow> sequences kv2 other = sequences kv1 other" by metis
    have "seq_frames kv2 (sequence_id i) []" if "i < ?n" for i using seq_frames_cong [OF kv2(5) [OF away [OF that]]] kv1 that by simp
    then show thesis using that [of kv2] kv2 kv1 loop True by (simp add: create_all_def)
  next
    case False
    then show thesis using that [of kv1] kv1 loop by (simp add: create_all_def)
  qed
qed

section \<open>Rounds of reservations\<close>

text \<open>The blocks sequence \<open>j\<close> has after \<open>k\<close> full rounds and the first \<open>i\<close> sequences of the next one.\<close>

definition taken :: "(nat \<Rightarrow> nat) \<Rightarrow> nat \<Rightarrow> nat \<Rightarrow> nat \<Rightarrow> nat" where
  "taken b k i j = min (b j) (k + (if j < i then 1 else 0))"

lemma taken_skip: "b i \<le> k \<Longrightarrow> taken b k (Suc i) = taken b k i"
  by (auto simp: taken_def fun_eq_iff less_Suc_eq)

lemma taken_step: "k < b i \<Longrightarrow> taken b k (Suc i) = (taken b k i)(i := Suc (taken b k i i))"
  by (auto simp: taken_def fun_eq_iff less_Suc_eq)

lemma taken_round: "j < n \<Longrightarrow> taken b k n j = taken b (Suc k) 0 j"
  by (simp add: taken_def)

lemma sum_taken_step:
  assumes "k < b i" and "i < (n :: nat)"
  shows "sum (taken b k (Suc i)) {..<n} = Suc (sum (taken b k i) {..<n})" and "sum (taken b k i) {..<n} < sum b {..<n}"
proof -
  have "sum ((taken b k i)(i := v)) {..<n} = v + sum (taken b k i) ({..<n} - {i})" for v
    using assms(2) by (subst sum.remove [of _ i]) simp_all
  moreover have "sum (taken b k i) {..<n} = taken b k i i + sum (taken b k i) ({..<n} - {i})"
    using assms(2) by (intro sum.remove) simp_all
  ultimately show "sum (taken b k (Suc i)) {..<n} = Suc (sum (taken b k i) {..<n})" using taken_step [of k b i] assms(1) by simp
  show "sum (taken b k i) {..<n} < sum b {..<n}"
    by (rule sum_strict_mono_ex1) (use assms in \<open>auto simp: taken_def intro!: bexI [of _ i]\<close>)
qed

definition blocks_of :: "'f Scenario \<Rightarrow> nat \<Rightarrow> nat" where
  "blocks_of sc i = unat (blocks_per_seq sc ! i)"

definition frame_width :: "'f Scenario \<Rightarrow> nat" where
  "frame_width sc = (if sc_scatter sc then 2 else 1)"

text \<open>The state of the reservations: the free frames are the lowest ones, and when scattering every frame of a
  sequence of the batch is odd.\<close>

definition reserved :: "'f Scenario \<Rightarrow> KVCacheManager \<Rightarrow> (nat \<Rightarrow> nat) \<Rightarrow> KVCacheManager \<Rightarrow> bool" where
  "reserved sc kv0 have kv \<longleftrightarrow>
     (let n = length (sc_context_lens sc) in
      setup_ok kv0 kv
      \<and> free_list (allocator kv) = map of_nat [0..<frame_width sc * (sum (blocks_of sc) {..<n} - sum have {..<n})]
      \<and> (\<forall>j<n. \<exists>ps. seq_frames kv (sequence_id j) ps \<and> length ps = have j \<and> (sc_scatter sc \<longrightarrow> (\<forall>p\<in>set ps. odd (unat p))))
      \<and> (sc_scatter sc \<longrightarrow> (\<exists>ps. seq_frames kv kSpacerSequence ps \<and> length ps = sum have {..<n})))"

lemma reserved_cong:
  "(\<And>j. j < length (sc_context_lens sc) \<Longrightarrow> have j = have' j) \<Longrightarrow> reserved sc kv0 have kv = reserved sc kv0 have' kv"
  unfolding reserved_def Let_def by (simp cong: sum.cong_simp)

text \<open>What the pool has to be for the reservations of a scenario.\<close>

definition setup_env :: "'f Scenario \<Rightarrow> KVCacheManager \<Rightarrow> bool" where
  "setup_env sc kv0 \<longleftrightarrow>
     length (sc_context_lens sc) < 9999 \<and> table_count kv0 = 1
     \<and> kv_tokens_per_block kv0 = sc_tokens_per_block sc \<and> sc_tokens_per_block sc \<noteq> 0 \<and> unat (sc_tokens_per_block sc) \<le> 2147483648
     \<and> frame_width sc * sum (blocks_of sc) {..<length (sc_context_lens sc)} < 4294967296"

lemma reserve_round_ok:
  assumes env: "setup_env sc kv0" and i: "i < length (sc_context_lens sc)" and res: "reserved sc kv0 (taken (blocks_of sc) k i) kv"
  shows "\<exists>kv'. reserve_round sc k kv i = Inr kv' \<and> reserved sc kv0 (taken (blocks_of sc) k (Suc i)) kv'"
proof (cases "k < blocks_of sc i")
  case False
  then show ?thesis using res taken_skip [of "blocks_of sc" i k] by (simp add: reserve_round_def blocks_of_def)
next
  case True
  let ?n = "length (sc_context_lens sc)" and ?b = "blocks_of sc" and ?g = "taken (blocks_of sc) k i" and ?sid = "sequence_id i"
  let ?B = "sum (blocks_of sc) {..<length (sc_context_lens sc)}" and ?G = "sum (taken (blocks_of sc) k i) {..<length (sc_context_lens sc)}"
  note G = sum_taken_step [of k "blocks_of sc" i, OF True i]
  obtain r where r: "?B - ?G = Suc r" using G(2) by (metis Suc_diff_Suc)
  have env': "table_count kv0 = 1" "kv_tokens_per_block kv0 = sc_tokens_per_block sc" "sc_tokens_per_block sc \<noteq> 0"
    "unat (sc_tokens_per_block sc) \<le> 2147483648" "?n < 9999" "frame_width sc * ?B < 4294967296"
    using env by (simp_all add: setup_env_def)
  have ok: "setup_ok kv0 kv" and free: "free_list (allocator kv) = map of_nat [0..<frame_width sc * Suc r]"
    and seqs: "\<And>j. j < ?n \<Longrightarrow> \<exists>ps. seq_frames kv (sequence_id j) ps \<and> length ps = ?g j \<and> (sc_scatter sc \<longrightarrow> (\<forall>p\<in>set ps. odd (unat p)))"
    and spacer: "sc_scatter sc \<Longrightarrow> \<exists>ps. seq_frames kv kSpacerSequence ps \<and> length ps = ?G"
    using res r by (simp_all add: reserved_def Let_def)
  obtain ps where ps: "seq_frames kv ?sid ps" "length ps = ?g i" "sc_scatter sc \<Longrightarrow> \<forall>p\<in>set ps. odd (unat p)" using seqs [OF i] by blast
  have "?B \<le> frame_width sc * ?B" by (simp add: frame_width_def)
  then have "?B < 4294967296" using env'(6) by (rule le_less_trans)
  moreover have "?g i \<le> ?G" using i by (intro member_le_sum) simp_all
  ultimately have small: "length ps + 1 < 4294967296" "?G + 1 < 4294967296" using G(2) ps(2) by linarith+
  obtain m where m: "frame_width sc * Suc r = Suc m" "m = frame_width sc * r + (frame_width sc - 1)" by (cases "sc_scatter sc") (auto simp: frame_width_def)
  from setup_take [OF ok env'(1-4) ps(1) small(1) free [unfolded m(1)], of "''reserve_tokens failed''"]
  obtain kv1 where kv1: "required ''reserve_tokens failed'' (reserve_tokens kv ?sid (sc_tokens_per_block sc)) = Inr kv1" "setup_ok kv0 kv1"
    "free_list (allocator kv1) = map of_nat [0..<m]" "seq_frames kv1 ?sid (ps @ [of_nat m])"
    "\<And>other. other \<noteq> ?sid \<Longrightarrow> sequences kv1 other = sequences kv other" by metis
  have other: "sequence_id j \<noteq> ?sid" if "j < ?n" "j \<noteq> i" for j using sequence_id_inj [of j i] that i env'(5) by simp
  have rest: "?B - sum (taken ?b k (Suc i)) {..<?n} = r" using r G(1) by simp
  have have': "taken ?b k (Suc i) i = Suc (?g i)" "j \<noteq> i \<Longrightarrow> taken ?b k (Suc i) j = ?g j" for j using taken_step [of k ?b i] True by simp_all
  show ?thesis
  proof (cases "sc_scatter sc")
    case False
    have "\<exists>ps. seq_frames kv1 (sequence_id j) ps \<and> length ps = taken ?b k (Suc i) j" if "j < ?n" for j
    proof (cases "j = i")
      case True
      then show ?thesis using kv1(4) ps(2) have'(1) by (metis length_append_singleton)
    next
      case False
      then show ?thesis using seqs [OF that] seq_frames_cong [OF kv1(5) [OF other [OF that]]] have'(2) by metis
    qed
    then have "reserved sc kv0 (taken ?b k (Suc i)) kv1"
      using kv1(2,3) rest m False by (simp add: reserved_def Let_def frame_width_def)
    then show ?thesis using kv1(1) False True by (simp add: reserve_round_def blocks_of_def)
  next
    case scatter: True
    have m2: "m = Suc (2 * r)" using m(2) scatter by (simp add: frame_width_def)
    have away: "sequence_id j \<noteq> kSpacerSequence" if "j < ?n" for j using sequence_id_spacer [of j] that env'(5) by simp
    obtain sp where sp: "seq_frames kv kSpacerSequence sp" "length sp = ?G" using spacer scatter by blast
    have sp1: "seq_frames kv1 kSpacerSequence sp" using sp(1) seq_frames_cong [OF kv1(5)] away [OF i] by metis
    from setup_take [OF kv1(2) env'(1-4) sp1 _ kv1(3) [unfolded m2], of "''reserve spacer tokens failed''"] small(2) sp(2)
    obtain kv2 where kv2: "required ''reserve spacer tokens failed'' (reserve_tokens kv1 kSpacerSequence (sc_tokens_per_block sc)) = Inr kv2"
      "setup_ok kv0 kv2" "free_list (allocator kv2) = map of_nat [0..<2 * r]" "seq_frames kv2 kSpacerSequence (sp @ [of_nat (2 * r)])"
      "\<And>other. other \<noteq> kSpacerSequence \<Longrightarrow> sequences kv2 other = sequences kv1 other" by metis
    have "r < ?B" using r by simp
    then have "m < 4294967296" using env'(6) scatter m2 by (simp add: frame_width_def)
    then have "unat (of_nat m :: u32) = m" by (rule unat_of_nat_u32)
    then have odd_m: "odd (unat (of_nat m :: u32))" using m2 by simp
    have "\<exists>ps. seq_frames kv2 (sequence_id j) ps \<and> length ps = taken ?b k (Suc i) j \<and> (\<forall>p\<in>set ps. odd (unat p))" if j: "j < ?n" for j
    proof (cases "j = i")
      case True
      have "seq_frames kv2 ?sid (ps @ [of_nat m])" using kv1(4) seq_frames_cong [OF kv2(5) [OF away [OF i]]] by simp
      then show ?thesis using True ps(2) ps(3) [OF scatter] have'(1) odd_m by (intro exI [of _ "ps @ [of_nat m]"]) simp
    next
      case False
      have "seq_frames kv2 (sequence_id j) = seq_frames kv (sequence_id j)"
        using seq_frames_cong [OF kv2(5) [OF away [OF j]]] seq_frames_cong [OF kv1(5) [OF other [OF j False]]] by simp
      then show ?thesis using seqs [OF j] scatter have'(2) [OF False] by simp
    qed
    then have "reserved sc kv0 (taken ?b k (Suc i)) kv2"
      using kv2(2-4) rest scatter sp(2) G(1) by (auto simp: reserved_def Let_def frame_width_def intro!: exI [of _ "sp @ [of_nat (2 * r)]"])
    then show ?thesis using kv1(1) kv2(1) scatter True by (simp add: reserve_round_def blocks_of_def)
  qed
qed

lemma reserve_all_ok:
  assumes env: "setup_env sc kv0" and res: "reserved sc kv0 (\<lambda>_. 0) kv"
  obtains kv' where "reserve_all sc kv = Inr kv'" and "reserved sc kv0 (blocks_of sc) kv'"
proof -
  let ?n = "length (sc_context_lens sc)" and ?b = "blocks_of sc" and ?K = "unat (foldl max 0 (blocks_per_seq sc))"
  have start: "reserved sc kv0 (taken ?b 0 0) kv" using res by (simp add: taken_def reserved_def)
  have step: "\<exists>s'. try_loop (reserve_round sc k) [0..<?n] kv = Inr s' \<and> reserved sc kv0 (taken ?b (Suc k) 0) s'"
    if "k < ?K" and "reserved sc kv0 (taken ?b k 0) kv" for k kv
  proof -
    have "\<exists>kv'. try_loop (reserve_round sc k) [0..<?n] kv = Inr kv' \<and> reserved sc kv0 (taken ?b k ?n) kv'"
      by (rule try_loop_range [where I = "\<lambda>i. reserved sc kv0 (taken ?b k i)"]) (fact that(2), rule reserve_round_ok [OF env])
    then obtain kv' where kv': "try_loop (reserve_round sc k) [0..<?n] kv = Inr kv'" "reserved sc kv0 (taken ?b k ?n) kv'" by blast
    have "reserved sc kv0 (taken ?b k ?n) kv' = reserved sc kv0 (taken ?b (Suc k) 0) kv'" by (rule reserved_cong) (rule taken_round)
    then show ?thesis using kv' by simp
  qed
  have "\<exists>kv'. reserve_all sc kv = Inr kv' \<and> reserved sc kv0 (taken ?b ?K 0) kv'"
    unfolding reserve_all_def by (rule try_loop_range [where I = "\<lambda>k. reserved sc kv0 (taken ?b k 0)"]) (fact start, rule step)
  then obtain kv' where kv': "reserve_all sc kv = Inr kv'" "reserved sc kv0 (taken ?b ?K 0) kv'" by blast
  have "taken ?b ?K 0 j = ?b j" if "j < ?n" for j
  proof -
    have "blocks_per_seq sc ! j \<in> set (blocks_per_seq sc)" using that by (simp add: blocks_per_seq_def)
    then have "blocks_per_seq sc ! j \<le> foldl max 0 (blocks_per_seq sc)" using foldl_max_bound by blast
    then show ?thesis by (simp add: taken_def blocks_of_def word_le_nat_alt min_absorb1)
  qed
  then have "reserved sc kv0 (taken ?b ?K 0) kv' = reserved sc kv0 ?b kv'" by (rule reserved_cong)
  then show thesis using that [OF kv'(1)] kv'(2) by blast
qed

end
