(* ===== verification/GoldenProps.thy ===== *)
theory GoldenProps
  imports GoldenScenario
begin

text \<open>
  Exporting a scenario succeeds: with a slab of the right size every check of the exporter passes, and the
  files hold the textbook attention of the pattern, the pattern itself at the addresses the block table and
  the strides give, and the frames that were mapped.
\<close>

section \<open>From the reservations to the filled batch\<close>

definition laid_out :: "'f Scenario \<Rightarrow> KVCacheManager \<Rightarrow> (nat \<Rightarrow> PhysicalBlockId list) \<Rightarrow> KVCacheManager \<Rightarrow> bool" where
  "laid_out sc kv0 frames kv \<longleftrightarrow>
     setup_ok kv0 kv
     \<and> (\<forall>i<length (sc_context_lens sc). seq_frames kv (sequence_id i) (frames i) \<and> length (frames i) = blocks_of sc i
          \<and> (sc_scatter sc \<longrightarrow> (\<forall>p\<in>set (frames i). odd (unat p))))"

lemma release_spacer_ok:
  assumes env: "setup_env sc kv0" and res: "reserved sc kv0 (blocks_of sc) kv"
  obtains frames where "laid_out sc kv0 frames (if sc_scatter sc then release_sequence kv kSpacerSequence else kv)"
proof -
  let ?n = "length (sc_context_lens sc)" and ?kv = "if sc_scatter sc then release_sequence kv kSpacerSequence else kv"
  have ok: "setup_ok kv0 kv" using res by (simp add: reserved_def Let_def)
  have "\<forall>j<?n. \<exists>ps. seq_frames kv (sequence_id j) ps \<and> length ps = blocks_of sc j \<and> (sc_scatter sc \<longrightarrow> (\<forall>p\<in>set ps. odd (unat p)))"
    using res by (simp add: reserved_def Let_def)
  then obtain frames where frames: "\<And>j. j < ?n \<Longrightarrow> seq_frames kv (sequence_id j) (frames j) \<and> length (frames j) = blocks_of sc j
      \<and> (sc_scatter sc \<longrightarrow> (\<forall>p\<in>set (frames j). odd (unat p)))" by metis
  show thesis
  proof (cases "sc_scatter sc")
    case True
    obtain sp where sp: "seq_frames kv kSpacerSequence sp" using res True by (auto simp: reserved_def Let_def)
    have pre: "kv_inv kv" "table_count kv = 1" "\<forall>p\<in>set sp. ref_of (allocator kv) p \<le> 1" "prefix_index kv = Map.empty"
      using ok env setup_ok_shape [OF ok] by (simp_all add: setup_ok_def unshared_def setup_env_def)
    note rel = release_plain [OF pre(1,2) sp pre(3,4)]
    have "unshared kv" using ok by (simp add: setup_ok_def)
    then have "unshared (release_sequence kv kSpacerSequence)" unfolding unshared_def by (blast intro: order_trans [OF rel(6)])
    then have "setup_ok kv0 ?kv" using True rel(1,2,7) ok by (simp add: setup_ok_def)
    moreover have "seq_frames ?kv (sequence_id j) = seq_frames kv (sequence_id j)" if "j < ?n" for j
    proof (rule seq_frames_cong)
      have "sequence_id j \<noteq> kSpacerSequence" using sequence_id_spacer [of j] that env by (simp add: setup_env_def)
      then show "sequences ?kv (sequence_id j) = sequences kv (sequence_id j)" using True rel(3) by simp
    qed
    ultimately show thesis using that [of frames] frames by (simp add: laid_out_def)
  next
    case False
    then show thesis using that [of frames] frames ok by (simp add: laid_out_def)
  qed
qed

lemma fill_all_ok:
  fixes sc :: "'f Scenario"
  defines "shape \<equiv> scenario_shape sc" and "l \<equiv> \<lparr>kvl_shape = scenario_shape sc\<rparr>" and "n \<equiv> length (sc_context_lens sc)"
  assumes F: "float_ok F" and inv: "kv_inv kv0" and fenv: "fill_env l kv0" and pos: "0 < capacity (allocator kv0)"
    and n: "n < 9999" and out: "laid_out sc kv0 frames kv"
    and ctx: "\<And>i t. i < n \<Longrightarrow> t < sc_context_lens sc ! i \<Longrightarrow> unat (t div sc_tokens_per_block sc) < blocks_of sc i"
  shows "\<exists>kv'. fill_all F sc kv = Inr kv' \<and> laid_out sc kv0 frames kv'
    \<and> (\<forall>i<n. holds_pattern F l (of_nat i) (sc_context_lens sc ! i) kv' (sequence_id i))"
proof -
  have layers: "frame_layers (kvl_shape l) = num_layers (kvl_shape l)" and tpb: "tokens_per_block (kvl_shape l) = sc_tokens_per_block sc"
    by (simp_all add: l_def frame_layers_def scenario_shape_def)
  let ?I = "\<lambda>i kv. laid_out sc kv0 frames kv \<and> (\<forall>j<i. holds_pattern F l (of_nat j) (sc_context_lens sc ! j) kv (sequence_id j))"
  have "\<exists>kv'. fill_all F sc kv = Inr kv' \<and> ?I n kv'"
    unfolding fill_all_def n_def [symmetric]
  proof (rule try_loop_range [where I = ?I])
    show "?I 0 kv" using out by simp
  next
    fix i kv1
    assume i: "i < n" and I: "?I i kv1"
    have ok: "setup_ok kv0 kv1" and ps: "seq_frames kv1 (sequence_id i) (frames i)" "length (frames i) = blocks_of sc i"
      using I i by (simp_all add: laid_out_def n_def)
    have inv1: "kv_inv kv1" and none: "shared_entries (allocator kv1) (first_entries kv1 (sequence_id i)) = 0"
      using ok unshared_entries by (simp_all add: setup_ok_def)
    have env1: "fill_env l kv1" using fill_env_layout [OF fenv inv inv1 _ pos] ok by (simp add: setup_ok_def)
    have pos1: "0 < capacity (allocator kv1)" using pos setup_ok_shape(3) [OF ok] by simp
    have free: "shared_entries (allocator kv1) (first_entries kv1 (sequence_id i)) \<le> length (free_list (allocator kv1))" using none by simp
    have blocks: "unat (t div tokens_per_block (kvl_shape l)) < length (frames i)" if "t < sc_context_lens sc ! i" for t
      using ctx [OF i that] ps(2) tpb by simp
    from fill_plain [where salt = "of_nat i", OF F env1 inv1 ps(1) free blocks pos1 layers] none
    obtain kv2 where kv2: "fill_sequence F (kvl_shape l) l kv1 (sequence_id i) (of_nat i) (sc_context_lens sc ! i) = Inr kv2" "kv_inv kv2"
      "kv_layout kv2 = kv_layout kv1" "prefix_view kv2 = prefix_view kv1"
      "holds_pattern F l (of_nat i) (sc_context_lens sc ! i) kv2 (sequence_id i)" "seq_frames kv2 (sequence_id i) (frames i)"
      "\<And>other. other \<noteq> sequence_id i \<Longrightarrow> sequences kv2 other = sequences kv1 other \<and> kv_view kv2 other = kv_view kv1 other"
      "\<And>q. ref_of (allocator kv2) q \<le> max 1 (ref_of (allocator kv1) q)" by metis
    have "unshared kv2" by (rule unshared_mono [OF _ kv2(8)]) (use ok in \<open>simp add: setup_ok_def\<close>)
    then have ok2: "setup_ok kv0 kv2" using ok kv2(2-4) prefix_view_empty by (simp add: setup_ok_def) metis
    have other: "sequence_id j \<noteq> sequence_id i" if "j < n" "j \<noteq> i" for j using sequence_id_inj [of j i] that i n by simp
    have "seq_frames kv2 (sequence_id j) (frames j)" if "j < n" for j
      using kv2(6,7) other [OF that] seq_frames_cong [of kv2 "sequence_id j" kv1] I that by (cases "j = i") (simp_all add: laid_out_def n_def)
    then have "laid_out sc kv0 frames kv2" using ok2 I by (simp add: laid_out_def n_def)
    moreover have "holds_pattern F l (of_nat j) (sc_context_lens sc ! j) kv2 (sequence_id j)" if j: "j < Suc i" for j
    proof (cases "j = i")
      case False
      then have "sequence_id j \<noteq> sequence_id i" "j < i" using other j i by simp_all
      then show ?thesis using I holds_pattern_cong [of kv2 "sequence_id j" kv1 F l] kv2(7) by simp
    qed (simp add: kv2(5))
    ultimately show "\<exists>s'. fill_sequence F (scenario_shape sc) \<lparr>kvl_shape = scenario_shape sc\<rparr> kv1 (sequence_id i) (of_nat i) (sc_context_lens sc ! i) = Inr s'
        \<and> ?I (Suc i) s'" using kv2(1) by (auto simp: l_def)
  qed
  then show ?thesis by blast
qed

section \<open>The fresh pool\<close>

text \<open>A slab of the size the allocator asks for.\<close>

definition slab_for :: "AllocatorConfig \<Rightarrow> u8 list \<Rightarrow> bool" where
  "slab_for cfg slab \<longleftrightarrow>
     length slab = unat (block_stride_for cfg) * unat (max_blocks cfg)
     \<and> unat (block_stride_for cfg) * unat (max_blocks cfg) < 18446744073709551616"

text \<open>A shape whose frames hold its elements without wrap-around.\<close>

definition shape_ok :: "BlockShape \<Rightarrow> bool" where
  "shape_ok shape \<longleftrightarrow>
     tokens_per_block shape \<noteq> 0 \<and> num_layers shape \<noteq> 0 \<and> num_kv_heads shape \<noteq> 0 \<and> head_dim shape \<noteq> 0
     \<and> bytes_per_element shape = 4 \<and> layers_per_frame shape = 0
     \<and> layout_elements \<lparr>kvl_shape = shape\<rparr> * 4 + 256 \<le> 18446744073709551616"

lemma layout_elements_pos:
  "shape_ok shape \<Longrightarrow> 0 < layout_elements \<lparr>kvl_shape = shape\<rparr>"
  by (simp add: layout_elements_def shape_ok_def frame_layers_def unat_gt_0)

lemma exporter_pool:
  assumes shape: "shape_ok (scenario_shape sc)" and n: "n \<noteq> 0" and slab: "slab_for (exporter_config sc n) slab"
  defines "al \<equiv> MemoryAllocator_new (exporter_config sc n) (Some slab)"
  shows "alloc_inv al" and "alloc_refs al = {#}" and "slots_of al = {#}" and "capacity al = unat n"
    and "free_list al = map of_nat [0..<unat n]" and "\<And>p. ref_of al p = 0"
    and "layout_elements \<lparr>kvl_shape = scenario_shape sc\<rparr> * 4 \<le> unat (block_stride_bytes al)"
    and "al_block al 0 = Some b \<Longrightarrow> pb_shape b = scenario_shape sc" and "al_block al 0 \<noteq> None"
proof -
  let ?cfg = "exporter_config sc n" and ?l = "\<lparr>kvl_shape = scenario_shape sc\<rparr>"
  have cfg: "max_blocks ?cfg = n" "block_shape ?cfg = scenario_shape sc" "unat (effective_alignment ?cfg) = 256"
    by (simp_all add: exporter_config_def effective_alignment_def kDefaultBlockAlignmentBytes_def)
  have elems: "unat (tokens_per_block (scenario_shape sc)) * unat (frame_layers (scenario_shape sc)) * unat (num_kv_heads (scenario_shape sc))
      * unat (head_dim (scenario_shape sc)) * unat (bytes_per_element (scenario_shape sc)) * 2 = layout_elements ?l * 4"
    using shape by (simp add: layout_elements_def shape_ok_def)
  then have bytes: "unat (byte_size (scenario_shape sc)) = layout_elements ?l * 4"
    using shape byte_size_unat [of "scenario_shape sc"] by (simp add: shape_ok_def)
  have "unat (byte_size (block_shape ?cfg)) + unat (effective_alignment ?cfg) \<le> 18446744073709551616"
    using shape bytes cfg by (simp add: shape_ok_def)
  note stride = block_stride_spec [OF this]
  have ne: "slab \<noteq> []" using slab stride(3) n cfg(1) by (auto simp: slab_for_def)
  have slab': "length slab = unat (block_stride_for ?cfg) * unat (max_blocks ?cfg)"
    "unat (block_stride_for ?cfg) * unat (max_blocks ?cfg) < 18446744073709551616" using slab by (simp_all add: slab_for_def)
  note new = MemoryAllocator_new_inv [OF slab' ne]
  show inv: "alloc_inv al" "alloc_refs al = {#}" using new by (simp_all add: al_def)
  have fields: "config al = ?cfg" "al_swap_backend al = None" "block_stride_bytes al = block_stride_for ?cfg"
    "free_list al = map of_nat [0..<unat n]" "infos al = map free_info [0..<unat n]"
    by (simp_all add: al_def MemoryAllocator_new_def Let_def bind_frames_def unbound_allocator_def cfg split: option.split)
  show "slots_of al = {#}" using fields(2) by (simp add: slots_of_def swapped_def)
  show "capacity al = unat n" "free_list al = map of_nat [0..<unat n]" using fields by (simp_all add: capacity_def)
  show "ref_of al p = 0" for p using fields(5) by (simp add: ref_of_def free_info_def)
  show "layout_elements ?l * 4 \<le> unat (block_stride_bytes al)" using stride(2) bytes cfg(2) fields(3) by simp
  have blocks: "blocks al = map (bind_frame ?cfg (block_stride_bytes al) (Some 0)) [0..<unat n]"
    using inv(1) fields(1) cfg(1) by (simp add: alloc_inv_def memory_inv_def Let_def)
  have "0 < unat n" using n by (simp add: unat_gt_0)
  then show "al_block al 0 \<noteq> None" and "al_block al 0 = Some b \<Longrightarrow> pb_shape b = scenario_shape sc"
    unfolding al_block_def blocks using cfg(2) by (auto simp: bind_frame_def Let_def split: if_splits)
qed

text \<open>The cache over the fresh pool, whatever bytes were written to it first.\<close>

lemma exporter_cache:
  assumes shape: "shape_ok (scenario_shape sc)" and n: "n \<noteq> 0" and slab: "slab_for (exporter_config sc n) slab"
  defines "al \<equiv> MemoryAllocator_new (exporter_config sc n) (Some slab)"
  assumes inv: "alloc_inv (al\<lparr>pool := bytes\<rparr>)"
  defines "kv \<equiv> (KVCacheManager_new al)\<lparr>allocator := al\<lparr>pool := bytes\<rparr>\<rparr>"
  shows "setup_ok kv kv" and "sequences kv = Map.empty" and "free_list (allocator kv) = map of_nat [0..<unat n]"
    and "capacity (allocator kv) = unat n" and "fill_env \<lparr>kvl_shape = scenario_shape sc\<rparr> kv" and "table_count kv = 1"
    and "kv_tokens_per_block kv = sc_tokens_per_block sc"
proof -
  let ?l = "\<lparr>kvl_shape = scenario_shape sc\<rparr>"
  note al = exporter_pool [OF shape n slab, folded al_def]
  have kv: "kv = KVCacheManager_new (al\<lparr>pool := bytes\<rparr>)" by (simp add: kv_def KVCacheManager_new_def)
  have "alloc_refs (al\<lparr>pool := bytes\<rparr>) = {#}" "slots_of (al\<lparr>pool := bytes\<rparr>) = {#}"
    using al(2,3) by (simp_all add: alloc_refs_def slots_of_def swapped_def)
  then have "kv_inv kv" unfolding kv using inv by (intro KVCacheManager_new_inv)
  then show "setup_ok kv kv" using al(6) by (simp add: setup_ok_def unshared_def kv KVCacheManager_new_def ref_of_def)
  show "sequences kv = Map.empty" "free_list (allocator kv) = map of_nat [0..<unat n]" "capacity (allocator kv) = unat n"
    using al(4,5) by (simp_all add: kv KVCacheManager_new_def capacity_def)
  obtain b where b: "al_block al 0 = Some b" "pb_shape b = scenario_shape sc" using al(8,9) by blast
  then have pool_shape: "pool_shape kv = scenario_shape sc"
    by (auto simp: kv KVCacheManager_new_def pool_shape_def al_block_def split: if_splits)
  have whole: "\<not> per_layer_frames (scenario_shape sc)" by (auto simp: per_layer_frames_def frame_layers_def scenario_shape_def)
  have fits: "layout_fits ?l" using shape by (simp add: layout_fits_def shape_ok_def)
  have "0 < unat (element_count ?l)" using unat_element_count [OF fits] layout_elements_pos [OF shape] by simp
  then show env: "fill_env ?l kv"
    using fits pool_shape whole al(7) by (simp add: fill_env_def kv KVCacheManager_new_def unat_gt_0 word_gt_0)
  show "table_count kv = 1" using whole pool_shape by (simp add: table_count_def)
  show "kv_tokens_per_block kv = sc_tokens_per_block sc" using fill_env_tpb [OF env] by (simp add: scenario_shape_def)
qed

section \<open>Exporting a scenario\<close>

definition scenario_ok :: "'f Scenario \<Rightarrow> bool" where
  "scenario_ok sc \<longleftrightarrow>
     sc_context_lens sc \<noteq> [] \<and> length (sc_context_lens sc) < 9999
     \<and> shape_ok (scenario_shape sc) \<and> heads_ok sc (scenario_shape sc) \<and> scalars_fit sc (scenario_shape sc)
     \<and> unat (sc_tokens_per_block sc) \<le> 2147483648
     \<and> list_all (\<lambda>ctx. ctx \<noteq> 0 \<and> unat ctx + unat (sc_tokens_per_block sc) \<le> 4294967296
          \<and> (sc_scatter sc \<longrightarrow> sc_tokens_per_block sc < ctx)) (sc_context_lens sc)
     \<and> frame_width sc * sum_list (map unat (blocks_per_seq sc)) < 4294967296"

lemma token_block_lt:
  assumes "tpb \<noteq> 0" and "t < (ctx :: u32)"
  shows "unat (t div tpb) < blocks_for tpb ctx"
proof -
  let ?T = "unat tpb"
  have T: "0 < ?T" using assms(1) by (simp add: unat_gt_0)
  have "unat t < unat ctx" using assms(2) by (simp add: word_less_nat_alt)
  then have "(unat t + ?T) div ?T \<le> (unat ctx + ?T - 1) div ?T" by (intro div_le_mono) simp
  moreover have "(unat t + ?T) div ?T = Suc (unat t div ?T)" using div_add_self2 [of ?T "unat t"] T by linarith
  ultimately show ?thesis by (simp add: blocks_for_def unat_div)
qed

lemma blocks_of_eq:
  assumes "scenario_ok sc" and "i < length (sc_context_lens sc)"
  shows "blocks_of sc i = blocks_for (sc_tokens_per_block sc) (sc_context_lens sc ! i)"
    and "t < sc_context_lens sc ! i \<Longrightarrow> unat (t div sc_tokens_per_block sc) < blocks_of sc i"
    and "sc_scatter sc \<Longrightarrow> 2 \<le> blocks_of sc i"
proof -
  let ?T = "unat (sc_tokens_per_block sc)" and ?c = "unat (sc_context_lens sc ! i)"
  have tpb: "sc_tokens_per_block sc \<noteq> 0" using assms(1) by (simp add: scenario_ok_def shape_ok_def scenario_shape_def)
  then have T: "0 < ?T" by (simp add: unat_gt_0)
  have c: "?c + ?T \<le> 4294967296" "sc_scatter sc \<Longrightarrow> ?T < ?c"
    using assms by (auto simp: scenario_ok_def list_all_length word_less_nat_alt)
  show eq: "blocks_of sc i = blocks_for (sc_tokens_per_block sc) (sc_context_lens sc ! i)"
    using blocks_for_word [OF tpb c(1)] assms(2) by (simp add: blocks_of_def blocks_per_seq_def)
  show "unat (t div sc_tokens_per_block sc) < blocks_of sc i" if "t < sc_context_lens sc ! i"
    using token_block_lt [OF tpb that] eq by simp
  show "2 \<le> blocks_of sc i" if "sc_scatter sc"
  proof -
    have "2 * ?T \<le> ?c + ?T - 1" using c(2) that by simp
    then have "2 * ?T div ?T \<le> (?c + ?T - 1) div ?T" by (rule div_le_mono)
    then show ?thesis using T by (simp add: eq blocks_for_def)
  qed
qed

lemma unat_sum_list_u32:
  "sum_list (map unat ws) < 4294967296 \<Longrightarrow> unat (sum_list (ws :: u32 list)) = sum_list (map unat ws)"
proof (induction ws)
  case (Cons w ws)
  then have "unat (sum_list ws) = sum_list (map unat ws)" "unat w + sum_list (map unat ws) < 4294967296" by simp_all
  then show ?case by (simp add: unat_word_ariths)
qed simp

lemma scenario_pool_size:
  assumes "scenario_ok sc"
  shows "unat (scenario_pool_blocks sc) = frame_width sc * sum (blocks_of sc) {..<length (sc_context_lens sc)}"
    and "scenario_pool_blocks sc \<noteq> 0"
proof -
  let ?bs = "blocks_per_seq sc" and ?S = "sum_list (map unat (blocks_per_seq sc))"
  have lt: "frame_width sc * ?S < 4294967296" using assms by (simp add: scenario_ok_def)
  then have "?S < 4294967296" by (simp add: frame_width_def split: if_splits)
  from unat_sum_list_u32 [OF this] lt have pool: "unat (scenario_pool_blocks sc) = frame_width sc * ?S"
    by (auto simp: scenario_pool_blocks_def frame_width_def unat_word_ariths split: if_splits)
  have len: "length ?bs = length (sc_context_lens sc)" by (simp add: blocks_per_seq_def)
  have sum: "?S = sum (blocks_of sc) {..<length (sc_context_lens sc)}"
    unfolding sum_list_sum_nth by (simp add: len blocks_of_def atLeast0LessThan)
  then show "unat (scenario_pool_blocks sc) = frame_width sc * sum (blocks_of sc) {..<length (sc_context_lens sc)}" using pool by simp
  have zero: "0 < length (sc_context_lens sc)" using assms by (simp add: scenario_ok_def)
  have "sc_context_lens sc ! 0 \<noteq> 0" using assms zero by (auto simp: scenario_ok_def list_all_length)
  then have "0 < blocks_of sc 0" using blocks_of_eq(2) [OF assms zero, of 0] by (simp add: word_gt_0)
  then have "0 < sum (blocks_of sc) {..<length (sc_context_lens sc)}" using zero by (intro sum_pos2 [of _ 0]) simp_all
  then show "scenario_pool_blocks sc \<noteq> 0" using pool sum by (auto simp: frame_width_def split: if_splits)
qed

text \<open>What an export of a scenario gives: the files of a fixture in which every sequence has the frames its context
  needs and the exported pool holds the pattern where the block table and the strides say.\<close>

definition reads_pattern :: "'f floats \<Rightarrow> 'f Scenario \<Rightarrow> u8 list \<Rightarrow> (nat \<Rightarrow> PhysicalBlockId list) \<Rightarrow> nat \<Rightarrow> bool" where
  "reads_pattern F sc bytes frames i \<longleftrightarrow>
     (let l = \<lparr>kvl_shape = scenario_shape sc\<rparr> in
      \<forall>layer stream token head d off.
        token < sc_context_lens sc ! i \<longrightarrow> d < unat (sc_head_dim sc) \<longrightarrow>
        element_offset l layer stream (token mod sc_tokens_per_block sc) head = Some off \<longrightarrow>
        element (unat (frames i ! unat (token div sc_tokens_per_block sc)) * layout_elements l + unat off + d) bytes
          = float_bytes F (cache_value F (of_nat i) layer stream token head (of_nat d)))"

lemma export_scenario_files:
  assumes F: "float_ok F" and sc: "scenario_ok sc" and slab: "slab_for (exporter_config sc (scenario_pool_blocks sc)) slab"
    and checks: "\<forall>i<length (sc_context_lens sc). self_checks F sc (scenario_shape sc) i"
  shows "\<exists>bytes frames.
      export_scenario F (Some slab) sc
        = Inr (fixture_files F sc (scenario_shape sc) bytes (scenario_pool_blocks sc) (foldl max 0 (blocks_per_seq sc)) frames)
      \<and> (\<forall>i<length (sc_context_lens sc). reads_pattern F sc bytes frames i
           \<and> length (frames i) = blocks_for (sc_tokens_per_block sc) (sc_context_lens sc ! i))"
proof -
  let ?n = "length (sc_context_lens sc)" and ?shape = "scenario_shape sc" and ?l = "\<lparr>kvl_shape = scenario_shape sc\<rparr>"
  let ?P = "scenario_pool_blocks sc" and ?m = "foldl max 0 (blocks_per_seq sc)"
  let ?al = "MemoryAllocator_new (exporter_config sc ?P) (Some slab)"
  have ok: "shape_ok ?shape" "heads_ok sc ?shape" "scalars_fit sc ?shape" "?n < 9999" using sc by (simp_all add: scenario_ok_def)
  note size = scenario_pool_size [OF sc]
  note al = exporter_pool [OF ok(1) size(2) slab]
  obtain bytes where zero: "zero_frames ?P ?al = Inr (?al\<lparr>pool := bytes\<rparr>)" "alloc_inv (?al\<lparr>pool := bytes\<rparr>)"
    using zero_frames_ok [OF al(1)] al(4) by fastforce
  let ?kv0 = "(KVCacheManager_new ?al)\<lparr>allocator := ?al\<lparr>pool := bytes\<rparr>\<rparr>"
  note kv0 = exporter_cache [OF ok(1) size(2) slab zero(2)]
  have inv0: "kv_inv ?kv0" using kv0(1) by (simp add: setup_ok_def)
  have pos: "0 < capacity (allocator ?kv0)" using kv0(4) size(2) by (simp add: unat_gt_0)
  have env: "setup_env sc ?kv0"
    using kv0(6,7) sc size(1) unat_u32_lt [of ?P] by (simp add: setup_env_def scenario_ok_def shape_ok_def scenario_shape_def)
  obtain kv1 where kv1: "create_all sc ?kv0 = Inr kv1" "setup_ok ?kv0 kv1" "allocator kv1 = allocator ?kv0"
    "\<And>i. i < ?n \<Longrightarrow> seq_frames kv1 (sequence_id i) []" "sc_scatter sc \<Longrightarrow> seq_frames kv1 kSpacerSequence []"
    using create_all_ok [OF kv0(1,2) ok(4)] by metis
  have "reserved sc ?kv0 (\<lambda>_. 0) kv1" using kv1 kv0(3) size(1) by (simp add: reserved_def Let_def)
  then obtain kv2 where kv2: "reserve_all sc kv1 = Inr kv2" "reserved sc ?kv0 (blocks_of sc) kv2" using reserve_all_ok [OF env] by blast
  obtain frames where out: "laid_out sc ?kv0 frames (if sc_scatter sc then release_sequence kv2 kSpacerSequence else kv2)"
    using release_spacer_ok [OF env kv2(2)] by blast
  obtain kv3 where kv3: "fill_all F sc (if sc_scatter sc then release_sequence kv2 kSpacerSequence else kv2) = Inr kv3"
    "laid_out sc ?kv0 frames kv3" "\<And>i. i < ?n \<Longrightarrow> holds_pattern F ?l (of_nat i) (sc_context_lens sc ! i) kv3 (sequence_id i)"
    using fill_all_ok [OF F inv0 kv0(5) pos ok(4) out blocks_of_eq(2) [OF sc]] by blast
  have ok3: "setup_ok ?kv0 kv3" and seqs: "\<And>i. i < ?n \<Longrightarrow> seq_frames kv3 (sequence_id i) (frames i)"
    "\<And>i. i < ?n \<Longrightarrow> length (frames i) = blocks_of sc i" "\<And>i p. i < ?n \<Longrightarrow> sc_scatter sc \<Longrightarrow> p \<in> set (frames i) \<Longrightarrow> odd (unat p)"
    using kv3(2) by (auto simp: laid_out_def)
  then have inv3: "kv_inv kv3" and un: "unshared kv3" by (simp_all add: setup_ok_def)
  have env3: "fill_env ?l kv3" using fill_env_layout [OF kv0(5) inv0 inv3 _ pos] ok3 by (simp add: setup_ok_def)
  have cap: "capacity (allocator kv3) = unat ?P" using setup_ok_shape(3) [OF ok3] kv0(4) by simp
  have scattered: "is_scattered t" if "i < ?n" "sc_scatter sc" "map physical_id (entries t) = frames i" for i t
    using odd_frames_scattered [OF that(3)] seqs that blocks_of_eq(3) [OF sc that(1,2)] seq_frames_owned(2) [OF inv3 seqs(1) [OF that(1)]] un
    by (simp add: unshared_def)
  let ?sids = "map sequence_id [0..<?n]"
  have "batch_ready F sc ?l kv3 ?sids frames"
    using sc checks seqs(1) kv3(3) scattered by (auto simp: batch_ready_def scenario_ok_def list_all_length)
  moreover have "\<forall>i<length ?sids. length (frames i) \<le> unat ?m"
  proof (intro allI impI)
    fix i
    assume "i < length ?sids"
    then have "i < ?n" "blocks_per_seq sc ! i \<in> set (blocks_per_seq sc)" by (simp_all add: blocks_per_seq_def)
    then show "length (frames i) \<le> unat ?m" using foldl_max_bound [of 0 "blocks_per_seq sc"] seqs(2) [of i]
      by (simp add: blocks_of_def word_le_nat_alt)
  qed
  ultimately have "write_fixture F sc ?shape ?l kv3 ?sids ?P ?m
      = Inr (fixture_files F sc ?shape (pool_copy ?l (allocator kv3)) ?P ?m frames)"
    using write_fixture_files [OF F inv3 env3 ok(2)] cap ok(3) by blast
  then have "export_scenario F (Some slab) sc = Inr (fixture_files F sc ?shape (pool_copy ?l (allocator kv3)) ?P ?m frames)"
    using zero(1) kv1(1) kv2(1) kv3(1) by (simp add: export_scenario_def Let_def KVCacheManager_new_def)
  moreover have "reads_pattern F sc (pool_copy ?l (allocator kv3)) frames i" if "i < ?n" for i
    unfolding reads_pattern_def Let_def
    using pool_copy_pattern [OF inv3 env3 seqs(1) [OF that] kv3(3) [OF that]] by (simp add: scenario_shape_def)
  ultimately show ?thesis using seqs(2) blocks_of_eq(1) [OF sc] by metis
qed

end
