(* ===== verification/GoldenChurn.thy ===== *)
theory GoldenChurn
  imports GoldenProps
begin

text \<open>
  The churn scenario: a fork parent, a child whose blocks are all copied on write, and a sequence on frames
  recycled from a released one. The export succeeds, the premises it checks of itself hold, and
  \<^verbatim>\<open>main\<close> returns 0.
\<close>

section \<open>Prefilling the pool\<close>

lemma prefill_frames_ok:
  assumes F: "float_ok F" and "alloc_inv al" and "unat n \<le> capacity al"
  shows "\<exists>bytes. prefill_frames F n al = Inr (al\<lparr>pool := bytes\<rparr>) \<and> alloc_inv (al\<lparr>pool := bytes\<rparr>)"
  unfolding prefill_frames_def
proof (rule write_frames_loop [OF assms(2,3)])
  fix al :: MemoryAllocator and p :: PhysicalBlockId
  assume mem: "memory_inv al" and p: "unat p < unat (max_blocks (config al))"
  obtain b off where b: "al_block al p = Some b" "pb_storage b = Some off" "pb_size_bytes b = block_stride_bytes al"
    "unat off + unat (block_stride_bytes al) \<le> length (pool al)"
    using memory_block [OF mem p] by metis
  let ?n = "unat (block_stride_bytes al)"
  let ?bs = "segment (unat off) ?n (pool al)"
  let ?ws = "map (\<lambda>i. (of_nat i :: u64, mix F [2, p, of_nat i])) [0..<?n div 4]"
  have len: "length ?bs = ?n" using b(4) by simp
  have same: "write_frame al b ?bs = al" using b len overwrite_segment [OF b(4)] by (simp add: write_frame_def)
  have index: "unat (of_nat i :: u64) * 4 + 4 \<le> ?n" if "i < ?n div 4" for i
  proof -
    have "i * 4 + 4 \<le> ?n" using that by linarith
    moreover from this have "i < 18446744073709551616" using unat_u64_lt [of "block_stride_bytes al"] by linarith
    ultimately show ?thesis by simp
  qed
  have ws: "\<forall>w\<in>set ?ws. unat (fst w) * 4 + 4 \<le> length ?bs" using index len by auto
  have fold: "foldl (\<lambda>al i. store_float F al b (of_nat i) (mix F [2, p, of_nat i])) al [0..<?n div 4]
      = foldl (\<lambda>al w. store_float F al b (fst w) (snd w)) al ?ws" by (simp add: foldl_map)
  let ?bs' = "foldl (poke F) ?bs (map (\<lambda>w. (unat (fst w), snd w)) ?ws)"
  have "foldl (\<lambda>al w. store_float F al b (fst w) (snd w)) al ?ws = write_frame al b ?bs'"
    using stores_frame [OF F b(2) _ ws, of al] same len b(4) by simp
  moreover have "length ?bs' = ?n"
    using pokes_length [OF F, of "map (\<lambda>w. (unat (fst w), snd w)) ?ws" ?bs] ws len by simp
  moreover have "unat (pb_size_bytes b div 4) = ?n div 4" using b(3) by (simp add: unat_div)
  ultimately show "\<exists>b bs. al_block al p = Some b \<and> length bs = ?n
      \<and> (case al_block al p of None \<Rightarrow> Inl ''pool frame missing''
          | Some b \<Rightarrow> Inr (foldl (\<lambda>al i. store_float F al b (of_nat i) (mix F [2, p, of_nat i])) al [0..<unat (pb_size_bytes b div 4)]))
        = Inr (write_frame al b bs)"
    using b(1) fold by (intro exI [of _ b] exI [of _ ?bs']) simp
qed

section \<open>Building a sequence\<close>

definition pool_ok :: "KVCacheManager \<Rightarrow> KVCacheManager \<Rightarrow> bool" where
  "pool_ok kv0 kv \<longleftrightarrow> kv_inv kv \<and> kv_layout kv = kv_layout kv0 \<and> prefix_index kv = Map.empty"

lemma pool_ok_shape:
  assumes "pool_ok kv0 kv"
  shows "table_count kv = table_count kv0" and "kv_tokens_per_block kv = kv_tokens_per_block kv0"
    and "capacity (allocator kv) = capacity (allocator kv0)"
  using assms kv_layout_shape [of kv kv0] by (simp_all add: pool_ok_def)

lemma free_ref: "kv_inv kv \<Longrightarrow> p \<in> set (free_list (allocator kv)) \<Longrightarrow> ref_of (allocator kv) p = 0"
  using kv_inv_parts(5) [of kv] by (auto simp: alloc_inv_def ids_inv_def)

lemma kv_view_cong: "allocator kv' = allocator kv \<Longrightarrow> sequences kv' sid = sequences kv sid \<Longrightarrow> kv_view kv' sid = kv_view kv sid"
  by (simp add: kv_view_def)

text \<open>A new sequence takes its frames from the end of the free list, owns them alone and holds its pattern; the
  others keep their blocks and their content.\<close>

lemma build_sequence_ok:
  fixes sc :: "'f Scenario"
  defines "l \<equiv> \<lparr>kvl_shape = scenario_shape sc\<rparr>"
  assumes F: "float_ok F" and inv0: "kv_inv kv0" and fenv: "fill_env l kv0" and pos: "0 < capacity (allocator kv0)"
    and one: "table_count kv0 = 1" and ok: "pool_ok kv0 kv" and new: "sequences kv sid = None"
    and nowrap: "unat ctx + unat (sc_tokens_per_block sc) \<le> 4294967296"
  defines "d \<equiv> blocks_for (sc_tokens_per_block sc) ctx"
  assumes small: "d < 4294967296" and free: "d \<le> length (free_list (allocator kv))"
  defines "ps \<equiv> take d (rev (free_list (allocator kv)))"
  obtains kv' where "build_sequence F sc what sid salt ctx kv = Inr kv'" and "pool_ok kv0 kv'" and "seq_frames kv' sid ps"
    and "holds_pattern F l salt ctx kv' sid" and "\<forall>p\<in>set ps. ref_of (allocator kv') p \<le> 1"
    and "\<And>other. other \<noteq> sid \<Longrightarrow> sequences kv' other = sequences kv other \<and> kv_view kv' other = kv_view kv other"
    and "length (free_list (allocator kv)) \<le> length (free_list (allocator kv')) + d"
proof -
  have layers: "frame_layers (kvl_shape l) = num_layers (kvl_shape l)" and tpb_l: "tokens_per_block (kvl_shape l) = sc_tokens_per_block sc"
    by (simp_all add: l_def frame_layers_def scenario_shape_def)
  have inv: "kv_inv kv" and none: "prefix_index kv = Map.empty" using ok by (simp_all add: pool_ok_def)
  obtain kv1 where kv1: "create_sequence kv (plain_metadata sid) = (True, kv1)" "kv_inv kv1" "kv_layout kv1 = kv_layout kv"
    "allocator kv1 = allocator kv" "seq_frames kv1 sid []" "\<And>other. other \<noteq> sid \<Longrightarrow> sequences kv1 other = sequences kv other"
    "prefix_index kv1 = prefix_index kv" using create_plain [OF inv new] by metis
  have ok1: "pool_ok kv0 kv1" using ok kv1 by (simp add: pool_ok_def)
  have tpb: "kv_tokens_per_block kv1 = sc_tokens_per_block sc" "sc_tokens_per_block sc \<noteq> 0"
    using fill_env_tpb [OF fenv] tpb_l pool_ok_shape(2) [OF ok1] by simp_all
  have pre: "table_count kv1 = 1" "kv_tokens_per_block kv1 \<noteq> 0" "unat ctx + unat (kv_tokens_per_block kv1) \<le> 4294967296"
    "length ([] :: PhysicalBlockId list) + blocks_for (kv_tokens_per_block kv1) ctx < 4294967296"
    "blocks_for (kv_tokens_per_block kv1) ctx \<le> length (free_list (allocator kv1))"
    using one pool_ok_shape(1) [OF ok1] tpb nowrap small free kv1(4) by (simp_all add: d_def)
  from reserve_frames [OF kv1(2) pre(1) kv1(5) pre(2-5)] obtain kv2 where kv2: "reserve_tokens kv1 sid ctx = (True, kv2)" "kv_inv kv2"
    "kv_layout kv2 = kv_layout kv1" "seq_frames kv2 sid ps"
    "free_list (allocator kv2) = take (length (free_list (allocator kv)) - d) (free_list (allocator kv))"
    "\<And>q. ref_of (allocator kv2) q \<le> max 1 (ref_of (allocator kv) q)"
    "\<And>other. other \<noteq> sid \<Longrightarrow> sequences kv2 other = sequences kv1 other"
    "\<And>other. other \<noteq> sid \<Longrightarrow> kv_view kv2 other = kv_view kv1 other" "prefix_index kv2 = prefix_index kv1"
    unfolding tpb(1) kv1(4) append_Nil d_def [symmetric] ps_def [symmetric] by metis
  have ok2: "pool_ok kv0 kv2" using ok1 kv2(2,3,9) by (simp add: pool_ok_def)
  have own2: "ref_of (allocator kv2) p \<le> 1" if "p \<in> set ps" for p
  proof -
    have "p \<in> set (free_list (allocator kv))" using that set_take_subset [of d "rev (free_list (allocator kv))"] by (auto simp: ps_def)
    then show ?thesis using kv2(6) [of p] free_ref [OF inv] by simp
  qed
  have ids: "map physical_id (first_entries kv2 sid) = ps" using kv2(4) by (simp add: seq_frames_def)
  have "\<not> ref_of (allocator kv2) p > 1" if "p \<in> set (map physical_id (first_entries kv2 sid))" for p
    using own2 that unfolding ids by (simp add: not_less)
  then have shared: "shared_entries (allocator kv2) (first_entries kv2 sid) = 0" by (auto simp: shared_entries_ids filter_empty_conv)
  have fenv2: "fill_env l kv2" using fill_env_layout [OF fenv inv0 kv2(2) _ pos] ok2 by (simp add: pool_ok_def)
  have len: "length ps = d" using free by (simp add: ps_def)
  have blocks: "unat (t div tokens_per_block (kvl_shape l)) < length ps" if "t < ctx" for t
    using token_block_lt [OF tpb(2) that] len tpb_l by (simp add: d_def)
  have pos2: "0 < capacity (allocator kv2)" using pos pool_ok_shape(3) [OF ok2] by simp
  from fill_plain [where salt = salt, OF F fenv2 kv2(2,4) _ blocks pos2 layers] shared
  obtain kv3 where kv3: "fill_sequence F (kvl_shape l) l kv2 sid salt ctx = Inr kv3" "kv_inv kv3"
    "kv_layout kv3 = kv_layout kv2" "prefix_view kv3 = prefix_view kv2" "holds_pattern F l salt ctx kv3 sid" "seq_frames kv3 sid ps"
    "\<And>other. other \<noteq> sid \<Longrightarrow> sequences kv3 other = sequences kv2 other \<and> kv_view kv3 other = kv_view kv2 other"
    "\<And>q. ref_of (allocator kv3) q \<le> max 1 (ref_of (allocator kv2) q)"
    "length (free_list (allocator kv2)) \<le> length (free_list (allocator kv3))" by (metis add.right_neutral le0)
  have "build_sequence F sc what sid salt ctx kv = Inr kv3"
    using kv1(1) kv2(1) kv3(1) by (simp add: build_sequence_def required_def l_def)
  moreover have "prefix_index kv3 = Map.empty" using kv3(4) ok2 prefix_view_empty unfolding pool_ok_def by metis
  then have "pool_ok kv0 kv3" using ok2 kv3(2,3) by (simp add: pool_ok_def)
  moreover have "\<forall>p\<in>set ps. ref_of (allocator kv3) p \<le> 1" using own2 kv3(8) by (metis max.absorb1)
  moreover have "sequences kv3 other = sequences kv other \<and> kv_view kv3 other = kv_view kv other" if "other \<noteq> sid" for other
    using that kv1(4,6) kv2(7,8) kv3(7) kv_view_cong [of kv1 kv other] by simp
  moreover have "length (free_list (allocator kv)) \<le> length (free_list (allocator kv3)) + d" using kv2(5) kv3(9) by simp
  ultimately show thesis using that [of kv3] kv3(5,6) by blast
qed

section \<open>Forking\<close>

lemma single_table:
  assumes inv: "kv_inv kv" and one: "table_count kv = 1" and st: "sequences kv sid = Some st"
  obtains t where "tables st = [t]"
proof -
  have "length (tables st) = 1" using kv_inv_tables [OF inv st] one by (simp add: tables_ok_def)
  then show thesis using that by (auto simp: length_Suc_conv)
qed

lemma fork_plain:
  assumes inv: "kv_inv kv" and one: "table_count kv = 1" and ps: "seq_frames kv parent ps"
    and own: "\<forall>p\<in>set ps. ref_of (allocator kv) p \<le> 1" and new: "sequences kv child = None"
  obtains kv' where "fork_sequence kv parent (plain_metadata child) = (True, kv')" and "kv_inv kv'" and "kv_layout kv' = kv_layout kv"
    and "seq_frames kv' child ps" and "\<And>other. other \<noteq> child \<Longrightarrow> sequences kv' other = sequences kv other \<and> kv_view kv' other = kv_view kv other"
    and "prefix_index kv' = prefix_index kv" and "free_list (allocator kv') = free_list (allocator kv)"
proof -
  obtain st where st: "sequences kv parent = Some st" using ps by (auto simp: seq_frames_def)
  obtain t where t: "tables st = [t]" using single_table [OF inv one st] .
  have es: "first_entries kv parent = entries t" by (simp add: first_entries_def st t)
  have resident: "\<not> list_ex has_swapped (tables st)" using ps t es by (auto simp: seq_frames_def has_swapped_def list_ex_iff list_all_iff)
  obtain ok kv' where run: "fork_sequence kv parent (plain_metadata child) = (ok, kv')" by fastforce
  have few: "count (kv_refs kv) p + count (tables_refs (tables parent')) p < 4294967296" if "sequences kv parent = Some parent'" for parent' p
  proof -
    have refs: "tables_refs (tables parent') = mset ps" using that st t seq_frames_mset [OF ps st] by simp
    have cnt: "count (kv_refs kv) p = ref_of (allocator kv) p" using owns_ref_of [OF kv_inv_owns [OF inv]] by simp
    show ?thesis
    proof (cases "p \<in> set ps")
      case True
      have "count (mset ps) p \<le> 1" using seq_frames_owned(2) [OF inv ps own] by (simp add: distinct_count_atmost_1)
      moreover have "ref_of (allocator kv) p \<le> 1" using own True by blast
      ultimately show ?thesis unfolding cnt refs by linarith
    next
      case False
      then have "count (mset ps) p = 0" by (simp add: count_eq_zero_iff)
      moreover have "ref_of (allocator kv) p < 4294967296" by (simp add: ref_of_def)
      ultimately show ?thesis unfolding cnt refs by linarith
    qed
  qed
  have "ok \<and> sequences kv' child \<noteq> None \<and> first_entries kv' child = entries (bt_fork t child)
      \<and> (\<forall>other. other \<noteq> child \<longrightarrow> sequences kv' other = sequences kv other) \<and> prefix_index kv' = prefix_index kv"
    using run st t resident new
    by (auto simp: fork_sequence_def fork_tables_eq plain_metadata_def index_sequence_def first_entries_def Let_def)
  then have res: ok "sequences kv' child \<noteq> None" "first_entries kv' child = entries (bt_fork t child)"
    "\<And>other. other \<noteq> child \<Longrightarrow> sequences kv' other = sequences kv other" "prefix_index kv' = prefix_index kv" by blast+
  have inv': "kv_inv kv'" by (rule fork_sequence_step(1) [OF inv run few])
  have view: "kv_view kv' = (kv_view kv)(sm_sequence_id (plain_metadata child) := kv_view kv parent)"
    by (rule fork_sequence_step(4) [OF inv run few]) (use res(1) in simp_all)
  have free: "free_list (allocator kv') = free_list (allocator kv)"
    by (rule fork_sequence_step(6) [OF inv run few]) (use res(1) in simp_all)
  have "map physical_id (entries (bt_fork t child)) = ps" "list_all (\<lambda>e. swap_slot e = None) (entries (bt_fork t child))"
    using ps es by (auto simp: seq_frames_def bt_fork_def comp_def list_all_iff)
  then have "seq_frames kv' child ps" using res by (simp add: seq_frames_def)
  moreover have "kv_view kv' other = kv_view kv other" if "other \<noteq> child" for other
    using view that by (simp add: plain_metadata_def)
  moreover have "kv_layout kv' = kv_layout kv" using kv_layout_fork [of kv parent "plain_metadata child"] run by simp
  ultimately show thesis using that [of kv'] run res inv' free by simp
qed

text \<open>A frame that two sequences map is shared.\<close>

lemma mapped_twice:
  assumes inv: "kv_inv kv" and ps: "seq_frames kv a ps" and qs: "seq_frames kv b qs" and ne: "a \<noteq> b" and p: "p \<in> set ps" "p \<in> set qs"
  shows "2 \<le> ref_of (allocator kv) p"
proof -
  obtain sa sb where st: "sequences kv a = Some sa" "sequences kv b = Some sb" using ps qs by (auto simp: seq_frames_def)
  have mem: "p \<in># tables_refs (tables st)" if f: "seq_frames kv s rs" and s: "sequences kv s = Some st" and r: "p \<in> set rs" for s st rs
  proof -
    have "0 < length (tables st)" using tables_ok_nonempty [OF kv_inv_tables [OF inv s]] by simp
    then have "table_refs (tables st ! 0) \<subseteq># tables_refs (tables st)"
      using member_sum_list_mset [OF nth_mem, of 0 "tables st" table_refs] by (simp add: tables_refs_def)
    then show ?thesis using seq_frames_mset [OF f s] r by (metis mset_subset_eqD set_mset_mset)
  qed
  have fin: "finite (dom (sequences kv))" using kv_inv_parts(1) [OF inv] .
  have "map_total seq_refs ((sequences kv)(a := None)) = seq_refs sb + map_total seq_refs ((sequences kv)(a := None, b := None))"
    using map_total_remove [of "(sequences kv)(a := None)" b sb seq_refs] fin st(2) ne by simp
  then have "tables_refs (tables sa) + tables_refs (tables sb) \<subseteq># kv_refs kv"
    using kv_split(1) [OF fin st(1)] by (simp add: rest_refs_def seq_refs_def ac_simps)
  then have "count (tables_refs (tables sa) + tables_refs (tables sb)) p \<le> count (kv_refs kv) p" by (rule mset_subset_eq_count)
  moreover have "1 \<le> count (tables_refs (tables sa)) p" "1 \<le> count (tables_refs (tables sb)) p"
    using mem [OF ps st(1) p(1)] mem [OF qs st(2) p(2)] by (simp_all add: Suc_le_eq)
  ultimately have "2 \<le> count (kv_refs kv) p" unfolding count_union by linarith
  then show ?thesis using owns_ref_of [OF kv_inv_owns [OF inv]] by simp
qed

section \<open>The parent and its child\<close>

text \<open>A sequence that an operation on other sequences left alone.\<close>

definition untouched :: "KVCacheManager \<Rightarrow> KVCacheManager \<Rightarrow> SequenceId \<Rightarrow> bool" where
  "untouched kv kv' sid \<longleftrightarrow> sequences kv' sid = sequences kv sid \<and> kv_view kv' sid = kv_view kv sid"

lemma untouched_trans: "untouched kv kv1 sid \<Longrightarrow> untouched kv1 kv2 sid \<Longrightarrow> untouched kv kv2 sid"
  by (simp add: untouched_def)

lemma untouched_frames: "untouched kv kv' sid \<Longrightarrow> seq_frames kv sid ps \<Longrightarrow> seq_frames kv' sid ps"
  using seq_frames_cong [of kv' sid kv] by (simp add: untouched_def)

lemma untouched_pattern: "untouched kv kv' sid \<Longrightarrow> holds_pattern F l salt ctx kv sid \<Longrightarrow> holds_pattern F l salt ctx kv' sid"
  using holds_pattern_cong [of kv' sid kv F l] by (simp add: untouched_def)

lemma mapped_frames_eq:
  assumes "kv_inv kv" and "fill_env l kv" and ps: "seq_frames kv sid ps"
  shows "mapped_frames kv sid = Inr ps"
proof -
  obtain v where v: "cache_view kv sid TextKV = Some v" using ps by (auto simp: seq_frames_def cache_view_def)
  then show ?thesis using fill_view(5) [OF assms(1,2) v] ps by (simp add: mapped_frames_def seq_frames_def)
qed

text \<open>Every block of a context holds some token of it.\<close>

lemma context_block:
  assumes "shape_ok (kvl_shape l)" and "j < blocks_for (tokens_per_block (kvl_shape l)) ctx"
  shows "\<exists>c\<in>context_coords l ctx. coord_block l c = j"
proof -
  let ?tpb = "tokens_per_block (kvl_shape l)"
  let ?T = "unat ?tpb"
  have T: "0 < ?T" using assms(1) by (simp add: shape_ok_def unat_gt_0)
  have "Suc j \<le> (unat ctx + ?T - 1) div ?T" using assms(2) by (simp add: blocks_for_def)
  then have "Suc j * ?T \<le> (unat ctx + ?T - 1) div ?T * ?T" by (rule mult_le_mono1)
  also have "\<dots> \<le> unat ctx + ?T - 1" by (rule div_times_less_eq_dividend)
  finally have lt: "j * ?T < unat ctx" using T by simp
  obtain t :: u32 where t: "unat t = j * ?T" using unat_of_nat_u32 [OF less_trans [OF lt unat_u32_lt]] by blast
  have "coord_block l (0, Key, t, 0, 0) = j" using t T by (simp add: coord_block_def unat_div)
  moreover have "(0, Key, t, 0, 0) \<in> context_coords l ctx"
    using assms(1) t lt by (simp add: context_coords_def valid_coord_def shape_ok_def frame_layers_def word_less_nat_alt unat_gt_0)
  ultimately show ?thesis by blast
qed

text \<open>Filling a fork gives it its own frames, and leaves the parent as it was.\<close>

lemma fill_fork_ok:
  fixes sc :: "'f Scenario"
  defines "l \<equiv> \<lparr>kvl_shape = scenario_shape sc\<rparr>"
  assumes F: "float_ok F" and shape: "shape_ok (scenario_shape sc)" and inv0: "kv_inv kv0" and fenv: "fill_env l kv0"
    and pos: "0 < capacity (allocator kv0)" and one: "table_count kv0 = 1" and ok: "pool_ok kv0 kv" and ps: "seq_frames kv parent ps"
    and own: "\<forall>p\<in>set ps. ref_of (allocator kv) p \<le> 1" and new: "sequences kv child = None" and ne: "parent \<noteq> child"
    and len: "length ps = blocks_for (sc_tokens_per_block sc) ctx" and free: "length ps \<le> length (free_list (allocator kv))"
  obtains kv1 kv2 cs where "fork_sequence kv parent (plain_metadata child) = (True, kv1)"
    and "fill_sequence F (scenario_shape sc) l kv1 child salt ctx = Inr kv2" and "pool_ok kv0 kv2" and "seq_frames kv2 child cs"
    and "length cs = length ps" and "holds_pattern F l salt ctx kv2 child" and "set cs \<inter> set ps = {}"
    and "\<forall>other. other \<noteq> child \<longrightarrow> untouched kv kv2 other"
    and "length (free_list (allocator kv)) \<le> length (free_list (allocator kv2)) + length ps"
proof -
  have layers: "frame_layers (kvl_shape l) = num_layers (kvl_shape l)" and tpb_l: "tokens_per_block (kvl_shape l) = sc_tokens_per_block sc"
    and shape_l: "kvl_shape l = scenario_shape sc"
    by (simp_all add: l_def frame_layers_def scenario_shape_def)
  have inv: "kv_inv kv" and one': "table_count kv = 1" using ok one pool_ok_shape(1) [OF ok] by (simp_all add: pool_ok_def)
  obtain kv1 where kv1: "fork_sequence kv parent (plain_metadata child) = (True, kv1)" "kv_inv kv1" "kv_layout kv1 = kv_layout kv"
    "seq_frames kv1 child ps" "\<And>other. other \<noteq> child \<Longrightarrow> sequences kv1 other = sequences kv other \<and> kv_view kv1 other = kv_view kv other"
    "prefix_index kv1 = prefix_index kv" "free_list (allocator kv1) = free_list (allocator kv)"
    using fork_plain [OF inv one' ps own new] by metis
  have ok1: "pool_ok kv0 kv1" using ok kv1 by (simp add: pool_ok_def)
  have fenv1: "fill_env l kv1" using fill_env_layout [OF fenv inv0 kv1(2) _ pos] ok1 by (simp add: pool_ok_def)
  have pos1: "0 < capacity (allocator kv1)" using pos pool_ok_shape(3) [OF ok1] by simp
  have shared: "shared_entries (allocator kv1) (first_entries kv1 child) \<le> length ps"
    using seq_frames_length [OF kv1(4)] by (metis shared_entries_def length_filter_le)
  then have room: "shared_entries (allocator kv1) (first_entries kv1 child) \<le> length (free_list (allocator kv1))" using free kv1(7) by simp
  have tpb: "sc_tokens_per_block sc \<noteq> 0" using shape by (simp add: shape_ok_def scenario_shape_def)
  have blocks: "unat (t div tokens_per_block (kvl_shape l)) < length ps" if "t < ctx" for t
    using token_block_lt [OF tpb that] len tpb_l by simp
  obtain kv2 cs where kv2: "fill_sequence F (kvl_shape l) l kv1 child salt ctx = Inr kv2" "kv_inv kv2" "kv_layout kv2 = kv_layout kv1"
    "prefix_view kv2 = prefix_view kv1" "holds_pattern F l salt ctx kv2 child" "seq_frames kv2 child cs" "length cs = length ps"
    "\<And>other. other \<noteq> child \<Longrightarrow> sequences kv2 other = sequences kv1 other \<and> kv_view kv2 other = kv_view kv1 other"
    "length (free_list (allocator kv1)) \<le> length (free_list (allocator kv2)) + shared_entries (allocator kv1) (first_entries kv1 child)"
    "\<And>c. c \<in> context_coords l ctx \<Longrightarrow> ref_of (allocator kv2) (cs ! coord_block l c) \<le> 1"
    using fill_plain [where salt = salt, OF F fenv1 kv1(2,4) room blocks pos1 layers] by metis
  have "prefix_index kv2 = Map.empty" using kv2(4) ok1 prefix_view_empty unfolding pool_ok_def by metis
  then have ok2: "pool_ok kv0 kv2" using ok1 kv2(2,3) by (simp add: pool_ok_def)
  have same: "untouched kv kv2 other" if "other \<noteq> child" for other using kv1(5) kv2(8) that by (simp add: untouched_def)
  have "set cs \<inter> set ps = {}"
  proof (rule ccontr)
    assume "set cs \<inter> set ps \<noteq> {}"
    then obtain p where "p \<in> set ps" "p \<in> set cs" by blast
    then obtain j where p: "p \<in> set ps" "j < length cs" "p = cs ! j" by (metis in_set_conv_nth)
    then obtain c where c: "c \<in> context_coords l ctx" "coord_block l c = j"
      using context_block [of l j ctx] shape shape_l kv2(7) len tpb_l by auto
    have "2 \<le> ref_of (allocator kv2) p"
      using mapped_twice [OF kv2(2) untouched_frames [OF same [OF ne] ps] kv2(6) ne p(1)] p(2,3) by simp
    then show False using kv2(10) [OF c(1)] c(2) p(3) by simp
  qed
  moreover have "length (free_list (allocator kv)) \<le> length (free_list (allocator kv2)) + length ps" using kv2(9) kv1(7) shared by simp
  ultimately show thesis using that [OF kv1(1) _ ok2 kv2(6,7,5)] same kv2(1) shape_l by simp
qed

end
