(* ===== verification/GoldenMain.thy ===== *)
theory GoldenMain
  imports GoldenChurn
begin

text \<open>
  The churn export and \<^verbatim>\<open>main\<close>: with slabs of the right sizes every scenario of the tool is exported and the exit
  code is 0.
\<close>

section \<open>The churn scenario\<close>

lemma churn_facts:
  "shape_ok (scenario_shape (churn_scenario F))" "heads_ok (churn_scenario F) (scenario_shape (churn_scenario F))"
  "scalars_fit (churn_scenario F) (scenario_shape (churn_scenario F))"
  "sc_context_lens (churn_scenario F) = [10, 10, 6]" "sc_tokens_per_block (churn_scenario F) = 4"
  "\<not> sc_scatter (churn_scenario F)"
  by (simp_all add: shape_ok_def heads_ok_def scalars_fit_def scalar_fields_def scenario_shape_def churn_scenario_def layout_elements_def
      frame_layers_def head_stride_def token_stride_def stream_stride_def layer_stride_def kKVStreamCount_def)

lemma churn_blocks: "blocks_for 4 10 = 3" "blocks_for 4 6 = 2"
  by (simp_all add: blocks_for_def)

text \<open>A sequence of \<open>d\<close> blocks built during the churn.\<close>

lemma churn_build:
  fixes F :: "'f floats"
  defines "sc \<equiv> churn_scenario F"
  defines "l \<equiv> \<lparr>kvl_shape = scenario_shape sc\<rparr>"
  assumes env: "float_ok F" "kv_inv kv0" "fill_env l kv0" "0 < capacity (allocator kv0)" "table_count kv0 = 1"
    and ok: "pool_ok kv0 kv" and new: "sequences kv sid = None" and ctx: "blocks_for 4 ctx = d" "ctx \<le> 10" "d \<le> 3"
    and free: "d \<le> length (free_list (allocator kv))"
  obtains kv' where "build_sequence F sc what sid salt ctx kv = Inr kv'" and "pool_ok kv0 kv'"
    and "seq_frames kv' sid (take d (rev (free_list (allocator kv))))" and "holds_pattern F l salt ctx kv' sid"
    and "\<forall>p\<in>set (take d (rev (free_list (allocator kv)))). ref_of (allocator kv') p \<le> 1"
    and "\<forall>other. other \<noteq> sid \<longrightarrow> untouched kv kv' other"
    and "length (free_list (allocator kv)) \<le> length (free_list (allocator kv')) + d"
proof -
  have four: "sc_tokens_per_block sc = 4" by (simp add: sc_def churn_facts)
  have "unat ctx \<le> 10" using ctx(2) by (simp add: word_le_nat_alt)
  then have pre: "unat ctx + unat (sc_tokens_per_block sc) \<le> 4294967296" "blocks_for (sc_tokens_per_block sc) ctx < 4294967296"
    "blocks_for (sc_tokens_per_block sc) ctx \<le> length (free_list (allocator kv))" using four ctx(1,3) free by simp_all
  from build_sequence_ok [where sc = sc and salt = salt and what = what, folded l_def, OF env ok new pre, unfolded four ctx(1)]
  show thesis using that unfolding untouched_def by blast
qed

text \<open>The victim dirties three frames and hands them back; the recycled sequence is built on them.\<close>

lemma recycle_ok:
  fixes F :: "'f floats"
  defines "sc \<equiv> churn_scenario F"
  defines "l \<equiv> \<lparr>kvl_shape = scenario_shape sc\<rparr>"
  assumes F: "float_ok F" and inv0: "kv_inv kv0" and fenv: "fill_env l kv0" and pos: "0 < capacity (allocator kv0)"
    and one: "table_count kv0 = 1" and ok: "pool_ok kv0 kv" and new: "sequences kv 100 = None" "sequences kv 3 = None"
    and free: "4 \<le> length (free_list (allocator kv))"
  obtains kv1 kv2 vs rs where "build_sequence F sc ''victim'' 100 7 10 kv = Inr kv1" and "pool_ok kv0 kv1" and "seq_frames kv1 100 vs"
    and "build_sequence F sc ''recycled'' 3 2 6 (release_sequence kv1 100) = Inr kv2" and "pool_ok kv0 kv2" and "seq_frames kv2 3 rs"
    and "length rs = 2" and "set rs \<subseteq> set vs" and "holds_pattern F l 2 6 kv2 3"
    and "\<forall>other. other \<noteq> 100 \<longrightarrow> other \<noteq> 3 \<longrightarrow> untouched kv kv2 other"
proof -
  note build = churn_build [where F = F, folded sc_def, folded l_def, OF F inv0 fenv pos one]
  have three: "blocks_for 4 10 = 3" "(10 :: u32) \<le> 10" "(3 :: nat) \<le> 3" "3 \<le> length (free_list (allocator kv))"
    using free churn_blocks by simp_all
  obtain kv1 where kv1: "build_sequence F sc ''victim'' 100 7 10 kv = Inr kv1" "pool_ok kv0 kv1"
    "seq_frames kv1 100 (take 3 (rev (free_list (allocator kv))))" "holds_pattern F l 7 10 kv1 100"
    "\<forall>p\<in>set (take 3 (rev (free_list (allocator kv)))). ref_of (allocator kv1) p \<le> 1"
    "\<forall>other. other \<noteq> 100 \<longrightarrow> untouched kv kv1 other"
    "length (free_list (allocator kv)) \<le> length (free_list (allocator kv1)) + 3"
    using build [where what = "''victim''" and salt = 7, OF ok new(1) three] by blast
  let ?vs = "take 3 (rev (free_list (allocator kv)))" and ?kv = "release_sequence kv1 100"
  have len: "length ?vs = 3" using free by simp
  have inv1: "kv_inv kv1" "table_count kv1 = 1" "prefix_index kv1 = Map.empty"
    using kv1(2) one pool_ok_shape(1) [OF kv1(2)] by (simp_all add: pool_ok_def)
  note rel = release_plain [OF inv1(1,2) kv1(3,5) inv1(3)]
  have ok2: "pool_ok kv0 ?kv" using rel(1,2,7) kv1(2) by (simp add: pool_ok_def)
  have new2: "sequences ?kv 3 = None" using rel(3) kv1(6) new(2) by (simp add: untouched_def)
  have two: "blocks_for 4 6 = 2" "(6 :: u32) \<le> 10" "(2 :: nat) \<le> 3" "2 \<le> length (free_list (allocator ?kv))"
    using rel(5) len churn_blocks by simp_all
  obtain kv2 where kv2: "build_sequence F sc ''recycled'' 3 2 6 ?kv = Inr kv2" "pool_ok kv0 kv2"
    "seq_frames kv2 3 (take 2 (rev (free_list (allocator ?kv))))" "holds_pattern F l 2 6 kv2 3"
    "\<forall>p\<in>set (take 2 (rev (free_list (allocator ?kv)))). ref_of (allocator kv2) p \<le> 1"
    "\<forall>other. other \<noteq> 3 \<longrightarrow> untouched ?kv kv2 other"
    "length (free_list (allocator ?kv)) \<le> length (free_list (allocator kv2)) + 2"
    using build [where what = "''recycled''" and salt = 2, OF ok2 new2 two] by blast
  have rs: "take 2 (rev (free_list (allocator ?kv))) = take 2 (rev ?vs)" using rel(5) len by simp
  have sub: "set (take 2 (rev ?vs)) \<subseteq> set ?vs" by (metis set_take_subset set_rev)
  have two_rs: "length (take 2 (rev ?vs)) = 2" using len by simp
  have same: "\<forall>other. other \<noteq> 100 \<longrightarrow> other \<noteq> 3 \<longrightarrow> untouched kv kv2 other"
  proof (intro allI impI)
    fix other :: SequenceId
    assume that: "other \<noteq> 100" "other \<noteq> 3"
    have "untouched kv1 ?kv other" using that(1) rel(3,4) by (simp add: untouched_def)
    then show "untouched kv kv2 other" using kv1(6) kv2(6) that untouched_trans by blast
  qed
  show thesis by (rule that [OF kv1(1,2,3) kv2(1,2) kv2(3) [unfolded rs] two_rs sub kv2(4) same])
qed

text \<open>The whole run of the churn from an empty cache of ten frames, up to the fixture.\<close>

definition churn_steps :: "'f floats \<Rightarrow> KVCacheManager \<Rightarrow> string + npy_file list" where
  "churn_steps F kv =
     (let sc = churn_scenario F; l = \<lparr>kvl_shape = scenario_shape sc\<rparr>
      in and_then (build_sequence F sc ''parent'' 1 0 10 kv)
       (\<lambda>kv. and_then (required ''fork_sequence failed'' (fork_sequence kv 1 (plain_metadata 2)))
       (\<lambda>kv. and_then (fill_sequence F (scenario_shape sc) l kv 2 1 10)
       (\<lambda>kv. and_then (build_sequence F sc ''victim'' 100 7 10 kv)
       (\<lambda>kv. and_then (mapped_frames kv 100)
       (\<lambda>victim_frames. and_then (build_sequence F sc ''recycled'' 3 2 6 (release_sequence kv 100))
       (\<lambda>kv. and_then (mapped_frames kv 1)
       (\<lambda>parent_frames. and_then (mapped_frames kv 2)
       (\<lambda>child_frames. and_then (mapped_frames kv 3)
       (\<lambda>recycled_frames. and_then (churn_premises sc victim_frames parent_frames child_frames recycled_frames)
       (\<lambda>_. write_fixture F sc (scenario_shape sc) l kv [1, 2, 3] 10 3)))))))))))"

lemma export_churn_steps:
  "export_churn_scenario F slab =
     (let kv = KVCacheManager_new (MemoryAllocator_new (exporter_config (churn_scenario F) 10) slab)
      in and_then (prefill_frames F 10 (allocator kv)) (\<lambda>al. churn_steps F (kv\<lparr>allocator := al\<rparr>)))"
  unfolding export_churn_scenario_def churn_steps_def Let_def by (simp add: churn_facts(4))

text \<open>The checks and the fixture at the end, once the three sequences are there.\<close>

lemma churn_fixture:
  fixes F :: "'f floats"
  defines "sc \<equiv> churn_scenario F"
  defines "l \<equiv> \<lparr>kvl_shape = scenario_shape sc\<rparr>"
  assumes F: "float_ok F" and inv: "kv_inv kv" and env: "fill_env l kv" and cap: "capacity (allocator kv) = 10"
    and checks: "\<forall>i<3. self_checks F sc (scenario_shape sc) i"
    and frames: "seq_frames kv 1 ps" "seq_frames kv 2 cs" "seq_frames kv 3 rs" "length ps = 3" "length cs = 3" "length rs = 2"
    and pattern: "holds_pattern F l 0 10 kv 1" "holds_pattern F l 1 10 kv 2" "holds_pattern F l 2 6 kv 3"
  defines "frames \<equiv> \<lambda>i. [ps, cs, rs] ! i"
  shows "write_fixture F sc (scenario_shape sc) l kv [1, 2, 3] 10 3
      = Inr (fixture_files F sc (scenario_shape sc) (pool_copy l (allocator kv)) 10 3 frames)"
    and "i < 3 \<Longrightarrow> reads_pattern F sc (pool_copy l (allocator kv)) frames i \<and> length (frames i) = blocks_for 4 (sc_context_lens sc ! i)"
proof -
  note churn = churn_facts [of F, folded sc_def]
  let ?sids = "[1, 2, 3] :: SequenceId list"
  have each: "seq_frames kv (?sids ! i) (frames i) \<and> holds_pattern F l (of_nat i) (sc_context_lens sc ! i) kv (?sids ! i)
      \<and> sc_context_lens sc ! i \<noteq> 0 \<and> length (frames i) = blocks_for 4 (sc_context_lens sc ! i) \<and> length (frames i) \<le> 3" if "i < 3" for i
  proof -
    have "i = 0 \<or> i = 1 \<or> i = 2" using that by auto
    then show ?thesis using frames pattern churn(4) churn_blocks by (elim disjE) (simp_all add: frames_def)
  qed
  have "batch_ready F sc l kv ?sids frames" using each checks churn(4,6) by (simp add: batch_ready_def l_def)
  moreover have "\<forall>i<length ?sids. length (frames i) \<le> unat (3 :: u32)"
  proof (intro allI impI)
    fix i
    assume "i < length ?sids"
    then have "i < 3" by simp
    then have "length (frames i) \<le> 3" using each by blast
    then show "length (frames i) \<le> unat (3 :: u32)" by simp
  qed
  ultimately show "write_fixture F sc (scenario_shape sc) l kv ?sids 10 3
      = Inr (fixture_files F sc (scenario_shape sc) (pool_copy l (allocator kv)) 10 3 frames)"
    using write_fixture_files [OF F inv, of "scenario_shape sc" sc ?sids frames 3 10] env churn(2,3) cap unfolding l_def by simp
  show "reads_pattern F sc (pool_copy l (allocator kv)) frames i \<and> length (frames i) = blocks_for 4 (sc_context_lens sc ! i)" if "i < 3"
    unfolding reads_pattern_def Let_def l_def [symmetric]
    using pool_copy_pattern [OF inv env conjunct1 [OF each [OF that]] conjunct1 [OF conjunct2 [OF each [OF that]]]] each [OF that]
    by (simp add: l_def scenario_shape_def)
qed

lemma churn_steps_ok:
  fixes F :: "'f floats"
  defines "sc \<equiv> churn_scenario F"
  defines "l \<equiv> \<lparr>kvl_shape = scenario_shape sc\<rparr>"
  assumes env: "float_ok F" "kv_inv kv0" "fill_env l kv0" "0 < capacity (allocator kv0)" "table_count kv0 = 1"
    and ok0: "pool_ok kv0 kv0" and none: "\<And>sid. sequences kv0 sid = None" and free0: "length (free_list (allocator kv0)) = 10"
    and cap: "capacity (allocator kv0) = 10" and checks: "\<forall>i<3. self_checks F sc (scenario_shape sc) i"
  shows "\<exists>bytes frames. churn_steps F kv0 = Inr (fixture_files F sc (scenario_shape sc) bytes 10 3 frames)
      \<and> (\<forall>i<3. reads_pattern F sc bytes frames i \<and> length (frames i) = blocks_for 4 (sc_context_lens sc ! i))
      \<and> set (frames 0) \<inter> set (frames 1) = {}"
proof -
  note churn = churn_facts [of F, folded sc_def]
  have three: "blocks_for 4 10 = 3" "(10 :: u32) \<le> 10" "(3 :: nat) \<le> 3" "3 \<le> length (free_list (allocator kv0))"
    using free0 churn_blocks by simp_all
  obtain ps where ps: "ps = take 3 (rev (free_list (allocator kv0)))" "length ps = 3" using free0 by simp
  obtain kv1 where kv1: "build_sequence F sc ''parent'' 1 0 10 kv0 = Inr kv1" "pool_ok kv0 kv1" "seq_frames kv1 1 ps"
    "holds_pattern F l 0 10 kv1 1" "\<forall>p\<in>set ps. ref_of (allocator kv1) p \<le> 1" "\<forall>other. other \<noteq> 1 \<longrightarrow> untouched kv0 kv1 other"
    "length (free_list (allocator kv0)) \<le> length (free_list (allocator kv1)) + 3"
    using churn_build [where F = F and what = "''parent''" and salt = 0 and sid = 1, folded sc_def, folded l_def, OF env ok0 none three]
    unfolding ps(1) [symmetric] by blast
  have fresh1: "sequences kv1 other = None" if "other \<noteq> 1" for other using kv1(6) none that by (simp add: untouched_def)
  have room: "length ps = blocks_for (sc_tokens_per_block sc) 10" "length ps \<le> length (free_list (allocator kv1))"
    using ps(2) kv1(7) free0 churn(5) churn_blocks by simp_all
  have apart: "(1 :: SequenceId) \<noteq> 2" and child: "sequences kv1 2 = None" using fresh1 [of 2] by simp_all
  obtain kv2 kv3 cs where kv3: "fork_sequence kv1 1 (plain_metadata 2) = (True, kv2)" "fill_sequence F (scenario_shape sc) l kv2 2 1 10 = Inr kv3"
    "pool_ok kv0 kv3" "seq_frames kv3 2 cs" "length cs = length ps" "holds_pattern F l 1 10 kv3 2" "set cs \<inter> set ps = {}"
    "\<forall>other. other \<noteq> 2 \<longrightarrow> untouched kv1 kv3 other" "length (free_list (allocator kv1)) \<le> length (free_list (allocator kv3)) + length ps"
    using fill_fork_ok [where salt = 1 and sc = sc, folded l_def, OF env(1) churn(1) env(2-5) kv1(2,3,5) child apart room] by blast
  have fresh3: "sequences kv3 100 = None" "sequences kv3 3 = None" "4 \<le> length (free_list (allocator kv3))"
    using kv3(8,9) fresh1 [of 100] fresh1 [of 3] kv1(7) free0 ps(2) by (simp_all add: untouched_def)
  obtain kv4 kv5 vs rs where kv5: "build_sequence F sc ''victim'' 100 7 10 kv3 = Inr kv4" "pool_ok kv0 kv4" "seq_frames kv4 100 vs"
    "build_sequence F sc ''recycled'' 3 2 6 (release_sequence kv4 100) = Inr kv5" "pool_ok kv0 kv5" "seq_frames kv5 3 rs" "length rs = 2"
    "set rs \<subseteq> set vs" "holds_pattern F l 2 6 kv5 3" "\<forall>other. other \<noteq> 100 \<longrightarrow> other \<noteq> 3 \<longrightarrow> untouched kv3 kv5 other"
    by (rule recycle_ok [where F = F, folded sc_def, folded l_def, OF env kv3(3) fresh3]) (rule that)
  have parent: "untouched kv1 kv5 1" by (rule untouched_trans [of kv1 kv3]) (use kv3(8) kv5(10) in simp_all)
  have child: "untouched kv3 kv5 2" using kv5(10) by simp
  note frames = untouched_frames [OF parent kv1(3)] untouched_frames [OF child kv3(4)] kv5(6)
  note pattern = untouched_pattern [OF parent kv1(4)] untouched_pattern [OF child kv3(6)] kv5(9)
  have inv5: "kv_inv kv5" "kv_inv kv4" using kv5(2,5) by (simp_all add: pool_ok_def)
  have env5: "fill_env l kv5" "fill_env l kv4"
    using fill_env_layout [OF env(3,2) inv5(1) _ env(4)] fill_env_layout [OF env(3,2) inv5(2) _ env(4)] kv5(2,5) by (simp_all add: pool_ok_def)
  note mapped = mapped_frames_eq [OF inv5(2) env5(2) kv5(3)] mapped_frames_eq [OF inv5(1) env5(1) frames(1)]
    mapped_frames_eq [OF inv5(1) env5(1) frames(2)] mapped_frames_eq [OF inv5(1) env5(1) frames(3)]
  have checked: "churn_premises sc vs ps cs rs = Inr ()"
  proof -
    have "try_loop (\<lambda>_ frame. require (frame \<notin> set ps) what) cs () = Inr ()" for what
      using kv3(7) by (intro try_loop_unit) (auto simp: require_def)
    moreover have "list_ex (\<lambda>frame. frame \<in> set vs) rs" using kv5(7,8) by (cases rs) simp_all
    ultimately show ?thesis using churn(4,5) by (simp add: churn_premises_def)
  qed
  have cap5: "capacity (allocator kv5) = 10" using pool_ok_shape(3) [OF kv5(5)] cap by simp
  have lens: "length ps = 3" "length cs = 3" using ps(2) kv3(5) by simp_all
  note fixture = churn_fixture [where F = F, folded sc_def, folded l_def, OF env(1) inv5(1) env5(1) cap5 checks frames lens kv5(7) pattern]
  have "churn_steps F kv0 = Inr (fixture_files F sc (scenario_shape sc) (pool_copy l (allocator kv5)) 10 3 (\<lambda>i. [ps, cs, rs] ! i))"
    unfolding churn_steps_def sc_def [symmetric] Let_def l_def [symmetric]
    using kv1(1) kv3(1,2) kv5(1,4) mapped checked fixture(1) by (simp add: required_def)
  moreover have "set ([ps, cs, rs] ! 0) \<inter> set ([ps, cs, rs] ! 1) = {}" using kv3(7) by auto
  ultimately show ?thesis using fixture(2) by blast
qed

lemma export_churn_files:
  fixes F :: "'f floats"
  defines "sc \<equiv> churn_scenario F"
  assumes F: "float_ok F" and slab: "slab_for (exporter_config sc 10) slab"
    and checks: "\<forall>i<3. self_checks F sc (scenario_shape sc) i"
  shows "\<exists>bytes frames. export_churn_scenario F (Some slab) = Inr (fixture_files F sc (scenario_shape sc) bytes 10 3 frames)
      \<and> (\<forall>i<3. reads_pattern F sc bytes frames i \<and> length (frames i) = blocks_for 4 (sc_context_lens sc ! i))
      \<and> set (frames 0) \<inter> set (frames 1) = {}"
proof -
  let ?al = "MemoryAllocator_new (exporter_config sc 10) (Some slab)"
  note churn = churn_facts [of F, folded sc_def]
  have ten: "(10 :: u32) \<noteq> 0" by simp
  note al = exporter_pool [OF churn(1) ten slab]
  obtain bytes where fresh: "prefill_frames F 10 ?al = Inr (?al\<lparr>pool := bytes\<rparr>)" "alloc_inv (?al\<lparr>pool := bytes\<rparr>)"
    using prefill_frames_ok [OF F al(1), of 10] al(4) by auto
  note kv0 = exporter_cache [OF churn(1) ten slab fresh(2)]
  have run: "export_churn_scenario F (Some slab) = churn_steps F ((KVCacheManager_new ?al)\<lparr>allocator := ?al\<lparr>pool := bytes\<rparr>\<rparr>)"
    unfolding export_churn_steps sc_def [symmetric] Let_def using fresh(1) by (simp add: KVCacheManager_new_def)
  define kv where "kv = (KVCacheManager_new ?al)\<lparr>allocator := ?al\<lparr>pool := bytes\<rparr>\<rparr>"
  note kv0 = kv0 [folded kv_def]
  have "kv_inv kv" "pool_ok kv kv" "0 < capacity (allocator kv)" "sequences kv sid = None" "length (free_list (allocator kv)) = 10"
    "capacity (allocator kv) = 10" for sid
    using kv0(1-4) by (simp_all add: setup_ok_def pool_ok_def)
  from churn_steps_ok [where F = F, folded sc_def, OF F this(1) kv0(5) this(3) kv0(6) this(2,4-6) checks]
  show ?thesis unfolding run kv_def [symmetric] .
qed

section \<open>The tool\<close>

text \<open>The files of a fixture that a consumer can read.\<close>

definition fixture_of :: "'f floats \<Rightarrow> 'f Scenario \<Rightarrow> u32 \<Rightarrow> u32 \<Rightarrow> npy_file list \<Rightarrow> bool" where
  "fixture_of F sc pool_blocks max_blocks_per_seq fs \<longleftrightarrow>
     (\<exists>bytes frames. fs = fixture_files F sc (scenario_shape sc) bytes pool_blocks max_blocks_per_seq frames
        \<and> (\<forall>i<length (sc_context_lens sc). reads_pattern F sc bytes frames i
             \<and> length (frames i) = blocks_for (sc_tokens_per_block sc) (sc_context_lens sc ! i)))"

abbreviation all_self_check :: "'f floats \<Rightarrow> 'f Scenario \<Rightarrow> bool" where
  "all_self_check F sc \<equiv> \<forall>i<length (sc_context_lens sc). self_checks F sc (scenario_shape sc) i"

lemma export_scenario_fixture:
  assumes "float_ok F" and "scenario_ok sc" and "slab_for (exporter_config sc (scenario_pool_blocks sc)) slab" and "all_self_check F sc"
  shows "\<exists>fs. export_scenario F (Some slab) sc = Inr fs \<and> fixture_of F sc (scenario_pool_blocks sc) (foldl max 0 (blocks_per_seq sc)) fs"
  using export_scenario_files [OF assms] unfolding fixture_of_def by blast

lemma export_churn_fixture:
  assumes "float_ok F" and "slab_for (exporter_config (churn_scenario F) 10) slab" and "all_self_check F (churn_scenario F)"
  shows "\<exists>fs. export_churn_scenario F (Some slab) = Inr fs \<and> fixture_of F (churn_scenario F) 10 3 fs"
proof -
  have "\<forall>i<3. self_checks F (churn_scenario F) (scenario_shape (churn_scenario F)) i" using assms(3) by (simp add: churn_facts(4))
  from export_churn_files [OF assms(1,2) this] show ?thesis
    unfolding fixture_of_def by (auto simp: churn_facts(4,5) numeral_3_eq_3)
qed

lemma scenarios_ok: "list_all scenario_ok (scenarios F)"
  by (simp add: scenarios_def scenario_ok_def shape_ok_def heads_ok_def scalars_fit_def scalar_fields_def scenario_shape_def
      layout_elements_def frame_layers_def head_stride_def token_stride_def stream_stride_def layer_stride_def kKVStreamCount_def
      frame_width_def blocks_per_seq_def)

text \<open>A run over any list of scenarios that can be exported.\<close>

lemma export_loop_ok:
  assumes F: "float_ok F" and len: "length slabs = length scs"
    and each: "list_all2 (\<lambda>slab sc. scenario_ok sc \<and> slab_for (exporter_config sc (scenario_pool_blocks sc)) slab \<and> all_self_check F sc) slabs scs"
  shows "\<exists>fss. try_loop (\<lambda>files (slab, sc). and_then (export_scenario F slab sc) (\<lambda>fs. Inr (files @ fs))) (zip (map Some slabs) scs) files
      = Inr (files @ concat fss)
    \<and> list_all2 (\<lambda>sc. fixture_of F sc (scenario_pool_blocks sc) (foldl max 0 (blocks_per_seq sc))) scs fss"
  using len each
proof (induction slabs scs arbitrary: files rule: list_induct2)
  case Nil
  show ?case by simp
next
  case (Cons slab slabs sc scs)
  obtain fs where fs: "export_scenario F (Some slab) sc = Inr fs" "fixture_of F sc (scenario_pool_blocks sc) (foldl max 0 (blocks_per_seq sc)) fs"
    using export_scenario_fixture [OF F, of sc slab] Cons.prems by auto
  obtain fss where fss: "try_loop (\<lambda>files (slab, sc). and_then (export_scenario F slab sc) (\<lambda>fs. Inr (files @ fs))) (zip (map Some slabs) scs) (files @ fs)
      = Inr ((files @ fs) @ concat fss)" "list_all2 (\<lambda>sc. fixture_of F sc (scenario_pool_blocks sc) (foldl max 0 (blocks_per_seq sc))) scs fss"
    using Cons.IH [of "files @ fs"] Cons.prems by auto
  then show ?case using fs by (intro exI [of _ "fs # fss"]) simp
qed

lemma golden_main_ok:
  assumes F: "float_ok F"
    and slabs: "list_all2 (\<lambda>slab sc. slab_for (exporter_config sc (scenario_pool_blocks sc)) slab) slabs (scenarios F)"
    and churn: "slab_for (exporter_config (churn_scenario F) 10) churn_slab"
    and checks: "list_all (all_self_check F) (scenarios F)" "all_self_check F (churn_scenario F)"
  shows "\<exists>fss churn_files. golden_main F (map Some slabs) (Some churn_slab) = (0, concat fss @ churn_files)
    \<and> list_all2 (\<lambda>sc. fixture_of F sc (scenario_pool_blocks sc) (foldl max 0 (blocks_per_seq sc))) (scenarios F) fss
    \<and> fixture_of F (churn_scenario F) 10 3 churn_files"
proof -
  have "list_all2 (\<lambda>slab sc. scenario_ok sc \<and> slab_for (exporter_config sc (scenario_pool_blocks sc)) slab \<and> all_self_check F sc) slabs (scenarios F)"
    using slabs scenarios_ok [of F] checks(1) by (simp add: list_all2_conv_all_nth list_all_length)
  from export_loop_ok [OF F list_all2_lengthD [OF slabs] this, of "[]"]
  obtain fss where fss: "try_loop (\<lambda>files (slab, sc). and_then (export_scenario F slab sc) (\<lambda>fs. Inr (files @ fs)))
      (zip (map Some slabs) (scenarios F)) [] = Inr (concat fss)"
    "list_all2 (\<lambda>sc. fixture_of F sc (scenario_pool_blocks sc) (foldl max 0 (blocks_per_seq sc))) (scenarios F) fss" by auto
  obtain fs where "export_churn_scenario F (Some churn_slab) = Inr fs" "fixture_of F (churn_scenario F) 10 3 fs"
    using export_churn_fixture [OF F churn checks(2)] by blast
  then show ?thesis using fss by (intro exI [of _ fss] exI [of _ fs]) (simp add: golden_main_def)
qed

end
