(* ===== verification/GoldenFiles.thy ===== *)
theory GoldenFiles
  imports GoldenExport
begin

text \<open>
  The layout of a \<^verbatim>\<open>.npy\<close> file as \<^verbatim>\<open>write_npy\<close> produces it, read the way the format defines it: the magic string and
  version, the little-endian length of the header, the header padded to a multiple of 64 bytes, the data.
\<close>

lemma length_to_string: "n < 10 ^ Suc k \<Longrightarrow> length (to_string n) \<le> Suc k"
proof (induction k arbitrary: n)
  case 0
  then show ?case by (subst to_string.simps) simp
next
  case (Suc k)
  show ?case
  proof (cases "n < 10")
    case True
    then show ?thesis by (subst to_string.simps) simp
  next
    case False
    have "n div 10 < 10 ^ Suc k" using Suc.prems by (simp add: div_less_iff_less_mult)
    from Suc.IH [OF this] False show ?thesis by (subst to_string.simps) simp
  qed
qed

lemma length_to_string_u64: "length (to_string (unat (w :: u64))) \<le> 20"
proof -
  have len: "0 < k \<Longrightarrow> n < 10 ^ k \<Longrightarrow> length (to_string n) \<le> k" for n k using length_to_string [of n "k - 1"] by simp
  have "(18446744073709551616 :: nat) < 10 ^ 20" by simp
  then have lt: "unat w < 10 ^ 20" using less_trans unat_u64_lt by blast
  show ?thesis by (rule len [OF _ lt]) simp
qed

lemma length_concat_map_le:
  assumes "\<And>x. x \<in> set xs \<Longrightarrow> length (f x) \<le> m"
  shows "length (concat (map f xs)) \<le> m * length xs"
  using assms
proof (induction xs)
  case (Cons x xs)
  then have "length (f x) \<le> m" "length (concat (map f xs)) \<le> m * length xs" by simp_all
  then show ?case by simp
qed simp

lemma length_shape_text: "length (shape_text shape) \<le> 22 * length shape"
proof -
  have "length (to_string (unat (shape ! i)) @ (if i + 1 < length shape then '', '' else if length shape = 1 then '','' else [])) \<le> 22" for i
    using length_to_string_u64 [of "shape ! i"] by simp
  then have "length (shape_text shape) \<le> 22 * length [0..<length shape]"
    unfolding shape_text_def by (intro length_concat_map_le) simp
  then show ?thesis by simp
qed

lemma npy_header_length:
  shows "(10 + length (npy_header descr shape)) mod 64 = 0" and "length (npy_header descr shape) \<le> length (npy_dict descr shape) + 64"
proof -
  let ?n = "length (npy_dict descr shape)"
  let ?u = "10 + ?n + 1"
  let ?p = "(?u + 63) div 64 * 64"
  have "?p + (?u + 63) mod 64 = ?u + 63" by (rule div_mult_mod_eq)
  moreover have "(?u + 63) mod 64 < 64" by simp
  ultimately have le: "?u \<le> ?p" "?p \<le> ?u + 63" by linarith+
  have len: "length (npy_header descr shape) = ?n + (?p - ?u) + 1" by (simp add: npy_header_def Let_def)
  then have "10 + length (npy_header descr shape) = ?p" using le by linarith
  then show "(10 + length (npy_header descr shape)) mod 64 = 0" by simp
  show "length (npy_header descr shape) \<le> ?n + 64" using len le by linarith
qed

lemma npy_header_small:
  assumes "length descr \<le> 100" and "length shape \<le> 2000"
  shows "length (npy_header descr shape) < 65536"
proof -
  have "length (npy_dict descr shape) \<le> 200 + 22 * length shape"
    using assms(1) length_shape_text [of shape] by (simp add: npy_dict_def)
  then show ?thesis using npy_header_length(2) [of descr shape] assms(2) by linarith
qed

lemma header_len_bytes:
  assumes "n < 65536"
  shows "unat (ucast (of_nat n :: 16 word) :: u8) + 256 * unat (ucast (drop_bit 8 (of_nat n :: 16 word)) :: u8) = n"
proof -
  have n: "unat (of_nat n :: 16 word) = n" using assms by (simp add: unat_of_nat)
  have lo: "unat (ucast (of_nat n :: 16 word) :: u8) = n mod 256"
    using n by (simp add: unsigned_ucast_eq take_bit_eq_mod)
  have "unat (drop_bit 8 (of_nat n :: 16 word)) = n div 256" using n by (simp add: drop_bit_eq_div unat_div)
  then have "unat (ucast (drop_bit 8 (of_nat n :: 16 word)) :: u8) = n div 256 mod 256" by (simp add: unsigned_ucast_eq take_bit_eq_mod)
  moreover have "n div 256 < 256" using assms by (simp add: div_less_iff_less_mult)
  ultimately show ?thesis using lo by simp
qed

lemma npy_header_last: "last (map of_char (npy_header descr shape)) = (10 :: u8)"
  by (simp add: npy_header_def Let_def)

lemma write_npy_layout:
  fixes data :: "u8 list" and element_bytes :: u64
  assumes "length descr \<le> 100" and "length shape \<le> 2000"
  defines "f \<equiv> write_npy descr shape data element_bytes" and "h \<equiv> map of_char (npy_header descr shape) :: u8 list"
  shows "take 8 f = npy_magic" and "unat (f ! 8) + 256 * unat (f ! 9) = length h" and "(10 + length h) mod 64 = 0" and "last h = 10"
    and "segment 10 (length h) f = h" and "drop (10 + length h) f = take (unat (foldl (*) 1 shape * element_bytes)) data"
proof -
  let ?n = "of_nat (length (npy_header descr shape)) :: 16 word"
  have magic: "length npy_magic = 8" by (simp add: npy_magic_def)
  have f: "f = npy_magic @ [ucast ?n, ucast (drop_bit 8 ?n)] @ h @ take (unat (foldl (*) 1 shape * element_bytes)) data"
    by (simp add: f_def h_def write_npy_def Let_def)
  show "take 8 f = npy_magic" using magic unfolding f by simp
  show "unat (f ! 8) + 256 * unat (f ! 9) = length h"
    using header_len_bytes [OF npy_header_small [OF assms(1,2)]] magic unfolding f by (simp add: nth_append h_def)
  show "(10 + length h) mod 64 = 0" "last h = 10" using npy_header_length(1) npy_header_last by (simp_all add: h_def)
  show "segment 10 (length h) f = h" "drop (10 + length h) f = take (unat (foldl (*) 1 shape * element_bytes)) data"
    using magic unfolding f by (simp_all add: segment_def)
qed

end
