(* ===== verification/Demo.thy ===== *)
theory Demo
  imports SchedulerProgress AttentionOpt ReplayProps PagedProps GoldenMain GoldenFiles
begin

text \<open>
  A concrete pool of four frames of four bytes (two tokens per block, one layer, one head, one
  byte per element) with an eight-slot swap backend, and a short run on it: one sequence with two
  reserved blocks, then a fork of it. The witnesses apply the properties to these states.
\<close>

definition demo_config :: AllocatorConfig where
  "demo_config =
     \<lparr>block_shape = \<lparr>tokens_per_block = 2, num_layers = 1, num_kv_heads = 1, head_dim = 1,
                    bytes_per_element = 1, layers_per_frame = 0\<rparr>,
      memory_options = \<lparr>alignment_bytes = 4, prefer_pinned_memory = False\<rparr>,
      max_blocks = 4\<rparr>"

definition demo_meta :: "SequenceId \<Rightarrow> RequestId \<Rightarrow> SequenceMetadata" where
  "demo_meta sid rid =
     \<lparr>sm_sequence_id = sid, sm_request_id = rid, sm_multimodal_spans = [],
      sm_positional_encoding = []\<rparr>"

definition demo_al :: MemoryAllocator where
  "demo_al = set_swap_backend (MemoryAllocator_new demo_config (Some (replicate 16 7)))
     (Some (HostSwapBackend_new 8))"

definition demo_kv0 :: KVCacheManager where
  "demo_kv0 = KVCacheManager_new demo_al"

definition demo_kv1 :: KVCacheManager where
  "demo_kv1 = snd (create_sequence demo_kv0 (demo_meta 1 10))"

definition demo_kv2 :: KVCacheManager where
  "demo_kv2 = snd (reserve_tokens demo_kv1 1 3)"

definition demo_kv3 :: KVCacheManager where
  "demo_kv3 = snd (fork_sequence demo_kv2 1 (demo_meta 2 10))"

definition demo_pub :: KVCacheManager where
  "demo_pub = snd (publish_prefix demo_kv2 1 ''p'')"

definition demo_pub2 :: KVCacheManager where
  "demo_pub2 = snd (create_sequence demo_pub (demo_meta 3 11))"

definition demo_request :: "RequestId \<Rightarrow> u32 \<Rightarrow> Request" where
  "demo_request rid prompt =
     \<lparr>request_id = rid, root_sequence_id = rid, prompt_tokens = prompt,
      sampling = \<lparr>num_parallel_samples = 1, max_decode_tokens = 0\<rparr>, rq_multimodal_spans = [],
      rq_positional_encoding = [], rq_prefix_key = [], rq_state = Pending,
      remaining_prefill_tokens = 0, admission_skips = 0, lifetime_blocks = 0\<rparr>"

definition demo_sched :: Scheduler where
  "demo_sched =
     Scheduler_new \<lparr>max_active_requests = 8, max_batch_tokens = 5, preemption_watermark_blocks = 1,
       size_aware_admission = False, admission_skip_limit = 8\<rparr> demo_kv0"

definition demo_waiting :: Scheduler where
  "demo_waiting = enqueue demo_sched (demo_request 1 3)"

definition demo_sched1 :: Scheduler where
  "demo_sched1 = snd (schedule_next (enqueue demo_sched (demo_request 1 3)))"

text \<open>Two admitted requests, of one and of two blocks, and a scheduler over the two-block sequence of
  request 10.\<close>

definition demo_sched2 :: Scheduler where
  "demo_sched2 = snd (schedule_next (enqueue (enqueue demo_sched (demo_request 1 2)) (demo_request 2 3)))"

text \<open>The scheduler after the first of the two was preempted and cancelled and the second cancelled.\<close>

definition demo_drained :: Scheduler where
  "demo_drained = cancel (cancel (snd (preempt demo_sched2 1 ''test'')) 1) 2"

definition demo_running :: Scheduler where
  "demo_running = demo_sched\<lparr>cache_manager := demo_kv2, lifetime_held := 2,
     active := [(demo_request 10 3)\<lparr>root_sequence_id := 1, rq_state := Prefill,
                  remaining_prefill_tokens := 3, lifetime_blocks := 2\<rparr>]\<rparr>"

text \<open>A view of the two-block sequence, and attention over it with two query heads and three tokens.\<close>

definition demo_view :: CacheView where
  "demo_view = the (cache_view demo_kv2 1 TextKV)"

definition demo_params :: "'f \<Rightarrow> 'f PagedAttentionParams" where
  "demo_params scale = \<lparr>pa_layer = 0, pa_num_query_heads = 2, pa_context_len = 3, pa_scale = scale\<rparr>"

text \<open>Attention arithmetic over the rationals, with one byte per element.\<close>

definition demo_arith :: "(u8, rat) arith" where
  "demo_arith =
     \<lparr>elem_size = 1, elem_of_bytes = hd, to_float = (\<lambda>b. of_nat (unat b)),
      from_float = (\<lambda>q. of_int (floor q)), fl_zero = 0, fl_one = 1, fl_neg_inf = -1000000,
      fl_add = (+), fl_sub = (-), fl_mul = (*), fl_div = (/), fl_exp = (\<lambda>q. q + 1), fl_less = (<), fl_eq = (=)\<rparr>"

text \<open>A replay of three requests on four blocks.\<close>

definition demo_replay_config :: ReplayConfig where
  "demo_replay_config =
     \<lparr>rc_tokens_per_block = 2, rc_max_blocks = 4, rc_max_active_requests = 2, rc_max_batch_tokens = 8,
      rc_preemption_watermark_blocks = 0, swap_slots = 0, rc_size_aware_admission = False,
      rc_admission_skip_limit = 8, prefix_caching = False, baseline_max_context = 100, max_steps = 20\<rparr>"

definition demo_trace_request :: "RequestId \<Rightarrow> u32 \<Rightarrow> u32 \<Rightarrow> TraceRequest" where
  "demo_trace_request rid prompt budget =
     \<lparr>tr_request_id = rid, arrival_us = 0, text_tokens = prompt, tr_prompt_tokens = prompt,
      decode_budget = budget, decode_actual = budget, tr_num_parallel_samples = 1, tr_prefix_key = [],
      images = [], tr_multimodal_spans = [], tr_positional_encoding = []\<rparr>"

definition demo_trace :: Trace where
  "demo_trace =
     \<lparr>header = \<lparr>th_model = [], th_mix = [], th_dimension_source = [], th_pixel_budget = [], th_seed = 0,
        th_num_requests = 3, th_num_layers = 1, th_num_kv_heads = 1, th_head_dim = 1, th_bytes_per_element = 1,
        th_max_prompt_tokens = 3, th_max_decode_budget = 2, th_visual_tokens_max = 0, th_images_total = 0\<rparr>,
      requests = [demo_trace_request 1 3 1, demo_trace_request 2 2 2, demo_trace_request 3 1 1]\<rparr>"

text \<open>One request of one token on a single block: a paged replay that completes.\<close>

definition demo_one_trace :: Trace where
  "demo_one_trace = demo_trace\<lparr>requests := [demo_trace_request 1 1 1]\<rparr>"

definition demo_one_config :: ReplayConfig where
  "demo_one_config = demo_replay_config\<lparr>rc_max_blocks := 1\<rparr>"

text \<open>Floats for the exporter: bytes, stored in the first of four bytes, with the arithmetic modulo 256. A batch of
  two scattered sequences of two blocks each.\<close>

definition demo_floats :: "u8 floats" where
  "demo_floats =
     \<lparr>fl_ops = \<lparr>elem_size = 4, elem_of_bytes = hd, to_float = (\<lambda>x. x), from_float = (\<lambda>x. x), fl_zero = 0, fl_one = 1,
        fl_neg_inf = 0, fl_add = (+), fl_sub = (-), fl_mul = (*), fl_div = (div), fl_exp = (\<lambda>x. x + 1), fl_less = (<), fl_eq = (=)\<rparr>,
      float_bytes = (\<lambda>v. [v, 0, 0, 0]), float_of_u32 = ucast, float_literal = (\<lambda>q. of_int (floor q)),
      fl_abs = (\<lambda>x. x), fl_le = (\<le>)\<rparr>"

definition demo_scenario :: "u8 Scenario" where
  "demo_scenario =
     \<lparr>sc_name = ''demo'', sc_purpose = [], sc_tokens_per_block = 2, sc_num_layers = 1, sc_num_kv_heads = 1, sc_head_dim = 1,
      sc_num_query_heads = 2, sc_layer = 0, sc_scale = 1, sc_context_lens = [3, 4], sc_scatter = True\<rparr>"

declare demo_config_def [demo_defs] demo_sched_def [demo_defs] Scheduler_new_def [demo_defs]
  demo_request_def [demo_defs] demo_running_def [demo_defs] demo_meta_def [demo_defs]

section \<open>The invariant holds along the run\<close>

lemma demo_stride: "block_stride_for demo_config = 4" and demo_max: "max_blocks demo_config = 4"
  by code_simp+

lemma demo_al_inv: "alloc_inv demo_al" "alloc_refs demo_al = {#}" "slots_of demo_al = {#}"
proof -
  let ?al = "MemoryAllocator_new demo_config (Some (replicate 16 7))"
  have base: "alloc_inv ?al" "alloc_refs ?al = {#}"
    by (rule MemoryAllocator_new_inv; simp add: demo_stride demo_max)+
  show "alloc_inv demo_al"
    unfolding demo_al_def set_swap_backend_def
    by (rule set_backend_inv [OF base(1) hsb_invar_new])
      (simp add: hsb_contents_def HostSwapBackend_new_def)
  show "alloc_refs demo_al = {#}"
    using base(2) by (simp add: demo_al_def set_swap_backend_def alloc_refs_def)
  show "slots_of demo_al = {#}"
    by (simp add: demo_al_def set_swap_backend_def slots_of_def hsb_contents_def HostSwapBackend_new_def)
qed

lemma demo_kv0_inv: "kv_inv demo_kv0"
  using demo_al_inv unfolding demo_kv0_def by (rule KVCacheManager_new_inv)

lemma demo_kv1_inv: "kv_inv demo_kv1"
  using create_sequence_step(1) [OF demo_kv0_inv, of "demo_meta 1 10"]
  unfolding demo_kv1_def by (metis surjective_pairing)

lemma demo_tpb: "kv_tokens_per_block demo_kv0 = 2" "kv_tokens_per_block demo_kv1 = 2"
    "kv_tokens_per_block demo_kv2 = 2"
  by code_simp+

lemma demo_kv1_tables: "map_option (\<lambda>st. map (length \<circ> entries) (tables st)) (sequences demo_kv1 1) = Some [0]"
  by code_simp

lemma demo_kv1_fits: "reserve_fits demo_kv1 1 3"
proof -
  obtain st t where "sequences demo_kv1 1 = Some st" "tables st = [t]" "entries t = []"
    using demo_kv1_tables by (auto simp: map_eq_Cons_conv)
  then show ?thesis by (simp add: reserve_fits_def demo_tpb blocks_for_def)
qed

lemma demo_kv2_inv: "kv_inv demo_kv2"
  using reserve_refines [OF demo_kv1_inv demo_kv1_fits] unfolding demo_kv2_def by blast

text \<open>Small reference counts leave room for every operation.\<close>

lemma refs_roomI:
  assumes inv: "kv_inv kv" and small: "list_all (\<lambda>i. ref_count i \<le> 100) (infos (allocator kv))"
  shows "refs_room kv"
proof -
  have "count (kv_refs kv) p \<le> 100" for p
  proof -
    have "ref_of (allocator kv) p \<le> 100"
      using small by (auto simp: ref_of_def list_all_length word_le_nat_alt)
    then show ?thesis using owns_ref_of [OF kv_inv_owns [OF inv]] by simp
  qed
  then have "2 * count (kv_refs kv) p \<le> 200" for p using mult_le_mono2 [of _ 100 2] by simp
  then show ?thesis unfolding refs_room_def by (intro allI) (rule le_less_trans, assumption, simp)
qed

lemma demo_kv2_room: "refs_room demo_kv2"
proof (rule refs_roomI [OF demo_kv2_inv])
  show "list_all (\<lambda>i. ref_count i \<le> 100) (infos (allocator demo_kv2))" by code_simp
qed

lemma demo_kv3_inv: "kv_inv demo_kv3"
  using fork_refines [OF demo_kv2_inv demo_kv2_room] unfolding demo_kv3_def by blast

lemma demo_runs:
  "fst (create_sequence demo_kv0 (demo_meta 1 10))" "fst (reserve_tokens demo_kv1 1 3)"
  "fst (fork_sequence demo_kv2 1 (demo_meta 2 10))"
  "fst (ensure_token_writable demo_kv3 2 0 TextKV 0) = Some 1"
  "fst (swap_out_sequence demo_kv2 1) = 2"
  "fst (swap_in_sequence (snd (swap_out_sequence demo_kv2 1)) 1)"
  by code_simp+

lemma demo_swap_room: "swap_room (allocator demo_kv2) 2"
proof -
  have "map_option next_slot (al_swap_backend (allocator demo_kv2)) = Some 1" by code_simp
  then show ?thesis by (auto simp: swap_room_def)
qed

lemma demo_blocks: "seq_blocks demo_kv2 1 = 2" "kv_swapped (snd (swap_out_sequence demo_kv2 1)) 1 = 2"
  "length (free_list (allocator demo_kv2)) = 2"
  by code_simp+

lemma demo_users:
  "map_option prefix_key (sequences demo_kv2 1) = Some []"
  "card (dom (sequences demo_kv2)) = 1"
proof -
  show "map_option prefix_key (sequences demo_kv2 1) = Some []" by code_simp
  have "dom (sequences demo_kv2) = {1}"
  proof -
    have "sequences demo_kv0 = Map.empty" by (simp add: demo_kv0_def KVCacheManager_new_def)
    then have "dom (sequences demo_kv1) = {1}"
      by (simp add: demo_kv1_def create_sequence_def index_sequence_def Let_def demo_meta_def)
    moreover have "dom (sequences (snd (reserve_tokens demo_kv1 1 3))) = insert 1 (dom (sequences demo_kv1))"
      if "sequences demo_kv1 1 \<noteq> None"
      using that by (auto simp: reserve_tokens_def Let_def split: option.split prod.split)
    ultimately show ?thesis by (auto simp: demo_kv2_def dom_def)
  qed
  then show "card (dom (sequences demo_kv2)) = 1" by simp
qed

lemma demo_publish_enabled: "kv_enabled (PublishPrefix 1 ''p'') demo_kv2"
  using demo_kv2_room demo_users by (auto simp: users_room_def split: option.split)

lemma demo_pub_inv: "kv_inv demo_pub"
  using publish_refines [OF demo_kv2_inv demo_publish_enabled] unfolding demo_pub_def by blast

lemma demo_pub2_inv: "kv_inv demo_pub2"
  using create_sequence_step(1) [OF demo_pub_inv, of "demo_meta 3 11"]
  unfolding demo_pub2_def by (metis surjective_pairing)

lemma demo_pub2_room: "refs_room demo_pub2"
proof (rule refs_roomI [OF demo_pub2_inv])
  show "list_all (\<lambda>i. ref_count i \<le> 100) (infos (allocator demo_pub2))" by code_simp
qed

lemma demo_pub2_users: "card (dom (sequences demo_pub2)) < 4294967295"
proof -
  have "dom (sequences (snd (create_sequence kv meta))) \<subseteq> insert (sm_sequence_id meta) (dom (sequences kv))"
    for kv meta by (auto simp: create_sequence_def index_sequence_def Let_def split: if_splits)
  then have "dom (sequences demo_pub2) \<subseteq> insert 3 (dom (sequences demo_pub))"
    unfolding demo_pub2_def demo_meta_def by fastforce
  moreover have "finite (dom (sequences demo_pub))" using demo_pub_inv by (rule kv_inv_parts)
  ultimately have "card (dom (sequences demo_pub2)) \<le> card (insert 3 (dom (sequences demo_pub)))"
    by (intro card_mono) simp_all
  also have "\<dots> \<le> Suc (card (dom (sequences demo_pub)))" by (simp add: card_insert_if kv_inv_parts(1) [OF demo_pub_inv])
  also have "dom (sequences demo_pub) = dom (sequences demo_kv2)"
  proof -
    obtain ok kv' where run: "publish_prefix demo_kv2 1 ''p'' = (ok, kv')" by fastforce
    have first: "prefix_key st = [] \<or> prefix_key st = ''p''" if "sequences demo_kv2 1 = Some st" for st
      using that demo_users(1) by simp
    have few: "card (dom (sequences demo_kv2)) < 4294967295" using demo_users(2) by simp
    from publish_prefix_step [OF demo_kv2_inv run first few refs_room_tables [OF demo_kv2_inv demo_kv2_room]]
    show ?thesis using run by (simp add: demo_pub_def)
  qed
  finally show ?thesis using demo_users(2) by simp
qed

lemma demo_running_inv: "sched_inv demo_running" "held_ok demo_running"
proof -
  show "sched_inv demo_running"
    by (simp add: sched_inv_def demo_defs active_ok_def skips_ok_def)
  show "held_ok demo_running" unfolding held_ok_def by code_simp
qed

lemma demo_sched2_inv: "sched_inv demo_sched2" "held_ok demo_sched2"
proof -
  let ?s1 = "enqueue demo_sched (demo_request 1 2)" and ?s2 = "enqueue (enqueue demo_sched (demo_request 1 2)) (demo_request 2 3)"
  have "sched_reachable demo_sched ?s1"
    by (rule sched_next [OF sched_start, of _ "Enqueue (demo_request 1 2)"]) (simp add: sched_step_simps tracked_def demo_defs)
  then have "sched_reachable demo_sched ?s2"
    by (rule sched_next [of _ _ "Enqueue (demo_request 2 3)"]) (simp add: sched_step_simps tracked_def demo_defs enqueue_def)
  then have "sched_reachable demo_sched demo_sched2"
    unfolding demo_sched2_def by (rule sched_next [of _ _ ScheduleNext]) (simp add: sched_step_simps)
  then show "sched_inv demo_sched2" by (rule sched_reachable_inv) (simp add: demo_sched_def Scheduler_new_inv)
  show "held_ok demo_sched2" unfolding held_ok_def by code_simp
qed

lemma demo_sched2_small: "kv_blocks (cache_manager demo_sched2) < 2147483648"
proof -
  have "kv_blocks (cache_manager demo_sched2) = 4" by code_simp
  then show ?thesis by simp
qed

lemma demo_view_eq: "cache_view demo_kv2 1 TextKV = Some demo_view"
proof -
  have "sequences demo_kv2 1 \<noteq> None" using demo_users(1) by auto
  then show ?thesis by (auto simp: demo_view_def cache_view_def)
qed

lemma demo_view_ok: "view_valid demo_view" "layout_fits (view_layout demo_view)"
  "layout_elements (view_layout demo_view) = 4" "block_stride_bytes (allocator demo_kv2) = 4"
  "bytes_per_element (pool_shape demo_kv2) = 1"
proof -
  show elems: "layout_elements (view_layout demo_view) = 4" by code_simp
  show "layout_fits (view_layout demo_view)" by (simp add: layout_fits_def elems)
  show "view_valid demo_view" "block_stride_bytes (allocator demo_kv2) = 4"
    "bytes_per_element (pool_shape demo_kv2) = 1" by code_simp+
qed

lemma demo_context_ok: "context_ok demo_view (demo_params scale)"
proof -
  have t: "map_option length (view_layer_tables demo_view) = Some 1" 
    "tokens_per_block (kvl_shape (view_layout demo_view)) = 2" by code_simp+
  then show ?thesis by (auto simp: context_ok_def demo_params_def)
qed

text \<open>The serving system over the four frames, idle and with one waiting request.\<close>

lemma demo_pool_facts:
  "capacity demo_al = 4" "map_option max_slots (al_swap_backend demo_al) = Some 8" "table_count demo_kv0 = 1"
  by code_simp+

lemma demo_small_pool: "small_pool (KVCacheManager_new demo_al)"
  using demo_pool_facts by (auto simp: small_pool_def KVCacheManager_new_def)

lemma demo_sched_sound: "cache_sound demo_sched" "sched_inv demo_sched"
  using fresh_system_sound [OF demo_al_inv demo_small_pool] by (simp_all add: demo_sched_def demo_kv0_def)

lemma demo_tokens_fit: "tokens_fit demo_kv0 3"
  using demo_tpb demo_pool_facts by (simp add: tokens_fit_def blocks_for_def)

lemma demo_waiting_roomy: "roomy demo_waiting"
proof -
  have "sequences demo_kv0 = Map.empty" "allocator demo_kv0 = demo_al"
    by (simp_all add: demo_kv0_def KVCacheManager_new_def)
  moreover have "map_option next_slot (al_swap_backend demo_al) = Some 1" by code_simp
  ultimately show ?thesis
    using demo_pool_facts
    by (auto simp: roomy_def cache_room_def swap_room_def seq_limit_def swap_places_def owners_def request_of_def
        demo_waiting_def enqueue_def demo_sched_def Scheduler_new_def dom_def)
qed

lemma demo_waiting_sound: "cache_sound demo_waiting" "sched_inv demo_waiting"
proof -
  show "cache_sound demo_waiting"
    unfolding demo_waiting_def using demo_sched_sound(1) demo_tokens_fit by (rule_tac enqueue_cache) (simp_all add: demo_defs)
  show "sched_inv demo_waiting"
    unfolding demo_waiting_def by (simp add: sched_inv_def demo_defs enqueue_def active_ok_def pending_ok_def skips_ok_def)
qed

lemma demo_waiting_fits: "fits_empty_pool (cache_manager demo_waiting) (hd (pending demo_waiting))"
proof -
  have "cache_manager demo_waiting = demo_kv0" "prompt_tokens (hd (pending demo_waiting)) = 3"
    "max_decode_tokens (sampling (hd (pending demo_waiting))) = 0"
    by (simp_all add: demo_waiting_def enqueue_def demo_defs)
  then show ?thesis
    using demo_tpb demo_pool_facts
    by (simp add: fits_empty_pool_def blocks_for_def demo_kv0_def KVCacheManager_new_def)
qed

lemma demo_one_fits: "replay_fits demo_one_trace demo_one_config"
  by (simp add: replay_fits_def trace_ids_def total_sequences_def demo_one_trace_def demo_one_config_def
      demo_trace_def demo_replay_config_def demo_trace_request_def)

lemma demo_one_slab: "slab_fits demo_one_trace demo_one_config (replicate 256 0)"
proof -
  have "block_stride_for (replay_allocator_config demo_one_trace demo_one_config) = 256" by code_simp
  then show ?thesis by (simp add: slab_fits_def demo_one_config_def demo_replay_config_def)
qed

lemma demo_one_completes:
  "map_option (\<lambda>m. (rm_completed m, requests_completed m)) (run_paged demo_one_trace demo_one_config (Some slab))
     = Some (True, 1)"
  by code_simp

lemma demo_arith_recip: "recip_arith demo_arith"
  by (simp add: recip_arith_def demo_arith_def mult.commute)

section \<open>The exporter\<close>

lemma demo_floats_ok: "float_ok demo_floats"
  by (simp add: float_ok_def demo_floats_def)

lemma demo_floats_check: "self_checks demo_floats sc shape i"
  by (simp add: self_checks_def list_all_iff demo_floats_def kCrossCheckTolerance_def)

lemma demo_scenario_ok: "scenario_ok demo_scenario"
  by (simp add: demo_scenario_def scenario_ok_def shape_ok_def heads_ok_def scalars_fit_def scalar_fields_def scenario_shape_def
      layout_elements_def frame_layers_def head_stride_def token_stride_def stream_stride_def layer_stride_def kKVStreamCount_def
      frame_width_def blocks_per_seq_def)

lemma demo_scenario_slab: "slab_for (exporter_config demo_scenario (scenario_pool_blocks demo_scenario)) (replicate 2048 0)"
  by (simp add: slab_for_def exporter_config_def demo_scenario_def scenario_pool_blocks_def blocks_per_seq_def scenario_shape_def
      block_stride_for_def effective_alignment_def kDefaultBlockAlignmentBytes_def round_up_def byte_size_def frame_layers_def)

text \<open>Slabs of the sizes the scenarios of the tool ask for.\<close>

definition demo_slabs :: "u8 list list" where
  "demo_slabs = map (\<lambda>sc. replicate (unat (block_stride_for (exporter_config sc (scenario_pool_blocks sc))) * unat (scenario_pool_blocks sc)) 0)
     (scenarios demo_floats)"

lemma demo_slabs_ok:
  "list_all2 (\<lambda>slab sc. slab_for (exporter_config sc (scenario_pool_blocks sc)) slab) demo_slabs (scenarios demo_floats)"
  by (simp add: demo_slabs_def scenarios_def slab_for_def exporter_config_def scenario_pool_blocks_def blocks_per_seq_def scenario_shape_def
      block_stride_for_def effective_alignment_def kDefaultBlockAlignmentBytes_def round_up_def byte_size_def frame_layers_def)

lemma demo_churn_slab: "slab_for (exporter_config (churn_scenario demo_floats) 10) (replicate 10240 0)"
  by (simp add: slab_for_def exporter_config_def churn_scenario_def scenario_shape_def
      block_stride_for_def effective_alignment_def kDefaultBlockAlignmentBytes_def round_up_def byte_size_def frame_layers_def)

end
