(* ===== verification/TraceFile.thy ===== *)
theory TraceFile
  imports TraceReplay ToolBase
begin

text \<open>
  Reading a trace, \<^verbatim>\<open>load_trace\<close> of \<^verbatim>\<open>tools/trace_replay/TraceReplay.cpp\<close>: the line loop, the two kinds of
  record and the conversion of their fields. The JSON library is third-party code and is the parameter
  \<open>json_api\<close>: every access the reader makes either yields a value or throws \<^verbatim>\<open>nlohmann::json::exception\<close>, whose
  \<^verbatim>\<open>what()\<close> is the \<open>Inl\<close>. The file is its contents, or \<open>None\<close> when it cannot be opened.
\<close>

section \<open>The JSON library\<close>

record 'j json_api =
  js_parse :: "string \<Rightarrow> string + 'j"
  js_at :: "'j \<Rightarrow> string \<Rightarrow> string + 'j"
  js_index :: "'j \<Rightarrow> nat \<Rightarrow> string + 'j"
  js_items :: "'j \<Rightarrow> 'j list"
  js_value :: "'j \<Rightarrow> string \<Rightarrow> string \<Rightarrow> string + string"
  js_string :: "'j \<Rightarrow> string + string"
  js_int :: "'j \<Rightarrow> string + int"
  js_i64 :: "'j \<Rightarrow> string + int"
  js_u32 :: "'j \<Rightarrow> string + u32"
  js_u64 :: "'j \<Rightarrow> string + u64"

text \<open>\<^verbatim>\<open>j.at(key).get<T>()\<close>\<close>

definition field_as :: "'j json_api \<Rightarrow> ('j \<Rightarrow> string + 'a) \<Rightarrow> 'j \<Rightarrow> string \<Rightarrow> string + 'a" where
  "field_as J get j key = and_then (js_at J j key) get"

section \<open>Records\<close>

definition kSupportedSchemaVersion :: int where
  "kSupportedSchemaVersion = 1"

definition position_from_json :: "'j json_api \<Rightarrow> 'j \<Rightarrow> string + Position3D" where
  "position_from_json J a =
     and_then (and_then (js_index J a 0) (js_i64 J)) (\<lambda>t.
     and_then (and_then (js_index J a 1) (js_i64 J)) (\<lambda>h.
     and_then (and_then (js_index J a 2) (js_i64 J)) (\<lambda>w.
     Inr \<lparr>temporal = t, height = h, width = w\<rparr>)))"

definition header_from_json :: "'j json_api \<Rightarrow> 'j \<Rightarrow> string + TraceHeader" where
  "header_from_json J j =
     and_then (field_as J (js_string J) j ''model'') (\<lambda>model.
     and_then (field_as J (js_string J) j ''mix'') (\<lambda>mix.
     and_then (field_as J (js_string J) j ''dimension_source'') (\<lambda>dimension_source.
     and_then (field_as J (js_string J) j ''pixel_budget'') (\<lambda>pixel_budget.
     and_then (field_as J (js_u64 J) j ''seed'') (\<lambda>seed.
     and_then (field_as J (js_u32 J) j ''num_requests'') (\<lambda>num_requests.
     and_then (field_as J (js_u32 J) j ''num_layers'') (\<lambda>num_layers.
     and_then (field_as J (js_u32 J) j ''num_kv_heads'') (\<lambda>num_kv_heads.
     and_then (field_as J (js_u32 J) j ''head_dim'') (\<lambda>head_dim.
     and_then (field_as J (js_u32 J) j ''bytes_per_element'') (\<lambda>bytes_per_element.
     and_then (field_as J (js_u32 J) j ''max_prompt_tokens'') (\<lambda>max_prompt_tokens.
     and_then (field_as J (js_u32 J) j ''max_decode_budget'') (\<lambda>max_decode_budget.
     and_then (field_as J (js_u32 J) j ''visual_tokens_max'') (\<lambda>visual_tokens_max.
     and_then (field_as J (js_u32 J) j ''images_total'') (\<lambda>images_total.
     Inr \<lparr>th_model = model, th_mix = mix, th_dimension_source = dimension_source, th_pixel_budget = pixel_budget,
          th_seed = seed, th_num_requests = num_requests, th_num_layers = num_layers, th_num_kv_heads = num_kv_heads,
          th_head_dim = head_dim, th_bytes_per_element = bytes_per_element, th_max_prompt_tokens = max_prompt_tokens,
          th_max_decode_budget = max_decode_budget, th_visual_tokens_max = visual_tokens_max,
          th_images_total = images_total\<rparr>))))))))))))))"

definition image_from_json :: "'j json_api \<Rightarrow> TraceImage list \<Rightarrow> 'j \<Rightarrow> string + TraceImage list" where
  "image_from_json J parsed j =
     and_then (field_as J (js_u32 J) j ''grid_t'') (\<lambda>t.
     and_then (field_as J (js_u32 J) j ''grid_h'') (\<lambda>h.
     and_then (field_as J (js_u32 J) j ''grid_w'') (\<lambda>w.
     and_then (field_as J (js_u32 J) j ''visual_tokens'') (\<lambda>tokens.
     Inr (parsed @ [\<lparr>grid_t = t, grid_h = h, grid_w = w, visual_tokens = tokens\<rparr>])))))"

text \<open>The state of the loop over the spans: \<^verbatim>\<open>positional_encoding.spans\<close>, \<^verbatim>\<open>multimodal_spans\<close> and \<^verbatim>\<open>feature_index\<close>.\<close>

type_synonym span_state = "PositionalEncodingSpan list \<times> MultimodalSpan list \<times> u32"

definition add_span :: "PositionalEncodingSpan \<Rightarrow> span_state \<Rightarrow> span_state" where
  "add_span parsed st =
     (case st of (spans, features, feature_index) \<Rightarrow>
        if pe_kind parsed \<noteq> Text1D
        then (spans @ [parsed],
              features @ [\<lparr>mm_start_token = pe_start_token parsed, mm_token_count = pe_token_count parsed,
                           mm_feature_index = feature_index\<rparr>],
              feature_index + 1)
        else (spans @ [parsed], features, feature_index))"

definition span_from_json :: "'j json_api \<Rightarrow> span_state \<Rightarrow> 'j \<Rightarrow> string + span_state" where
  "span_from_json J st j =
     and_then (field_as J (js_u32 J) j ''start_token'') (\<lambda>start.
     and_then (field_as J (js_u32 J) j ''token_count'') (\<lambda>count.
     and_then (field_as J (js_string J) j ''kind'') (\<lambda>kind.
     and_then (field_as J (position_from_json J) j ''origin'') (\<lambda>origin.
     and_then (field_as J (position_from_json J) j ''stride'') (\<lambda>stride.
     Inr (add_span \<lparr>pe_start_token = start, pe_token_count = count, pe_kind = kind_from_string kind,
                    pe_origin = origin, pe_stride = stride\<rparr> st))))))"

definition request_from_json :: "'j json_api \<Rightarrow> 'j \<Rightarrow> string + TraceRequest" where
  "request_from_json J j =
     and_then (field_as J (js_u64 J) j ''request_id'') (\<lambda>request_id.
     and_then (field_as J (js_u64 J) j ''arrival_us'') (\<lambda>arrival.
     and_then (field_as J (js_u32 J) j ''text_tokens'') (\<lambda>text_tokens.
     and_then (field_as J (js_u32 J) j ''prompt_tokens'') (\<lambda>prompt_tokens.
     and_then (field_as J (js_u32 J) j ''decode_budget'') (\<lambda>budget.
     and_then (field_as J (js_u32 J) j ''decode_actual'') (\<lambda>actual.
     and_then (field_as J (js_u32 J) j ''num_parallel_samples'') (\<lambda>samples.
     and_then (field_as J (js_string J) j ''prefix_key'') (\<lambda>prefix_key.
     and_then (js_at J j ''images'') (\<lambda>image_array.
     and_then (try_loop (image_from_json J) (js_items J image_array) []) (\<lambda>images.
     and_then (js_at J j ''mrope_spans'') (\<lambda>span_array.
     and_then (try_loop (span_from_json J) (js_items J span_array) ([], [], 0)) (\<lambda>(spans, features, feature_index).
     Inr \<lparr>tr_request_id = request_id, arrival_us = arrival, text_tokens = text_tokens,
          tr_prompt_tokens = prompt_tokens, decode_budget = budget, decode_actual = actual,
          tr_num_parallel_samples = samples, tr_prefix_key = prefix_key, images = images,
          tr_multimodal_spans = features, tr_positional_encoding = spans\<rparr>))))))))))))"

section \<open>The line loop\<close>

text \<open>\<^verbatim>\<open>std::getline\<close>: the next line and what follows it. A last line without newline counts, nothing after a last
  newline does not.\<close>

definition getline :: "string \<Rightarrow> (string \<times> string) option" where
  "getline input =
     (if input = [] then None
      else Some (takeWhile (\<lambda>c. c \<noteq> CHR 0x0A) input, tl (dropWhile (\<lambda>c. c \<noteq> CHR 0x0A) input)))"

definition blank_header :: TraceHeader where
  "blank_header =
     \<lparr>th_model = [], th_mix = [], th_dimension_source = [], th_pixel_budget = [], th_seed = 0, th_num_requests = 0,
      th_num_layers = 0, th_num_kv_heads = 0, th_head_dim = 0, th_bytes_per_element = 0, th_max_prompt_tokens = 0,
      th_max_decode_budget = 0, th_visual_tokens_max = 0, th_images_total = 0\<rparr>"

text \<open>\<^verbatim>\<open>std::to_string\<close> of an \<^verbatim>\<open>int\<close>.\<close>

definition int_to_string :: "int \<Rightarrow> string" where
  "int_to_string i = (if i < 0 then ''-'' @ to_string (nat (- i)) else to_string (nat i))"

definition line_error :: "string \<Rightarrow> nat \<Rightarrow> string \<Rightarrow> string" where
  "line_error path line_number what = path @ '':'' @ to_string line_number @ '': '' @ what"

text \<open>An exception becomes an error message that names the line.\<close>

definition catch_line :: "string \<Rightarrow> nat \<Rightarrow> string + 'a \<Rightarrow> string + 'a" where
  "catch_line path n x = (case x of Inl what \<Rightarrow> Inl (line_error path n what) | Inr a \<Rightarrow> Inr a)"

definition load_line :: "'j json_api \<Rightarrow> string \<Rightarrow> nat \<Rightarrow> string \<Rightarrow> Trace \<times> bool \<Rightarrow> string + Trace \<times> bool" where
  "load_line J path n line st =
     (case st of (trace, saw_header) \<Rightarrow>
      if line = [] then Inr (trace, saw_header)
      else and_then (catch_line path n (js_parse J line)) (\<lambda>j.
           and_then (catch_line path n (js_value J j ''record'' [])) (\<lambda>kind.
           if kind = ''header'' then
             and_then (catch_line path n (field_as J (js_int J) j ''schema_version'')) (\<lambda>version.
             if version \<noteq> kSupportedSchemaVersion
             then Inl (path @ '': unsupported schema_version '' @ int_to_string version)
             else and_then (catch_line path n (header_from_json J j)) (\<lambda>h. Inr (trace\<lparr>header := h\<rparr>, True)))
           else if kind = ''request'' then
             and_then (catch_line path n (request_from_json J j)) (\<lambda>r.
             Inr (trace\<lparr>requests := requests trace @ [r]\<rparr>, saw_header))
           else Inl (line_error path n (''unknown record '' @ [CHR 0x27] @ kind @ [CHR 0x27])))))"

function load_lines ::
    "'j json_api \<Rightarrow> string \<Rightarrow> nat \<Rightarrow> string \<Rightarrow> Trace \<times> bool \<Rightarrow> string + Trace \<times> bool" where
  "load_lines J path line_number input st =
     (case getline input of
        None \<Rightarrow> Inr st
      | Some (line, rest) \<Rightarrow>
          (case load_line J path (line_number + 1) line st of
             Inl e \<Rightarrow> Inl e
           | Inr st \<Rightarrow> load_lines J path (line_number + 1) rest st))"
  by pat_completeness auto
termination
proof (relation "measure (\<lambda>(J, path, n, input, st). length input)")
  fix J :: "'a json_api" and path input line rest :: string and n :: nat and st st' :: "Trace \<times> bool" and p
  assume "getline input = Some p" and "(line, rest) = p"
  then have "input \<noteq> []" and "rest = tl (dropWhile (\<lambda>c. c \<noteq> CHR 0x0A) input)"
    by (auto simp: getline_def split: if_splits)
  moreover have "length (tl (dropWhile P input)) < length input" if "input \<noteq> []" for P
    using that length_dropWhile_le [of P input] by (cases input) (auto simp: le_imp_less_Suc)
  ultimately show "((J, path, n + 1, rest, st'), (J, path, n, input, st)) \<in> measure (\<lambda>(J, path, n, input, st). length input)"
    by simp
qed simp

declare load_lines.simps [simp del]

definition load_trace :: "'j json_api \<Rightarrow> (string \<Rightarrow> string option) \<Rightarrow> string \<Rightarrow> string + Trace" where
  "load_trace J files path =
     (case files path of
        None \<Rightarrow> Inl (''cannot open '' @ path)
      | Some input \<Rightarrow>
          and_then (load_lines J path 0 input (\<lparr>header = blank_header, requests = []\<rparr>, False)) (\<lambda>(trace, saw_header).
          if \<not> saw_header then Inl (path @ '': missing header record'') else Inr trace))"

section \<open>What the reader accepts\<close>

text \<open>A line as a record, without the reader's state.\<close>

datatype trace_record = HeaderRecord TraceHeader | RequestRecord TraceRequest

definition read_record :: "'j json_api \<Rightarrow> string \<Rightarrow> trace_record option" where
  "read_record J line =
     (case and_then (js_parse J line) (\<lambda>j. and_then (js_value J j ''record'' []) (\<lambda>kind. Inr (j, kind))) of
        Inl _ \<Rightarrow> None
      | Inr (j, kind) \<Rightarrow>
          if kind = ''header'' \<and> field_as J (js_int J) j ''schema_version'' = Inr kSupportedSchemaVersion
          then (case header_from_json J j of Inl _ \<Rightarrow> None | Inr h \<Rightarrow> Some (HeaderRecord h))
          else if kind = ''request''
          then (case request_from_json J j of Inl _ \<Rightarrow> None | Inr r \<Rightarrow> Some (RequestRecord r))
          else None)"

definition trace_lines :: "string \<Rightarrow> string list" where
  "trace_lines input = filter (\<lambda>l. l \<noteq> []) (split_on (CHR 0x0A) input)"

definition record_headers :: "trace_record list \<Rightarrow> TraceHeader list" where
  "record_headers rs = [h. HeaderRecord h \<leftarrow> rs]"

definition record_requests :: "trace_record list \<Rightarrow> TraceRequest list" where
  "record_requests rs = [r. RequestRecord r \<leftarrow> rs]"

fun apply_record :: "trace_record \<Rightarrow> Trace \<times> bool \<Rightarrow> Trace \<times> bool" where
  "apply_record (HeaderRecord h) (t, b) = (t\<lparr>header := h\<rparr>, True)"
| "apply_record (RequestRecord r) (t, b) = (t\<lparr>requests := requests t @ [r]\<rparr>, b)"

lemma catch_line_Inr [simp]: "catch_line path n x = Inr a \<longleftrightarrow> x = Inr a"
  by (simp add: catch_line_def split: sum.split)

lemma catch_line_simps [simp]: "catch_line path n (Inl what) = Inl (line_error path n what)" "catch_line path n (Inr a) = Inr a"
  by (simp_all add: catch_line_def)

lemma load_line_ok:
  "load_line J path n line st = Inr st' \<longleftrightarrow>
     (if line = [] then st' = st else \<exists>r. read_record J line = Some r \<and> st' = apply_record r st)"
proof (cases "line = []")
  case True
  then show ?thesis by (cases st) (auto simp: load_line_def)
next
  case False
  obtain trace saw where st: "st = (trace, saw)" by (cases st)
  consider (bad) what where "and_then (js_parse J line) (\<lambda>j. and_then (js_value J j ''record'' []) (\<lambda>kind. Inr (j, kind))) = Inl what"
    | (good) j kind where "js_parse J line = Inr j" "js_value J j ''record'' [] = Inr kind"
    by (cases "js_parse J line"; cases "js_value J (projr (js_parse J line)) ''record'' []") auto
  then show ?thesis
  proof cases
    case bad
    then show ?thesis using False
      by (cases "js_parse J line"; cases "js_value J (projr (js_parse J line)) ''record'' []")
        (simp_all add: st load_line_def read_record_def)
  next
    case good
    consider "kind = ''header''" | "kind = ''request''" | "kind \<noteq> ''header''" "kind \<noteq> ''request''" by blast
    then show ?thesis
    proof cases
      case 1
      then show ?thesis using False good
        by (cases "field_as J (js_int J) j ''schema_version''"; cases "header_from_json J j")
          (auto simp: st load_line_def read_record_def)
    next
      case 2
      then show ?thesis using False good
        by (cases "request_from_json J j") (auto simp: st load_line_def read_record_def)
    next
      case 3
      then show ?thesis using False good by (simp add: st load_line_def read_record_def)
    qed
  qed
qed

lemma getline_lines:
  "getline input = None \<Longrightarrow> trace_lines input = []"
  "getline input = Some (line, rest) \<Longrightarrow> trace_lines input = (if line = [] then [] else [line]) @ trace_lines rest"
proof -
  let ?nl = "CHR 0x0A" and ?a = "takeWhile (\<lambda>c. c \<noteq> CHR 0x0A) input" and ?b = "dropWhile (\<lambda>c. c \<noteq> CHR 0x0A) input"
  show "trace_lines input = []" if "getline input = None"
    using that by (auto simp: getline_def trace_lines_def split: if_splits)
  assume "getline input = Some (line, rest)"
  then have lr: "line = ?a" "rest = tl ?b" by (auto simp: getline_def split: if_splits)
  have a: "?nl \<notin> set ?a" by (auto dest: set_takeWhileD)
  show "trace_lines input = (if line = [] then [] else [line]) @ trace_lines rest"
  proof (cases ?b)
    case Nil
    then have "input = ?a" by (metis append_Nil2 takeWhile_dropWhile_id)
    moreover have "trace_lines rest = []" unfolding lr Nil by (simp add: trace_lines_def)
    ultimately show ?thesis using split_on_piece [OF a] lr by (simp add: trace_lines_def)
  next
    case (Cons c cs)
    then have "c = ?nl" by (metis (mono_tags) dropWhile_eq_Cons_conv)
    then have "input = ?a @ ?nl # cs" using Cons by (metis takeWhile_dropWhile_id)
    then have "split_on ?nl input = ?a # split_on ?nl cs" using split_on_append [OF a] by metis
    then show ?thesis using Cons lr by (simp add: trace_lines_def)
  qed
qed

lemma load_lines_ok:
  "load_lines J path n input st = Inr st' \<longleftrightarrow>
     (\<exists>rs. map (read_record J) (trace_lines input) = map Some rs \<and> st' = fold apply_record rs st)"
proof (induction J path n input st rule: load_lines.induct)
  case (1 J path n input st)
  show ?case
  proof (cases "getline input")
    case None
    then show ?thesis by (subst load_lines.simps) (auto simp: getline_lines(1))
  next
    case (Some p)
    obtain line rest where p: "p = (line, rest)" by (cases p)
    note lines = getline_lines(2) [OF Some [unfolded p]]
    have step: "load_lines J path n input st = Inr st' \<longleftrightarrow>
        (\<exists>s. load_line J path (n + 1) line st = Inr s \<and> load_lines J path (n + 1) rest s = Inr st')"
      by (subst load_lines.simps) (simp add: Some p split: sum.split)
    have IH: "load_line J path (n + 1) line st = Inr s \<Longrightarrow> load_lines J path (n + 1) rest s = Inr st' \<longleftrightarrow>
        (\<exists>rs. map (read_record J) (trace_lines rest) = map Some rs \<and> st' = fold apply_record rs s)" for s
      using "1.IH" [OF Some p [symmetric]] by blast
    show ?thesis
    proof (cases "line = []")
      case True
      then show ?thesis using step IH lines by (auto simp: load_line_ok)
    next
      case False
      then have "load_lines J path n input st = Inr st' \<longleftrightarrow>
          (\<exists>r. read_record J line = Some r \<and> load_lines J path (n + 1) rest (apply_record r st) = Inr st')"
        unfolding step load_line_ok using False by (simp del: split_paired_Ex) blast
      also have "\<dots> \<longleftrightarrow> (\<exists>r rs. read_record J line = Some r
          \<and> map (read_record J) (trace_lines rest) = map Some rs \<and> st' = fold apply_record rs (apply_record r st))"
        using IH [of "apply_record r st" for r] False unfolding load_line_ok by (simp del: split_paired_All split_paired_Ex) blast
      also have "\<dots> \<longleftrightarrow> (\<exists>rs. map (read_record J) (trace_lines input) = map Some rs \<and> st' = fold apply_record rs st)"
        using False unfolding lines by (auto simp: Cons_eq_map_conv)
      finally show ?thesis .
    qed
  qed
qed

lemma fold_apply_record:
  "fold apply_record rs (t, b) =
     (t\<lparr>header := last (header t # record_headers rs), requests := requests t @ record_requests rs\<rparr>,
      b \<or> record_headers rs \<noteq> [])"
proof (induction rs arbitrary: t b)
  case Nil
  then show ?case by (simp add: record_headers_def record_requests_def)
next
  case (Cons r rs)
  then show ?case by (cases r) (simp_all add: record_headers_def record_requests_def)
qed

lemma load_trace_ok:
  "load_trace J files path = Inr t \<longleftrightarrow>
     (\<exists>input rs. files path = Some input \<and> map (read_record J) (trace_lines input) = map Some rs
        \<and> record_headers rs \<noteq> [] \<and> t = \<lparr>header = last (record_headers rs), requests = record_requests rs\<rparr>)"
  by (cases "files path") (auto simp: load_trace_def and_then_Inr_iff load_lines_ok fold_apply_record)

section \<open>The visual spans\<close>

text \<open>The multimodal spans a list of position spans stands for: the visual ones, numbered in order.\<close>

definition visual_spans :: "PositionalEncodingSpan list \<Rightarrow> MultimodalSpan list" where
  "visual_spans spans =
     map (\<lambda>(i, s). \<lparr>mm_start_token = pe_start_token s, mm_token_count = pe_token_count s, mm_feature_index = of_nat i\<rparr>)
       (enumerate 0 (filter (\<lambda>s. pe_kind s \<noteq> Text1D) spans))"

definition span_state_ok :: "span_state \<Rightarrow> bool" where
  "span_state_ok st \<longleftrightarrow>
     (case st of (spans, features, k) \<Rightarrow> features = visual_spans spans \<and> k = of_nat (length features))"

lemma add_span_ok: "span_state_ok st \<Longrightarrow> span_state_ok (add_span s st)"
  by (cases st) (auto simp: span_state_ok_def add_span_def visual_spans_def enumerate_append_eq)

lemma span_loop_ok:
  "try_loop (span_from_json J) js st = Inr st' \<Longrightarrow> span_state_ok st \<Longrightarrow> span_state_ok st'"
proof (induction js arbitrary: st)
  case (Cons j js)
  from Cons.prems(1) obtain s where s: "span_from_json J st j = Inr s" "try_loop (span_from_json J) js s = Inr st'"
    by (auto simp: and_then_Inr_iff)
  then obtain p where "s = add_span p st" by (auto simp: span_from_json_def and_then_Inr_iff)
  then have "span_state_ok s" using Cons.prems(2) by (simp add: add_span_ok)
  then show ?case using Cons.IH s(2) by blast
qed simp

lemma request_visual_spans:
  assumes "request_from_json J j = Inr r"
  shows "tr_multimodal_spans r = visual_spans (tr_positional_encoding r)"
proof -
  from assms obtain js spans features k
    where loop: "try_loop (span_from_json J) js ([], [], 0) = Inr (spans, features, k)"
      and r: "tr_multimodal_spans r = features" "tr_positional_encoding r = spans"
    by (auto simp: request_from_json_def and_then_Inr_iff)
  have "span_state_ok ([], [], 0)" by (simp add: span_state_ok_def visual_spans_def)
  from span_loop_ok [OF loop this] show ?thesis by (simp add: span_state_ok_def r)
qed

lemma read_record_visual_spans:
  "read_record J line = Some (RequestRecord r) \<Longrightarrow> tr_multimodal_spans r = visual_spans (tr_positional_encoding r)"
  by (auto simp: read_record_def request_visual_spans split: sum.splits if_splits)

lemma load_trace_visual_spans:
  assumes "load_trace J files path = Inr t" and "r \<in> set (requests t)"
  shows "tr_multimodal_spans r = visual_spans (tr_positional_encoding r)"
proof -
  from assms obtain input rs where read: "map (read_record J) (trace_lines input) = map Some rs"
    and t: "requests t = record_requests rs"
    by (auto simp: load_trace_ok)
  from assms(2) have "RequestRecord r \<in> set rs"
    unfolding t by (auto simp: record_requests_def split: trace_record.splits)
  then have "Some (RequestRecord r) \<in> set (map (read_record J) (trace_lines input))" unfolding read by simp
  then show ?thesis using read_record_visual_spans by (metis (no_types, lifting) imageE list.set_map)
qed

end
