(* ===== verification/ReplayTool.thy ===== *)
theory ReplayTool
  imports PagedReplay TraceFile
begin

text \<open>
  The replay tool around the two runs: the CSV output of \<^verbatim>\<open>tools/trace_replay/TraceReplay.cpp\<close> and the command
  line and \<^verbatim>\<open>main\<close> of \<^verbatim>\<open>tools/trace_replay/main.cpp\<close>.

  \<^verbatim>\<open>double\<close> and its formatting are the parameter \<open>doubles\<close>, the files that can be read and the ones that can be
  opened for appending are functions from paths to contents. A file opened with \<^verbatim>\<open>std::ios::app\<close> is positioned at its
  end, so \<^verbatim>\<open>tellp()\<close> is its length, as with the GNU library. The slab that \<^verbatim>\<open>run_paged\<close> gets from the system for the
  \<open>i\<close>-th trace is an argument.
\<close>

section \<open>CSV\<close>

record 'd doubles =
  dbl_zero :: 'd
  dbl_of_u64 :: "u64 \<Rightarrow> 'd"
  dbl_div :: "'d \<Rightarrow> 'd \<Rightarrow> 'd"
  dbl_fixed6 :: "'d \<Rightarrow> string"

definition utilization :: "'d doubles \<Rightarrow> ReplayMetrics \<Rightarrow> 'd" where
  "utilization D m =
     (if reserved_token_slots m = 0 then dbl_zero D
      else dbl_div D (dbl_of_u64 D (committed_tokens m)) (dbl_of_u64 D (reserved_token_slots m)))"

definition csv_header :: string where
  "csv_header =
     ''trace_mix,pixel_budget,dimension_source,mode,pool_blocks,tokens_per_block,'' @
     ''baseline_max_context,preemption_watermark,requests,requests_admitted,'' @
     ''requests_completed,requests_never_admissible,steps,tokens_decoded,'' @
     ''peak_active_requests,peak_blocks_in_use,peak_bytes_in_use,utilization,'' @
     ''max_partial_block_slack,'' @
     ''preemptions,resumes,failed_resumes,swapped_blocks_out,forks,cow_events,'' @
     ''prefix_hits,prefix_blocks_saved,p99_ttft_cost,size_aware,prefix_caching,'' @
     ''head_of_line_stall_steps,fragmentation_failures,completed,leak_free''"

definition show_word :: "'a::len word \<Rightarrow> string" where
  "show_word w = to_string (unat w)"

definition show_flag :: "bool \<Rightarrow> string" where
  "show_flag b = (if b then ''1'' else ''0'')"

definition to_csv_row :: "'d doubles \<Rightarrow> Trace \<Rightarrow> ReplayConfig \<Rightarrow> ReplayMetrics \<Rightarrow> string" where
  "to_csv_row D trace cfg m =
     th_mix (header trace) @ '','' @ th_pixel_budget (header trace) @ '','' @
     th_dimension_source (header trace) @ '','' @ mode m @ '','' @ show_word (rc_max_blocks cfg) @ '','' @
     show_word (rc_tokens_per_block cfg) @ '','' @ show_word (baseline_max_context cfg) @ '','' @
     show_word (rc_preemption_watermark_blocks cfg) @ '','' @ to_string (length (requests trace)) @ '','' @
     show_word (requests_admitted m) @ '','' @ show_word (requests_completed m) @ '','' @
     show_word (requests_never_admissible m) @ '','' @ show_word (steps m) @ '','' @
     show_word (tokens_decoded m) @ '','' @ show_word (peak_active_requests m) @ '','' @
     show_word (peak_blocks_in_use m) @ '','' @
     show_word (peak_bytes_in_use m) @ '','' @
     dbl_fixed6 D (utilization D m) @ '','' @ show_word (max_partial_block_slack m) @ '','' @
     show_word (preemptions m) @ '','' @ show_word (resumes m) @ '','' @ show_word (failed_resumes m) @ '','' @
     show_word (swapped_blocks_out m) @ '','' @ show_word (forks m) @ '','' @ show_word (cow_events m) @ '','' @
     show_word (prefix_hits m) @ '','' @ show_word (prefix_blocks_saved m) @ '','' @
     show_word (p99_ttft_cost m) @ '','' @ show_flag (rc_size_aware_admission cfg) @ '','' @
     show_flag (prefix_caching cfg) @ '','' @
     show_word (head_of_line_stall_steps m) @ '','' @ show_word (fragmentation_failures m) @ '','' @
     show_flag (rm_completed m) @ '','' @ show_flag (leak_free m)"

section \<open>Numbers on the command line\<close>

text \<open>\<^verbatim>\<open>std::strtoul\<close> in base 10: white space, an optional sign, digits; the result saturates and a minus sign negates
  it modulo \<open>2 ^ 64\<close>. \<open>None\<close> stands for \<^verbatim>\<open>end == text\<close>; otherwise the value and the unread rest.\<close>

definition is_space :: "char \<Rightarrow> bool" where
  "is_space c \<longleftrightarrow> c = CHR '' '' \<or> of_char c \<in> {9..13 :: nat}"

definition strtoul :: "string \<Rightarrow> (u64 \<times> string) option" where
  "strtoul txt =
     (let t = dropWhile is_space txt;
          negative = (t \<noteq> [] \<and> hd t = CHR ''-'');
          t = (if t \<noteq> [] \<and> hd t \<in> {CHR ''-'', CHR ''+''} then tl t else t);
          v = digits_value (takeWhile is_digit t)
      in if takeWhile is_digit t = [] then None
         else Some (if v \<ge> 18446744073709551616 then - 1 else if negative then - of_nat v else of_nat v,
                    dropWhile is_digit t))"

definition parse_u32 :: "string \<Rightarrow> u32 option" where
  "parse_u32 txt =
     (case strtoul txt of None \<Rightarrow> None | Some (v, rest) \<Rightarrow> if rest \<noteq> [] then None else Some (ucast v))"

section \<open>The command line\<close>

definition default_replay_config :: ReplayConfig where
  "default_replay_config =
     \<lparr>rc_tokens_per_block = 16, rc_max_blocks = 0, rc_max_active_requests = 16, rc_max_batch_tokens = 32768,
      rc_preemption_watermark_blocks = 0, swap_slots = 0, rc_size_aware_admission = False,
      rc_admission_skip_limit = 8, prefix_caching = False, baseline_max_context = 8192, max_steps = 2000000\<rparr>"

record ReplayOptions =
  opt_config :: ReplayConfig
  opt_traces :: "string list"
  opt_csv_path :: string
  opt_paged_only :: bool

definition default_options :: ReplayOptions where
  "default_options =
     \<lparr>opt_config = default_replay_config\<lparr>rc_max_batch_tokens := 65536\<rparr>, opt_traces = [], opt_csv_path = [],
      opt_paged_only = False\<rparr>"

definition newline :: string where
  "newline = [CHR 0x0A]"

definition usage :: string where
  "usage =
     ''Usage: qwenvl_trace_replay [options] <trace.jsonl> [<trace.jsonl> ...]'' @ newline @ newline @
     ''Replays Qwen3-VL request traces through the paged KV cache and through a'' @ newline @
     ''contiguous worst-case-reservation baseline over an identically sized pool.'' @ newline @ newline @
     ''Options:'' @ newline @
     ''  --pool-blocks N          Physical blocks in the pool. Default 0, meaning'' @ newline @
     ''                           size it per trace so the batch never exhausts'' @ newline @
     ''                           the pool mid-decode.'' @ newline @
     ''  --tokens-per-block N     Tokens per block (default 16)'' @ newline @
     ''  --max-active N           Concurrent requests in a batch (default 16)'' @ newline @
     ''  --max-batch-tokens N     Prefill token budget per step (default 65536)'' @ newline @
     ''  --watermark N            Free blocks to keep in reserve; 0 disables'' @ newline @
     ''                           automatic preemption (default 0)'' @ newline @
     ''  --swap-slots N           Swap capacity in blocks; 0 disables swap (default 0)'' @ newline @
     ''  --baseline-max-context N Context the contiguous baseline reserves per'' @ newline @
     ''                           request (default 8192)'' @ newline @
     ''  --size-aware             Enable size-aware admission (default FIFO)'' @ newline @
     ''  --skip-limit N           Starvation bound for size-aware admission (default 8)'' @ newline @
     ''  --prefix-cache           Share published prompt prefixes across requests'' @ newline @
     ''  --paged-only             Skip the contiguous baseline'' @ newline @
     ''  --csv PATH               Append CSV rows to PATH instead of stdout'' @ newline"

text \<open>The options without a value.\<close>

definition flag_option :: "string \<Rightarrow> ReplayOptions \<Rightarrow> ReplayOptions option" where
  "flag_option arg opts =
     (if arg = ''--paged-only'' then Some (opts\<lparr>opt_paged_only := True\<rparr>)
      else if arg = ''--size-aware'' then Some (opts\<lparr>opt_config := (opt_config opts)\<lparr>rc_size_aware_admission := True\<rparr>\<rparr>)
      else if arg = ''--prefix-cache'' then Some (opts\<lparr>opt_config := (opt_config opts)\<lparr>prefix_caching := True\<rparr>\<rparr>)
      else None)"

text \<open>The field an option with a number sets.\<close>

definition u32_option :: "string \<Rightarrow> (u32 \<Rightarrow> ReplayConfig \<Rightarrow> ReplayConfig) option" where
  "u32_option arg =
     (if arg = ''--pool-blocks'' then Some (\<lambda>v c. c\<lparr>rc_max_blocks := v\<rparr>)
      else if arg = ''--tokens-per-block'' then Some (\<lambda>v c. c\<lparr>rc_tokens_per_block := v\<rparr>)
      else if arg = ''--max-active'' then Some (\<lambda>v c. c\<lparr>rc_max_active_requests := v\<rparr>)
      else if arg = ''--max-batch-tokens'' then Some (\<lambda>v c. c\<lparr>rc_max_batch_tokens := v\<rparr>)
      else if arg = ''--watermark'' then Some (\<lambda>v c. c\<lparr>rc_preemption_watermark_blocks := v\<rparr>)
      else if arg = ''--swap-slots'' then Some (\<lambda>v c. c\<lparr>swap_slots := v\<rparr>)
      else if arg = ''--baseline-max-context'' then Some (\<lambda>v c. c\<lparr>baseline_max_context := v\<rparr>)
      else if arg = ''--skip-limit'' then Some (\<lambda>v c. c\<lparr>rc_admission_skip_limit := v\<rparr>)
      else None)"

definition is_option_arg :: "string \<Rightarrow> bool" where
  "is_option_arg arg \<longleftrightarrow> take 2 arg = ''--''"

text \<open>How the program ends: with an exit code, or by an exception that nobody catches.\<close>

datatype ToolEnd = Exit int | Terminate

text \<open>The argument loop. An early return is \<open>Inl\<close> with the exit code and what was written to \<^verbatim>\<open>std::cerr\<close>. The value
  of an option is there when it is taken, because a missing one was reported before.\<close>

fun parse_args :: "string list \<Rightarrow> ReplayOptions \<Rightarrow> (ToolEnd \<times> string) + ReplayOptions" where
  "parse_args [] opts = Inr opts"
| "parse_args (arg # rest) opts =
     (if arg = ''--help'' \<or> arg = ''-h'' then Inl (Exit 0, usage)
      else (case flag_option arg opts of
        Some opts' \<Rightarrow> parse_args rest opts'
      | None \<Rightarrow>
          if rest = [] \<and> is_option_arg arg then Inl (Exit 2, ''missing value for '' @ arg @ newline)
          else (case u32_option arg of
            Some set_field \<Rightarrow>
              (case parse_u32 (hd rest) of
                 None \<Rightarrow> Inl (Exit 2, ''invalid value for '' @ arg @ newline)
               | Some v \<Rightarrow> parse_args (tl rest) (opts\<lparr>opt_config := set_field v (opt_config opts)\<rparr>))
          | None \<Rightarrow>
              if arg = ''--csv'' then parse_args (tl rest) (opts\<lparr>opt_csv_path := hd rest\<rparr>)
              else if is_option_arg arg then Inl (Exit 2, ''unknown option '' @ arg @ newline)
              else parse_args rest (opts\<lparr>opt_traces := opt_traces opts @ [arg]\<rparr>))))"

declare parse_args.simps(2) [simp del]

section \<open>The main function\<close>

definition effective_config :: "ReplayConfig \<Rightarrow> Trace \<Rightarrow> ReplayConfig" where
  "effective_config cfg trace =
     (if rc_max_blocks cfg = 0 then cfg\<lparr>rc_max_blocks := suggested_pool_blocks trace cfg\<rparr> else cfg)"

definition progress_line :: "string \<Rightarrow> Trace \<Rightarrow> ReplayConfig \<Rightarrow> string" where
  "progress_line path trace cfg =
     path @ '': '' @ to_string (length (requests trace)) @ '' requests, mix '' @ th_mix (header trace) @
     '', budget '' @ th_pixel_budget (header trace) @ '', max prompt '' @
     show_word (th_max_prompt_tokens (header trace)) @ '' tokens, pool '' @
     show_word (rc_max_blocks cfg) @ '' blocks'' @ newline"

text \<open>One trace; the state is the rows so far and the text on \<^verbatim>\<open>std::cerr\<close>.\<close>

definition replay_trace ::
    "'j json_api \<Rightarrow> 'd doubles \<Rightarrow> (string \<Rightarrow> string option) \<Rightarrow> (nat \<Rightarrow> u8 list option) \<Rightarrow> ReplayOptions
     \<Rightarrow> string list \<times> string \<Rightarrow> nat \<times> string \<Rightarrow> (ToolEnd \<times> string) + string list \<times> string" where
  "replay_trace J D files slabs opts st numbered_path =
     (case (st, numbered_path) of ((rows, log), (i, path)) \<Rightarrow>
      case load_trace J files path of
        Inl error \<Rightarrow> Inl (Exit 1, log @ error @ newline)
      | Inr trace \<Rightarrow>
          (let cfg = effective_config (opt_config opts) trace; log = log @ progress_line path trace cfg
           in case run_paged trace cfg (slabs i) of
                None \<Rightarrow> Inl (Terminate, log)
              | Some paged \<Rightarrow>
                  (let rows = rows @ [to_csv_row D trace cfg paged]
                   in if opt_paged_only opts then Inr (rows, log)
                      else Inr (rows @ [to_csv_row D trace cfg (run_contiguous trace cfg)], log))))"

record ToolOutput =
  tool_end :: ToolEnd
  cout :: string
  cerr :: string
  csv_file :: "(string \<times> string) option"

definition stopped :: "ToolEnd \<Rightarrow> string \<Rightarrow> ToolOutput" where
  "stopped e log = \<lparr>tool_end = e, cout = [], cerr = log, csv_file = None\<rparr>"

definition row_lines :: "string list \<Rightarrow> string" where
  "row_lines rows = concat (map (\<lambda>row. row @ newline) rows)"

definition write_rows :: "(string \<Rightarrow> string option) \<Rightarrow> string \<Rightarrow> string list \<Rightarrow> string \<Rightarrow> ToolOutput" where
  "write_rows append_to path rows log =
     (if path = [] then
        \<lparr>tool_end = Exit 0, cout = csv_header @ newline @ row_lines rows, cerr = log, csv_file = None\<rparr>
      else (case append_to path of
        None \<Rightarrow> stopped (Exit 1) (log @ ''cannot write '' @ path @ newline)
      | Some old \<Rightarrow>
          \<lparr>tool_end = Exit 0, cout = [], cerr = log,
           csv_file = Some (path, old @ (if length old = 0 then csv_header @ newline else []) @ row_lines rows)\<rparr>))"

definition replay_main ::
    "'j json_api \<Rightarrow> 'd doubles \<Rightarrow> (string \<Rightarrow> string option) \<Rightarrow> (string \<Rightarrow> string option)
     \<Rightarrow> (nat \<Rightarrow> u8 list option) \<Rightarrow> string list \<Rightarrow> ToolOutput" where
  "replay_main J D files append_to slabs args =
     (case parse_args args default_options of
        Inl (e, log) \<Rightarrow> stopped e log
      | Inr opts \<Rightarrow>
          if opt_traces opts = [] then stopped (Exit 2) usage
          else (case try_loop (replay_trace J D files slabs opts) (enumerate 0 (opt_traces opts)) ([], []) of
            Inl (e, log) \<Rightarrow> stopped e log
          | Inr (rows, log) \<Rightarrow> write_rows append_to (opt_csv_path opts) rows log))"

end
