(* ===== verification/ReplayToolProps.thy ===== *)
theory ReplayToolProps
  imports ReplayTool PagedProps
begin

text \<open>
  The replay tool from its arguments to its output: numbers and options on the command line are read back as
  they are written, a CSV row has its values under the columns of the header, and a run over readable traces
  prints the rows of all of them, or nothing at all.
\<close>

section \<open>Numbers\<close>

lemma digit_not_special: "is_digit c \<Longrightarrow> \<not> is_space c \<and> c \<noteq> CHR ''-'' \<and> c \<noteq> CHR ''+'' \<and> c \<noteq> CHR '',''"
  by (auto simp: is_digit_def is_space_def)

lemma strtoul_digits:
  assumes "list_all is_digit ds" and "ds \<noteq> []"
  shows "strtoul ds = Some (if digits_value ds \<ge> 18446744073709551616 then - 1 else of_nat (digits_value ds), [])"
proof -
  obtain d ds' where ds: "ds = d # ds'" using assms(2) by (cases ds) simp_all
  have d: "\<not> is_space d" "d \<noteq> CHR ''-''" "d \<noteq> CHR ''+''" using digit_not_special [of d] assms(1) ds by simp_all
  have "takeWhile is_digit ds = ds" "dropWhile is_digit ds = []"
    using assms(1) by (simp_all add: list_all_iff takeWhile_eq_all_conv dropWhile_eq_Nil_conv)
  then show ?thesis using d by (simp add: strtoul_def ds)
qed

text \<open>A number is accepted and reduced modulo \<open>2 ^ 32\<close>; out-of-range values are not reported.\<close>

lemma ucast_of_nat_u32: "ucast (of_nat n :: u64) = (of_nat n :: u32)"
  by (rule bit_word_eqI) (auto simp: bit_simps)

lemma parse_u32_truncates: "n < 18446744073709551616 \<Longrightarrow> parse_u32 (to_string n) = Some (of_nat n)"
  by (simp add: parse_u32_def strtoul_digits [OF to_string_digits] ucast_of_nat_u32)

lemma parse_u32_show_word [simp]: "parse_u32 (show_word (v :: u32)) = Some v"
proof -
  have "unat v < 18446744073709551616" using unat_u32_lt [of v] by linarith
  then show ?thesis by (simp add: show_word_def parse_u32_truncates)
qed

section \<open>The command line\<close>

text \<open>The arguments that ask for given options.\<close>

definition number_args :: "ReplayConfig \<Rightarrow> string list" where
  "number_args c =
     [''--pool-blocks'', show_word (rc_max_blocks c), ''--tokens-per-block'', show_word (rc_tokens_per_block c),
      ''--max-active'', show_word (rc_max_active_requests c), ''--max-batch-tokens'', show_word (rc_max_batch_tokens c),
      ''--watermark'', show_word (rc_preemption_watermark_blocks c), ''--swap-slots'', show_word (swap_slots c),
      ''--baseline-max-context'', show_word (baseline_max_context c),
      ''--skip-limit'', show_word (rc_admission_skip_limit c)]"

definition flag_args :: "ReplayOptions \<Rightarrow> string list" where
  "flag_args opts =
     (if rc_size_aware_admission (opt_config opts) then [''--size-aware''] else [])
     @ (if prefix_caching (opt_config opts) then [''--prefix-cache''] else [])
     @ (if opt_paged_only opts then [''--paged-only''] else [])
     @ (if opt_csv_path opts = [] then [] else [''--csv'', opt_csv_path opts])"

definition command_line :: "ReplayOptions \<Rightarrow> string list" where
  "command_line opts = number_args (opt_config opts) @ flag_args opts @ opt_traces opts"

text \<open>What a command line can ask for: the step bound is fixed and no trace looks like an option.\<close>

definition expressible :: "ReplayOptions \<Rightarrow> bool" where
  "expressible opts \<longleftrightarrow>
     max_steps (opt_config opts) = 2000000 \<and> list_all (\<lambda>path. \<not> is_option_arg path \<and> path \<noteq> ''-h'') (opt_traces opts)"

lemma other_options:
  "u32_option ''--help'' = None" "u32_option ''-h'' = None" "u32_option ''--paged-only'' = None"
  "u32_option ''--size-aware'' = None" "u32_option ''--prefix-cache'' = None" "u32_option ''--csv'' = None"
  by (simp_all add: u32_option_def)

lemma flag_option_Some:
  "flag_option arg opts = Some opts' \<Longrightarrow> arg = ''--paged-only'' \<or> arg = ''--size-aware'' \<or> arg = ''--prefix-cache''"
  by (simp add: flag_option_def split: if_splits)

lemma flag_option_is_option: "flag_option arg opts = Some opts' \<Longrightarrow> is_option_arg arg"
  by (drule flag_option_Some) (auto simp: is_option_arg_def)

lemma u32_option_is_option: "u32_option arg = Some f \<Longrightarrow> is_option_arg arg"
  by (rule ccontr) (auto simp: u32_option_def is_option_arg_def split: if_split_asm)

lemma parse_args_number:
  assumes "u32_option arg = Some f"
  shows "parse_args (arg # show_word v # rest) opts = parse_args rest (opts\<lparr>opt_config := f v (opt_config opts)\<rparr>)"
proof -
  have "arg \<noteq> ''--help''" "arg \<noteq> ''-h''" using assms other_options(1,2) by auto
  moreover have "flag_option arg opts = None"
    using assms other_options(3-5) flag_option_Some [of arg opts] by (cases "flag_option arg opts") auto
  ultimately show ?thesis using assms by (simp add: parse_args.simps(2))
qed

lemma parse_args_flag:
  assumes "flag_option arg opts = Some opts'"
  shows "parse_args (arg # rest) opts = parse_args rest opts'"
proof -
  have "arg \<noteq> ''--help''" "arg \<noteq> ''-h''" using flag_option_Some [OF assms] by auto
  then show ?thesis using assms by (simp add: parse_args.simps(2))
qed

lemma parse_args_csv: "parse_args (''--csv'' # path # rest) opts = parse_args rest (opts\<lparr>opt_csv_path := path\<rparr>)"
  by (simp add: parse_args.simps(2) flag_option_def u32_option_def is_option_arg_def)

lemma parse_args_paths:
  "list_all (\<lambda>path. \<not> is_option_arg path \<and> path \<noteq> ''-h'') paths \<Longrightarrow>
   parse_args paths opts = Inr (opts\<lparr>opt_traces := opt_traces opts @ paths\<rparr>)"
proof (induction paths arbitrary: opts)
  case (Cons path paths)
  then have path: "\<not> is_option_arg path" "path \<noteq> ''-h''" by simp_all
  then have "flag_option path opts = None" "u32_option path = None"
    using flag_option_is_option [of path opts] u32_option_is_option [of path] by (meson option.exhaust)+
  moreover have "path \<noteq> ''--help''" "path \<noteq> ''--csv''" using path by (auto simp: is_option_arg_def)
  ultimately have "parse_args (path # paths) opts = parse_args paths (opts\<lparr>opt_traces := opt_traces opts @ [path]\<rparr>)"
    using path by (simp add: parse_args.simps(2))
  then show ?case using Cons by simp
qed simp

lemma parse_number_args:
  assumes "max_steps c = 2000000"
  shows "parse_args (number_args c @ rest) default_options =
    parse_args rest (default_options\<lparr>opt_config := c\<lparr>rc_size_aware_admission := False, prefix_caching := False\<rparr>\<rparr>)"
  using assms
  by (cases c)
    (simp add: number_args_def parse_args_number u32_option_def default_options_def default_replay_config_def)

lemma parse_flag_args:
  "parse_args (flag_args opts @ rest)
     (default_options\<lparr>opt_config := (opt_config opts)\<lparr>rc_size_aware_admission := False, prefix_caching := False\<rparr>\<rparr>)
   = parse_args rest (opts\<lparr>opt_traces := []\<rparr>)"
proof (cases opts)
  case (fields c traces csv paged)
  then show ?thesis
    by (cases c) (simp add: flag_args_def parse_args_flag flag_option_def parse_args_csv default_options_def)
qed

lemma parse_command_line:
  assumes "expressible opts"
  shows "parse_args (command_line opts) default_options = Inr opts"
  using assms
  by (simp add: expressible_def command_line_def parse_number_args parse_flag_args parse_args_paths)

section \<open>CSV\<close>

text \<open>The table a row stands for: each column of the header with its value.\<close>

definition csv_table :: "'d doubles \<Rightarrow> Trace \<Rightarrow> ReplayConfig \<Rightarrow> ReplayMetrics \<Rightarrow> (string \<times> string) list" where
  "csv_table D trace cfg m =
     [(''trace_mix'', th_mix (header trace)), (''pixel_budget'', th_pixel_budget (header trace)),
      (''dimension_source'', th_dimension_source (header trace)), (''mode'', mode m),
      (''pool_blocks'', show_word (rc_max_blocks cfg)),
      (''tokens_per_block'', show_word (rc_tokens_per_block cfg)),
      (''baseline_max_context'', show_word (baseline_max_context cfg)),
      (''preemption_watermark'', show_word (rc_preemption_watermark_blocks cfg)),
      (''requests'', to_string (length (requests trace))),
      (''requests_admitted'', show_word (requests_admitted m)),
      (''requests_completed'', show_word (requests_completed m)),
      (''requests_never_admissible'', show_word (requests_never_admissible m)), (''steps'', show_word (steps m)),
      (''tokens_decoded'', show_word (tokens_decoded m)),
      (''peak_active_requests'', show_word (peak_active_requests m)),
      (''peak_blocks_in_use'', show_word (peak_blocks_in_use m)),
      (''peak_bytes_in_use'', show_word (peak_bytes_in_use m)), (''utilization'', dbl_fixed6 D (utilization D m)),
      (''max_partial_block_slack'', show_word (max_partial_block_slack m)),
      (''preemptions'', show_word (preemptions m)), (''resumes'', show_word (resumes m)),
      (''failed_resumes'', show_word (failed_resumes m)),
      (''swapped_blocks_out'', show_word (swapped_blocks_out m)), (''forks'', show_word (forks m)),
      (''cow_events'', show_word (cow_events m)), (''prefix_hits'', show_word (prefix_hits m)),
      (''prefix_blocks_saved'', show_word (prefix_blocks_saved m)),
      (''p99_ttft_cost'', show_word (p99_ttft_cost m)), (''size_aware'', show_flag (rc_size_aware_admission cfg)),
      (''prefix_caching'', show_flag (prefix_caching cfg)),
      (''head_of_line_stall_steps'', show_word (head_of_line_stall_steps m)),
      (''fragmentation_failures'', show_word (fragmentation_failures m)),
      (''completed'', show_flag (rm_completed m)), (''leak_free'', show_flag (leak_free m))]"

lemma comma_show [simp]: "CHR '','' \<notin> set (show_word w)" "CHR '','' \<notin> set (to_string n)" "CHR '','' \<notin> set (show_flag b)"
proof -
  show str: "CHR '','' \<notin> set (to_string n)" for n
    using to_string_digits [of n] digit_not_special by (auto simp: list_all_iff)
  show "CHR '','' \<notin> set (show_word w)" unfolding show_word_def by (rule str)
  show "CHR '','' \<notin> set (show_flag b)" by (simp add: show_flag_def)
qed

lemma split_csv_header: "split_on (CHR '','') csv_header = map fst (csv_table D trace cfg m)"
  unfolding csv_table_def list.map fst_conv by code_simp

lemma split_csv_row:
  assumes "CHR '','' \<notin> set (th_mix (header trace))" and "CHR '','' \<notin> set (th_pixel_budget (header trace))"
    and "CHR '','' \<notin> set (th_dimension_source (header trace))" and "CHR '','' \<notin> set (mode m)"
    and "CHR '','' \<notin> set (dbl_fixed6 D (utilization D m))"
  shows "split_on (CHR '','') (to_csv_row D trace cfg m) = map snd (csv_table D trace cfg m)"
  using assms by (simp add: to_csv_row_def csv_table_def split_on_append split_on_piece)

lemma csv_columns_distinct: "distinct (map fst (csv_table D trace cfg m))"
  by (simp add: csv_table_def)

section \<open>The main function\<close>

text \<open>The rows of one readable trace.\<close>

definition trace_rows ::
    "'j json_api \<Rightarrow> 'd doubles \<Rightarrow> (string \<Rightarrow> string option) \<Rightarrow> (nat \<Rightarrow> u8 list option) \<Rightarrow> ReplayOptions \<Rightarrow> nat \<times> string \<Rightarrow> string list" where
  "trace_rows J D files slabs opts ip =
     (let trace = projr (load_trace J files (snd ip)); cfg = effective_config (opt_config opts) trace
      in to_csv_row D trace cfg (the (run_paged trace cfg (slabs (fst ip))))
         # (if opt_paged_only opts then [] else [to_csv_row D trace cfg (run_contiguous trace cfg)]))"

text \<open>A trace the tool can replay: it is readable and within the limits of the replay, over a slab of the right size.\<close>

definition replayable ::
    "'j json_api \<Rightarrow> (string \<Rightarrow> string option) \<Rightarrow> (nat \<Rightarrow> u8 list option) \<Rightarrow> ReplayOptions \<Rightarrow> nat \<times> string \<Rightarrow> bool" where
  "replayable J files slabs opts ip \<longleftrightarrow>
     (case (load_trace J files (snd ip), slabs (fst ip)) of
        (Inr trace, Some slab) \<Rightarrow>
          replay_fits trace (effective_config (opt_config opts) trace)
          \<and> slab_fits trace (effective_config (opt_config opts) trace) slab
      | _ \<Rightarrow> False)"

lemma replay_trace_ok:
  assumes "replayable J files slabs opts ip"
  shows "\<exists>log'. replay_trace J D files slabs opts (rows, log) ip = Inr (rows @ trace_rows J D files slabs opts ip, log')"
proof -
  obtain i path where ip: "ip = (i, path)" by (cases ip)
  from assms obtain trace slab where load: "load_trace J files path = Inr trace" "slabs i = Some slab"
    and fits: "replay_fits trace (effective_config (opt_config opts) trace)"
      "slab_fits trace (effective_config (opt_config opts) trace) slab"
    by (auto simp: replayable_def ip split: sum.splits option.splits)
  obtain m where "run_paged trace (effective_config (opt_config opts) trace) (Some slab) = Some m"
    using run_paged_ok [OF fits] by blast
  then show ?thesis by (auto simp: replay_trace_def trace_rows_def ip load Let_def)
qed

lemma replay_traces_ok:
  assumes "list_all (replayable J files slabs opts) ips"
  shows "\<exists>log'. try_loop (replay_trace J D files slabs opts) ips (rows, log)
    = Inr (rows @ concat (map (trace_rows J D files slabs opts) ips), log')"
  using assms
proof (induction ips arbitrary: rows log)
  case (Cons ip ips)
  then obtain log' where
    "replay_trace J D files slabs opts (rows, log) ip = Inr (rows @ trace_rows J D files slabs opts ip, log')"
    using replay_trace_ok [of J files slabs opts ip D rows log] by auto
  then show ?case using Cons.IH [of "rows @ trace_rows J D files slabs opts ip" log'] Cons.prems by simp
qed simp

lemma replay_main_ok:
  assumes "expressible opts" and "opt_traces opts \<noteq> []"
    and "list_all (replayable J files slabs opts) (enumerate 0 (opt_traces opts))"
  shows "\<exists>log. replay_main J D files append_to slabs (command_line opts)
    = write_rows append_to (opt_csv_path opts) (concat (map (trace_rows J D files slabs opts) (enumerate 0 (opt_traces opts)))) log"
  using replay_traces_ok [OF assms(3), of D "[]" "[]"] parse_command_line [OF assms(1)] assms(2)
  by (auto simp: replay_main_def)

lemma replay_main_unreadable:
  assumes "expressible opts" and "list_all (replayable J files slabs opts) (take k (enumerate 0 (opt_traces opts)))"
    and "k < length (opt_traces opts)" and "load_trace J files (opt_traces opts ! k) = Inl error"
  shows "\<exists>log. replay_main J D files append_to slabs (command_line opts) = stopped (Exit 1) (log @ error @ newline)"
proof -
  let ?ips = "enumerate 0 (opt_traces opts)" and ?body = "replay_trace J D files slabs opts"
  have at: "?ips ! k = (k, opt_traces opts ! k)" using assms(3) by (simp add: nth_enumerate_eq)
  have split: "?ips = take k ?ips @ (k, opt_traces opts ! k) # drop (Suc k) ?ips"
    using assms(3) at id_take_nth_drop [of k ?ips] by simp
  obtain rows log where ok: "try_loop ?body (take k ?ips) ([], []) = Inr (rows, log)"
    using replay_traces_ok [OF assms(2), of D "[]" "[]"] by auto
  have "try_loop ?body ?ips ([], []) = Inl (Exit 1, log @ error @ newline)"
    by (subst split) (simp add: try_loop_append ok replay_trace_def assms(4))
  then show ?thesis
    using parse_command_line [OF assms(1)] assms(3) by (auto simp: replay_main_def)
qed

lemma replay_main_silent_failure:
  assumes "tool_end (replay_main J D files append_to slabs args) \<noteq> Exit 0"
  shows "cout (replay_main J D files append_to slabs args) = [] \<and> csv_file (replay_main J D files append_to slabs args) = None"
proof -
  have stop: "cout (stopped e log) = [] \<and> csv_file (stopped e log) = None" for e log by (simp add: stopped_def)
  have wr: "tool_end (write_rows append_to path rows log) \<noteq> Exit 0 \<Longrightarrow>
      cout (write_rows append_to path rows log) = [] \<and> csv_file (write_rows append_to path rows log) = None" for path rows log
    by (auto simp: write_rows_def stop split: option.splits if_splits)
  show ?thesis
  proof (cases "parse_args args default_options")
    case (Inl p)
    then show ?thesis by (cases p) (simp add: replay_main_def stop)
  next
    case (Inr opts)
    show ?thesis
      using assms stop wr Inr
      by (cases "try_loop (replay_trace J D files slabs opts) (enumerate 0 (opt_traces opts)) ([], [])")
        (auto simp: replay_main_def split: prod.splits if_splits)
  qed
qed

end
