(* ===== verification/DemoTool.thy ===== *)
theory DemoTool
  imports Demo ReplayToolProps
begin

text \<open>
  A concrete JSON library and a two-line trace for the witnesses on the replay tool: the header and the one request
  of \<open>demo_one_trace\<close>, the request with a text span and an image span.
\<close>

section \<open>JSON values\<close>

datatype demo_json = JString string | JNumber int | JArray "demo_json list" | JObject "(string \<times> demo_json) list"

fun demo_at :: "demo_json \<Rightarrow> string \<Rightarrow> string + demo_json" where
  "demo_at (JObject fs) key = (case map_of fs key of None \<Rightarrow> Inl ''key not found'' | Some j \<Rightarrow> Inr j)"
| "demo_at _ key = Inl ''not an object''"

fun demo_index :: "demo_json \<Rightarrow> nat \<Rightarrow> string + demo_json" where
  "demo_index (JArray js) i = (if i < length js then Inr (js ! i) else Inl ''index out of range'')"
| "demo_index _ i = Inl ''not an array''"

fun demo_items :: "demo_json \<Rightarrow> demo_json list" where
  "demo_items (JArray js) = js"
| "demo_items _ = []"

fun demo_string :: "demo_json \<Rightarrow> string + string" where
  "demo_string (JString s) = Inr s"
| "demo_string _ = Inl ''not a string''"

fun demo_number :: "demo_json \<Rightarrow> string + int" where
  "demo_number (JNumber i) = Inr i"
| "demo_number _ = Inl ''not a number''"

definition demo_header_json :: demo_json where
  "demo_header_json = JObject
     [(''record'', JString ''header''), (''schema_version'', JNumber 1), (''model'', JString []), (''mix'', JString []),
      (''dimension_source'', JString []), (''pixel_budget'', JString []), (''seed'', JNumber 0),
      (''num_requests'', JNumber 3), (''num_layers'', JNumber 1), (''num_kv_heads'', JNumber 1), (''head_dim'', JNumber 1),
      (''bytes_per_element'', JNumber 1), (''max_prompt_tokens'', JNumber 3), (''max_decode_budget'', JNumber 2),
      (''visual_tokens_max'', JNumber 0), (''images_total'', JNumber 0)]"

definition demo_span_json :: "string \<Rightarrow> demo_json" where
  "demo_span_json kind = JObject
     [(''start_token'', JNumber 0), (''token_count'', JNumber 1), (''kind'', JString kind),
      (''origin'', JArray [JNumber 0, JNumber 0, JNumber 0]), (''stride'', JArray [JNumber 1, JNumber 1, JNumber 1])]"

definition demo_request_json :: demo_json where
  "demo_request_json = JObject
     [(''record'', JString ''request''), (''request_id'', JNumber 1), (''arrival_us'', JNumber 0), (''text_tokens'', JNumber 1),
      (''prompt_tokens'', JNumber 1), (''decode_budget'', JNumber 1), (''decode_actual'', JNumber 1),
      (''num_parallel_samples'', JNumber 1), (''prefix_key'', JString []), (''images'', JArray []),
      (''mrope_spans'', JArray [demo_span_json ''text'', demo_span_json ''image''])]"

definition demo_api :: "demo_json json_api" where
  "demo_api =
     \<lparr>js_parse = (\<lambda>line. if line = ''H'' then Inr demo_header_json else if line = ''R'' then Inr demo_request_json
                         else Inl ''parse error''),
      js_at = demo_at, js_index = demo_index, js_items = demo_items,
      js_value = (\<lambda>j key dflt. case demo_at j key of Inl _ \<Rightarrow> Inr dflt | Inr v \<Rightarrow> demo_string v),
      js_string = demo_string, js_int = demo_number, js_i64 = demo_number,
      js_u32 = (\<lambda>j. and_then (demo_number j) (\<lambda>i. Inr (of_int i))),
      js_u64 = (\<lambda>j. and_then (demo_number j) (\<lambda>i. Inr (of_int i)))\<rparr>"

section \<open>A trace\<close>

definition demo_files :: "string \<Rightarrow> string option" where
  "demo_files path = (if path = ''t'' then Some (''H'' @ newline @ newline @ ''R'') else None)"

definition demo_span :: "PositionEncodingKind \<Rightarrow> PositionalEncodingSpan" where
  "demo_span kind =
     \<lparr>pe_start_token = 0, pe_token_count = 1, pe_kind = kind, pe_origin = \<lparr>temporal = 0, height = 0, width = 0\<rparr>,
      pe_stride = \<lparr>temporal = 1, height = 1, width = 1\<rparr>\<rparr>"

definition demo_file_trace :: Trace where
  "demo_file_trace = demo_one_trace\<lparr>requests :=
     [(demo_trace_request 1 1 1)\<lparr>tr_multimodal_spans := [\<lparr>mm_start_token = 0, mm_token_count = 1, mm_feature_index = 0\<rparr>],
        tr_positional_encoding := [demo_span Text1D, demo_span Image2D]\<rparr>]\<rparr>"

definition demo_options :: ReplayOptions where
  "demo_options =
     \<lparr>opt_config = demo_one_config\<lparr>max_steps := 2000000\<rparr>, opt_traces = [''t''], opt_csv_path = [], opt_paged_only = False\<rparr>"

definition demo_doubles :: "u64 doubles" where
  "demo_doubles = \<lparr>dbl_zero = 0, dbl_of_u64 = (\<lambda>w. w), dbl_div = (div), dbl_fixed6 = show_word\<rparr>"

lemma demo_file_loads: "load_trace demo_api demo_files ''t'' = Inr demo_file_trace"
  by code_simp

lemma demo_options_expressible: "expressible demo_options"
  by (simp add: expressible_def demo_options_def is_option_arg_def)

lemma demo_options_replayable:
  "list_all (replayable demo_api demo_files (\<lambda>_. Some (replicate 256 0)) demo_options) (enumerate 0 (opt_traces demo_options))"
proof -
  let ?cfg = "demo_one_config\<lparr>max_steps := 2000000\<rparr>"
  have cfg: "effective_config (opt_config demo_options) demo_file_trace = ?cfg"
    by (simp add: effective_config_def demo_options_def demo_one_config_def)
  have "replay_fits demo_file_trace ?cfg"
    by (simp add: replay_fits_def trace_ids_def total_sequences_def demo_file_trace_def demo_one_trace_def demo_one_config_def
        demo_trace_def demo_replay_config_def demo_trace_request_def)
  moreover have "block_stride_for (replay_allocator_config demo_file_trace ?cfg) = 256" by code_simp
  then have "slab_fits demo_file_trace ?cfg (replicate 256 0)"
    by (simp add: slab_fits_def demo_one_config_def demo_replay_config_def)
  ultimately show ?thesis
    by (simp add: replayable_def demo_file_loads cfg demo_options_def [THEN arg_cong [where f = opt_traces]])
qed

end
