(* ===== verification/Spec2Isabelle.thy ===== *)
theory Spec2Isabelle
  imports DemoTool
begin

text \<open>
  QwenVL-Paged keeps the key/value cache of a multimodal transformer in fixed-size blocks. This
  library models its C++ core and proves it correct; everything is a total HOL function over the
  program's own data, so each operation can be evaluated on a concrete state.

  \<^bold>\<open>The program and its theories\<close>, bottom up. File names are relative to \<^verbatim>\<open>src/\<close>.

  \<^item> \<open>Prelude\<close>: the machine types (\<^verbatim>\<open>uint32_t\<close> ids are 32-bit words), the named theorem
    collections, and generic facts on lists, multisets and words.
  \<^item> \<open>Block\<close>, \<open>CacheLayout\<close>: \<^verbatim>\<open>Block.h/.cpp\<close> and \<^verbatim>\<open>CacheLayout.h/.cpp\<close>; shapes,
    sizes and the address of one element in a block.
  \<^item> \<open>SwapBackend\<close>: \<^verbatim>\<open>HostSwapBackend\<close>. Its contract is the locale \<open>swap_store\<close>.
  \<^item> \<open>BlockTable\<close>: the sorted page table of one sequence. Its contract is the locale
    \<open>page_table\<close>: the table is a finite map.
  \<^item> \<open>MemoryAllocator\<close>, \<open>Ownership\<close>: the reference-counted frame pool with its free list
    and its swap slots. The memory is explicit (a byte list per frame), and a read or write through a
    bad pointer sets the ghost flag \<open>faulted\<close>. The contract is the locale \<open>frame_pool\<close>;
    \<open>Ownership\<close> restates each operation on the references and slots it touches.
  \<^item> \<open>KVCacheManager\<close>: the operations of \<^verbatim>\<open>KVCacheManager.cpp\<close> in the source's order.
    \<open>CacheTables\<close>, \<open>CacheLoops\<close> and \<open>KVInvariant\<close> hold the ownership of a
    sequence's tables, the loops over them and the invariant \<open>kv_inv\<close>;
    \<open>KVTransparency\<close> (swapping, copy on write), \<open>KVLifecycle\<close> (create, fork,
    reserve) and \<open>KVPrefix\<close> (release, prefix sharing) treat the operations;
    \<open>KVSystem\<close> is the manager as a state machine over an abstract store in which every sequence
    has private arrays. \<open>PoolSize\<close> shows that the number of frames is constant, \<open>KVLimits\<close>
    bounds reference counts and table lengths by the size of the pool, so that no counter wraps, and
    \<open>CacheOwners\<close> tracks which request owns which sequence.
  \<^item> \<open>Scheduler\<close>: \<^verbatim>\<open>Scheduler.cpp\<close>, which calls the manager. \<open>SchedulerProps\<close>
    has the locale \<open>admission_invariant\<close>: a predicate kept by one admission and one preemption
    is kept by the two loops of \<^verbatim>\<open>schedule_next\<close>. It is interpreted once for each invariant
    (conservation, size of the active set, order, skip bound, reservations, queue discipline).
    \<open>SchedulerPlan\<close> and \<open>PlanEntries\<close> treat the batch plan, \<open>SchedulerSystem\<close> the state
    machine, \<open>SchedulerProgress\<close> the fact that the scheduler does not idle while there is work.
  \<^item> \<open>SchedulerCache\<close>, \<open>ServingSystem\<close>: scheduler and cache manager together. The locale
    \<open>placement_invariant\<close> refines \<open>admission_invariant\<close>: a predicate kept by placing one request
    and by parking one is kept by the whole of \<^verbatim>\<open>schedule_next\<close>; it is interpreted for the
    soundness of the cache under the scheduler (\<open>cache_sound\<close>) and, in \<open>ReplayClient\<close>, for that of
    the replay's client. \<open>ServingSystem\<close> is the state machine in which scheduler calls and client
    operations on the cache interleave.
  \<^item> \<open>CacheView\<close>, \<open>PagedAttention\<close>: the read-only view of a sequence and the attention
    kernels that read through it. Element type and arithmetic are the record \<open>arith\<close>, because the
    kernels are templates over them. \<open>AttentionProps\<close> and \<open>AttentionOpt\<close> compare the
    kernels.
  \<^item> \<open>TraceReplay\<close>, \<open>ReplayProps\<close>: the trace data and the contiguous baseline of
    \<^verbatim>\<open>tools/trace_replay\<close>. \<open>PagedReplay\<close> is \<^verbatim>\<open>run_paged\<close>, the driver of scheduler
    and cache over a whole trace, loop by loop; \<open>PagedProps\<close> carries the invariant of
    \<open>ReplayClient\<close> through it.
    \<open>TraceFile\<close> is \<^verbatim>\<open>load_trace\<close>, the reader of trace files over a JSON library, \<open>ReplayTool\<close> the CSV output
    and the command line and \<^verbatim>\<open>main\<close> of \<^verbatim>\<open>tools/trace_replay/main.cpp\<close>, with their properties in
    \<open>ReplayToolProps\<close>. \<open>ToolBase\<close> holds what the tools share: exceptions, decimal output, separated text.
  \<^item> \<open>GoldenExport\<close>: \<^verbatim>\<open>tools/golden_export/main.cpp\<close>, the fixture exporter, from its \<^verbatim>\<open>.npy\<close> writer
    (\<open>GoldenFiles\<close>) to \<^verbatim>\<open>main\<close>. \<open>GoldenFill\<close> follows \<^verbatim>\<open>fill_sequence\<close> store by store through copy on
    write, \<open>GoldenCheck\<close> shows that the kernel then computes what \<^verbatim>\<open>cross_check\<close> recomputes,
    \<open>GoldenSetup\<close> which frames the operations take and give back, \<open>GoldenFixture\<close> what \<^verbatim>\<open>write_fixture\<close>
    writes; \<open>GoldenScenario\<close>, \<open>GoldenProps\<close>, \<open>GoldenChurn\<close> and \<open>GoldenMain\<close> put the exports together.
  \<^item> \<open>Demo\<close>, \<open>DemoTool\<close>: the concrete states, files and options of the witnesses. This theory holds the properties.

  \<^bold>\<open>How the parts interact.\<close> The scheduler owns the queues and calls the manager to create, reserve,
  swap and release; the manager owns the page tables and calls the allocator for frames and swap
  slots; the allocator calls the swap backend. A state is therefore nested: \<open>Scheduler\<close> has a field
  \<open>cache_manager\<close>, which has a field \<open>allocator\<close>, which has the backend. The kernels read the
  memory of the allocator through a \<open>CacheView\<close>. The replay is the client of all of them: it feeds a
  trace to the scheduler, executes its plans on the cache and takes the measurements.

  \<^bold>\<open>What is shown.\<close> The cache manager refines the store of private arrays, and its reachable states
  satisfy the invariant and never fault (C1, C2). The same holds for scheduler and cache together
  under interleavings of scheduler calls and client operations, where in addition an idle system
  holds no memory (C3), and for the replay driver, which never throws and leaks nothing (C4). The steps these
  state machines allow exclude a few calls, named with the properties; the important one is a second publication of a
  sequence under a different key, which the code gets wrong. Then the
  operations of the manager: copy on write, swapping, forking, reservation, release and prefix sharing,
  each with its error branches (C5 to C13). The components below it satisfy their contracts (C14 to
  C17). The scheduler keeps its invariant, its token budget and its order, loses no request, plans every
  request at most once and only running ones, and makes progress (C18 to C27); C28 proves a defect of its
  accounting. The view reads what the
  sequence contains, and the three optimised kernels compute the reference function (C29 to C32). First
  fit is correct, and the contiguous baseline runs to completion without a leak (C33, C34). The replay tool
  reads a trace exactly, its CSV rows match their header, and it reports on all traces or on none (C35 to C37). The fixture
  exporter succeeds, its fixtures hold the pattern and the textbook output, and its files are well
  formed (C38 to C40). A few theorems without a number evaluate small examples of defects and limits of the code.

  \<^bold>\<open>Errors.\<close> The code reports errors by returning \<^verbatim>\<open>false\<close>, \<^verbatim>\<open>nullopt\<close> or
  a sentinel id, and so does the model; a failed operation returns the state the code leaves behind,
  partial effects included. Exceptions of the attention kernels, of the trace reader and of the exporter are values of a sum type; in the replay,
  whose only exception is a failed \<^verbatim>\<open>unordered_map::at\<close>, the result is an option and \<open>None\<close>
  is the exception.

  \<^bold>\<open>Integers.\<close> Ids, counts and token numbers are 32-bit words and wrap as the code does. Where a
  theorem needs the absence of wrap-around, the bound is a hypothesis that the witness discharges;
  \<open>reserve_tokens_wraps\<close> shows what happens without it. Sizes in bytes are 64 bits wide in the code and are natural
  numbers here when no overflow is possible for blocks that fit in memory.

  \<^bold>\<open>Loops\<close> terminate. Loops over vectors are recursions on lists. The admission and reclaiming
  loops of the scheduler shrink the waiting and active queues; the time-step loops of the contiguous
  baseline and of the paged replay are bounded by \<open>max_steps\<close>, as in the code, and the replay's
  reclaiming loop by the number of active requests, so no extra fuel appears.

  \<^bold>\<open>Third-party code\<close> is a parameter: the JSON library of the trace reader is the record \<open>json_api\<close>, in which every
  access yields a value or throws; \<^verbatim>\<open>float\<close> and \<^verbatim>\<open>double\<close> arithmetic and formatting are the records \<open>arith\<close>, \<open>floats\<close>
  and \<open>doubles\<close>; files are functions from paths to contents.

  \<^bold>\<open>Not modelled.\<close> The errors of the file system while a file is being written and the console output of the
  exporter, the benchmarks (clocks and hardware counters around
  the modelled operations), the Python bindings (a wrapper over the modelled methods), and the AVX-512
  variants of the kernels, whose intrinsics are a compiler's. Floating-point rounding is not modelled: the exact agreement of the
  blocked kernel holds for any arithmetic, that of the fused and online kernels under the stated laws.
\<close>

section \<open>The system as a whole\<close>

text \<open>C1. The cache manager refines a store of private block arrays. From any state satisfying the
  invariant, every enabled operation (creation, fork, reservation, copy-on-write preparation, a
  client's write, swapping, release, prefix publication and attachment) keeps the invariant and
  changes what the sequences contain exactly as the abstract store prescribes: frames, sharing
  and swap slots are invisible.\<close>

theorem cache_refines_private_store:
  assumes "kv_inv kv" and "kv_step kv op kv'"
  shows "kv_inv kv' \<and> spec_step (unat (table_count kv)) (kv_tokens_per_block kv) op (kv_view kv) (kv_view kv')"
  using assms kv_apply_refines by (auto simp: kv_step_simps)

theorem cache_refines_private_store_witness:
  "kv_inv (snd (fork_sequence demo_kv2 1 (demo_meta 2 10)))
   \<and> spec_step (unat (table_count demo_kv2)) (kv_tokens_per_block demo_kv2)
       (ForkSequence 1 (demo_meta 2 10)) (kv_view demo_kv2)
       (kv_view (snd (fork_sequence demo_kv2 1 (demo_meta 2 10))))"
proof -
  have "kv_step demo_kv2 (ForkSequence 1 (demo_meta 2 10))
      (kv_apply (ForkSequence 1 (demo_meta 2 10)) demo_kv2)"
    using demo_kv2_room by (intro kv_step.intros) simp
  from cache_refines_private_store [OF demo_kv2_inv this] show ?thesis by (simp del: spec_step.simps)
qed

text \<open>C2. In every state that the steps \<open>kv_enabled\<close> allows reach from an empty manager over a well-formed
  pool, the invariant holds and no operation has read or written through a missing or out-of-range frame
  pointer. Allowed is every operation with any arguments, whether it succeeds or fails, except these: a
  sequence that is published under one key is not published under a different one (the code then leaves a stale
  user count behind, so the invariant would fail); a client writes only a whole block through the frame the
  manager gave it for that block; and the counts of references, users, slots and blocks that the operation
  computes with stay below their machine limits.\<close>

theorem reachable_states_safe:
  assumes "alloc_inv al" and "alloc_refs al = {#}" and "slots_of al = {#}"
    and "kv_reachable (KVCacheManager_new al) kv"
  shows "kv_inv kv \<and> \<not> faulted (allocator kv)"
proof -
  have "kv_inv kv" using kv_reachable_inv KVCacheManager_new_inv assms by blast
  moreover from this have "alloc_inv (allocator kv)" by (rule kv_inv_parts)
  ultimately show ?thesis by (simp add: alloc_inv_def memory_inv_def Let_def)
qed

theorem reachable_states_safe_witness: "kv_inv demo_kv2 \<and> \<not> faulted (allocator demo_kv2)"
proof -
  have "kv_reachable demo_kv0 demo_kv1"
    unfolding demo_kv1_def
    by (rule next_step [OF start, of _ "CreateSequence (demo_meta 1 10)"])
      (simp add: kv_step_simps)
  then have "kv_reachable demo_kv0 demo_kv2"
    unfolding demo_kv2_def
    by (rule next_step [of _ _ "ReserveTokens 1 3"]) (simp add: kv_step_simps demo_kv1_fits)
  then show ?thesis
    using reachable_states_safe [OF demo_al_inv] unfolding demo_kv0_def by blast
qed

text \<open>C3. The serving system as a whole: the scheduler over the cache manager over the allocator, with
  clients that fork, reserve, prepare and write blocks and publish prefixes in between. In every state
  that the steps \<open>sys_enabled\<close> allows reach, both invariants hold, no bad pointer has been used, and every
  sequence belongs to a request that is being served; once no request is active or preempted, no
  sequence is left, every frame is free and no swap slot is occupied. The steps include failed
  admissions, preemption by the scheduler itself, cancellation and failed calls of the client. They
  exclude a request enqueued under an id that is already tracked, a prompt whose number of blocks, rounded up,
  does not fit in 31 bits, a second publication of a sequence under a different key (which leaks its first record
  in the code), forks for requests that are not being served, writes other than of a whole block the client
  has prepared, and calls when a counter of references, users, sequences or swap slots could wrap. Creating,
  swapping and releasing sequences is left to the scheduler. The pool and its swap capacity are below \<open>2 ^ 30\<close> blocks.\<close>

theorem serving_system_safe:
  assumes "alloc_inv al" and "alloc_refs al = {#}" and "slots_of al = {#}" and "small_pool (KVCacheManager_new al)"
    and "sys_reachable (Scheduler_new cfg (KVCacheManager_new al)) s"
  shows "kv_inv (cache_manager s) \<and> sched_inv s \<and> \<not> faulted (allocator (cache_manager s))
    \<and> ran (owners (cache_manager s)) \<subseteq> set (request_ids (active s @ preempted s))
    \<and> (active s = [] \<and> preempted s = [] \<longrightarrow>
         sequences (cache_manager s) = Map.empty
         \<and> length (free_list (allocator (cache_manager s))) = capacity (allocator (cache_manager s))
         \<and> swapped (allocator (cache_manager s)) = Map.empty)"
proof -
  have sound: "cache_sound s" "sched_inv s"
    using sys_reachable_sound [OF assms(5) fresh_system_sound [OF assms(1-4)]] by blast+
  note parts = cache_sound_parts [OF sound(1)]
  have "alloc_inv (allocator (cache_manager s))" using parts(1) by (rule kv_inv_parts)
  then have "\<not> faulted (allocator (cache_manager s))" by (simp add: alloc_inv_def memory_inv_def Let_def)
  then show ?thesis using parts(1,4) sound idle_all_free [OF sound(1)] by blast
qed

theorem serving_system_safe_witness:
  "kv_inv (cache_manager demo_sched1) \<and> ran (owners (cache_manager demo_sched1)) \<subseteq> {1}
   \<and> length (free_list (allocator (cache_manager demo_sched1))) = 2"
proof -
  have "sys_reachable demo_sched demo_waiting"
    unfolding demo_waiting_def
    by (rule sys_next [OF sys_start, of _ "Sched (Enqueue (demo_request 1 3))"])
      (simp add: sys_step_simps tracked_def demo_defs demo_tokens_fit)
  then have "sys_reachable demo_sched demo_sched1"
    unfolding demo_sched1_def
    by (rule sys_next [of _ _ "Sched ScheduleNext"]) (simp add: sys_step_simps demo_waiting_roomy demo_waiting_def [symmetric])
  from serving_system_safe [OF demo_al_inv demo_small_pool this [unfolded demo_sched_def demo_kv0_def]]
  have "kv_inv (cache_manager demo_sched1)"
    "ran (owners (cache_manager demo_sched1)) \<subseteq> set (request_ids (active demo_sched1 @ preempted demo_sched1))" by blast+
  moreover have "set (request_ids (active demo_sched1 @ preempted demo_sched1)) = {1}"
    "length (free_list (allocator (cache_manager demo_sched1))) = 2" by code_simp+
  ultimately show ?thesis by blast
qed

text \<open>C4. The paged replay drives scheduler and cache through a whole trace: enqueueing, prefill with
  forks and publication, decoding with reclaiming, preemption, resumption and accounting. For a trace
  with distinct request ids and sizes far below the machine limits, blocks of at least one token (the
  driver divides by that number) and a slab of the computed size,
  the run never throws, ends within \<^verbatim>\<open>max_steps\<close> steps, completes no more requests than there
  are, and when it reports completion, every request was completed and the pool is empty again: no
  frame and no swap slot leaks.\<close>

theorem run_paged_returns_leak_free:
  assumes "replay_fits trace cfg" and "slab_fits trace cfg slab"
  shows "\<exists>m. run_paged trace cfg (Some slab) = Some m \<and> steps m \<le> max_steps cfg
    \<and> unat (requests_completed m) \<le> length (requests trace)
    \<and> (rm_completed m \<longrightarrow> leak_free m \<and> requests_completed m = of_nat (length (requests trace)))"
  using run_paged_ok [OF assms] by metis

theorem run_paged_returns_leak_free_witness:
  "\<exists>m. run_paged demo_one_trace demo_one_config (Some (replicate 256 0)) = Some m
     \<and> rm_completed m \<and> leak_free m \<and> requests_completed m = 1"
proof -
  obtain m where m: "run_paged demo_one_trace demo_one_config (Some (replicate 256 0)) = Some m"
    and ok: "rm_completed m \<longrightarrow> leak_free m"
    using run_paged_returns_leak_free [OF demo_one_fits demo_one_slab] by blast
  then show ?thesis using demo_one_completes [of "replicate 256 0"] by simp
qed

section \<open>Operations of the cache manager\<close>

text \<open>C5. \<^verbatim>\<open>ensure_token_writable\<close> succeeds exactly when the token's block exists, is resident and is
  either unshared or can be copied to a free frame; it then returns the frame that now backs the
  block, which nothing else refers to. No sequence and no published prefix changes content, and a
  refusal changes nothing.\<close>

theorem ensure_token_writable_exclusive:
  assumes "kv_inv kv" and "ensure_token_writable kv sid pos kind layer = (r, kv')"
  shows "kv_inv kv' \<and> kv_view kv' = kv_view kv \<and> prefix_view kv' = prefix_view kv
    \<and> (r \<noteq> None \<longleftrightarrow> can_write kv sid pos layer) \<and> (r = None \<longrightarrow> kv' = kv)
    \<and> (\<forall>p. r = Some p \<longrightarrow> write_ready kv' sid pos layer p)"
  using ensure_token_writable_step [OF assms] by (simp add: kv_same_def)

theorem ensure_token_writable_exclusive_witness:
  "kv_view (snd (ensure_token_writable demo_kv3 2 0 TextKV 0)) = kv_view demo_kv3
   \<and> write_ready (snd (ensure_token_writable demo_kv3 2 0 TextKV 0)) 2 0 0 1"
proof -
  have "ensure_token_writable demo_kv3 2 0 TextKV 0
      = (Some 1, snd (ensure_token_writable demo_kv3 2 0 TextKV 0))"
    using demo_runs(4) by (metis prod.collapse)
  from ensure_token_writable_exclusive [OF demo_kv3_inv this] show ?thesis by simp
qed

text \<open>C6. Copy-on-write isolation end to end: after \<^verbatim>\<open>ensure_token_writable\<close> returned a frame, a
  client that stores a block's bytes through it changes that one block of that one sequence and
  nothing else, however the block was shared before.\<close>

theorem copy_on_write_isolation:
  assumes "kv_inv kv" and "ensure_token_writable kv sid pos kind layer = (Some p, kv1)"
    and "write_length_ok kv1 bs"
  shows "kv_inv (client_write kv1 p bs) \<and> prefix_view (client_write kv1 p bs) = prefix_view kv
    \<and> (\<exists>old. kv_view kv sid = Some old \<and> unat layer < length old
        \<and> unat (pos div kv_tokens_per_block kv) < length (old ! unat layer)
        \<and> kv_view (client_write kv1 p bs) = (kv_view kv)(sid \<mapsto> old[unat layer :=
             (old ! unat layer)[unat (pos div kv_tokens_per_block kv) := Some bs]]))"
proof -
  have inv1: "kv_inv kv1" and same: "kv_same kv kv1" and ready: "write_ready kv1 sid pos layer p"
    using ensure_token_writable_step [OF assms(1,2)] by simp_all
  have tpb: "kv_tokens_per_block kv1 = kv_tokens_per_block kv"
    using kv_same_tpb(1) [OF assms(1) inv1 same] .
  show ?thesis
    using client_write_step [OF inv1 ready assms(3)] same by (simp add: kv_same_def tpb)
qed

theorem copy_on_write_isolation_witness:
  "kv_view (client_write (snd (ensure_token_writable demo_kv3 2 0 TextKV 0)) 1 [1, 2, 3, 4]) 1 = kv_view demo_kv3 1"
proof -
  let ?kv1 = "snd (ensure_token_writable demo_kv3 2 0 TextKV 0)"
  have run: "ensure_token_writable demo_kv3 2 0 TextKV 0 = (Some 1, ?kv1)"
    using demo_runs(4) by (metis prod.collapse)
  have len: "write_length_ok ?kv1 [1, 2, 3, 4]" by code_simp
  from copy_on_write_isolation [OF demo_kv3_inv run len] show ?thesis by auto
qed

text \<open>C7. Swapping a sequence out and in again is invisible: when the frames are available the
  swap-in succeeds, every sequence has exactly the content it had before, and nothing of the
  sequence is left in the backend.\<close>

theorem swap_round_trip:
  assumes "kv_inv kv" and "sequences kv sid \<noteq> None" and "swap_room (allocator kv) (seq_blocks kv sid)"
    and "swap_out_sequence kv sid = (n, kv1)" and "kv_swapped kv1 sid < 4294967296"
    and "kv_swapped kv1 sid \<le> length (free_list (allocator kv1))"
    and "swap_in_sequence kv1 sid = (ok, kv2)"
  shows "ok \<and> kv_inv kv2 \<and> kv_view kv2 = kv_view kv \<and> prefix_view kv2 = prefix_view kv
    \<and> kv_swapped kv2 sid = 0"
proof -
  have room: "swap_room (allocator kv) (seq_blocks kv sid + 0)" using assms(3) by simp
  note out = swap_out_sequence_step [OF assms(1) room assms(4)]
  note restore = swap_in_sequence_step [OF out(1) assms(5,7)]
  have "sequences kv1 sid \<noteq> None" using out(2) assms(2) by (auto simp: kv_same_def dom_def)
  then have ok using restore(3) assms(6) by blast
  then show ?thesis using out(2) restore(1,2,4) by (simp add: kv_same_def)
qed

theorem swap_round_trip_witness:
  "kv_view (snd (swap_in_sequence (snd (swap_out_sequence demo_kv2 1)) 1)) = kv_view demo_kv2
   \<and> kv_swapped (snd (swap_out_sequence demo_kv2 1)) 1 = 2"
proof -
  let ?kv1 = "snd (swap_out_sequence demo_kv2 1)"
  have "sequences demo_kv2 1 \<noteq> None" using demo_users(1) by auto
  moreover have "swap_room (allocator demo_kv2) (seq_blocks demo_kv2 1)"
    using demo_swap_room demo_blocks by simp
  moreover have "length (free_list (allocator ?kv1)) = 4" by code_simp
  ultimately show ?thesis
    using swap_round_trip [OF demo_kv2_inv, of 1 "fst (swap_out_sequence demo_kv2 1)" ?kv1
        "fst (swap_in_sequence ?kv1 1)" "snd (swap_in_sequence ?kv1 1)"] demo_blocks by simp
qed

text \<open>Swapping out a whole request never changes what any sequence or published prefix
  contains, and touches no other request's sequences.\<close>

theorem swap_out_request_transparent:
  assumes "kv_inv kv"
    and "swap_room (allocator kv) (sum_list (map (seq_blocks kv) (sequences_for kv rid)))"
    and "swap_out_request kv rid = (n, kv')"
  shows "kv_inv kv' \<and> kv_view kv' = kv_view kv \<and> prefix_view kv' = prefix_view kv
    \<and> (\<forall>sid. sid \<notin> set (sequences_for kv rid) \<longrightarrow> kv_swapped kv' sid = kv_swapped kv sid)"
  using swap_out_sequences_step [OF assms(1), of "sequences_for kv rid" 0 0 n kv'] assms(2,3)
  by (simp add: swap_out_request_def kv_same_def)

theorem swap_out_request_transparent_witness:
  "kv_view (snd (swap_out_request demo_kv2 10)) = kv_view demo_kv2 \<and> fst (swap_out_request demo_kv2 10) = 2"
proof -
  have "sequences_for demo_kv2 10 = [1]" and two: "fst (swap_out_request demo_kv2 10) = 2" by code_simp+
  then have "swap_room (allocator demo_kv2) (sum_list (map (seq_blocks demo_kv2) (sequences_for demo_kv2 10)))"
    using demo_swap_room demo_blocks by simp
  from swap_out_request_transparent [OF demo_kv2_inv this surjective_pairing] show ?thesis using two by simp
qed

text \<open>C8. Resuming a request is all or nothing: it succeeds exactly when the pool has a free frame
  for every swapped block of the request, then no block of the request is left in the backend, and
  otherwise nothing changes at all.\<close>

theorem swap_in_request_atomic:
  assumes "kv_inv kv" and "sum_list (map (kv_swapped kv) (sequences_for kv rid)) < 4294967296"
    and "swap_in_request kv rid = (ok, kv')"
  shows "kv_inv kv' \<and> kv_view kv' = kv_view kv
    \<and> (ok \<longleftrightarrow> sum_list (map (kv_swapped kv) (sequences_for kv rid)) \<le> length (free_list (allocator kv)))
    \<and> (\<not> ok \<longrightarrow> kv' = kv)
    \<and> (ok \<longrightarrow> (\<forall>sid\<in>set (sequences_for kv rid). kv_swapped kv' sid = 0))"
  using swap_in_request_step [OF assms] by (simp add: kv_same_def)

theorem swap_in_request_atomic_witness:
  "fst (swap_in_request (snd (swap_out_sequence demo_kv2 1)) 10)
   \<and> kv_view (snd (swap_in_request (snd (swap_out_sequence demo_kv2 1)) 10))
       = kv_view (snd (swap_out_sequence demo_kv2 1))"
proof -
  let ?kv1 = "snd (swap_out_sequence demo_kv2 1)"
  have inv: "kv_inv ?kv1" using swap_refines(1) [OF demo_kv2_inv, of 1] demo_swap_room demo_blocks by simp
  have "sequences_for ?kv1 10 = [1]" "length (free_list (allocator ?kv1)) = 4" by code_simp+
  then show ?thesis
    using swap_in_request_atomic [OF inv, of 10, OF _ surjective_pairing] demo_blocks by simp
qed

text \<open>C9. Forking succeeds exactly when the parent exists, the child's id is new and nothing of the
  parent is swapped out. The child then has the parent's content, no frame is taken from the
  pool, and all other content is as before; a refusal changes nothing.\<close>

theorem fork_shares_content:
  assumes "kv_inv kv" and "refs_room kv" and "fork_sequence kv parent meta = (ok, kv')"
  shows "kv_inv kv'
    \<and> (ok \<longleftrightarrow> sequences kv parent \<noteq> None \<and> sequences kv (sm_sequence_id meta) = None
         \<and> kv_swapped kv parent = 0)
    \<and> (\<not> ok \<longrightarrow> kv' = kv)
    \<and> (ok \<longrightarrow> kv_view kv' = (kv_view kv)(sm_sequence_id meta := kv_view kv parent)
         \<and> free_list (allocator kv') = free_list (allocator kv))
    \<and> prefix_view kv' = prefix_view kv"
proof -
  have "count (kv_refs kv) p + count (tables_refs (tables st)) p < 4294967296"
    if "sequences kv parent = Some st" for st p using assms(1,2) that by (rule refs_room_tables)
  from fork_sequence_step [OF assms(1,3) this] show ?thesis by simp
qed

theorem fork_shares_content_witness:
  "kv_view demo_kv3 2 = kv_view demo_kv2 1 \<and> free_list (allocator demo_kv3) = free_list (allocator demo_kv2)"
proof -
  have "fork_sequence demo_kv2 1 (demo_meta 2 10) = (True, demo_kv3)"
    using demo_runs(3) unfolding demo_kv3_def by (metis prod.collapse eq_True)
  from fork_shares_content [OF demo_kv2_inv demo_kv2_room this] show ?thesis
    by (simp add: demo_meta_def)
qed

text \<open>C10. Reserving tokens appends \<open>\<lceil>n / tokens_per_block\<rceil>\<close> blocks to every table of the sequence,
  backed by distinct frames nobody else refers to, exactly when the pool has that many free
  frames; otherwise nothing changes. Existing blocks and other sequences keep their content.\<close>

theorem reserve_tokens_appends:
  assumes "kv_inv kv" and "sequences kv sid = Some st" and "kv_tokens_per_block kv \<noteq> 0"
    and "unat n + unat (kv_tokens_per_block kv) \<le> 4294967296"
    and "blocks_for (kv_tokens_per_block kv) n * length (tables st) < 4294967296"
    and "length (entries (hd (tables st))) + blocks_for (kv_tokens_per_block kv) n < 4294967296"
    and "reserve_tokens kv sid n = (ok, kv')"
  shows "kv_inv kv' \<and> (\<not> ok \<longrightarrow> kv' = kv)
    \<and> (ok \<longleftrightarrow> blocks_for (kv_tokens_per_block kv) n * length (tables st) \<le> length (free_list (allocator kv)))
    \<and> (\<forall>other. other \<noteq> sid \<longrightarrow> kv_view kv' other = kv_view kv other)
    \<and> (ok \<longrightarrow> (\<exists>pss. length pss = length (tables st)
         \<and> list_all (\<lambda>ps. length ps = blocks_for (kv_tokens_per_block kv) n) pss
         \<and> distinct (concat pss) \<and> set (concat pss) \<inter> set_mset (kv_refs kv) = {}
         \<and> list_all (\<lambda>p. ref_of (allocator kv') p = 1) (concat pss)
         \<and> kv_view kv' sid = Some (map2 (\<lambda>v ps. v @ map (Some \<circ> frame_of (allocator kv')) ps)
             (tables_view (allocator kv) (tables st)) pss)))
    \<and> (ok \<longrightarrow> length (free_list (allocator kv')) + blocks_for (kv_tokens_per_block kv) n * length (tables st)
         = length (free_list (allocator kv)))"
  using reserve_tokens_step [OF assms] by blast

theorem reserve_tokens_appends_witness:
  "kv_inv demo_kv2 \<and> length (free_list (allocator demo_kv2)) + 2 = length (free_list (allocator demo_kv1))"
proof -
  obtain st t where st: "sequences demo_kv1 1 = Some st" "tables st = [t]" "entries t = []"
    using demo_kv1_tables by (auto simp: map_eq_Cons_conv)
  have run: "reserve_tokens demo_kv1 1 3 = (True, demo_kv2)"
    using demo_runs(2) unfolding demo_kv2_def by (metis prod.collapse eq_True)
  show ?thesis
    using reserve_tokens_appends [OF demo_kv1_inv st(1) _ _ _ _ run] st demo_tpb
    by (simp add: blocks_for_def)
qed

text \<open>C11. Releasing a request removes exactly its sequences: every other sequence keeps its
  content, and no sequence of the request remains.\<close>

theorem release_request_exact:
  assumes "kv_inv kv"
  shows "kv_inv (release_request kv rid)
    \<and> kv_view (release_request kv rid)
        = (\<lambda>sid. if request_of (sequences kv) sid = Some rid then None else kv_view kv sid)
    \<and> sequences_for (release_request kv rid) rid = []"
proof -
  have "sid \<in> set (sequences_for kv rid) \<longleftrightarrow> request_of (sequences kv) sid = Some rid" for sid
    using kv_inv_parts(3) [OF assms] by (simp add: index_ok_def)
  then show ?thesis
    using release_sequences_step [OF assms, of "sequences_for kv rid"]
    by (simp add: release_request_def fun_eq_iff)
qed

theorem release_request_exact_witness:
  "kv_inv (release_request demo_kv3 10) \<and> kv_view (release_request demo_kv3 10) 2 = None"
proof -
  have "request_of (sequences demo_kv3) 2 = Some 10" by code_simp
  then show ?thesis using release_request_exact [OF demo_kv3_inv, of 10] by simp
qed

text \<open>Nothing leaks: once every sequence has been released, in any order, all frames are free,
  the backend holds no slot and no prefix is published.\<close>

theorem release_all_frees_everything:
  assumes "kv_inv kv" and "dom (sequences kv) \<subseteq> set sids"
  shows "length (free_list (allocator (foldl release_sequence kv sids)))
      = capacity (allocator (foldl release_sequence kv sids))
    \<and> swapped (allocator (foldl release_sequence kv sids)) = Map.empty
    \<and> prefix_index (foldl release_sequence kv sids) = Map.empty"
proof -
  let ?kv = "foldl release_sequence kv sids"
  have inv: "kv_inv ?kv" and "sequences ?kv = (\<lambda>sid. if sid \<in> set sids then None else sequences kv sid)"
    using release_sequences_step [OF assms(1)] by simp_all
  then have "sequences ?kv = Map.empty" using assms(2) by (auto simp: fun_eq_iff domIff subset_iff)
  then show ?thesis
    using no_sequences_all_free [OF inv] no_sequences_no_prefixes [OF inv] by simp
qed

theorem release_all_frees_everything_witness:
  "length (free_list (allocator (foldl release_sequence demo_kv2 [1]))) = 4"
proof -
  have "card (dom (sequences demo_kv2)) = 1" "(1::SequenceId) \<in> dom (sequences demo_kv2)"
    using demo_users by auto
  then have "dom (sequences demo_kv2) = {1}" by (metis card_1_singletonE singletonD)
  then have "dom (sequences demo_kv2) \<subseteq> set [1]" by simp
  note all = release_all_frees_everything [OF demo_kv2_inv this]
  have "capacity (allocator (foldl release_sequence demo_kv2 [1])) = 4" by code_simp
  then show ?thesis using all by simp
qed

text \<open>C12. In a state that satisfies the invariant, publishing a sequence under a key is refused for the empty key, for an unknown sequence and for one
  without blocks. Otherwise it succeeds when the sequence is already published under that key, swapped out or not,
  and else exactly when blocks hold tokens and no block of the sequence is swapped out. It changes no content, a refusal
  changes nothing, and after a success the sequence carries the key, with the user count of its record exact (the
  invariant). Excluded are a sequence that is published under a different key, where the code miscounts, and
  counters at their 32-bit limit (\<open>kv_enabled\<close>).\<close>

theorem publish_prefix_ok:
  assumes "kv_inv kv" and "kv_enabled (PublishPrefix sid key) kv"
    and "publish_prefix kv sid key = (ok, kv')"
  shows "kv_inv kv' \<and> kv_view kv' = kv_view kv
    \<and> (ok \<longleftrightarrow> key \<noteq> [] \<and> (\<exists>st. sequences kv sid = Some st \<and> \<not> bt_empty (text_table st)
          \<and> (prefix_key st = key \<or> kv_tokens_per_block kv \<noteq> 0 \<and> kv_swapped kv sid = 0)))
    \<and> (\<not> ok \<longrightarrow> kv' = kv) \<and> (ok \<longrightarrow> map_option prefix_key (sequences kv' sid) = Some key)"
proof -
  have room: "refs_room kv" and few: "card (dom (sequences kv)) < 4294967295"
    and first: "\<And>st. sequences kv sid = Some st \<Longrightarrow> prefix_key st = [] \<or> prefix_key st = key"
    using assms(2) by (auto simp: users_room_def)
  have "count (kv_refs kv) p + count (tables_refs (tables st)) p < 4294967296"
    if "sequences kv sid = Some st" for st p using assms(1) room that by (rule refs_room_tables)
  from publish_prefix_step [OF assms(1,3) first few this] show ?thesis
    by (auto simp: can_publish_def split: option.splits)
qed

theorem publish_prefix_ok_witness:
  "kv_view demo_pub = kv_view demo_kv2 \<and> map_option prefix_key (sequences demo_pub 1) = Some ''p''"
proof -
  have "fst (publish_prefix demo_kv2 1 ''p'')" by code_simp
  then have "publish_prefix demo_kv2 1 ''p'' = (True, demo_pub)"
    unfolding demo_pub_def by (metis prod.collapse eq_True)
  from publish_prefix_ok [OF demo_kv2_inv demo_publish_enabled this] show ?thesis by simp
qed

text \<open>C13. Attaching a published prefix gives an empty sequence exactly the blocks of the record,
  one run per table, taking no frame from the pool, and returns the number of tokens those blocks
  hold. Without a unique record nothing changes and zero is returned. Other sequences keep their
  content.\<close>

theorem attach_prefix_shares:
  assumes "kv_inv kv" and "refs_room kv" and "card (dom (sequences kv)) < 4294967295"
    and "attach_prefix kv sid key = (n, kv')"
  shows "kv_inv kv' \<and> (\<forall>other. other \<noteq> sid \<longrightarrow> kv_view kv' other = kv_view kv other)
    \<and> (attachable kv sid key = None \<longrightarrow> n = 0 \<and> kv' = kv)
    \<and> (\<forall>rec. attachable kv sid key = Some rec \<longrightarrow>
         (\<exists>b. length (physical_ids rec) = unat (table_count kv) * b \<and> 0 < b
            \<and> n = of_nat b * kv_tokens_per_block kv
            \<and> kv_view kv' sid = Some (map (map (Some \<circ> frame_of (allocator kv)))
                 (chunks (unat (table_count kv)) b (physical_ids rec))))
         \<and> free_list (allocator kv') = free_list (allocator kv))"
  using attach_prefix_step [OF assms(1,4,3) refs_room_record [OF assms(1,2), of sid key]] by blast

theorem attach_prefix_shares_witness:
  "fst (attach_prefix demo_pub2 3 ''p'') = 4
   \<and> free_list (allocator (snd (attach_prefix demo_pub2 3 ''p''))) = free_list (allocator demo_pub2)"
proof -
  have "map_option (\<lambda>r. length (physical_ids r)) (attachable demo_pub2 3 ''p'') = Some 2"
    and four: "fst (attach_prefix demo_pub2 3 ''p'') = 4" by code_simp+
  then obtain rec where "attachable demo_pub2 3 ''p'' = Some rec" by auto
  then show ?thesis
    using attach_prefix_shares [OF demo_pub2_inv demo_pub2_room demo_pub2_users surjective_pairing] four
    by blast
qed

text \<open>An example of a defect of \<^verbatim>\<open>publish_prefix\<close>: a sequence that publishes under a second key is no longer
  counted under the first, but the first record still counts it. After the sequence is released
  there is no sequence left and still not all frames are free: the first record pins its frames.\<close>

theorem publish_two_keys_leaks:
  "let kv = release_sequence (snd (publish_prefix demo_pub 1 ''q'')) 1 in
     sequences kv 1 = None \<and> sequences_for kv 10 = []
     \<and> length (free_list (allocator kv)) = 2 \<and> capacity (allocator kv) = 4"
  by code_simp

text \<open>An example of a limit of \<^verbatim>\<open>reserve_tokens\<close>: the rounding up is done in 32 bits, so with two tokens per
  block a request for \<open>2 ^ 32 - 1\<close> tokens wraps to zero blocks; the call reports success and reserves nothing.\<close>

theorem reserve_tokens_wraps:
  "fst (reserve_tokens demo_kv1 1 0xFFFFFFFF)
   \<and> free_list (allocator (snd (reserve_tokens demo_kv1 1 0xFFFFFFFF))) = free_list (allocator demo_kv1)
   \<and> seq_blocks (snd (reserve_tokens demo_kv1 1 0xFFFFFFFF)) 1 = 0"
  by code_simp

section \<open>The allocator\<close>

text \<open>C14. The allocator is a multiset of references: allocation fails exactly when no frame is free
  and otherwise returns a frame nobody refers to; retain and release add and remove one reference;
  none of them touches a byte of any frame; and free frames plus referenced frames is the pool.\<close>

theorem allocator_reference_counting:
  assumes "alloc_inv al"
  shows "(fst (allocate al) = None \<longleftrightarrow> free_list al = [])
    \<and> (\<forall>q al'. allocate al = (Some q, al') \<longrightarrow> alloc_inv al' \<and> q \<notin># alloc_refs al
         \<and> alloc_refs al' = add_mset q (alloc_refs al) \<and> frame_of al' = frame_of al)
    \<and> alloc_inv (release al p) \<and> alloc_refs (release al p) = alloc_refs al - {#p#}
    \<and> frame_of (release al p) = frame_of al
    \<and> (p \<in># alloc_refs al \<longrightarrow> count (alloc_refs al) p + 1 < 4294967296 \<longrightarrow>
         alloc_inv (retain al p) \<and> alloc_refs (retain al p) = add_mset p (alloc_refs al)
         \<and> frame_of (retain al p) = frame_of al)
    \<and> length (free_list al) + card (set_mset (alloc_refs al)) = capacity al"
proof -
  have "fst (allocate al) = None \<longleftrightarrow> free_list al = []" by (simp add: allocate_def Let_def)
  then show ?thesis
    using pool.alloc_Some [OF assms] pool.release_ok [OF assms, of p] pool.retain_ok [OF assms, of p]
      pool.free_ok [OF assms] by simp
qed

theorem allocator_reference_counting_witness:
  "alloc_inv (release demo_al 2) \<and> alloc_refs (release demo_al 2) = {#}
   \<and> length (free_list demo_al) = capacity demo_al"
  using allocator_reference_counting [OF demo_al_inv(1), of 2] demo_al_inv(2) by simp

text \<open>A fresh allocator over a slab of the computed size is well formed, with every frame free
  and none referenced.\<close>

theorem new_allocator_ok:
  assumes "length bytes = unat (block_stride_for cfg) * unat (max_blocks cfg)"
    and "unat (block_stride_for cfg) * unat (max_blocks cfg) < 18446744073709551616" and "bytes \<noteq> []"
  shows "alloc_inv (MemoryAllocator_new cfg (Some bytes))
    \<and> alloc_refs (MemoryAllocator_new cfg (Some bytes)) = {#}
    \<and> length (free_list (MemoryAllocator_new cfg (Some bytes))) = unat (max_blocks cfg)"
proof -
  note new = MemoryAllocator_new_inv [OF assms]
  have "config (MemoryAllocator_new cfg (Some bytes)) = cfg"
    by (simp add: MemoryAllocator_new_def Let_def bind_frames_def unbound_allocator_def)
  then have "capacity (MemoryAllocator_new cfg (Some bytes)) = unat (max_blocks cfg)"
    using alloc_inv_valid [OF new(1)] by (simp add: capacity_def)
  then show ?thesis using new pool.free_ok [OF new(1)] by simp
qed

theorem new_allocator_ok_witness: "alloc_inv (MemoryAllocator_new demo_config (Some (replicate 16 0)))"
  using new_allocator_ok [of "replicate 16 0" demo_config] by (simp add: demo_stride demo_max)

section \<open>The swap backend\<close>

text \<open>C15. The host swap backend never exceeds its capacity, refuses a store exactly when full, and
  returns what was stored: a stored block comes back byte for byte into a frame of its size, no
  other slot is disturbed, and a discarded slot is gone.\<close>

theorem host_swap_backend_stores:
  assumes "hsb_invar b" and "hsb_fresh b" and "hsb_store b bs = (r, b')"
  shows "hsb_invar b' \<and> resident_slots b' \<le> unat (capacity_slots b')
    \<and> (r = None \<longleftrightarrow> resident_slots b \<ge> unat (capacity_slots b))
    \<and> (r = None \<longrightarrow> b' = b)
    \<and> (\<forall>k. r = Some k \<longrightarrow> hsb_contents b k = None \<and> resident_slots b' = Suc (resident_slots b)
         \<and> hsb_load (hsb_discard b' k) k cur = None
         \<and> (length cur = length bs \<longrightarrow> hsb_load b' k cur = Some bs)
         \<and> (\<forall>j. hsb_contents b j \<noteq> None \<longrightarrow> hsb_contents b' j = hsb_contents b j))"
proof -
  have inv: "hsb_invar b'" using hsb_store_invar [OF assms(1,2), of bs] assms(3) by simp
  then have "resident_slots b' \<le> unat (capacity_slots b')"
    by (simp add: hsb_invar_def resident_slots_def capacity_slots_def)
  moreover have "r = None \<longleftrightarrow> resident_slots b \<ge> unat (capacity_slots b)" "r = None \<longrightarrow> b' = b"
    using assms(3) by (auto simp: hsb_store_def resident_slots_def capacity_slots_def Let_def split: if_splits)
  moreover have "hsb_contents b k = None \<and> resident_slots b' = Suc (resident_slots b)
      \<and> (length cur = length bs \<longrightarrow> hsb_load b' k cur = Some bs)
      \<and> (\<forall>j. hsb_contents b j \<noteq> None \<longrightarrow> hsb_contents b' j = hsb_contents b j)" if "r = Some k" for k
  proof -
    have run: "hsb_store b bs = (Some k, b')" using assms(3) that by simp
    show ?thesis
      using hsb.store_new [OF assms(1) run] hsb.resident_store [OF assms(1,2) run]
        hsb.load_after_store [OF assms(1) run] hsb.store_keeps_others [OF assms(1) run] by simp
  qed
  ultimately show ?thesis using inv hsb.load_after_discard by simp
qed

theorem host_swap_backend_stores_witness:
  "hsb_load (snd (hsb_store (HostSwapBackend_new 8) [5, 6])) 1 [0, 0] = Some [5, 6]"
proof -
  have "hsb_store (HostSwapBackend_new 8) [5, 6] = (Some 1, snd (hsb_store (HostSwapBackend_new 8) [5, 6]))"
    by (simp add: hsb_store_def HostSwapBackend_new_def Let_def)
  moreover have "hsb_fresh (HostSwapBackend_new 8)" by (simp add: hsb_fresh_def HostSwapBackend_new_def)
  ultimately show ?thesis
    using host_swap_backend_stores [OF hsb_invar_new, of 8 "[5, 6]" "Some 1" _ "[0, 0]"] by simp
qed

section \<open>The page table\<close>

text \<open>C16. A sorted table implements a finite map from block index to entry: mapping, unmapping and
  looking up act on that map (a swapped-out entry has no frame to return), and every operation
  keeps the vector sorted.\<close>

theorem block_table_is_a_map:
  assumes "bt_sorted t"
  shows "bt_sorted (bt_map t l p w) \<and> bt_sorted (snd (bt_unmap t i)) \<and> bt_sorted (set_writable t i w)
    \<and> bt_abs (bt_map t l p w) = (bt_abs t)(lb_index l \<mapsto>
         \<lparr>logical = l, physical_id = p, writable = w, swap_slot = None\<rparr>)
    \<and> fst (bt_unmap t i) = map_option physical_id (bt_abs t i)
    \<and> bt_abs (snd (bt_unmap t i)) = (bt_abs t)(i := None)
    \<and> bt_entry t i = bt_abs t i
    \<and> bt_lookup t i = (case bt_abs t i of None \<Rightarrow> None
         | Some e \<Rightarrow> if swap_slot e \<noteq> None then None else Some (physical_id e))
    \<and> bt_abs (set_writable t i w) = (bt_abs t)(i := map_option (\<lambda>e. e\<lparr>writable := w\<rparr>) (bt_abs t i))"
proof -
  have "bt_sorted (set_writable t i w)
      \<and> bt_abs (set_writable t i w) = (bt_abs t)(i := map_option (\<lambda>e. e\<lparr>writable := w\<rparr>) (bt_abs t i))"
  proof (cases "mutable_entry t i")
    case None
    then show ?thesis
      using assms bt_search(2) [OF assms, of i] by (simp add: set_writable_def fun_upd_idem)
  next
    case (Some k)
    note at = bt_search(3) [OF assms Some]
    show ?thesis
      using Some at bt_update_at_abs [OF assms, of k "\<lambda>e. e\<lparr>writable := w\<rparr>"]
      by (simp add: set_writable_def)
  qed
  then show ?thesis using bt_map_abs [OF assms] bt_unmap_abs [OF assms] bt_search [OF assms] by simp
qed

theorem block_table_is_a_map_witness:
  "bt_lookup (bt_map (BlockTable_new 1 TextKV) (block_descriptor 1 TextKV 2 5) 9 True) 5 = Some 9"
proof -
  let ?t = "bt_map (BlockTable_new 1 TextKV) (block_descriptor 1 TextKV 2 5) 9 True"
  have "bt_sorted (BlockTable_new 1 TextKV)" by (rule bt_contiguous_sorted) simp
  note first = block_table_is_a_map [OF this, of "block_descriptor 1 TextKV 2 5" 9 True 5]
  then have "bt_sorted ?t" and "bt_abs ?t 5 \<noteq> None" by (simp_all add: block_descriptor_def)
  then show ?thesis
    using first block_table_is_a_map [of ?t undefined 0 True 5] by (simp add: block_descriptor_def)
qed

section \<open>The block layout\<close>

text \<open>C17. Every vector a layout addresses lies inside the block: an offset is produced exactly for
  coordinates in range, the whole vector of \<open>head_dim\<close> elements at it fits the element count, and the
  vectors of two different (layer, stream, token, head) coordinates do not overlap.\<close>

theorem element_offset_in_bounds:
  assumes "layout_fits l"
  shows "(element_offset l layer s t h \<noteq> None \<longleftrightarrow>
      layer < frame_layers (kvl_shape l) \<and> t < tokens_per_block (kvl_shape l) \<and> h < num_kv_heads (kvl_shape l))
    \<and> (\<forall>off. element_offset l layer s t h = Some off \<longrightarrow>
         unat off + unat (head_dim (kvl_shape l)) \<le> unat (element_count l)
         \<and> (\<forall>layer' s' t' h' off'. element_offset l layer' s' t' h' = Some off' \<and> (layer, s, t, h) \<noteq> (layer', s', t', h') \<longrightarrow>
              unat off + unat (head_dim (kvl_shape l)) \<le> unat off'
              \<or> unat off' + unat (head_dim (kvl_shape l)) \<le> unat off))"
proof -
  have "element_offset l layer s t h \<noteq> None \<longleftrightarrow>
      layer < frame_layers (kvl_shape l) \<and> t < tokens_per_block (kvl_shape l) \<and> h < num_kv_heads (kvl_shape l)"
    by (auto simp: element_offset_def Let_def not_le)
  moreover have "unat off + unat (head_dim (kvl_shape l)) \<le> unat (element_count l)"
    if "element_offset l layer s t h = Some off" for off
    using element_offset_row [OF assms that] unat_element_count [OF assms] by fastforce
  moreover have "unat off + unat (head_dim (kvl_shape l)) \<le> unat off' \<or> unat off' + unat (head_dim (kvl_shape l)) \<le> unat off"
    if "element_offset l layer s t h = Some off" "element_offset l layer' s' t' h' = Some off'"
      "(layer, s, t, h) \<noteq> (layer', s', t', h')" for off layer' s' t' h' off'
    using element_offset_disjoint [OF assms that] .
  ultimately show ?thesis by blast
qed

theorem element_offset_in_bounds_witness:
  "element_offset \<lparr>kvl_shape = block_shape demo_config\<rparr> 0 Value 1 0 = Some 3
   \<and> (3::nat) + 1 \<le> unat (element_count \<lparr>kvl_shape = block_shape demo_config\<rparr>)
   \<and> element_offset \<lparr>kvl_shape = block_shape demo_config\<rparr> 0 Key 0 0 = Some 0"
proof -
  let ?l = "\<lparr>kvl_shape = block_shape demo_config\<rparr>"
  have fits: "layout_fits ?l"
    by (simp add: layout_fits_def layout_elements_def demo_defs frame_layers_def)
  have off: "element_offset ?l 0 Value 1 0 = Some 3" "element_offset ?l 0 Key 0 0 = Some 0"
    and dim: "head_dim (block_shape demo_config) = 1" by code_simp+
  have "unat (3::u64) + unat (head_dim (kvl_shape ?l)) \<le> unat (element_count ?l)"
    using element_offset_in_bounds [OF fits, of 0 Value 1 0] off by blast
  then show ?thesis using off by (simp add: dim)
qed

section \<open>The scheduler\<close>

text \<open>C18. In every state reachable from a new scheduler by enqueueing requests under fresh ids,
  scheduling, completing steps, cancelling, preempting and resuming: pending requests are untouched,
  active ones are in prefill or have finished it, ids are unique across the queues, a request is
  reported as preempted exactly when it has preemption information, and no waiting request has been
  passed over more often than the limit.\<close>

theorem scheduler_reachable_invariant:
  assumes "sched_reachable (Scheduler_new cfg kv) s"
  shows "sched_inv s
    \<and> (\<forall>rid. request_state s rid = Some Preempted \<longleftrightarrow> preemption_info s rid \<noteq> None)
    \<and> list_all (\<lambda>r. admission_skips r \<le> admission_skip_limit (sched_config s)) (pending s)"
proof -
  have inv: "sched_inv s" using sched_reachable_inv [OF assms Scheduler_new_inv] .
  have "request_state s rid = Some Preempted \<longleftrightarrow> preemption_info s rid \<noteq> None" for rid
    using request_state_preempted [OF inv] sched_inv_parts(5) [OF inv] by (auto simp: preemption_info_def)
  then show ?thesis using inv sched_inv_parts(6) [OF inv] by (simp add: skips_ok_def)
qed

theorem scheduler_reachable_invariant_witness:
  "sched_inv demo_sched1 \<and> active_size demo_sched1 = 1
   \<and> (request_state demo_sched1 1 = Some Preempted \<longleftrightarrow> preemption_info demo_sched1 1 \<noteq> None)"
proof -
  have "sched_reachable demo_sched (enqueue demo_sched (demo_request 1 3))"
    by (rule sched_next [OF sched_start, of _ "Enqueue (demo_request 1 3)"])
      (simp add: sched_step_simps tracked_def demo_defs)
  then have "sched_reachable demo_sched demo_sched1"
    unfolding demo_sched1_def by (rule sched_next [of _ _ ScheduleNext]) (simp add: sched_step_simps)
  note all = scheduler_reachable_invariant [OF this [unfolded demo_sched_def]]
  moreover have "active_size demo_sched1 = 1" by code_simp
  ultimately show ?thesis by blast
qed

text \<open>C19. A batch plan never exceeds \<^verbatim>\<open>max_batch_tokens\<close>: the prefill lists are parallel, every chunk
  is positive, and the plan's counter is exactly the tokens of its chunks plus one per decoding
  request, computed without wrap-around.\<close>

theorem schedule_next_budget: "plan_ok (sched_config s) (fst (schedule_next s))"
proof -
  obtain s1 plan1 where adm: "admit_from_pending s empty_plan = (s1, plan1)" by fastforce
  have "plan_ok (sched_config s) plan1" "sched_config s1 = sched_config s"
    using admit_from_pending_plan [OF adm plan_ok_empty] by simp_all
  then show ?thesis
    by (simp add: schedule_next_def adm schedule_decode_tokens_ok continue_prefill_ok)
qed

text \<open>C20. One scheduling step neither loses nor duplicates a request, whatever it admits and preempts,
  and never takes the active set past \<^verbatim>\<open>max_active_requests\<close> (or past what it already was).\<close>

theorem schedule_next_conserves:
  "tracked (snd (schedule_next s)) = tracked s
   \<and> active_size (snd (schedule_next s)) \<le> max (active_size s) (unat (max_active_requests (sched_config s)))"
  using track.loop.schedule_next_P [of s "tracked s"] bounded.loop.schedule_next_P [of s "length (active s)"]
    schedule_next_config [of s] by (simp add: active_size_def)

text \<open>C21. A batch plan names only requests that are active when the call returns, prefilling or
  decoding, provided no waiting prompt is empty and ids are distinct: the requests a call admits
  are never victims of its own reclaiming. (With empty prompts in the queue it can happen:
  see the example at the end of this section.)\<close>

theorem plan_names_active_requests:
  assumes "distinct (request_ids (pending s @ active s))" and "list_all (\<lambda>r. prompt_tokens r > 0) (pending s)"
    and "schedule_next s = (plan, s')"
  shows "set (prefill_requests plan) \<union> set (decode_requests plan) \<subseteq> set (request_ids (active s'))"
proof -
  have "prompts_ok s" using assms(1,2) by (simp add: prompts_ok_def)
  then show ?thesis using schedule_next_active assms(3) by blast
qed

theorem plan_names_active_requests_witness:
  "set (prefill_requests (fst (schedule_next (enqueue demo_sched (demo_request 1 3)))))
     \<subseteq> set (request_ids (active demo_sched1))
   \<and> prefill_requests (fst (schedule_next (enqueue demo_sched (demo_request 1 3)))) = [1]"
proof -
  let ?s = "enqueue demo_sched (demo_request 1 3)"
  have "distinct (request_ids (pending ?s @ active ?s))" "list_all (\<lambda>r. prompt_tokens r > 0) (pending ?s)"
    by (simp_all add: enqueue_def demo_defs)
  from plan_names_active_requests [OF this surjective_pairing]
  have "set (prefill_requests (fst (schedule_next ?s))) \<subseteq> set (request_ids (active demo_sched1))"
    unfolding demo_sched1_def by simp
  moreover have "prefill_requests (fst (schedule_next ?s)) = [1]" by code_simp
  ultimately show ?thesis by simp
qed

text \<open>C22. No request appears twice in the prefill list or twice in the decode list of a plan, the two
  prefill lists are parallel, only requests with an incomplete prompt are prefilled and only active
  requests are decoded, whatever the prompts are.\<close>

theorem plan_entries_unique:
  assumes "sched_inv s" and "schedule_next s = (plan, s')"
  shows "distinct (prefill_requests plan) \<and> distinct (decode_requests plan)
    \<and> length (prefill_requests plan) = length (prefill_tokens plan)
    \<and> (\<forall>rid\<in>set (prefill_requests plan).
         \<exists>r\<in>set (active s' @ preempted s'). request_id r = rid \<and> remaining_prefill_tokens r > 0)
    \<and> set (decode_requests plan) \<subseteq> set (request_ids (active s'))"
  using schedule_next_plan [OF assms] by (auto simp: plan_wants_def needs_prefill_def)

theorem plan_entries_unique_witness:
  "distinct (prefill_requests (fst (schedule_next demo_waiting)))
   \<and> prefill_requests (fst (schedule_next demo_waiting)) = [1]"
proof -
  have "prefill_requests (fst (schedule_next demo_waiting)) = [1]" by code_simp
  then show ?thesis using plan_entries_unique [OF demo_waiting_sound(2) surjective_pairing] by blast
qed

text \<open>C23. Progress, in a state that satisfies the invariants of scheduler and cache and for a configuration that
  allows at least one token per batch and one active request.
  When no request is active or preempted, no reservation is held and the first waiting request has a
  non-empty prompt and fits an empty pool, the next plan starts that request, with a chunk as long as the
  prompt and the batch allow. And a plan without tokens is only returned when no active request decodes
  and none has prompt tokens left to prefill. (A request with an empty prompt is outside the first part: the code
  admits it without planning it, and it then stays in the prefill state with no token left, as in the second part.)\<close>

theorem scheduler_makes_progress:
  assumes "cache_sound s" and "sched_inv s" and "0 < max_batch_tokens (sched_config s)"
    and "0 < max_active_requests (sched_config s)" and "schedule_next s = (plan, s')"
  shows "(active s = [] \<and> preempted s = [] \<and> lifetime_held s = 0 \<and> pending s \<noteq> []
      \<and> prompt_tokens (hd (pending s)) > 0 \<and> fits_empty_pool (cache_manager s) (hd (pending s)) \<longrightarrow>
        (\<exists>ids chunks. prefill_requests plan = request_id (hd (pending s)) # ids
           \<and> prefill_tokens plan = min (prompt_tokens (hd (pending s))) (max_batch_tokens (sched_config s)) # chunks))
    \<and> (scheduled_tokens plan = 0 \<longrightarrow> (\<forall>r\<in>set (active s').
         rq_state r \<noteq> Decode \<and> (rq_state r = Prefill \<longrightarrow> remaining_prefill_tokens r = 0)))"
proof (intro conjI impI)
  assume "active s = [] \<and> preempted s = [] \<and> lifetime_held s = 0 \<and> pending s \<noteq> []
    \<and> prompt_tokens (hd (pending s)) > 0 \<and> fits_empty_pool (cache_manager s) (hd (pending s))"
  then show "\<exists>ids chunks. prefill_requests plan = request_id (hd (pending s)) # ids
      \<and> prefill_tokens plan = min (prompt_tokens (hd (pending s))) (max_batch_tokens (sched_config s)) # chunks"
    using idle_starts_head [OF assms(1,2) _ _ _ assms(3,4) _ _ _ assms(5)] by metis
next
  assume none: "scheduled_tokens plan = 0"
  show "\<forall>r\<in>set (active s'). rq_state r \<noteq> Decode \<and> (rq_state r = Prefill \<longrightarrow> remaining_prefill_tokens r = 0)"
    using schedule_next_no_idle [OF assms(5,3) none] by (auto simp: can_run_def word_gt_0)
qed

theorem scheduler_makes_progress_witness:
  "\<exists>ids chunks. prefill_requests (fst (schedule_next demo_waiting)) = 1 # ids
     \<and> prefill_tokens (fst (schedule_next demo_waiting)) = 3 # chunks"
proof -
  have queues: "active demo_waiting = []" "preempted demo_waiting = []" "lifetime_held demo_waiting = 0"
    "pending demo_waiting \<noteq> []" "request_id (hd (pending demo_waiting)) = 1"
    "prompt_tokens (hd (pending demo_waiting)) = 3" by code_simp+
  have limits: "max_batch_tokens (sched_config demo_waiting) = 5" "max_active_requests (sched_config demo_waiting) = 8"
    by code_simp+
  show ?thesis
    using scheduler_makes_progress [OF demo_waiting_sound _ _ surjective_pairing] demo_waiting_fits queues limits
    by (simp add: min_def)
qed

text \<open>C24. Without size-aware admission requests leave the waiting queue strictly in order of arrival,
  and those that stay are unchanged.\<close>

theorem admission_is_fifo:
  assumes "\<not> size_aware_admission (sched_config s)"
  shows "\<exists>n. pending (snd (schedule_next s)) = drop n (pending s)"
proof -
  have "\<exists>n. pending s = drop n (pending s)" by (rule exI [of _ 0]) simp
  then show ?thesis using fifo.loop.schedule_next_P [of s "pending s"] assms by blast
qed

theorem admission_is_fifo_witness:
  "\<exists>n. pending demo_sched2 = drop n (pending (enqueue (enqueue demo_sched (demo_request 1 2)) (demo_request 2 3)))"
proof -
  let ?s = "enqueue (enqueue demo_sched (demo_request 1 2)) (demo_request 2 3)"
  have "\<not> size_aware_admission (sched_config ?s)"
    by (simp add: enqueue_def demo_defs)
  then show ?thesis unfolding demo_sched2_def by (rule admission_is_fifo)
qed

text \<open>C25. The lifetime reservation is exact: the held counter is the sum over the active requests of
  the blocks reserved for them and never exceeds the pool, and scheduling, preempting, completing
  a step and enqueueing keep it so (on pools below \<open>2 ^ 31\<close> blocks, where no sum wraps).\<close>

theorem lifetime_reservation_exact:
  assumes "held_ok s" and "kv_blocks (cache_manager s) < 2147483648"
  shows "held_ok (snd (schedule_next s)) \<and> held_ok (snd (preempt s rid why))
    \<and> held_ok (complete_step s rid n) \<and> held_ok (enqueue s r)"
proof -
  have "held_ok (snd (schedule_next s))" using held.loop.schedule_next_P [of s] assms by blast
  moreover have "held_ok (snd (preempt s rid why))"
    using held.preempt_P [of s rid why "fst (preempt s rid why)" "snd (preempt s rid why)"] assms by simp
  moreover have "held_ok (complete_step s rid n)" using complete_step_held [OF assms(1)] .
  moreover have "held_ok (enqueue s r)"
    using assms(1) by (simp add: held_ok_def held_sum_def enqueue_def pool_stats_def)
  ultimately show ?thesis by blast
qed

theorem lifetime_reservation_exact_witness:
  "held_ok (snd (preempt demo_running 10 ''test'')) \<and> lifetime_held (snd (preempt demo_running 10 ''test'')) = 0"
proof -
  have "kv_blocks (cache_manager demo_running) = 4" by code_simp
  then have "held_ok (snd (preempt demo_running 10 ''test''))"
    using lifetime_reservation_exact [OF demo_running_inv(2)] by simp
  moreover have "lifetime_held (snd (preempt demo_running 10 ''test'')) = 0" by code_simp
  ultimately show ?thesis by simp
qed

text \<open>C26. Preempting a request and resuming it again is invisible to the cache's content and to the
  accounting: when the frames are available the resume succeeds, every sequence has the content it
  had, the waiting and preempted queues and the held counter are as before, and the request is
  back at the end of the active queue with the same prefill left to do.\<close>

theorem preempt_resume_round_trip:
  assumes "sched_inv s" and "held_ok s" and "kv_inv (cache_manager s)"
    and "swap_room (allocator (cache_manager s))
      (sum_list (map (seq_blocks (cache_manager s)) (sequences_for (cache_manager s) rid)))"
    and "preempt s rid why = (True, s1)"
    and "sum_list (map (kv_swapped (cache_manager s1)) (sequences_for (cache_manager s1) rid)) < 4294967296"
    and "sum_list (map (kv_swapped (cache_manager s1)) (sequences_for (cache_manager s1) rid))
      \<le> length (free_list (allocator (cache_manager s1)))"
    and "resume s1 rid = (ok, s2)"
  shows "ok \<and> kv_inv (cache_manager s2) \<and> kv_view (cache_manager s2) = kv_view (cache_manager s)
    \<and> pending s2 = pending s \<and> preempted s2 = preempted s \<and> lifetime_held s2 = lifetime_held s
    \<and> tracked s2 = tracked s \<and> request_id (last (active s2)) = rid
    \<and> (\<exists>i. find_request (active s) rid = Some i
        \<and> remaining_prefill_tokens (last (active s2)) = remaining_prefill_tokens (active s ! i))"
proof -
  let ?kv = "cache_manager s" and ?kv1 = "cache_manager s1"
  have "?kv1 = snd (swap_out_request ?kv rid)" using preempt_eq [OF assms(5)] by auto
  then have out: "kv_inv ?kv1 \<and> kv_same ?kv ?kv1"
    using swap_out_sequences_step [OF assms(3), of "sequences_for ?kv rid" 0 0 "fst (swap_out_request ?kv rid)" ?kv1]
      assms(4) by (simp add: swap_out_request_def)
  obtain ok' kv2 where run: "swap_in_request ?kv1 rid = (ok', kv2)" by fastforce
  note restore = swap_in_request_step [OF conjunct1 [OF out] assms(6) run]
  have ok' using restore(3) assms(7) by simp
  obtain j where j: "find_request (preempted s1) rid = Some j" using preempt_preempted [OF assms(5)] by blast
  then have ok and kv2: "cache_manager s2 = kv2"
    using assms(8) run \<open>ok'\<close> find_request_Some [OF j] by (auto simp: resume_def Let_def)
  have res: "resume s1 rid = (True, s2)" using assms(8) \<open>ok\<close> by simp
  obtain i where i: "find_request (active s) rid = Some i" "i < length (active s)"
    and q: "pending s2 = pending s" "preempted s2 = preempted s" "lifetime_held s2 = lifetime_held s"
    and act: "map request_id (active s2) = map request_id (erase_at i (active s)) @ [rid]"
    and rem: "remaining_prefill_tokens (last (active s2)) = remaining_prefill_tokens (active s ! i)"
    using preempt_resume_queues [OF assms(1,2,5) res] by metis
  have "tracked s2 = tracked s"
    using act q mset_map_erase_at [OF i(2), of request_id] find_request_Some [OF i(1)] by (simp add: tracked_def)
  moreover have "request_id (last (active s2)) = rid"
    using act by (metis last_map last_snoc map_is_Nil_conv snoc_eq_iff_butlast)
  ultimately show ?thesis
    using \<open>ok\<close> kv2 restore(1,2) out q i rem by (auto simp: kv_same_def)
qed

theorem preempt_resume_round_trip_witness:
  "fst (resume (snd (preempt demo_running 10 ''test'')) 10)
   \<and> kv_view (cache_manager (snd (resume (snd (preempt demo_running 10 ''test'')) 10))) = kv_view demo_kv2
   \<and> free_blocks (pool_stats (snd (preempt demo_running 10 ''test''))) = 4"
proof -
  let ?s1 = "snd (preempt demo_running 10 ''test'')"
  have kv: "cache_manager demo_running = demo_kv2" by (simp add: demo_running_def)
  have "sequences_for demo_kv2 10 = [1]" by code_simp
  then have room: "swap_room (allocator (cache_manager demo_running))
      (sum_list (map (seq_blocks (cache_manager demo_running)) (sequences_for (cache_manager demo_running) 10)))"
    using demo_swap_room demo_blocks by (simp add: kv)
  have "fst (preempt demo_running 10 ''test'')" by code_simp
  then have run: "preempt demo_running 10 ''test'' = (True, ?s1)" by (metis prod.collapse eq_True)
  have two: "sum_list (map (kv_swapped (cache_manager ?s1)) (sequences_for (cache_manager ?s1) 10)) = 2"
    and four: "length (free_list (allocator (cache_manager ?s1))) = 4" by code_simp+
  have free: "free_blocks (pool_stats ?s1) = 4" by code_simp
  have inv: "kv_inv (cache_manager demo_running)" using demo_kv2_inv by (simp add: kv)
  show ?thesis
    using preempt_resume_round_trip [OF demo_running_inv inv room run _ _ surjective_pairing] two four free
    by (simp add: kv)
qed

text \<open>C27. Cancelling a tracked request removes exactly that request and exactly its sequences: the
  other requests stay, no sequence of the cancelled one remains, and all other sequences keep their
  content.\<close>

theorem cancel_removes_request:
  assumes "kv_inv (cache_manager s)" and "rid \<in># tracked s"
  shows "tracked s = add_mset rid (tracked (cancel s rid)) \<and> kv_inv (cache_manager (cancel s rid))
    \<and> sequences_for (cache_manager (cancel s rid)) rid = []
    \<and> (\<forall>sid. request_of (sequences (cache_manager s)) sid \<noteq> Some rid \<longrightarrow>
         kv_view (cache_manager (cancel s rid)) sid = kv_view (cache_manager s) sid)"
proof -
  let ?kv = "cache_manager s"
  have "sid \<in> set (sequences_for ?kv rid) \<longleftrightarrow> request_of (sequences ?kv) sid = Some rid" for sid
    using kv_inv_parts(3) [OF assms(1)] by (simp add: index_ok_def)
  then show ?thesis
    using release_sequences_step [OF assms(1), of "sequences_for ?kv rid"] cancel_tracked [OF assms(2)]
    by (simp add: release_request_def)
qed

theorem cancel_removes_request_witness:
  "tracked (cancel demo_running 10) = {#} \<and> sequences_for (cache_manager (cancel demo_running 10)) 10 = []"
proof -
  have kv: "kv_inv (cache_manager demo_running)" using demo_kv2_inv by (simp add: demo_running_def)
  have one: "tracked demo_running = {#10#}"
    by (simp add: tracked_def demo_defs)
  then have "10 \<in># tracked demo_running" by simp
  from cancel_removes_request [OF kv this] show ?thesis using one by simp
qed

text \<open>C28. A flaw of the accounting, in general: \<^verbatim>\<open>preempt\<close> gives a request's reservation back, and \<^verbatim>\<open>cancel\<close>
  takes it off a second time. From any state that satisfies the scheduler's invariant and in which the counter is
  exact, on a pool below \<open>2 ^ 31\<close> blocks, preempting a request with a
  reservation leaves it exact, but cancelling the request then leaves the counter short by exactly that
  reservation, provided the other active requests hold at least as much (otherwise the guard of the
  subtraction skips it).\<close>

theorem cancel_after_preempt_undercounts:
  assumes "sched_inv s" and "held_ok s" and "kv_blocks (cache_manager s) < 2147483648"
    and "find_request (active s) rid = Some i" and "preempt s rid why = (True, s1)"
    and "0 < lifetime_blocks (active s ! i)" and "unat (lifetime_blocks (active s ! i)) \<le> held_sum s1"
  shows "held_ok s1 \<and> held_sum (cancel s1 rid) = held_sum s1
    \<and> unat (lifetime_held (cancel s1 rid)) = held_sum (cancel s1 rid) - unat (lifetime_blocks (active s ! i))
    \<and> \<not> held_ok (cancel s1 rid)"
proof -
  let ?r = "(active s ! i)\<lparr>rq_state := Preempted\<rparr>" and ?b = "lifetime_blocks (active s ! i)"
  have ok: "held_ok s1" using held.preempt_P [OF _ assms(5)] assms(2,3) by blast
  have act: "active s1 = erase_at i (active s)" and pre: "preempted s1 = preempted s @ [?r]" and pend: "pending s1 = pending s"
    using preempt_eq [OF assms(5)] assms(4) by auto
  have i: "i < length (active s)" "request_id (active s ! i) = rid" using find_request_Some [OF assms(4)] by simp_all
  have rid: "rid \<in> set (request_ids (active s))" using i by (auto simp: image_iff)
  have dist: "distinct (request_ids (pending s @ active s @ preempted s))" using sched_inv_parts(4) [OF assms(1)] .
  have "distinct (request_ids (take i (active s) @ (active s ! i) # drop (Suc i) (active s)))"
    using dist unfolding id_take_nth_drop [OF i(1), symmetric] by simp
  then have "rid \<notin> set (request_ids (active s1))" using i(2) by (auto simp: act erase_at_def)
  moreover have "rid \<notin> set (request_ids (pending s1))" and fresh: "rid \<notin> set (request_ids (preempted s))"
    using rid dist by (auto simp: pend)
  ultimately have none: "find_request (pending s1) rid = None" "find_request (active s1) rid = None"
    by (simp_all add: find_request_None)
  have at: "find_request (preempted s1) rid = Some (length (preempted s))"
    unfolding pre using fresh i(2) by (intro find_request_last) simp_all
  have le: "?b \<le> lifetime_held s1" using ok assms(7) by (simp add: held_ok_def word_le_nat_alt)
  have "cancel s1 rid = (drop_request s1 ?r rid)\<lparr>preempted := preempted s\<rparr>"
    using none at by (simp add: cancel_def pre)
  then have held: "lifetime_held (cancel s1 rid) = lifetime_held s1 - ?b" and same: "held_sum (cancel s1 rid) = held_sum s1"
    using assms(6) le by (simp_all add: drop_request_def held_sum_def)
  have short: "unat (lifetime_held (cancel s1 rid)) = held_sum s1 - unat ?b"
    using ok by (simp add: held unat_sub [OF le] held_ok_def)
  have "0 < unat ?b" using assms(6) by (simp add: word_less_nat_alt)
  then have "unat (lifetime_held (cancel s1 rid)) \<noteq> held_sum (cancel s1 rid)" using assms(7) unfolding short same by linarith
  then have "\<not> held_ok (cancel s1 rid)" by (simp add: held_ok_def)
  then show ?thesis using ok same short by simp
qed

theorem cancel_after_preempt_undercounts_witness:
  "held_ok (snd (preempt demo_sched2 1 ''test'')) \<and> \<not> held_ok (cancel (snd (preempt demo_sched2 1 ''test'')) 1)"
proof -
  have facts: "find_request (active demo_sched2) 1 = Some 0" "fst (preempt demo_sched2 1 ''test'')"
    "lifetime_blocks (active demo_sched2 ! 0) = 1" "held_sum (snd (preempt demo_sched2 1 ''test'')) = 2" by code_simp+
  have "preempt demo_sched2 1 ''test'' = (True, snd (preempt demo_sched2 1 ''test''))"
    using facts(2) by (metis prod.collapse eq_True)
  from cancel_after_preempt_undercounts [OF demo_sched2_inv demo_sched2_small facts(1) this] facts(3,4) show ?thesis by simp
qed

text \<open>The same on a small system, followed to the end: with a one-block and a two-block request active, preempting
  and cancelling the first leaves the counter at one block although the second holds two. Cancelling
  the second too then takes two from one: the subtraction is guarded and leaves one block reserved
  by nobody. A request for the whole pool, which the new scheduler starts at once, is not
  admitted by the idle one.\<close>

theorem cancel_after_preempt_example:
  "lifetime_held (cancel (snd (preempt demo_sched2 1 ''test'')) 1) = 1
   \<and> held_sum (cancel (snd (preempt demo_sched2 1 ''test'')) 1) = 2
   \<and> active demo_drained = [] \<and> preempted demo_drained = [] \<and> pending demo_drained = []
   \<and> lifetime_held demo_drained = 1
   \<and> prefill_requests (fst (schedule_next (enqueue demo_sched (demo_request 3 8)))) = [3]
   \<and> prefill_requests (fst (schedule_next (enqueue demo_drained (demo_request 3 8)))) = []"
  by code_simp

text \<open>An example of a flaw of victim protection: an empty prompt is admitted without a prefill entry, so the
  number of entries undercounts the requests just admitted, and a third admission can preempt a
  request that the same plan already prefills.\<close>

theorem empty_prompt_plan_names_preempted_request:
  "1 \<in> set (prefill_requests (fst (schedule_next (enqueue (enqueue (enqueue demo_sched
       (demo_request 1 4)) (demo_request 2 0)) (demo_request 3 3)))))
   \<and> request_state (snd (schedule_next (enqueue (enqueue (enqueue demo_sched
       (demo_request 1 4)) (demo_request 2 0)) (demo_request 3 3)))) 1 = Some Preempted"
  by code_simp

section \<open>Reading the cache: views and attention\<close>

text \<open>C29. Reading through a cache view is reading the sequence's content: a slot is found exactly when
  the token's block exists and is resident and the layer, token and head are stored; the vector it
  addresses lies inside the pool, and its bytes are those of the token's block in the abstract
  content of the sequence, at the layout's offset.\<close>

theorem cache_view_reads_content:
  assumes "kv_inv kv" and "cache_view kv sid kind = Some v" and "view_valid v"
    and "sz = ucast (bytes_per_element (pool_shape kv))" and "layout_fits (view_layout v)"
    and "layout_elements (view_layout v) * unat sz \<le> unat (block_stride_bytes (allocator kv))"
  shows "(view_slot v sz stream layer token h \<noteq> None \<longleftrightarrow>
      (\<exists>e. write_target kv sid token (table_of_layer v layer) = Some e \<and> swap_slot e = None)
      \<and> element_offset (view_layout v) (offset_layer v layer) stream (token mod kv_tokens_per_block kv) h \<noteq> None)
    \<and> (\<forall>a. view_slot v sz stream layer token h = Some a \<longrightarrow>
        (\<exists>content bs off. kv_view kv sid = Some content
          \<and> content ! unat (table_of_layer v layer) ! unat (token div kv_tokens_per_block kv) = Some bs
          \<and> element_offset (view_layout v) (offset_layer v layer) stream (token mod kv_tokens_per_block kv) h = Some off
          \<and> unat a + unat (head_dim (pool_shape kv)) * unat sz \<le> length (pool (allocator kv))
          \<and> segment (unat a) (unat (head_dim (pool_shape kv)) * unat sz) (pool (allocator kv))
            = segment (unat off * unat sz) (unat (head_dim (pool_shape kv)) * unat sz) bs))"
proof -
  note slot = view_slot_eq [OF assms(1-4), of stream layer token h]
  have "\<exists>content bs off. kv_view kv sid = Some content
      \<and> content ! unat (table_of_layer v layer) ! unat (token div kv_tokens_per_block kv) = Some bs
      \<and> element_offset (view_layout v) (offset_layer v layer) stream (token mod kv_tokens_per_block kv) h = Some off
      \<and> unat a + unat (head_dim (pool_shape kv)) * unat sz \<le> length (pool (allocator kv))
      \<and> segment (unat a) (unat (head_dim (pool_shape kv)) * unat sz) (pool (allocator kv))
        = segment (unat off * unat sz) (unat (head_dim (pool_shape kv)) * unat sz) bs"
    if a: "view_slot v sz stream layer token h = Some a" for a
  proof -
    obtain e off where e: "write_target kv sid token (table_of_layer v layer) = Some e" "swap_slot e = None"
      and off: "element_offset (view_layout v) (offset_layer v layer) stream (token mod kv_tokens_per_block kv) h = Some off"
      using slot a by (cases "element_offset (view_layout v) (offset_layer v layer) stream (token mod kv_tokens_per_block kv) h")
        (auto split: option.splits if_splits)
    note read = view_slot_content [OF assms e off a]
    obtain content where "kv_view kv sid = Some content"
      "content ! unat (table_of_layer v layer) ! unat (token div kv_tokens_per_block kv)
        = Some (frame_of (allocator kv) (physical_id e))"
      using write_target_content [OF e] by blast
    then show ?thesis using off read by blast
  qed
  moreover have "view_slot v sz stream layer token h \<noteq> None \<longleftrightarrow>
      (\<exists>e. write_target kv sid token (table_of_layer v layer) = Some e \<and> swap_slot e = None)
      \<and> element_offset (view_layout v) (offset_layer v layer) stream (token mod kv_tokens_per_block kv) h \<noteq> None"
    using slot by (auto split: option.splits)
  ultimately show ?thesis by blast
qed

theorem cache_view_reads_content_witness:
  "\<exists>a. view_slot demo_view 1 Value 0 2 0 = Some a \<and> unat a + 1 \<le> length (pool (allocator demo_kv2))"
proof -
  have some: "view_slot demo_view 1 Value 0 2 0 \<noteq> None" and dim: "head_dim (pool_shape demo_kv2) = 1" by code_simp+
  then obtain a where a: "view_slot demo_view 1 Value 0 2 0 = Some a" by blast
  have "(1::u64) = ucast (bytes_per_element (pool_shape demo_kv2))" using demo_view_ok(5) by simp
  from cache_view_reads_content [OF demo_kv2_inv demo_view_eq demo_view_ok(1) this demo_view_ok(2)]
  have "unat a + unat (head_dim (pool_shape demo_kv2)) * unat (1::u64) \<le> length (pool (allocator demo_kv2))"
    using a demo_view_ok(3,4) by fastforce
  then show ?thesis using a dim by simp
qed

text \<open>C30. The blocked attention kernel is the reference kernel: for every floating-point arithmetic,
  rounding included, both return the same flag and leave the same output array, on every input
  whose context length does not wrap when rounded up to blocks. In particular a failure leaves the
  output untouched in both.\<close>

theorem attention_blocked_is_reference:
  assumes "context_ok v params"
  shows "paged_attention_decode_blocked A v query params out = paged_attention_decode A v query params out
    \<and> (\<not> fst (paged_attention_decode_blocked A v query params out) \<longrightarrow>
         snd (paged_attention_decode_blocked A v query params out) = out)"
proof -
  have "snd (paged_attention_decode A v query params out) = out" if "\<not> fst (paged_attention_decode A v query params out)"
    using that by (auto simp: paged_attention_decode_def Let_def split: option.splits if_splits)
  then show ?thesis using decode_blocked_eq [OF assms, of A query out] by simp
qed

theorem attention_blocked_is_reference_witness:
  "paged_attention_decode_blocked demo_arith demo_view (Some [3, 5]) (demo_params 1) (Some [0, 0]) = (True, Some [7, 7])"
proof -
  have "paged_attention_decode demo_arith demo_view (Some [3, 5]) (demo_params 1) (Some [0, 0]) = (True, Some [7, 7])"
    by code_simp
  then show ?thesis
    using attention_blocked_is_reference [OF demo_context_ok, of demo_arith "Some [3, 5]" 1 "Some [0, 0]"] by simp
qed

text \<open>C31. The fused kernel, which reads every key and value once per group of query heads, is the
  reference kernel up to two identities of its arithmetic: that products commute and that dividing
  is multiplying with the reciprocal.\<close>

theorem attention_fused_is_reference:
  assumes "context_ok v params" and "\<And>a b. fl_mul A a b = fl_mul A b a"
    and "\<And>a b. fl_mul A a (fl_div A (fl_one A) b) = fl_div A a b"
  shows "paged_attention_decode_fused A v query params out = paged_attention_decode A v query params out"
proof -
  have "recip_arith A" using assms(2,3) by (simp add: recip_arith_def)
  then show ?thesis using decode_fused_eq [OF assms(1)] by blast
qed

theorem attention_fused_is_reference_witness:
  "paged_attention_decode_fused demo_arith demo_view (Some [3, 5]) (demo_params 1) (Some [0, 0]) = (True, Some [7, 7])"
proof -
  have "paged_attention_decode demo_arith demo_view (Some [3, 5]) (demo_params 1) (Some [0, 0]) = (True, Some [7, 7])"
    by code_simp
  moreover have "fl_mul demo_arith a b = fl_mul demo_arith b a"
    "fl_mul demo_arith a (fl_div demo_arith (fl_one demo_arith) b) = fl_div demo_arith a b" for a b
    using demo_arith_recip by (simp_all add: recip_arith_def)
  ultimately show ?thesis using attention_fused_is_reference [OF demo_context_ok, of demo_arith] by metis
qed

text \<open>C32. The online kernel, which rescales its sums whenever a larger score appears instead of
  finding the maximum first, computes the reference's result in exact arithmetic: over the real
  numbers the two agree on every query, context and layer.\<close>

theorem attention_online_is_reference:
  assumes "context_ok v params" and "pa_scale params = Fin scale"
  shows "paged_attention_decode_fast (exact_arith sz parse val bk) v query params out
    = paged_attention_decode (exact_arith sz parse val bk) v query params out"
  using assms by (rule decode_fast_eq)

theorem attention_online_is_reference_witness:
  "paged_attention_decode_fast (exact_arith 1 hd (\<lambda>b::u8. real (unat b)) (\<lambda>_. 0)) demo_view (Some [3, 5])
      (demo_params (Fin 1)) (Some [0, 0])
   = paged_attention_decode (exact_arith 1 hd (\<lambda>b::u8. real (unat b)) (\<lambda>_. 0)) demo_view (Some [3, 5])
      (demo_params (Fin 1)) (Some [0, 0])"
proof -
  have "pa_scale (demo_params (Fin 1)) = Fin 1" by (simp add: demo_params_def)
  from attention_online_is_reference [OF demo_context_ok this] show ?thesis .
qed

section \<open>The contiguous baseline of the replay\<close>

text \<open>C33. On a pool of fewer than \<open>2 ^ 32\<close> blocks, the baseline's first-fit search for at least one block returns the start of the leftmost free run of
  the requested length, and fails exactly when no such run exists. A search for zero blocks, which an empty prompt
  with an empty budget causes, fails exactly when no block is in use, that is, on an empty pool.\<close>

theorem first_fit_leftmost:
  assumes "length us < 4294967296"
  shows "(n \<noteq> 0 \<longrightarrow> (first_fit us n = None \<longleftrightarrow> (\<forall>i. \<not> run_free us (unat n) i))
      \<and> (\<forall>i. first_fit us n = Some i \<longrightarrow> run_free us (unat n) (unat i) \<and> (\<forall>j<unat i. \<not> run_free us (unat n) j)))
    \<and> (n = 0 \<longrightarrow> (first_fit us n = None \<longleftrightarrow> True \<notin> set us))"
  using first_fit_correct [OF assms, of n] first_fit_zero [OF assms] by (auto simp: fit_ok_def split: option.splits)

theorem first_fit_leftmost_witness:
  "first_fit [True, False, True, False, False] 2 = Some 3 \<and> run_free [True, False, True, False, False] 2 3"
proof -
  have "first_fit [True, False, True, False, False] 2 = Some 3" by code_simp
  then show ?thesis using first_fit_leftmost [of "[True, False, True, False, False]" 2] by fastforce
qed

text \<open>C34. A baseline run ends within \<^verbatim>\<open>max_steps\<close> steps. In the state its loop ends in, the active reservations are
  pairwise disjoint, the used flags and the counter of used blocks are exactly theirs, and the requests taken from the
  trace so far are the active ones and the ones counted as completed (to which the code also counts a request it
  can never serve). The reported metrics are those of that state, and when the run reports that every
  request completed, it reports that no block leaked, and in that state no reservation is active and no flag is set.\<close>

theorem contiguous_run_leak_free:
  assumes "s = baseline_loop trace cfg (byte_size (replay_shape trace cfg)) (baseline_start trace cfg)"
  shows "baseline_inv trace cfg s \<and> steps (run_contiguous trace cfg) \<le> max_steps cfg
    \<and> run_contiguous trace cfg = (metrics s)\<lparr>requests_completed := of_nat (completed_count s),
        rm_completed := (completed_count s = length (requests trace)), leak_free := (blocks_in_use s = 0)\<rparr>
    \<and> (rm_completed (run_contiguous trace cfg) \<longrightarrow>
         leak_free (run_contiguous trace cfg) \<and> bl_active s = [] \<and> True \<notin> set (used s))"
proof -
  have run: "run_contiguous trace cfg = (metrics s)\<lparr>requests_completed := of_nat (completed_count s),
        rm_completed := (completed_count s = length (requests trace)), leak_free := (blocks_in_use s = 0)\<rparr>"
    by (simp add: run_contiguous_def assms replay_shape_def Let_def)
  have inv: "baseline_inv trace cfg s"
    using run_contiguous_result(3) [of trace cfg] by (simp add: assms replay_shape_def)
  have "bl_active s = [] \<and> True \<notin> set (used s)" if "rm_completed (run_contiguous trace cfg)"
  proof -
    have "completed_count s = length (requests trace)" using that by (simp add: run)
    then have "length (bl_active s) = 0" using inv unfolding baseline_inv_def by linarith
    then have "bl_active s = []" by simp
    then show ?thesis using inv by (auto simp: baseline_inv_def all_cells_def in_set_conv_nth)
  qed
  then show ?thesis using run inv run_contiguous_result(1,2) [of trace cfg] by simp
qed

theorem contiguous_run_leak_free_witness:
  "rm_completed (run_contiguous demo_trace demo_replay_config) \<and> leak_free (run_contiguous demo_trace demo_replay_config)"
proof -
  have "rm_completed (run_contiguous demo_trace demo_replay_config)" by code_simp
  then show ?thesis using contiguous_run_leak_free [OF refl, of demo_trace demo_replay_config] by blast
qed

section \<open>The replay tool\<close>

text \<open>C35. Reading a trace is exact: \<^verbatim>\<open>load_trace\<close> returns a trace if and only if the file can be opened, every
  non-empty line of it is a record (JSON of the kind \<^verbatim>\<open>header\<close> with the supported schema version and all header
  fields, or of the kind \<^verbatim>\<open>request\<close> with all request fields) and there is a header; the trace is then the last
  header and all requests in the order of the file. So one bad line anywhere rejects the file. In every request
  read, the multimodal spans are exactly the visual position spans, numbered from zero in order.\<close>

theorem load_trace_exact:
  "(load_trace J files path = Inr t \<longleftrightarrow>
      (\<exists>input rs. files path = Some input \<and> map (read_record J) (trace_lines input) = map Some rs
         \<and> record_headers rs \<noteq> [] \<and> t = \<lparr>header = last (record_headers rs), requests = record_requests rs\<rparr>))
   \<and> (load_trace J files path = Inr t \<longrightarrow>
      (\<forall>r\<in>set (requests t). tr_multimodal_spans r = visual_spans (tr_positional_encoding r)))"
  using load_trace_ok [of J files path t] load_trace_visual_spans [of J files path t] by blast

theorem load_trace_exact_witness:
  "load_trace demo_api demo_files ''t'' = Inr demo_file_trace
   \<and> tr_multimodal_spans (hd (requests demo_file_trace)) = visual_spans (tr_positional_encoding (hd (requests demo_file_trace)))
   \<and> length (tr_multimodal_spans (hd (requests demo_file_trace))) = 1"
proof -
  have "hd (requests demo_file_trace) \<in> set (requests demo_file_trace)"
    "length (tr_multimodal_spans (hd (requests demo_file_trace))) = 1"
    by (simp_all add: demo_file_trace_def)
  then show ?thesis
    using load_trace_exact [of demo_api demo_files "''t''" demo_file_trace] demo_file_loads by blast
qed

text \<open>C36. A CSV row can be read by the names of the header. When the three strings of the trace's header, the
  mode and the formatted utilization contain no comma, header and row have the same number of fields, the column
  names are distinct, and the field under each name is the value of that name (\<open>csv_table\<close>).\<close>

theorem csv_row_matches_header:
  assumes "list_all (\<lambda>txt. CHR '','' \<notin> set txt)
      [th_mix (header trace), th_pixel_budget (header trace), th_dimension_source (header trace), mode m,
       dbl_fixed6 D (utilization D m)]"
  shows "zip (split_on (CHR '','') csv_header) (split_on (CHR '','') (to_csv_row D trace cfg m)) = csv_table D trace cfg m
    \<and> length (split_on (CHR '','') (to_csv_row D trace cfg m)) = length (split_on (CHR '','') csv_header)
    \<and> distinct (split_on (CHR '','') csv_header)"
  using split_csv_row [of trace m D cfg] assms csv_columns_distinct [of D trace cfg m]
  by (simp add: split_csv_header [of D trace cfg m] zip_map_fst_snd)

theorem csv_row_matches_header_witness:
  "zip (split_on (CHR '','') csv_header)
     (split_on (CHR '','') (to_csv_row demo_doubles demo_trace demo_replay_config (fresh_metrics ''paged'')))
   = csv_table demo_doubles demo_trace demo_replay_config (fresh_metrics ''paged'')"
proof -
  have "list_all (\<lambda>txt. CHR '','' \<notin> set txt)
      [th_mix (header demo_trace), th_pixel_budget (header demo_trace), th_dimension_source (header demo_trace),
       mode (fresh_metrics ''paged''), dbl_fixed6 demo_doubles (utilization demo_doubles (fresh_metrics ''paged''))]"
    by (simp add: demo_trace_def fresh_metrics_def demo_doubles_def)
  from csv_row_matches_header [OF this] show ?thesis by blast
qed

text \<open>C37. The replay tool reports on all traces or on none. Given the command line that spells out some
  options (every option the tool has, each number in decimal), with every trace readable and within the limits of the
  replay, it ends with exit code 0 and has written the header and, per trace and in order, the row of the paged
  run and, unless that was switched off, the row of the baseline: to the console, or appended to the CSV file, with the
  header only when the file was empty. When instead the first trace that is not such is unreadable, it ends with exit code 1
  and the reader's message, and neither the console nor the file has received anything.\<close>

theorem replay_main_all_or_nothing:
  assumes "expressible opts" and "opt_traces opts \<noteq> []"
    and "list_all (replayable J files slabs opts) (take k (enumerate 0 (opt_traces opts)))"
    and "out = replay_main J D files append_to slabs (command_line opts)"
    and "rows = concat (map (trace_rows J D files slabs opts) (enumerate 0 (opt_traces opts)))"
  shows "(k = length (opt_traces opts) \<and> opt_csv_path opts = [] \<longrightarrow>
        tool_end out = Exit 0 \<and> cout out = csv_header @ newline @ row_lines rows \<and> csv_file out = None)
    \<and> (\<forall>old. k = length (opt_traces opts) \<and> opt_csv_path opts \<noteq> [] \<and> append_to (opt_csv_path opts) = Some old \<longrightarrow>
        tool_end out = Exit 0 \<and> cout out = []
        \<and> csv_file out = Some (opt_csv_path opts, old @ (if old = [] then csv_header @ newline else []) @ row_lines rows))
    \<and> (\<forall>msg. k < length (opt_traces opts) \<and> load_trace J files (opt_traces opts ! k) = Inl msg \<longrightarrow>
        tool_end out = Exit 1 \<and> cout out = [] \<and> csv_file out = None \<and> (\<exists>log. cerr out = log @ msg @ newline))"
proof (intro conjI allI impI)
  assume k: "k = length (opt_traces opts) \<and> opt_csv_path opts = []"
  then show "tool_end out = Exit 0" "cout out = csv_header @ newline @ row_lines rows" "csv_file out = None"
    using replay_main_ok [OF assms(1,2), of J files slabs D append_to] assms(3) by (auto simp: assms(4,5) write_rows_def)
next
  fix old
  assume k: "k = length (opt_traces opts) \<and> opt_csv_path opts \<noteq> [] \<and> append_to (opt_csv_path opts) = Some old"
  then show "tool_end out = Exit 0" "cout out = []"
    "csv_file out = Some (opt_csv_path opts, old @ (if old = [] then csv_header @ newline else []) @ row_lines rows)"
    using replay_main_ok [OF assms(1,2), of J files slabs D append_to] assms(3) by (auto simp: assms(4,5) write_rows_def)
next
  fix msg
  assume "k < length (opt_traces opts) \<and> load_trace J files (opt_traces opts ! k) = Inl msg"
  then show "tool_end out = Exit 1" "cout out = []" "csv_file out = None" "\<exists>log. cerr out = log @ msg @ newline"
    using replay_main_unreadable [OF assms(1,3), of msg D append_to] by (auto simp: assms(4) stopped_def)
qed

theorem replay_main_all_or_nothing_witness:
  "tool_end (replay_main demo_api demo_doubles demo_files (\<lambda>_. None) (\<lambda>_. Some (replicate 256 0)) (command_line demo_options)) = Exit 0
   \<and> tool_end (replay_main demo_api demo_doubles (\<lambda>_. None) (\<lambda>_. None) (\<lambda>_. None) (command_line demo_options)) = Exit 1"
proof
  have traces: "opt_traces demo_options = [''t'']" "opt_csv_path demo_options = []" by (simp_all add: demo_options_def)
  then have ne: "opt_traces demo_options \<noteq> []" by simp
  have "list_all (replayable demo_api demo_files (\<lambda>_. Some (replicate 256 0)) demo_options)
      (take (length (opt_traces demo_options)) (enumerate 0 (opt_traces demo_options)))"
    using demo_options_replayable by simp
  from replay_main_all_or_nothing [OF demo_options_expressible ne this refl refl] traces
  show "tool_end (replay_main demo_api demo_doubles demo_files (\<lambda>_. None) (\<lambda>_. Some (replicate 256 0)) (command_line demo_options)) = Exit 0"
    by blast
  have "list_all (replayable demo_api (\<lambda>_. None) (\<lambda>_. None) demo_options) (take 0 (enumerate 0 (opt_traces demo_options)))"
    by simp
  from replay_main_all_or_nothing [OF demo_options_expressible ne this refl refl, of demo_doubles "\<lambda>_. None"]
  show "tool_end (replay_main demo_api demo_doubles (\<lambda>_. None) (\<lambda>_. None) (\<lambda>_. None) (command_line demo_options)) = Exit 1"
    by (simp add: traces load_trace_def)
qed

section \<open>The fixture exporter\<close>

text \<open>C38. Exporting a scenario succeeds and the fixture is right. For every scenario within the limits of the
  tool, over a slab of the size the allocator asks for, whatever it contains, no check of the exporter
  fails: every reservation and every copy finds a frame, a scattered scenario is scattered, the
  reference kernel accepts the batch and its output agrees with the cross check. The output file holds
  the textbook attention computed from the pattern without any cache, exactly, and a consumer
  that follows the exported block table and strides through the exported pool reads the pattern at
  every token of every context. \<open>float_ok\<close> says that \<^verbatim>\<open>float\<close> has four bytes and survives being stored;
  \<open>self_checks\<close> that the expected values are numbers, for which x - x is within the tolerance.\<close>

theorem export_scenario_textbook:
  assumes "float_ok F" and "scenario_ok sc" and "slab_for (exporter_config sc (scenario_pool_blocks sc)) slab"
    and "\<forall>i<length (sc_context_lens sc). self_checks F sc (scenario_shape sc) i"
  shows "\<exists>bytes frames.
      export_scenario F (Some slab) sc
        = Inr (fixture_files F sc (scenario_shape sc) bytes (scenario_pool_blocks sc) (foldl max 0 (blocks_per_seq sc)) frames)
      \<and> (\<forall>i<length (sc_context_lens sc). reads_pattern F sc bytes frames i
           \<and> length (frames i) = blocks_for (sc_tokens_per_block sc) (sc_context_lens sc ! i))"
  using assms by (rule export_scenario_files)

theorem export_scenario_textbook_witness:
  "\<exists>bytes frames. export_scenario demo_floats (Some (replicate 2048 0)) demo_scenario
     = Inr (fixture_files demo_floats demo_scenario (scenario_shape demo_scenario) bytes (scenario_pool_blocks demo_scenario)
         (foldl max 0 (blocks_per_seq demo_scenario)) frames)"
  using export_scenario_textbook [OF demo_floats_ok demo_scenario_ok demo_scenario_slab] demo_floats_check by blast

text \<open>C39. The exporter runs to the end: with slabs of the right sizes \<^verbatim>\<open>main\<close> returns 0 and has written a correct
  fixture, in the sense of the previous property, for each of its four scenarios and for the churn
  scenario. In the last one the pool starts out full of other values, the second sequence is a fork
  whose blocks were all copied on write, and the third is built on the frames of a released
  sequence; the checks the code makes of these premises hold.\<close>

theorem golden_main_succeeds:
  assumes "float_ok F"
    and "list_all2 (\<lambda>slab sc. slab_for (exporter_config sc (scenario_pool_blocks sc)) slab) slabs (scenarios F)"
    and "slab_for (exporter_config (churn_scenario F) 10) churn_slab"
    and "list_all (all_self_check F) (scenarios F)" and "all_self_check F (churn_scenario F)"
  shows "\<exists>fss churn_files. golden_main F (map Some slabs) (Some churn_slab) = (0, concat fss @ churn_files)
    \<and> list_all2 (\<lambda>sc. fixture_of F sc (scenario_pool_blocks sc) (foldl max 0 (blocks_per_seq sc))) (scenarios F) fss
    \<and> fixture_of F (churn_scenario F) 10 3 churn_files"
  using assms by (rule golden_main_ok)

theorem golden_main_succeeds_witness: "fst (golden_main demo_floats (map Some demo_slabs) (Some (replicate 10240 0))) = 0"
proof -
  have checks: "list_all (all_self_check demo_floats) (scenarios demo_floats)" "all_self_check demo_floats (churn_scenario demo_floats)"
    using demo_floats_check by (simp_all add: list_all_iff)
  from golden_main_succeeds [OF demo_floats_ok demo_slabs_ok demo_churn_slab checks] show ?thesis by auto
qed

text \<open>C40. A \<^verbatim>\<open>.npy\<close> file is laid out as the format asks: the magic string and version, the length of the header
  in two bytes, least significant first, the header, newline-terminated and padded so that the data
  starts at a multiple of 64 bytes, and then as many bytes of the data as the shape says.\<close>

theorem npy_file_layout:
  assumes "length descr \<le> 100" and "length shape \<le> 2000"
  shows "take 8 (write_npy descr shape data element_bytes) = npy_magic
    \<and> unat (write_npy descr shape data element_bytes ! 8) + 256 * unat (write_npy descr shape data element_bytes ! 9)
        = length (npy_header descr shape)
    \<and> (10 + length (npy_header descr shape)) mod 64 = 0 \<and> last (npy_header descr shape) = CHR 0x0A
    \<and> segment 10 (length (npy_header descr shape)) (write_npy descr shape data element_bytes) = map of_char (npy_header descr shape)
    \<and> drop (10 + length (npy_header descr shape)) (write_npy descr shape data element_bytes)
        = take (unat (foldl (*) 1 shape * element_bytes)) data"
proof -
  note layout = write_npy_layout [OF assms]
  have "last (npy_header descr shape) = CHR 0x0A" by (simp add: npy_header_def Let_def)
  then show ?thesis using layout(1,2,5,6) [of data element_bytes] layout(3) by simp
qed

theorem npy_file_layout_witness:
  "drop (10 + length (npy_header ''<i4'' [1, 2])) (write_npy ''<i4'' [1, 2] [1, 0, 0, 0, 2, 0, 0, 0] 4) = [1, 0, 0, 0, 2, 0, 0, 0]"
proof -
  have "length ''<i4'' \<le> 100" "length [1 :: u64, 2] \<le> 2000" by simp_all
  from npy_file_layout [OF this, of "[1, 0, 0, 0, 2, 0, 0, 0]" 4] show ?thesis by simp
qed

end
